(* ===== verification/Prelude.thy ===== *)
theory Prelude
  imports Main "HOL-Library.Word"
begin

text \<open>
  What the components share: the faults a C++ call can end in, the constants of
  \<^verbatim>\<open>llama-cparams.h\<close>, loops over index ranges, and the ordered map
  \<^verbatim>\<open>std::map<llama_pos, int>\<close> that counts positions.

  Machine integers. \<^verbatim>\<open>llama_pos\<close>, \<^verbatim>\<open>llama_token\<close> and \<^verbatim>\<open>llama_seq_id\<close> are
  \<^verbatim>\<open>int32_t\<close> and are modelled by \<open>int\<close>; signed overflow is undefined in C++ and is never
  relied on. Sizes and indices (\<^verbatim>\<open>uint32_t\<close>, \<^verbatim>\<open>size_t\<close>) are \<open>nat\<close>. Where the code
  converts between the two or relies on the width, the conversion is written out with
  \<open>u32\<close> below.
\<close>

named_theorems cell_simps \<open>evaluation rules of the cell operations\<close>
named_theorems cell_intros \<open>preservation of the cell invariant\<close>

section \<open>Faults and results\<close>

text \<open>
  \<open>Abort\<close> is a failed \<^verbatim>\<open>GGML_ASSERT\<close>, \<open>Runtime_error\<close> a thrown
  \<^verbatim>\<open>std::runtime_error\<close>, \<open>Out_of_range\<close> a thrown \<^verbatim>\<open>std::out_of_range\<close>,
  \<open>Undefined\<close> an access the language gives no meaning to, and \<open>Diverges\<close> a loop that does not end.
\<close>

datatype fault = Abort | Runtime_error string | Out_of_range | Undefined | Diverges

type_synonym 'a res = "fault + 'a"

fun and_then :: "'a res \<Rightarrow> ('a \<Rightarrow> 'b res) \<Rightarrow> 'b res" where
  "and_then (Inl e) f = Inl e"
| "and_then (Inr x) f = f x"

lemma and_then_Inr: "and_then x f = Inr y \<longleftrightarrow> (\<exists>z. x = Inr z \<and> f z = Inr y)"
  by (cases x) auto

section \<open>Constants and machine integers\<close>

definition LLAMA_MAX_SEQ :: nat where
  "LLAMA_MAX_SEQ = 256"

definition INT32_MAX :: int where
  "INT32_MAX = 2147483647"

text \<open>The conversion of a signed value to \<^verbatim>\<open>uint32_t\<close>.\<close>

definition u32 :: "int \<Rightarrow> nat" where
  "u32 x = nat (x mod 2 ^ 32)"

text \<open>The order in which a sequence argument \<open>[p0, p1)\<close> is normalised by every operation of
  the cache: a negative lower bound means 0, a negative upper bound means no bound.\<close>

definition norm_p0 :: "int \<Rightarrow> int" where
  "norm_p0 p0 = (if p0 < 0 then 0 else p0)"

definition norm_p1 :: "int \<Rightarrow> int" where
  "norm_p1 p1 = (if p1 < 0 then INT32_MAX else p1)"

lemma norm_p0_nonneg [simp]: "0 \<le> norm_p0 p0"
  by (simp add: norm_p0_def)

lemma u32_small [simp]: "0 \<le> x \<Longrightarrow> x < 2 ^ 32 \<Longrightarrow> u32 x = nat x"
  by (simp add: u32_def)

lemma u32_less: "u32 x < 2 ^ 32"
  by (simp add: u32_def nat_less_iff)

section \<open>Loops over an index range\<close>

text \<open>A \<^verbatim>\<open>for\<close> loop over \<open>[0, n)\<close> is a \<open>fold\<close> over \<open>[0..<n]\<close>; its invariant speaks of
  the indices already visited.\<close>

lemma fold_upt_invariant:
  assumes "P 0 s" and "\<And>i t. i < n \<Longrightarrow> P i t \<Longrightarrow> P (Suc i) (f i t)"
  shows "P n (fold f [0..<n] s)"
  using assms
proof (induction n)
  case 0
  then show ?case by simp
next
  case (Suc n)
  then have "P n (fold f [0..<n] s)" by simp
  then show ?case using Suc.prems(2)[of n] by simp
qed

lemma fold_invariant_simple:
  assumes "P s" and "\<And>x t. x \<in> set xs \<Longrightarrow> P t \<Longrightarrow> P (f x t)"
  shows "P (fold f xs s)"
  using assms by (induction xs arbitrary: s) auto

lemma sum_upd_one:
  fixes P Q :: "nat \<Rightarrow> bool"
  assumes "i < n" and "\<And>j. j \<noteq> i \<Longrightarrow> Q j = P j"
  shows "(\<Sum>j<n. of_bool (Q j)) + of_bool (P i) = (\<Sum>j<n. of_bool (P j)) + (of_bool (Q i) :: nat)"
proof -
  have fin: "finite {..<n}" and mem: "i \<in> {..<n}" using assms(1) by auto
  have "(\<Sum>j\<in>{..<n} - {i}. of_bool (Q j)) = (\<Sum>j\<in>{..<n} - {i}. of_bool (P j) :: nat)"
    using assms(2) by (intro sum.cong) auto
  then show ?thesis
    using sum.remove[OF fin mem, of "\<lambda>j. of_bool (Q j) :: nat"]
      sum.remove[OF fin mem, of "\<lambda>j. of_bool (P j) :: nat"] by simp
qed

section \<open>The ordered map of position counts\<close>

text \<open>
  \<^verbatim>\<open>std::map<llama_pos, int>\<close> as the list of its entries in key order.
  \<open>smap_inc p\<close> is \<^verbatim>\<open>m[p]++\<close> (an absent key starts at 0); \<open>smap_dec p\<close> is
  \<^verbatim>\<open>if (--it->second == 0) m.erase(it)\<close> for \<^verbatim>\<open>it = m.find(p)\<close>. The code asserts that
  the key is there; the map is left alone where it is not.
\<close>

type_synonym smap = "(int \<times> nat) list"

fun smap_inc :: "int \<Rightarrow> smap \<Rightarrow> smap" where
  "smap_inc p [] = [(p, 1)]"
| "smap_inc p ((q, n) # m) =
     (if p < q then (p, 1) # (q, n) # m
      else if p = q then (q, Suc n) # m
      else (q, n) # smap_inc p m)"

fun smap_dec :: "int \<Rightarrow> smap \<Rightarrow> smap" where
  "smap_dec p [] = []"
| "smap_dec p ((q, n) # m) =
     (if p = q then (if n - 1 = 0 then m else (q, n - 1) # m) else (q, n) # smap_dec p m)"

fun smap_get :: "smap \<Rightarrow> int \<Rightarrow> nat" where
  "smap_get [] p = 0"
| "smap_get ((q, n) # m) p = (if p = q then n else smap_get m p)"

definition smap_wf :: "smap \<Rightarrow> bool" where
  "smap_wf m \<longleftrightarrow> sorted_wrt (<) (map fst m) \<and> (\<forall>e \<in> set m. 0 < snd e)"

text \<open>\<^verbatim>\<open>m.empty() ? -1 : m.begin()->first\<close> and \<^verbatim>\<open>m.rbegin()->first\<close>.\<close>

definition smap_min :: "smap \<Rightarrow> int" where
  "smap_min m = (case m of [] \<Rightarrow> - 1 | e # _ \<Rightarrow> fst e)"

definition smap_max :: "smap \<Rightarrow> int" where
  "smap_max m = (if m = [] then - 1 else fst (last m))"

lemma smap_wf_Nil [simp]: "smap_wf []"
  by (simp add: smap_wf_def)

lemma smap_wf_Cons: "smap_wf ((q, n) # m) \<longleftrightarrow> 0 < n \<and> (\<forall>e \<in> set m. q < fst e) \<and> smap_wf m"
  by (auto simp: smap_wf_def)

lemma fst_set_smap_inc: "fst ` set (smap_inc p m) = insert p (fst ` set m)"
  by (induction p m rule: smap_inc.induct) auto

lemma set_smap_dec_subset: "fst ` set (smap_dec p m) \<subseteq> fst ` set m"
  by (induction p m rule: smap_dec.induct) auto

lemma smap_get_notin: "p \<notin> fst ` set m \<Longrightarrow> smap_get m p = 0"
  by (induction m) auto

lemma smap_wf_inc [simp]: "smap_wf m \<Longrightarrow> smap_wf (smap_inc p m)"
proof (induction p m rule: smap_inc.induct)
  case (1 p)
  then show ?case by (simp add: smap_wf_def)
next
  case (2 p q n m)
  have lt: "q < k" if "k \<in> fst ` set (smap_inc p m)" "q < p" for k
    using that 2 by (auto simp: fst_set_smap_inc smap_wf_Cons)
  show ?case using 2 lt by (auto simp: smap_wf_Cons)
qed

lemma smap_wf_dec [simp]: "smap_wf m \<Longrightarrow> smap_wf (smap_dec p m)"
proof (induction p m rule: smap_dec.induct)
  case (1 p)
  then show ?case by simp
next
  case (2 p q n m)
  have "q < k" if "k \<in> fst ` set (smap_dec p m)" for k
    using that set_smap_dec_subset[of p m] 2 by (force simp: smap_wf_Cons)
  then show ?case using 2 by (auto simp: smap_wf_Cons)
qed

lemma smap_get_inc [simp]:
  "smap_wf m \<Longrightarrow> smap_get (smap_inc p m) q = smap_get m q + of_bool (p = q)"
proof (induction p m rule: smap_inc.induct)
  case (2 p k n m)
  have "p \<notin> fst ` set ((k, n) # m)" if "p < k"
    using that 2(2) by (auto simp: smap_wf_Cons)
  then show ?case using 2 smap_get_notin[of p "(k, n) # m"] by (auto simp: smap_wf_Cons)
qed simp

lemma smap_get_dec:
  "smap_wf m \<Longrightarrow> smap_get (smap_dec p m) q = smap_get m q - of_bool (p = q)"
proof (induction p m rule: smap_dec.induct)
  case (2 p k n m)
  have "smap_get m k = 0" using 2(2) by (intro smap_get_notin) (auto simp: smap_wf_Cons)
  then show ?case using 2 by (auto simp: smap_wf_Cons)
qed simp

lemma smap_get_pos_iff: "smap_wf m \<Longrightarrow> 0 < smap_get m p \<longleftrightarrow> p \<in> fst ` set m"
  by (induction m p rule: smap_get.induct) (auto simp: smap_wf_Cons)

lemma smap_Nil_iff: "smap_wf m \<Longrightarrow> m = [] \<longleftrightarrow> (\<forall>p. smap_get m p = 0)"
  by (cases m) (auto simp: smap_wf_Cons intro!: exI)

lemma smap_min_eq:
  assumes "smap_wf m"
  shows "smap_min m = (if {p. 0 < smap_get m p} = {} then - 1 else Min {p. 0 < smap_get m p})"
proof (cases m)
  case Nil
  then show ?thesis by (simp add: smap_min_def)
next
  case (Cons e m')
  have keys: "{p. 0 < smap_get m p} = fst ` set m" using smap_get_pos_iff[OF assms] by auto
  have "Min (fst ` set m) = fst e"
    using assms Cons by (intro Min_eqI) (auto simp: smap_wf_def)
  then show ?thesis unfolding keys using Cons by (simp add: smap_min_def)
qed

lemma smap_max_eq:
  assumes "smap_wf m"
  shows "smap_max m = (if {p. 0 < smap_get m p} = {} then - 1 else Max {p. 0 < smap_get m p})"
proof (cases m rule: rev_cases)
  case Nil
  then show ?thesis by (simp add: smap_max_def)
next
  case (snoc m' e)
  have keys: "{p. 0 < smap_get m p} = fst ` set m" using smap_get_pos_iff[OF assms] by auto
  have "Max (fst ` set m) = fst e"
    using assms snoc by (intro Max_eqI) (auto simp: smap_wf_def sorted_wrt_append)
  then show ?thesis unfolding keys using snoc by (simp add: smap_max_def)
qed

end
