(* ===== verification/Kv_Cells.thy ===== *)
theory Kv_Cells
  imports Prelude "HOL-Library.Signed_Division"
begin

text \<open>
  The cell table of one stream of the KV cache: class \<^verbatim>\<open>llama_kv_cells\<close> of
  \<^verbatim>\<open>llama.cpp/src/llama-kv-cells.h\<close>. A cell holds a position (\<open>-1\<close>: empty), the set of
  sequences it belongs to, the shift applied since the last \<^verbatim>\<open>reset_shift\<close> and a 2D
  extension. Two indices are kept beside the cells: the set of used cells and, per sequence,
  the count of every position. The invariant \<open>cells_inv\<close> says that both indices agree with the
  cells; every operation keeps it, and the last section proves the contract of a sweep over all
  cells that the operations of the cache share.
\<close>

section \<open>Data\<close>

record kv_cell_ext =
  ext_x :: int
  ext_y :: int

definition ext_zero :: kv_cell_ext where
  "ext_zero = \<lparr>ext_x = 0, ext_y = 0\<rparr>"

definition is_2d_gt :: "kv_cell_ext \<Rightarrow> int \<Rightarrow> int \<Rightarrow> bool" where
  "is_2d_gt e ox oy \<longleftrightarrow> ext_y e > oy \<or> (ext_y e = oy \<and> ext_x e > ox)"

record kv_cells =
  kc_has_shift :: bool
  kc_used :: "nat set"
  kc_pos :: "int list"
  kc_ext :: "kv_cell_ext list"
  kc_shift :: "int list"
  kc_seq :: "nat set list"
  kc_seq_pos :: "nat \<Rightarrow> smap"

section \<open>Operations\<close>

definition cells_size :: "kv_cells \<Rightarrow> nat" where
  "cells_size c = length (kc_pos c)"

definition cells_reset :: "kv_cells \<Rightarrow> kv_cells" where
  "cells_reset c = (let n = cells_size c in
     \<lparr>kc_has_shift = False, kc_used = {}, kc_pos = replicate n (- 1),
      kc_ext = replicate n ext_zero, kc_shift = replicate n 0, kc_seq = replicate n {},
      kc_seq_pos = (\<lambda>_. [])\<rparr>)"

definition cells_reset_shift :: "kv_cells \<Rightarrow> kv_cells" where
  "cells_reset_shift c = c\<lparr>kc_has_shift := False, kc_shift := map (\<lambda>_. 0) (kc_shift c)\<rparr>"

definition cells_new :: kv_cells where
  "cells_new = \<lparr>kc_has_shift = False, kc_used = {}, kc_pos = [], kc_ext = [], kc_shift = [],
     kc_seq = [], kc_seq_pos = (\<lambda>_. [])\<rparr>"

definition resize_list :: "nat \<Rightarrow> 'a \<Rightarrow> 'a list \<Rightarrow> 'a list" where
  "resize_list n x xs = take n xs @ replicate (n - length xs) x"

definition cells_resize :: "nat \<Rightarrow> kv_cells \<Rightarrow> kv_cells" where
  "cells_resize n c = cells_reset (c\<lparr>kc_pos := resize_list n 0 (kc_pos c),
     kc_ext := resize_list n ext_zero (kc_ext c), kc_shift := resize_list n 0 (kc_shift c),
     kc_seq := resize_list n {} (kc_seq c)\<rparr>)"

definition cells_is_empty :: "kv_cells \<Rightarrow> nat \<Rightarrow> bool" where
  "cells_is_empty c i \<longleftrightarrow> kc_pos c ! i = - 1"

definition cells_get_used :: "kv_cells \<Rightarrow> nat" where
  "cells_get_used c = card (kc_used c)"

definition cells_used_min :: "kv_cells \<Rightarrow> nat" where
  "cells_used_min c = (if kc_used c = {} then 0 else Min (kc_used c))"

definition cells_used_max_p1 :: "kv_cells \<Rightarrow> nat" where
  "cells_used_max_p1 c = (if kc_used c = {} then 0 else Max (kc_used c) + 1)"

text \<open>The helpers that keep the per-sequence counts.\<close>

definition cells_seq_pos_dec :: "nat \<Rightarrow> int \<Rightarrow> kv_cells \<Rightarrow> kv_cells" where
  "cells_seq_pos_dec s p c = c\<lparr>kc_seq_pos := (kc_seq_pos c)(s := smap_dec p (kc_seq_pos c s))\<rparr>"

definition cells_seq_pos_inc :: "nat \<Rightarrow> int \<Rightarrow> kv_cells \<Rightarrow> kv_cells" where
  "cells_seq_pos_inc s p c = c\<lparr>kc_seq_pos := (kc_seq_pos c)(s := smap_inc p (kc_seq_pos c s))\<rparr>"

definition cells_seq_pos_rm :: "nat \<Rightarrow> kv_cells \<Rightarrow> kv_cells" where
  "cells_seq_pos_rm i c =
     fold (\<lambda>s c. if s \<in> kc_seq c ! i then cells_seq_pos_dec s (kc_pos c ! i) c else c)
       [0..<LLAMA_MAX_SEQ] c"

definition cells_seq_pos_add :: "nat \<Rightarrow> kv_cells \<Rightarrow> kv_cells" where
  "cells_seq_pos_add i c =
     fold (\<lambda>s c. if s \<in> kc_seq c ! i then cells_seq_pos_inc s (kc_pos c ! i) c else c)
       [0..<LLAMA_MAX_SEQ] c"

text \<open>Copying a range of cells out, and writing such a copy back. Only the position, the
  extension and the sequence set are copied.\<close>

definition cells_cp_idxs :: "nat list \<Rightarrow> kv_cells \<Rightarrow> kv_cells" where
  "cells_cp_idxs idxs c = (cells_resize (length idxs) cells_new)
     \<lparr>kc_pos := map (\<lambda>i. kc_pos c ! i) idxs, kc_ext := map (\<lambda>i. kc_ext c ! i) idxs,
      kc_seq := map (\<lambda>i. kc_seq c ! i) idxs\<rparr>"

definition cells_cp :: "nat \<Rightarrow> nat \<Rightarrow> kv_cells \<Rightarrow> kv_cells" where
  "cells_cp i n c = (cells_resize n cells_new)
     \<lparr>kc_pos := map (\<lambda>j. kc_pos c ! (i + j)) [0..<n],
      kc_ext := map (\<lambda>j. kc_ext c ! (i + j)) [0..<n],
      kc_seq := map (\<lambda>j. kc_seq c ! (i + j)) [0..<n]\<rparr>"

definition cells_set_one :: "nat \<Rightarrow> int \<Rightarrow> kv_cell_ext \<Rightarrow> nat set \<Rightarrow> kv_cells \<Rightarrow> kv_cells" where
  "cells_set_one idx p e S c =
     (let c1 = (if kc_pos c ! idx = - 1 \<and> p \<noteq> - 1 then c\<lparr>kc_used := insert idx (kc_used c)\<rparr> else c);
          c2 = (if kc_pos c1 ! idx \<noteq> - 1 \<and> p = - 1 then c1\<lparr>kc_used := kc_used c1 - {idx}\<rparr> else c1);
          c3 = (if kc_pos c2 ! idx \<noteq> - 1 then cells_seq_pos_rm idx c2 else c2);
          c4 = c3\<lparr>kc_pos := (kc_pos c3)[idx := p], kc_ext := (kc_ext c3)[idx := e],
                  kc_seq := (kc_seq c3)[idx := S]\<rparr>
      in if kc_pos c4 ! idx \<noteq> - 1 then cells_seq_pos_add idx c4 else c4)"

definition cells_set_idxs :: "nat list \<Rightarrow> kv_cells \<Rightarrow> kv_cells \<Rightarrow> kv_cells" where
  "cells_set_idxs idxs other c =
     fold (\<lambda>j c. cells_set_one (idxs ! j) (kc_pos other ! j) (kc_ext other ! j) (kc_seq other ! j) c)
       [0..<cells_size other] c"

definition cells_set :: "nat \<Rightarrow> kv_cells \<Rightarrow> kv_cells \<Rightarrow> kv_cells" where
  "cells_set i other c =
     fold (\<lambda>j c. cells_set_one (i + j) (kc_pos other ! j) (kc_ext other ! j) (kc_seq other ! j) c)
       [0..<cells_size other] c"

text \<open>Single-cell operations. The flag returned says that the cell became empty.\<close>

definition cells_clear_cell :: "nat \<Rightarrow> kv_cells \<Rightarrow> kv_cells" where
  "cells_clear_cell i c = c\<lparr>kc_pos := (kc_pos c)[i := - 1], kc_ext := (kc_ext c)[i := ext_zero],
     kc_shift := (kc_shift c)[i := 0], kc_used := kc_used c - {i}\<rparr>"

definition cells_rm :: "nat \<Rightarrow> kv_cells \<Rightarrow> kv_cells" where
  "cells_rm i c =
     (let c1 = cells_seq_pos_rm i c; c2 = c1\<lparr>kc_seq := (kc_seq c1)[i := {}]\<rparr>
      in cells_clear_cell i c2)"

definition cells_seq_rm :: "nat \<Rightarrow> nat \<Rightarrow> kv_cells \<Rightarrow> kv_cells \<times> bool" where
  "cells_seq_rm i s c =
     (let c1 = c\<lparr>kc_seq := (kc_seq c)[i := kc_seq c ! i - {s}]\<rparr>;
          c2 = cells_seq_pos_dec s (kc_pos c1 ! i) c1
      in if kc_seq c2 ! i = {} then (cells_clear_cell i c2, True) else (c2, False))"

definition cells_seq_keep :: "nat \<Rightarrow> nat \<Rightarrow> kv_cells \<Rightarrow> kv_cells \<times> bool" where
  "cells_seq_keep i s c =
     (if s \<in> kc_seq c ! i then
        (let c1 = cells_seq_pos_rm i c; c2 = c1\<lparr>kc_seq := (kc_seq c1)[i := {s}]\<rparr>
         in (cells_seq_pos_inc s (kc_pos c2 ! i) c2, False))
      else if kc_seq c ! i \<noteq> {} then
        (let c1 = cells_seq_pos_rm i c; c2 = c1\<lparr>kc_seq := (kc_seq c1)[i := {}]\<rparr>
         in (cells_clear_cell i c2, True))
      else (c, False))"

definition cells_seq_count :: "kv_cells \<Rightarrow> nat \<Rightarrow> nat" where
  "cells_seq_count c i = card (kc_seq c ! i)"

definition cells_seq_has :: "kv_cells \<Rightarrow> nat \<Rightarrow> nat \<Rightarrow> bool" where
  "cells_seq_has c i s \<longleftrightarrow> s \<in> kc_seq c ! i"

definition cells_seq_add :: "nat \<Rightarrow> nat \<Rightarrow> kv_cells \<Rightarrow> kv_cells" where
  "cells_seq_add i s c =
     cells_seq_pos_inc s (kc_pos c ! i) (c\<lparr>kc_seq := (kc_seq c)[i := insert s (kc_seq c ! i)]\<rparr>)"

definition cells_seq_get :: "kv_cells \<Rightarrow> nat \<Rightarrow> int" where
  "cells_seq_get c i =
     (case find (\<lambda>s. s \<in> kc_seq c ! i) [0..<LLAMA_MAX_SEQ] of None \<Rightarrow> - 1 | Some s \<Rightarrow> int s)"

definition cells_seq_pos_min :: "kv_cells \<Rightarrow> nat \<Rightarrow> int" where
  "cells_seq_pos_min c s = smap_min (kc_seq_pos c s)"

definition cells_seq_pos_max :: "kv_cells \<Rightarrow> nat \<Rightarrow> int" where
  "cells_seq_pos_max c s = smap_max (kc_seq_pos c s)"

definition cells_pos_get :: "kv_cells \<Rightarrow> nat \<Rightarrow> int" where
  "cells_pos_get c i = kc_pos c ! i"

definition cells_ext_get :: "kv_cells \<Rightarrow> nat \<Rightarrow> kv_cell_ext" where
  "cells_ext_get c i = kc_ext c ! i"

definition cells_get_shift :: "kv_cells \<Rightarrow> nat \<Rightarrow> int" where
  "cells_get_shift c i = kc_shift c ! i"

definition cells_pos_in :: "kv_cells \<Rightarrow> nat \<Rightarrow> int \<Rightarrow> int \<Rightarrow> bool" where
  "cells_pos_in c i p0 p1 \<longleftrightarrow> kc_pos c ! i \<ge> p0 \<and> kc_pos c ! i < p1"

definition cells_pos_set :: "nat \<Rightarrow> int \<Rightarrow> kv_cells \<Rightarrow> kv_cells" where
  "cells_pos_set i p c = c\<lparr>kc_pos := (kc_pos c)[i := p], kc_used := insert i (kc_used c)\<rparr>"

definition cells_ext_set :: "nat \<Rightarrow> kv_cell_ext \<Rightarrow> kv_cells \<Rightarrow> kv_cells" where
  "cells_ext_set i e c = c\<lparr>kc_ext := (kc_ext c)[i := e]\<rparr>"

definition cells_pos_add :: "nat \<Rightarrow> int \<Rightarrow> kv_cells \<Rightarrow> kv_cells \<times> bool" where
  "cells_pos_add i d c =
     (let c1 = cells_seq_pos_rm i c;
          c2 = c1\<lparr>kc_pos := (kc_pos c1)[i := kc_pos c1 ! i + d],
                  kc_shift := (kc_shift c1)[i := kc_shift c1 ! i + d], kc_has_shift := True\<rparr>
      in if kc_pos c2 ! i < 0
         then (c2\<lparr>kc_seq := (kc_seq c2)[i := {}], kc_pos := (kc_pos c2)[i := - 1],
                  kc_shift := (kc_shift c2)[i := 0], kc_used := kc_used c2 - {i}\<rparr>, True)
         else (cells_seq_pos_add i c2, False))"

text \<open>Division truncates towards zero, as in C++.\<close>

definition cells_pos_div :: "nat \<Rightarrow> int \<Rightarrow> kv_cells \<Rightarrow> kv_cells" where
  "cells_pos_div i d c =
     (let p_old = kc_pos c ! i;
          c1 = cells_seq_pos_rm i c;
          c2 = c1\<lparr>kc_pos := (kc_pos c1)[i := (kc_pos c1 ! i) sdiv d]\<rparr>;
          c3 = c2\<lparr>kc_shift := (kc_shift c2)[i := kc_shift c2 ! i + (p_old - kc_pos c2 ! i)]\<rparr>;
          c4 = cells_seq_pos_add i c3
      in c4\<lparr>kc_has_shift := True\<rparr>)"

section \<open>The invariant\<close>

text \<open>How often position \<open>p\<close> occurs among the cells of sequence \<open>s\<close>.\<close>

definition cells_count :: "kv_cells \<Rightarrow> nat \<Rightarrow> int \<Rightarrow> nat" where
  "cells_count c s p = (\<Sum>i<cells_size c. of_bool (s \<in> kc_seq c ! i \<and> kc_pos c ! i = p))"

definition cells_inv :: "kv_cells \<Rightarrow> bool" where
  "cells_inv c \<longleftrightarrow>
     length (kc_ext c) = cells_size c \<and> length (kc_shift c) = cells_size c \<and>
     length (kc_seq c) = cells_size c \<and>
     kc_used c = {i. i < cells_size c \<and> kc_pos c ! i \<noteq> - 1} \<and>
     (\<forall>i < cells_size c. - 1 \<le> kc_pos c ! i) \<and>
     (\<forall>i < cells_size c. kc_pos c ! i = - 1 \<longrightarrow> kc_seq c ! i = {}) \<and>
     (\<forall>i < cells_size c. kc_seq c ! i \<subseteq> {..<LLAMA_MAX_SEQ}) \<and>
     (\<forall>s < LLAMA_MAX_SEQ. smap_wf (kc_seq_pos c s) \<and>
        (\<forall>p. smap_get (kc_seq_pos c s) p = cells_count c s p))"

text \<open>What a cell holds, seen from outside: nothing, or a position and a set of sequences.\<close>

type_synonym acell = "(int \<times> nat set) option"

definition cell_at :: "kv_cells \<Rightarrow> nat \<Rightarrow> acell" where
  "cell_at c i = (if i < cells_size c \<and> kc_pos c ! i \<noteq> - 1
     then Some (kc_pos c ! i, kc_seq c ! i) else None)"

section \<open>The count helpers in closed form\<close>

lemma fold_upd_if:
  "fold (\<lambda>s g. if P s then g(s := h s (g s)) else g) [0..<n] g0 =
     (\<lambda>s. if s < n \<and> P s then h s (g0 s) else g0 s)"
  by (induction n) (auto simp: fun_eq_iff less_Suc_eq)

lemma fold_cells_seq_pos:
  assumes "\<And>s p c. upd s p c = c\<lparr>kc_seq_pos := (kc_seq_pos c)(s := h p (kc_seq_pos c s))\<rparr>"
  shows "fold (\<lambda>s c. if s \<in> kc_seq c ! i then upd s (kc_pos c ! i) c else c) xs c =
    c\<lparr>kc_seq_pos := fold (\<lambda>s g. if s \<in> kc_seq c ! i then g(s := h (kc_pos c ! i) (g s)) else g)
        xs (kc_seq_pos c)\<rparr>"
  by (induction xs arbitrary: c) (auto simp: assms cong: if_cong)

lemma cells_seq_pos_rm_eq [cell_simps]:
  "cells_seq_pos_rm i c = c\<lparr>kc_seq_pos := (\<lambda>s. if s < LLAMA_MAX_SEQ \<and> s \<in> kc_seq c ! i
     then smap_dec (kc_pos c ! i) (kc_seq_pos c s) else kc_seq_pos c s)\<rparr>"
  unfolding cells_seq_pos_rm_def
  by (subst fold_cells_seq_pos[where h = smap_dec])
    (auto simp: cells_seq_pos_dec_def fold_upd_if[where h = "\<lambda>_. smap_dec (kc_pos c ! i)"])

lemma cells_seq_pos_add_eq [cell_simps]:
  "cells_seq_pos_add i c = c\<lparr>kc_seq_pos := (\<lambda>s. if s < LLAMA_MAX_SEQ \<and> s \<in> kc_seq c ! i
     then smap_inc (kc_pos c ! i) (kc_seq_pos c s) else kc_seq_pos c s)\<rparr>"
  unfolding cells_seq_pos_add_def
  by (subst fold_cells_seq_pos[where h = smap_inc])
    (auto simp: cells_seq_pos_inc_def fold_upd_if[where h = "\<lambda>_. smap_inc (kc_pos c ! i)"])

section \<open>Preservation of the invariant\<close>

lemma cells_count_upd:
  assumes "i < cells_size c" "length (kc_seq c) = cells_size c"
    and "kc_pos c' = (kc_pos c)[i := p']" "kc_seq c' = (kc_seq c)[i := S']"
  shows "cells_count c' s q + of_bool (s \<in> kc_seq c ! i \<and> kc_pos c ! i = q) =
    cells_count c s q + of_bool (s \<in> S' \<and> p' = q)"
proof -
  have n: "cells_size c' = cells_size c" using assms(3) by (simp add: cells_size_def)
  show ?thesis
    using assms unfolding cells_count_def n
    using sum_upd_one[of i "cells_size c" "\<lambda>j. s \<in> kc_seq c' ! j \<and> kc_pos c' ! j = q"
        "\<lambda>j. s \<in> kc_seq c ! j \<and> kc_pos c ! j = q"]
    by (simp add: cells_size_def)
qed

lemma cells_inv_cell_update:
  assumes inv: "cells_inv c" and i: "i < cells_size c"
    and upd: "kc_pos c' = (kc_pos c)[i := p']" "kc_seq c' = (kc_seq c)[i := S']"
      "length (kc_ext c') = length (kc_ext c)" "length (kc_shift c') = length (kc_shift c)"
    and new: "- 1 \<le> p'" "p' = - 1 \<Longrightarrow> S' = {}" "S' \<subseteq> {..<LLAMA_MAX_SEQ}"
    and used: "kc_used c' = (if p' = - 1 then kc_used c - {i} else insert i (kc_used c))"
    and wf: "\<And>s. s < LLAMA_MAX_SEQ \<Longrightarrow> smap_wf (kc_seq_pos c' s)"
    and get: "\<And>s q. s < LLAMA_MAX_SEQ \<Longrightarrow> smap_get (kc_seq_pos c' s) q
        + of_bool (s \<in> kc_seq c ! i \<and> kc_pos c ! i = q) =
      smap_get (kc_seq_pos c s) q + of_bool (s \<in> S' \<and> p' = q)"
  shows "cells_inv c'"
proof -
  have n: "cells_size c' = cells_size c" using upd(1) by (simp add: cells_size_def)
  have len: "length (kc_pos c) = cells_size c" "length (kc_seq c) = cells_size c"
    using inv by (auto simp: cells_inv_def cells_size_def)
  have cnt: "smap_get (kc_seq_pos c' s) q = cells_count c' s q" if "s < LLAMA_MAX_SEQ" for s q
    using get[OF that, of q] cells_count_upd[OF i len(2) upd(1,2), of s q] inv that
    by (simp add: cells_inv_def)
  have nth: "kc_pos c' ! j = (if j = i then p' else kc_pos c ! j)"
    "kc_seq c' ! j = (if j = i then S' else kc_seq c ! j)" if "j < cells_size c" for j
    using upd(1,2) len i that by auto
  show ?thesis
    unfolding cells_inv_def n
    using inv used upd new cnt wf nth i len by (auto simp: cells_inv_def split: if_splits)
qed

lemma cells_invD:
  assumes "cells_inv c"
  shows "length (kc_ext c) = cells_size c" "length (kc_shift c) = cells_size c"
    "length (kc_seq c) = cells_size c" "length (kc_pos c) = cells_size c"
    "kc_used c = {i. i < cells_size c \<and> kc_pos c ! i \<noteq> - 1}"
    "\<And>i. i < cells_size c \<Longrightarrow> - 1 \<le> kc_pos c ! i"
    "\<And>i. i < cells_size c \<Longrightarrow> kc_pos c ! i = - 1 \<Longrightarrow> kc_seq c ! i = {}"
    "\<And>i. i < cells_size c \<Longrightarrow> kc_seq c ! i \<subseteq> {..<LLAMA_MAX_SEQ}"
    "\<And>s. s < LLAMA_MAX_SEQ \<Longrightarrow> smap_wf (kc_seq_pos c s)"
    "\<And>s p. s < LLAMA_MAX_SEQ \<Longrightarrow> smap_get (kc_seq_pos c s) p = cells_count c s p"
  using assms by (auto simp: cells_inv_def cells_size_def)

text \<open>The assertion of \<^verbatim>\<open>seq_pos_dec\<close>: an occupied position is counted.\<close>

lemma cells_count_pos:
  assumes "i < cells_size c" "s \<in> kc_seq c ! i"
  shows "0 < cells_count c s (kc_pos c ! i)"
proof -
  have "of_bool (s \<in> kc_seq c ! i \<and> kc_pos c ! i = kc_pos c ! i) \<le> cells_count c s (kc_pos c ! i)"
    unfolding cells_count_def
    by (rule member_le_sum[where f = "\<lambda>j. of_bool (s \<in> kc_seq c ! j \<and> kc_pos c ! j = kc_pos c ! i)"])
      (use assms in auto)
  then show ?thesis using assms by simp
qed

lemma cells_get_pos:
  assumes "cells_inv c" "i < cells_size c" "s \<in> kc_seq c ! i"
  shows "0 < smap_get (kc_seq_pos c s) (kc_pos c ! i)" "s < LLAMA_MAX_SEQ"
proof -
  show s: "s < LLAMA_MAX_SEQ" using cells_invD(8)[OF assms(1,2)] assms(3) by auto
  show "0 < smap_get (kc_seq_pos c s) (kc_pos c ! i)"
    using cells_count_pos[OF assms(2,3)] cells_invD(10)[OF assms(1) s] by simp
qed

lemma cells_nonempty:
  "cells_inv c \<Longrightarrow> i < cells_size c \<Longrightarrow> s \<in> kc_seq c ! i \<Longrightarrow> kc_pos c ! i \<noteq> - 1"
  using cells_invD(7) by blast

lemma smap_get_dec_other: "smap_wf m \<Longrightarrow> p \<noteq> q \<Longrightarrow> smap_get (smap_dec p m) q = smap_get m q"
  by (simp add: smap_get_dec)

lemma cells_dec_balance:
  assumes "cells_inv c" "i < cells_size c" "s \<in> kc_seq c ! i"
  shows "Suc (smap_get (smap_dec (kc_pos c ! i) (kc_seq_pos c s)) (kc_pos c ! i)) =
    smap_get (kc_seq_pos c s) (kc_pos c ! i)"
  using cells_get_pos[OF assms] cells_invD(9)[OF assms(1)] by (simp add: smap_get_dec)

lemma cells_seq_less:
  "cells_inv c \<Longrightarrow> i < cells_size c \<Longrightarrow> s \<in> kc_seq c ! i \<Longrightarrow> s < LLAMA_MAX_SEQ"
  by (rule cells_get_pos(2))

lemmas cell_field_defs =
  cells_clear_cell_def cells_rm_def cells_seq_rm_def cells_seq_keep_def cells_seq_add_def
  cells_pos_set_def cells_ext_set_def cells_pos_add_def cells_pos_div_def cells_set_one_def
  cells_seq_pos_dec_def cells_seq_pos_inc_def cells_seq_pos_rm_eq cells_seq_pos_add_eq

lemma cells_size_upd [simp]:
  "cells_size (cells_clear_cell i c) = cells_size c"
  "cells_size (cells_rm i c) = cells_size c"
  "cells_size (fst (cells_seq_rm i s c)) = cells_size c"
  "cells_size (fst (cells_seq_keep i s c)) = cells_size c"
  "cells_size (cells_seq_add i s c) = cells_size c"
  "cells_size (cells_pos_set i p c) = cells_size c"
  "cells_size (cells_ext_set i e c) = cells_size c"
  "cells_size (fst (cells_pos_add i d c)) = cells_size c"
  "cells_size (cells_pos_div i d c) = cells_size c"
  "cells_size (cells_set_one i p e S c) = cells_size c"
  "cells_size (cells_reset_shift c) = cells_size c"
  by (simp_all add: cell_field_defs cells_size_def cells_reset_shift_def Let_def)

lemma cells_size_reset [simp]: "cells_size (cells_reset c) = cells_size c"
  by (simp add: cells_reset_def cells_size_def Let_def)

lemma cells_size_resize [simp]: "cells_size (cells_resize n c) = n"
  by (simp add: cells_resize_def cells_reset_def cells_size_def resize_list_def Let_def)

lemma cells_reset_inv [cell_intros]: "cells_inv (cells_reset c)"
  by (simp add: cells_inv_def cells_reset_def cells_size_def cells_count_def Let_def)

lemma cells_resize_inv [cell_intros]: "cells_inv (cells_resize n c)"
  by (simp add: cells_resize_def cells_reset_inv)

lemma cells_reset_shift_inv [cell_intros]: "cells_inv c \<Longrightarrow> cells_inv (cells_reset_shift c)"
  by (simp add: cells_inv_def cells_reset_shift_def cells_size_def cells_count_def)

lemma cells_ext_set_inv [cell_intros]: "cells_inv c \<Longrightarrow> cells_inv (cells_ext_set i e c)"
  by (simp add: cells_inv_def cells_ext_set_def cells_size_def cells_count_def)

lemma cells_rm_inv [cell_intros]:
  assumes "cells_inv c" "i < cells_size c"
  shows "cells_inv (cells_rm i c)"
  by (rule cells_inv_cell_update[OF assms, where p' = "- 1" and S' = "{}"])
    (use cells_invD(9)[OF assms(1)] cells_dec_balance[OF assms] in
      \<open>auto simp: cell_field_defs Let_def smap_get_dec_other\<close>)

lemma cells_seq_rm_inv [cell_intros]:
  assumes "cells_inv c" "i < cells_size c" "s \<in> kc_seq c ! i"
  shows "cells_inv (fst (cells_seq_rm i s c))"
proof (rule cells_inv_cell_update[OF assms(1,2), where
      p' = "if kc_seq c ! i - {s} = {} then - 1 else kc_pos c ! i" and S' = "kc_seq c ! i - {s}"])
  have used: "i \<in> kc_used c" "i < length (kc_seq c)"
    using cells_nonempty[OF assms] assms(2) by (simp_all add: cells_invD[OF assms(1)])
  show "kc_used (fst (cells_seq_rm i s c)) =
    (if (if kc_seq c ! i - {s} = {} then - 1 else kc_pos c ! i) = - 1
     then kc_used c - {i} else insert i (kc_used c))"
    using used cells_nonempty[OF assms] by (auto simp: cell_field_defs Let_def)
qed (use assms cells_invD(6,8)[OF assms(1,2)] cells_invD(9,3)[OF assms(1)]
      cells_dec_balance[OF assms] cells_nonempty[OF assms] in
      \<open>auto simp: cell_field_defs Let_def smap_get_dec_other split: if_splits\<close>)

lemma cells_seq_keep_inv [cell_intros]:
  assumes "cells_inv c" "i < cells_size c"
  shows "cells_inv (fst (cells_seq_keep i s c))"
proof (cases "s \<in> kc_seq c ! i")
  case True
  have used: "i \<in> kc_used c" "i < length (kc_seq c)"
    using cells_nonempty[OF assms True] assms(2) by (simp_all add: cells_invD[OF assms(1)])
  show ?thesis
    by (rule cells_inv_cell_update[OF assms, where p' = "kc_pos c ! i" and S' = "{s}"])
      (use True used assms cells_invD(6)[OF assms] cells_invD(9)[OF assms(1)]
        cells_nonempty[OF assms True] cells_seq_less[OF assms] cells_dec_balance[OF assms] in
        \<open>auto simp: cell_field_defs Let_def smap_get_dec_other insert_absorb\<close>)
next
  case False
  show ?thesis
  proof (cases "kc_seq c ! i = {}")
    case True
    then show ?thesis using assms by (simp add: cells_seq_keep_def)
  next
    case ne: False
    show ?thesis
      by (rule cells_inv_cell_update[OF assms, where p' = "- 1" and S' = "{}"])
        (use False ne cells_invD(9)[OF assms(1)] cells_dec_balance[OF assms] in
          \<open>auto simp: cell_field_defs Let_def smap_get_dec_other\<close>)
  qed
qed

lemma cells_seq_add_inv [cell_intros]:
  assumes "cells_inv c" "i < cells_size c" "kc_pos c ! i \<noteq> - 1" "s \<notin> kc_seq c ! i"
    "s < LLAMA_MAX_SEQ"
  shows "cells_inv (cells_seq_add i s c)"
  by (rule cells_inv_cell_update[OF assms(1,2), where p' = "kc_pos c ! i"
        and S' = "insert s (kc_seq c ! i)"])
    (use assms cells_invD(6,8)[OF assms(1,2)] cells_invD(5,9)[OF assms(1)] in
      \<open>auto simp: cell_field_defs Let_def insert_absorb\<close>)

lemma cells_pos_set_inv [cell_intros]:
  assumes "cells_inv c" "i < cells_size c" "kc_pos c ! i = - 1" "0 \<le> p"
  shows "cells_inv (cells_pos_set i p c)"
proof (rule cells_inv_cell_update[OF assms(1,2), where p' = p and S' = "{}"])
  have S: "kc_seq c ! i = {}" using cells_invD(7)[OF assms(1,2,3)] .
  then have "(kc_seq c)[i := {}] = kc_seq c" by (metis list_update_id)
  then show "kc_seq (cells_pos_set i p c) = (kc_seq c)[i := {}]"
    by (simp add: cells_pos_set_def)
qed (use assms cells_invD(7)[OF assms(1,2,3)] cells_invD(9)[OF assms(1)] in
      \<open>auto simp: cell_field_defs Let_def\<close>)

lemma cells_pos_add_inv [cell_intros]:
  assumes "cells_inv c" "i < cells_size c" "kc_pos c ! i \<noteq> - 1"
  shows "cells_inv (fst (cells_pos_add i d c))"
proof (rule cells_inv_cell_update[OF assms(1,2), where
      p' = "if kc_pos c ! i + d < 0 then - 1 else kc_pos c ! i + d" and
      S' = "if kc_pos c ! i + d < 0 then {} else kc_seq c ! i"])
qed (use assms cells_invD(6,8)[OF assms(1,2)] cells_invD(3,4,5,9)[OF assms(1)]
      cells_dec_balance[OF assms(1,2)] in
      \<open>auto simp: cell_field_defs Let_def smap_get_dec_other insert_absorb split: if_splits\<close>)

lemma sdiv_nonneg: "0 \<le> (p::int) \<Longrightarrow> 0 < d \<Longrightarrow> p sdiv d = p div d"
  by (simp add: signed_divide_int_def sgn_if)

lemma cells_pos_div_inv [cell_intros]:
  assumes "cells_inv c" "i < cells_size c" "kc_pos c ! i \<noteq> - 1" "0 < d"
  shows "cells_inv (cells_pos_div i d c)"
proof -
  have p: "0 \<le> kc_pos c ! i" using cells_invD(6)[OF assms(1,2)] assms(3) by simp
  then have q: "0 \<le> kc_pos c ! i sdiv d" using assms(4) by (simp add: sdiv_nonneg pos_imp_zdiv_nonneg_iff)
  show ?thesis
    by (rule cells_inv_cell_update[OF assms(1,2), where p' = "kc_pos c ! i sdiv d"
          and S' = "kc_seq c ! i"])
      (use assms q cells_invD(8)[OF assms(1,2)] cells_invD(3,4,5,9)[OF assms(1)]
        cells_dec_balance[OF assms(1,2)] in
        \<open>auto simp: cell_field_defs Let_def smap_get_dec_other insert_absorb\<close>)
qed

lemma cells_set_one_inv [cell_intros]:
  assumes "cells_inv c" "i < cells_size c" "- 1 \<le> p" "p = - 1 \<Longrightarrow> S = {}" "S \<subseteq> {..<LLAMA_MAX_SEQ}"
  shows "cells_inv (cells_set_one i p e S c)"
  by (rule cells_inv_cell_update[OF assms(1,2), where p' = p and S' = S])
    (use assms cells_invD(7)[OF assms(1,2)] cells_invD(3,4,5,9)[OF assms(1)]
        cells_dec_balance[OF assms(1,2)] in
      \<open>auto simp: cell_field_defs Let_def smap_get_dec_other insert_absorb split: if_splits\<close>)

section \<open>What the operations do to a cell\<close>

text \<open>Every operation changes one cell; these rules say how, for the outside view.\<close>

lemma cell_at_None_iff: "cell_at c i = None \<longleftrightarrow> \<not> (i < cells_size c \<and> kc_pos c ! i \<noteq> - 1)"
  by (simp add: cell_at_def)

lemma cell_at_Some_iff:
  "cell_at c i = Some (p, S) \<longleftrightarrow> i < cells_size c \<and> kc_pos c ! i \<noteq> - 1 \<and> p = kc_pos c ! i \<and> S = kc_seq c ! i"
  by (auto simp: cell_at_def)

lemma cell_at_upd:
  assumes "cells_inv c" "i < cells_size c"
    "kc_pos c' = (kc_pos c)[i := p]" "kc_seq c' = (kc_seq c)[i := S]"
  shows "cell_at c' j = (if j = i then if p = - 1 then None else Some (p, S) else cell_at c j)"
proof -
  have "i < length (kc_pos c)" "i < length (kc_seq c)"
    using assms(2) cells_invD(3,4)[OF assms(1)] by simp_all
  then show ?thesis by (simp add: cell_at_def cells_size_def assms(3,4) nth_list_update)
qed

lemma cell_at_rm [cell_simps]:
  assumes "cells_inv c" "i < cells_size c"
  shows "cell_at (cells_rm i c) j = (if j = i then None else cell_at c j)"
  by (subst cell_at_upd[OF assms, where p = "- 1" and S = "{}"])
    (auto simp: cell_field_defs Let_def)

lemma cell_at_seq_rm [cell_simps]:
  assumes "cells_inv c" "i < cells_size c" "s \<in> kc_seq c ! i"
  shows "cell_at (fst (cells_seq_rm i s c)) j = (if j = i then
      (if kc_seq c ! i = {s} then None else Some (kc_pos c ! i, kc_seq c ! i - {s})) else cell_at c j)"
  by (subst cell_at_upd[OF assms(1,2), where p = "if kc_seq c ! i - {s} = {} then - 1 else kc_pos c ! i"
        and S = "kc_seq c ! i - {s}"])
    (use cells_nonempty[OF assms] assms cells_invD(3)[OF assms(1)] in
      \<open>auto simp: cell_field_defs Let_def\<close>)

lemma cell_at_seq_keep [cell_simps]:
  assumes "cells_inv c" "i < cells_size c"
  shows "cell_at (fst (cells_seq_keep i s c)) j = (if j = i then
      (if s \<in> kc_seq c ! i then Some (kc_pos c ! i, {s})
       else if kc_seq c ! i \<noteq> {} then None else cell_at c i) else cell_at c j)"
proof (cases "kc_seq c ! i = {}")
  case True
  then show ?thesis by (simp add: cells_seq_keep_def)
next
  case False
  show ?thesis
    by (subst cell_at_upd[OF assms, where p = "if s \<in> kc_seq c ! i then kc_pos c ! i else - 1"
          and S = "if s \<in> kc_seq c ! i then {s} else {}"])
      (use False cells_nonempty[OF assms] in \<open>auto simp: cell_field_defs Let_def\<close>)
qed

lemma cell_at_seq_add [cell_simps]:
  assumes "cells_inv c" "i < cells_size c" "kc_pos c ! i \<noteq> - 1"
  shows "cell_at (cells_seq_add i s c) j =
    (if j = i then Some (kc_pos c ! i, insert s (kc_seq c ! i)) else cell_at c j)"
  by (subst cell_at_upd[OF assms(1,2), where p = "kc_pos c ! i" and S = "insert s (kc_seq c ! i)"])
    (use assms(3) in \<open>auto simp: cell_field_defs Let_def\<close>)

lemma cell_at_pos_set [cell_simps]:
  assumes "cells_inv c" "i < cells_size c" "kc_pos c ! i = - 1" "0 \<le> p"
  shows "cell_at (cells_pos_set i p c) j = (if j = i then Some (p, {}) else cell_at c j)"
proof -
  have "(kc_seq c)[i := {}] = kc_seq c" using cells_invD(7)[OF assms(1,2,3)] by (metis list_update_id)
  then show ?thesis
    by (subst cell_at_upd[OF assms(1,2), where p = p and S = "{}"])
      (use assms(4) in \<open>auto simp: cell_field_defs Let_def\<close>)
qed

lemma cell_at_ext_set [cell_simps]: "cell_at (cells_ext_set i e c) j = cell_at c j"
  by (simp add: cell_at_def cells_ext_set_def cells_size_def)

lemma cell_at_pos_add [cell_simps]:
  assumes "cells_inv c" "i < cells_size c" "kc_pos c ! i \<noteq> - 1"
  shows "cell_at (fst (cells_pos_add i d c)) j = (if j = i then
      (if kc_pos c ! i + d < 0 then None else Some (kc_pos c ! i + d, kc_seq c ! i)) else cell_at c j)"
  by (subst cell_at_upd[OF assms(1,2), where p = "if kc_pos c ! i + d < 0 then - 1 else kc_pos c ! i + d"
        and S = "if kc_pos c ! i + d < 0 then {} else kc_seq c ! i"])
    (use assms cells_invD(4)[OF assms(1)] in \<open>auto simp: cell_field_defs Let_def\<close>)

lemma cell_at_pos_div [cell_simps]:
  assumes "cells_inv c" "i < cells_size c" "kc_pos c ! i \<noteq> - 1" "0 < d"
  shows "cell_at (cells_pos_div i d c) j =
    (if j = i then Some (kc_pos c ! i div d, kc_seq c ! i) else cell_at c j)"
proof -
  have "0 \<le> kc_pos c ! i" using cells_invD(6)[OF assms(1,2)] assms(3) by simp
  then have "kc_pos c ! i sdiv d = kc_pos c ! i div d" "0 \<le> kc_pos c ! i div d"
    using assms(4) by (simp_all add: sdiv_nonneg pos_imp_zdiv_nonneg_iff)
  then show ?thesis
    by (subst cell_at_upd[OF assms(1,2), where p = "kc_pos c ! i div d" and S = "kc_seq c ! i"])
      (auto simp: cell_field_defs Let_def)
qed

lemma cell_at_set_one [cell_simps]:
  assumes "cells_inv c" "i < cells_size c"
  shows "cell_at (cells_set_one i p e S c) j =
    (if j = i then if p = - 1 then None else Some (p, S) else cell_at c j)"
  by (subst cell_at_upd[OF assms, where p = p and S = S]) (auto simp: cell_field_defs Let_def)

lemma cell_at_reset [cell_simps, simp]: "cell_at (cells_reset c) j = None"
  by (simp add: cell_at_def cells_reset_def cells_size_def Let_def)

lemma cell_at_resize [cell_simps, simp]: "cell_at (cells_resize n c) j = None"
  by (simp add: cells_resize_def)

lemma cell_at_reset_shift [cell_simps, simp]: "cell_at (cells_reset_shift c) j = cell_at c j"
  by (simp add: cell_at_def cells_reset_shift_def cells_size_def)

section \<open>The index agrees with the cells\<close>

text \<open>The positions a sequence occupies.\<close>

definition seq_positions :: "kv_cells \<Rightarrow> nat \<Rightarrow> int set" where
  "seq_positions c s = {p. \<exists>i S. cell_at c i = Some (p, S) \<and> s \<in> S}"

lemma cells_count_pos_iff:
  assumes "cells_inv c"
  shows "0 < cells_count c s p \<longleftrightarrow> p \<in> seq_positions c s"
proof -
  have "0 < cells_count c s p \<longleftrightarrow> (\<exists>i<cells_size c. s \<in> kc_seq c ! i \<and> kc_pos c ! i = p)"
    unfolding cells_count_def by (auto simp: sum_eq_0_iff not_less[symmetric] simp flip: neq0_conv)
  then show ?thesis
    using cells_nonempty[OF assms] unfolding seq_positions_def cell_at_Some_iff by blast
qed

lemma smap_get_pos_positions:
  assumes "cells_inv c" "s < LLAMA_MAX_SEQ"
  shows "{p. 0 < smap_get (kc_seq_pos c s) p} = seq_positions c s"
  using cells_count_pos_iff[OF assms(1)] cells_invD(10)[OF assms] by auto

lemma finite_seq_positions: "finite (seq_positions c s)"
proof -
  have "seq_positions c s \<subseteq> (\<lambda>i. kc_pos c ! i) ` {..<cells_size c}"
    by (auto simp: seq_positions_def cell_at_Some_iff)
  then show ?thesis by (rule finite_subset) simp
qed

lemma cells_seq_pos_min_eq:
  assumes "cells_inv c" "s < LLAMA_MAX_SEQ"
  shows "cells_seq_pos_min c s = (if seq_positions c s = {} then - 1 else Min (seq_positions c s))"
  unfolding cells_seq_pos_min_def smap_min_eq[OF cells_invD(9)[OF assms]]
    smap_get_pos_positions[OF assms] ..

lemma cells_seq_pos_max_eq:
  assumes "cells_inv c" "s < LLAMA_MAX_SEQ"
  shows "cells_seq_pos_max c s = (if seq_positions c s = {} then - 1 else Max (seq_positions c s))"
  unfolding cells_seq_pos_max_def smap_max_eq[OF cells_invD(9)[OF assms]]
    smap_get_pos_positions[OF assms] ..

section \<open>Sweeps over all cells\<close>

text \<open>
  \<^verbatim>\<open>seq_rm\<close>, \<^verbatim>\<open>seq_cp\<close>, \<^verbatim>\<open>seq_keep\<close>, \<^verbatim>\<open>seq_add\<close> and \<^verbatim>\<open>seq_div\<close> of the cache share one
  loop: visit every cell in order, and remember the first one that became empty
  (\<^verbatim>\<open>new_head\<close>, the size where there is none).
\<close>

definition sweep_step :: "(nat \<Rightarrow> kv_cells \<Rightarrow> kv_cells \<times> bool) \<Rightarrow> nat \<Rightarrow> kv_cells \<times> nat \<Rightarrow> kv_cells \<times> nat" where
  "sweep_step body i st =
     (let r = body i (fst st)
      in (fst r, if snd r \<and> snd st = cells_size (fst r) then i else snd st))"

definition sweep :: "(nat \<Rightarrow> kv_cells \<Rightarrow> kv_cells \<times> bool) \<Rightarrow> kv_cells \<Rightarrow> kv_cells \<times> nat" where
  "sweep body c = fold (sweep_step body) [0..<cells_size c] (c, cells_size c)"

text \<open>
  The contract of a loop body: where the cell satisfies \<open>cpre\<close>, the body keeps the invariant,
  changes that cell as \<open>spec\<close> says and no other, and reports whether it freed the cell.
\<close>

locale cell_loop =
  fixes ok :: bool
    and body :: "nat \<Rightarrow> kv_cells \<Rightarrow> kv_cells \<times> bool"
    and spec :: "acell \<Rightarrow> acell"
    and cpre :: "acell \<Rightarrow> bool"
  assumes body_inv: "ok \<Longrightarrow> cells_inv c \<Longrightarrow> i < cells_size c \<Longrightarrow> cpre (cell_at c i) \<Longrightarrow>
      cells_inv (fst (body i c))"
    and body_size: "ok \<Longrightarrow> cells_inv c \<Longrightarrow> i < cells_size c \<Longrightarrow> cells_size (fst (body i c)) = cells_size c"
    and body_cell: "ok \<Longrightarrow> cells_inv c \<Longrightarrow> i < cells_size c \<Longrightarrow> cpre (cell_at c i) \<Longrightarrow>
      cell_at (fst (body i c)) j = (if j = i then spec (cell_at c i) else cell_at c j)"
    and body_freed: "ok \<Longrightarrow> cells_inv c \<Longrightarrow> i < cells_size c \<Longrightarrow> cpre (cell_at c i) \<Longrightarrow>
      snd (body i c) \<longleftrightarrow> cell_at c i \<noteq> None \<and> spec (cell_at c i) = None"
begin

lemma sweep_prefix:
  assumes "ok" "cells_inv c" "\<And>j. cpre (cell_at c j)" "n \<le> cells_size c"
  shows "let st = fold (sweep_step body) [0..<n] (c, cells_size c); c' = fst st; h = snd st in
     cells_inv c' \<and> cells_size c' = cells_size c \<and>
     (\<forall>j. cell_at c' j = (if j < n then spec (cell_at c j) else cell_at c j)) \<and>
     (h = cells_size c \<or> h < n) \<and>
     (\<forall>j < n. j < h \<longrightarrow> \<not> (cell_at c j \<noteq> None \<and> spec (cell_at c j) = None)) \<and>
     (h < n \<longrightarrow> cell_at c h \<noteq> None \<and> spec (cell_at c h) = None)"
  using assms(4)
proof (induction n)
  case 0
  then show ?case using assms(2) by (simp add: Let_def)
next
  case (Suc n)
  define st where "st = fold (sweep_step body) [0..<n] (c, cells_size c)"
  have n: "n < cells_size c" using Suc.prems by simp
  have IH: "cells_inv (fst st)" "cells_size (fst st) = cells_size c"
    "\<And>j. cell_at (fst st) j = (if j < n then spec (cell_at c j) else cell_at c j)"
    "snd st = cells_size c \<or> snd st < n"
    "\<And>j. j < n \<Longrightarrow> j < snd st \<Longrightarrow> \<not> (cell_at c j \<noteq> None \<and> spec (cell_at c j) = None)"
    "snd st < n \<Longrightarrow> cell_at c (snd st) \<noteq> None \<and> spec (cell_at c (snd st)) = None"
    using Suc unfolding Let_def st_def[symmetric] by auto
  have i: "n < cells_size (fst st)" using n IH(2) by simp
  have pre: "cpre (cell_at (fst st) n)" using assms(3) by (simp add: IH(3))
  note B = body_inv[OF assms(1) IH(1) i pre] body_size[OF assms(1) IH(1) i]
    body_cell[OF assms(1) IH(1) i pre] body_freed[OF assms(1) IH(1) i pre]
  have st': "fold (sweep_step body) [0..<Suc n] (c, cells_size c) = sweep_step body n st"
    by (simp add: st_def)
  have r1: "fst (sweep_step body n st) = fst (body n (fst st))"
    and r2: "snd (sweep_step body n st) =
        (if (cell_at c n \<noteq> None \<and> spec (cell_at c n) = None) \<and> snd st = cells_size c then n else snd st)"
    using B(4) by (simp_all add: sweep_step_def Let_def B(2) IH(2) IH(3))
  show ?case
    unfolding st' Let_def r1 r2 using B(1,2,3) IH n
    by (auto simp: less_Suc_eq)
qed

lemma sweep_spec:
  assumes "ok" "cells_inv c" "\<And>j. cpre (cell_at c j)"
  shows sweep_inv: "cells_inv (fst (sweep body c))"
    and sweep_size: "cells_size (fst (sweep body c)) = cells_size c"
    and sweep_cell: "j < cells_size c \<Longrightarrow> cell_at (fst (sweep body c)) j = spec (cell_at c j)"
    and sweep_head: "snd (sweep body c) = cells_size c \<or> snd (sweep body c) < cells_size c"
    and sweep_freed: "snd (sweep body c) < cells_size c \<Longrightarrow>
      cell_at c (snd (sweep body c)) \<noteq> None \<and> spec (cell_at c (snd (sweep body c))) = None"
    and sweep_first: "j < snd (sweep body c) \<Longrightarrow> cell_at c j \<noteq> None \<Longrightarrow> spec (cell_at c j) \<noteq> None"
proof -
  note L = sweep_prefix[OF assms order.refl, folded sweep_def, unfolded Let_def]
  show "cells_inv (fst (sweep body c))" "cells_size (fst (sweep body c)) = cells_size c"
    "snd (sweep body c) = cells_size c \<or> snd (sweep body c) < cells_size c"
    using L by simp_all
  show "j < cells_size c \<Longrightarrow> cell_at (fst (sweep body c)) j = spec (cell_at c j)"
    using L by simp
  show "snd (sweep body c) < cells_size c \<Longrightarrow>
      cell_at c (snd (sweep body c)) \<noteq> None \<and> spec (cell_at c (snd (sweep body c))) = None"
    using L by simp
  show "j < snd (sweep body c) \<Longrightarrow> cell_at c j \<noteq> None \<Longrightarrow> spec (cell_at c j) \<noteq> None"
    using L cell_at_None_iff[of c j] by auto
qed

end

end
