(* ===== verification/Kv_Cache.thy ===== *)
theory Kv_Cache
  imports Kv_Cells
begin

text \<open>
  The KV cache: class \<^verbatim>\<open>llama_kv_cache\<close> of \<^verbatim>\<open>llama.cpp/src/llama-kv-cache.cpp\<close>, its
  metadata (one cell table and one search head per stream) and the sequence operations of the
  memory interface \<^verbatim>\<open>llama_memory_i\<close>. The tensors that hold the keys and values are not
  modelled; where an operation queues work for them (stream copies, K-shift), the queue is part
  of the state. The loops over all cells are interpretations of \<open>cell_loop\<close>.
\<close>

section \<open>State and construction\<close>

datatype swa_type = SWA_NONE | SWA_STANDARD | SWA_CHUNKED | SWA_SYMMETRIC

record kv_cache =
  kv_arch_step35 :: bool
  kv_n_pos_per_embd :: nat
  kv_n_seq_max :: nat
  kv_n_stream :: nat
  kv_n_pad :: nat
  kv_n_swa :: nat
  kv_swa_type :: swa_type
  kv_v_heads :: "nat list"
  kv_v_cells :: "kv_cells list"
  kv_seq_to_stream :: "nat list"
  kv_sc_ssrc :: "nat list"
  kv_sc_sdst :: "nat list"

text \<open>The constructor's metadata part. \<^verbatim>\<open>seq_to_stream\<close> has \<open>LLAMA_MAX_SEQ\<close> entries in the
  unified case and one per stream otherwise.\<close>

definition kv_new :: "bool \<Rightarrow> nat \<Rightarrow> bool \<Rightarrow> nat \<Rightarrow> nat \<Rightarrow> nat \<Rightarrow> nat \<Rightarrow> swa_type \<Rightarrow> kv_cache res" where
  "kv_new step35 n_pos_per_embd unified kv_size n_seq_max n_pad n_swa swa =
     (let n_stream = (if unified then 1 else n_seq_max) in
      if n_pad = 0 then Inl Undefined
      else if kv_size mod n_pad \<noteq> 0 then Inl Abort
      else if \<not> (n_stream = 1 \<or> n_stream = n_seq_max) then Inl Abort
      else Inr \<lparr>kv_arch_step35 = step35, kv_n_pos_per_embd = n_pos_per_embd,
        kv_n_seq_max = n_seq_max, kv_n_stream = n_stream, kv_n_pad = n_pad, kv_n_swa = n_swa,
        kv_swa_type = swa, kv_v_heads = replicate n_stream 0,
        kv_v_cells = replicate n_stream (cells_resize kv_size cells_new),
        kv_seq_to_stream = (if n_stream > 1 then [0..<n_stream] else replicate LLAMA_MAX_SEQ 0),
        kv_sc_ssrc = [], kv_sc_sdst = []\<rparr>)"

section \<open>Sequence operations\<close>

definition kv_set_stream :: "nat \<Rightarrow> kv_cells \<Rightarrow> nat \<Rightarrow> kv_cache \<Rightarrow> kv_cache" where
  "kv_set_stream st c h kv = kv\<lparr>kv_v_cells := (kv_v_cells kv)[st := c],
     kv_v_heads := (kv_v_heads kv)[st := h]\<rparr>"

definition kv_seq_ok :: "kv_cache \<Rightarrow> int \<Rightarrow> bool" where
  "kv_seq_ok kv s \<longleftrightarrow> 0 \<le> s \<and> nat s < length (kv_seq_to_stream kv)"

definition kv_clear :: "kv_cache \<Rightarrow> kv_cache" where
  "kv_clear kv = fold (\<lambda>st kv. kv_set_stream st (cells_reset (kv_v_cells kv ! st)) 0 kv)
     [0..<kv_n_stream kv] kv"

definition seq_rm_body :: "nat \<Rightarrow> int \<Rightarrow> int \<Rightarrow> nat \<Rightarrow> kv_cells \<Rightarrow> kv_cells \<times> bool" where
  "seq_rm_body s p0 p1 i c =
     (if \<not> cells_pos_in c i p0 p1 then (c, False)
      else if cells_seq_has c i s then cells_seq_rm i s c else (c, False))"

definition rm_body :: "int \<Rightarrow> int \<Rightarrow> nat \<Rightarrow> kv_cells \<Rightarrow> kv_cells \<times> bool" where
  "rm_body p0 p1 i c =
     (if \<not> cells_pos_in c i p0 p1 then (c, False) else (cells_rm i c, True))"

text \<open>\<^verbatim>\<open>if (new_head != cells.size() && new_head < head) head = new_head\<close>\<close>

definition free_head :: "kv_cells \<Rightarrow> nat \<Rightarrow> nat \<Rightarrow> nat" where
  "free_head c new_head head =
     (if new_head \<noteq> cells_size c \<and> new_head < head then new_head else head)"

definition kv_sweep_stream :: "(nat \<Rightarrow> kv_cells \<Rightarrow> kv_cells \<times> bool) \<Rightarrow> nat \<Rightarrow> kv_cache \<Rightarrow> kv_cache" where
  "kv_sweep_stream body st kv =
     (let r = sweep body (kv_v_cells kv ! st)
      in kv_set_stream st (fst r) (free_head (fst r) (snd r) (kv_v_heads kv ! st)) kv)"

definition kv_seq_rm :: "int \<Rightarrow> int \<Rightarrow> int \<Rightarrow> kv_cache \<Rightarrow> (kv_cache \<times> bool) res" where
  "kv_seq_rm seq_id p0 p1 kv =
     (if \<not> (seq_id = - 1 \<or> kv_seq_ok kv seq_id) then Inl Abort
      else if seq_id \<ge> 0 then
        Inr (kv_sweep_stream (seq_rm_body (nat seq_id) (norm_p0 p0) (norm_p1 p1))
               (kv_seq_to_stream kv ! nat seq_id) kv, True)
      else
        Inr (fold (kv_sweep_stream (rm_body (norm_p0 p0) (norm_p1 p1))) [0..<kv_n_stream kv] kv, True))"

definition kv_get_size :: "kv_cache \<Rightarrow> nat" where
  "kv_get_size kv = cells_size (kv_v_cells kv ! (kv_seq_to_stream kv ! 0))"

definition seq_cp_body :: "nat \<Rightarrow> nat \<Rightarrow> int \<Rightarrow> int \<Rightarrow> nat \<Rightarrow> kv_cells \<Rightarrow> kv_cells \<times> bool" where
  "seq_cp_body src dst p0 p1 i c =
     (if \<not> cells_pos_in c i p0 p1 then (c, False)
      else if cells_seq_has c i src then (cells_seq_add i dst c, False) else (c, False))"

definition seq_cp_stream_step :: "nat \<Rightarrow> nat \<Rightarrow> kv_cells \<Rightarrow> nat \<Rightarrow> kv_cells \<Rightarrow> kv_cells" where
  "seq_cp_stream_step src dst c0 i c1 =
     (if cells_seq_has c0 i src then
        (let shift = cells_get_shift c0 i;
             ext = cells_ext_get c0 i;
             pos = (if shift \<noteq> 0 then cells_pos_get c0 i - shift else cells_pos_get c0 i);
             c2 = cells_seq_add i dst (cells_pos_set i pos c1);
             c3 = (if shift \<noteq> 0 then fst (cells_pos_add i shift c2) else c2)
         in cells_ext_set i ext c3)
      else c1)"

definition kv_seq_cp :: "int \<Rightarrow> int \<Rightarrow> int \<Rightarrow> int \<Rightarrow> kv_cache \<Rightarrow> kv_cache res" where
  "kv_seq_cp src dst p0 p1 kv =
     (if \<not> kv_seq_ok kv src then Inl Abort
      else if \<not> kv_seq_ok kv dst then Inl Abort
      else
        (let s0 = kv_seq_to_stream kv ! nat src; s1 = kv_seq_to_stream kv ! nat dst in
         if s0 = s1 then
           (if src = dst then Inr kv
            else Inr (kv\<lparr>kv_v_cells := (kv_v_cells kv)[s0 :=
              fst (sweep (seq_cp_body (nat src) (nat dst) (norm_p0 p0) (norm_p1 p1)) (kv_v_cells kv ! s0))]\<rparr>))
         else if (p0 > 0 \<and> p0 + 1 < int (kv_get_size kv)) \<or> (p1 > 0 \<and> p1 + 1 < int (kv_get_size kv))
           then Inl Abort
         else
           (let c0 = kv_v_cells kv ! s0;
                c1 = fold (seq_cp_stream_step (nat src) (nat dst) c0) [0..<cells_size c0]
                       (cells_reset (kv_v_cells kv ! s1))
            in Inr (kv_set_stream s1 c1 (kv_v_heads kv ! s0)
                 (kv\<lparr>kv_sc_ssrc := kv_sc_ssrc kv @ [s0], kv_sc_sdst := kv_sc_sdst kv @ [s1]\<rparr>)))))"

definition seq_keep_body :: "nat \<Rightarrow> nat \<Rightarrow> kv_cells \<Rightarrow> kv_cells \<times> bool" where
  "seq_keep_body s i c = cells_seq_keep i s c"

definition kv_seq_keep :: "int \<Rightarrow> kv_cache \<Rightarrow> kv_cache res" where
  "kv_seq_keep seq_id kv =
     (if \<not> kv_seq_ok kv seq_id then Inl Abort
      else Inr (kv_sweep_stream (seq_keep_body (nat seq_id)) (kv_seq_to_stream kv ! nat seq_id) kv))"

definition seq_add_body :: "nat \<Rightarrow> int \<Rightarrow> int \<Rightarrow> int \<Rightarrow> nat \<Rightarrow> kv_cells \<Rightarrow> kv_cells \<times> bool" where
  "seq_add_body s p0 p1 d i c =
     (if \<not> cells_pos_in c i p0 p1 then (c, False)
      else if cells_seq_has c i s then cells_pos_add i d c else (c, False))"

definition kv_seq_add :: "int \<Rightarrow> int \<Rightarrow> int \<Rightarrow> int \<Rightarrow> kv_cache \<Rightarrow> kv_cache res" where
  "kv_seq_add seq_id p0 p1 shift kv =
     (if \<not> kv_seq_ok kv seq_id then Inl Abort
      else if kv_n_pos_per_embd kv \<noteq> 1 then Inl Abort
      else if shift = 0 then Inr kv
      else if norm_p0 p0 = norm_p1 p1 then Inr kv
      else
        (let st = kv_seq_to_stream kv ! nat seq_id;
             r = sweep (seq_add_body (nat seq_id) (norm_p0 p0) (norm_p1 p1) shift) (kv_v_cells kv ! st)
         in Inr (kv_set_stream st (fst r)
              (if snd r \<noteq> cells_size (fst r) then snd r else 0) kv)))"

definition seq_div_body :: "nat \<Rightarrow> int \<Rightarrow> int \<Rightarrow> int \<Rightarrow> nat \<Rightarrow> kv_cells \<Rightarrow> kv_cells \<times> bool" where
  "seq_div_body s p0 p1 d i c =
     (if \<not> cells_pos_in c i p0 p1 then (c, False)
      else if cells_seq_has c i s then (cells_pos_div i d c, False) else (c, False))"

text \<open>Division by zero is undefined; it is reached only when a cell is in range.\<close>

definition kv_seq_div :: "int \<Rightarrow> int \<Rightarrow> int \<Rightarrow> int \<Rightarrow> kv_cache \<Rightarrow> kv_cache res" where
  "kv_seq_div seq_id p0 p1 d kv =
     (if \<not> kv_seq_ok kv seq_id then Inl Abort
      else if kv_n_pos_per_embd kv \<noteq> 1 then Inl Abort
      else if d = 1 then Inr kv
      else if norm_p0 p0 = norm_p1 p1 then Inr kv
      else
        (let st = kv_seq_to_stream kv ! nat seq_id; c = kv_v_cells kv ! st in
         if d = 0 \<and> (\<exists>i \<in> {0..<cells_size c}. cells_pos_in c i (norm_p0 p0) (norm_p1 p1)
              \<and> cells_seq_has c i (nat seq_id)) then Inl Undefined
         else Inr (kv\<lparr>kv_v_cells := (kv_v_cells kv)[st :=
           fst (sweep (seq_div_body (nat seq_id) (norm_p0 p0) (norm_p1 p1) d) c)]\<rparr>)))"

definition kv_seq_pos_min :: "kv_cache \<Rightarrow> int \<Rightarrow> int res" where
  "kv_seq_pos_min kv seq_id =
     (if \<not> kv_seq_ok kv seq_id then Inl Abort
      else Inr (cells_seq_pos_min (kv_v_cells kv ! (kv_seq_to_stream kv ! nat seq_id)) (nat seq_id)))"

definition kv_seq_pos_max :: "kv_cache \<Rightarrow> int \<Rightarrow> int res" where
  "kv_seq_pos_max kv seq_id =
     (if \<not> kv_seq_ok kv seq_id then Inl Abort
      else Inr (cells_seq_pos_max (kv_v_cells kv ! (kv_seq_to_stream kv ! nat seq_id)) (nat seq_id)))"

definition kv_get_can_shift :: "kv_cache \<Rightarrow> bool" where
  "kv_get_can_shift kv \<longleftrightarrow> \<not> kv_arch_step35 kv \<and> \<not> kv_n_pos_per_embd kv > 1"

definition kv_get_has_shift :: "kv_cache \<Rightarrow> bool" where
  "kv_get_has_shift kv \<longleftrightarrow> list_ex (\<lambda>st. kc_has_shift (kv_v_cells kv ! st)) [0..<kv_n_stream kv]"

text \<open>
  \<^verbatim>\<open>update\<close> applies the pending K-shift. The graph computation is the argument
  \<open>compute_ok\<close> (did allocation and computation succeed); \<open>rope\<close> says that the model rotates keys.
  The result is the new state and the flag the code returns.
\<close>

definition kv_update :: "bool \<Rightarrow> bool \<Rightarrow> bool \<Rightarrow> kv_cache \<Rightarrow> (kv_cache \<times> bool) res" where
  "kv_update rope compute_ok do_shift kv =
     (if do_shift then
        (if \<not> kv_get_can_shift kv then Inl Abort
         else if rope \<and> \<not> compute_ok then Inr (kv, False)
         else Inr (kv\<lparr>kv_v_cells := map cells_reset_shift (kv_v_cells kv)\<rparr>, rope))
      else Inr (kv, False))"

definition kv_init_update :: "kv_cache \<Rightarrow> kv_cache \<times> bool \<times> (nat list \<times> nat list)" where
  "kv_init_update kv =
     (kv\<lparr>kv_sc_ssrc := [], kv_sc_sdst := []\<rparr>, kv_get_has_shift kv, (kv_sc_ssrc kv, kv_sc_sdst kv))"

section \<open>What the operations do to a cell\<close>

definition in_range :: "int \<Rightarrow> int \<Rightarrow> int \<Rightarrow> bool" where
  "in_range p0 p1 p \<longleftrightarrow> p0 \<le> p \<and> p < p1"

fun rm_cell :: "int \<Rightarrow> int \<Rightarrow> acell \<Rightarrow> acell" where
  "rm_cell p0 p1 None = None"
| "rm_cell p0 p1 (Some (p, S)) = (if in_range p0 p1 p then None else Some (p, S))"

fun seq_rm_cell :: "nat \<Rightarrow> int \<Rightarrow> int \<Rightarrow> acell \<Rightarrow> acell" where
  "seq_rm_cell s p0 p1 None = None"
| "seq_rm_cell s p0 p1 (Some (p, S)) =
     (if in_range p0 p1 p \<and> s \<in> S then if S = {s} then None else Some (p, S - {s}) else Some (p, S))"

fun seq_cp_cell :: "nat \<Rightarrow> nat \<Rightarrow> int \<Rightarrow> int \<Rightarrow> acell \<Rightarrow> acell" where
  "seq_cp_cell src dst p0 p1 None = None"
| "seq_cp_cell src dst p0 p1 (Some (p, S)) =
     (if in_range p0 p1 p \<and> src \<in> S then Some (p, insert dst S) else Some (p, S))"

fun seq_keep_cell :: "nat \<Rightarrow> acell \<Rightarrow> acell" where
  "seq_keep_cell s None = None"
| "seq_keep_cell s (Some (p, S)) =
     (if s \<in> S then Some (p, {s}) else if S \<noteq> {} then None else Some (p, S))"

fun seq_add_cell :: "nat \<Rightarrow> int \<Rightarrow> int \<Rightarrow> int \<Rightarrow> acell \<Rightarrow> acell" where
  "seq_add_cell s p0 p1 d None = None"
| "seq_add_cell s p0 p1 d (Some (p, S)) =
     (if in_range p0 p1 p \<and> s \<in> S then if p + d < 0 then None else Some (p + d, S) else Some (p, S))"

fun seq_div_cell :: "nat \<Rightarrow> int \<Rightarrow> int \<Rightarrow> int \<Rightarrow> acell \<Rightarrow> acell" where
  "seq_div_cell s p0 p1 d None = None"
| "seq_div_cell s p0 p1 d (Some (p, S)) =
     (if in_range p0 p1 p \<and> s \<in> S then Some (p div d, S) else Some (p, S))"

text \<open>The condition of \<^verbatim>\<open>assert(!seq[i].test(seq_id))\<close> in \<^verbatim>\<open>seq_add\<close>: no copied cell
  already belongs to the destination.\<close>

fun seq_cp_pre :: "nat \<Rightarrow> nat \<Rightarrow> int \<Rightarrow> int \<Rightarrow> acell \<Rightarrow> bool" where
  "seq_cp_pre src dst p0 p1 None = True"
| "seq_cp_pre src dst p0 p1 (Some (p, S)) \<longleftrightarrow> \<not> (in_range p0 p1 p \<and> src \<in> S \<and> dst \<in> S)"

section \<open>The loops of the operations\<close>

lemma cell_at_cases:
  assumes "i < cells_size c"
  obtains "kc_pos c ! i = - 1" "cell_at c i = None"
    | "kc_pos c ! i \<noteq> - 1" "cell_at c i = Some (kc_pos c ! i, kc_seq c ! i)"
  using assms by (auto simp: cell_at_def)

lemmas body_defs = seq_rm_body_def rm_body_def seq_cp_body_def seq_keep_body_def
  seq_add_body_def seq_div_body_def cells_pos_in_def cells_seq_has_def in_range_def

interpretation rm_loop: cell_loop "0 \<le> p0" "rm_body p0 p1" "rm_cell p0 p1" "\<lambda>_. True" for p0 p1
proof (unfold_locales, goal_cases)
  case (1 c i)
  then show ?case by (auto simp: body_defs intro: cell_intros)
next
  case (2 c i)
  then show ?case by (auto simp: body_defs)
next
  case (3 c i j)
  show ?case using 3
    by (cases rule: cell_at_cases[OF 3(3)]) (auto simp: body_defs cell_simps)
next
  case (4 c i)
  show ?case using 4 by (cases rule: cell_at_cases[OF 4(3)]) (auto simp: body_defs)
qed

interpretation seq_rm_loop: cell_loop True "seq_rm_body s p0 p1" "seq_rm_cell s p0 p1" "\<lambda>_. True"
  for s p0 p1
proof (unfold_locales, goal_cases)
  case (1 c i)
  then show ?case by (auto simp: body_defs intro: cell_intros)
next
  case (2 c i)
  then show ?case by (auto simp: body_defs)
next
  case (3 c i j)
  show ?case using 3 cells_invD(7)[OF 3(2,3)]
    by (cases rule: cell_at_cases[OF 3(3)]) (auto simp: body_defs cell_at_seq_rm)
next
  case (4 c i)
  then have "i < length (kc_seq c)" by (simp add: cells_invD(3))
  then show ?case using 4 cells_invD(7)[OF 4(2,3)]
    by (cases rule: cell_at_cases[OF 4(3)]) (auto simp: body_defs cell_field_defs Let_def)
qed

interpretation seq_cp_loop: cell_loop "dst < LLAMA_MAX_SEQ" "seq_cp_body src dst p0 p1"
  "seq_cp_cell src dst p0 p1" "seq_cp_pre src dst p0 p1" for src dst p0 p1
proof (unfold_locales, goal_cases)
  case (1 c i)
  then show ?case using cells_nonempty[OF 1(2,3)]
    by (cases rule: cell_at_cases[OF 1(3)]) (auto simp: body_defs intro!: cell_intros)
next
  case (2 c i)
  then show ?case by (auto simp: body_defs)
next
  case (3 c i j)
  show ?case using 3 cells_invD(7)[OF 3(2,3)]
    by (cases rule: cell_at_cases[OF 3(3)]) (auto simp: body_defs cell_at_seq_add)
next
  case (4 c i)
  show ?case using 4 by (cases rule: cell_at_cases[OF 4(3)]) (auto simp: body_defs)
qed

interpretation seq_keep_loop: cell_loop True "seq_keep_body s" "seq_keep_cell s" "\<lambda>_. True" for s
proof (unfold_locales, goal_cases)
  case (1 c i)
  then show ?case by (auto simp: body_defs intro: cell_intros)
next
  case (2 c i)
  then show ?case by (auto simp: body_defs)
next
  case (3 c i j)
  show ?case using 3 cells_invD(7)[OF 3(2,3)]
    by (cases rule: cell_at_cases[OF 3(3)]) (auto simp: body_defs cell_at_seq_keep)
next
  case (4 c i)
  show ?case using 4 cells_invD(7)[OF 4(2,3)]
    by (cases rule: cell_at_cases[OF 4(3)]) (auto simp: body_defs cells_seq_keep_def Let_def)
qed

interpretation seq_add_loop: cell_loop True "seq_add_body s p0 p1 d" "seq_add_cell s p0 p1 d" "\<lambda>_. True"
  for s p0 p1 d
proof (unfold_locales, goal_cases)
  case (1 c i)
  then show ?case using cells_nonempty[OF 1(2,3)] by (auto simp: body_defs intro: cell_intros)
next
  case (2 c i)
  then show ?case by (auto simp: body_defs)
next
  case (3 c i j)
  show ?case using 3 cells_invD(7)[OF 3(2,3)]
    by (cases rule: cell_at_cases[OF 3(3)]) (auto simp: body_defs cell_at_pos_add)
next
  case (4 c i)
  then have "i < length (kc_pos c)" by (simp add: cells_invD(4))
  then show ?case using 4 cells_invD(7)[OF 4(2,3)]
    by (cases rule: cell_at_cases[OF 4(3)]) (auto simp: body_defs cell_field_defs Let_def)
qed

interpretation seq_div_loop: cell_loop "0 < d" "seq_div_body s p0 p1 d" "seq_div_cell s p0 p1 d" "\<lambda>_. True"
  for s p0 p1 d
proof (unfold_locales, goal_cases)
  case (1 c i)
  then show ?case using cells_nonempty[OF 1(2,3)] by (auto simp: body_defs intro: cell_intros)
next
  case (2 c i)
  then show ?case by (auto simp: body_defs)
next
  case (3 c i j)
  show ?case using 3 cells_invD(7)[OF 3(2,3)]
    by (cases rule: cell_at_cases[OF 3(3)]) (auto simp: body_defs cell_at_pos_div)
next
  case (4 c i)
  show ?case using 4 by (cases rule: cell_at_cases[OF 4(3)]) (auto simp: body_defs)
qed

section \<open>The invariant of the cache\<close>

definition kv_width :: "kv_cache \<Rightarrow> nat" where
  "kv_width kv = cells_size (kv_v_cells kv ! 0)"

definition kv_inv :: "kv_cache \<Rightarrow> bool" where
  "kv_inv kv \<longleftrightarrow>
     0 < kv_n_stream kv \<and> length (kv_v_cells kv) = kv_n_stream kv \<and>
     length (kv_v_heads kv) = kv_n_stream kv \<and>
     length (kv_seq_to_stream kv) \<le> LLAMA_MAX_SEQ \<and>
     (\<forall>st \<in> set (kv_seq_to_stream kv). st < kv_n_stream kv) \<and>
     (\<forall>st < kv_n_stream kv. cells_inv (kv_v_cells kv ! st) \<and>
        kv_v_heads kv ! st \<le> cells_size (kv_v_cells kv ! st) \<and>
        cells_size (kv_v_cells kv ! st) = kv_width kv)"

text \<open>The stream of a sequence, and the positions a sequence has in the cache.\<close>

definition kv_stream :: "kv_cache \<Rightarrow> nat \<Rightarrow> nat" where
  "kv_stream kv s = kv_seq_to_stream kv ! s"

definition kv_positions :: "kv_cache \<Rightarrow> nat \<Rightarrow> int set" where
  "kv_positions kv s = seq_positions (kv_v_cells kv ! kv_stream kv s) s"

lemma kv_invD:
  assumes "kv_inv kv"
  shows "0 < kv_n_stream kv" "length (kv_v_cells kv) = kv_n_stream kv"
    "length (kv_v_heads kv) = kv_n_stream kv" "length (kv_seq_to_stream kv) \<le> LLAMA_MAX_SEQ"
    "\<And>s. s < length (kv_seq_to_stream kv) \<Longrightarrow> kv_stream kv s < kv_n_stream kv"
    "\<And>st. st < kv_n_stream kv \<Longrightarrow> cells_inv (kv_v_cells kv ! st)"
    "\<And>st. st < kv_n_stream kv \<Longrightarrow> kv_v_heads kv ! st \<le> cells_size (kv_v_cells kv ! st)"
    "\<And>st. st < kv_n_stream kv \<Longrightarrow> cells_size (kv_v_cells kv ! st) = kv_width kv"
  using assms by (auto simp: kv_inv_def kv_stream_def)

lemma kv_new_inv:
  assumes "kv_new step35 npe unified kv_size n_seq_max n_pad n_swa swa = Inr kv"
    and "0 < n_seq_max" "n_seq_max \<le> LLAMA_MAX_SEQ"
  shows "kv_inv kv"
  using assms
  by (auto simp: kv_new_def kv_inv_def kv_width_def Let_def cells_resize_inv split: if_splits)

lemma kv_set_stream_simps [simp]:
  "kv_n_stream (kv_set_stream st c h kv) = kv_n_stream kv"
  "kv_seq_to_stream (kv_set_stream st c h kv) = kv_seq_to_stream kv"
  "kv_n_pos_per_embd (kv_set_stream st c h kv) = kv_n_pos_per_embd kv"
  "kv_v_cells (kv_set_stream st c h kv) = (kv_v_cells kv)[st := c]"
  "kv_v_heads (kv_set_stream st c h kv) = (kv_v_heads kv)[st := h]"
  "kv_n_swa (kv_set_stream st c h kv) = kv_n_swa kv"
  "kv_swa_type (kv_set_stream st c h kv) = kv_swa_type kv"
  "kv_n_pad (kv_set_stream st c h kv) = kv_n_pad kv"
  "kv_n_seq_max (kv_set_stream st c h kv) = kv_n_seq_max kv"
  by (simp_all add: kv_set_stream_def)

lemma kv_inv_queue [simp]:
  "kv_inv (kv\<lparr>kv_sc_ssrc := a, kv_sc_sdst := b\<rparr>) \<longleftrightarrow> kv_inv kv"
  by (simp add: kv_inv_def kv_width_def)

lemma kv_set_cells_inv:
  assumes "kv_inv kv" "st < kv_n_stream kv" "cells_inv c"
    "cells_size c = cells_size (kv_v_cells kv ! st)"
  shows "kv_inv (kv\<lparr>kv_v_cells := (kv_v_cells kv)[st := c]\<rparr>)"
proof -
  have "kv_width (kv\<lparr>kv_v_cells := (kv_v_cells kv)[st := c]\<rparr>) = kv_width kv"
    using assms(2,4) kv_invD(2)[OF assms(1)] by (cases "st = 0") (auto simp: kv_width_def)
  then show ?thesis
    unfolding kv_inv_def using assms by (auto simp: kv_inv_def nth_list_update)
qed

lemma kv_set_stream_inv:
  assumes "kv_inv kv" "st < kv_n_stream kv" "cells_inv c" "h \<le> cells_size c"
    "cells_size c = cells_size (kv_v_cells kv ! st)"
  shows "kv_inv (kv_set_stream st c h kv)"
proof -
  have "kv_inv (kv\<lparr>kv_v_cells := (kv_v_cells kv)[st := c]\<rparr>)"
    by (rule kv_set_cells_inv) (use assms in auto)
  then show ?thesis
    using assms(2,4) unfolding kv_inv_def kv_set_stream_def
    by (auto simp: nth_list_update kv_width_def)
qed

lemma kv_seq_okD:
  assumes "kv_inv kv" "kv_seq_ok kv s"
  shows "kv_stream kv (nat s) < kv_n_stream kv" "nat s < LLAMA_MAX_SEQ" "0 \<le> s"
    "nat s < length (kv_seq_to_stream kv)"
  using assms kv_invD(4,5)[OF assms(1)] by (auto simp: kv_seq_ok_def)

lemma kv_positions_other:
  assumes "kv_stream kv s \<noteq> st"
  shows "seq_positions ((kv_v_cells kv)[st := c] ! kv_stream kv s) s = kv_positions kv s"
  using assms by (simp add: kv_positions_def)

text \<open>Whether sequence \<open>s'\<close> has position \<open>p\<close> in a cell after an operation.\<close>

definition has_pos :: "acell \<Rightarrow> nat \<Rightarrow> int \<Rightarrow> bool" where
  "has_pos a s p \<longleftrightarrow> (case a of None \<Rightarrow> False | Some (q, S) \<Rightarrow> q = p \<and> s \<in> S)"

lemma has_pos_ex: "has_pos a s p \<longleftrightarrow> (\<exists>S. a = Some (p, S) \<and> s \<in> S)"
  by (auto simp: has_pos_def split: option.splits)

lemma seq_positions_has_pos: "seq_positions c s = {p. \<exists>i. has_pos (cell_at c i) s p}"
  by (auto simp: seq_positions_def has_pos_ex)

text \<open>A cell operation lifted to the positions of a sequence.\<close>

lemma seq_positions_spec:
  assumes "cells_size c' = cells_size c" "\<And>i. i < cells_size c \<Longrightarrow> cell_at c' i = spec (cell_at c i)"
    and "spec None = None"
  shows "seq_positions c' s = {p. \<exists>i. has_pos (spec (cell_at c i)) s p}"
proof -
  have "cell_at c' i = spec (cell_at c i)" for i
    using assms by (cases "i < cells_size c") (auto simp: cell_at_def)
  then show ?thesis by (simp add: seq_positions_has_pos)
qed

lemma has_pos_rm [simp]: "has_pos (rm_cell p0 p1 a) s p \<longleftrightarrow> has_pos a s p \<and> \<not> in_range p0 p1 p"
  by (cases "(p0, p1, a)" rule: rm_cell.cases) (auto simp: has_pos_def)

lemma has_pos_seq_rm [simp]:
  "has_pos (seq_rm_cell s p0 p1 a) s' p \<longleftrightarrow> has_pos a s' p \<and> \<not> (s' = s \<and> in_range p0 p1 p)"
  by (cases "(s, p0, p1, a)" rule: seq_rm_cell.cases) (auto simp: has_pos_def)

lemma has_pos_seq_cp [simp]:
  "has_pos (seq_cp_cell src dst p0 p1 a) s p \<longleftrightarrow>
     has_pos a s p \<or> (s = dst \<and> in_range p0 p1 p \<and> has_pos a src p)"
  by (cases "(src, dst, p0, p1, a)" rule: seq_cp_cell.cases) (auto simp: has_pos_def)

lemma has_pos_seq_keep [simp]: "has_pos (seq_keep_cell s a) s' p \<longleftrightarrow> has_pos a s' p \<and> s' = s"
  by (cases "(s, a)" rule: seq_keep_cell.cases) (auto simp: has_pos_def)

lemma has_pos_seq_add [simp]:
  "has_pos (seq_add_cell s p0 p1 d a) s p \<longleftrightarrow>
     (has_pos a s p \<and> \<not> in_range p0 p1 p) \<or> (has_pos a s (p - d) \<and> in_range p0 p1 (p - d) \<and> 0 \<le> p)"
  by (cases "(s, p0, p1, d, a)" rule: seq_add_cell.cases) (auto simp: has_pos_def)

lemma has_pos_seq_div [simp]:
  "has_pos (seq_div_cell s p0 p1 d a) s p \<longleftrightarrow>
     (has_pos a s p \<and> \<not> in_range p0 p1 p) \<or> (\<exists>q. has_pos a s q \<and> in_range p0 p1 q \<and> p = q div d)"
  by (cases "(s, p0, p1, d, a)" rule: seq_div_cell.cases) (auto simp: has_pos_def)

lemma seq_positions_seq_rm:
  assumes "cells_inv c"
  shows "seq_positions (fst (sweep (seq_rm_body s p0 p1) c)) s' =
     (if s' = s then {p \<in> seq_positions c s. \<not> in_range p0 p1 p} else seq_positions c s')"
proof -
  have "seq_positions (fst (sweep (seq_rm_body s p0 p1) c)) s' =
      {p. \<exists>i. has_pos (seq_rm_cell s p0 p1 (cell_at c i)) s' p}"
    using assms by (intro seq_positions_spec) (simp_all add: seq_rm_loop.sweep_size seq_rm_loop.sweep_cell)
  also have "\<dots> = (if s' = s then {p \<in> seq_positions c s. \<not> in_range p0 p1 p} else seq_positions c s')"
    by (cases "s' = s") (auto simp: seq_positions_has_pos)
  finally show ?thesis .
qed

lemma seq_positions_rm:
  assumes "cells_inv c" "0 \<le> p0"
  shows "seq_positions (fst (sweep (rm_body p0 p1) c)) s = {p \<in> seq_positions c s. \<not> in_range p0 p1 p}"
proof -
  have "seq_positions (fst (sweep (rm_body p0 p1) c)) s =
      {p. \<exists>i. has_pos (rm_cell p0 p1 (cell_at c i)) s p}"
    using assms by (intro seq_positions_spec) (simp_all add: rm_loop.sweep_size rm_loop.sweep_cell)
  then show ?thesis by (auto simp: seq_positions_has_pos)
qed

lemma seq_positions_seq_cp:
  assumes "cells_inv c" "dst < LLAMA_MAX_SEQ" "\<And>j. seq_cp_pre src dst p0 p1 (cell_at c j)"
  shows "seq_positions (fst (sweep (seq_cp_body src dst p0 p1) c)) s =
     (if s = dst then seq_positions c dst \<union> {p \<in> seq_positions c src. in_range p0 p1 p}
      else seq_positions c s)"
proof -
  have "seq_positions (fst (sweep (seq_cp_body src dst p0 p1) c)) s =
      {p. \<exists>i. has_pos (seq_cp_cell src dst p0 p1 (cell_at c i)) s p}"
    using assms by (intro seq_positions_spec) (simp_all add: seq_cp_loop.sweep_size seq_cp_loop.sweep_cell)
  also have "\<dots> = (if s = dst then seq_positions c dst \<union> {p \<in> seq_positions c src. in_range p0 p1 p}
      else seq_positions c s)"
    by (cases "s = dst") (auto simp: seq_positions_has_pos)
  finally show ?thesis .
qed

lemma seq_positions_seq_keep:
  assumes "cells_inv c"
  shows "seq_positions (fst (sweep (seq_keep_body s) c)) s' = (if s' = s then seq_positions c s else {})"
proof -
  have "seq_positions (fst (sweep (seq_keep_body s) c)) s' =
      {p. \<exists>i. has_pos (seq_keep_cell s (cell_at c i)) s' p}"
    using assms by (intro seq_positions_spec) (simp_all add: seq_keep_loop.sweep_size seq_keep_loop.sweep_cell)
  also have "\<dots> = (if s' = s then seq_positions c s else {})"
    by (cases "s' = s") (auto simp: seq_positions_has_pos)
  finally show ?thesis .
qed

lemma seq_positions_seq_add:
  assumes "cells_inv c"
  shows "seq_positions (fst (sweep (seq_add_body s p0 p1 d) c)) s =
     {p \<in> seq_positions c s. \<not> in_range p0 p1 p} \<union>
     {p + d | p. p \<in> seq_positions c s \<and> in_range p0 p1 p \<and> 0 \<le> p + d}"
proof -
  have "seq_positions (fst (sweep (seq_add_body s p0 p1 d) c)) s =
      {p. \<exists>i. has_pos (seq_add_cell s p0 p1 d (cell_at c i)) s p}"
    using assms by (intro seq_positions_spec) (simp_all add: seq_add_loop.sweep_size seq_add_loop.sweep_cell)
  then show ?thesis by (auto simp: seq_positions_has_pos)
qed

lemma seq_positions_seq_div:
  assumes "cells_inv c" "0 < d"
  shows "seq_positions (fst (sweep (seq_div_body s p0 p1 d) c)) s =
     {p \<in> seq_positions c s. \<not> in_range p0 p1 p} \<union>
     {p div d | p. p \<in> seq_positions c s \<and> in_range p0 p1 p}"
proof -
  have "seq_positions (fst (sweep (seq_div_body s p0 p1 d) c)) s =
      {p. \<exists>i. has_pos (seq_div_cell s p0 p1 d (cell_at c i)) s p}"
    using assms by (intro seq_positions_spec) (simp_all add: seq_div_loop.sweep_size seq_div_loop.sweep_cell)
  then show ?thesis by (auto simp: seq_positions_has_pos)
qed

section \<open>Correctness of the sequence operations\<close>

lemma kv_sweep_stream_simps [simp]:
  "kv_n_stream (kv_sweep_stream body st kv) = kv_n_stream kv"
  "kv_seq_to_stream (kv_sweep_stream body st kv) = kv_seq_to_stream kv"
  "kv_v_cells (kv_sweep_stream body st kv) = (kv_v_cells kv)[st := fst (sweep body (kv_v_cells kv ! st))]"
  by (simp_all add: kv_sweep_stream_def Let_def)

lemma kv_stream_simps [simp]:
  "kv_stream (kv_sweep_stream body st kv) s = kv_stream kv s"
  "kv_stream (kv_set_stream st c h kv) s = kv_stream kv s"
  "kv_stream (kv\<lparr>kv_v_cells := cs\<rparr>) s = kv_stream kv s"
  by (simp_all add: kv_stream_def)

lemma kv_sweep_stream_inv:
  assumes "kv_inv kv" "st < kv_n_stream kv"
    "cells_inv (fst (sweep body (kv_v_cells kv ! st)))"
    "cells_size (fst (sweep body (kv_v_cells kv ! st))) = cells_size (kv_v_cells kv ! st)"
  shows "kv_inv (kv_sweep_stream body st kv)"
  unfolding kv_sweep_stream_def Let_def
  by (rule kv_set_stream_inv)
    (use assms kv_invD(7)[OF assms(1,2)] in \<open>auto simp: free_head_def\<close>)

lemma kv_positions_sweep:
  assumes "kv_inv kv" "st < kv_n_stream kv"
  shows "kv_positions (kv_sweep_stream body st kv) s =
    (if kv_stream kv s = st then seq_positions (fst (sweep body (kv_v_cells kv ! st))) s
     else kv_positions kv s)"
  using assms kv_invD(2)[OF assms(1)] by (auto simp: kv_positions_def)

lemma kv_positions_set_cells:
  assumes "kv_inv kv" "st < kv_n_stream kv"
  shows "kv_positions (kv\<lparr>kv_v_cells := (kv_v_cells kv)[st := c]\<rparr>) s =
    (if kv_stream kv s = st then seq_positions c s else kv_positions kv s)"
    "kv_positions (kv_set_stream st c h kv) s =
    (if kv_stream kv s = st then seq_positions c s else kv_positions kv s)"
  using assms kv_invD(2)[OF assms(1)] by (auto simp: kv_positions_def)

lemma kv_seq_rm_spec:
  assumes "kv_inv kv" "kv_seq_ok kv s"
  shows "\<exists>kv'. kv_seq_rm s p0 p1 kv = Inr (kv', True) \<and> kv_inv kv' \<and>
    kv_positions kv' (nat s) =
      {p \<in> kv_positions kv (nat s). \<not> in_range (norm_p0 p0) (norm_p1 p1) p} \<and>
    (\<forall>s'. s' \<noteq> nat s \<longrightarrow> kv_positions kv' s' = kv_positions kv s')"
proof -
  note st = kv_seq_okD[OF assms]
  let ?st = "kv_stream kv (nat s)"
  let ?kv' = "kv_sweep_stream (seq_rm_body (nat s) (norm_p0 p0) (norm_p1 p1)) ?st kv"
  have c: "cells_inv (kv_v_cells kv ! ?st)" by (rule kv_invD(6)[OF assms(1) st(1)])
  have "kv_seq_rm s p0 p1 kv = Inr (?kv', True)"
    using assms(2) st(3) by (simp add: kv_seq_rm_def kv_stream_def)
  moreover have "kv_inv ?kv'"
    using kv_sweep_stream_inv[OF assms(1) st(1) seq_rm_loop.sweep_inv[OF TrueI c]
        seq_rm_loop.sweep_size[OF TrueI c]] by simp
  ultimately show ?thesis
    using seq_positions_seq_rm[OF c]
    by (auto simp: kv_positions_sweep[OF assms(1) st(1)] kv_positions_def[symmetric])
      (auto simp: kv_positions_def)
qed

text \<open>C15. \<^verbatim>\<open>seq_rm\<close> with a sequence id never fails on a valid id, keeps the cache invariant, removes
  exactly the positions in \<open>[p0, p1)\<close> from that sequence and leaves every other sequence alone.\<close>

theorem kv_seq_rm_correct:
  assumes "kv_inv kv" "kv_seq_ok kv s"
  shows "\<exists>kv'. kv_seq_rm s p0 p1 kv = Inr (kv', True) \<and> kv_inv kv' \<and>
    kv_positions kv' (nat s) =
      {p \<in> kv_positions kv (nat s). \<not> in_range (norm_p0 p0) (norm_p1 p1) p} \<and>
    (\<forall>s'. s' \<noteq> nat s \<longrightarrow> kv_positions kv' s' = kv_positions kv s')"
  by (rule kv_seq_rm_spec[OF assms])

text \<open>\<^verbatim>\<open>seq_rm\<close> with sequence id \<open>-1\<close> removes the positions in \<open>[p0, p1)\<close> from every
  sequence, in every stream; any other negative id aborts.\<close>

theorem kv_seq_rm_any_correct:
  assumes "kv_inv kv"
  shows "(\<exists>kv'. kv_seq_rm (- 1) p0 p1 kv = Inr (kv', True) \<and> kv_inv kv' \<and>
      (\<forall>s < length (kv_seq_to_stream kv). kv_positions kv' s =
        {p \<in> kv_positions kv s. \<not> in_range (norm_p0 p0) (norm_p1 p1) p})) \<and>
    (\<forall>s < - 1. kv_seq_rm s p0 p1 kv = Inl Abort)"
proof -
  let ?body = "rm_body (norm_p0 p0) (norm_p1 p1)"
  let ?P = "\<lambda>n kv'. kv_inv kv' \<and> kv_n_stream kv' = kv_n_stream kv \<and>
    kv_seq_to_stream kv' = kv_seq_to_stream kv \<and>
    (\<forall>s. kv_positions kv' s = (if kv_stream kv s < n
       then {p \<in> kv_positions kv s. \<not> in_range (norm_p0 p0) (norm_p1 p1) p} else kv_positions kv s))"
  have "?P (kv_n_stream kv) (fold (kv_sweep_stream ?body) [0..<kv_n_stream kv] kv)"
  proof (rule fold_upt_invariant[where P = ?P])
    show "?P 0 kv" using assms by simp
    fix i kv' assume i: "i < kv_n_stream kv" and P: "?P i kv'"
    then have i': "i < kv_n_stream kv'" and c: "cells_inv (kv_v_cells kv' ! i)"
      using kv_invD(6)[of kv' i] by auto
    have "kv_inv (kv_sweep_stream ?body i kv')"
      using P i' kv_sweep_stream_inv[OF _ i' rm_loop.sweep_inv[OF norm_p0_nonneg c]
          rm_loop.sweep_size[OF norm_p0_nonneg c]] by simp
    moreover have inv': "kv_inv kv'" and st: "\<And>s. kv_stream kv' s = kv_stream kv s"
      using P by (simp_all add: kv_stream_def)
    moreover have "kv_positions (kv_sweep_stream ?body i kv') s = (if kv_stream kv s = i
        then {p \<in> kv_positions kv' s. \<not> in_range (norm_p0 p0) (norm_p1 p1) p} else kv_positions kv' s)" for s
      using seq_positions_rm[OF c norm_p0_nonneg] st[of s]
      unfolding kv_positions_sweep[OF inv' i'] by (simp add: kv_positions_def)
    ultimately show "?P (Suc i) (kv_sweep_stream ?body i kv')"
      using P by (auto simp: less_Suc_eq)
  qed
  then show ?thesis
    using kv_invD(5)[OF assms] by (auto simp: kv_seq_rm_def kv_seq_ok_def)
qed


text \<open>\<^verbatim>\<open>seq_cp\<close> within a stream adds to the destination exactly the source's positions in
  \<open>[p0, p1)\<close>, sharing the cells, and changes no other sequence, provided no copied cell belongs to
  the destination already (the assertion of \<^verbatim>\<open>llama_kv_cells::seq_add\<close>).\<close>

theorem kv_seq_cp_same_stream:
  assumes "kv_inv kv" "kv_seq_ok kv src" "kv_seq_ok kv dst" "src \<noteq> dst"
    "kv_stream kv (nat src) = kv_stream kv (nat dst)"
    "\<And>i. seq_cp_pre (nat src) (nat dst) (norm_p0 p0) (norm_p1 p1)
       (cell_at (kv_v_cells kv ! kv_stream kv (nat src)) i)"
  shows "\<exists>kv'. kv_seq_cp src dst p0 p1 kv = Inr kv' \<and> kv_inv kv' \<and>
    kv_positions kv' (nat dst) = kv_positions kv (nat dst) \<union>
      {p \<in> kv_positions kv (nat src). in_range (norm_p0 p0) (norm_p1 p1) p} \<and>
    (\<forall>s. s \<noteq> nat dst \<longrightarrow> kv_positions kv' s = kv_positions kv s)"
proof -
  note st = kv_seq_okD(1)[OF assms(1,2)] and dst = kv_seq_okD(2)[OF assms(1,3)]
  let ?st = "kv_stream kv (nat src)"
  let ?c = "fst (sweep (seq_cp_body (nat src) (nat dst) (norm_p0 p0) (norm_p1 p1)) (kv_v_cells kv ! ?st))"
  let ?kv' = "kv\<lparr>kv_v_cells := (kv_v_cells kv)[?st := ?c]\<rparr>"
  have c: "cells_inv (kv_v_cells kv ! ?st)" by (rule kv_invD(6)[OF assms(1) st])
  have "kv_seq_cp src dst p0 p1 kv = Inr ?kv'"
    using assms(2-5) by (simp add: kv_seq_cp_def kv_stream_def Let_def)
  moreover have "kv_inv ?kv'"
    using kv_set_cells_inv[OF assms(1) st seq_cp_loop.sweep_inv[OF dst c assms(6)]
        seq_cp_loop.sweep_size[OF dst c assms(6)]] .
  moreover have "kv_positions ?kv' s = (if s = nat dst then kv_positions kv s \<union>
      {p \<in> kv_positions kv (nat src). in_range (norm_p0 p0) (norm_p1 p1) p} else kv_positions kv s)" for s
    unfolding kv_positions_set_cells(1)[OF assms(1) st] seq_positions_seq_cp[OF c dst assms(6)]
    by (cases "s = nat dst") (simp_all add: kv_positions_def flip: assms(5))
  ultimately show ?thesis by auto
qed

text \<open>The positions at which the keys of a table were computed: what \<^verbatim>\<open>pos - shift\<close> says for the
  cells in use. A copy into another stream replays them, so they have to be valid positions.\<close>

definition cells_orig_ok :: "kv_cells \<Rightarrow> bool" where
  "cells_orig_ok c \<longleftrightarrow> (\<forall>i < cells_size c. kc_pos c ! i \<noteq> - 1 \<longrightarrow> 0 \<le> kc_pos c ! i - kc_shift c ! i)"

lemma cell_fields_after_set:
  assumes "i < length (kc_pos c)" "i < length (kc_seq c)"
  shows "kc_pos (cells_seq_add i s (cells_pos_set i p c)) ! i = p"
    "kc_seq (cells_seq_add i s (cells_pos_set i p c)) ! i = insert s (kc_seq c ! i)"
    "cells_size (cells_seq_add i s (cells_pos_set i p c)) = cells_size c"
  using assms by (simp_all add: cells_seq_add_def cells_pos_set_def cells_seq_pos_inc_def cells_size_def)

lemma seq_cp_stream_step_correct:
  assumes c0: "cells_inv c0" "i < cells_size c0" "cells_orig_ok c0"
    and c1: "cells_inv c1" "i < cells_size c1" "cell_at c1 i = None" and dst: "dst < LLAMA_MAX_SEQ"
  shows "cells_inv (seq_cp_stream_step src dst c0 i c1)"
    and "cells_size (seq_cp_stream_step src dst c0 i c1) = cells_size c1"
    and "cell_at (seq_cp_stream_step src dst c0 i c1) j =
      (if j = i then (if src \<in> kc_seq c0 ! i then Some (kc_pos c0 ! i, {dst}) else None) else cell_at c1 j)"
proof -
  have emp: "kc_pos c1 ! i = - 1" "kc_seq c1 ! i = {}"
    using c1 cells_invD(7)[OF c1(1,2)] by (auto simp: cell_at_None_iff)
  have len: "i < length (kc_pos c1)" "i < length (kc_seq c1)" using c1 cells_invD(3,4)[OF c1(1)] by auto
  have "cells_inv (seq_cp_stream_step src dst c0 i c1) \<and>
    cells_size (seq_cp_stream_step src dst c0 i c1) = cells_size c1 \<and>
    (\<forall>j. cell_at (seq_cp_stream_step src dst c0 i c1) j =
      (if j = i then (if src \<in> kc_seq c0 ! i then Some (kc_pos c0 ! i, {dst}) else None) else cell_at c1 j))"
  proof (cases "src \<in> kc_seq c0 ! i")
    case False
    then show ?thesis using c1 by (simp add: seq_cp_stream_step_def cells_seq_has_def)
  next
    case True
    have p0: "0 \<le> kc_pos c0 ! i" "0 \<le> kc_pos c0 ! i - kc_shift c0 ! i"
      using cells_nonempty[OF c0(1,2) True] cells_invD(6)[OF c0(1,2)] c0 by (auto simp: cells_orig_ok_def)
    define q where "q = (if kc_shift c0 ! i \<noteq> 0 then kc_pos c0 ! i - kc_shift c0 ! i else kc_pos c0 ! i)"
    define c2 where "c2 = cells_seq_add i dst (cells_pos_set i q c1)"
    have q: "0 \<le> q" using p0 by (simp add: q_def)
    have ps: "cells_inv (cells_pos_set i q c1)" using c1 emp q by (intro cell_intros) auto
    have c2i: "cells_inv c2" unfolding c2_def
      using ps c1 dst emp len q by (intro cells_seq_add_inv) (auto simp: cells_pos_set_def cells_size_def)
    note f = cell_fields_after_set[OF len, of dst q, folded c2_def, unfolded emp]
    have at2: "cell_at c2 j = (if j = i then Some (q, {dst}) else cell_at c1 j)" for j
      unfolding c2_def using ps c1 emp q len
      by (subst cell_at_seq_add) (auto simp: cell_at_pos_set, auto simp: cells_pos_set_def)
    have step: "seq_cp_stream_step src dst c0 i c1 = cells_ext_set i (kc_ext c0 ! i)
        (if kc_shift c0 ! i \<noteq> 0 then fst (cells_pos_add i (kc_shift c0 ! i) c2) else c2)"
      using True by (simp add: seq_cp_stream_step_def cells_seq_has_def cells_get_shift_def
        cells_pos_get_def cells_ext_get_def Let_def c2_def q_def)
    have i2: "i < cells_size c2" "kc_pos c2 ! i \<noteq> - 1" using f c1 q by auto
    show ?thesis
      unfolding step using True f(3) c2i i2 cells_pos_add_inv[OF c2i i2] f p0
      by (auto simp: cell_simps cell_at_pos_add[OF c2i i2] at2 q_def intro!: cell_intros)
  qed
  then show "cells_inv (seq_cp_stream_step src dst c0 i c1)"
    "cells_size (seq_cp_stream_step src dst c0 i c1) = cells_size c1"
    "cell_at (seq_cp_stream_step src dst c0 i c1) j =
      (if j = i then (if src \<in> kc_seq c0 ! i then Some (kc_pos c0 ! i, {dst}) else None) else cell_at c1 j)"
    by blast+
qed

lemma seq_cp_stream_fold:
  fixes src :: nat
  assumes c0: "cells_inv c0" "cells_orig_ok c0" and dst: "dst < LLAMA_MAX_SEQ"
    and c1: "cells_size c1 = cells_size c0" "cells_inv c1" "\<And>j. cell_at c1 j = None"
  defines "c' \<equiv> fold (seq_cp_stream_step src dst c0) [0..<cells_size c0] c1"
  shows "cells_inv c'" "cells_size c' = cells_size c0"
    "seq_positions c' s = (if s = dst then seq_positions c0 src else {})"
proof -
  let ?copy = "\<lambda>j. if src \<in> kc_seq c0 ! j then Some (kc_pos c0 ! j, {dst}) else None"
  let ?P = "\<lambda>n c. cells_inv c \<and> cells_size c = cells_size c0 \<and>
    (\<forall>j. cell_at c j = (if j < n then ?copy j else None))"
  have "?P (cells_size c0) c'"
    unfolding c'_def
  proof (rule fold_upt_invariant[where P = ?P])
    show "?P 0 c1" using c1 by simp
    fix i c assume i: "i < cells_size c0" and P: "?P i c"
    then show "?P (Suc i) (seq_cp_stream_step src dst c0 i c)"
      using seq_cp_stream_step_correct[OF c0(1) i c0(2), of c dst src] dst
      by (auto simp: less_Suc_eq)
  qed
  then have P: "cells_inv c'" "cells_size c' = cells_size c0"
    "\<And>j. cell_at c' j = (if j < cells_size c0 then ?copy j else None)" by auto
  show "cells_inv c'" "cells_size c' = cells_size c0" by (fact P)+
  show "seq_positions c' s = (if s = dst then seq_positions c0 src else {})"
    unfolding seq_positions_def P(3) using cells_nonempty[OF c0(1)]
    by (auto simp: cell_at_Some_iff split: if_splits)
qed


text \<open>\<^verbatim>\<open>seq_keep\<close> leaves the sequence as it is and empties every other sequence of its stream;
  the sequences of other streams keep their positions.\<close>

theorem kv_seq_keep_correct:
  assumes "kv_inv kv" "kv_seq_ok kv s"
  shows "\<exists>kv'. kv_seq_keep s kv = Inr kv' \<and> kv_inv kv' \<and>
    (\<forall>s'. kv_positions kv' s' = (if s' = nat s \<or> kv_stream kv s' \<noteq> kv_stream kv (nat s)
       then kv_positions kv s' else {}))"
proof -
  note st = kv_seq_okD[OF assms]
  let ?st = "kv_stream kv (nat s)"
  let ?kv' = "kv_sweep_stream (seq_keep_body (nat s)) ?st kv"
  have c: "cells_inv (kv_v_cells kv ! ?st)" by (rule kv_invD(6)[OF assms(1) st(1)])
  have "kv_seq_keep s kv = Inr ?kv'" using assms(2) by (simp add: kv_seq_keep_def kv_stream_def)
  moreover have "kv_inv ?kv'"
    using kv_sweep_stream_inv[OF assms(1) st(1) seq_keep_loop.sweep_inv[OF TrueI c]
        seq_keep_loop.sweep_size[OF TrueI c]] by simp
  moreover have "kv_positions ?kv' s' = (if s' = nat s \<or> kv_stream kv s' \<noteq> ?st
       then kv_positions kv s' else {})" for s'
    unfolding kv_positions_sweep[OF assms(1) st(1)] seq_positions_seq_keep[OF c]
    by (auto simp: kv_positions_def)
  ultimately show ?thesis by blast
qed


text \<open>\<^verbatim>\<open>seq_div\<close> with a positive divisor divides the positions of the sequence in \<open>[p0, p1)\<close>,
  keeps those outside the range, and touches no other stream.\<close>

theorem kv_seq_div_correct:
  assumes "kv_inv kv" "kv_seq_ok kv s" "kv_n_pos_per_embd kv = 1" "0 < d"
  shows "\<exists>kv'. kv_seq_div s p0 p1 d kv = Inr kv' \<and> kv_inv kv' \<and>
    kv_positions kv' (nat s) =
      {p \<in> kv_positions kv (nat s). \<not> in_range (norm_p0 p0) (norm_p1 p1) p} \<union>
      {p div d | p. p \<in> kv_positions kv (nat s) \<and> in_range (norm_p0 p0) (norm_p1 p1) p} \<and>
    (\<forall>s'. kv_stream kv s' \<noteq> kv_stream kv (nat s) \<longrightarrow> kv_positions kv' s' = kv_positions kv s')"
proof (cases "d = 1 \<or> norm_p0 p0 = norm_p1 p1")
  case True
  then show ?thesis using assms by (auto simp: kv_seq_div_def in_range_def)
next
  case False
  note st = kv_seq_okD[OF assms(1,2)]
  let ?st = "kv_stream kv (nat s)"
  let ?c = "fst (sweep (seq_div_body (nat s) (norm_p0 p0) (norm_p1 p1) d) (kv_v_cells kv ! ?st))"
  let ?kv' = "kv\<lparr>kv_v_cells := (kv_v_cells kv)[?st := ?c]\<rparr>"
  have c: "cells_inv (kv_v_cells kv ! ?st)" by (rule kv_invD(6)[OF assms(1) st(1)])
  have "kv_seq_div s p0 p1 d kv = Inr ?kv'"
    using assms False by (simp add: kv_seq_div_def kv_stream_def Let_def)
  moreover have "kv_inv ?kv'"
    by (rule kv_set_cells_inv[OF assms(1) st(1) seq_div_loop.sweep_inv[OF assms(4) c TrueI]
          seq_div_loop.sweep_size[OF assms(4) c TrueI]])
  ultimately show ?thesis
    using seq_positions_seq_div[OF c assms(4)]
    by (auto simp: kv_positions_set_cells(1)[OF assms(1) st(1)] kv_positions_def[symmetric])
qed

text \<open>\<^verbatim>\<open>clear\<close> empties every sequence, resets every search head and keeps the invariant.\<close>

theorem kv_clear_correct:
  assumes "kv_inv kv"
  shows "kv_inv (kv_clear kv) \<and> (\<forall>s < length (kv_seq_to_stream kv). kv_positions (kv_clear kv) s = {}) \<and>
    (\<forall>st < kv_n_stream kv. kv_v_heads (kv_clear kv) ! st = 0)"
proof -
  let ?f = "\<lambda>st kv. kv_set_stream st (cells_reset (kv_v_cells kv ! st)) 0 kv"
  let ?P = "\<lambda>n kv'. kv_inv kv' \<and> kv_n_stream kv' = kv_n_stream kv \<and>
    kv_seq_to_stream kv' = kv_seq_to_stream kv \<and>
    (\<forall>st < n. (\<forall>j. cell_at (kv_v_cells kv' ! st) j = None) \<and> kv_v_heads kv' ! st = 0)"
  have "?P (kv_n_stream kv) (fold ?f [0..<kv_n_stream kv] kv)"
  proof (rule fold_upt_invariant[where P = ?P])
    show "?P 0 kv" using assms by simp
    fix i kv' assume i: "i < kv_n_stream kv" and P: "?P i kv'"
    then have i': "i < kv_n_stream kv'" and inv': "kv_inv kv'" by auto
    have "kv_inv (?f i kv')"
      by (rule kv_set_stream_inv[OF inv' i' cells_reset_inv]) auto
    then show "?P (Suc i) (?f i kv')"
      using P i' kv_invD(2,3)[OF inv'] by (auto simp: less_Suc_eq nth_list_update)
  qed
  then show ?thesis
    using kv_invD(5)[OF assms]
    by (auto simp: kv_clear_def kv_positions_def kv_stream_def seq_positions_def)
qed

text \<open>\<^verbatim>\<open>seq_pos_min\<close> and \<^verbatim>\<open>seq_pos_max\<close> return the least and the greatest position the
  sequence has in the cache, \<open>-1\<close> when it has none, although they only read the index.\<close>

theorem kv_seq_pos_bounds:
  assumes "kv_inv kv" "kv_seq_ok kv s"
  shows "kv_seq_pos_min kv s =
      Inr (if kv_positions kv (nat s) = {} then - 1 else Min (kv_positions kv (nat s))) \<and>
    kv_seq_pos_max kv s =
      Inr (if kv_positions kv (nat s) = {} then - 1 else Max (kv_positions kv (nat s)))"
  using assms cells_seq_pos_min_eq[OF kv_invD(6)[OF assms(1) kv_seq_okD(1)[OF assms]] kv_seq_okD(2)[OF assms]]
    cells_seq_pos_max_eq[OF kv_invD(6)[OF assms(1) kv_seq_okD(1)[OF assms]] kv_seq_okD(2)[OF assms]]
  by (simp_all add: kv_seq_pos_min_def kv_seq_pos_max_def kv_positions_def kv_stream_def)

section \<open>Pending shifts\<close>

text \<open>\<^verbatim>\<open>pos - shift\<close> is the position a key was last rotated for. A step of \<^verbatim>\<open>seq_add\<close> keeps it
  for every cell that survives.\<close>

lemma seq_add_body_orig:
  assumes "0 \<le> p0" "length (kc_shift c) = cells_size c" "j < cells_size c"
    "kc_pos (fst (seq_add_body s p0 p1 d i c)) ! j \<noteq> - 1"
  shows "kc_pos c ! j \<noteq> - 1 \<and> kc_pos (fst (seq_add_body s p0 p1 d i c)) ! j -
      kc_shift (fst (seq_add_body s p0 p1 d i c)) ! j = kc_pos c ! j - kc_shift c ! j"
  using assms
  by (cases "j = i") (auto simp: body_defs cells_pos_add_def cell_simps cells_size_def Let_def split: if_splits)

lemma seq_add_body_shift_length:
  "length (kc_shift (fst (seq_add_body s p0 p1 d i c))) = length (kc_shift c)"
  "length (kc_pos (fst (seq_add_body s p0 p1 d i c))) = length (kc_pos c)"
  by (auto simp: seq_add_body_def cells_pos_add_def cell_simps Let_def)

lemma sweep_seq_add_orig:
  assumes "cells_inv c" "0 \<le> p0" "j < cells_size c"
    "kc_pos (fst (sweep (seq_add_body s p0 p1 d) c)) ! j \<noteq> - 1"
  shows "kc_pos (fst (sweep (seq_add_body s p0 p1 d) c)) ! j -
     kc_shift (fst (sweep (seq_add_body s p0 p1 d) c)) ! j = kc_pos c ! j - kc_shift c ! j"
proof -
  let ?P = "\<lambda>st. length (kc_shift (fst st)) = cells_size c \<and> length (kc_pos (fst st)) = cells_size c \<and>
    (kc_pos (fst st) ! j \<noteq> - 1 \<longrightarrow> kc_pos (fst st) ! j - kc_shift (fst st) ! j = kc_pos c ! j - kc_shift c ! j)"
  have "?P (sweep (seq_add_body s p0 p1 d) c)"
    unfolding sweep_def
  proof (rule fold_invariant_simple[where P = ?P])
    show "?P (c, cells_size c)" using cells_invD(2,4)[OF assms(1)] by simp
    fix i and st :: "kv_cells \<times> nat" assume "?P st"
    then show "?P (sweep_step (seq_add_body s p0 p1 d) i st)"
      using seq_add_body_orig[OF assms(2), of "fst st" j s p1 d i] assms(3)
      by (auto simp: sweep_step_def Let_def seq_add_body_shift_length cells_size_def)
  qed
  then show ?thesis using assms(4) by simp
qed

text \<open>After \<^verbatim>\<open>seq_add\<close> every surviving cell of the stream still has the same
  \<^verbatim>\<open>pos - shift\<close>: the shift queued for a cell is exactly what its key has to be rotated by.\<close>

theorem kv_seq_add_shift:
  assumes "kv_inv kv" "kv_seq_ok kv s" "kv_seq_add s p0 p1 d kv = Inr kv'"
    and "st < kv_n_stream kv" "cell_at (kv_v_cells kv' ! st) j \<noteq> None"
  shows "cells_pos_get (kv_v_cells kv' ! st) j - cells_get_shift (kv_v_cells kv' ! st) j =
    cells_pos_get (kv_v_cells kv ! st) j - cells_get_shift (kv_v_cells kv ! st) j"
proof (cases "kv' = kv \<or> st \<noteq> kv_stream kv (nat s)")
  case True
  then show ?thesis
    using assms by (auto simp: kv_seq_add_def kv_stream_def Let_def split: if_splits)
next
  case False
  let ?r = "sweep (seq_add_body (nat s) (norm_p0 p0) (norm_p1 p1) d) (kv_v_cells kv ! st)"
  have c: "cells_inv (kv_v_cells kv ! st)" by (rule kv_invD(6)[OF assms(1,4)])
  have r: "kv_v_cells kv' ! st = fst ?r"
    using False assms(3,4) kv_invD(2)[OF assms(1)]
    by (auto simp: kv_seq_add_def kv_stream_def Let_def split: if_splits)
  then have "j < cells_size (fst ?r)" "kc_pos (fst ?r) ! j \<noteq> - 1"
    using assms(5) by (auto simp: cell_at_def split: if_splits)
  then show ?thesis
    using sweep_seq_add_orig[OF c norm_p0_nonneg] seq_add_loop.sweep_size[OF TrueI c TrueI]
    by (simp add: r cells_pos_get_def cells_get_shift_def)
qed

text \<open>\<^verbatim>\<open>pos_div\<close> adds \<^verbatim>\<open>p_old - pos\<close> to the shift, with the opposite sign: the queued rotation
  turns the key away from its new position.\<close>

lemma cells_pos_div_shift:
  assumes "cells_inv c" "i < cells_size c" "kc_pos c ! i = p" "0 \<le> p" "0 < d"
  shows "kc_pos (cells_pos_div i d c) ! i = p div d"
    "kc_shift (cells_pos_div i d c) ! i = kc_shift c ! i + (p - p div d)"
  using assms cells_invD(2)[OF assms(1)]
  by (simp_all add: cells_pos_div_def cell_simps Let_def sdiv_nonneg cells_size_def)

section \<open>A small cache\<close>

text \<open>Four cells; sequence 0 has positions 0 and 1, in one stream for all sequences or in
  the first of two.\<close>

definition ex_cells :: kv_cells where
  "ex_cells = cells_seq_add 1 0 (cells_pos_set 1 1 (cells_seq_add 0 0 (cells_pos_set 0 0
     (cells_resize 4 cells_new))))"

definition ex_kv :: "bool \<Rightarrow> kv_cache" where
  "ex_kv unified = (case kv_new False 1 unified 4 2 1 0 SWA_NONE of Inl _ \<Rightarrow> undefined
     | Inr kv \<Rightarrow> kv_set_stream 0 ex_cells 2 kv)"

lemma ex_kv_new: "\<exists>kv. kv_new False 1 u 4 2 1 0 SWA_NONE = Inr kv \<and> kv_n_pos_per_embd kv = 1 \<and>
    kv_n_stream kv = (if u then 1 else 2) \<and>
    kv_seq_to_stream kv = (if u then replicate LLAMA_MAX_SEQ 0 else [0, 1])"
  by (simp add: kv_new_def upt_rec)

lemma ex_cells_fields:
  "kc_pos ex_cells = [0, 1, - 1, - 1]" "kc_seq ex_cells = [{0}, {0}, {}, {}]"
  "kc_shift ex_cells = [0, 0, 0, 0]" "cells_size ex_cells = 4"
  by (simp_all add: ex_cells_def cells_seq_add_def cells_pos_set_def cells_resize_def cells_reset_def
      cells_new_def cells_seq_pos_inc_def resize_list_def cells_size_def Let_def numeral_eq_Suc)

lemma ex_cells_inv: "cells_inv ex_cells"
  unfolding ex_cells_def
  by (intro cell_intros) (simp_all add: cells_seq_add_def cells_pos_set_def cells_resize_def cells_reset_def
      cells_new_def cells_seq_pos_inc_def resize_list_def cells_size_def Let_def numeral_eq_Suc LLAMA_MAX_SEQ_def)

lemma ex_cells_positions: "seq_positions ex_cells s = (if s = 0 then {0, 1} else {})"
proof -
  have "cell_at ex_cells i = (if i = 0 then Some (0, {0}) else if i = 1 then Some (1, {0}) else None)" for i
    using less_Suc_eq[of i 3] less_Suc_eq[of i 2]
    by (cases "i < 4") (auto simp: cell_at_def ex_cells_fields numeral_eq_Suc less_Suc_eq)
  then show ?thesis by (auto simp: seq_positions_def split: if_splits)
qed

lemma ex_kv_simps [simp]:
  "kv_n_pos_per_embd (ex_kv u) = 1" "kv_n_stream (ex_kv u) = (if u then 1 else 2)"
  "kv_seq_ok (ex_kv u) 0" "kv_seq_ok (ex_kv u) 1"
  "kv_stream (ex_kv u) 0 = 0" "kv_stream (ex_kv u) (Suc 0) = (if u then 0 else 1)"
  "kv_v_cells (ex_kv u) ! 0 = ex_cells"
  by (auto simp: ex_kv_def kv_new_def kv_seq_ok_def kv_stream_def LLAMA_MAX_SEQ_def upt_rec)

lemma ex_kv_inv [simp]: "kv_inv (ex_kv u)"
proof -
  obtain kv where kv: "kv_new False 1 u 4 2 1 0 SWA_NONE = Inr kv" using ex_kv_new by blast
  then have "cells_size (kv_v_cells kv ! 0) = 4" "0 < kv_n_stream kv"
    by (auto simp: kv_new_def Let_def split: if_splits)
  then show ?thesis
    unfolding ex_kv_def kv using kv_new_inv[OF kv]
    by (auto intro!: kv_set_stream_inv ex_cells_inv simp: ex_cells_fields LLAMA_MAX_SEQ_def)
qed

lemma ex_kv_positions [simp]:
  "s < LLAMA_MAX_SEQ \<Longrightarrow> kv_positions (ex_kv True) s = (if s = 0 then {0, 1} else {})"
  "kv_positions (ex_kv False) 0 = {0, 1}"
  by (auto simp: kv_positions_def ex_kv_def kv_new_def kv_stream_def ex_cells_positions LLAMA_MAX_SEQ_def upt_rec)

text \<open>The theorems above on this cache.\<close>

lemmas ex_simps = in_range_def norm_p0_def norm_p1_def INT32_MAX_def LLAMA_MAX_SEQ_def

lemma kv_seq_rm_witness:
  "kv_inv (ex_kv True) \<and> kv_seq_ok (ex_kv True) 0 \<and>
   (\<exists>kv'. kv_seq_rm 0 1 (- 1) (ex_kv True) = Inr (kv', True) \<and> kv_positions kv' 0 = {0})"
  using kv_seq_rm_correct[of "ex_kv True" 0 1 "- 1"] by (auto simp: ex_simps)

lemma kv_seq_rm_any_witness:
  "kv_inv (ex_kv True) \<and> (\<exists>kv'. kv_seq_rm (- 1) 0 1 (ex_kv True) = Inr (kv', True) \<and>
     kv_positions kv' 0 = {1}) \<and> kv_seq_rm (- 2) 0 1 (ex_kv True) = Inl Abort"
proof -
  have "0 < length (kv_seq_to_stream (ex_kv True))" using ex_kv_simps(3)[of True] by (simp add: kv_seq_ok_def)
  then show ?thesis using kv_seq_rm_any_correct[of "ex_kv True" 0 1] by (fastforce simp: ex_simps)
qed

lemma kv_seq_cp_same_stream_witness:
  "kv_inv (ex_kv True) \<and> (\<exists>kv'. kv_seq_cp 0 1 1 (- 1) (ex_kv True) = Inr kv' \<and>
     kv_positions kv' 0 = {0, 1} \<and> kv_positions kv' 1 = {1})"
proof -
  have "seq_cp_pre 0 1 1 INT32_MAX (cell_at ex_cells i)" for i
    using ex_cells_positions[of 1]
    by (cases "cell_at ex_cells i") (auto simp: seq_positions_def split: if_splits)
  then show ?thesis
    using kv_seq_cp_same_stream[of "ex_kv True" 0 1 1 "- 1"] by (fastforce simp: ex_simps)
qed


lemma kv_seq_keep_witness:
  "kv_inv (ex_kv True) \<and> (\<exists>kv'. kv_seq_keep 1 (ex_kv True) = Inr kv' \<and> kv_positions kv' 0 = {})"
  using kv_seq_keep_correct[of "ex_kv True" 1] by (fastforce simp: ex_simps)


lemma kv_seq_div_witness:
  "kv_inv (ex_kv True) \<and> (\<exists>kv'. kv_seq_div 0 0 (- 1) 2 (ex_kv True) = Inr kv' \<and>
     kv_positions kv' 0 = {0})"
proof -
  have two: "0 < (2::int)" by simp
  obtain kv' where kv': "kv_seq_div 0 0 (- 1) 2 (ex_kv True) = Inr kv'"
    and P: "kv_positions kv' (nat 0) =
      {p \<in> kv_positions (ex_kv True) (nat 0). \<not> in_range (norm_p0 0) (norm_p1 (- 1)) p} \<union>
      {p div 2 | p. p \<in> kv_positions (ex_kv True) (nat 0) \<and> in_range (norm_p0 0) (norm_p1 (- 1)) p}"
    using kv_seq_div_correct[OF ex_kv_inv[of True] ex_kv_simps(3,1) two, of 0 "- 1"] by blast
  have "{p \<in> kv_positions (ex_kv True) (nat 0). \<not> in_range (norm_p0 0) (norm_p1 (- 1)) p} = {}"
    by (auto simp: ex_simps)
  moreover have "{p div 2 | p. p \<in> kv_positions (ex_kv True) (nat 0) \<and>
      in_range (norm_p0 0) (norm_p1 (- 1)) p} = (\<lambda>p. p div 2) ` {0, 1}"
    by (auto simp: ex_simps image_iff intro: exI[of _ "0::int"])
  ultimately show ?thesis using kv' P by auto
qed

lemma kv_clear_witness:
  "kv_inv (ex_kv True) \<and> kv_positions (kv_clear (ex_kv True)) 0 = {}"
proof -
  have "0 < length (kv_seq_to_stream (ex_kv True))" using ex_kv_simps(3)[of True] by (simp add: kv_seq_ok_def)
  then show ?thesis using kv_clear_correct[of "ex_kv True"] by simp
qed

lemma kv_seq_pos_bounds_witness:
  "kv_inv (ex_kv True) \<and> kv_seq_pos_min (ex_kv True) 0 = Inr 0 \<and> kv_seq_pos_max (ex_kv True) 0 = Inr 1 \<and>
   kv_seq_pos_max (ex_kv True) 1 = Inr (- 1)"
  using kv_seq_pos_bounds[of "ex_kv True" 0] kv_seq_pos_bounds[of "ex_kv True" 1]
  by (simp add: LLAMA_MAX_SEQ_def)

lemma kv_seq_add_shift_witness:
  "\<exists>kv'. kv_seq_add 0 0 (- 1) 5 (ex_kv True) = Inr kv' \<and> cell_at (kv_v_cells kv' ! 0) 1 \<noteq> None \<and>
     cells_pos_get (kv_v_cells kv' ! 0) 1 - cells_get_shift (kv_v_cells kv' ! 0) 1 = 1"
proof -
  let ?r = "sweep (seq_add_body 0 0 INT32_MAX 5) ex_cells"
  have ad: "\<exists>kv'. kv_seq_add 0 0 (- 1) 5 (ex_kv True) = Inr kv' \<and> kv_v_cells kv' ! 0 = fst ?r"
    using kv_invD(2)[OF ex_kv_inv[of True]] ex_kv_simps(5)[of True]
    by (simp add: kv_seq_add_def norm_p0_def norm_p1_def INT32_MAX_def Let_def kv_stream_def)
  moreover have "cell_at (fst ?r) 1 = Some (6, {0})"
    using seq_add_loop.sweep_cell[OF TrueI ex_cells_inv TrueI, of 1 0 0 INT32_MAX 5]
    by (simp add: ex_cells_fields cell_at_def[of ex_cells] ex_simps)
  ultimately show ?thesis
    using kv_seq_add_shift[of "ex_kv True" 0 0 "- 1" 5 _ 0 1]
    by (fastforce simp: cells_pos_get_def cells_get_shift_def ex_cells_fields)
qed

end
