(* ===== verification/Batch.thy ===== *)
theory Batch
  imports Prelude "HOL-Library.Multiset"
begin

text \<open>
  Batches: \<^verbatim>\<open>llama.cpp/src/llama-batch.cpp\<close>. \<open>llama_batch\<close> is the caller's input with its
  optional arrays, \<open>allocr\<close> the state of \<^verbatim>\<open>llama_batch_allocr\<close>, \<open>ubatch\<close> the pieces it
  cuts a batch into. \<open>al_init\<close> validates and completes a batch; \<open>split_simple\<close>, \<open>split_equal\<close> and
  \<open>split_seq\<close> cut it. The locale \<open>splitter\<close> states what a split promises; the driver loop
  \<open>split_all\<close> is verified once for every splitter.

  Floats are only copied and are kept as their 32 bits.
\<close>

section \<open>Data\<close>

record llama_batch =
  lb_n_tokens :: nat
  lb_token :: "int list option"
  lb_embd :: "32 word list option"
  lb_pos :: "int list option"
  lb_n_seq_id :: "nat list option"
  lb_seq_id :: "int list list option"
  lb_logits :: "int list option"

record ubatch =
  ub_equal_seqs :: bool
  ub_n_tokens :: nat
  ub_n_seq_tokens :: nat
  ub_n_seqs :: nat
  ub_n_seqs_unq :: nat
  ub_n_pos :: nat
  ub_token :: "int list option"
  ub_embd :: "32 word list option"
  ub_pos :: "int list"
  ub_n_seq_id :: "nat list"
  ub_seq_id :: "nat list list"
  ub_seq_id_unq :: "nat list"
  ub_seq_idx :: "int list"
  ub_output :: "int list"

definition ub_is_pos_2d :: "ubatch \<Rightarrow> bool" where
  "ub_is_pos_2d u \<longleftrightarrow> ub_n_pos u \<ge> 3"

record allocr =
  al_n_pos_per_embd :: nat
  al_batch :: llama_batch
  al_n_embd :: nat
  al_n_seq_max :: nat
  al_n_outputs :: nat
  al_seq_id_unq :: "nat list"
  al_seq_idx :: "int list"
  al_has_cpl :: bool
  al_seq_pos :: "nat \<Rightarrow> int set"
  al_seq_cpl :: "nat \<Rightarrow> nat \<Rightarrow> bool"
  al_seq_set :: "nat set list"
  al_seq_set_map :: "nat set \<Rightarrow> nat list"
  al_out_ids :: "nat list"
  al_n_used :: nat
  al_used :: "bool list"

definition batch_none :: llama_batch where
  "batch_none = \<lparr>lb_n_tokens = 0, lb_token = None, lb_embd = None, lb_pos = None,
     lb_n_seq_id = None, lb_seq_id = None, lb_logits = None\<rparr>"

text \<open>\<^verbatim>\<open>llama_batch_get_one\<close>: tokens only.\<close>

definition llama_batch_get_one :: "int list \<Rightarrow> llama_batch" where
  "llama_batch_get_one tokens = batch_none\<lparr>lb_n_tokens := length tokens, lb_token := Some tokens\<rparr>"

text \<open>The value \<^verbatim>\<open>return {}\<close> of the splits.\<close>

definition ubatch_none :: ubatch where
  "ubatch_none = \<lparr>ub_equal_seqs = False, ub_n_tokens = 0, ub_n_seq_tokens = 0, ub_n_seqs = 0,
     ub_n_seqs_unq = 0, ub_n_pos = 0, ub_token = None, ub_embd = None, ub_pos = [],
     ub_n_seq_id = [], ub_seq_id = [], ub_seq_id_unq = [], ub_seq_idx = [], ub_output = []\<rparr>"

definition al_new :: "nat \<Rightarrow> allocr" where
  "al_new n_pos_per_embd = \<lparr>al_n_pos_per_embd = n_pos_per_embd, al_batch = batch_none, al_n_embd = 0,
     al_n_seq_max = 0, al_n_outputs = 0, al_seq_id_unq = [], al_seq_idx = replicate LLAMA_MAX_SEQ (- 1),
     al_has_cpl = False, al_seq_pos = (\<lambda>_. {}), al_seq_cpl = (\<lambda>_ _. False), al_seq_set = [],
     al_seq_set_map = (\<lambda>_. []), al_out_ids = [], al_n_used = 0, al_used = []\<rparr>"

section \<open>Reading a batch\<close>

text \<open>
  The arrays a caller has to provide (\<^verbatim>\<open>llama.h\<close>, \<^verbatim>\<open>llama_batch\<close>). Where they are shorter the
  code reads outside them; a token in no sequence has no \<^verbatim>\<open>seq_id[i][0]\<close>.
\<close>

definition batch_shape :: "nat \<Rightarrow> nat \<Rightarrow> llama_batch \<Rightarrow> bool" where
  "batch_shape n_pos n_embd b \<longleftrightarrow>
     (let n = lb_n_tokens b in
      (case lb_token b of None \<Rightarrow> True | Some t \<Rightarrow> length t = n) \<and>
      (case lb_embd b of None \<Rightarrow> True | Some e \<Rightarrow> length e = n * n_embd) \<and>
      (case lb_pos b of None \<Rightarrow> lb_token b \<noteq> None \<or> n_pos \<le> 1
         | Some p \<Rightarrow> length p = (if lb_token b \<noteq> None then n else n * n_pos)) \<and>
      (case lb_logits b of None \<Rightarrow> True | Some l \<Rightarrow> length l = n) \<and>
      (case lb_n_seq_id b of None \<Rightarrow> lb_seq_id b = None
         | Some ns \<Rightarrow> length ns = n \<and>
             (case lb_seq_id b of None \<Rightarrow> \<forall>k \<in> set ns. k = 1
              | Some ss \<Rightarrow> length ss = n \<and> (\<forall>(k, s) \<in> set (zip ns ss). 1 \<le> k \<and> k \<le> length s))))"

text \<open>The sequences of token \<open>i\<close>, once the arrays are there.\<close>

definition lb_seqs :: "llama_batch \<Rightarrow> nat \<Rightarrow> nat list" where
  "lb_seqs b i = map nat (take (the (lb_n_seq_id b) ! i) (the (lb_seq_id b) ! i))"

definition lb_pos_at :: "llama_batch \<Rightarrow> nat \<Rightarrow> int" where
  "lb_pos_at b i = the (lb_pos b) ! i"

section \<open>\<^verbatim>\<open>init\<close>\<close>

definition al_clear :: "allocr \<Rightarrow> allocr" where
  "al_clear a = a\<lparr>al_n_outputs := 0, al_batch := batch_none, al_seq_id_unq := [],
     al_seq_pos := (\<lambda>_. {}), al_seq_cpl := (\<lambda>_ _. False), al_seq_set := [],
     al_seq_set_map := (\<lambda>_. []), al_seq_idx := map (\<lambda>_. - 1) (al_seq_idx a)\<rparr>"

definition al_split_reset :: "allocr \<Rightarrow> allocr" where
  "al_split_reset a = a\<lparr>al_out_ids := [], al_n_used := 0,
     al_used := replicate (lb_n_tokens (al_batch a)) False\<rparr>"

text \<open>Validation of the tokens and of the sequence ids.\<close>

definition al_valid_input :: "nat \<Rightarrow> nat \<Rightarrow> llama_batch \<Rightarrow> bool" where
  "al_valid_input n_vocab n_seq_max b \<longleftrightarrow>
     n_seq_max \<le> LLAMA_MAX_SEQ \<and>
     (case lb_token b of None \<Rightarrow> True
      | Some t \<Rightarrow> list_all (\<lambda>x. \<not> (x < 0 \<or> u32 x \<ge> n_vocab)) t) \<and>
     (case lb_seq_id b of None \<Rightarrow> True
      | Some ss \<Rightarrow> list_all (\<lambda>(k, s). list_all (\<lambda>x. \<not> (x < 0 \<or> x \<ge> int n_seq_max)) (take k s))
          (zip (the (lb_n_seq_id b)) ss))"

text \<open>Generation of the missing arrays.\<close>

definition al_fill_seq :: "llama_batch \<Rightarrow> llama_batch" where
  "al_fill_seq b =
     (let n = lb_n_tokens b;
          b1 = (if lb_n_seq_id b = None then b\<lparr>lb_n_seq_id := Some (replicate n 1)\<rparr> else b)
      in if lb_seq_id b1 = None then b1\<lparr>lb_seq_id := Some (replicate n [0])\<rparr> else b1)"

fun al_gen_pos :: "nat list list \<Rightarrow> (nat \<Rightarrow> int) \<Rightarrow> int list" where
  "al_gen_pos [] p0 = []"
| "al_gen_pos (ss # sss) p0 =
     (let p = p0 (hd ss) in p # al_gen_pos sss (fold (\<lambda>s f. f(s := p + 1)) ss p0))"

type_synonym memory_bounds = "((nat \<Rightarrow> int) \<times> (nat \<Rightarrow> int)) option"

definition mem_pos_min :: "memory_bounds \<Rightarrow> nat \<Rightarrow> int" where
  "mem_pos_min mem s = (case mem of None \<Rightarrow> - 1 | Some (mn, mx) \<Rightarrow> mn s)"

definition mem_pos_max :: "memory_bounds \<Rightarrow> nat \<Rightarrow> int" where
  "mem_pos_max mem s = (case mem of None \<Rightarrow> - 1 | Some (mn, mx) \<Rightarrow> mx s)"

definition al_fill_pos :: "memory_bounds \<Rightarrow> llama_batch \<Rightarrow> llama_batch" where
  "al_fill_pos mem b =
     (if lb_pos b = None
      then b\<lparr>lb_pos := Some (al_gen_pos (map (lb_seqs b) [0..<lb_n_tokens b])
              (\<lambda>s. if mem = None then 0 else mem_pos_max mem s + 1))\<rparr>
      else b)"

definition al_fill_logits :: "bool \<Rightarrow> llama_batch \<Rightarrow> llama_batch" where
  "al_fill_logits output_all b =
     (let n = lb_n_tokens b in
      case lb_logits b of
        None \<Rightarrow> b\<lparr>lb_logits := Some (if output_all then replicate n 1 else (replicate n 0)[n - 1 := 1])\<rparr>
      | Some l \<Rightarrow> if output_all \<and> list_ex (\<lambda>x. x = 0) l then b\<lparr>lb_logits := Some (replicate n 1)\<rparr> else b)"

text \<open>The statistics: positions and coupling per sequence, then the sequence sets.\<close>

definition al_couple_one :: "nat \<Rightarrow> int \<Rightarrow> nat \<times> nat \<Rightarrow> allocr \<Rightarrow> allocr" where
  "al_couple_one s0 p ks a =
     (let s1 = snd ks; a1 = a\<lparr>al_seq_pos := (al_seq_pos a)(s1 := insert p (al_seq_pos a s1))\<rparr>
      in if fst ks > 0
         then a1\<lparr>al_seq_cpl := (al_seq_cpl a1)(s1 := (al_seq_cpl a1 s1)(s0 := True)), al_has_cpl := True\<rparr>
         else a1)"

definition al_couple_token :: "nat \<Rightarrow> allocr \<Rightarrow> allocr" where
  "al_couple_token i a =
     (let ss = lb_seqs (al_batch a) i
      in fold (al_couple_one (hd ss) (lb_pos_at (al_batch a) i)) (enumerate 0 ss) a)"

definition al_set_token :: "nat \<Rightarrow> allocr \<Rightarrow> allocr" where
  "al_set_token i a =
     (let cur = set (lb_seqs (al_batch a) i)
      in a\<lparr>al_seq_set := al_seq_set a @ [cur],
           al_seq_set_map := (al_seq_set_map a)(cur := al_seq_set_map a cur @ [i])\<rparr>)"

definition al_unq_step :: "nat set \<Rightarrow> nat \<Rightarrow> nat list \<times> int list \<Rightarrow> nat list \<times> int list" where
  "al_unq_step S s r =
     (if s \<in> S then (fst r @ [s], (snd r)[s := int (length (fst r))]) else r)"

definition al_stats :: "nat \<Rightarrow> nat \<Rightarrow> allocr \<Rightarrow> allocr" where
  "al_stats n_embd n_seq_max a =
     (let n = lb_n_tokens (al_batch a);
          a1 = a\<lparr>al_n_embd := n_embd, al_n_seq_max := n_seq_max,
                 al_n_outputs := al_n_outputs a + length (filter (\<lambda>x. x \<noteq> 0) (the (lb_logits (al_batch a)))),
                 al_has_cpl := False\<rparr>;
          a2 = fold al_couple_token [0..<n] a1;
          a3 = fold al_set_token [0..<n] a2;
          r = fold (al_unq_step (\<Union>(set (al_seq_set a3)))) [0..<n_seq_max] (al_seq_id_unq a3, al_seq_idx a3)
      in a3\<lparr>al_seq_id_unq := fst r, al_seq_idx := snd r\<rparr>)"

definition al_seq_pos_min :: "allocr \<Rightarrow> nat \<Rightarrow> int" where
  "al_seq_pos_min a s = (if al_seq_pos a s = {} then - 1 else Min (al_seq_pos a s))"

definition al_seq_pos_max :: "allocr \<Rightarrow> nat \<Rightarrow> int" where
  "al_seq_pos_max a s = (if al_seq_pos a s = {} then - 1 else Max (al_seq_pos a s))"

text \<open>The consistency checks.\<close>

definition al_check_pos :: "memory_bounds \<Rightarrow> allocr \<Rightarrow> nat \<Rightarrow> bool" where
  "al_check_pos mem a s \<longleftrightarrow>
     al_seq_pos a s = {} \<or>
     (let p0 = mem_pos_max mem s in
      if al_n_pos_per_embd a > 1 then
        (if lb_token (al_batch a) \<noteq> None
         then \<not> (p0 \<ge> 0 \<and> p0 \<ge> al_seq_pos_min a s)
         else \<not> (p0 \<ge> 0 \<and> p0 > al_seq_pos_min a s))
      else
        \<not> (p0 \<ge> 0 \<and> al_seq_pos_min a s \<noteq> p0 + 1) \<and>
        \<not> (al_seq_pos_max a s - al_seq_pos_min a s + 1 > int (card (al_seq_pos a s))))"

definition al_check_cpl :: "memory_bounds \<Rightarrow> allocr \<Rightarrow> bool" where
  "al_check_cpl mem a \<longleftrightarrow> mem = None \<or>
     list_all (\<lambda>s0. list_all (\<lambda>s1. al_seq_cpl a s0 s1 \<longrightarrow>
       mem_pos_min mem s0 = mem_pos_min mem s1 \<and> mem_pos_max mem s0 = mem_pos_max mem s1)
       [0..<al_n_seq_max a]) [0..<al_n_seq_max a]"

fun al_check_token :: "(nat \<Rightarrow> int) \<Rightarrow> int \<Rightarrow> nat set \<Rightarrow> nat list \<Rightarrow> (nat \<Rightarrow> nat set) \<Rightarrow> (nat \<Rightarrow> nat set) option" where
  "al_check_token cur_pos p S [] cur = Some cur"
| "al_check_token cur_pos p S (s # ss) cur =
     (if cur s \<inter> S = {} then None
      else if p < cur_pos s then None
      else al_check_token cur_pos p S ss (cur(s := cur s \<inter> S)))"

fun al_check_sets :: "allocr \<Rightarrow> nat list \<Rightarrow> (nat \<Rightarrow> nat set) \<Rightarrow> bool" where
  "al_check_sets a [] cur = True"
| "al_check_sets a (i # is) cur =
     (case al_check_token (\<lambda>_. - 1) (lb_pos_at (al_batch a) i) (al_seq_set a ! i)
             (lb_seqs (al_batch a) i) cur of
        None \<Rightarrow> False
      | Some cur' \<Rightarrow> al_check_sets a is cur')"

text \<open>\<^verbatim>\<open>init\<close>: \<open>Inr None\<close> is the result \<^verbatim>\<open>false\<close>, after which the state is only cleared.\<close>

definition al_fill :: "memory_bounds \<Rightarrow> bool \<Rightarrow> llama_batch \<Rightarrow> llama_batch" where
  "al_fill mem output_all b = al_fill_logits output_all (al_fill_pos mem (al_fill_seq b))"

definition al_init :: "nat \<Rightarrow> memory_bounds \<Rightarrow> nat \<Rightarrow> nat \<Rightarrow> bool \<Rightarrow> llama_batch \<Rightarrow> allocr \<Rightarrow> allocr option res" where
  "al_init n_vocab mem n_embd n_seq_max output_all b a =
     (if lb_n_tokens b = 0 then Inl Abort
      else if \<not> batch_shape (al_n_pos_per_embd a) n_embd b then Inl Undefined
      else if \<not> al_valid_input n_vocab n_seq_max b then Inr None
      else
        (let a1 = al_stats n_embd n_seq_max ((al_clear a)\<lparr>al_batch := al_fill mem output_all b\<rparr>) in
         if \<not> list_all (al_check_pos mem a1) [0..<n_seq_max] then Inr None
         else if \<not> al_check_cpl mem a1 then Inr None
         else if \<not> al_check_sets a1 [0..<lb_n_tokens b] (\<lambda>_. {..<LLAMA_MAX_SEQ}) then Inr None
         else Inr (Some (al_split_reset a1))))"

section \<open>Cutting a batch\<close>

definition ubatch_add :: "nat list \<Rightarrow> nat \<Rightarrow> bool \<Rightarrow> allocr \<Rightarrow> ubatch \<times> allocr" where
  "ubatch_add idxs n_seqs equal_seqs a =
     (let b = al_batch a; n_tokens = length idxs; n_pos = al_n_pos_per_embd a;
          out = map (\<lambda>i. the (lb_logits b) ! i) idxs;
          r = fold (al_unq_step (\<Union>i \<in> set idxs. set (lb_seqs b i))) [0..<al_n_seq_max a]
                ([], replicate LLAMA_MAX_SEQ (- 1))
      in (\<lparr>ub_equal_seqs = equal_seqs, ub_n_tokens = n_tokens, ub_n_seq_tokens = n_tokens div n_seqs,
           ub_n_seqs = n_seqs, ub_n_seqs_unq = length (fst r), ub_n_pos = n_pos,
           ub_token = (case lb_token b of None \<Rightarrow> None | Some t \<Rightarrow> Some (map (\<lambda>i. t ! i) idxs)),
           ub_embd = (case lb_embd b of None \<Rightarrow> None
              | Some e \<Rightarrow> Some (concat (map (\<lambda>i. take (al_n_embd a) (drop (i * al_n_embd a) e)) idxs))),
           ub_pos = concat (map (\<lambda>j. map (\<lambda>i. the (lb_pos b) !
              ((if lb_token b \<noteq> None then 0 else j * lb_n_tokens b) + i)) idxs) [0..<n_pos]),
           ub_n_seq_id = map (\<lambda>i. the (lb_n_seq_id b) ! i) idxs,
           ub_seq_id = map (lb_seqs b) idxs,
           ub_seq_id_unq = fst r, ub_seq_idx = snd r, ub_output = out\<rparr>,
          a\<lparr>al_out_ids := al_out_ids a @ filter (\<lambda>i. the (lb_logits b) ! i \<noteq> 0) idxs\<rparr>))"

definition first_unused :: "bool list \<Rightarrow> nat" where
  "first_unused used = length (takeWhile (\<lambda>u. u) used)"

function simple_loop :: "nat \<Rightarrow> nat \<Rightarrow> nat list \<Rightarrow> bool list \<Rightarrow> nat \<Rightarrow> nat list \<times> bool list \<times> nat" where
  "simple_loop n_ubatch cur_idx idxs used n_used =
     (let idxs' = idxs @ [cur_idx]; used' = used[cur_idx := True]; n_used' = n_used + 1;
          cur_idx' = cur_idx + 1
      in if cur_idx' \<ge> length used then (idxs', used', n_used')
         else if length idxs' \<ge> n_ubatch then (idxs', used', n_used')
         else simple_loop n_ubatch cur_idx' idxs' used' n_used')"
  by pat_completeness auto
termination by (relation "measure (\<lambda>(_, c, _, u, _). length u - c)") auto

declare simple_loop.simps [simp del]

definition simple_pick :: "nat \<Rightarrow> allocr \<Rightarrow> (nat list \<times> bool list \<times> nat) option" where
  "simple_pick n_ubatch a =
     (let cur_idx = first_unused (al_used a) in
      if cur_idx \<ge> length (al_used a) then None
      else Some (simple_loop n_ubatch cur_idx [] (al_used a) (al_n_used a)))"

definition split_simple :: "nat \<Rightarrow> allocr \<Rightarrow> ubatch \<times> allocr" where
  "split_simple n_ubatch a =
     (case simple_pick n_ubatch a of None \<Rightarrow> (ubatch_none, a)
      | Some (idxs, used, n_used) \<Rightarrow>
          ubatch_add idxs (length idxs) False (a\<lparr>al_used := used, al_n_used := n_used\<rparr>))"

text \<open>\<^verbatim>\<open>split_equal\<close>: first the non-overlapping sequence sets, then tokens of all of them in
  lockstep.\<close>

fun equal_sets :: "nat \<Rightarrow> bool \<Rightarrow> allocr \<Rightarrow> nat list \<Rightarrow> nat set list \<Rightarrow> int \<Rightarrow> nat set list" where
  "equal_sets n_ubatch sequential a [] cur last_seq = cur"
| "equal_sets n_ubatch sequential a (i # is) cur last_seq =
     (if al_used a ! i then equal_sets n_ubatch sequential a is cur last_seq
      else
        (let s0 = int (hd (lb_seqs (al_batch a) i));
             add = list_all (\<lambda>S. S \<inter> al_seq_set a ! i = {}) cur \<and>
               (sequential \<longrightarrow> cur = [] \<or> s0 = last_seq + 1)
         in if add then
              (let cur' = cur @ [al_seq_set a ! i] in
               if length cur' > n_ubatch then cur' else equal_sets n_ubatch sequential a is cur' s0)
            else equal_sets n_ubatch sequential a is cur last_seq))"

text \<open>One round: the next token of every set. The state is \<open>(cur_idx, idxs_per_seq, used, n_used)\<close>.\<close>

type_synonym equal_state = "nat list \<times> nat list list \<times> bool list \<times> nat"

definition equal_take :: "(nat set \<Rightarrow> nat list) \<Rightarrow> nat set list \<Rightarrow> nat \<Rightarrow> equal_state \<Rightarrow> equal_state" where
  "equal_take m sets s st =
     (case st of (cur_idx, per_seq, used, n_used) \<Rightarrow>
        (let idx = m (sets ! s) ! (cur_idx ! s)
         in (cur_idx[s := cur_idx ! s + 1], per_seq[s := per_seq ! s @ [idx]], used[idx := True], n_used + 1)))"

definition equal_round :: "(nat set \<Rightarrow> nat list) \<Rightarrow> nat set list \<Rightarrow> equal_state \<Rightarrow> equal_state" where
  "equal_round m sets st = fold (equal_take m sets) [0..<length sets] st"

definition can_expand :: "(nat set \<Rightarrow> nat list) \<Rightarrow> nat set list \<Rightarrow> nat list \<Rightarrow> bool" where
  "can_expand m sets cur_idx \<longleftrightarrow> list_all (\<lambda>s. cur_idx ! s < length (m (sets ! s))) [0..<length sets]"


lemma equal_fold_cur_idx:
  "fst (fold (equal_take m sets) [0..<n] st) =
     map (\<lambda>s. if s < n then fst st ! s + 1 else fst st ! s) [0..<length (fst st)]"
proof (induction n)
  case 0
  then show ?case by (simp add: map_nth)
next
  case (Suc n)
  have *: "fst (equal_take m sets n st') = (fst st')[n := fst st' ! n + 1]" for st'
    by (auto simp: equal_take_def Let_def split: prod.splits)
  show ?case by (auto simp: * Suc nth_list_update less_Suc_eq intro!: nth_equalityI)
qed

text \<open>The vectors of the state have one entry per sequence set and there is at least one; the
  first test only says so.\<close>

function equal_loop :: "nat \<Rightarrow> (nat set \<Rightarrow> nat list) \<Rightarrow> nat set list \<Rightarrow> equal_state \<Rightarrow> equal_state" where
  "equal_loop n_ubatch m sets st =
     (if sets = [] \<or> length (fst st) \<noteq> length sets then st
      else if \<not> can_expand m sets (fst st) then st
      else
        (let st' = equal_round m sets st in
         if (length (fst (snd st') ! 0) + 1) * length sets > n_ubatch then st'
         else equal_loop n_ubatch m sets st'))"
  by pat_completeness auto
termination
proof (relation "measure (\<lambda>(_, m, sets, st). length (m (sets ! 0)) - fst st ! 0)", goal_cases)
  case (2 n_ubatch m sets st st')
  then have "0 < length sets" by simp
  moreover have "fst st ! 0 < length (m (sets ! 0))"
    using 2 calculation by (auto simp: can_expand_def list_all_iff)
  ultimately show ?case
    using 2 by (simp add: equal_round_def equal_fold_cur_idx)
qed simp

declare equal_loop.simps [simp del]

definition equal_pick :: "nat \<Rightarrow> bool \<Rightarrow> allocr \<Rightarrow> (nat list \<times> bool list \<times> nat) option" where
  "equal_pick n_ubatch sequential a =
     (if sequential \<and> al_has_cpl a then None
      else
        (let sets = equal_sets n_ubatch sequential a [0..<lb_n_tokens (al_batch a)] [] (- 1);
             m = al_seq_set_map a
         in if sets = [] then None
            else
              (let cur_idx = map (\<lambda>S. length (takeWhile (\<lambda>i. al_used a ! i) (m S))) sets
               in case equal_loop n_ubatch m sets (cur_idx, replicate (length sets) [], al_used a, al_n_used a) of
                    (_, per_seq, used, n_used) \<Rightarrow> Some (concat per_seq, used, n_used))))"

definition equal_n_seqs :: "nat \<Rightarrow> bool \<Rightarrow> allocr \<Rightarrow> nat" where
  "equal_n_seqs n_ubatch sequential a =
     length (equal_sets n_ubatch sequential a [0..<lb_n_tokens (al_batch a)] [] (- 1))"

definition split_equal :: "nat \<Rightarrow> bool \<Rightarrow> allocr \<Rightarrow> ubatch \<times> allocr" where
  "split_equal n_ubatch sequential a =
     (case equal_pick n_ubatch sequential a of None \<Rightarrow> (ubatch_none, a)
      | Some (idxs, used, n_used) \<Rightarrow> ubatch_add idxs (equal_n_seqs n_ubatch sequential a) True
          (a\<lparr>al_used := used, al_n_used := n_used\<rparr>))"

text \<open>\<^verbatim>\<open>split_seq\<close>: tokens whose sequence set is contained in that of the token before.\<close>

definition seq_next :: "nat set list \<Rightarrow> bool list \<Rightarrow> nat set \<Rightarrow> nat \<Rightarrow> nat option" where
  "seq_next seq_set used cur_set cur_idx =
     find (\<lambda>i. \<not> (used ! i \<or> cur_set \<inter> seq_set ! i \<noteq> seq_set ! i)) [cur_idx + 1..<length used]"

lemma seq_next_Some:
  assumes "seq_next ss used S i = Some j"
  shows "i < j" "j < length used" "\<not> used ! j" "ss ! j \<subseteq> S"
  using assms by (auto simp: seq_next_def find_Some_iff)

lemma seq_next_decreases:
  "seq_next ss (used[k := b]) S i = Some j \<Longrightarrow> length used - j < length used - i"
  using seq_next_Some(1,2)[of ss "used[k := b]" S i j] by simp

function seq_loop :: "nat \<Rightarrow> nat set list \<Rightarrow> nat set \<Rightarrow> nat \<Rightarrow> nat list \<Rightarrow> bool list \<Rightarrow> nat \<Rightarrow>
    nat list \<times> bool list \<times> nat" where
  "seq_loop n_ubatch seq_set cur_set cur_idx idxs used n_used =
     (let idxs' = idxs @ [cur_idx]; used' = used[cur_idx := True]; n_used' = n_used + 1
      in if length idxs' \<ge> n_ubatch then (idxs', used', n_used')
         else case seq_next seq_set used' cur_set cur_idx of
           None \<Rightarrow> (idxs', used', n_used')
         | Some j \<Rightarrow> seq_loop n_ubatch seq_set (seq_set ! j) j idxs' used' n_used')"
  by pat_completeness auto
termination
  by (relation "measure (\<lambda>(_, _, _, c, _, u, _). length u - c)")
    (auto dest: seq_next_decreases)

declare seq_loop.simps [simp del]

definition seq_pick :: "nat \<Rightarrow> allocr \<Rightarrow> (nat list \<times> bool list \<times> nat) option" where
  "seq_pick n_ubatch a =
     (let cur_idx = first_unused (al_used a) in
      if cur_idx \<ge> length (al_used a) then None
      else Some (seq_loop n_ubatch (al_seq_set a) (al_seq_set a ! cur_idx) cur_idx [] (al_used a) (al_n_used a)))"

definition split_seq :: "nat \<Rightarrow> allocr \<Rightarrow> ubatch \<times> allocr" where
  "split_seq n_ubatch a =
     (case seq_pick n_ubatch a of None \<Rightarrow> (ubatch_none, a)
      | Some (idxs, used, n_used) \<Rightarrow> ubatch_add idxs 1 True (a\<lparr>al_used := used, al_n_used := n_used\<rparr>))"

text \<open>\<^verbatim>\<open>ubatch_reserve\<close>: the shape used to reserve a graph.\<close>

definition ubatch_reserve :: "nat \<Rightarrow> nat \<Rightarrow> allocr \<Rightarrow> (ubatch \<times> allocr) res" where
  "ubatch_reserve n_seq_tokens n_seqs a =
     (let n_tokens = n_seq_tokens * n_seqs; a' = al_split_reset (al_clear a) in
      if n_seqs > LLAMA_MAX_SEQ then Inl Undefined
      else Inr (\<lparr>ub_equal_seqs = True, ub_n_tokens = n_tokens, ub_n_seq_tokens = n_seq_tokens,
        ub_n_seqs = n_seqs, ub_n_seqs_unq = n_seqs, ub_n_pos = al_n_pos_per_embd a,
        ub_token = Some (replicate n_tokens 0), ub_embd = None, ub_pos = replicate n_tokens 0,
        ub_n_seq_id = replicate n_tokens 0, ub_seq_id = replicate n_tokens [],
        ub_seq_id_unq = [0..<n_seqs],
        ub_seq_idx = map int [0..<n_seqs] @ replicate (LLAMA_MAX_SEQ - n_seqs) (- 1),
        ub_output = replicate n_tokens 0\<rparr>, a'))"

text \<open>The loop of \<^verbatim>\<open>init_batch\<close>: split until an empty ubatch comes back.\<close>

partial_function (option) split_all ::
    "(allocr \<Rightarrow> ubatch \<times> allocr) \<Rightarrow> allocr \<Rightarrow> (ubatch list \<times> allocr) option" where
  "split_all split a =
     (case split a of (ub, a') \<Rightarrow>
        if ub_n_tokens ub = 0 then Some ([], a')
        else Option.bind (split_all split a') (\<lambda>r. Some (ub # fst r, snd r)))"

section \<open>What a split promises\<close>

text \<open>A token as the model sees it: id, position, sequences, and whether its output is wanted.\<close>

type_synonym row = "int option \<times> int \<times> nat list \<times> int"

definition batch_row :: "llama_batch \<Rightarrow> nat \<Rightarrow> row" where
  "batch_row b i = (map_option (\<lambda>t. t ! i) (lb_token b), lb_pos_at b i, lb_seqs b i, the (lb_logits b) ! i)"

definition ub_rows :: "ubatch \<Rightarrow> row list" where
  "ub_rows u = map (\<lambda>i. (map_option (\<lambda>t. t ! i) (ub_token u), ub_pos u ! i, ub_seq_id u ! i, ub_output u ! i))
     [0..<ub_n_tokens u]"

definition unused :: "allocr \<Rightarrow> nat set" where
  "unused a = {i. i < length (al_used a) \<and> \<not> al_used a ! i}"

lemma finite_unused [simp]: "finite (unused a)"
  by (simp add: unused_def)

lemma ubatch_add_simps [simp]:
  "ub_n_tokens (fst (ubatch_add idxs k e a)) = length idxs"
  "ub_n_seqs (fst (ubatch_add idxs k e a)) = k"
  "ub_n_seq_tokens (fst (ubatch_add idxs k e a)) = length idxs div k"
  "snd (ubatch_add idxs k e a) = a\<lparr>al_out_ids := al_out_ids a @
     filter (\<lambda>i. the (lb_logits (al_batch a)) ! i \<noteq> 0) idxs\<rparr>"
  by (simp_all add: ubatch_add_def Let_def)

lemma ub_rows_add:
  assumes "0 < al_n_pos_per_embd a"
  shows "ub_rows (fst (ubatch_add idxs k e a)) = map (batch_row (al_batch a)) idxs"
proof -
  have "[0..<al_n_pos_per_embd a] = 0 # [1..<al_n_pos_per_embd a]"
    using assms by (simp add: upt_conv_Cons)
  then show ?thesis
    by (auto simp: ub_rows_def ubatch_add_def Let_def batch_row_def lb_pos_at_def nth_append
        intro!: nth_equalityI split: option.splits)
qed

text \<open>A ubatch cut from the batch: made of unused tokens of it.\<close>

definition piece_of :: "allocr \<Rightarrow> ubatch \<Rightarrow> bool" where
  "piece_of a u \<longleftrightarrow> (\<exists>idxs k e a1. u = fst (ubatch_add idxs k e a1) \<and> idxs \<noteq> [] \<and> set idxs \<subseteq> unused a \<and>
     al_batch a1 = al_batch a \<and> al_n_seq_max a1 = al_n_seq_max a \<and>
     al_n_pos_per_embd a1 = al_n_pos_per_embd a)"

lemma piece_of_mono:
  assumes "piece_of a1 u" "unused a1 \<subseteq> unused a" "al_batch a1 = al_batch a"
    "al_n_seq_max a1 = al_n_seq_max a" "al_n_pos_per_embd a1 = al_n_pos_per_embd a"
  shows "piece_of a u"
  using assms(1) unfolding piece_of_def assms(3-5) using assms(2) by blast

locale splitter =
  fixes ok :: "allocr \<Rightarrow> bool"
    and pick :: "allocr \<Rightarrow> (nat list \<times> bool list \<times> nat) option"
    and n_seqs :: "allocr \<Rightarrow> nat" and equal :: bool and bound :: nat
    and split :: "allocr \<Rightarrow> ubatch \<times> allocr"
  assumes split_None: "ok a \<Longrightarrow> pick a = None \<Longrightarrow> split a = (ubatch_none, a)"
    and split_Some: "ok a \<Longrightarrow> pick a = Some (idxs, u, k) \<Longrightarrow>
      split a = ubatch_add idxs (n_seqs a) equal (a\<lparr>al_used := u, al_n_used := k\<rparr>)"
    and pick_None: "ok a \<Longrightarrow> pick a = None \<Longrightarrow> unused a = {}"
    and pick_fresh: "ok a \<Longrightarrow> pick a = Some (idxs, u, k) \<Longrightarrow>
      idxs \<noteq> [] \<and> distinct idxs \<and> set idxs \<subseteq> unused a"
    and pick_marks: "ok a \<Longrightarrow> pick a = Some (idxs, u, k) \<Longrightarrow> length u = length (al_used a) \<and>
      (\<forall>i < length u. u ! i = (al_used a ! i \<or> i \<in> set idxs)) \<and> k = al_n_used a + length idxs"
    and ok_next: "ok a \<Longrightarrow> pick a = Some (idxs, u, k) \<Longrightarrow>
      ok (a\<lparr>al_used := u, al_n_used := k, al_out_ids := out\<rparr>)"
    and pick_bound: "ok a \<Longrightarrow> pick a = Some (idxs, u, k) \<Longrightarrow> length idxs \<le> bound"
    and ok_pos: "ok a \<Longrightarrow> 0 < al_n_pos_per_embd a"
begin

lemma unused_next:
  assumes "ok a" "pick a = Some (idxs, u, k)"
  shows "unused (a\<lparr>al_used := u, al_n_used := k, al_out_ids := out\<rparr>) = unused a - set idxs"
  using pick_marks[OF assms] by (auto simp: unused_def)

lemma split_all_complete:
  assumes "ok a"
  shows "\<exists>us a'. split_all split a = Some (us, a') \<and> unused a' = {} \<and> al_batch a' = al_batch a \<and>
    al_n_used a' = al_n_used a + card (unused a) \<and>
    mset (concat (map ub_rows us)) = image_mset (batch_row (al_batch a)) (mset_set (unused a)) \<and>
    mset (al_out_ids a') = mset (al_out_ids a) +
      filter_mset (\<lambda>i. the (lb_logits (al_batch a)) ! i \<noteq> 0) (mset_set (unused a)) \<and>
    (\<forall>u \<in> set us. 0 < ub_n_tokens u \<and> ub_n_tokens u \<le> bound) \<and> (\<forall>u \<in> set us. piece_of a u)"
  using assms
proof (induction "card (unused a)" arbitrary: a rule: less_induct)
  case less
  show ?case
  proof (cases "pick a")
    case None
    then show ?thesis
      using pick_None[OF less.prems None] split_None[OF less.prems None]
      by (subst split_all.simps) (simp add: ubatch_none_def)
  next
    case (Some r)
    obtain idxs u k where r: "pick a = Some (idxs, u, k)" using Some by (cases r) auto
    note F = pick_fresh[OF less.prems r] and S = split_Some[OF less.prems r]
    let ?P = "\<lambda>i. the (lb_logits (al_batch a)) ! i \<noteq> 0"
    define a1 where "a1 = a\<lparr>al_used := u, al_n_used := k, al_out_ids := al_out_ids a @ filter ?P idxs\<rparr>"
    have s: "snd (split a) = a1" "ub_n_tokens (fst (split a)) \<noteq> 0"
      "ub_rows (fst (split a)) = map (batch_row (al_batch a)) idxs"
      and b: "ub_n_tokens (fst (split a)) \<le> bound"
      using F ok_pos[OF less.prems] pick_bound[OF less.prems r] by (simp_all add: S a1_def ub_rows_add)
    have un: "unused a1 = unused a - set idxs" unfolding a1_def by (rule unused_next[OF less.prems r])
    have "card (set idxs) = length idxs" using F by (simp add: distinct_card)
    then have cd: "card (unused a) = length idxs + card (unused a1)"
      unfolding un using F card_Un_disjoint[of "set idxs" "unused a - set idxs"]
      by (simp add: Un_absorb1)
    have ms: "mset_set (unused a) = mset idxs + mset_set (unused a1)"
      unfolding un using F mset_set_Union[of "set idxs" "unused a - set idxs"]
      by (simp add: Un_absorb1 mset_set_set)
    have "card (unused a1) < card (unused a)" using cd F by (cases idxs) auto
    moreover have "ok a1" unfolding a1_def by (rule ok_next[OF less.prems r])
    ultimately obtain us a' where IH: "split_all split a1 = Some (us, a')" "unused a' = {}"
      "al_batch a' = al_batch a1" "al_n_used a' = al_n_used a1 + card (unused a1)"
      "mset (concat (map ub_rows us)) = image_mset (batch_row (al_batch a1)) (mset_set (unused a1))"
      "mset (al_out_ids a') = mset (al_out_ids a1) +
        filter_mset (\<lambda>i. the (lb_logits (al_batch a1)) ! i \<noteq> 0) (mset_set (unused a1))"
      "\<forall>u \<in> set us. 0 < ub_n_tokens u \<and> ub_n_tokens u \<le> bound" "\<forall>u \<in> set us. piece_of a1 u"
      using less.hyps[of a1] by blast
    have "split_all split a = Some (fst (split a) # us, a')"
      using s IH(1) by (subst split_all.simps) (simp add: case_prod_beta)
    moreover have "al_n_used a' = al_n_used a + card (unused a)"
      using IH(4) cd pick_marks[OF less.prems r] by (simp add: a1_def)
    moreover have "piece_of a u" if "piece_of a1 u" for u
      by (rule piece_of_mono[OF that]) (use un in \<open>auto simp: a1_def\<close>)
    moreover have "piece_of a (fst (split a))"
      unfolding piece_of_def S using F
      by (intro exI[of _ idxs] exI[of _ "n_seqs a"] exI[of _ equal] exI[of _ "a\<lparr>al_used := u, al_n_used := k\<rparr>"]) simp
    ultimately show ?thesis
      using IH(2,3,5,6,7,8) s(2,3) b ms by (auto simp: a1_def)
  qed
qed

end

section \<open>The three splits are splitters\<close>

text \<open>\<open>marks u0 idxs u\<close>: \<open>u\<close> is \<open>u0\<close> with the fresh indices \<open>idxs\<close> marked.\<close>

definition marks :: "bool list \<Rightarrow> nat list \<Rightarrow> bool list \<Rightarrow> bool" where
  "marks u0 idxs u \<longleftrightarrow> distinct idxs \<and> set idxs \<subseteq> {i. i < length u0 \<and> \<not> u0 ! i} \<and> length u = length u0 \<and>
     (\<forall>i < length u0. u ! i = (u0 ! i \<or> i \<in> set idxs))"

lemma marks_Nil [simp]: "marks u [] u"
  by (simp add: marks_def)

lemma marks_snoc: "marks u0 idxs u \<Longrightarrow> i < length u \<Longrightarrow> \<not> u ! i \<Longrightarrow> marks u0 (idxs @ [i]) (u[i := True])"
  by (auto simp: marks_def nth_list_update)

lemma first_unused_props:
  assumes "first_unused u < length u"
  shows "\<not> u ! first_unused u" "\<And>j. j < first_unused u \<Longrightarrow> u ! j"
  using assms nth_length_takeWhile[of "\<lambda>x. x" u] takeWhile_nth[of _ "\<lambda>x. x" u]
    set_takeWhileD[of _ "\<lambda>x. x" u] nth_mem[of _ "takeWhile (\<lambda>x. x) u"]
  by (auto simp: first_unused_def)

lemma first_unused_none:
  assumes "first_unused u \<ge> length u" "i < length u"
  shows "u ! i"
proof -
  have "takeWhile (\<lambda>x. x) u = u"
    using assms(1) length_takeWhile_le[of "\<lambda>x. x" u] unfolding first_unused_def
    by (metis le_antisym takeWhile_eq_take take_all)
  then show ?thesis using assms(2) by (metis takeWhile_eq_all_conv nth_mem)
qed

definition used_prefix :: "bool list \<Rightarrow> bool" where
  "used_prefix u \<longleftrightarrow> (\<forall>i j. i < j \<longrightarrow> j < length u \<longrightarrow> u ! j \<longrightarrow> u ! i)"

lemma simple_loop_correct:
  assumes "marks u0 idxs u" "c < length u" "\<And>j. j < length u \<Longrightarrow> u ! j = (j < c)"
  shows "\<exists>c'. c < c' \<and> c' \<le> length u \<and> (case simple_loop n_ubatch c idxs u k of (idxs', u', k') \<Rightarrow>
    marks u0 idxs' u' \<and> idxs' = idxs @ [c..<c'] \<and> k' = k + (c' - c) \<and>
    length idxs' \<le> max (Suc (length idxs)) n_ubatch \<and> (\<forall>j < length u. u' ! j = (j < c')))"
  using assms
proof (induction n_ubatch c idxs u k rule: simple_loop.induct)
  case (1 n_ubatch c idxs u k)
  have m: "marks u0 (idxs @ [c]) (u[c := True])" using 1(2-4) by (intro marks_snoc) auto
  have nx: "u[c := True] ! j = (j < Suc c)" if "j < length u" for j
    using 1(3,4) that by (auto simp: nth_list_update)
  show ?case
  proof (cases "Suc c \<ge> length u \<or> Suc (length idxs) \<ge> n_ubatch")
    case True
    then show ?thesis
      using m nx 1(3) by (subst simple_loop.simps) (auto simp: Let_def intro!: exI[of _ "Suc c"])
  next
    case False
    then obtain c' where c': "Suc c < c'" "c' \<le> length u"
      "case simple_loop n_ubatch (Suc c) (idxs @ [c]) (u[c := True]) (k + 1) of (idxs', u', k') \<Rightarrow>
        marks u0 idxs' u' \<and> idxs' = (idxs @ [c]) @ [Suc c..<c'] \<and> k' = (k + 1) + (c' - Suc c) \<and>
        length idxs' \<le> max (Suc (length (idxs @ [c]))) n_ubatch \<and> (\<forall>j < length u. u' ! j = (j < c'))"
      using 1(1)[OF refl refl refl refl] m nx by auto
    have "[c..<c'] = c # [Suc c..<c']" using c'(1) by (simp add: upt_conv_Cons)
    then show ?thesis
      using False c' by (subst simple_loop.simps) (auto simp: Let_def intro!: exI[of _ c'])
  qed
qed

definition simple_ok :: "allocr \<Rightarrow> bool" where
  "simple_ok a \<longleftrightarrow> 0 < al_n_pos_per_embd a \<and> used_prefix (al_used a)"

lemma simple_pick_correct:
  assumes "simple_ok a" "simple_pick n_ubatch a = Some (idxs, u, k)"
  shows "\<exists>c'. first_unused (al_used a) < c' \<and> c' \<le> length (al_used a) \<and> marks (al_used a) idxs u \<and>
    idxs = [first_unused (al_used a)..<c'] \<and> k = al_n_used a + length idxs \<and>
    length idxs \<le> max 1 n_ubatch \<and> (\<forall>j < length u. u ! j = (j < c'))"
proof -
  let ?c = "first_unused (al_used a)"
  have c: "?c < length (al_used a)" using assms(2) by (auto simp: simple_pick_def Let_def split: if_splits)
  have "al_used a ! j = (j < ?c)" if "j < length (al_used a)" for j
    using first_unused_props[OF c] assms(1) that
    by (cases j ?c rule: linorder_cases) (auto simp: simple_ok_def used_prefix_def)
  from simple_loop_correct[OF marks_Nil c this, where n_ubatch = n_ubatch and k = "al_n_used a"] show ?thesis
    using assms(2) c by (auto simp: simple_pick_def Let_def marks_def)
qed

interpretation simple: splitter simple_ok "simple_pick n_ubatch"
  "\<lambda>a. length (fst (the (simple_pick n_ubatch a)))" False "max 1 n_ubatch" "split_simple n_ubatch" for n_ubatch
proof (unfold_locales, goal_cases)
  case (3 a)
  then show ?case
    using first_unused_none by (auto simp: simple_pick_def unused_def Let_def split: if_splits)
next
  case (4 a idxs u k)
  then show ?case using simple_pick_correct[OF 4] by (auto simp: marks_def unused_def)
next
  case (5 a idxs u k)
  then show ?case using simple_pick_correct[OF 5] by (auto simp: marks_def)
next
  case (6 a idxs u k out)
  then show ?case using simple_pick_correct[OF 6] by (auto simp: simple_ok_def used_prefix_def)
next
  case (7 a idxs u k)
  then show ?case using simple_pick_correct[OF 7] by auto
qed (auto simp: split_simple_def simple_ok_def)

text \<open>\<^verbatim>\<open>split_simple\<close> keeps the order of the batch.\<close>

lemma first_unused_eq:
  assumes "\<forall>j < length u. u ! j = (j < c)" "c \<le> length u"
  shows "first_unused u = c"
proof -
  have "takeWhile (\<lambda>x. x) u = take c u"
    using assms by (intro takeWhile_eq_take_P_nth) auto
  then show ?thesis using assms(2) by (simp add: first_unused_def)
qed

lemma split_all_simple_order:
  assumes "simple_ok a"
  shows "\<exists>us a'. split_all (split_simple n_ubatch) a = Some (us, a') \<and>
    concat (map ub_rows us) = map (batch_row (al_batch a)) [first_unused (al_used a)..<length (al_used a)] \<and>
    al_n_pos_per_embd a' = al_n_pos_per_embd a \<and>
    al_out_ids a' = al_out_ids a @
      filter (\<lambda>i. the (lb_logits (al_batch a)) ! i \<noteq> 0) [first_unused (al_used a)..<length (al_used a)]"
  using assms
proof (induction "length (al_used a) - first_unused (al_used a)" arbitrary: a rule: less_induct)
  case less
  show ?case
  proof (cases "simple_pick n_ubatch a")
    case None
    then have "length (al_used a) \<le> first_unused (al_used a)" by (auto simp: simple_pick_def Let_def split: if_splits)
    then show ?thesis
      using None by (subst split_all.simps) (simp add: split_simple_def ubatch_none_def)
  next
    case (Some r)
    obtain idxs u k where r: "simple_pick n_ubatch a = Some (idxs, u, k)" using Some by (cases r) auto
    let ?P = "\<lambda>i. the (lb_logits (al_batch a)) ! i \<noteq> 0" and ?c = "first_unused (al_used a)"
    obtain c' where c': "?c < c'" "c' \<le> length (al_used a)" "idxs = [?c..<c']" "length u = length (al_used a)"
      "\<forall>j < length u. u ! j = (j < c')"
      using simple_pick_correct[OF less.prems r] by (auto simp: marks_def)
    define a1 where "a1 = a\<lparr>al_used := u, al_n_used := k, al_out_ids := al_out_ids a @ filter ?P idxs\<rparr>"
    have f: "first_unused u = c'" using first_unused_eq[OF c'(5)] c'(2,4) by simp
    have ok1: "simple_ok a1" unfolding a1_def by (rule simple.ok_next[OF less.prems r])
    have "length (al_used a1) - first_unused (al_used a1) < length (al_used a) - ?c" using c'(1,2,4) f by (simp add: a1_def)
    from less.hyps[OF this ok1] obtain us a' where IH: "split_all (split_simple n_ubatch) a1 = Some (us, a')"
      "concat (map ub_rows us) = map (batch_row (al_batch a)) [c'..<length (al_used a)]"
      "al_n_pos_per_embd a' = al_n_pos_per_embd a"
      "al_out_ids a' = al_out_ids a @ filter ?P idxs @ filter ?P [c'..<length (al_used a)]"
      using f c'(4) by (auto simp: a1_def)
    have s: "snd (split_simple n_ubatch a) = a1" "ub_n_tokens (fst (split_simple n_ubatch a)) \<noteq> 0"
      "ub_rows (fst (split_simple n_ubatch a)) = map (batch_row (al_batch a)) idxs"
      using r c'(1,3) less.prems by (simp_all add: split_simple_def a1_def ub_rows_add simple_ok_def)
    have "[?c..<length (al_used a)] = idxs @ [c'..<length (al_used a)]"
      using c'(1-3) upt_add_eq_append[of ?c c' "length (al_used a) - c'"] by simp
    then show ?thesis
      using s IH by (subst split_all.simps) (simp add: case_prod_beta)
  qed
qed

lemma seq_loop_correct:
  assumes "marks u0 idxs u" "c < length u" "\<not> u ! c"
  shows "case seq_loop n_ubatch ss S c idxs u k of (idxs', u', k') \<Rightarrow>
    marks u0 idxs' u' \<and> idxs' \<noteq> [] \<and> k' + length idxs = k + length idxs' \<and>
    length idxs' \<le> max (Suc (length idxs)) n_ubatch \<and>
    (\<forall>i \<in> set idxs'. i \<in> set idxs \<or> i = c \<or> ss ! i \<subseteq> S)"
  using assms
proof (induction n_ubatch ss S c idxs u k rule: seq_loop.induct)
  case (1 n_ubatch ss S c idxs u k)
  have m: "marks u0 (idxs @ [c]) (u[c := True])" using 1(2-4) by (intro marks_snoc)
  show ?case
  proof (cases "Suc (length idxs) \<ge> n_ubatch \<or> seq_next ss (u[c := True]) S c = None")
    case True
    then show ?thesis
      using m by (subst seq_loop.simps) (auto simp: Let_def)
  next
    case False
    then obtain j where j: "seq_next ss (u[c := True]) S c = Some j" by auto
    note J = seq_next_Some[OF j]
    have "case seq_loop n_ubatch ss (ss ! j) j (idxs @ [c]) (u[c := True]) (k + 1) of (idxs', u', k') \<Rightarrow>
      marks u0 idxs' u' \<and> idxs' \<noteq> [] \<and> k' + length (idxs @ [c]) = (k + 1) + length idxs' \<and>
      length idxs' \<le> max (Suc (length (idxs @ [c]))) n_ubatch \<and>
      (\<forall>i \<in> set idxs'. i \<in> set (idxs @ [c]) \<or> i = j \<or> ss ! i \<subseteq> ss ! j)"
      using 1(1)[OF refl refl refl _ j m] False J by auto
    then show ?thesis
      using False j J(4) by (subst seq_loop.simps) (auto simp: Let_def max_def split: prod.splits if_splits)
  qed
qed

definition seq_ok :: "allocr \<Rightarrow> bool" where
  "seq_ok a \<longleftrightarrow> 0 < al_n_pos_per_embd a"

lemma seq_pick_correct:
  assumes "seq_pick n_ubatch a = Some (idxs, u, k)"
  shows "marks (al_used a) idxs u \<and> idxs \<noteq> [] \<and> k = al_n_used a + length idxs \<and> length idxs \<le> max 1 n_ubatch"
proof -
  have c: "first_unused (al_used a) < length (al_used a)"
    using assms by (auto simp: seq_pick_def Let_def split: if_splits)
  from seq_loop_correct[OF marks_Nil c first_unused_props(1)[OF c], where n_ubatch = n_ubatch and
      ss = "al_seq_set a" and S = "al_seq_set a ! first_unused (al_used a)" and k = "al_n_used a"]
  show ?thesis using assms c by (auto simp: seq_pick_def Let_def)
qed

interpretation seqs: splitter seq_ok "seq_pick n_ubatch" "\<lambda>_. 1" True "max 1 n_ubatch" "split_seq n_ubatch" for n_ubatch
proof (unfold_locales, goal_cases)
  case (3 a)
  then show ?case
    using first_unused_none by (auto simp: seq_pick_def unused_def Let_def split: if_splits)
next
  case (4 a idxs u k)
  then show ?case using seq_pick_correct[OF 4(2)] by (auto simp: marks_def unused_def)
next
  case (5 a idxs u k)
  then show ?case using seq_pick_correct[OF 5(2)] by (auto simp: marks_def)
next
  case (7 a idxs u k)
  then show ?case using seq_pick_correct[OF 7(2)] by simp
qed (auto simp: split_seq_def seq_ok_def)

subsection \<open>\<^verbatim>\<open>split_equal\<close>\<close>

lemma equal_sets_correct:
  assumes "\<And>i. i \<in> set is \<Longrightarrow> i < n \<and> al_seq_set a ! i \<noteq> {}" "distinct cur" "length cur \<le> n_ubatch"
    "\<forall>S \<in> set cur. \<exists>i < n. \<not> al_used a ! i \<and> al_seq_set a ! i = S"
  shows "let R = equal_sets n_ubatch sequential a is cur l in
    distinct R \<and> (\<forall>S \<in> set R. \<exists>i < n. \<not> al_used a ! i \<and> al_seq_set a ! i = S) \<and>
    length R \<le> Suc n_ubatch \<and> (cur \<noteq> [] \<longrightarrow> R \<noteq> []) \<and>
    ((\<exists>i \<in> set is. \<not> al_used a ! i) \<longrightarrow> R \<noteq> [])"
  using assms
proof (induction n_ubatch sequential a "is" cur l rule: equal_sets.induct)
  case (1 n_ubatch sequential a cur l)
  then show ?case by (simp add: Let_def)
next
  case (2 n_ubatch sequential a i "is" cur l)
  let ?S = "al_seq_set a ! i" and ?s0 = "int (hd (lb_seqs (al_batch a) i))"
  let ?add = "list_all (\<lambda>S. S \<inter> ?S = {}) cur \<and> (sequential \<longrightarrow> cur = [] \<or> ?s0 = l + 1)"
  have pre: "i < n" "?S \<noteq> {}" "\<And>j. j \<in> set is \<Longrightarrow> j < n \<and> al_seq_set a ! j \<noteq> {}"
    using 2(4) by auto
  consider (used) "al_used a ! i" | (skip) "\<not> al_used a ! i" "\<not> ?add" | (add) "\<not> al_used a ! i" "?add" by blast
  then show ?case
  proof cases
    case used
    then show ?thesis using 2(1)[OF used pre(3) 2(5-7)] by (auto simp: Let_def)
  next
    case skip
    then show ?thesis using 2(3)[OF skip(1) refl refl skip(2) pre(3) 2(5-7)] skip by (auto simp: Let_def)
  next
    case add
    have d: "distinct (cur @ [?S])" using 2(5) add(2) pre(2) by (auto simp: list_all_iff)
    have ex: "\<forall>S \<in> set (cur @ [?S]). \<exists>i < n. \<not> al_used a ! i \<and> al_seq_set a ! i = S"
      using 2(7) add(1) pre(1) by auto
    show ?thesis
    proof (cases "length (cur @ [?S]) > n_ubatch")
      case True
      then show ?thesis using d ex add 2(6) by (simp add: Let_def)
    next
      case False
      then show ?thesis using 2(2)[OF add(1) refl refl add(2) refl False pre(3) d _ ex] add by (simp add: Let_def)
    qed
  qed
qed

lemma list_update_map_upt: "(map f [0..<n])[k := x] = map (\<lambda>i. if i = k then x else f i) [0..<n]"
  by (auto simp: nth_list_update intro!: nth_equalityI)

text \<open>The state after \<open>R s\<close> tokens of every set \<open>s\<close>, in closed form.\<close>

definition eq_part :: "(nat set \<Rightarrow> nat list) \<Rightarrow> nat set list \<Rightarrow> nat list \<Rightarrow> (nat \<Rightarrow> nat) \<Rightarrow> nat \<Rightarrow> nat list" where
  "eq_part m sets c0 R s = take (R s) (drop (c0 ! s) (m (sets ! s)))"

definition eq_state :: "(nat set \<Rightarrow> nat list) \<Rightarrow> nat set list \<Rightarrow> nat list \<Rightarrow> bool list \<Rightarrow> nat \<Rightarrow>
    (nat \<Rightarrow> nat) \<Rightarrow> equal_state" where
  "eq_state m sets c0 u0 k0 R =
     (map (\<lambda>s. c0 ! s + R s) [0..<length sets], map (eq_part m sets c0 R) [0..<length sets],
      map (\<lambda>i. u0 ! i \<or> (\<exists>s < length sets. i \<in> set (eq_part m sets c0 R s))) [0..<length u0],
      k0 + (\<Sum>s < length sets. R s))"

lemma eq_part_upd: "eq_part m sets c0 (R(s := r)) t = (if t = s then eq_part m sets c0 (\<lambda>_. r) s else eq_part m sets c0 R t)"
  by (simp add: eq_part_def)

lemma eq_part_Suc:
  "c0 ! s + R s < length (m (sets ! s)) \<Longrightarrow>
   eq_part m sets c0 (\<lambda>_. Suc (R s)) s = eq_part m sets c0 R s @ [m (sets ! s) ! (c0 ! s + R s)]"
  by (simp add: eq_part_def take_Suc_conv_app_nth)

lemma equal_take_state:
  assumes "s < length sets" "c0 ! s + R s < length (m (sets ! s))"
  shows "equal_take m sets s (eq_state m sets c0 u0 k0 R) = eq_state m sets c0 u0 k0 (R(s := Suc (R s)))"
proof -
  have "(\<Sum>t < length sets. (R(s := Suc (R s))) t) = Suc (\<Sum>t < length sets. R t)"
    using assms(1) by (simp add: sum.remove[of "{..<length sets}" s])
  moreover have "(\<exists>t < length sets. i \<in> set (eq_part m sets c0 (R(s := Suc (R s))) t)) \<longleftrightarrow>
      i = m (sets ! s) ! (c0 ! s + R s) \<or> (\<exists>t < length sets. i \<in> set (eq_part m sets c0 R t))" for i
    using assms by (auto simp: eq_part_upd eq_part_Suc split: if_splits)
  ultimately show ?thesis
    using assms unfolding equal_take_def eq_state_def Let_def
    by (auto simp: eq_part_upd eq_part_Suc list_update_map_upt simp del: fun_upd_apply) simp_all
qed

lemma eq_state_cong: "(\<And>s. s < length sets \<Longrightarrow> R s = R' s) \<Longrightarrow> eq_state m sets c0 u0 k0 R = eq_state m sets c0 u0 k0 R'"
  unfolding eq_state_def eq_part_def by (auto intro!: sum.cong)

lemma equal_round_state:
  assumes "\<And>s. s < length sets \<Longrightarrow> c0 ! s + r < length (m (sets ! s))"
  shows "equal_round m sets (eq_state m sets c0 u0 k0 (\<lambda>_. r)) = eq_state m sets c0 u0 k0 (\<lambda>_. Suc r)"
proof -
  have "fold (equal_take m sets) [0..<length sets] (eq_state m sets c0 u0 k0 (\<lambda>_. r)) =
      eq_state m sets c0 u0 k0 (\<lambda>s. if s < length sets then Suc r else r)"
  proof (rule fold_upt_invariant[where P = "\<lambda>n st. st = eq_state m sets c0 u0 k0 (\<lambda>s. if s < n then Suc r else r)"])
    fix i st assume i: "i < length sets" and st: "st = eq_state m sets c0 u0 k0 (\<lambda>s. if s < i then Suc r else r)"
    then show "equal_take m sets i st = eq_state m sets c0 u0 k0 (\<lambda>s. if s < Suc i then Suc r else r)"
      using equal_take_state[OF i, of c0 "\<lambda>s. if s < i then Suc r else r" m] assms[OF i]
      by (auto intro!: eq_state_cong)
  qed simp
  then show ?thesis by (auto simp: equal_round_def intro: eq_state_cong)
qed

lemma equal_loop_state:
  assumes "sets \<noteq> []" "\<And>s. s < length sets \<Longrightarrow> c0 ! s + r \<le> length (m (sets ! s))"
  shows "\<exists>r'. equal_loop n_ubatch m sets (eq_state m sets c0 u0 k0 (\<lambda>_. r)) = eq_state m sets c0 u0 k0 (\<lambda>_. r') \<and>
    r \<le> r' \<and> (\<forall>s < length sets. c0 ! s + r' \<le> length (m (sets ! s))) \<and>
    ((\<forall>s < length sets. c0 ! s + r < length (m (sets ! s))) \<longrightarrow> r < r') \<and>
    r' * length sets \<le> max (Suc r * length sets) n_ubatch"
  using assms(2)
proof (induction "length (m (sets ! 0)) - (c0 ! 0 + r)" arbitrary: r rule: less_induct)
  case less
  let ?st = "eq_state m sets c0 u0 k0"
  have len: "length (fst (?st R)) = length sets" for R by (simp add: eq_state_def)
  have ce: "can_expand m sets (fst (?st (\<lambda>_. r))) \<longleftrightarrow> (\<forall>s < length sets. c0 ! s + r < length (m (sets ! s)))" for r
    by (auto simp: can_expand_def eq_state_def list_all_iff)
  show ?case
  proof (cases "\<forall>s < length sets. c0 ! s + r < length (m (sets ! s))")
    case False
    then show ?thesis
      using assms(1) less.prems len ce by (subst equal_loop.simps) (auto intro!: exI[of _ r])
  next
    case True
    have rd: "equal_round m sets (?st (\<lambda>_. r)) = ?st (\<lambda>_. Suc r)" by (rule equal_round_state) (use True in auto)
    have p0: "length (fst (snd (?st (\<lambda>_. Suc r))) ! 0) = Suc r"
      using assms(1) True[rule_format, of 0] by (auto simp: eq_state_def eq_part_def min_def)
    have lp: "equal_loop n_ubatch m sets (?st (\<lambda>_. r)) =
        (if (Suc r + 1) * length sets > n_ubatch then ?st (\<lambda>_. Suc r)
         else equal_loop n_ubatch m sets (?st (\<lambda>_. Suc r)))"
      using assms(1) True len ce rd p0 by (subst equal_loop.simps) (simp add: Let_def)
    show ?thesis
    proof (cases "(Suc r + 1) * length sets > n_ubatch")
      case T: True
      then show ?thesis using lp True by (auto intro!: exI[of _ "Suc r"])
    next
      case F: False
      have "length (m (sets ! 0)) - (c0 ! 0 + Suc r) < length (m (sets ! 0)) - (c0 ! 0 + r)"
        using True assms(1) by (auto intro!: diff_less_mono2)
      then obtain r' where "equal_loop n_ubatch m sets (?st (\<lambda>_. Suc r)) = ?st (\<lambda>_. r')" "Suc r \<le> r'"
        "\<forall>s < length sets. c0 ! s + r' \<le> length (m (sets ! s))"
        "r' * length sets \<le> max (Suc (Suc r) * length sets) n_ubatch"
        using less.hyps[of "Suc r"] True by (auto simp: Suc_le_eq)
      then show ?thesis using lp F by (intro exI[of _ r']) auto
    qed
  qed
qed


definition equal_ok :: "bool \<Rightarrow> allocr \<Rightarrow> bool" where
  "equal_ok sequential a \<longleftrightarrow> 0 < al_n_pos_per_embd a \<and> \<not> (sequential \<and> al_has_cpl a) \<and>
     length (al_used a) = lb_n_tokens (al_batch a) \<and>
     (\<forall>i < lb_n_tokens (al_batch a). al_seq_set a ! i \<noteq> {}) \<and>
     (\<forall>S. al_seq_set_map a S = filter (\<lambda>i. al_seq_set a ! i = S) [0..<lb_n_tokens (al_batch a)]) \<and>
     (\<forall>S. used_prefix (map (\<lambda>i. al_used a ! i) (al_seq_set_map a S)))"

lemma used_prefix_takeWhile:
  assumes "used_prefix (map f xs)" "j < length xs"
  shows "f (xs ! j) \<longleftrightarrow> j < length (takeWhile f xs)"
proof
  show "f (xs ! j)" if "j < length (takeWhile f xs)"
    using that by (metis nth_mem set_takeWhileD takeWhile_nth)
  show "j < length (takeWhile f xs)" if "f (xs ! j)"
  proof (rule ccontr)
    assume "\<not> j < length (takeWhile f xs)"
    then have le: "length (takeWhile f xs) \<le> j" by simp
    then have "\<not> f (xs ! length (takeWhile f xs))" using assms(2) by (intro nth_length_takeWhile) simp
    moreover have "f (xs ! length (takeWhile f xs))"
      using le that assms unfolding used_prefix_def by (cases "length (takeWhile f xs) < j") auto
    ultimately show False by simp
  qed
qed

lemma takeWhile_shorter: "\<exists>x \<in> set xs. \<not> P x \<Longrightarrow> length (takeWhile P xs) < length xs"
  by (induction xs) auto

text \<open>The situation after \<open>r\<close> rounds: \<open>c0\<close> are the starting indices, \<open>u0\<close> the marks before.\<close>

definition parts_ok :: "nat set list \<Rightarrow> nat \<Rightarrow> (nat set \<Rightarrow> nat list) \<Rightarrow> nat set list \<Rightarrow> nat list \<Rightarrow> bool list \<Rightarrow> nat \<Rightarrow> bool" where
  "parts_ok ss n m sets c0 u0 r \<longleftrightarrow>
     (\<forall>S. m S = filter (\<lambda>i. ss ! i = S) [0..<n]) \<and> length u0 = n \<and> distinct sets \<and> 0 < r \<and>
     (\<forall>S. used_prefix (map (\<lambda>i. u0 ! i) (m S))) \<and>
     (\<forall>s < length sets. c0 ! s + r \<le> length (m (sets ! s)) \<and>
        c0 ! s = length (takeWhile (\<lambda>i. u0 ! i) (m (sets ! s))))"

lemma parts_okD:
  assumes "parts_ok ss n m sets c0 u0 r"
  shows "\<And>S. m S = filter (\<lambda>i. ss ! i = S) [0..<n]" "length u0 = n" "distinct sets" "0 < r"
    "\<And>S. used_prefix (map (\<lambda>i. u0 ! i) (m S))"
    "\<And>s. s < length sets \<Longrightarrow> c0 ! s + r \<le> length (m (sets ! s))"
    "\<And>s. s < length sets \<Longrightarrow> c0 ! s = length (takeWhile (\<lambda>i. u0 ! i) (m (sets ! s)))"
  using assms unfolding parts_ok_def by blast+

lemma parts_mem:
  assumes "parts_ok ss n m sets c0 u0 r"
  shows "i \<in> set (m S) \<longleftrightarrow> i < n \<and> ss ! i = S" "distinct (m S)"
  unfolding parts_okD(1)[OF assms] by auto

lemma eq_part_mem:
  assumes "c0 ! s + r \<le> length (m (sets ! s))"
  shows "i \<in> set (eq_part m sets c0 (\<lambda>_. r) s) \<longleftrightarrow> (\<exists>j. c0 ! s \<le> j \<and> j < c0 ! s + r \<and> i = m (sets ! s) ! j)"
proof
  assume "i \<in> set (eq_part m sets c0 (\<lambda>_. r) s)"
  then obtain d where "d < r" "i = m (sets ! s) ! (c0 ! s + d)"
    using assms by (auto simp: eq_part_def in_set_conv_nth)
  then show "\<exists>j. c0 ! s \<le> j \<and> j < c0 ! s + r \<and> i = m (sets ! s) ! j"
    by (intro exI[of _ "c0 ! s + d"]) auto
next
  assume "\<exists>j. c0 ! s \<le> j \<and> j < c0 ! s + r \<and> i = m (sets ! s) ! j"
  then obtain j where "c0 ! s \<le> j" "j < c0 ! s + r" "i = m (sets ! s) ! j" by blast
  then show "i \<in> set (eq_part m sets c0 (\<lambda>_. r) s)"
    using assms by (auto simp: eq_part_def in_set_conv_nth intro!: exI[of _ "j - c0 ! s"])
qed

lemma parts_sub:
  assumes "parts_ok ss n m sets c0 u0 r" "s < length sets" "i \<in> set (eq_part m sets c0 (\<lambda>_. r) s)"
  shows "i < n" "ss ! i = sets ! s" "\<not> u0 ! i"
proof -
  note le = parts_okD(6)[OF assms(1,2)]
  obtain j where j: "c0 ! s \<le> j" "j < c0 ! s + r" "i = m (sets ! s) ! j"
    using assms(3) unfolding eq_part_mem[of c0 s r m sets, OF le] by blast
  then have jl: "j < length (m (sets ! s))" using le by simp
  then have "i \<in> set (m (sets ! s))" using j(3) by simp
  then show "i < n" "ss ! i = sets ! s" using parts_mem(1)[OF assms(1)] by auto
  show "\<not> u0 ! i"
    using used_prefix_takeWhile[OF parts_okD(5)[OF assms(1)] jl] j parts_okD(7)[OF assms(1,2)] by simp
qed

lemma parts_disj:
  assumes "parts_ok ss n m sets c0 u0 r" "s < length sets" "t < length sets"
    "i \<in> set (eq_part m sets c0 (\<lambda>_. r) s)" "i \<in> set (eq_part m sets c0 (\<lambda>_. r) t)"
  shows "s = t"
  using parts_sub(2)[OF assms(1,2,4)] parts_sub(2)[OF assms(1,3,5)] assms(2,3) parts_okD(3)[OF assms(1)]
  by (simp add: nth_eq_iff_index_eq)

lemma parts_distinct:
  assumes "parts_ok ss n m sets c0 u0 r"
  shows "distinct (concat (map (eq_part m sets c0 (\<lambda>_. r)) [0..<length sets]))" (is "distinct (concat (map ?part _))")
proof (rule distinct_concat)
  have "?part s \<noteq> []" if "s < length sets" for s
    using parts_okD(4)[OF assms] parts_okD(6)[OF assms that] by (auto simp: eq_part_def)
  then show "distinct (map ?part [0..<length sets])"
    unfolding distinct_map using parts_disj[OF assms]
    by (auto intro!: inj_onI) (metis hd_in_set)
  show "distinct ys" if "ys \<in> set (map ?part [0..<length sets])" for ys
    using that parts_mem(2)[OF assms] by (auto simp: eq_part_def)
  show "set ys \<inter> set zs = {}"
    if "ys \<in> set (map ?part [0..<length sets])" "zs \<in> set (map ?part [0..<length sets])" "ys \<noteq> zs" for ys zs
    using that parts_disj[OF assms] by (auto simp: disjoint_iff) blast
qed

lemma parts_marks:
  assumes "parts_ok ss n m sets c0 u0 r"
  defines "idxs \<equiv> concat (map (eq_part m sets c0 (\<lambda>_. r)) [0..<length sets])"
    and "u \<equiv> map (\<lambda>i. u0 ! i \<or> (\<exists>s < length sets. i \<in> set (eq_part m sets c0 (\<lambda>_. r) s))) [0..<length u0]"
  shows "marks u0 idxs u" "length idxs = r * length sets"
proof -
  show "marks u0 idxs u"
    using parts_distinct[OF assms(1)] parts_sub[OF assms(1)] parts_okD(2)[OF assms(1)]
    by (auto simp: marks_def idxs_def u_def)
  have "length (eq_part m sets c0 (\<lambda>_. r) s) = r" if "s < length sets" for s
    using parts_okD(6)[OF assms(1) that] by (simp add: eq_part_def)
  then have "map (length \<circ> eq_part m sets c0 (\<lambda>_. r)) [0..<length sets] = replicate (length sets) r"
    by (auto intro!: nth_equalityI)
  then show "length idxs = r * length sets" by (simp add: idxs_def length_concat sum_list_replicate)
qed

lemma parts_used:
  assumes "parts_ok ss n m sets c0 u0 r" "j < length (m S)"
  shows "(\<exists>s < length sets. m S ! j \<in> set (eq_part m sets c0 (\<lambda>_. r) s)) \<longleftrightarrow>
    (\<exists>s < length sets. sets ! s = S \<and> c0 ! s \<le> j \<and> j < c0 ! s + r)"
proof -
  have "m S ! j \<in> set (eq_part m sets c0 (\<lambda>_. r) s) \<longleftrightarrow> sets ! s = S \<and> c0 ! s \<le> j \<and> j < c0 ! s + r"
    if s: "s < length sets" for s
  proof -
    note le = parts_okD(6)[OF assms(1) s]
    have x: "ss ! (m S ! j) = S" "distinct (m S)" using nth_mem[OF assms(2)] parts_mem[OF assms(1)] by auto
    note mem = eq_part_mem[of c0 s r m sets "m S ! j", OF le]
    show ?thesis
    proof
      assume i: "m S ! j \<in> set (eq_part m sets c0 (\<lambda>_. r) s)"
      then have S: "sets ! s = S" using parts_sub(2)[OF assms(1) s i] x(1) by simp
      obtain j' where j': "c0 ! s \<le> j'" "j' < c0 ! s + r" "m S ! j = m S ! j'" using mem i S by blast
      then have "j = j'" using x(2) assms(2) le S by (simp add: nth_eq_iff_index_eq)
      then show "sets ! s = S \<and> c0 ! s \<le> j \<and> j < c0 ! s + r" using S j' by simp
    qed (use mem in blast)
  qed
  then show ?thesis by blast
qed

lemma parts_prefix:
  assumes ok: "parts_ok ss n m sets c0 u0 r"
  shows "used_prefix (map (\<lambda>i. map (\<lambda>i. u0 ! i \<or> (\<exists>s < length sets. i \<in> set (eq_part m sets c0 (\<lambda>_. r) s)))
    [0..<length u0] ! i) (m S))"
  unfolding used_prefix_def
proof (intro allI impI, goal_cases)
  case (1 i j)
  then have l: "i < length (m S)" "j < length (m S)" by auto
  have pre: "u0 ! (m S ! k) \<longleftrightarrow> k < length (takeWhile (\<lambda>i. u0 ! i) (m S))" if "k < length (m S)" for k
    by (rule used_prefix_takeWhile[OF parts_okD(5)[OF ok] that])
  have n: "m S ! k < length u0" if "k < length (m S)" for k
    using nth_mem[OF that] parts_mem(1)[OF ok] parts_okD(2)[OF ok] by auto
  have c: "c0 ! s = length (takeWhile (\<lambda>i. u0 ! i) (m S))" if "s < length sets" "sets ! s = S" for s
    using parts_okD(7)[OF ok that(1)] that(2) by simp
  show ?case
    using 1 l n[OF l(1)] n[OF l(2)] parts_used[OF ok l(1)] parts_used[OF ok l(2)] pre[OF l(1)] pre[OF l(2)] c
    by simp (metis dual_order.strict_trans not_le)
qed

lemma equal_pick_correct:
  assumes ok: "equal_ok sequential a" and pick: "equal_pick n_ubatch sequential a = Some (idxs, u, k)"
  defines "sets \<equiv> equal_sets n_ubatch sequential a [0..<lb_n_tokens (al_batch a)] [] (- 1)"
  shows "\<exists>r > 0. marks (al_used a) idxs u \<and> k = al_n_used a + length idxs \<and>
    length idxs = r * length sets \<and> sets \<noteq> [] \<and> length sets \<le> Suc n_ubatch \<and>
    r * length sets \<le> max (length sets) n_ubatch \<and>
    (\<forall>S. used_prefix (map (\<lambda>i. u ! i) (al_seq_set_map a S)))"
proof -
  let ?n = "lb_n_tokens (al_batch a)" and ?m = "al_seq_set_map a" and ?u0 = "al_used a"
  let ?L = "length sets"
  define c0 where "c0 = map (\<lambda>S. length (takeWhile (\<lambda>i. ?u0 ! i) (?m S))) sets"
  have ES: "distinct sets" "\<forall>S \<in> set sets. \<exists>i < ?n. \<not> ?u0 ! i \<and> al_seq_set a ! i = S" "?L \<le> Suc n_ubatch"
    using equal_sets_correct[of "[0..<?n]" ?n a "[]" n_ubatch sequential "- 1", folded sets_def] ok
    by (simp_all add: Let_def equal_ok_def)
  have ne: "sets \<noteq> []"
    using pick unfolding equal_pick_def sets_def[symmetric] by (auto simp: Let_def split: if_splits)
  have c0: "c0 ! s < length (?m (sets ! s))" if s: "s < ?L" for s
  proof -
    obtain i where "i < ?n" "\<not> ?u0 ! i" "al_seq_set a ! i = sets ! s" using ES(2) nth_mem[OF s] by blast
    then have "\<exists>i \<in> set (?m (sets ! s)). \<not> ?u0 ! i" using ok by (auto simp: equal_ok_def)
    then show ?thesis using takeWhile_shorter s by (simp add: c0_def)
  qed
  have init: "(c0, replicate ?L [], ?u0, al_n_used a) = eq_state ?m sets c0 ?u0 (al_n_used a) (\<lambda>_. 0)"
    by (auto simp: eq_state_def eq_part_def c0_def map_nth intro!: nth_equalityI)
  have c0': "c0 ! s + 0 \<le> length (?m (sets ! s))" if "s < ?L" for s using c0[OF that] by simp
  from equal_loop_state[OF ne c0', where n_ubatch = n_ubatch and ?u0.0 = ?u0 and ?k0.0 = "al_n_used a"]
  obtain r where L: "equal_loop n_ubatch ?m sets (c0, replicate ?L [], ?u0, al_n_used a) =
      eq_state ?m sets c0 ?u0 (al_n_used a) (\<lambda>_. r)"
    and r: "\<forall>s < ?L. c0 ! s + r \<le> length (?m (sets ! s))" "0 < r" "r * ?L \<le> max ?L n_ubatch"
    using c0 unfolding init by auto
  have res: "idxs = concat (map (eq_part ?m sets c0 (\<lambda>_. r)) [0..<?L])" "k = al_n_used a + (\<Sum>s < ?L. r)"
    "u = map (\<lambda>i. ?u0 ! i \<or> (\<exists>s < ?L. i \<in> set (eq_part ?m sets c0 (\<lambda>_. r) s))) [0..<length ?u0]"
    using pick ne L unfolding equal_pick_def sets_def[symmetric]
    by (auto simp: Let_def c0_def eq_state_def split: if_splits)
  have P: "parts_ok (al_seq_set a) ?n ?m sets c0 ?u0 r"
    using ok ES(1) r by (auto simp: parts_ok_def equal_ok_def c0_def)
  show ?thesis
    using parts_marks[OF P, folded res] parts_prefix[OF P, folded res(3)] ne r(2,3) ES(3) res(2)
    by (intro exI[of _ r]) auto
qed

interpretation equal: splitter "equal_ok sequential" "equal_pick n_ubatch sequential"
  "equal_n_seqs n_ubatch sequential" True "Suc n_ubatch" "split_equal n_ubatch sequential" for n_ubatch sequential
proof (unfold_locales, goal_cases)
  case (3 a)
  then have "equal_sets n_ubatch sequential a [0..<lb_n_tokens (al_batch a)] [] (- 1) = []"
    by (auto simp: equal_pick_def equal_ok_def Let_def split: if_splits prod.splits)
  then show ?case
    using equal_sets_correct[of "[0..<lb_n_tokens (al_batch a)]" "lb_n_tokens (al_batch a)" a "[]" n_ubatch sequential "- 1"] 3(1)
    by (auto simp: Let_def equal_ok_def unused_def)
next
  case (4 a idxs u k)
  then show ?case using equal_pick_correct[OF 4] by (auto simp: marks_def unused_def)
next
  case (5 a idxs u k)
  then show ?case using equal_pick_correct[OF 5] by (auto simp: marks_def)
next
  case (6 a idxs u k out)
  then show ?case using equal_pick_correct[OF 6] by (auto simp: equal_ok_def marks_def)
next
  case (7 a idxs u k)
  then show ?case using equal_pick_correct[OF 7] by auto
qed (auto simp: split_equal_def equal_ok_def)


section \<open>What \<^verbatim>\<open>init\<close> establishes\<close>

lemma al_couple_fold:
  "\<exists>Y. fold (al_couple_one s0 p) ks a = a\<lparr>al_seq_pos := (\<lambda>s. if s \<in> snd ` set ks then insert p (al_seq_pos a s)
     else al_seq_pos a s), al_seq_cpl := Y, al_has_cpl := (al_has_cpl a \<or> (\<exists>k \<in> set ks. fst k > 0))\<rparr>"
proof (induction ks arbitrary: a)
  case Nil
  show ?case by (rule exI[of _ "al_seq_cpl a"]) simp
next
  case (Cons k ks)
  obtain Y where Y: "fold (al_couple_one s0 p) ks (al_couple_one s0 p k a) = (al_couple_one s0 p k a)
      \<lparr>al_seq_pos := (\<lambda>s. if s \<in> snd ` set ks then insert p (al_seq_pos (al_couple_one s0 p k a) s)
        else al_seq_pos (al_couple_one s0 p k a) s), al_seq_cpl := Y,
       al_has_cpl := (al_has_cpl (al_couple_one s0 p k a) \<or> (\<exists>k \<in> set ks. fst k > 0))\<rparr>"
    using Cons by blast
  have E: "fold (al_couple_one s0 p) (k # ks) a = (al_couple_one s0 p k a)
      \<lparr>al_seq_pos := (\<lambda>s. if s \<in> snd ` set ks then insert p (al_seq_pos (al_couple_one s0 p k a) s)
        else al_seq_pos (al_couple_one s0 p k a) s), al_seq_cpl := Y,
       al_has_cpl := (al_has_cpl (al_couple_one s0 p k a) \<or> (\<exists>k \<in> set ks. fst k > 0))\<rparr>"
    by (simp only: fold_simps Y)
  show ?case
    unfolding E by (intro exI[of _ Y]) (auto simp: al_couple_one_def Let_def fun_eq_iff intro!: allocr.equality)
qed

lemma enumerate_pos: "(\<exists>k \<in> set (enumerate 0 ss). fst k > 0) \<longleftrightarrow> 1 < length ss"
  by (auto simp: in_set_enumerate_eq intro!: bexI[of _ "(1, ss ! 1)"])

lemma al_couple_token_eq:
  "\<exists>Y. al_couple_token i a = a\<lparr>al_seq_pos := (\<lambda>s. if s \<in> set (lb_seqs (al_batch a) i)
     then insert (lb_pos_at (al_batch a) i) (al_seq_pos a s) else al_seq_pos a s), al_seq_cpl := Y,
     al_has_cpl := (al_has_cpl a \<or> 1 < length (lb_seqs (al_batch a) i))\<rparr>"
proof -
  have "snd ` set (enumerate 0 ss) = set ss" for ss :: "nat list"
    by (metis list.set_map map_snd_enumerate)
  then show ?thesis
    using al_couple_fold[of "hd (lb_seqs (al_batch a) i)" "lb_pos_at (al_batch a) i"
        "enumerate 0 (lb_seqs (al_batch a) i)" a]
    by (simp only: al_couple_token_def Let_def enumerate_pos)
qed

definition tokens_of :: "llama_batch \<Rightarrow> nat \<Rightarrow> nat \<Rightarrow> nat set" where
  "tokens_of b n s = {i. i < n \<and> s \<in> set (lb_seqs b i)}"

lemma al_couple_tokens:
  "\<exists>Y. fold al_couple_token [0..<n] a = a\<lparr>al_seq_pos := (\<lambda>s. al_seq_pos a s \<union>
     lb_pos_at (al_batch a) ` tokens_of (al_batch a) n s), al_seq_cpl := Y,
     al_has_cpl := (al_has_cpl a \<or> (\<exists>i < n. 1 < length (lb_seqs (al_batch a) i)))\<rparr>"
proof (induction n)
  case 0
  show ?case by (rule exI[of _ "al_seq_cpl a"]) (simp add: tokens_of_def)
next
  case (Suc n)
  then obtain Y where Y: "fold al_couple_token [0..<n] a = a\<lparr>al_seq_pos := (\<lambda>s. al_seq_pos a s \<union>
     lb_pos_at (al_batch a) ` tokens_of (al_batch a) n s), al_seq_cpl := Y,
     al_has_cpl := (al_has_cpl a \<or> (\<exists>i < n. 1 < length (lb_seqs (al_batch a) i)))\<rparr>" (is "_ = ?a1")
    by blast
  obtain Z where Z: "al_couple_token n ?a1 = ?a1\<lparr>al_seq_pos := (\<lambda>s. if s \<in> set (lb_seqs (al_batch ?a1) n)
     then insert (lb_pos_at (al_batch ?a1) n) (al_seq_pos ?a1 s) else al_seq_pos ?a1 s), al_seq_cpl := Z,
     al_has_cpl := (al_has_cpl ?a1 \<or> 1 < length (lb_seqs (al_batch ?a1) n))\<rparr>"
    using al_couple_token_eq[of n ?a1] by blast
  have t: "tokens_of b (Suc n) s = (if s \<in> set (lb_seqs b n) then insert n (tokens_of b n s) else tokens_of b n s)" for b s
    by (auto simp: tokens_of_def less_Suc_eq)
  have "fold al_couple_token [0..<Suc n] a = al_couple_token n ?a1" using Y by simp
  also note Z
  finally have E: "fold al_couple_token [0..<Suc n] a = ?a1\<lparr>al_seq_pos := (\<lambda>s. if s \<in> set (lb_seqs (al_batch ?a1) n)
     then insert (lb_pos_at (al_batch ?a1) n) (al_seq_pos ?a1 s) else al_seq_pos ?a1 s), al_seq_cpl := Z,
     al_has_cpl := (al_has_cpl ?a1 \<or> 1 < length (lb_seqs (al_batch ?a1) n))\<rparr>" .
  show ?case
    unfolding E by (rule exI[of _ Z]) (auto simp: t less_Suc_eq fun_eq_iff intro!: allocr.equality)
qed

lemma al_set_tokens:
  assumes "al_seq_set a = []" "\<And>S. al_seq_set_map a S = []"
  shows "fold al_set_token [0..<n] a = a\<lparr>al_seq_set := map (\<lambda>i. set (lb_seqs (al_batch a) i)) [0..<n],
    al_seq_set_map := (\<lambda>S. filter (\<lambda>i. set (lb_seqs (al_batch a) i) = S) [0..<n])\<rparr>"
  by (induction n) (use assms in \<open>auto simp: al_set_token_def Let_def fun_eq_iff intro!: allocr.equality\<close>)

lemma al_stats_eq:
  fixes n_embd n_seq_max :: nat
  assumes "al_seq_set a = []" "\<And>S. al_seq_set_map a S = []" "\<And>s. al_seq_pos a s = {}" "al_n_outputs a = 0"
  defines "b \<equiv> al_batch a" and "a' \<equiv> al_stats n_embd n_seq_max a"
  shows "al_batch a' = b" "al_n_pos_per_embd a' = al_n_pos_per_embd a" "al_n_seq_max a' = n_seq_max"
    "al_n_outputs a' = length (filter (\<lambda>x. x \<noteq> 0) (the (lb_logits b)))"
    "al_seq_set a' = map (\<lambda>i. set (lb_seqs b i)) [0..<lb_n_tokens b]"
    "al_seq_set_map a' = (\<lambda>S. filter (\<lambda>i. set (lb_seqs b i) = S) [0..<lb_n_tokens b])"
    "al_seq_pos a' = (\<lambda>s. lb_pos_at b ` tokens_of b (lb_n_tokens b) s)"
    "al_has_cpl a' = (\<exists>i < lb_n_tokens b. 1 < length (lb_seqs b i))"
proof -
  let ?a1 = "a\<lparr>al_n_embd := n_embd, al_n_seq_max := n_seq_max,
     al_n_outputs := al_n_outputs a + length (filter (\<lambda>x. x \<noteq> 0) (the (lb_logits (al_batch a)))),
     al_has_cpl := False\<rparr>"
  obtain Y where Y: "fold al_couple_token [0..<lb_n_tokens b] ?a1 = ?a1\<lparr>al_seq_pos := (\<lambda>s. al_seq_pos ?a1 s \<union>
     lb_pos_at b ` tokens_of b (lb_n_tokens b) s), al_seq_cpl := Y,
     al_has_cpl := (al_has_cpl ?a1 \<or> (\<exists>i < lb_n_tokens b. 1 < length (lb_seqs b i)))\<rparr>" (is "_ = ?a2")
    using al_couple_tokens[of "lb_n_tokens b" ?a1] by (auto simp: b_def)
  have "fold al_set_token [0..<lb_n_tokens b] ?a2 = ?a2\<lparr>
      al_seq_set := map (\<lambda>i. set (lb_seqs (al_batch ?a2) i)) [0..<lb_n_tokens b],
      al_seq_set_map := (\<lambda>S. filter (\<lambda>i. set (lb_seqs (al_batch ?a2) i) = S) [0..<lb_n_tokens b])\<rparr>"
    by (rule al_set_tokens) (use assms(1,2) in auto)
  then show "al_batch a' = b" "al_n_pos_per_embd a' = al_n_pos_per_embd a" "al_n_seq_max a' = n_seq_max"
    "al_n_outputs a' = length (filter (\<lambda>x. x \<noteq> 0) (the (lb_logits b)))"
    "al_seq_set a' = map (\<lambda>i. set (lb_seqs b i)) [0..<lb_n_tokens b]"
    "al_seq_set_map a' = (\<lambda>S. filter (\<lambda>i. set (lb_seqs b i) = S) [0..<lb_n_tokens b])"
    "al_seq_pos a' = (\<lambda>s. lb_pos_at b ` tokens_of b (lb_n_tokens b) s)"
    "al_has_cpl a' = (\<exists>i < lb_n_tokens b. 1 < length (lb_seqs b i))"
    using Y assms(3,4) by (simp_all add: a'_def al_stats_def Let_def b_def)
qed

lemma al_fill_forms:
  "\<exists>l. al_fill_logits oa b = b\<lparr>lb_logits := l\<rparr>" "\<exists>p. al_fill_pos mem b = b\<lparr>lb_pos := p\<rparr>"
proof -
  have id: "\<exists>l. b = b\<lparr>lb_logits := l\<rparr>" "\<exists>p. b = b\<lparr>lb_pos := p\<rparr>"
    by (rule exI[of _ "lb_logits b"] exI[of _ "lb_pos b"], simp)+
  show "\<exists>l. al_fill_logits oa b = b\<lparr>lb_logits := l\<rparr>"
    unfolding al_fill_logits_def Let_def by (cases "lb_logits b") (use id(1) in auto)
  show "\<exists>p. al_fill_pos mem b = b\<lparr>lb_pos := p\<rparr>"
    unfolding al_fill_pos_def using id(2) by (cases "lb_pos b") auto
qed

lemma al_fill_fields:
  "lb_n_tokens (al_fill mem oa b) = lb_n_tokens b" "lb_token (al_fill mem oa b) = lb_token b"
  "lb_n_seq_id (al_fill mem oa b) = lb_n_seq_id (al_fill_seq b)"
  "lb_seq_id (al_fill mem oa b) = lb_seq_id (al_fill_seq b)"
  "lb_seqs (al_fill mem oa b) = lb_seqs (al_fill_seq b)"
  "lb_pos (al_fill mem oa b) = lb_pos (al_fill_pos mem (al_fill_seq b))"
proof -
  obtain p where p: "al_fill_pos mem (al_fill_seq b) = (al_fill_seq b)\<lparr>lb_pos := p\<rparr>" using al_fill_forms by blast
  obtain l where "al_fill mem oa b = (al_fill_seq b)\<lparr>lb_pos := p, lb_logits := l\<rparr>"
    unfolding al_fill_def p using al_fill_forms(1) by metis
  moreover have "lb_n_tokens (al_fill_seq b) = lb_n_tokens b" "lb_token (al_fill_seq b) = lb_token b"
    by (simp_all add: al_fill_seq_def Let_def)
  ultimately show "lb_n_tokens (al_fill mem oa b) = lb_n_tokens b" "lb_token (al_fill mem oa b) = lb_token b"
    "lb_n_seq_id (al_fill mem oa b) = lb_n_seq_id (al_fill_seq b)"
    "lb_seq_id (al_fill mem oa b) = lb_seq_id (al_fill_seq b)"
    "lb_seqs (al_fill mem oa b) = lb_seqs (al_fill_seq b)"
    "lb_pos (al_fill mem oa b) = lb_pos (al_fill_pos mem (al_fill_seq b))"
    using p by (simp_all add: lb_seqs_def fun_eq_iff)
qed

lemma al_fill_seqs:
  assumes "batch_shape np ne b" "i < lb_n_tokens b"
  shows "lb_seqs (al_fill_seq b) i \<noteq> []"
proof (cases "lb_seq_id b")
  case None
  then have "\<exists>ns. lb_n_seq_id (al_fill_seq b) = Some ns \<and> length ns = lb_n_tokens b \<and> (\<forall>k \<in> set ns. k = 1)"
    using assms(1) by (cases "lb_n_seq_id b") (simp_all add: batch_shape_def al_fill_seq_def Let_def)
  then obtain ns where ns: "lb_n_seq_id (al_fill_seq b) = Some ns" "length ns = lb_n_tokens b" "\<forall>k \<in> set ns. k = 1"
    by blast
  then have "ns ! i = 1" using assms(2) nth_mem[of i ns] by auto
  then show ?thesis
    using None assms(2) ns(1) by (auto simp: al_fill_seq_def lb_seqs_def Let_def split: if_splits)
next
  case (Some ss)
  then obtain ns where ns: "lb_n_seq_id b = Some ns" "length ns = lb_n_tokens b" "length ss = lb_n_tokens b"
    "\<forall>(k, s) \<in> set (zip ns ss). 1 \<le> k \<and> k \<le> length s"
    using assms by (auto simp: batch_shape_def Let_def split: option.splits)
  have "(ns ! i, ss ! i) \<in> set (zip ns ss)" using ns(2,3) assms(2) by (auto simp: set_zip)
  then have "1 \<le> ns ! i \<and> ns ! i \<le> length (ss ! i)" using ns(4) by blast
  then show ?thesis using Some ns(1) by (auto simp: al_fill_seq_def lb_seqs_def Let_def)
qed

lemma al_fill_logits_length:
  assumes "batch_shape np ne b"
  shows "\<exists>l. lb_logits (al_fill mem oa b) = Some l \<and> length l = lb_n_tokens b"
  using assms by (auto simp: batch_shape_def al_fill_def al_fill_logits_def al_fill_pos_def al_fill_seq_def Let_def
      split: option.splits)

lemma al_initD:
  assumes "al_init n_vocab mem n_embd n_seq_max oa b a0 = Inr (Some a)"
  shows "0 < lb_n_tokens b" "batch_shape (al_n_pos_per_embd a0) n_embd b" "al_valid_input n_vocab n_seq_max b"
    "al_batch a = al_fill mem oa b" "al_n_pos_per_embd a = al_n_pos_per_embd a0" "al_n_seq_max a = n_seq_max"
    "al_used a = replicate (lb_n_tokens b) False" "al_n_used a = 0" "al_out_ids a = []"
    "al_n_outputs a = length (filter (\<lambda>x. x \<noteq> 0) (the (lb_logits (al_batch a))))"
    "al_seq_set a = map (\<lambda>i. set (lb_seqs (al_batch a) i)) [0..<lb_n_tokens b]"
    "al_seq_set_map a = (\<lambda>S. filter (\<lambda>i. set (lb_seqs (al_batch a) i) = S) [0..<lb_n_tokens b])"
    "al_seq_pos a = (\<lambda>s. lb_pos_at (al_batch a) ` tokens_of (al_batch a) (lb_n_tokens b) s)"
    "al_has_cpl a = (\<exists>i < lb_n_tokens b. 1 < length (lb_seqs (al_batch a) i))"
    "\<And>s. s < n_seq_max \<Longrightarrow> al_check_pos mem a s" "al_check_cpl mem a"
proof -
  let ?a0 = "(al_clear a0)\<lparr>al_batch := al_fill mem oa b\<rparr>"
  note S = al_stats_eq[of ?a0 n_embd n_seq_max, simplified, unfolded al_clear_def, simplified]
  have a: "a = al_split_reset (al_stats n_embd n_seq_max ?a0)" "0 < lb_n_tokens b"
    "batch_shape (al_n_pos_per_embd a0) n_embd b" "al_valid_input n_vocab n_seq_max b"
    "list_all (al_check_pos mem (al_stats n_embd n_seq_max ?a0)) [0..<n_seq_max]"
    "al_check_cpl mem (al_stats n_embd n_seq_max ?a0)"
    using assms by (auto simp: al_init_def Let_def split: if_splits)
  have reset: "al_check_pos mem (al_split_reset x) s = al_check_pos mem x s"
    "al_check_cpl mem (al_split_reset x) = al_check_cpl mem x" for x s
    by (simp_all add: al_check_pos_def al_check_cpl_def al_split_reset_def al_seq_pos_min_def al_seq_pos_max_def)
  show "0 < lb_n_tokens b" "batch_shape (al_n_pos_per_embd a0) n_embd b" "al_valid_input n_vocab n_seq_max b"
    by (fact a)+
  show "al_batch a = al_fill mem oa b" "al_n_pos_per_embd a = al_n_pos_per_embd a0" "al_n_seq_max a = n_seq_max"
    "al_used a = replicate (lb_n_tokens b) False" "al_n_used a = 0" "al_out_ids a = []"
    "al_n_outputs a = length (filter (\<lambda>x. x \<noteq> 0) (the (lb_logits (al_batch a))))"
    "al_seq_set a = map (\<lambda>i. set (lb_seqs (al_batch a) i)) [0..<lb_n_tokens b]"
    "al_seq_set_map a = (\<lambda>S. filter (\<lambda>i. set (lb_seqs (al_batch a) i) = S) [0..<lb_n_tokens b])"
    "al_seq_pos a = (\<lambda>s. lb_pos_at (al_batch a) ` tokens_of (al_batch a) (lb_n_tokens b) s)"
    "al_has_cpl a = (\<exists>i < lb_n_tokens b. 1 < length (lb_seqs (al_batch a) i))"
    unfolding a(1) by (simp_all add: al_split_reset_def al_clear_def S al_fill_fields)
  show "al_check_pos mem a s" if "s < n_seq_max" for s
    using a(5) that by (simp add: a(1) reset list_all_iff)
  show "al_check_cpl mem a" using a(6) by (simp add: a(1) reset)
qed

lemma al_init_unused:
  assumes "al_init n_vocab mem n_embd n_seq_max oa b a0 = Inr (Some a)"
  shows "unused a = {..<lb_n_tokens b}"
  using al_initD(7)[OF assms] by (auto simp: unused_def)

lemma al_init_simple_ok:
  assumes "al_init n_vocab mem n_embd n_seq_max oa b a0 = Inr (Some a)" "0 < al_n_pos_per_embd a0"
  shows "simple_ok a" "seq_ok a"
  using al_initD(5,7)[OF assms(1)] assms(2) by (auto simp: simple_ok_def seq_ok_def used_prefix_def)

lemma al_init_equal_ok:
  assumes "al_init n_vocab mem n_embd n_seq_max oa b a0 = Inr (Some a)" "0 < al_n_pos_per_embd a0"
    "\<not> (sequential \<and> al_has_cpl a)"
  shows "equal_ok sequential a"
proof -
  note I = al_initD[OF assms(1)]
  have "filter (\<lambda>i. set (lb_seqs (al_batch a) i) = S) [0..<lb_n_tokens b] =
      filter (\<lambda>i. al_seq_set a ! i = S) [0..<lb_n_tokens b]" for S
    by (rule filter_cong) (auto simp: I(11))
  moreover have "used_prefix (map (\<lambda>i. al_used a ! i) (al_seq_set_map a S))" for S
  proof -
    have "\<not> al_used a ! (al_seq_set_map a S ! j)" if "j < length (al_seq_set_map a S)" for j
      using nth_mem[OF that] by (auto simp: I(7,12))
    then show ?thesis by (simp add: used_prefix_def)
  qed
  ultimately show ?thesis
    using assms(2,3) al_fill_seqs[OF I(2)]
    by (simp add: equal_ok_def I(5,7,11,12) I(4) al_fill_fields)
qed

text \<open>The outputs are numbered once.\<close>

lemma filter_upt_outputs:
  "length (filter (\<lambda>i. xs ! i \<noteq> (0::int)) [0..<length xs]) = length (filter (\<lambda>x. x \<noteq> 0) xs)"
proof -
  have "length (filter (\<lambda>x. x \<noteq> 0) (map (\<lambda>i. xs ! i) [0..<length xs])) =
      length (filter (\<lambda>i. xs ! i \<noteq> 0) [0..<length xs])"
    by (simp only: filter_map length_map comp_def)
  then show ?thesis by (simp only: map_nth)
qed

lemma al_outputs_total:
  assumes "al_init n_vocab mem n_embd n_seq_max oa b a0 = Inr (Some a)"
  shows "size (filter_mset (\<lambda>i. the (lb_logits (al_batch a)) ! i \<noteq> 0) (mset_set (unused a))) = al_n_outputs a"
proof -
  note I = al_initD[OF assms]
  obtain l where l: "lb_logits (al_batch a) = Some l" "length l = lb_n_tokens b"
    using al_fill_logits_length[OF I(2)] I(4) by metis
  have "mset_set (unused a) = mset [0..<length l]"
    unfolding al_init_unused[OF assms] l(2) by (simp add: lessThan_atLeast0)
  then have "size (filter_mset (\<lambda>i. l ! i \<noteq> 0) (mset_set (unused a))) =
      length (filter (\<lambda>i. l ! i \<noteq> 0) [0..<length l])"
    by (metis mset_filter size_mset)
  then show ?thesis using I(10) l(1) by (simp add: filter_upt_outputs)
qed

lemma split_all_summary:
  assumes "al_init n_vocab mem n_embd n_seq_max oa b a0 = Inr (Some a)"
  shows "al_n_used a + card (unused a) = lb_n_tokens b"
    "image_mset (batch_row (al_batch a)) (mset_set (unused a)) =
      mset (map (batch_row (al_batch a)) [0..<lb_n_tokens b])"
    "mset out = mset (al_out_ids a) + filter_mset (\<lambda>i. the (lb_logits (al_batch a)) ! i \<noteq> 0) (mset_set (unused a)) \<Longrightarrow>
      length out = al_n_outputs a"
proof -
  show "al_n_used a + card (unused a) = lb_n_tokens b"
    using al_initD(8)[OF assms] al_init_unused[OF assms] by simp
  show "image_mset (batch_row (al_batch a)) (mset_set (unused a)) =
      mset (map (batch_row (al_batch a)) [0..<lb_n_tokens b])"
    unfolding al_init_unused[OF assms] by (simp add: lessThan_atLeast0)
  show "length out = al_n_outputs a" if "mset out = mset (al_out_ids a) +
      filter_mset (\<lambda>i. the (lb_logits (al_batch a)) ! i \<noteq> 0) (mset_set (unused a))"
    using arg_cong[OF that, of size] al_outputs_total[OF assms] al_initD(9)[OF assms] by simp
qed


section \<open>Properties\<close>

text \<open>C17. Cutting an accepted batch with \<^verbatim>\<open>split_simple\<close> until an empty ubatch comes back
  terminates; the ubatches hold exactly the tokens of the batch (ids, positions, sequences, output
  flags), none lost, repeated or changed; every output is numbered once; no ubatch exceeds
  \<^verbatim>\<open>n_ubatch\<close>.\<close>

theorem split_simple_complete:
  assumes "al_init n_vocab mem n_embd n_seq_max oa b a0 = Inr (Some a)" "0 < al_n_pos_per_embd a0"
  shows "\<exists>us a'. split_all (split_simple n_ubatch) a = Some (us, a') \<and> al_n_used a' = lb_n_tokens b \<and>
    mset (concat (map ub_rows us)) = mset (map (batch_row (al_batch a)) [0..<lb_n_tokens b]) \<and>
    length (al_out_ids a') = al_n_outputs a \<and>
    (\<forall>u \<in> set us. 0 < ub_n_tokens u \<and> ub_n_tokens u \<le> max 1 n_ubatch)"
  using simple.split_all_complete[OF al_init_simple_ok(1)[OF assms], of n_ubatch] split_all_summary[OF assms(1)]
  by metis

text \<open>C16. The same for \<^verbatim>\<open>split_equal\<close>, where no sequence is coupled to another if the split is
  sequential. A ubatch can exceed \<^verbatim>\<open>n_ubatch\<close> by one token.\<close>

theorem split_equal_complete:
  assumes "al_init n_vocab mem n_embd n_seq_max oa b a0 = Inr (Some a)" "0 < al_n_pos_per_embd a0"
    "\<not> (sequential \<and> al_has_cpl a)"
  shows "\<exists>us a'. split_all (split_equal n_ubatch sequential) a = Some (us, a') \<and> al_n_used a' = lb_n_tokens b \<and>
    mset (concat (map ub_rows us)) = mset (map (batch_row (al_batch a)) [0..<lb_n_tokens b]) \<and>
    length (al_out_ids a') = al_n_outputs a \<and>
    (\<forall>u \<in> set us. 0 < ub_n_tokens u \<and> ub_n_tokens u \<le> Suc n_ubatch)"
  using equal.split_all_complete[OF al_init_equal_ok[OF assms], of n_ubatch] split_all_summary[OF assms(1)]
  by metis

text \<open>The same for \<^verbatim>\<open>split_seq\<close>.\<close>

theorem split_seq_complete:
  assumes "al_init n_vocab mem n_embd n_seq_max oa b a0 = Inr (Some a)" "0 < al_n_pos_per_embd a0"
  shows "\<exists>us a'. split_all (split_seq n_ubatch) a = Some (us, a') \<and> al_n_used a' = lb_n_tokens b \<and>
    mset (concat (map ub_rows us)) = mset (map (batch_row (al_batch a)) [0..<lb_n_tokens b]) \<and>
    length (al_out_ids a') = al_n_outputs a \<and>
    (\<forall>u \<in> set us. 0 < ub_n_tokens u \<and> ub_n_tokens u \<le> max 1 n_ubatch)"
  using seqs.split_all_complete[OF al_init_simple_ok(2)[OF assms], of n_ubatch] split_all_summary[OF assms(1)]
  by metis

text \<open>One \<^verbatim>\<open>split_equal\<close> gives every sequence set the same number of tokens:
  \<^verbatim>\<open>n_tokens = n_seqs * n_seq_tokens\<close>, with at most \<^verbatim>\<open>n_ubatch\<close> tokens as soon as there are at
  most \<^verbatim>\<open>n_ubatch\<close> sets.\<close>

theorem split_equal_shape:
  assumes "equal_ok sequential a" "split_equal n_ubatch sequential a = (u, a')" "ub_n_tokens u \<noteq> 0"
  shows "ub_n_tokens u = ub_n_seqs u * ub_n_seq_tokens u \<and> 0 < ub_n_seq_tokens u \<and>
    (ub_n_seqs u \<le> n_ubatch \<longrightarrow> ub_n_tokens u \<le> n_ubatch)"
proof (cases "equal_pick n_ubatch sequential a")
  case None
  then show ?thesis using assms by (auto simp: split_equal_def ubatch_none_def)
next
  case (Some r)
  obtain idxs used k where r: "equal_pick n_ubatch sequential a = Some (idxs, used, k)" using Some by (cases r) auto
  have u: "u = fst (ubatch_add idxs (equal_n_seqs n_ubatch sequential a) True (a\<lparr>al_used := used, al_n_used := k\<rparr>))"
    using assms(2) r by (simp add: split_equal_def prod_eq_iff)
  show ?thesis
    using equal_pick_correct[OF assms(1) r, folded equal_n_seqs_def[of n_ubatch sequential a]]
    unfolding u ubatch_add_simps by (auto simp: equal_n_seqs_def mult.commute)
qed


subsection \<open>A batch of one sequence\<close>

text \<open>The batch the application sends: token ids, and possibly positions, of sequence 0.\<close>

definition one_batch :: "int list \<Rightarrow> int list option \<Rightarrow> llama_batch" where
  "one_batch toks p = (llama_batch_get_one toks)\<lparr>lb_pos := p\<rparr>"

lemma al_fill_one_seqs:
  "i < length toks \<Longrightarrow> lb_seqs (al_fill_seq (one_batch toks p)) i = [0]"
  by (simp add: one_batch_def llama_batch_get_one_def batch_none_def al_fill_seq_def lb_seqs_def Let_def)

lemma al_gen_pos_one: "al_gen_pos (replicate n [0]) f = map (\<lambda>i. f 0 + int i) [0..<n]"
proof (induction n arbitrary: f)
  case (Suc n)
  have "[0..<Suc n] = 0 # map Suc [0..<n]" by (simp add: upt_conv_Cons map_Suc_upt)
  then show ?case by (simp add: Suc add.assoc comp_def Let_def)
qed simp

lemma al_fill_one_pos:
  "lb_pos (al_fill mem oa (one_batch toks None)) =
     Some (map (\<lambda>i. (if mem = None then 0 else mem_pos_max mem 0 + 1) + int i) [0..<length toks])"
  "lb_pos (al_fill mem oa (one_batch toks (Some p))) = Some p"
proof -
  have "map (lb_seqs (al_fill_seq (one_batch toks None))) [0..<length toks] = replicate (length toks) [0]"
    using al_fill_one_seqs[of _ toks None] by (auto intro!: nth_equalityI)
  then show "lb_pos (al_fill mem oa (one_batch toks None)) =
     Some (map (\<lambda>i. (if mem = None then 0 else mem_pos_max mem 0 + 1) + int i) [0..<length toks])"
    unfolding al_fill_fields al_fill_pos_def
    by (simp add: al_gen_pos_one al_fill_seq_def Let_def one_batch_def llama_batch_get_one_def batch_none_def)
  show "lb_pos (al_fill mem oa (one_batch toks (Some p))) = Some p"
    unfolding al_fill_fields al_fill_pos_def
    by (simp add: al_fill_seq_def Let_def one_batch_def llama_batch_get_one_def batch_none_def)
qed

lemma al_stats_no_cpl:
  assumes "\<And>i. i < lb_n_tokens (al_batch a) \<Longrightarrow> lb_seqs (al_batch a) i = [0]" "al_seq_cpl a = (\<lambda>_ _. False)"
  shows "al_seq_cpl (al_stats n_embd n_seq_max a) = (\<lambda>_ _. False)"
proof -
  have set: "al_seq_cpl (fold al_set_token xs x) = al_seq_cpl x" for xs x
    by (induction xs arbitrary: x) (auto simp: al_set_token_def Let_def)
  have "al_batch (fold al_couple_token [0..<lb_n_tokens (al_batch a)] x) = al_batch a \<and>
      al_seq_cpl (fold al_couple_token [0..<lb_n_tokens (al_batch a)] x) = (\<lambda>_ _. False)"
    if "al_batch x = al_batch a" "al_seq_cpl x = (\<lambda>_ _. False)" for x
    by (rule fold_invariant_simple[where P = "\<lambda>x. al_batch x = al_batch a \<and> al_seq_cpl x = (\<lambda>_ _. False)"])
      (use that assms(1) in \<open>auto simp: al_couple_token_def al_couple_one_def Let_def\<close>)
  then show ?thesis using assms(2) by (simp add: al_stats_def Let_def set)
qed

lemma al_check_sets_one:
  assumes "\<And>i. i \<in> set is \<Longrightarrow> lb_seqs (al_batch a) i = [0] \<and> al_seq_set a ! i = {0} \<and> - 1 \<le> lb_pos_at (al_batch a) i"
    "0 \<in> cur 0"
  shows "al_check_sets a is cur"
  using assms
proof (induction "is" arbitrary: cur)
  case (Cons i "is")
  then have "cur 0 \<inter> {0} = {0}" by auto
  moreover have "\<not> lb_pos_at (al_batch a) i < - 1" using Cons.prems(1)[of i] by simp
  ultimately show ?case using Cons by (auto split: option.splits)
qed simp

lemma al_init_one:
  assumes toks: "toks \<noteq> []" "\<forall>t \<in> set toks. 0 \<le> t \<and> t < int n_vocab \<and> t < 2 ^ 32"
    and dims: "0 < n_seq_max" "n_seq_max \<le> LLAMA_MAX_SEQ" "al_n_pos_per_embd a0 = 1"
    and pos: "lb_pos (al_fill mem False (one_batch toks p)) = Some ps" "length ps = length toks"
      "set ps = {q..<q + int (length toks)}" "0 \<le> q" "0 \<le> mem_pos_max mem 0 \<Longrightarrow> q = mem_pos_max mem 0 + 1"
  shows "\<exists>a. al_init n_vocab mem n_embd n_seq_max False (one_batch toks p) a0 = Inr (Some a) \<and>
    lb_pos (al_batch a) = Some ps \<and> lb_logits (al_batch a) = Some ((replicate (length toks) 0)[length toks - 1 := 1])"
proof -
  let ?n = "length toks" and ?b = "al_fill mem False (one_batch toks p)"
  let ?a0 = "(al_clear a0)\<lparr>al_batch := ?b\<rparr>"
  let ?a1 = "al_stats n_embd n_seq_max ?a0"
  have n: "lb_n_tokens (one_batch toks p) = ?n" by (simp add: one_batch_def llama_batch_get_one_def)
  have sq: "lb_seqs ?b i = [0]" if "i < ?n" for i using al_fill_one_seqs that by (simp add: al_fill_fields)
  note S = al_stats_eq[of ?a0 n_embd n_seq_max, simplified, unfolded al_clear_def, simplified, folded al_clear_def]
  have tk: "tokens_of ?b ?n s = (if s = 0 then {..<?n} else {})" for s by (auto simp: tokens_of_def sq)
  have sp: "al_seq_pos ?a1 s = (if s = 0 then {q..<q + int ?n} else {})" for s
  proof -
    have "lb_pos_at ?b ` {..<?n} = set ps" using pos(1,2) by (auto simp: lb_pos_at_def set_conv_nth)
    then show ?thesis using pos(3) by (simp add: S al_clear_def al_fill_fields(1) n tk)
  qed
  have mm: "Min {q..<q + int ?n} = q" "Max {q..<q + int ?n} = q + int ?n - 1"
    using toks(1) by (auto intro!: Min_eqI Max_eqI)
  have f: "lb_logits ?b = Some ((replicate ?n 0)[?n - 1 := 1])" "lb_token ?b = Some toks"
    by (simp_all add: al_fill_def al_fill_logits_def al_fill_pos_def al_fill_seq_def one_batch_def
        llama_batch_get_one_def batch_none_def Let_def)
  have "batch_shape 1 n_embd (one_batch toks p)"
    using pos(1,2) by (cases p) (auto simp: batch_shape_def one_batch_def llama_batch_get_one_def batch_none_def
        al_fill_one_pos[unfolded one_batch_def llama_batch_get_one_def batch_none_def, simplified])
  moreover have "al_valid_input n_vocab n_seq_max (one_batch toks p)"
    using toks(2) dims(2) by (auto simp: al_valid_input_def one_batch_def llama_batch_get_one_def batch_none_def
        list_all_iff u32_def not_le zless_nat_eq_int_zless nat_less_iff)
  moreover have "al_check_pos mem ?a1 s" for s
    unfolding al_check_pos_def al_seq_pos_min_def al_seq_pos_max_def sp Let_def
    using toks(1) mm pos(5) dims(3) by (auto simp: S(2) al_clear_def)
  moreover have "al_check_cpl mem ?a1"
    using al_stats_no_cpl[of ?a0 n_embd n_seq_max] sq
    by (simp add: al_check_cpl_def al_clear_def al_fill_fields n list_all_iff)
  moreover have "al_check_sets ?a1 [0..<?n] (\<lambda>_. {..<LLAMA_MAX_SEQ})"
  proof (rule al_check_sets_one)
    fix i assume i: "i \<in> set [0..<?n]"
    then have "ps ! i \<in> {q..<q + int ?n}" using pos(2,3) nth_mem[of i ps] by auto
    then show "lb_seqs (al_batch ?a1) i = [0] \<and> al_seq_set ?a1 ! i = {0} \<and> - 1 \<le> lb_pos_at (al_batch ?a1) i"
      using i sq pos(1,4) by (auto simp: S al_clear_def al_fill_fields(1) n lb_pos_at_def)
  qed (simp add: LLAMA_MAX_SEQ_def)
  ultimately have "al_init n_vocab mem n_embd n_seq_max False (one_batch toks p) a0 =
      Inr (Some (al_split_reset ?a1))"
    using toks(1) dims(3) by (simp add: al_init_def n Let_def list_all_iff)
  moreover have "al_batch (al_split_reset ?a1) = ?b" by (simp add: al_split_reset_def S al_clear_def)
  ultimately show ?thesis using pos(1) f(1) by simp
qed

text \<open>C38. Tokens of one sequence sent without positions (\<^verbatim>\<open>llama_batch_get_one\<close>, the only batch
  the application builds) are always accepted; they get the positions that follow what the memory
  holds, and only the last token has an output.\<close>

theorem al_init_get_one:
  assumes "toks \<noteq> []" "\<forall>t \<in> set toks. 0 \<le> t \<and> t < int n_vocab \<and> t < 2 ^ 32"
    and "0 < n_seq_max" "n_seq_max \<le> LLAMA_MAX_SEQ" "al_n_pos_per_embd a0 = 1" "- 1 \<le> mem_pos_max mem 0"
  shows "\<exists>a. al_init n_vocab mem n_embd n_seq_max False (llama_batch_get_one toks) a0 = Inr (Some a) \<and>
    lb_pos (al_batch a) = Some (map (\<lambda>i. mem_pos_max mem 0 + 1 + int i) [0..<length toks]) \<and>
    lb_logits (al_batch a) = Some ((replicate (length toks) 0)[length toks - 1 := 1])"
proof -
  let ?q = "mem_pos_max mem 0 + 1"
  have one: "one_batch toks None = llama_batch_get_one toks"
    by (simp add: one_batch_def llama_batch_get_one_def batch_none_def)
  have q: "(if mem = None then 0 else ?q) = ?q" by (simp add: mem_pos_max_def)
  have "set (map (\<lambda>i. ?q + int i) [0..<length toks]) = {?q..<?q + int (length toks)}"
  proof
    show "{?q..<?q + int (length toks)} \<subseteq> set (map (\<lambda>i. ?q + int i) [0..<length toks])"
      by (auto intro!: image_eqI[of _ _ "nat (_ - ?q)"])
  qed auto
  then show ?thesis
    using al_init_one[OF assms(1-5) al_fill_one_pos(1)[of mem False toks, unfolded q], of ?q n_embd] assms(6)
    unfolding one by simp
qed

text \<open>Explicit positions of one sequence are accepted in every order, as long as they fill an
  interval from 0: the documented check against decreasing positions never rejects.\<close>

theorem al_init_any_order:
  assumes "toks \<noteq> []" "\<forall>t \<in> set toks. 0 \<le> t \<and> t < int n_vocab \<and> t < 2 ^ 32"
    and "0 < n_seq_max" "n_seq_max \<le> LLAMA_MAX_SEQ" "al_n_pos_per_embd a0 = 1"
    and "length ps = length toks" "set ps = {0..<int (length toks)}"
  shows "\<exists>a. al_init n_vocab None n_embd n_seq_max False (one_batch toks (Some ps)) a0 = Inr (Some a)"
  using al_init_one[OF assms(1-5) al_fill_one_pos(2)[of None False toks ps] assms(6), of 0 n_embd] assms(7)
  by (auto simp: mem_pos_max_def)


section \<open>Examples\<close>

lemma ex_init_one:
  "\<exists>a. al_init 10 None 0 1 False (one_batch [3, 4, 5] p) (al_new 1) = Inr (Some a)"
  if "p = None \<or> p = Some [2, 0, 1]"
proof -
  have "set [2, 0, 1] = {0..<0 + int (length [3::int, 4, 5])}" "set (map (\<lambda>i. int i) [0..<length [3::int, 4, 5]]) = {0..<0 + int (length [3::int, 4, 5])}"
    by (auto simp: upt_rec)
  then show ?thesis
    using that al_init_one[of "[3, 4, 5]" 10 1 "al_new 1" None p _ 0 0]
    by (auto simp: al_fill_one_pos al_new_def LLAMA_MAX_SEQ_def mem_pos_max_def)
qed

lemma ex_get_one: "one_batch toks None = llama_batch_get_one toks"
  by (simp add: one_batch_def llama_batch_get_one_def batch_none_def)

lemma split_simple_complete_witness:
  "\<exists>a us a'. al_init 10 None 0 1 False (llama_batch_get_one [3, 4, 5]) (al_new 1) = Inr (Some a) \<and>
     split_all (split_simple 2) a = Some (us, a') \<and> al_n_used a' = 3 \<and> (\<forall>u \<in> set us. ub_n_tokens u \<le> 2)"
proof -
  obtain a where a: "al_init 10 None 0 1 False (llama_batch_get_one [3, 4, 5]) (al_new 1) = Inr (Some a)"
    using ex_init_one[of None] by (auto simp: ex_get_one)
  then show ?thesis
    using split_simple_complete[OF a, of 2] by (fastforce simp: al_new_def llama_batch_get_one_def)
qed

lemma split_equal_complete_witness:
  "\<exists>a us a'. al_init 10 None 0 1 False (llama_batch_get_one [3, 4, 5]) (al_new 1) = Inr (Some a) \<and>
     split_all (split_equal 2 False) a = Some (us, a') \<and> al_n_used a' = 3"
proof -
  obtain a where a: "al_init 10 None 0 1 False (llama_batch_get_one [3, 4, 5]) (al_new 1) = Inr (Some a)"
    using ex_init_one[of None] by (auto simp: ex_get_one)
  then show ?thesis
    using split_equal_complete[OF a, of False 2] by (fastforce simp: al_new_def llama_batch_get_one_def)
qed

lemma split_seq_complete_witness:
  "\<exists>a us a'. al_init 10 None 0 1 False (llama_batch_get_one [3, 4, 5]) (al_new 1) = Inr (Some a) \<and>
     split_all (split_seq 2) a = Some (us, a') \<and> al_n_used a' = 3"
proof -
  obtain a where a: "al_init 10 None 0 1 False (llama_batch_get_one [3, 4, 5]) (al_new 1) = Inr (Some a)"
    using ex_init_one[of None] by (auto simp: ex_get_one)
  then show ?thesis
    using split_seq_complete[OF a, of 2] by (fastforce simp: al_new_def llama_batch_get_one_def)
qed

text \<open>Two sequences, one token each.\<close>

definition ex_two :: allocr where
  "ex_two = (al_new 1)\<lparr>al_batch := \<lparr>lb_n_tokens = 2, lb_token = Some [3, 4], lb_embd = None, lb_pos = Some [0, 0],
     lb_n_seq_id = Some [1, 1], lb_seq_id = Some [[0], [1]], lb_logits = Some [1, 1]\<rparr>, al_n_seq_max := 2,
     al_n_outputs := 2, al_seq_set := [{0}, {1}],
     al_seq_set_map := (\<lambda>S. filter (\<lambda>i. [{0}, {1}] ! i = S) [0, 1]), al_used := [False, False]\<rparr>"

text \<open>With \<^verbatim>\<open>n_ubatch = 1\<close> the ubatch has two tokens.\<close>

lemma split_equal_off_by_one: "ub_n_tokens (fst (split_equal 1 False ex_two)) = 2"
  by code_simp

lemma split_equal_shape_witness:
  "\<exists>u a'. equal_ok False ex_two \<and> split_equal 4 False ex_two = (u, a') \<and> ub_n_tokens u = 2 \<and>
     ub_n_tokens u = ub_n_seqs u * ub_n_seq_tokens u"
proof -
  have p: "used_prefix []" "used_prefix [False]" "used_prefix [False, False]"
    by (auto simp: used_prefix_def less_Suc_eq)
  have "equal_ok False ex_two"
    using p by (auto simp: equal_ok_def ex_two_def al_new_def less_Suc_eq numeral_eq_Suc upt_rec)
  moreover have "ub_n_tokens (fst (split_equal 4 False ex_two)) = 2" by code_simp
  ultimately show ?thesis
    using split_equal_shape[of False ex_two 4 "fst (split_equal 4 False ex_two)" "snd (split_equal 4 False ex_two)"]
    by (intro exI[of _ "fst (split_equal 4 False ex_two)"] exI[of _ "snd (split_equal 4 False ex_two)"]) simp
qed

lemma al_init_get_one_witness:
  "\<exists>a. al_init 10 (Some (\<lambda>_. 0, \<lambda>_. 6)) 0 1 False (llama_batch_get_one [3, 4]) (al_new 1) = Inr (Some a) \<and>
     lb_pos (al_batch a) = Some [7, 8]"
  using al_init_get_one[of "[3, 4]" 10 1 "al_new 1" "Some (\<lambda>_. 0, \<lambda>_. 6)" 0]
  by (auto simp: al_new_def LLAMA_MAX_SEQ_def mem_pos_max_def upt_rec)

lemma al_init_any_order_witness:
  "\<exists>a. al_init 10 None 0 1 False (one_batch [3, 4, 5] (Some [2, 1, 0])) (al_new 1) = Inr (Some a)"
proof -
  have "{0..<3} = {2, 1, 0 :: int}" by auto
  then show ?thesis
    using al_init_any_order[of "[3, 4, 5]" 10 1 "al_new 1" "[2, 1, 0]" 0]
    by (simp add: al_new_def LLAMA_MAX_SEQ_def)
qed


end
