(* ===== verification/Kv_Slots.thy ===== *)
theory Kv_Slots
  imports Kv_Cache Batch
begin

text \<open>
  Placing a batch in the cache: \<^verbatim>\<open>find_slot\<close>, \<^verbatim>\<open>apply_ubatch\<close>, \<^verbatim>\<open>prepare\<close>,
  \<^verbatim>\<open>init_batch\<close> and \<^verbatim>\<open>get_n_kv\<close> of \<^verbatim>\<open>llama-kv-cache.cpp\<close>, with
  \<^verbatim>\<open>is_masked_swa\<close> of \<^verbatim>\<open>llama-hparams.h\<close>. The search loop is \<^verbatim>\<open>while (true)\<close>; it is a partial
  function, and that it returns is a theorem.
\<close>

section \<open>Sliding-window attention\<close>

text \<open>The chunked window divides by \<^verbatim>\<open>n_swa\<close>, which models with a chunked window set to a
  positive value.\<close>

definition is_masked_swa :: "nat \<Rightarrow> swa_type \<Rightarrow> int \<Rightarrow> int \<Rightarrow> bool" where
  "is_masked_swa n_swa swa p0 p1 =
     (case swa of
        SWA_NONE \<Rightarrow> False
      | SWA_STANDARD \<Rightarrow> p1 - p0 \<ge> int n_swa
      | SWA_CHUNKED \<Rightarrow> p0 < (p1 div int n_swa) * int n_swa
      | SWA_SYMMETRIC \<Rightarrow>
          (let half = int n_swa div 2; diff = p1 - p0 in diff < - half \<or> diff > half))"

section \<open>Finding a slot\<close>

record slot_info =
  si_s0 :: nat
  si_s1 :: nat
  si_strm :: "nat list"
  si_idxs :: "nat list list"

definition si_size :: "slot_info \<Rightarrow> nat" where
  "si_size si = length (si_idxs si ! 0)"

definition si_n_stream :: "slot_info \<Rightarrow> nat" where
  "si_n_stream si = length (si_strm si)"

text \<open>\<^verbatim>\<open>can_use\<close>: the cell is empty, or belongs to one sequence whose window has moved past it.\<close>

definition slot_can_use :: "nat \<Rightarrow> swa_type \<Rightarrow> kv_cells \<Rightarrow> nat \<Rightarrow> bool" where
  "slot_can_use n_swa swa c idx \<longleftrightarrow>
     cells_is_empty c idx \<or>
     (cells_seq_count c idx = 1 \<and>
      is_masked_swa n_swa swa (cells_pos_get c idx) (cells_seq_pos_max c (nat (cells_seq_get c idx)) + 1))"

text \<open>The inner loop over \<^verbatim>\<open>n_test\<close> cells; the state is \<open>(head_cur, n_tested, idxs)\<close>.\<close>

fun slot_test :: "(nat \<Rightarrow> bool) \<Rightarrow> bool \<Rightarrow> nat \<Rightarrow> nat \<Rightarrow> nat \<Rightarrow> nat list \<Rightarrow> nat \<times> nat \<times> nat list" where
  "slot_test can cont 0 head n_tested idxs = (head, n_tested, idxs)"
| "slot_test can cont (Suc k) head n_tested idxs =
     (if can head then slot_test can cont k (head + 1) (n_tested + 1) (idxs @ [head])
      else if cont then (head + 1, n_tested + 1, idxs)
      else slot_test can cont k (head + 1) (n_tested + 1) idxs)"

partial_function (option) slot_loop ::
    "(nat \<Rightarrow> bool) \<Rightarrow> bool \<Rightarrow> nat \<Rightarrow> nat \<Rightarrow> nat \<Rightarrow> nat \<Rightarrow> nat \<Rightarrow> nat list \<Rightarrow> nat list option option" where
  "slot_loop can cont sz n_tokens n_test head n_tested idxs =
     (if head + n_test > sz
      then slot_loop can cont sz n_tokens n_test 0 (n_tested + (sz - head)) idxs
      else
        (case slot_test can cont n_test head n_tested idxs of (head', n_tested', idxs') \<Rightarrow>
           if length idxs' = n_tokens then Some (Some idxs')
           else if n_tested' \<ge> sz then Some None
           else slot_loop can cont sz n_tokens n_test head' n_tested' (if cont then [] else idxs')))"

definition find_slot_stream :: "bool \<Rightarrow> nat \<Rightarrow> kv_cache \<Rightarrow> nat \<Rightarrow> nat list option res" where
  "find_slot_stream cont n_tokens kv st =
     (let c = kv_v_cells kv ! st;
          head = kv_v_heads kv ! st;
          head_cur = (if head > cells_get_used c + 2 * n_tokens then 0 else head)
      in if n_tokens > cells_size c then Inr None
         else case slot_loop (slot_can_use (kv_n_swa kv) (kv_swa_type kv) c) cont (cells_size c) n_tokens
                     (if cont then n_tokens else 1) head_cur 0 [] of
           None \<Rightarrow> Inl Diverges
         | Some r \<Rightarrow> Inr r)"

text \<open>The loop over the sequences of the ubatch; \<open>n_tokens\<close> is the number per sequence.\<close>

fun find_slot_seqs :: "bool \<Rightarrow> nat \<Rightarrow> ubatch \<Rightarrow> kv_cache \<Rightarrow> nat list \<Rightarrow> slot_info \<Rightarrow> slot_info option res" where
  "find_slot_seqs cont n_tokens ub kv [] si = Inr (Some si)"
| "find_slot_seqs cont n_tokens ub kv (s # ss) si =
     (if s \<ge> length (ub_seq_id_unq ub) then Inl Undefined
      else
        (let seq_id = ub_seq_id_unq ub ! s in
         if kv_n_stream kv > 1 \<and> \<not> (ub_n_seq_id ub ! (s * n_tokens) = 1 \<and> hd (ub_seq_id ub ! (s * n_tokens)) = seq_id)
         then Inl Abort
         else if seq_id \<ge> length (kv_seq_to_stream kv) then Inl Undefined
         else
           (let st = kv_seq_to_stream kv ! seq_id in
            case find_slot_stream cont n_tokens kv st of
              Inl e \<Rightarrow> Inl e
            | Inr None \<Rightarrow> Inr None
            | Inr (Some idxs) \<Rightarrow> find_slot_seqs cont n_tokens ub kv ss
                (si\<lparr>si_s0 := min (si_s0 si) st, si_s1 := max (si_s1 si) st,
                    si_strm := si_strm si @ [st], si_idxs := si_idxs si @ [idxs]\<rparr>))))"

definition find_slot :: "ubatch \<Rightarrow> bool \<Rightarrow> kv_cache \<Rightarrow> slot_info option res" where
  "find_slot ub cont kv =
     (let init = \<lparr>si_s0 = LLAMA_MAX_SEQ, si_s1 = 0, si_strm = [], si_idxs = []\<rparr> in
      if kv_n_stream kv > 1 then
        (if ub_n_seqs_unq ub = 0 then Inl Undefined
         else if ub_n_tokens ub mod ub_n_seqs_unq ub \<noteq> 0 then Inl Abort
         else find_slot_seqs cont (ub_n_tokens ub div ub_n_seqs_unq ub) ub kv [0..<ub_n_seqs_unq ub] init)
      else find_slot_seqs cont (ub_n_tokens ub) ub kv [0] init)"

section \<open>Placing a ubatch\<close>

text \<open>One token: evict what the cell holds, then write position, extension and sequences. \<open>rm\<close> is
  the table \<^verbatim>\<open>seq_pos_max_rm\<close>.\<close>

definition place_cell :: "ubatch \<Rightarrow> nat \<Rightarrow> nat \<Rightarrow> kv_cells \<Rightarrow> kv_cells" where
  "place_cell ub idx i c =
     (let c1 = (if \<not> cells_is_empty c idx then cells_rm idx c else c);
          c2 = cells_pos_set idx (ub_pos ub ! i) c1;
          c3 = (if ub_is_pos_2d ub
                then cells_ext_set idx \<lparr>ext_x = ub_pos ub ! (i + ub_n_tokens ub * 2),
                       ext_y = ub_pos ub ! (i + ub_n_tokens ub)\<rparr> c2
                else c2)
      in fold (cells_seq_add idx) (ub_seq_id ub ! i) c3)"

definition place_rm :: "nat \<Rightarrow> kv_cells \<Rightarrow> (nat \<Rightarrow> int) \<Rightarrow> nat \<Rightarrow> int" where
  "place_rm idx c rm =
     (if \<not> cells_is_empty c idx
      then rm(nat (cells_seq_get c idx) := max (rm (nat (cells_seq_get c idx))) (cells_pos_get c idx))
      else rm)"

definition place_token :: "ubatch \<Rightarrow> slot_info \<Rightarrow> nat \<times> nat \<Rightarrow> kv_cache \<times> (nat \<Rightarrow> int) \<Rightarrow> kv_cache \<times> (nat \<Rightarrow> int)" where
  "place_token ub si sii st =
     (let s = fst sii; ii = snd sii; i = s * si_size si + ii; kv = fst st;
          strm = si_strm si ! s; idx = si_idxs si ! s ! ii; c = kv_v_cells kv ! strm
      in (kv\<lparr>kv_v_cells := (kv_v_cells kv)[strm := place_cell ub idx i c]\<rparr>, place_rm idx c (snd st)))"

text \<open>Positions below an evicted one are purged, so that a sequence stays an interval.\<close>

fun purge_seqs :: "(nat \<Rightarrow> int) \<Rightarrow> nat list \<Rightarrow> kv_cache \<Rightarrow> kv_cache res" where
  "purge_seqs rm [] kv = Inr kv"
| "purge_seqs rm (s # ss) kv =
     (if rm s = - 1 then purge_seqs rm ss kv
      else if s \<ge> length (kv_seq_to_stream kv) then Inl Abort
      else
        (let mn = cells_seq_pos_min (kv_v_cells kv ! (kv_seq_to_stream kv ! s)) s in
         if mn \<le> rm s
         then case kv_seq_rm (int s) mn (rm s + 1) kv of Inl e \<Rightarrow> Inl e | Inr r \<Rightarrow> purge_seqs rm ss (fst r)
         else purge_seqs rm ss kv))"

definition move_heads :: "slot_info \<Rightarrow> kv_cache \<Rightarrow> kv_cache" where
  "move_heads si kv = fold (\<lambda>s kv. kv\<lparr>kv_v_heads := (kv_v_heads kv)[si_strm si ! s := last (si_idxs si ! s) + 1]\<rparr>)
     [0..<si_n_stream si] kv"

definition slot_pairs :: "slot_info \<Rightarrow> (nat \<times> nat) list" where
  "slot_pairs si = List.product [0..<si_n_stream si] [0..<si_size si]"

definition apply_ubatch :: "slot_info \<Rightarrow> ubatch \<Rightarrow> kv_cache \<Rightarrow> kv_cache res" where
  "apply_ubatch si ub kv =
     (let r = fold (place_token ub si) (slot_pairs si) (kv, \<lambda>_. - 1)
      in case purge_seqs (snd r) [0..<LLAMA_MAX_SEQ] (fst r) of
           Inl e \<Rightarrow> Inl e
         | Inr kv' \<Rightarrow> Inr (move_heads si kv'))"

section \<open>Preparing a batch\<close>

text \<open>\<^verbatim>\<open>state_t\<close>: the slot, the old heads, and a copy of the cells the slot overwrites.\<close>

type_synonym prep_state = "slot_info \<times> nat list \<times> kv_cells list"

definition prep_save :: "slot_info \<Rightarrow> kv_cache \<Rightarrow> prep_state" where
  "prep_save si kv = (si, kv_v_heads kv,
     map (\<lambda>s. cells_cp_idxs (si_idxs si ! s) (kv_v_cells kv ! (si_strm si ! s))) [0..<si_n_stream si])"

fun prep_place :: "ubatch list \<Rightarrow> kv_cache \<Rightarrow> prep_state list \<Rightarrow> (kv_cache \<times> prep_state list \<times> bool) res" where
  "prep_place [] kv states = Inr (kv, states, True)"
| "prep_place (ub # ubs) kv states =
     (case find_slot ub False kv of
        Inl e \<Rightarrow> Inl e
      | Inr None \<Rightarrow> Inr (kv, states, False)
      | Inr (Some si) \<Rightarrow>
          (case apply_ubatch si ub kv of
             Inl e \<Rightarrow> Inl e
           | Inr kv' \<Rightarrow> prep_place ubs kv' (states @ [prep_save si kv])))"

definition prep_restore_stream :: "prep_state \<Rightarrow> nat \<Rightarrow> kv_cache \<Rightarrow> kv_cache" where
  "prep_restore_stream ps s kv =
     (case ps of (si, heads, cps) \<Rightarrow>
        (let strm = si_strm si ! s
         in kv_set_stream strm (cells_set_idxs (si_idxs si ! s) (cps ! s) (kv_v_cells kv ! strm)) (heads ! s) kv))"

definition prep_restore :: "prep_state \<Rightarrow> kv_cache \<Rightarrow> kv_cache" where
  "prep_restore ps kv = fold (prep_restore_stream ps) [0..<si_n_stream (fst ps)] kv"

text \<open>\<^verbatim>\<open>prepare\<close>: the restored cache, and the slots unless one was not found.\<close>

definition kv_prepare :: "ubatch list \<Rightarrow> kv_cache \<Rightarrow> (kv_cache \<times> slot_info list) res" where
  "kv_prepare ubs kv =
     (case prep_place ubs kv [] of
        Inl e \<Rightarrow> Inl e
      | Inr (kv', states, success) \<Rightarrow>
          if \<not> (states \<noteq> [] \<or> \<not> success) then Inl Abort
          else Inr (fold prep_restore (rev states) kv', if success then map fst states else []))"

datatype memory_status = STATUS_SUCCESS | STATUS_NO_UPDATE | STATUS_FAILED_PREPARE | STATUS_FAILED_COMPUTE

text \<open>\<^verbatim>\<open>init_batch\<close>: the status, the slots and the ubatches of the context it returns.\<close>

definition kv_init_batch :: "nat \<Rightarrow> allocr \<Rightarrow> kv_cache \<Rightarrow>
    (kv_cache \<times> allocr \<times> memory_status \<times> slot_info list \<times> ubatch list) res" where
  "kv_init_batch n_ubatch a kv =
     (case split_all (if kv_n_stream kv = 1 then split_simple n_ubatch else split_equal n_ubatch True)
             (al_split_reset a) of
        None \<Rightarrow> Inl Diverges
      | Some (ubs, a') \<Rightarrow>
          if al_n_used a' < lb_n_tokens (al_batch a') then Inr (kv, a', STATUS_FAILED_PREPARE, [], [])
          else case kv_prepare ubs kv of
            Inl e \<Rightarrow> Inl e
          | Inr (kv', sis) \<Rightarrow>
              if sis = [] then Inr (kv', a', STATUS_FAILED_PREPARE, [], [])
              else Inr (kv', a', STATUS_SUCCESS, sis, ubs))"

section \<open>The attended part of the cache\<close>

text \<open>\<^verbatim>\<open>GGML_PAD(x, n)\<close>, on \<^verbatim>\<open>uint32_t\<close>.\<close>

definition ggml_pad :: "nat \<Rightarrow> nat \<Rightarrow> nat" where
  "ggml_pad x n = unat (and (word_of_nat (x + n) - 1 :: 32 word) (not (word_of_nat n - 1)))"

definition kv_get_n_kv :: "slot_info \<Rightarrow> kv_cache \<Rightarrow> nat" where
  "kv_get_n_kv si kv =
     (let n_pad_cur = max (kv_n_pad kv) 256
      in fold (\<lambda>s r. let c = kv_v_cells kv ! (si_strm si ! s)
               in max (min (cells_size c) (max n_pad_cur (ggml_pad (cells_used_max_p1 c) n_pad_cur))) r)
           [0..<si_n_stream si] 0)"


section \<open>The search terminates and is right\<close>

text \<open>The cells in the order the search visits them from \<open>h\<close>.\<close>

definition visit_order :: "nat \<Rightarrow> nat \<Rightarrow> nat list" where
  "visit_order sz h = [h..<sz] @ [0..<h]"

lemma visit_order_props [simp]:
  "h \<le> sz \<Longrightarrow> length (visit_order sz h) = sz" "distinct (visit_order sz h)"
  "h \<le> sz \<Longrightarrow> set (visit_order sz h) = {..<sz}"
  by (auto simp: visit_order_def)

lemma visit_order_nth:
  "h \<le> sz \<Longrightarrow> n < sz \<Longrightarrow> visit_order sz h ! n = (if n < sz - h then h + n else n - (sz - h))"
  by (auto simp: visit_order_def nth_append)

lemma slot_loop_wrap:
  "head + n_test > sz \<Longrightarrow> slot_loop can cont sz N n_test head n idxs =
     slot_loop can cont sz N n_test 0 (n + (sz - head)) idxs"
  by (subst slot_loop.simps) simp

lemma slot_loop_step:
  "head + n_test \<le> sz \<Longrightarrow> slot_test can cont n_test head n idxs = (head', n', idxs') \<Longrightarrow>
   slot_loop can cont sz N n_test head n idxs =
     (if length idxs' = N then Some (Some idxs') else if n' \<ge> sz then Some None
      else slot_loop can cont sz N n_test head' n' (if cont then [] else idxs'))"
  by (subst slot_loop.simps) simp

lemma slot_loop_scattered:
  assumes "h \<le> sz" "n < sz" "length (filter can (take n (visit_order sz h))) < N"
    and head: "head = visit_order sz h ! n \<or> (n = sz - h \<and> head = sz)"
  shows "\<exists>r. slot_loop can False sz N 1 head n (filter can (take n (visit_order sz h))) = Some r \<and>
    (case r of Some idxs \<Rightarrow> length idxs = N \<and> (\<exists>m \<le> sz. idxs = filter can (take m (visit_order sz h)))
     | None \<Rightarrow> length (filter can (visit_order sz h)) < N)"
  using assms(2-)
proof (induction "sz - n" arbitrary: n head rule: less_induct)
  case less
  let ?O = "visit_order sz h" and ?F = "\<lambda>n. filter can (take n (visit_order sz h))"
  let ?hd = "?O ! n"
  have hd: "?hd < sz" using nth_mem[of n ?O] assms(1) less.prems(1) by simp
  have start: "slot_loop can False sz N 1 head n (?F n) = slot_loop can False sz N 1 ?hd n (?F n)"
    using less.prems(1,3) assms(1) slot_loop_wrap[where head = sz and n_test = 1 and n = n]
    by (auto simp: visit_order_nth)
  have F: "?F (Suc n) = (if can ?hd then ?F n @ [?hd] else ?F n)"
    using less.prems(1) assms(1) by (simp add: take_Suc_conv_app_nth)
  have test: "slot_test can False 1 ?hd n (?F n) = (?hd + 1, n + 1, ?F (Suc n))"
    by (simp add: F)
  have step: "slot_loop can False sz N 1 ?hd n (?F n) =
      (if length (?F (Suc n)) = N then Some (Some (?F (Suc n))) else if Suc n \<ge> sz then Some None
       else slot_loop can False sz N 1 (?hd + 1) (Suc n) (?F (Suc n)))"
    using slot_loop_step[OF _ test, of sz N] hd by simp
  have lt: "length (?F (Suc n)) < N" if "length (?F (Suc n)) \<noteq> N"
    using that less.prems(2) F by (auto split: if_splits)
  consider (found) "length (?F (Suc n)) = N" | (full) "length (?F (Suc n)) \<noteq> N" "Suc n \<ge> sz"
    | (more) "length (?F (Suc n)) \<noteq> N" "Suc n < sz" by linarith
  then show ?case
  proof cases
    case found
    then show ?thesis
      using less.prems(1) unfolding start step by (auto intro!: exI[of _ "Suc n"])
  next
    case full
    then have "?F (Suc n) = filter can ?O" using assms(1) by simp
    then show ?thesis using full lt unfolding start step by simp
  next
    case more
    have nx: "?hd + 1 = ?O ! Suc n \<or> (Suc n = sz - h \<and> ?hd + 1 = sz)"
      using more(2) assms(1) by (auto simp: visit_order_nth)
    have "sz - Suc n < sz - n" using less.prems(1) by simp
    from less.hyps[OF this more(2) lt[OF more(1)] nx] show ?thesis using more unfolding start step by simp
  qed
qed

lemma slot_test_cont:
  "slot_test can True k head n idxs = (head', n', idxs') \<Longrightarrow>
     head \<le> head' \<and> head' \<le> head + k \<and> n \<le> n' \<and> (0 < k \<longrightarrow> n < n') \<and> length idxs' \<le> length idxs + k \<and>
     (length idxs' = length idxs + k \<longrightarrow> idxs' = idxs @ [head..<head + k] \<and> (\<forall>i \<in> set [head..<head + k]. can i))"
proof (induction k arbitrary: head n idxs)
  case (Suc k)
  show ?case
  proof (cases "can head")
    case True
    have "[head..<head + Suc k] = head # [Suc head..<Suc head + k]" by (simp add: upt_conv_Cons)
    then show ?thesis using Suc.IH[of "head + 1" "n + 1" "idxs @ [head]"] Suc.prems True by auto
  next
    case False
    then show ?thesis using Suc.prems by auto
  qed
qed auto

lemma slot_loop_contiguous:
  assumes "0 < N" "N \<le> sz" "head \<le> sz"
  shows "\<exists>r. slot_loop can True sz N N head n [] = Some r \<and>
    (case r of None \<Rightarrow> True | Some idxs \<Rightarrow> \<exists>h. h + N \<le> sz \<and> idxs = [h..<h + N] \<and> (\<forall>i \<in> set idxs. can i))"
  using assms(3)
proof (induction "(sz - n, head)" arbitrary: n head rule: wf_induct_rule[OF wf_lex_prod[OF wf_less wf_less]])
  case (1 n head)
  show ?case
  proof (cases "head + N > sz")
    case True
    then have "((sz - (n + (sz - head)), 0), (sz - n, head)) \<in> less_than <*lex*> less_than"
      using assms(2) by auto
    then show ?thesis using 1(1)[of "n + (sz - head)" 0] slot_loop_wrap[OF True] by simp
  next
    case False
    obtain head' n' idxs' where t: "slot_test can True N head n [] = (head', n', idxs')" by (metis prod_cases3)
    note T = slot_test_cont[OF t] and S = slot_loop_step[OF _ t, of sz N]
    show ?thesis
    proof (cases "length idxs' = N \<or> n' \<ge> sz")
      case True
      have "\<forall>i \<in> set idxs'. can i" "idxs' = [head..<head + N]" if "length idxs' = N" using T that by auto
      then show ?thesis using True S False by (cases "length idxs' = N") (auto intro!: exI[of _ head])
    next
      case nf: False
      then have "((sz - n', head'), (sz - n, head)) \<in> less_than <*lex*> less_than"
        using T assms(1) by auto
      then show ?thesis using 1(1)[of n' head'] S False T nf by simp
    qed
  qed
qed

lemma filter_visit_props:
  assumes "h \<le> sz" "idxs = filter can (take m (visit_order sz h))"
  shows "distinct idxs" "i \<in> set idxs \<Longrightarrow> i < sz \<and> can i"
  using assms visit_order_props(3)[OF assms(1)] by (auto dest: in_set_takeD)

lemma find_slot_stream_correct:
  assumes "kv_inv kv" "st < kv_n_stream kv" "0 < N"
  defines "c \<equiv> kv_v_cells kv ! st"
  defines "can \<equiv> slot_can_use (kv_n_swa kv) (kv_swa_type kv) c"
  shows "\<exists>r. find_slot_stream cont N kv st = Inr r \<and>
    (case r of
       Some idxs \<Rightarrow> length idxs = N \<and> distinct idxs \<and> (\<forall>i \<in> set idxs. i < cells_size c \<and> can i) \<and>
         (cont \<longrightarrow> (\<exists>h. idxs = [h..<h + N]))
     | None \<Rightarrow> cont \<or> card {i. i < cells_size c \<and> can i} < N)"
proof (cases "N > cells_size c")
  case True
  have "card {i. i < cells_size c \<and> can i} \<le> cells_size c"
    using card_mono[of "{..<cells_size c}" "{i. i < cells_size c \<and> can i}"] by auto
  then show ?thesis using True by (auto simp: find_slot_stream_def Let_def c_def)
next
  case False
  let ?h = "if kv_v_heads kv ! st > cells_get_used c + 2 * N then 0 else kv_v_heads kv ! st"
  let ?loop = "slot_loop can cont (cells_size c) N (if cont then N else 1) ?h 0 []"
  have h: "?h \<le> cells_size c" using kv_invD(7)[OF assms(1,2)] by (simp add: c_def)
  have fs: "find_slot_stream cont N kv st = (case ?loop of None \<Rightarrow> Inl Diverges | Some r \<Rightarrow> Inr r)"
    using False by (simp add: find_slot_stream_def Let_def c_def can_def)
  show ?thesis
  proof (cases cont)
    case True
    then show ?thesis
      using slot_loop_contiguous[OF assms(3) _ h, of can 0] False fs
      by (fastforce split: option.splits)
  next
    case nc: False
    let ?O = "visit_order (cells_size c) ?h"
    have "?h = ?O ! 0 \<or> (0 = cells_size c - ?h \<and> ?h = cells_size c)"
      using h False assms(3) by (subst visit_order_nth) auto
    then obtain r where r: "?loop = Some r"
      "case r of Some idxs \<Rightarrow> length idxs = N \<and> (\<exists>m \<le> cells_size c. idxs = filter can (take m ?O))
       | None \<Rightarrow> length (filter can ?O) < N"
      using slot_loop_scattered[OF h, of 0 can N ?h] False assms(3) nc by auto
    have "card {i. i < cells_size c \<and> can i} = length (filter can ?O)"
      using h by (subst distinct_card[symmetric]) (auto intro!: arg_cong[of _ _ card])
    moreover have "distinct idxs \<and> (\<forall>i \<in> set idxs. i < cells_size c \<and> can i)" if rS: "r = Some idxs" for idxs
    proof -
      obtain m where m: "idxs = filter can (take m ?O)" using r(2) unfolding rS by auto
      show ?thesis using filter_visit_props[OF h m] by blast
    qed
    moreover have "find_slot_stream cont N kv st = Inr r" using fs r(1) by simp
    ultimately show ?thesis using r(2) nc by (cases r) auto
  qed
qed

text \<open>What a slot has to satisfy: per stream, \<open>N\<close> distinct usable cells.\<close>

definition slot_ok :: "nat \<Rightarrow> kv_cache \<Rightarrow> slot_info \<Rightarrow> bool" where
  "slot_ok N kv si \<longleftrightarrow> length (si_idxs si) = length (si_strm si) \<and>
     (\<forall>s < length (si_strm si). si_strm si ! s < kv_n_stream kv \<and> length (si_idxs si ! s) = N \<and>
        distinct (si_idxs si ! s) \<and>
        (\<forall>i \<in> set (si_idxs si ! s). i < cells_size (kv_v_cells kv ! (si_strm si ! s)) \<and>
           slot_can_use (kv_n_swa kv) (kv_swa_type kv) (kv_v_cells kv ! (si_strm si ! s)) i))"

lemma slot_ok_snoc:
  assumes "slot_ok N kv si" "st < kv_n_stream kv" "length idxs = N" "distinct idxs"
    "\<forall>i \<in> set idxs. i < cells_size (kv_v_cells kv ! st) \<and>
       slot_can_use (kv_n_swa kv) (kv_swa_type kv) (kv_v_cells kv ! st) i"
  shows "slot_ok N kv (si\<lparr>si_s0 := a, si_s1 := b, si_strm := si_strm si @ [st], si_idxs := si_idxs si @ [idxs]\<rparr>)"
  using assms unfolding slot_ok_def by (auto simp: nth_append less_Suc_eq)

lemma find_slot_seqs_ok:
  assumes inv: "kv_inv kv" and "0 < N" "slot_ok N kv si" "find_slot_seqs cont N ub kv ss si = Inr (Some si')"
  shows "slot_ok N kv si' \<and> length (si_strm si') = length (si_strm si) + length ss"
  using assms(3,4)
proof (induction ss arbitrary: si)
  case (Cons s ss)
  let ?st = "kv_seq_to_stream kv ! (ub_seq_id_unq ub ! s)"
  have "ub_seq_id_unq ub ! s < length (kv_seq_to_stream kv)"
    using Cons.prems(2) by (auto simp: Let_def split: if_splits)
  then have st: "?st < kv_n_stream kv" using kv_invD(5)[OF inv] by (simp add: kv_stream_def)
  obtain idxs where f: "find_slot_stream cont N kv ?st = Inr (Some idxs)"
    and rest: "find_slot_seqs cont N ub kv ss (si\<lparr>si_s0 := min (si_s0 si) ?st, si_s1 := max (si_s1 si) ?st,
      si_strm := si_strm si @ [?st], si_idxs := si_idxs si @ [idxs]\<rparr>) = Inr (Some si')"
    using Cons.prems(2) by (auto simp: Let_def split: if_splits sum.splits option.splits)
  have "slot_ok N kv (si\<lparr>si_s0 := min (si_s0 si) ?st, si_s1 := max (si_s1 si) ?st,
      si_strm := si_strm si @ [?st], si_idxs := si_idxs si @ [idxs]\<rparr>)"
    using slot_ok_snoc[OF Cons.prems(1) st] find_slot_stream_correct[OF inv st assms(2), of cont] f by auto
  from Cons.IH[OF this rest] show ?case by simp
qed simp

lemma slot_can_use_plain: "slot_can_use n SWA_NONE c i \<longleftrightarrow> cells_is_empty c i"
  by (simp add: slot_can_use_def is_masked_swa_def)

lemma find_slot_unified_aux:
  assumes "kv_inv kv" "kv_n_stream kv = 1" "0 < ub_n_tokens ub"
    "ub_seq_id_unq ub \<noteq> []" "hd (ub_seq_id_unq ub) < length (kv_seq_to_stream kv)"
  shows "\<exists>r. find_slot ub False kv = Inr r \<and>
    (r = None \<longleftrightarrow> card {i. i < cells_size (kv_v_cells kv ! 0) \<and>
       slot_can_use (kv_n_swa kv) (kv_swa_type kv) (kv_v_cells kv ! 0) i} < ub_n_tokens ub) \<and>
    (\<forall>si. r = Some si \<longrightarrow> si_strm si = [0] \<and> slot_ok (ub_n_tokens ub) kv si)"
proof -
  let ?can = "slot_can_use (kv_n_swa kv) (kv_swa_type kv) (kv_v_cells kv ! 0)"
  have hd: "ub_seq_id_unq ub ! 0 = hd (ub_seq_id_unq ub)" using assms(4) by (simp add: hd_conv_nth)
  have st: "kv_seq_to_stream kv ! hd (ub_seq_id_unq ub) = 0"
    using kv_invD(5)[OF assms(1,5)] assms(2) by (simp add: kv_stream_def)
  obtain r where r: "find_slot_stream False (ub_n_tokens ub) kv 0 = Inr r"
    "case r of Some idxs \<Rightarrow> length idxs = ub_n_tokens ub \<and> distinct idxs \<and>
         (\<forall>i \<in> set idxs. i < cells_size (kv_v_cells kv ! 0) \<and> ?can i)
     | None \<Rightarrow> card {i. i < cells_size (kv_v_cells kv ! 0) \<and> ?can i} < ub_n_tokens ub"
    using find_slot_stream_correct[OF assms(1) _ assms(3), of 0 False] assms(2) by (auto split: option.splits)
  have fs: "find_slot ub False kv = (case r of None \<Rightarrow> Inr None
     | Some idxs \<Rightarrow> Inr (Some \<lparr>si_s0 = 0, si_s1 = 0, si_strm = [0], si_idxs = [idxs]\<rparr>))"
    using assms(2,4,5) r(1) hd st by (auto simp: find_slot_def Let_def split: option.splits)
  show ?thesis
  proof (cases r)
    case None
    then show ?thesis using fs r by simp
  next
    case (Some idxs)
    then have i: "length idxs = ub_n_tokens ub" "distinct idxs"
      "set idxs \<subseteq> {i. i < cells_size (kv_v_cells kv ! 0) \<and> ?can i}" using r by auto
    have "ub_n_tokens ub \<le> card {i. i < cells_size (kv_v_cells kv ! 0) \<and> ?can i}"
      using card_mono[OF _ i(3)] distinct_card[OF i(2)] i(1) by simp
    then show ?thesis using Some fs i assms(2) by (auto simp: slot_ok_def)
  qed
qed

text \<open>On a cache with one stream the search always returns: a slot of \<^verbatim>\<open>n_tokens\<close> distinct
  usable cells whenever the cache has that many, and no slot otherwise.\<close>

theorem find_slot_unified:
  assumes "kv_inv kv" "kv_n_stream kv = 1" "0 < ub_n_tokens ub"
    "ub_seq_id_unq ub \<noteq> []" "hd (ub_seq_id_unq ub) < length (kv_seq_to_stream kv)"
  shows "\<exists>r. find_slot ub False kv = Inr r \<and>
    (r = None \<longleftrightarrow> card {i. i < cells_size (kv_v_cells kv ! 0) \<and>
       slot_can_use (kv_n_swa kv) (kv_swa_type kv) (kv_v_cells kv ! 0) i} < ub_n_tokens ub) \<and>
    (\<forall>si. r = Some si \<longrightarrow> si_strm si = [0] \<and> slot_ok (ub_n_tokens ub) kv si)"
  by (rule find_slot_unified_aux[OF assms])

text \<open>The search for one contiguous slot returns as well, and what it finds is a run of
  usable cells, for every number of streams.\<close>

theorem find_slot_contiguous:
  assumes "kv_inv kv" "st < kv_n_stream kv" "0 < N"
  shows "\<exists>r. find_slot_stream True N kv st = Inr r \<and> (\<forall>idxs. r = Some idxs \<longrightarrow>
    (\<exists>h. idxs = [h..<h + N] \<and> h + N \<le> cells_size (kv_v_cells kv ! st)) \<and>
    (\<forall>i \<in> set idxs. slot_can_use (kv_n_swa kv) (kv_swa_type kv) (kv_v_cells kv ! st) i))"
proof -
  obtain r where r: "find_slot_stream True N kv st = Inr r"
    "case r of None \<Rightarrow> True | Some idxs \<Rightarrow> (\<exists>h. idxs = [h..<h + N]) \<and> (\<forall>i \<in> set idxs. i < cells_size (kv_v_cells kv ! st) \<and>
       slot_can_use (kv_n_swa kv) (kv_swa_type kv) (kv_v_cells kv ! st) i)"
    using find_slot_stream_correct[OF assms, of True] by (auto split: option.splits)
  moreover have "h + N \<le> z" if "\<forall>i \<in> {h..<h + N}. i < z" for h z :: nat
  proof -
    have "h + N - 1 \<in> {h..<h + N}" using assms(3) by auto
    then have "h + N - 1 < z" using that by blast
    then show ?thesis by linarith
  qed
  ultimately show ?thesis by (fastforce split: option.splits)
qed


section \<open>Placing keeps the invariant\<close>

lemma fold_seq_add_correct:
  assumes "cells_inv c" "cell_at c idx = Some (p, S)" "distinct ss" "set ss \<inter> S = {}" "set ss \<subseteq> {..<LLAMA_MAX_SEQ}"
  shows "cells_inv (fold (cells_seq_add idx) ss c) \<and> cells_size (fold (cells_seq_add idx) ss c) = cells_size c \<and>
    (\<forall>j. cell_at (fold (cells_seq_add idx) ss c) j = (if j = idx then Some (p, S \<union> set ss) else cell_at c j))"
  using assms
proof (induction ss arbitrary: c S)
  case (Cons s ss)
  have i: "idx < cells_size c" "kc_pos c ! idx = p" "kc_pos c ! idx \<noteq> - 1" "kc_seq c ! idx = S"
    using Cons.prems(2) by (auto simp: cell_at_Some_iff)
  have inv: "cells_inv (cells_seq_add idx s c)"
    using Cons.prems i by (intro cells_seq_add_inv) auto
  have at: "cell_at (cells_seq_add idx s c) j = (if j = idx then Some (p, insert s S) else cell_at c j)" for j
    using cell_at_seq_add[OF Cons.prems(1) i(1,3)] i by simp
  have "cell_at (cells_seq_add idx s c) idx = Some (p, insert s S)" by (simp add: at)
  from Cons.IH[OF inv this] show ?case using Cons.prems by (auto simp: at)
qed auto

text \<open>A ubatch the cache can take: its positions are not negative, and no token names a sequence
  twice.\<close>

definition ub_ok :: "ubatch \<Rightarrow> bool" where
  "ub_ok ub \<longleftrightarrow> (\<forall>i < ub_n_tokens ub. 0 \<le> ub_pos ub ! i \<and> distinct (ub_seq_id ub ! i) \<and>
     set (ub_seq_id ub ! i) \<subseteq> {..<LLAMA_MAX_SEQ})"

lemma place_cell_correct:
  assumes "cells_inv c" "idx < cells_size c" "ub_ok ub" "i < ub_n_tokens ub"
  shows "cells_inv (place_cell ub idx i c)" "cells_size (place_cell ub idx i c) = cells_size c"
    "cell_at (place_cell ub idx i c) j =
       (if j = idx then Some (ub_pos ub ! i, set (ub_seq_id ub ! i)) else cell_at c j)"
proof -
  define c1 where "c1 = (if \<not> cells_is_empty c idx then cells_rm idx c else c)"
  define c2 where "c2 = cells_pos_set idx (ub_pos ub ! i) c1"
  define c3 where "c3 = (if ub_is_pos_2d ub then cells_ext_set idx \<lparr>ext_x = ub_pos ub ! (i + ub_n_tokens ub * 2),
      ext_y = ub_pos ub ! (i + ub_n_tokens ub)\<rparr> c2 else c2)"
  have U: "0 \<le> ub_pos ub ! i" "distinct (ub_seq_id ub ! i)" "set (ub_seq_id ub ! i) \<subseteq> {..<LLAMA_MAX_SEQ}"
    using assms(3,4) by (auto simp: ub_ok_def)
  have c1: "cells_inv c1" "cells_size c1 = cells_size c" "cell_at c1 j = (if j = idx then None else cell_at c j)" for j
    using assms(1) cells_rm_inv[OF assms(1,2)] cell_at_rm[OF assms(1,2)] cell_at_None_iff[of c idx]
    by (auto simp: c1_def cells_is_empty_def)
  have e: "kc_pos c1 ! idx = - 1" using c1(3)[of idx] c1(2) assms(2) by (auto simp: cell_at_def split: if_splits)
  have i1: "idx < cells_size c1" using c1(2) assms(2) by simp
  have c2: "cells_inv c2" "cells_size c2 = cells_size c"
    "cell_at c2 j = (if j = idx then Some (ub_pos ub ! i, {}) else cell_at c j)" for j
    using cells_pos_set_inv[OF c1(1) i1 e U(1)] cell_at_pos_set[OF c1(1) i1 e U(1)] c1 by (auto simp: c2_def)
  have c3: "cells_inv c3" "cells_size c3 = cells_size c"
    "cell_at c3 j = (if j = idx then Some (ub_pos ub ! i, {}) else cell_at c j)" for j
    using c2 cells_ext_set_inv[OF c2(1)] by (auto simp: c3_def cell_at_ext_set)
  have p: "place_cell ub idx i c = fold (cells_seq_add idx) (ub_seq_id ub ! i) c3"
    by (simp add: place_cell_def Let_def c1_def c2_def c3_def)
  have "cell_at c3 idx = Some (ub_pos ub ! i, {})" by (simp add: c3(3))
  note F = fold_seq_add_correct[OF c3(1) this U(2) _ U(3)]
  show "cells_inv (place_cell ub idx i c)" "cells_size (place_cell ub idx i c) = cells_size c"
    "cell_at (place_cell ub idx i c) j =
       (if j = idx then Some (ub_pos ub ! i, set (ub_seq_id ub ! i)) else cell_at c j)"
    unfolding p using F c3 by auto
qed

text \<open>Invariant and shape of the cache are kept by every step of \<^verbatim>\<open>apply_ubatch\<close>.\<close>

definition kv_cfg :: "kv_cache \<Rightarrow> kv_cache" where
  "kv_cfg kv = kv\<lparr>kv_v_cells := [], kv_v_heads := []\<rparr>"

lemma kv_cfg_simps [simp]:
  "kv_cfg (kv\<lparr>kv_v_cells := x\<rparr>) = kv_cfg kv" "kv_cfg (kv\<lparr>kv_v_heads := hs\<rparr>) = kv_cfg kv"
  "kv_cfg (kv_set_stream st c h kv) = kv_cfg kv" "kv_cfg (kv_sweep_stream body st kv) = kv_cfg kv"
  by (simp_all add: kv_cfg_def kv_set_stream_def kv_sweep_stream_def Let_def)

lemma kv_cfgD:
  assumes "kv_cfg kv' = kv_cfg kv"
  shows "kv_n_stream kv' = kv_n_stream kv" "kv_seq_to_stream kv' = kv_seq_to_stream kv"
    "kv_n_swa kv' = kv_n_swa kv" "kv_swa_type kv' = kv_swa_type kv" "kv_n_pad kv' = kv_n_pad kv"
  using assms by (auto simp: kv_cfg_def dest: arg_cong[where f = kv_n_stream] arg_cong[where f = kv_seq_to_stream]
      arg_cong[where f = kv_n_swa] arg_cong[where f = kv_swa_type] arg_cong[where f = kv_n_pad])

lemma place_token_inv:
  assumes "kv_inv kv" "ub_ok ub" "s < length (si_strm si)" "si_strm si ! s < kv_n_stream kv"
    "si_idxs si ! s ! ii < cells_size (kv_v_cells kv ! (si_strm si ! s))" "s * si_size si + ii < ub_n_tokens ub"
  shows "kv_inv (fst (place_token ub si (s, ii) (kv, rm)))"
    "kv_cfg (fst (place_token ub si (s, ii) (kv, rm))) = kv_cfg kv"
    "kv_width (fst (place_token ub si (s, ii) (kv, rm))) = kv_width kv"
proof -
  let ?st = "si_strm si ! s" and ?i = "s * si_size si + ii"
  let ?c = "place_cell ub (si_idxs si ! s ! ii) ?i (kv_v_cells kv ! ?st)"
  note P = place_cell_correct[OF kv_invD(6)[OF assms(1,4)] assms(5,2,6)]
  have e: "fst (place_token ub si (s, ii) (kv, rm)) = kv\<lparr>kv_v_cells := (kv_v_cells kv)[?st := ?c]\<rparr>"
    by (simp add: place_token_def Let_def)
  show "kv_inv (fst (place_token ub si (s, ii) (kv, rm)))" unfolding e by (rule kv_set_cells_inv[OF assms(1,4) P(1,2)])
  show "kv_cfg (fst (place_token ub si (s, ii) (kv, rm))) = kv_cfg kv" by (simp add: e)
  show "kv_width (fst (place_token ub si (s, ii) (kv, rm))) = kv_width kv"
    unfolding e kv_width_def using P(2) kv_invD(2)[OF assms(1)] assms(4) by (cases "?st = 0") auto
qed

definition slot_fits :: "ubatch \<Rightarrow> kv_cache \<Rightarrow> slot_info \<Rightarrow> bool" where
  "slot_fits ub kv si \<longleftrightarrow> length (si_idxs si) = length (si_strm si) \<and>
     ub_n_tokens ub = si_n_stream si * si_size si \<and> 0 < si_size si \<and>
     (\<forall>s < length (si_strm si). si_strm si ! s < kv_n_stream kv \<and> length (si_idxs si ! s) = si_size si \<and>
        (\<forall>i \<in> set (si_idxs si ! s). i < kv_width kv))"

lemma place_tokens_inv:
  fixes rm :: "nat \<Rightarrow> int"
  assumes "kv_inv kv" "ub_ok ub" "slot_fits ub kv si"
  defines "r \<equiv> fold (place_token ub si) (slot_pairs si) (kv, rm)"
  shows "kv_inv (fst r) \<and> kv_cfg (fst r) = kv_cfg kv \<and> kv_width (fst r) = kv_width kv"
  unfolding r_def
proof (rule fold_invariant_simple[where P = "\<lambda>r. kv_inv (fst r) \<and> kv_cfg (fst r) = kv_cfg kv \<and> kv_width (fst r) = kv_width kv"])
  fix x and r :: "kv_cache \<times> (nat \<Rightarrow> int)" assume x: "x \<in> set (slot_pairs si)"
    and P: "kv_inv (fst r) \<and> kv_cfg (fst r) = kv_cfg kv \<and> kv_width (fst r) = kv_width kv"
  obtain s ii where sii: "x = (s, ii)" "s < length (si_strm si)" "ii < si_size si"
    using x by (auto simp: slot_pairs_def si_n_stream_def)
  have "s * si_size si + ii < Suc s * si_size si" using sii(3) by simp
  also have "\<dots> \<le> ub_n_tokens ub"
    using sii(2) assms(3) mult_le_mono1[of "Suc s" "length (si_strm si)" "si_size si"]
    by (simp add: slot_fits_def si_n_stream_def)
  finally have i: "s * si_size si + ii < ub_n_tokens ub" .
  have st: "si_strm si ! s < kv_n_stream (fst r)" and idx: "si_idxs si ! s ! ii < kv_width (fst r)"
    using assms(3) sii P kv_cfgD(1)[of "fst r" kv] nth_mem[of ii "si_idxs si ! s"] by (auto simp: slot_fits_def)
  then have "si_idxs si ! s ! ii < cells_size (kv_v_cells (fst r) ! (si_strm si ! s))"
    using kv_invD(8)[of "fst r"] P by simp
  from place_token_inv[OF _ assms(2) sii(2) st this i, of "snd r"] P sii(1)
  show "kv_inv (fst (place_token ub si x r)) \<and> kv_cfg (fst (place_token ub si x r)) = kv_cfg kv \<and>
      kv_width (fst (place_token ub si x r)) = kv_width kv" by simp
qed (use assms in auto)

text \<open>\<open>kv_kept kv kv'\<close>: the invariant holds in \<open>kv'\<close>, which differs from \<open>kv\<close> in cells and heads only.\<close>

definition kv_kept :: "kv_cache \<Rightarrow> kv_cache \<Rightarrow> bool" where
  "kv_kept kv kv' \<longleftrightarrow> kv_inv kv' \<and> kv_cfg kv' = kv_cfg kv \<and> kv_width kv' = kv_width kv"

lemma kv_kept_refl: "kv_inv kv \<Longrightarrow> kv_kept kv kv"
  by (simp add: kv_kept_def)

lemma kv_kept_trans: "kv_kept a b \<Longrightarrow> kv_kept b c \<Longrightarrow> kv_kept a c"
  by (simp add: kv_kept_def)

lemma kv_keptD:
  assumes "kv_kept kv kv'"
  shows "kv_inv kv'" "kv_cfg kv' = kv_cfg kv" "kv_width kv' = kv_width kv" "kv_n_stream kv' = kv_n_stream kv"
    "kv_seq_to_stream kv' = kv_seq_to_stream kv" "kv_n_swa kv' = kv_n_swa kv" "kv_swa_type kv' = kv_swa_type kv"
  using assms kv_cfgD[of kv' kv] by (simp_all add: kv_kept_def)

lemma kv_inv_heads:
  assumes "kv_inv kv" "h \<le> kv_width kv"
  shows "kv_inv (kv\<lparr>kv_v_heads := (kv_v_heads kv)[st := h]\<rparr>)"
proof -
  have w: "kv_width (kv\<lparr>kv_v_heads := (kv_v_heads kv)[st := h]\<rparr>) = kv_width kv" by (simp add: kv_width_def)
  show ?thesis
    unfolding kv_inv_def w using assms
    by (cases "st < kv_n_stream kv") (auto simp: kv_inv_def nth_list_update list_update_beyond)
qed

lemma kv_kept_sweep:
  assumes "kv_inv kv" "st < kv_n_stream kv" "cells_inv (fst (sweep body (kv_v_cells kv ! st)))"
    "cells_size (fst (sweep body (kv_v_cells kv ! st))) = cells_size (kv_v_cells kv ! st)"
  shows "kv_kept kv (kv_sweep_stream body st kv)"
  unfolding kv_kept_def
  using kv_sweep_stream_inv[OF assms] assms(2,4) kv_invD(2)[OF assms(1)]
  by (cases "st = 0") (auto simp: kv_width_def)

lemma kv_seq_rm_kept:
  assumes "kv_inv kv" "kv_seq_rm s p0 p1 kv = Inr (kv', b)"
  shows "kv_kept kv kv'"
proof (cases "s \<ge> 0")
  case True
  then have ok: "kv_seq_ok kv s" and kv': "kv' = kv_sweep_stream (seq_rm_body (nat s) (norm_p0 p0) (norm_p1 p1))
      (kv_stream kv (nat s)) kv"
    using assms(2) by (auto simp: kv_seq_rm_def kv_stream_def split: if_splits)
  have c: "cells_inv (kv_v_cells kv ! kv_stream kv (nat s))" by (rule kv_invD(6)[OF assms(1) kv_seq_okD(1)[OF assms(1) ok]])
  show ?thesis
    unfolding kv' using seq_rm_loop.sweep_inv[OF TrueI c] seq_rm_loop.sweep_size[OF TrueI c]
    by (intro kv_kept_sweep[OF assms(1) kv_seq_okD(1)[OF assms(1) ok]]) auto
next
  case False
  let ?body = "rm_body (norm_p0 p0) (norm_p1 p1)"
  have kv': "kv' = fold (kv_sweep_stream ?body) [0..<kv_n_stream kv] kv"
    using assms(2) False by (auto simp: kv_seq_rm_def split: if_splits)
  show ?thesis
    unfolding kv'
  proof (rule fold_invariant_simple[where P = "kv_kept kv"])
    fix i kv1 assume i: "i \<in> set [0..<kv_n_stream kv]" and k: "kv_kept kv kv1"
    then have i': "i < kv_n_stream kv1" and inv1: "kv_inv kv1" using kv_keptD(1,4)[OF k] by auto
    have c: "cells_inv (kv_v_cells kv1 ! i)" by (rule kv_invD(6)[OF inv1 i'])
    have "kv_kept kv1 (kv_sweep_stream ?body i kv1)"
      using rm_loop.sweep_inv[OF norm_p0_nonneg c] rm_loop.sweep_size[OF norm_p0_nonneg c]
      by (intro kv_kept_sweep[OF inv1 i']) auto
    then show "kv_kept kv (kv_sweep_stream ?body i kv1)" using k kv_kept_trans by blast
  qed (simp add: kv_kept_refl assms(1))
qed

lemma purge_seqs_kept: "purge_seqs rm ss kv = Inr kv' \<Longrightarrow> kv_inv kv \<Longrightarrow> kv_kept kv kv'"
proof (induction rm ss kv rule: purge_seqs.induct)
  case (1 rm kv)
  then show ?case by (simp add: kv_kept_refl)
next
  case (2 rm s ss kv)
  let ?mn = "cells_seq_pos_min (kv_v_cells kv ! (kv_seq_to_stream kv ! s)) s"
  show ?case
  proof (cases "rm s = - 1 \<or> \<not> ?mn \<le> rm s")
    case True
    then show ?thesis using 2 by (auto simp: Let_def split: if_splits)
  next
    case False
    then obtain kv1 b where r: "kv_seq_rm (int s) ?mn (rm s + 1) kv = Inr (kv1, b)" "purge_seqs rm ss kv1 = Inr kv'"
      "\<not> s \<ge> length (kv_seq_to_stream kv)"
      using 2(4) by (auto simp: Let_def split: if_splits sum.splits)
    have k: "kv_kept kv kv1" by (rule kv_seq_rm_kept[OF 2(5) r(1)])
    then have "kv_kept kv1 kv'"
      using 2(2)[OF _ r(3) refl _ r(1)] r(2) False by (auto simp: kv_kept_def)
    then show ?thesis using k kv_kept_trans by blast
  qed
qed

lemma move_heads_kept:
  assumes "kv_inv kv" "\<And>s. s < si_n_stream si \<Longrightarrow> last (si_idxs si ! s) < kv_width kv"
  shows "kv_kept kv (move_heads si kv)"
  unfolding move_heads_def
proof (rule fold_invariant_simple[where P = "kv_kept kv"])
  fix s kv1 assume s: "s \<in> set [0..<si_n_stream si]" and k: "kv_kept kv kv1"
  then have "last (si_idxs si ! s) + 1 \<le> kv_width kv1" using assms(2)[of s] by (auto simp: kv_kept_def)
  moreover have inv1: "kv_inv kv1" using k by (simp add: kv_kept_def)
  ultimately have "kv_inv (kv1\<lparr>kv_v_heads := (kv_v_heads kv1)[si_strm si ! s := last (si_idxs si ! s) + 1]\<rparr>)"
    using kv_inv_heads by blast
  then show "kv_kept kv (kv1\<lparr>kv_v_heads := (kv_v_heads kv1)[si_strm si ! s := last (si_idxs si ! s) + 1]\<rparr>)"
    using k by (simp add: kv_kept_def kv_width_def)
qed (simp add: kv_kept_refl assms(1))

lemma apply_ubatch_kept:
  assumes "kv_inv kv" "ub_ok ub" "slot_fits ub kv si" "apply_ubatch si ub kv = Inr kv'"
  shows "kv_kept kv kv'"
proof -
  let ?r = "fold (place_token ub si) (slot_pairs si) (kv, \<lambda>_. - 1)"
  obtain kv1 where kv1: "purge_seqs (snd ?r) [0..<LLAMA_MAX_SEQ] (fst ?r) = Inr kv1" "kv' = move_heads si kv1"
    using assms(4) by (auto simp: apply_ubatch_def Let_def split: sum.splits)
  have p: "kv_kept kv (fst ?r)" using place_tokens_inv[OF assms(1-3)] by (simp add: kv_kept_def)
  then have k1: "kv_kept kv kv1" using purge_seqs_kept[OF kv1(1)] kv_kept_trans by (auto simp: kv_kept_def)
  have "last (si_idxs si ! s) < kv_width kv1" if "s < si_n_stream si" for s
  proof -
    have "si_idxs si ! s \<noteq> []" "\<forall>i \<in> set (si_idxs si ! s). i < kv_width kv"
      using assms(3) that unfolding slot_fits_def si_n_stream_def by fastforce+
    then show ?thesis using k1 last_in_set by (auto simp: kv_kept_def)
  qed
  then have "kv_kept kv1 kv'" unfolding kv1(2) using k1 by (intro move_heads_kept) (auto simp: kv_kept_def)
  then show ?thesis using k1 kv_kept_trans by blast
qed

text \<open>\<^verbatim>\<open>apply_ubatch\<close> on any slot inside the cache keeps the invariant, also where it evicts
  cells of a sliding window and purges what lies below them.\<close>

theorem apply_ubatch_inv:
  assumes "kv_inv kv" "ub_ok ub" "slot_fits ub kv si" "apply_ubatch si ub kv = Inr kv'"
  shows "kv_inv kv' \<and> kv_n_stream kv' = kv_n_stream kv \<and> kv_seq_to_stream kv' = kv_seq_to_stream kv \<and>
    kv_width kv' = kv_width kv"
  using kv_keptD[OF apply_ubatch_kept[OF assms]] by simp

section \<open>Placing on one stream without a window\<close>

text \<open>A slot of empty cells of stream 0, as the search finds it in a cache without a window.\<close>

definition plain_slot :: "ubatch \<Rightarrow> kv_cache \<Rightarrow> slot_info \<Rightarrow> nat list \<Rightarrow> bool" where
  "plain_slot ub kv si idxs \<longleftrightarrow> si_strm si = [0] \<and> si_idxs si = [idxs] \<and> length idxs = ub_n_tokens ub \<and>
     idxs \<noteq> [] \<and> distinct idxs \<and>
     (\<forall>i \<in> set idxs. i < cells_size (kv_v_cells kv ! 0) \<and> cell_at (kv_v_cells kv ! 0) i = None)"

lemma place_tokens_plain:
  assumes inv: "kv_inv kv" and ub: "ub_ok ub" and slot: "plain_slot ub kv si idxs" and n: "n \<le> length idxs"
  defines "r \<equiv> fold (\<lambda>ii. place_token ub si (0, ii)) [0..<n] (kv, \<lambda>_. - 1)"
  shows "kv_kept kv (fst r) \<and> kv_v_heads (fst r) = kv_v_heads kv \<and> snd r = (\<lambda>_. - 1) \<and>
    (\<forall>i < n. cell_at (kv_v_cells (fst r) ! 0) (idxs ! i) = Some (ub_pos ub ! i, set (ub_seq_id ub ! i))) \<and>
    (\<forall>j. j \<notin> set (take n idxs) \<longrightarrow> cell_at (kv_v_cells (fst r) ! 0) j = cell_at (kv_v_cells kv ! 0) j)"
  using n unfolding r_def
proof (induction n)
  case 0
  then show ?case using inv by (simp add: kv_kept_refl)
next
  case (Suc n)
  let ?r = "fold (\<lambda>ii. place_token ub si (0, ii)) [0..<n] (kv, \<lambda>_. - 1)"
  obtain kv1 rm1 where r: "?r = (kv1, rm1)" by fastforce
  have IH: "kv_kept kv kv1" "kv_v_heads kv1 = kv_v_heads kv" "rm1 = (\<lambda>_. - 1)"
    "\<And>i. i < n \<Longrightarrow> cell_at (kv_v_cells kv1 ! 0) (idxs ! i) = Some (ub_pos ub ! i, set (ub_seq_id ub ! i))"
    "\<And>j. j \<notin> set (take n idxs) \<Longrightarrow> cell_at (kv_v_cells kv1 ! 0) j = cell_at (kv_v_cells kv ! 0) j"
    using Suc unfolding r by auto
  have inv1: "kv_inv kv1" and n1: "0 < kv_n_stream kv1" using IH(1) kv_invD(1) by (auto simp: kv_kept_def)
  have sl: "si_strm si = [0]" "si_idxs si = [idxs]" "distinct idxs" "length idxs = ub_n_tokens ub"
    using slot by (auto simp: plain_slot_def)
  have fresh: "idxs ! n \<notin> set (take n idxs)"
    using sl(3) Suc.prems by (simp add: in_set_conv_nth nth_eq_iff_index_eq)
  have sz: "cells_size (kv_v_cells kv1 ! 0) = cells_size (kv_v_cells kv ! 0)"
    using IH(1) by (simp add: kv_kept_def kv_width_def)
  have idx: "idxs ! n < cells_size (kv_v_cells kv1 ! 0)" "cell_at (kv_v_cells kv1 ! 0) (idxs ! n) = None"
    using slot Suc.prems IH(5)[OF fresh] sz nth_mem[of n idxs] by (auto simp: plain_slot_def)
  have e: "cells_is_empty (kv_v_cells kv1 ! 0) (idxs ! n)"
    using idx by (auto simp: cell_at_None_iff cells_is_empty_def)
  define kv2 where "kv2 = kv1\<lparr>kv_v_cells := (kv_v_cells kv1)[0 := place_cell ub (idxs ! n) n (kv_v_cells kv1 ! 0)]\<rparr>"
  have step: "place_token ub si (0, n) (kv1, rm1) = (kv2, rm1)"
    using sl e by (simp add: place_token_def place_rm_def Let_def si_size_def kv2_def)
  note P = place_cell_correct[OF kv_invD(6)[OF inv1 n1] idx(1) ub, of n]
  have k: "kv_kept kv1 kv2"
    using place_token_inv[OF inv1 ub, of 0 si n rm1] sl n1 idx(1) Suc.prems by (auto simp: kv_kept_def step)
  have at: "cell_at (kv_v_cells kv2 ! 0) j =
      (if j = idxs ! n then Some (ub_pos ub ! n, set (ub_seq_id ub ! n)) else cell_at (kv_v_cells kv1 ! 0) j)" for j
    using P(3) Suc.prems sl(4) n1 kv_invD(2)[OF inv1] by (simp add: kv2_def)
  have ne: "idxs ! i \<noteq> idxs ! n" if "i < n" for i using that sl(3) Suc.prems by (simp add: nth_eq_iff_index_eq)
  have "fold (\<lambda>ii. place_token ub si (0, ii)) [0..<Suc n] (kv, \<lambda>_. - 1) = (kv2, rm1)" using r step by simp
  moreover have "kv_v_heads kv2 = kv_v_heads kv" using IH(2) by (simp add: kv2_def)
  ultimately show ?case
    using kv_kept_trans[OF IH(1) k] IH(3-5) ne Suc.prems
    by (auto simp: at take_Suc_conv_app_nth less_Suc_eq)
qed

lemma purge_seqs_none: "purge_seqs (\<lambda>_. - 1) ss kv = Inr kv"
  by (induction ss) auto

lemma apply_ubatch_plain:
  assumes "kv_inv kv" "ub_ok ub" "plain_slot ub kv si idxs"
  obtains kv' where "apply_ubatch si ub kv = Inr kv'" "kv_kept kv kv'"
    "kv_v_heads kv' = (kv_v_heads kv)[0 := last idxs + 1]"
    "\<And>i. i < length idxs \<Longrightarrow> cell_at (kv_v_cells kv' ! 0) (idxs ! i) = Some (ub_pos ub ! i, set (ub_seq_id ub ! i))"
    "\<And>j. j \<notin> set idxs \<Longrightarrow> cell_at (kv_v_cells kv' ! 0) j = cell_at (kv_v_cells kv ! 0) j"
proof -
  let ?r = "fold (\<lambda>ii. place_token ub si (0, ii)) [0..<length idxs] (kv, \<lambda>_. - 1)"
  note P = place_tokens_plain[OF assms order.refl]
  have sl: "si_strm si = [0]" "si_idxs si = [idxs]" "idxs \<noteq> []" using assms(3) by (auto simp: plain_slot_def)
  have pairs: "fold (place_token ub si) (slot_pairs si) (kv, \<lambda>_. - 1) = ?r"
    using sl by (simp add: slot_pairs_def si_n_stream_def si_size_def fold_map comp_def)
  have a: "apply_ubatch si ub kv = Inr (move_heads si (fst ?r))"
    unfolding apply_ubatch_def pairs Let_def using P purge_seqs_none by simp
  have mh: "move_heads si (fst ?r) = (fst ?r)\<lparr>kv_v_heads := (kv_v_heads (fst ?r))[0 := last idxs + 1]\<rparr>"
    using sl by (simp add: move_heads_def si_n_stream_def)
  have "last idxs < kv_width (fst ?r)"
    using P assms(3) last_in_set[OF sl(3)] by (auto simp: kv_kept_def kv_width_def plain_slot_def)
  then have "kv_kept (fst ?r) (move_heads si (fst ?r))"
    using sl P by (intro move_heads_kept) (auto simp: si_n_stream_def kv_kept_def)
  then have "kv_kept kv (move_heads si (fst ?r))" using P kv_kept_trans by blast
  then show ?thesis using that[OF a] P by (auto simp: mh)
qed


lemma apply_ubatch_plain_positions:
  assumes "kv_inv kv" "kv_n_stream kv = 1" "ub_ok ub" "plain_slot ub kv si idxs"
  shows "\<exists>kv'. apply_ubatch si ub kv = Inr kv' \<and> kv_inv kv' \<and> kv_v_heads kv' ! 0 = last idxs + 1 \<and>
    (\<forall>s < length (kv_seq_to_stream kv). kv_positions kv' s = kv_positions kv s \<union>
       {ub_pos ub ! i | i. i < ub_n_tokens ub \<and> s \<in> set (ub_seq_id ub ! i)})"
proof -
  obtain kv' where A: "apply_ubatch si ub kv = Inr kv'" "kv_kept kv kv'"
    "kv_v_heads kv' = (kv_v_heads kv)[0 := last idxs + 1]"
    "\<And>i. i < length idxs \<Longrightarrow> cell_at (kv_v_cells kv' ! 0) (idxs ! i) = Some (ub_pos ub ! i, set (ub_seq_id ub ! i))"
    "\<And>j. j \<notin> set idxs \<Longrightarrow> cell_at (kv_v_cells kv' ! 0) j = cell_at (kv_v_cells kv ! 0) j"
    using apply_ubatch_plain[OF assms(1,3,4)] by blast
  have sl: "length idxs = ub_n_tokens ub" "\<And>j. j \<in> set idxs \<Longrightarrow> cell_at (kv_v_cells kv ! 0) j = None"
    using assms(4) by (auto simp: plain_slot_def)
  have new: "(\<exists>j \<in> set idxs. \<exists>S. cell_at (kv_v_cells kv' ! 0) j = Some (p, S) \<and> s \<in> S) \<longleftrightarrow>
      (\<exists>i < ub_n_tokens ub. p = ub_pos ub ! i \<and> s \<in> set (ub_seq_id ub ! i))" for p s
    using A(4) sl(1) by (force simp: in_set_conv_nth)
  have "seq_positions (kv_v_cells kv' ! 0) s = seq_positions (kv_v_cells kv ! 0) s \<union>
      {ub_pos ub ! i | i. i < ub_n_tokens ub \<and> s \<in> set (ub_seq_id ub ! i)}" for s
  proof (rule set_eqI)
    fix p
    have "p \<in> seq_positions (kv_v_cells kv' ! 0) s \<longleftrightarrow>
        (\<exists>j. j \<notin> set idxs \<and> (\<exists>S. cell_at (kv_v_cells kv ! 0) j = Some (p, S) \<and> s \<in> S)) \<or>
        (\<exists>j \<in> set idxs. \<exists>S. cell_at (kv_v_cells kv' ! 0) j = Some (p, S) \<and> s \<in> S)"
      unfolding seq_positions_def mem_Collect_eq using A(5) by metis
    also have "\<dots> \<longleftrightarrow> p \<in> seq_positions (kv_v_cells kv ! 0) s \<or>
        (\<exists>i < ub_n_tokens ub. p = ub_pos ub ! i \<and> s \<in> set (ub_seq_id ub ! i))"
      unfolding new using sl(2) by (force simp: seq_positions_def)
    finally show "p \<in> seq_positions (kv_v_cells kv' ! 0) s \<longleftrightarrow> p \<in> seq_positions (kv_v_cells kv ! 0) s \<union>
      {ub_pos ub ! i | i. i < ub_n_tokens ub \<and> s \<in> set (ub_seq_id ub ! i)}" by auto
  qed
  moreover have "kv_stream kv s = 0" "kv_stream kv' s = 0" if "s < length (kv_seq_to_stream kv)" for s
    using kv_invD(5)[OF assms(1) that] assms(2) kv_keptD(5)[OF A(2)] by (simp_all add: kv_stream_def)
  ultimately show ?thesis
    using A(1,3) kv_keptD(1)[OF A(2)] assms(2) kv_invD(3)[OF assms(1)] by (auto simp: kv_positions_def)
qed

text \<open>In a cache with one stream, placing a ubatch in a slot of empty cells adds to every
  sequence exactly the positions its tokens have in the ubatch, and moves the head behind the slot.\<close>

theorem apply_ubatch_positions:
  assumes "kv_inv kv" "kv_n_stream kv = 1" "ub_ok ub" "plain_slot ub kv si idxs"
  shows "\<exists>kv'. apply_ubatch si ub kv = Inr kv' \<and> kv_inv kv' \<and> kv_v_heads kv' ! 0 = last idxs + 1 \<and>
    (\<forall>s < length (kv_seq_to_stream kv). kv_positions kv' s = kv_positions kv s \<union>
       {ub_pos ub ! i | i. i < ub_n_tokens ub \<and> s \<in> set (ub_seq_id ub ! i)})"
  by (rule apply_ubatch_plain_positions[OF assms])

section \<open>Preparing leaves the cache as it was\<close>

lemma cells_set_cp:
  assumes "cells_inv c0" "cells_inv c" "cells_size c = cells_size c0" "\<forall>i \<in> set idxs. i < cells_size c0"
  defines "r \<equiv> cells_set_idxs idxs (cells_cp_idxs idxs c0) c"
  shows "cells_inv r \<and> cells_size r = cells_size c \<and>
    (\<forall>j. cell_at r j = (if j \<in> set idxs then cell_at c0 j else cell_at c j))"
proof -
  let ?o = "cells_cp_idxs idxs c0"
  have o: "cells_size ?o = length idxs" "\<And>j. j < length idxs \<Longrightarrow> kc_pos ?o ! j = kc_pos c0 ! (idxs ! j) \<and>
      kc_seq ?o ! j = kc_seq c0 ! (idxs ! j)"
    by (simp_all add: cells_cp_idxs_def cells_size_def)
  let ?P = "\<lambda>n x. cells_inv x \<and> cells_size x = cells_size c \<and>
    (\<forall>j. cell_at x j = (if j \<in> set (take n idxs) then cell_at c0 j else cell_at c j))"
  have "?P (cells_size ?o) r"
    unfolding r_def cells_set_idxs_def
  proof (rule fold_upt_invariant[where P = ?P])
    show "?P 0 c" using assms(2) by simp
    fix k x assume k: "k < cells_size ?o" and P: "?P k x"
    let ?i = "idxs ! k"
    have i: "?i < cells_size c0" "?i < cells_size x" using assms(3,4) k o(1) P by auto
    have "cells_inv (cells_set_one ?i (kc_pos ?o ! k) (kc_ext ?o ! k) (kc_seq ?o ! k) x)"
      using P i o k cells_invD(6,7,8)[OF assms(1) i(1)] by (intro cells_set_one_inv) auto
    moreover have "cell_at c0 ?i = (if kc_pos ?o ! k = - 1 then None else Some (kc_pos ?o ! k, kc_seq ?o ! k))"
      using o k i(1) by (simp add: cell_at_def)
    ultimately show "?P (Suc k) (cells_set_one ?i (kc_pos ?o ! k) (kc_ext ?o ! k) (kc_seq ?o ! k) x)"
      using P i(2) k o(1) by (auto simp: cell_at_set_one take_Suc_conv_app_nth)
  qed
  then show ?thesis using o(1) by simp
qed

text \<open>\<open>kv_same kv kv'\<close>: \<open>kv'\<close> holds what \<open>kv\<close> holds, for a cache with one stream.\<close>

definition kv_same :: "kv_cache \<Rightarrow> kv_cache \<Rightarrow> bool" where
  "kv_same kv kv' \<longleftrightarrow> kv_kept kv kv' \<and> kv_v_heads kv' = kv_v_heads kv \<and>
     (\<forall>j. cell_at (kv_v_cells kv' ! 0) j = cell_at (kv_v_cells kv ! 0) j)"

lemma prep_restore_same:
  assumes inv: "kv_inv kv" and n: "kv_n_stream kv = 1" and ub: "ub_ok ub" and slot: "plain_slot ub kv si idxs"
    and ap: "apply_ubatch si ub kv = Inr kv1" and same: "kv_same kv1 kv2"
  shows "kv_same kv (prep_restore (prep_save si kv) kv2)"
proof -
  obtain A: "kv_kept kv kv1" "kv_v_heads kv1 = (kv_v_heads kv)[0 := last idxs + 1]"
    "\<And>j. j \<notin> set idxs \<Longrightarrow> cell_at (kv_v_cells kv1 ! 0) j = cell_at (kv_v_cells kv ! 0) j"
    using apply_ubatch_plain[OF inv ub slot] ap by (metis Inr_inject)
  have sl: "si_strm si = [0]" "si_idxs si = [idxs]" "\<forall>i \<in> set idxs. i < cells_size (kv_v_cells kv ! 0)"
    using slot by (auto simp: plain_slot_def)
  have k2: "kv_kept kv kv2" using kv_kept_trans[OF A(1)] same by (simp add: kv_same_def)
  have c: "cells_inv (kv_v_cells kv ! 0)" "cells_inv (kv_v_cells kv2 ! 0)"
    "cells_size (kv_v_cells kv2 ! 0) = cells_size (kv_v_cells kv ! 0)"
    using kv_invD(6)[OF inv] kv_invD(6)[OF kv_keptD(1)[OF k2]] kv_keptD(3,4)[OF k2] n by (auto simp: kv_width_def)
  let ?c = "cells_set_idxs idxs (cells_cp_idxs idxs (kv_v_cells kv ! 0)) (kv_v_cells kv2 ! 0)"
  note S = cells_set_cp[OF c sl(3)]
  have r: "prep_restore (prep_save si kv) kv2 = kv_set_stream 0 ?c (kv_v_heads kv ! 0) kv2"
    using sl by (simp add: prep_restore_def prep_restore_stream_def prep_save_def si_n_stream_def Let_def)
  have l: "length (kv_v_cells kv2) = 1" "length (kv_v_heads kv) = 1"
    using kv_invD(2)[OF kv_keptD(1)[OF k2]] kv_keptD(4)[OF k2] kv_invD(3)[OF inv] n by auto
  have "kv_inv (kv_set_stream 0 ?c (kv_v_heads kv ! 0) kv2)"
    using S kv_invD(7)[OF inv] n c(3) kv_keptD(4)[OF k2]
    by (intro kv_set_stream_inv[OF kv_keptD(1)[OF k2]]) auto
  moreover have "kv_v_heads (kv_set_stream 0 ?c (kv_v_heads kv ! 0) kv2) = kv_v_heads kv"
    using same A(2) l(2) by (auto simp: kv_same_def length_Suc_conv)
  ultimately show ?thesis
    unfolding kv_same_def r kv_kept_def
    using kv_keptD(2,3)[OF k2] S l(1) c(3) same A(3) by (auto simp: kv_width_def kv_same_def)
qed

definition kv_free :: "kv_cache \<Rightarrow> nat set" where
  "kv_free kv = {j. j < cells_size (kv_v_cells kv ! 0) \<and> cell_at (kv_v_cells kv ! 0) j = None}"

text \<open>What \<^verbatim>\<open>find_slot\<close> needs to know of a ubatch beside \<open>ub_ok\<close>.\<close>

definition ub_good :: "kv_cache \<Rightarrow> ubatch \<Rightarrow> bool" where
  "ub_good kv ub \<longleftrightarrow> ub_ok ub \<and> 0 < ub_n_tokens ub \<and> ub_seq_id_unq ub \<noteq> [] \<and>
     hd (ub_seq_id_unq ub) < length (kv_seq_to_stream kv)"

lemma kv_free_usable:
  "{i. i < cells_size (kv_v_cells kv ! 0) \<and> slot_can_use n SWA_NONE (kv_v_cells kv ! 0) i} = kv_free kv"
  by (auto simp: kv_free_def slot_can_use_plain cells_is_empty_def cell_at_def)

lemma find_slot_plain:
  assumes "kv_inv kv" "kv_n_stream kv = 1" "kv_swa_type kv = SWA_NONE" "ub_good kv ub"
  shows "(card (kv_free kv) < ub_n_tokens ub \<and> find_slot ub False kv = Inr None) \<or>
    (ub_n_tokens ub \<le> card (kv_free kv) \<and> (\<exists>si idxs. find_slot ub False kv = Inr (Some si) \<and> plain_slot ub kv si idxs))"
proof -
  have g: "0 < ub_n_tokens ub" "ub_seq_id_unq ub \<noteq> []" "hd (ub_seq_id_unq ub) < length (kv_seq_to_stream kv)"
    using assms(4) by (auto simp: ub_good_def)
  obtain r where r: "find_slot ub False kv = Inr r" "r = None \<longleftrightarrow> card (kv_free kv) < ub_n_tokens ub"
    "\<And>si. r = Some si \<Longrightarrow> si_strm si = [0] \<and> slot_ok (ub_n_tokens ub) kv si"
    using find_slot_unified_aux[OF assms(1,2) g] unfolding assms(3) kv_free_usable by blast
  show ?thesis
  proof (cases r)
    case None
    then show ?thesis using r by simp
  next
    case (Some si)
    then have s: "si_strm si = [0]" "slot_ok (ub_n_tokens ub) kv si" using r(3) by auto
    then obtain idxs where "si_idxs si = [idxs]" by (auto simp: slot_ok_def length_Suc_conv)
    then have "plain_slot ub kv si idxs"
      using s g(1) assms(3) by (auto simp: slot_ok_def plain_slot_def slot_can_use_plain cells_is_empty_def cell_at_def)
    then show ?thesis using r Some by (auto simp: not_less)
  qed
qed

lemma apply_plain_free:
  assumes "kv_inv kv" "ub_ok ub" "plain_slot ub kv si idxs" "apply_ubatch si ub kv = Inr kv1"
  shows "kv_kept kv kv1" "card (kv_free kv1) + ub_n_tokens ub = card (kv_free kv)"
    "kv_free kv1 = kv_free kv - set idxs"
proof -
  obtain A: "kv_kept kv kv1"
    "\<And>i. i < length idxs \<Longrightarrow> cell_at (kv_v_cells kv1 ! 0) (idxs ! i) = Some (ub_pos ub ! i, set (ub_seq_id ub ! i))"
    "\<And>j. j \<notin> set idxs \<Longrightarrow> cell_at (kv_v_cells kv1 ! 0) j = cell_at (kv_v_cells kv ! 0) j"
    using apply_ubatch_plain[OF assms(1-3)] assms(4) by (metis Inr_inject)
  show "kv_kept kv kv1" by (fact A(1))
  have sub: "set idxs \<subseteq> kv_free kv" and d: "distinct idxs" "length idxs = ub_n_tokens ub"
    using assms(3) by (auto simp: plain_slot_def kv_free_def)
  have "cell_at (kv_v_cells kv1 ! 0) j \<noteq> None" if "j \<in> set idxs" for j
    using that A(2) by (auto simp: in_set_conv_nth)
  then have "cell_at (kv_v_cells kv1 ! 0) j = None \<longleftrightarrow> j \<notin> set idxs \<and> cell_at (kv_v_cells kv ! 0) j = None" for j
    using A(3) by metis
  then show free: "kv_free kv1 = kv_free kv - set idxs"
    using kv_keptD(3)[OF A(1)] by (auto simp: kv_free_def kv_width_def)
  have "finite (kv_free kv)" by (simp add: kv_free_def)
  then show "card (kv_free kv1) + ub_n_tokens ub = card (kv_free kv)"
    using free sub distinct_card[OF d(1)] d(2) card_mono[of "kv_free kv" "set idxs"] by (simp add: card_Diff_subset)
qed

lemma ub_good_kept: "kv_kept kv kv1 \<Longrightarrow> ub_good kv1 ub = ub_good kv ub"
  using kv_keptD(5) by (simp add: ub_good_def)

lemma prep_place_plain:
  assumes "kv_inv kv" "kv_n_stream kv = 1" "kv_swa_type kv = SWA_NONE" "\<forall>ub \<in> set ubs. ub_good kv ub"
  shows "\<exists>kv' new ok. prep_place ubs kv states = Inr (kv', states @ new, ok) \<and>
    (\<forall>kv2. kv_same kv' kv2 \<longrightarrow> kv_same kv (fold prep_restore (rev new) kv2)) \<and> kv_inv kv' \<and>
    (ok \<longleftrightarrow> sum_list (map ub_n_tokens ubs) \<le> card (kv_free kv)) \<and> (ok \<longrightarrow> length new = length ubs)"
  using assms
proof (induction ubs arbitrary: kv states)
  case Nil
  then show ?case by (auto intro!: exI[of _ True])
next
  case (Cons ub ubs)
  have ub: "ub_ok ub" using Cons.prems(4) by (simp add: ub_good_def)
  consider (none) "card (kv_free kv) < ub_n_tokens ub" "find_slot ub False kv = Inr None"
    | (slot) si idxs where "find_slot ub False kv = Inr (Some si)" "plain_slot ub kv si idxs"
    using find_slot_plain[OF Cons.prems(1-3), of ub] Cons.prems(4) by auto
  then show ?case
  proof cases
    case none
    then show ?thesis using Cons.prems(1) by (auto intro!: exI[of _ "[]"])
  next
    case slot
    obtain kv1 where kv1: "apply_ubatch si ub kv = Inr kv1"
      using apply_ubatch_plain[OF Cons.prems(1) ub slot(2)] by blast
    note F = apply_plain_free[OF Cons.prems(1) ub slot(2) kv1]
    obtain kv' new ok where IH: "prep_place ubs kv1 (states @ [prep_save si kv]) =
        Inr (kv', (states @ [prep_save si kv]) @ new, ok)"
      "\<And>kv2. kv_same kv' kv2 \<Longrightarrow> kv_same kv1 (fold prep_restore (rev new) kv2)" "kv_inv kv'"
      "ok \<longleftrightarrow> sum_list (map ub_n_tokens ubs) \<le> card (kv_free kv1)" "ok \<longrightarrow> length new = length ubs"
      using Cons.IH[of kv1 "states @ [prep_save si kv]"] kv_keptD[OF F(1)] Cons.prems ub_good_kept[OF F(1)] by auto
    have "prep_place (ub # ubs) kv states = Inr (kv', states @ (prep_save si kv # new), ok)"
      using slot(1) kv1 IH(1) by simp
    moreover have "kv_same kv (fold prep_restore (rev (prep_save si kv # new)) kv2)" if "kv_same kv' kv2" for kv2
      using prep_restore_same[OF Cons.prems(1,2) ub slot(2) kv1 IH(2)[OF that]] by simp
    moreover have "ok \<longleftrightarrow> sum_list (map ub_n_tokens (ub # ubs)) \<le> card (kv_free kv)" using IH(4) F(2) by auto
    ultimately show ?thesis
      using IH(3,5) by (intro exI[of _ kv'] exI[of _ "prep_save si kv # new"] exI[of _ ok]) auto
  qed
qed

text \<open>The slots of a list of ubatches: disjoint sets of free cells of stream 0.\<close>

fun plain_slots :: "nat set \<Rightarrow> ubatch list \<Rightarrow> slot_info list \<Rightarrow> bool" where
  "plain_slots F [] sis \<longleftrightarrow> sis = []"
| "plain_slots F (ub # ubs) [] \<longleftrightarrow> False"
| "plain_slots F (ub # ubs) (si # sis) \<longleftrightarrow>
     si_strm si = [0] \<and> (\<exists>idxs. si_idxs si = [idxs] \<and> length idxs = ub_n_tokens ub \<and> idxs \<noteq> [] \<and> distinct idxs \<and>
       set idxs \<subseteq> F \<and> plain_slots (F - set idxs) ubs sis)"

lemma plain_slots_length: "plain_slots F ubs sis \<Longrightarrow> length sis = length ubs"
  by (induction F ubs sis rule: plain_slots.induct) auto

lemma plain_slot_free:
  "plain_slot ub kv si idxs \<longleftrightarrow> si_strm si = [0] \<and> si_idxs si = [idxs] \<and> length idxs = ub_n_tokens ub \<and>
     idxs \<noteq> [] \<and> distinct idxs \<and> set idxs \<subseteq> kv_free kv"
  by (auto simp: plain_slot_def kv_free_def)

lemma kv_same_free: "kv_same kv kv' \<Longrightarrow> kv_free kv' = kv_free kv"
  by (auto simp: kv_same_def kv_free_def kv_width_def dest: kv_keptD(3))

lemma prep_place_slots:
  assumes "kv_inv kv" "kv_n_stream kv = 1" "kv_swa_type kv = SWA_NONE" "\<forall>ub \<in> set ubs. ub_good kv ub"
    and "prep_place ubs kv states = Inr (kv', states', True)"
  shows "\<exists>new. states' = states @ new \<and> plain_slots (kv_free kv) ubs (map fst new)"
  using assms
proof (induction ubs arbitrary: kv states)
  case (Cons ub ubs)
  have ub: "ub_ok ub" using Cons.prems(4) by (simp add: ub_good_def)
  obtain si idxs where slot: "find_slot ub False kv = Inr (Some si)" "plain_slot ub kv si idxs"
    using find_slot_plain[OF Cons.prems(1-3), of ub] Cons.prems(4,5) by auto
  obtain kv1 where kv1: "apply_ubatch si ub kv = Inr kv1"
    using apply_ubatch_plain[OF Cons.prems(1) ub slot(2)] by blast
  note F = apply_plain_free[OF Cons.prems(1) ub slot(2) kv1]
  have "prep_place ubs kv1 (states @ [prep_save si kv]) = Inr (kv', states', True)"
    using Cons.prems(5) slot(1) kv1 by simp
  with Cons.IH[of kv1 "states @ [prep_save si kv]"] obtain new where
    "states' = states @ prep_save si kv # new" "plain_slots (kv_free kv1) ubs (map fst new)"
    using kv_keptD[OF F(1)] Cons.prems ub_good_kept[OF F(1)] by auto
  then show ?case
    using slot(2) F(3) by (intro exI[of _ "prep_save si kv # new"]) (auto simp: plain_slot_free prep_save_def)
qed simp

lemma kv_prepare_plain:
  assumes "kv_inv kv" "kv_n_stream kv = 1" "kv_swa_type kv = SWA_NONE" "\<forall>ub \<in> set ubs. ub_good kv ub" "ubs \<noteq> []"
  shows "\<exists>kv' sis. kv_prepare ubs kv = Inr (kv', sis) \<and> kv_same kv kv' \<and>
    (if sum_list (map ub_n_tokens ubs) \<le> card (kv_free kv) then plain_slots (kv_free kv) ubs sis else sis = [])"
proof -
  obtain kv' new ok where P: "prep_place ubs kv [] = Inr (kv', new, ok)"
    "\<And>kv2. kv_same kv' kv2 \<Longrightarrow> kv_same kv (fold prep_restore (rev new) kv2)" "kv_inv kv'"
    "ok \<longleftrightarrow> sum_list (map ub_n_tokens ubs) \<le> card (kv_free kv)" "ok \<longrightarrow> length new = length ubs"
    using prep_place_plain[OF assms(1-4), of "[]"] by auto
  have "kv_same kv' kv'" using P(3) by (simp add: kv_same_def kv_kept_refl)
  then have "kv_same kv (fold prep_restore (rev new) kv')" by (rule P(2))
  moreover have "\<not> (new = [] \<and> ok)" using P(5) assms(5) by auto
  moreover have "plain_slots (kv_free kv) ubs (map fst new)" if ok
    using prep_place_slots[OF assms(1-4), of "[]" kv' new] P(1) that by simp
  ultimately show ?thesis using P(1,4,5) by (auto simp: kv_prepare_def)
qed



section \<open>From tokens to slots\<close>

lemma al_unq_fold: "fst (fold (al_unq_step S) [0..<n] (xs, ys)) = xs @ filter (\<lambda>s. s \<in> S) [0..<n]"
  by (induction n) (auto simp: al_unq_step_def)

lemma ub_pos_add:
  assumes "0 < al_n_pos_per_embd a" "i < length idxs"
  shows "ub_pos (fst (ubatch_add idxs k e a)) ! i = lb_pos_at (al_batch a) (idxs ! i)"
    "ub_seq_id (fst (ubatch_add idxs k e a)) ! i = lb_seqs (al_batch a) (idxs ! i)"
proof -
  have "[0..<al_n_pos_per_embd a] = 0 # [1..<al_n_pos_per_embd a]" using assms(1) by (simp add: upt_conv_Cons)
  then show "ub_pos (fst (ubatch_add idxs k e a)) ! i = lb_pos_at (al_batch a) (idxs ! i)"
    "ub_seq_id (fst (ubatch_add idxs k e a)) ! i = lb_seqs (al_batch a) (idxs ! i)"
    using assms(2) by (auto simp: ubatch_add_def Let_def lb_pos_at_def nth_append)
qed

lemma piece_good:
  assumes "piece_of a u" "0 < al_n_pos_per_embd a" "0 < al_n_seq_max a" "0 < length (kv_seq_to_stream kv)"
    and "\<And>i. i \<in> unused a \<Longrightarrow> lb_seqs (al_batch a) i = [0] \<and> 0 \<le> lb_pos_at (al_batch a) i"
  shows "ub_good kv u"
proof -
  obtain idxs k e a1 where u: "u = fst (ubatch_add idxs k e a1)" and p: "idxs \<noteq> []" "set idxs \<subseteq> unused a"
    "al_batch a1 = al_batch a" "al_n_seq_max a1 = al_n_seq_max a" "al_n_pos_per_embd a1 = al_n_pos_per_embd a"
    using assms(1) unfolding piece_of_def by blast
  have "lb_seqs (al_batch a) i = [0]" if "i \<in> set idxs" for i using that p(2) assms(5) by auto
  then have "(\<Union>i \<in> set idxs. set (lb_seqs (al_batch a) i)) = {0}" using p(1) by auto
  then have "ub_seq_id_unq u = filter (\<lambda>s. s \<in> {0}) [0..<al_n_seq_max a]"
    unfolding u ubatch_add_def Let_def p(3,4) by (simp add: al_unq_fold)
  also have "\<dots> = [0]" using assms(3) by (simp add: upt_conv_Cons)
  finally have unq: "ub_seq_id_unq u = [0]" .
  have "0 \<le> ub_pos u ! i \<and> ub_seq_id u ! i = [0]" if "i < length idxs" for i
  proof -
    have "idxs ! i \<in> unused a" using nth_mem[OF that] p(2) by blast
    then show ?thesis using assms(2,5) p(3,5) ub_pos_add[of a1 i idxs k e] that by (simp add: u)
  qed
  then show ?thesis
    using unq assms(4) p(1) by (auto simp: ub_good_def ub_ok_def u LLAMA_MAX_SEQ_def)
qed

lemma sum_rows: "sum_list (map ub_n_tokens us) = length (concat (map ub_rows us))"
  by (induction us) (auto simp: ub_rows_def)

text \<open>The memory as a batch sees it.\<close>

definition kv_bounds :: "kv_cache \<Rightarrow> memory_bounds" where
  "kv_bounds kv = Some (\<lambda>s. cells_seq_pos_min (kv_v_cells kv ! kv_stream kv s) s,
     \<lambda>s. cells_seq_pos_max (kv_v_cells kv ! kv_stream kv s) s)"

lemma kv_bounds_max_ge:
  assumes "kv_inv kv" "s < length (kv_seq_to_stream kv)"
  shows "- 1 \<le> mem_pos_max (kv_bounds kv) s"
proof -
  let ?c = "kv_v_cells kv ! kv_stream kv s"
  have c: "cells_inv ?c" and s: "s < LLAMA_MAX_SEQ"
    using kv_invD(4,5,6)[OF assms(1)] assms(2) by auto
  have "\<forall>p \<in> seq_positions ?c s. - 1 \<le> p"
    using cells_invD(6)[OF c] by (auto simp: seq_positions_def cell_at_Some_iff)
  then show ?thesis
    using finite_seq_positions[of ?c s] Max_in[of "seq_positions ?c s"]
    by (auto simp: mem_pos_max_def kv_bounds_def cells_seq_pos_max_eq[OF c s])
qed

text \<open>A prompt of the application on a cache with one stream and no window: what \<^verbatim>\<open>init\<close> and
  \<^verbatim>\<open>init_batch\<close> make of it.\<close>

lemma kv_init_batch_one:
  assumes kv: "kv_inv kv" "kv_n_stream kv = 1" "kv_swa_type kv = SWA_NONE" "0 < length (kv_seq_to_stream kv)"
    and toks: "toks \<noteq> []" "\<forall>t \<in> set toks. 0 \<le> t \<and> t < int n_vocab \<and> t < 2 ^ 32"
    and dims: "0 < n_seq_max" "n_seq_max \<le> LLAMA_MAX_SEQ" "al_n_pos_per_embd a0 = 1"
  defines "q \<equiv> mem_pos_max (kv_bounds kv) 0 + 1"
  shows "\<exists>a a' kv' st sis ubs.
    al_init n_vocab (kv_bounds kv) n_embd n_seq_max False (llama_batch_get_one toks) a0 = Inr (Some a) \<and>
    kv_init_batch n_ubatch a kv = Inr (kv', a', st, sis, ubs) \<and> kv_same kv kv' \<and>
    (if length toks \<le> card (kv_free kv)
     then st = STATUS_SUCCESS \<and> plain_slots (kv_free kv) ubs sis \<and> ubs \<noteq> [] \<and>
       (\<forall>ub \<in> set ubs. ub_good kv ub \<and> length (ub_output ub) = ub_n_tokens ub \<and> ub_n_tokens ub \<le> length (ub_pos ub)) \<and>
       concat (map ub_rows ubs) = map (batch_row (al_batch a)) [0..<length toks] \<and>
       al_out_ids a' = [length toks - 1]
     else st = STATUS_FAILED_PREPARE) \<and> al_n_pos_per_embd a' = 1 \<and>
    0 \<le> q \<and> lb_n_tokens (al_batch a) = length toks \<and> al_n_outputs a = 1 \<and>
    (\<forall>i < length toks. batch_row (al_batch a) i = (Some (toks ! i), q + int i, [0], of_bool (i = length toks - 1)))"
proof -
  let ?b = "llama_batch_get_one toks"
  let ?ps = "map (\<lambda>i. q + int i) [0..<length toks]"
  have ps: "lb_pos (al_fill (kv_bounds kv) False (one_batch toks None)) = Some ?ps"
    using al_fill_one_pos(1)[of "kv_bounds kv" False toks] by (simp add: kv_bounds_def q_def)
  have q: "0 \<le> q" using kv_bounds_max_ge[OF kv(1,4)] by (simp add: q_def)
  have "set ?ps = {q..<q + int (length toks)}"
    by (auto intro!: image_eqI[of _ _ "nat (_ - q)"])
  then obtain a where a: "al_init n_vocab (kv_bounds kv) n_embd n_seq_max False ?b a0 = Inr (Some a)"
    "lb_pos (al_batch a) = Some ?ps"
    using al_init_one[OF toks dims ps, of q n_embd] q unfolding ex_get_one q_def by auto
  note I = al_initD[OF a(1)]
  have n: "lb_n_tokens ?b = length toks" by (simp add: llama_batch_get_one_def)
  have bn: "lb_n_tokens (al_batch a) = length toks" using I(4) n by (simp add: al_fill_fields)
  have logits: "lb_logits (al_batch a) = Some ((replicate (length toks) 0)[length toks - 1 := 1])"
    "lb_token (al_batch a) = Some toks"
    using I(4) n by (simp_all add: al_fill_def al_fill_logits_def al_fill_pos_def al_fill_seq_def llama_batch_get_one_def
        batch_none_def Let_def)
  have row: "batch_row (al_batch a) i = (Some (toks ! i), q + int i, [0], of_bool (i = length toks - 1))"
    if "i < length toks" for i
    using that a(2) logits I(4) al_fill_one_seqs[of i toks None] n
    by (simp add: batch_row_def lb_pos_at_def ex_get_one nth_list_update al_fill_fields)
  have reset: "al_split_reset a = a"
    using I(7-9) n bn by (auto simp: al_split_reset_def intro!: allocr.equality)
  have un: "unused a = {..<length toks}" using al_init_unused[OF a(1)] n by simp
  obtain us a' where S: "split_all (split_simple n_ubatch) a = Some (us, a')" "al_batch a' = al_batch a"
    "al_n_used a' = length toks" "\<forall>u \<in> set us. piece_of a u"
    using simple.split_all_complete[OF al_init_simple_ok(1)[OF a(1)], of n_ubatch]
      split_all_summary(1)[OF a(1)] dims(3) n by auto
  have used: "al_used a = replicate (length toks) False" using I(7) n by simp
  then have fu: "first_unused (al_used a) = 0" by (cases toks) (auto simp: first_unused_def)
  have O: "concat (map ub_rows us) = map (batch_row (al_batch a)) [0..<length toks]"
    "al_out_ids a' = filter (\<lambda>i. the (lb_logits (al_batch a)) ! i \<noteq> 0) [0..<length toks]"
    "al_n_pos_per_embd a' = 1"
    using split_all_simple_order[OF al_init_simple_ok(1)[OF a(1)], of n_ubatch] S(1) used fu I(5,6,9) dims(3)
    by auto
  have out: "al_out_ids a' = [length toks - 1]"
  proof -
    have "[0..<length toks] = [0..<length toks - 1] @ [length toks - 1]"
      using toks(1) by (metis Suc_pred' length_greater_0_conv upt_Suc_append zero_le)
    then show ?thesis unfolding O(2) logits(1) using toks(1) by (auto simp: nth_list_update)
  qed
  have "lb_seqs (al_batch a) i = [0] \<and> 0 \<le> lb_pos_at (al_batch a) i" if "i \<in> unused a" for i
    using that row[of i] q un by (auto simp: batch_row_def)
  then have good: "\<forall>u \<in> set us. ub_good kv u"
    using S(4) piece_good[of a] I(5,6) dims kv(4) by auto
  have good': "\<forall>u \<in> set us. ub_good kv u \<and> length (ub_output u) = ub_n_tokens u \<and> ub_n_tokens u \<le> length (ub_pos u)"
    using good S(4) I(5,6) dims(3) by (auto simp: piece_of_def ubatch_add_def Let_def)
  have tot: "sum_list (map ub_n_tokens us) = length toks"
    using arg_cong[OF O(1), of length] by (simp add: sum_rows)
  then have ne: "us \<noteq> []" using toks(1) by auto
  from kv_prepare_plain[OF kv(1-3) good this]
  obtain kv' sis where P: "kv_prepare us kv = Inr (kv', sis)" "kv_same kv kv'"
    "if length toks \<le> card (kv_free kv) then plain_slots (kv_free kv) us sis else sis = []"
    unfolding tot by blast
  have init: "kv_init_batch n_ubatch a kv = (if sis = [] then Inr (kv', a', STATUS_FAILED_PREPARE, [], [])
      else Inr (kv', a', STATUS_SUCCESS, sis, us))"
    using S(1-3) P(1) kv(2) bn by (simp add: kv_init_batch_def reset)
  have some: "sis \<noteq> []" if "length toks \<le> card (kv_free kv)"
    using that P(3) plain_slots_length ne by fastforce
  have outs: "al_n_outputs a = 1"
  proof -
    have "length (al_out_ids a') = al_n_outputs a"
      using simple.split_all_complete[OF al_init_simple_ok(1)[OF a(1)], of n_ubatch]
        split_all_summary(3)[OF a(1)] dims(3) S(1) by auto
    then show ?thesis using out by simp
  qed
  have rows: "\<forall>i < length toks. batch_row (al_batch a) i =
      (Some (toks ! i), q + int i, [0], of_bool (i = length toks - 1))" using row by blast
  show ?thesis
  proof (cases "length toks \<le> card (kv_free kv)")
    case True
    then have "kv_init_batch n_ubatch a kv = Inr (kv', a', STATUS_SUCCESS, sis, us)"
      "plain_slots (kv_free kv) us sis" using init some P(3) by auto
    then show ?thesis using True a(1) P(2) O(1,3) out ne good' q bn rows outs
      by (intro exI[of _ a] exI[of _ a'] exI[of _ kv'] exI[of _ STATUS_SUCCESS] exI[of _ sis] exI[of _ us]) simp
  next
    case False
    then have "kv_init_batch n_ubatch a kv = Inr (kv', a', STATUS_FAILED_PREPARE, [], [])" using init P(3) by auto
    then show ?thesis using False a(1) P(2) O(3) q bn rows outs
      by (intro exI[of _ a] exI[of _ a'] exI[of _ kv'] exI[of _ STATUS_FAILED_PREPARE] exI[of _ "[]"]) simp
  qed
qed



section \<open>The attended part covers the cache\<close>

lemma and_not_mask_word: "and w (not (mask k)) = push_bit k (drop_bit k (w :: 32 word))"
  by (rule bit_word_eqI) (auto simp: bit_simps)

lemma unat_push_drop: "unat (push_bit k (drop_bit k (w :: 32 word))) = push_bit k (drop_bit k (unat w))"
proof (rule bit_eqI)
  fix n
  have "n < 32" if "bit w n" using that bit_imp_le_length[of w n] by simp
  then show "bit (unat (push_bit k (drop_bit k w))) n = bit (push_bit k (drop_bit k (unat w))) n"
    by (auto simp: bit_simps)
qed

lemma ggml_pad_eq:
  assumes "x + 2 ^ k \<le> 2 ^ 32"
  shows "ggml_pad x (2 ^ k) = (x + 2 ^ k - 1) div 2 ^ k * 2 ^ k"
proof -
  have m: "(word_of_nat (2 ^ k) - 1 :: 32 word) = mask k" by (simp add: mask_eq_exp_minus_1)
  have w: "(word_of_nat (x + 2 ^ k) - 1 :: 32 word) = word_of_nat (x + 2 ^ k - 1)"
    by (simp add: of_nat_diff Suc_leI)
  have "x + 2 ^ k - 1 < (2::nat) ^ 32" using assms zero_less_power[of "2::nat" k] by linarith
  then have "unat (word_of_nat (x + 2 ^ k - 1) :: 32 word) = x + 2 ^ k - 1"
    by (simp add: unat_of_nat take_bit_eq_mod)
  then show ?thesis
    unfolding ggml_pad_def m w and_not_mask_word unat_push_drop
    by (simp add: push_bit_eq_mult drop_bit_eq_div)
qed

lemma ggml_pad_ge:
  assumes "x + 2 ^ k \<le> 2 ^ 32"
  shows "x \<le> ggml_pad x (2 ^ k)"
proof -
  let ?m = "x + 2 ^ k - 1"
  have "?m mod 2 ^ k < 2 ^ k" by simp
  then have "x \<le> ?m - ?m mod 2 ^ k" by linarith
  then show ?thesis unfolding ggml_pad_eq[OF assms] by (simp add: minus_mod_eq_div_mult)
qed

lemma fold_max_ge:
  fixes f :: "'a \<Rightarrow> nat"
  shows "r \<le> fold (\<lambda>x. max (f x)) xs r" "x \<in> set xs \<Longrightarrow> f x \<le> fold (\<lambda>x. max (f x)) xs r"
proof (induction xs arbitrary: r)
  case (Cons y ys)
  { case 1
    show ?case using Cons(1)[of "max (f y) r"] by simp }
  { case 2
    show ?case using Cons(1)[of "max (f y) r"] Cons(2)[of "max (f y) r"] 2 by auto }
qed auto

lemma fold_max_le: "r \<le> b \<Longrightarrow> (\<And>x. x \<in> set xs \<Longrightarrow> f x \<le> b) \<Longrightarrow> fold (\<lambda>x. max (f x :: nat)) xs r \<le> b"
  by (induction xs arbitrary: r) auto

text \<open>Where the padding is a power of two, the attended part \<^verbatim>\<open>n_kv\<close> reaches past every used
  cell of every stream of the slot and never past the cache.\<close>

theorem kv_get_n_kv_covers:
  assumes "kv_inv kv" "kv_n_pad kv = 2 ^ k" "\<forall>st \<in> set (si_strm si). st < kv_n_stream kv"
    "kv_width kv + max (2 ^ k) 256 \<le> 2 ^ 32"
  shows "kv_get_n_kv si kv \<le> kv_width kv \<and>
    (\<forall>st \<in> set (si_strm si). \<forall>i. cell_at (kv_v_cells kv ! st) i \<noteq> None \<longrightarrow> i < kv_get_n_kv si kv)"
proof -
  let ?f = "\<lambda>s. let c = kv_v_cells kv ! (si_strm si ! s)
    in min (cells_size c) (max (max (kv_n_pad kv) 256) (ggml_pad (cells_used_max_p1 c) (max (kv_n_pad kv) 256)))"
  have nk: "kv_get_n_kv si kv = fold (\<lambda>s. max (?f s)) [0..<si_n_stream si] 0"
    by (simp add: kv_get_n_kv_def Let_def)
  have sz: "cells_size (kv_v_cells kv ! (si_strm si ! s)) = kv_width kv" if "s < si_n_stream si" for s
    using that assms(3) kv_invD(8)[OF assms(1)] by (auto simp: si_n_stream_def)
  obtain j where j: "max (kv_n_pad kv) 256 = 2 ^ j"
  proof (cases "2 ^ k \<le> (256::nat)")
    case True
    then show ?thesis using that[of 8] assms(2) by simp
  next
    case False
    then show ?thesis using that[of k] assms(2) by simp
  qed
  have "i < ?f s" if s: "s < si_n_stream si" and i: "cell_at (kv_v_cells kv ! (si_strm si ! s)) i \<noteq> None" for s i
  proof -
    let ?c = "kv_v_cells kv ! (si_strm si ! s)"
    have inv: "cells_inv ?c" using s assms(3) kv_invD(6)[OF assms(1)] by (auto simp: si_n_stream_def)
    have u: "i \<in> kc_used ?c" "i < cells_size ?c" "finite (kc_used ?c)" "kc_used ?c \<subseteq> {..<cells_size ?c}"
      using i cells_invD(5)[OF inv] by (auto simp: cell_at_def split: if_splits)
    have ne: "kc_used ?c \<noteq> {}" using u(1) by auto
    have "i \<le> Max (kc_used ?c)" by (rule Max_ge[OF u(3,1)])
    moreover have "Max (kc_used ?c) < cells_size ?c" using Max_in[OF u(3) ne] u(4) by blast
    ultimately have m: "i < cells_used_max_p1 ?c" "cells_used_max_p1 ?c \<le> cells_size ?c"
      using ne by (simp_all add: cells_used_max_p1_def)
    have "cells_used_max_p1 ?c + 2 ^ j \<le> 2 ^ 32" using m(2) sz[OF s] assms(2,4) j by simp
    from ggml_pad_ge[OF this] show ?thesis using m(1) u(2) by (simp add: Let_def j)
  qed
  moreover have "?f s \<le> kv_get_n_kv si kv" if "s < si_n_stream si" for s
    unfolding nk by (rule fold_max_ge(2)) (use that in simp)
  moreover have le: "kv_get_n_kv si kv \<le> kv_width kv"
    unfolding nk by (rule fold_max_le) (use sz in \<open>auto simp: Let_def\<close>)
  ultimately have "i < kv_get_n_kv si kv" if "s < si_n_stream si" "cell_at (kv_v_cells kv ! (si_strm si ! s)) i \<noteq> None" for s i
    using that less_le_trans by blast
  then show ?thesis using le by (fastforce simp: si_n_stream_def in_set_conv_nth)
qed

section \<open>Reachable caches\<close>

text \<open>One call on a cache: a sequence operation, an applied K-shift, or a ubatch placed in a slot
  that \<^verbatim>\<open>find_slot\<close> returned. The side conditions are the assertions the code relies on.\<close>

inductive kv_step :: "kv_cache \<Rightarrow> kv_cache \<Rightarrow> bool" where
  step_clear: "kv_step kv (kv_clear kv)"
| step_rm: "kv_seq_rm s p0 p1 kv = Inr (kv', b) \<Longrightarrow> kv_step kv kv'"
| step_keep: "kv_seq_keep s kv = Inr kv' \<Longrightarrow> kv_step kv kv'"
| step_add: "kv_seq_add s p0 p1 d kv = Inr kv' \<Longrightarrow> kv_step kv kv'"
| step_div: "kv_seq_div s p0 p1 d kv = Inr kv' \<Longrightarrow> 0 < d \<Longrightarrow> kv_step kv kv'"
| step_cp: "kv_seq_cp s s' p0 p1 kv = Inr kv' \<Longrightarrow> kv_stream kv (nat s) = kv_stream kv (nat s') \<Longrightarrow>
    \<forall>i. seq_cp_pre (nat s) (nat s') (norm_p0 p0) (norm_p1 p1) (cell_at (kv_v_cells kv ! kv_stream kv (nat s)) i) \<Longrightarrow>
    kv_step kv kv'"
| step_update: "kv_update rope ok do_shift kv = Inr (kv', b) \<Longrightarrow> kv_step kv kv'"
| step_ubatch: "find_slot ub cont kv = Inr (Some si) \<Longrightarrow> slot_fits ub kv si \<Longrightarrow> ub_ok ub \<Longrightarrow>
    apply_ubatch si ub kv = Inr kv' \<Longrightarrow> kv_step kv kv'"


lemma kv_seq_keep_inv:
  assumes "kv_inv kv" "kv_seq_keep s kv = Inr kv'"
  shows "kv_inv kv'"
proof -
  have ok: "kv_seq_ok kv s" and kv': "kv' = kv_sweep_stream (seq_keep_body (nat s)) (kv_stream kv (nat s)) kv"
    using assms(2) by (auto simp: kv_seq_keep_def kv_stream_def split: if_splits)
  have c: "cells_inv (kv_v_cells kv ! kv_stream kv (nat s))" by (rule kv_invD(6)[OF assms(1) kv_seq_okD(1)[OF assms(1) ok]])
  show ?thesis
    unfolding kv' using seq_keep_loop.sweep_inv[OF TrueI c] seq_keep_loop.sweep_size[OF TrueI c]
    by (intro kv_sweep_stream_inv[OF assms(1) kv_seq_okD(1)[OF assms(1) ok]]) auto
qed

lemma kv_seq_add_inv:
  assumes "kv_inv kv" "kv_seq_add s p0 p1 d kv = Inr kv'"
  shows "kv_inv kv'"
proof (cases "kv' = kv")
  case False
  let ?r = "sweep (seq_add_body (nat s) (norm_p0 p0) (norm_p1 p1) d) (kv_v_cells kv ! kv_stream kv (nat s))"
  have ok: "kv_seq_ok kv s" and kv': "kv' = kv_set_stream (kv_stream kv (nat s)) (fst ?r)
      (if snd ?r \<noteq> cells_size (fst ?r) then snd ?r else 0) kv"
    using assms(2) False by (auto simp: kv_seq_add_def kv_stream_def Let_def split: if_splits)
  note st = kv_seq_okD(1)[OF assms(1) ok]
  have c: "cells_inv (kv_v_cells kv ! kv_stream kv (nat s))" by (rule kv_invD(6)[OF assms(1) st])
  show ?thesis
    unfolding kv' using seq_add_loop.sweep_inv[OF TrueI c TrueI] seq_add_loop.sweep_size[OF TrueI c TrueI]
      seq_add_loop.sweep_head[OF TrueI c TrueI, of "nat s" "norm_p0 p0" "norm_p1 p1" d]
    by (intro kv_set_stream_inv[OF assms(1) st]) auto
qed (use assms in simp)

lemma kv_seq_div_inv:
  assumes "kv_inv kv" "kv_seq_div s p0 p1 d kv = Inr kv'" "0 < d"
  shows "kv_inv kv'"
proof (cases "kv' = kv")
  case False
  let ?c = "fst (sweep (seq_div_body (nat s) (norm_p0 p0) (norm_p1 p1) d) (kv_v_cells kv ! kv_stream kv (nat s)))"
  have ok: "kv_seq_ok kv s" and kv': "kv' = kv\<lparr>kv_v_cells := (kv_v_cells kv)[kv_stream kv (nat s) := ?c]\<rparr>"
    using assms(2) False by (auto simp: kv_seq_div_def kv_stream_def Let_def split: if_splits)
  note st = kv_seq_okD(1)[OF assms(1) ok]
  have c: "cells_inv (kv_v_cells kv ! kv_stream kv (nat s))" by (rule kv_invD(6)[OF assms(1) st])
  show ?thesis
    unfolding kv' using seq_div_loop.sweep_inv[OF assms(3) c TrueI] seq_div_loop.sweep_size[OF assms(3) c TrueI]
    by (intro kv_set_cells_inv[OF assms(1) st]) auto
qed (use assms in simp)

lemma kv_seq_cp_inv:
  assumes "kv_inv kv" "kv_seq_cp s s' p0 p1 kv = Inr kv'" "kv_stream kv (nat s) = kv_stream kv (nat s')"
    "\<And>i. seq_cp_pre (nat s) (nat s') (norm_p0 p0) (norm_p1 p1) (cell_at (kv_v_cells kv ! kv_stream kv (nat s)) i)"
  shows "kv_inv kv'"
proof (cases "kv' = kv")
  case False
  let ?c = "fst (sweep (seq_cp_body (nat s) (nat s') (norm_p0 p0) (norm_p1 p1)) (kv_v_cells kv ! kv_stream kv (nat s)))"
  have ok: "kv_seq_ok kv s" "kv_seq_ok kv s'" and kv': "kv' = kv\<lparr>kv_v_cells := (kv_v_cells kv)[kv_stream kv (nat s) := ?c]\<rparr>"
    using assms(2,3) False by (auto simp: kv_seq_cp_def kv_stream_def Let_def split: if_splits)
  note st = kv_seq_okD(1)[OF assms(1) ok(1)] and dst = kv_seq_okD(2)[OF assms(1) ok(2)]
  have c: "cells_inv (kv_v_cells kv ! kv_stream kv (nat s))" by (rule kv_invD(6)[OF assms(1) st])
  show ?thesis
    unfolding kv' using seq_cp_loop.sweep_inv[OF dst c assms(4)] seq_cp_loop.sweep_size[OF dst c assms(4)]
    by (intro kv_set_cells_inv[OF assms(1) st]) auto
qed (use assms in simp)

lemma kv_clear_inv:
  assumes "kv_inv kv"
  shows "kv_inv (kv_clear kv)"
proof -
  have "kv_inv (kv_clear kv) \<and> kv_n_stream (kv_clear kv) = kv_n_stream kv"
    unfolding kv_clear_def
  proof (rule fold_invariant_simple[where P = "\<lambda>x. kv_inv x \<and> kv_n_stream x = kv_n_stream kv"])
    fix i x assume "i \<in> set [0..<kv_n_stream kv]" "kv_inv x \<and> kv_n_stream x = kv_n_stream kv"
    then show "kv_inv (kv_set_stream i (cells_reset (kv_v_cells x ! i)) 0 x) \<and>
        kv_n_stream (kv_set_stream i (cells_reset (kv_v_cells x ! i)) 0 x) = kv_n_stream kv"
      by (auto intro!: kv_set_stream_inv cells_reset_inv)
  qed (use assms in simp)
  then show ?thesis by simp
qed

lemma kv_update_inv:
  assumes "kv_inv kv" "kv_update rope ok do_shift kv = Inr (kv', b)"
  shows "kv_inv kv'"
proof -
  have sz: "cells_size (cells_reset_shift c) = cells_size c" for c by (simp add: cells_reset_shift_def cells_size_def)
  have w: "kv_width (kv\<lparr>kv_v_cells := map cells_reset_shift (kv_v_cells kv)\<rparr>) = kv_width kv"
    using kv_invD(1,2)[OF assms(1)] by (simp add: kv_width_def sz)
  have "kv_inv (kv\<lparr>kv_v_cells := map cells_reset_shift (kv_v_cells kv)\<rparr>)"
    unfolding kv_inv_def w using kv_invD[OF assms(1)] by (auto simp: sz cells_reset_shift_inv in_set_conv_nth kv_stream_def)
  then show ?thesis using assms by (auto simp: kv_update_def split: if_splits)
qed

lemma kv_step_inv: "kv_step kv kv' \<Longrightarrow> kv_inv kv \<Longrightarrow> kv_inv kv'"
proof (induction rule: kv_step.induct)
  case step_clear
  then show ?case by (rule kv_clear_inv)
next
  case (step_rm s p0 p1 kv kv' b)
  then show ?case using kv_keptD(1) kv_seq_rm_kept by blast
next
  case step_cp
  then show ?case by (meson kv_seq_cp_inv)
next
  case step_ubatch
  then show ?case using kv_keptD(1) apply_ubatch_kept by blast
qed (auto intro: kv_seq_keep_inv kv_seq_add_inv kv_seq_div_inv kv_update_inv)


section \<open>Examples\<close>

definition ex_ub :: ubatch where
  "ex_ub = \<lparr>ub_equal_seqs = False, ub_n_tokens = 1, ub_n_seq_tokens = 1, ub_n_seqs = 1, ub_n_seqs_unq = 1,
     ub_n_pos = 1, ub_token = Some [7], ub_embd = None, ub_pos = [2], ub_n_seq_id = [1], ub_seq_id = [[0]],
     ub_seq_id_unq = [0], ub_seq_idx = [0], ub_output = [1]\<rparr>"

lemma ex_ub_fields [simp]: "ub_n_tokens ex_ub = 1" "ub_pos ex_ub = [2]" "ub_seq_id ex_ub = [[0]]" "ub_seq_id_unq ex_ub = [0]"
  by (simp_all add: ex_ub_def)

definition ex_slot :: slot_info where
  "ex_slot = \<lparr>si_s0 = 0, si_s1 = 0, si_strm = [0], si_idxs = [[2]]\<rparr>"

lemma ex_kv_more [simp]: "kv_swa_type (ex_kv u) = SWA_NONE" "kv_n_pad (ex_kv u) = 1"
  "kv_seq_to_stream (ex_kv u) \<noteq> []" "kv_width (ex_kv u) = 4"
  by (auto simp: ex_kv_def kv_new_def LLAMA_MAX_SEQ_def kv_width_def ex_cells_fields)

lemma ex_kv_free: "kv_free (ex_kv u) = {2, 3}"
  by (auto simp: kv_free_def cell_at_def ex_cells_fields numeral_eq_Suc less_Suc_eq)

lemma ex_ub_good: "ub_ok ex_ub" "ub_good (ex_kv u) ex_ub" "plain_slot ex_ub (ex_kv u) ex_slot [2]"
  "slot_fits ex_ub (ex_kv u) ex_slot"
  by (auto simp: ub_ok_def ub_good_def plain_slot_def slot_fits_def ex_slot_def LLAMA_MAX_SEQ_def
      ex_cells_fields cell_at_def numeral_eq_Suc si_n_stream_def si_size_def)

lemma find_slot_unified_witness:
  "kv_inv (ex_kv True) \<and> (\<exists>si. find_slot ex_ub False (ex_kv True) = Inr (Some si) \<and> si_strm si = [0])"
proof -
  have "\<not> card {i. i < cells_size (kv_v_cells (ex_kv True) ! 0) \<and>
      slot_can_use (kv_n_swa (ex_kv True)) SWA_NONE (kv_v_cells (ex_kv True) ! 0) i} < 1"
    unfolding kv_free_usable ex_kv_free by simp
  moreover obtain r where "find_slot ex_ub False (ex_kv True) = Inr r"
    "r = None \<longleftrightarrow> card {i. i < cells_size (kv_v_cells (ex_kv True) ! 0) \<and>
      slot_can_use (kv_n_swa (ex_kv True)) SWA_NONE (kv_v_cells (ex_kv True) ! 0) i} < 1"
    "\<forall>si. r = Some si \<longrightarrow> si_strm si = [0]"
    using find_slot_unified[OF ex_kv_inv, of True ex_ub] unfolding ex_kv_more(1) ex_ub_fields by force
  ultimately show ?thesis by (cases r) auto
qed

lemma find_slot_contiguous_witness:
  "kv_inv (ex_kv True) \<and> (\<exists>r. find_slot_stream True 2 (ex_kv True) 0 = Inr r)"
  using find_slot_contiguous[of "ex_kv True" 0 2] by auto

lemma apply_ubatch_inv_witness:
  "\<exists>kv'. apply_ubatch ex_slot ex_ub (ex_kv True) = Inr kv' \<and> kv_inv kv' \<and> kv_width kv' = 4"
proof -
  obtain kv' where "apply_ubatch ex_slot ex_ub (ex_kv True) = Inr kv'"
    using apply_ubatch_plain[OF ex_kv_inv ex_ub_good(1,3)] by blast
  then show ?thesis using apply_ubatch_inv[OF ex_kv_inv ex_ub_good(1,4)] by auto
qed

lemma apply_ubatch_positions_witness:
  "\<exists>kv'. apply_ubatch ex_slot ex_ub (ex_kv True) = Inr kv' \<and> kv_positions kv' 0 = {0, 1, 2}"
proof -
  have "{ub_pos ex_ub ! i | i. i < ub_n_tokens ex_ub \<and> 0 \<in> set (ub_seq_id ex_ub ! i)} = {2}" by auto
  moreover have "kv_positions (ex_kv True) 0 = {0, 1}" by (simp add: LLAMA_MAX_SEQ_def)
  moreover have "0 < length (kv_seq_to_stream (ex_kv True))" by simp
  ultimately show ?thesis
    using apply_ubatch_positions[OF ex_kv_inv _ ex_ub_good(1,3), of True] by fastforce
qed



lemma kv_get_n_kv_covers_witness:
  "kv_get_n_kv ex_slot (ex_kv True) \<le> 4 \<and> 1 < kv_get_n_kv ex_slot (ex_kv True)"
proof -
  have "cell_at (kv_v_cells (ex_kv True) ! 0) 1 \<noteq> None" by (simp add: cell_at_def ex_cells_fields)
  then show ?thesis
    using kv_get_n_kv_covers[OF ex_kv_inv, of True 0 ex_slot] by (simp add: ex_slot_def)
qed


end
