(* ===== verification/Output_Rows.thy ===== *)
theory Output_Rows
  imports Prelude "HOL-Library.Multiset"
begin

text \<open>
  The rows of the output buffer: \<^verbatim>\<open>llama_context::decode\<close> numbers the outputs of a batch in the order
  its ubatches produced them, sorts them by batch index with a selection sort that remembers its swaps,
  and \<^verbatim>\<open>output_reorder\<close> applies the swaps to the rows when they are read. \<open>out_ids ! k\<close> is the batch
  index of the token whose data is in row \<open>k\<close>; \<open>output_ids ! i\<close> is the row of batch index \<open>i\<close>, or
  \<open>-1\<close>.
\<close>

section \<open>Operations\<close>

definition list_swap :: "nat \<Rightarrow> nat \<Rightarrow> 'a list \<Rightarrow> 'a list" where
  "list_swap i j xs = xs[i := xs ! j, j := xs ! i]"

definition sel_min :: "nat list \<Rightarrow> nat \<Rightarrow> nat" where
  "sel_min ids i = fold (\<lambda>j j_min. if ids ! j < ids ! j_min then j else j_min) [i + 1..<length ids] i"

definition sel_step :: "nat \<Rightarrow> nat list \<times> (nat \<times> nat) list \<Rightarrow> nat list \<times> (nat \<times> nat) list" where
  "sel_step i r =
     (let j_min = sel_min (fst r) i
      in if j_min = i then r else (list_swap i j_min (fst r), snd r @ [(i, j_min)]))"

definition sort_outputs :: "nat list \<Rightarrow> nat list \<times> (nat \<times> nat) list" where
  "sort_outputs out_ids = fold sel_step [0..<length out_ids - 1] (out_ids, [])"

definition assign_rows :: "nat list \<Rightarrow> int list \<Rightarrow> int list" where
  "assign_rows out_ids output_ids = fold (\<lambda>i ids. ids[out_ids ! i := int i]) [0..<length out_ids] output_ids"

definition map_outputs :: "nat list \<Rightarrow> int list \<Rightarrow> nat list \<times> int list \<times> (nat \<times> nat) list" where
  "map_outputs out_ids output_ids =
     (let ids = assign_rows out_ids output_ids;
          sorted_output = list_all (\<lambda>i. out_ids ! i = i) [0..<length out_ids]
      in if \<not> sorted_output \<and> length out_ids > 1
         then case sort_outputs out_ids of (out_ids', swaps) \<Rightarrow>
           (out_ids', assign_rows out_ids' (replicate (length output_ids) (- 1)), swaps)
         else (out_ids, ids, []))"

definition reorder_rows :: "(nat \<times> nat) list \<Rightarrow> 'r list \<Rightarrow> 'r list" where
  "reorder_rows swaps rows = fold (\<lambda>s. list_swap (fst s) (snd s)) swaps rows"

section \<open>Swaps\<close>

lemma length_list_swap [simp]: "length (list_swap i j xs) = length xs"
  by (simp add: list_swap_def)

lemma nth_list_swap:
  "i < length xs \<Longrightarrow> j < length xs \<Longrightarrow> k < length xs \<Longrightarrow>
   list_swap i j xs ! k = (if k = j then xs ! i else if k = i then xs ! j else xs ! k)"
  by (auto simp: list_swap_def nth_list_update)

lemma mset_list_swap [simp]: "i < length xs \<Longrightarrow> j < length xs \<Longrightarrow> mset (list_swap i j xs) = mset xs"
  by (simp add: list_swap_def mset_swap)

lemma zip_list_swap:
  assumes "i < length xs" "j < length xs" "length xs \<le> length ys"
  shows "zip (list_swap i j xs) (list_swap i j ys) = list_swap i j (zip xs ys)"
  using assms by (auto intro!: nth_equalityI simp: nth_list_swap)

lemma length_reorder_rows [simp]: "length (reorder_rows swaps rows) = length rows"
  unfolding reorder_rows_def by (rule fold_invariant_simple[where P = "\<lambda>xs. length xs = length rows"]) auto

lemma reorder_rows_snoc [simp]: "reorder_rows (swaps @ [s]) rows = list_swap (fst s) (snd s) (reorder_rows swaps rows)"
  by (simp add: reorder_rows_def)

section \<open>The selection sort\<close>

lemma sel_min_correct:
  assumes "i < length ids"
  shows "i \<le> sel_min ids i \<and> sel_min ids i < length ids \<and> (\<forall>b. i \<le> b \<longrightarrow> b < length ids \<longrightarrow> ids ! sel_min ids i \<le> ids ! b)"
proof -
  let ?f = "\<lambda>j j_min. if ids ! j < ids ! j_min then j else j_min"
  have "n \<le> length ids \<Longrightarrow> i \<le> fold ?f [i + 1..<n] i \<and> fold ?f [i + 1..<n] i < length ids \<and>
    (\<forall>b. i \<le> b \<longrightarrow> b < n \<longrightarrow> ids ! fold ?f [i + 1..<n] i \<le> ids ! b)" if "i < n" for n
    using that
  proof (induction n)
    case (Suc n)
    show ?case
    proof (cases "i = n")
      case True
      then show ?thesis using assms by (auto simp: less_Suc_eq)
    next
      case False
      then show ?thesis using Suc by (auto simp: less_Suc_eq intro: less_imp_le le_trans)
    qed
  qed simp
  from this[OF assms] show ?thesis by (simp add: sel_min_def)
qed

lemma sel_step_correct:
  assumes "i < length ids" "length ids \<le> length rows"
    "\<forall>a < i. \<forall>b. a < b \<longrightarrow> b < length ids \<longrightarrow> ids ! a \<le> ids ! b"
    and r: "sel_step i (ids, swaps) = (ids', swaps')"
  shows "length ids' = length ids"
    "mset (zip ids' (reorder_rows swaps' rows)) = mset (zip ids (reorder_rows swaps rows))"
    "\<forall>a < Suc i. \<forall>b. a < b \<longrightarrow> b < length ids \<longrightarrow> ids' ! a \<le> ids' ! b"
proof -
  let ?j = "sel_min ids i"
  note M = sel_min_correct[OF assms(1)]
  have e: "ids' = list_swap i ?j ids \<and> (swaps' = swaps @ [(i, ?j)] \<or> swaps' = swaps \<and> ?j = i)"
    using r assms(1) by (auto simp: sel_step_def Let_def list_swap_def split: if_splits)
  then show "length ids' = length ids" by simp
  have j: "?j < length ids" using M by simp
  have z: "zip (list_swap i ?j ids) (list_swap i ?j (reorder_rows swaps rows)) =
      list_swap i ?j (zip ids (reorder_rows swaps rows))"
    by (rule zip_list_swap) (use assms j in auto)
  have same: "?j = i \<Longrightarrow> list_swap i ?j ids = ids" by (simp add: list_swap_def)
  show "mset (zip ids' (reorder_rows swaps' rows)) = mset (zip ids (reorder_rows swaps rows))"
    using e same assms(1,2) j by (auto simp: z)
  have at: "list_swap i ?j ids ! k = (if k = ?j then ids ! i else if k = i then ids ! ?j else ids ! k)" if "k < length ids" for k
    using nth_list_swap[OF assms(1) j that] .
  show "\<forall>a < Suc i. \<forall>b. a < b \<longrightarrow> b < length ids \<longrightarrow> ids' ! a \<le> ids' ! b"
  proof (intro allI impI)
    fix a b assume ab: "a < Suc i" "a < b" "b < length ids"
    show "ids' ! a \<le> ids' ! b"
    proof (cases "a = i")
      case True
      then show ?thesis using e M ab at[of a] at[of b] by auto
    next
      case False
      then have "a < i" "a \<noteq> ?j" using ab M by auto
      then show ?thesis using e ab at[of a] at[of b] assms(1,3) j M by auto
    qed
  qed
qed

lemma sort_outputs_correct:
  assumes "length ids \<le> length rows" "sort_outputs ids = (ids', swaps)"
  shows "sorted ids'" "mset (zip ids' (reorder_rows swaps rows)) = mset (zip ids rows)" "length ids' = length ids"
proof -
  let ?P = "\<lambda>i r. length (fst r) = length ids \<and>
    mset (zip (fst r) (reorder_rows (snd r) rows)) = mset (zip ids rows) \<and>
    (\<forall>a < i. \<forall>b. a < b \<longrightarrow> b < length ids \<longrightarrow> fst r ! a \<le> fst r ! b)"
  have "?P (length ids - 1) (sort_outputs ids)"
    unfolding sort_outputs_def
  proof (rule fold_upt_invariant[where P = ?P])
    show "?P 0 (ids, [])" by (simp add: reorder_rows_def)
    fix i r assume i: "i < length ids - 1" and P: "?P i r"
    obtain x s where r: "r = (x, s)" by fastforce
    obtain x' s' where r': "sel_step i (x, s) = (x', s')" by fastforce
    show "?P (Suc i) (sel_step i r)"
      using sel_step_correct[OF _ _ _ r', of rows] i P assms(1) by (auto simp: r r')
  qed
  then show l: "length ids' = length ids" and "mset (zip ids' (reorder_rows swaps rows)) = mset (zip ids rows)"
    using assms(2) by auto
  have "ids' ! a \<le> ids' ! b" if "a < b" "b < length ids'" for a b
    using \<open>?P (length ids - 1) (sort_outputs ids)\<close> assms(2) that l by auto
  then show "sorted ids'" by (simp add: sorted_wrt_iff_nth_less)
qed

section \<open>Numbering\<close>

lemma length_assign_rows [simp]: "length (assign_rows ids xs) = length xs"
  unfolding assign_rows_def by (rule fold_invariant_simple[where P = "\<lambda>ys. length ys = length xs"]) auto

lemma assign_rows_correct:
  assumes "distinct ids" "\<forall>i \<in> set ids. i < length xs"
  shows "k < length ids \<Longrightarrow> assign_rows ids xs ! (ids ! k) = int k"
    "i \<notin> set ids \<Longrightarrow> assign_rows ids xs ! i = xs ! i"
proof -
  let ?P = "\<lambda>n ys. length ys = length xs \<and> (\<forall>k < n. ys ! (ids ! k) = int k) \<and> (\<forall>i. i \<notin> set ids \<longrightarrow> ys ! i = xs ! i)"
  have "?P (length ids) (assign_rows ids xs)"
    unfolding assign_rows_def
  proof (rule fold_upt_invariant[where P = ?P])
    fix i ys assume i: "i < length ids" and P: "?P i ys"
    have "ids ! i \<noteq> ids ! k" if "k < i" for k using assms(1) i that by (simp add: nth_eq_iff_index_eq)
    then show "?P (Suc i) (ys[ids ! i := int i])" using P i assms(2) by (auto simp: less_Suc_eq nth_list_update)
  qed simp
  then show "k < length ids \<Longrightarrow> assign_rows ids xs ! (ids ! k) = int k" "i \<notin> set ids \<Longrightarrow> assign_rows ids xs ! i = xs ! i"
    by auto
qed

lemma map_outputs_cases:
  assumes "map_outputs ids xs = (ids', oids, swaps)" "length ids \<le> length rows"
  shows "mset (zip ids' (reorder_rows swaps rows)) = mset (zip ids rows)" "length ids' = length ids" "sorted ids'"
    "oids = assign_rows ids' xs \<or> oids = assign_rows ids' (replicate (length xs) (- 1))"
proof -
  consider (sort) "sort_outputs ids = (ids', swaps)" "oids = assign_rows ids' (replicate (length xs) (- 1))"
    | (id) "ids' = ids" "swaps = []" "oids = assign_rows ids xs"
        "list_all (\<lambda>i. ids ! i = i) [0..<length ids] \<or> length ids \<le> 1"
    using assms(1) by (auto simp: map_outputs_def Let_def split: if_splits prod.splits)
  then have "mset (zip ids' (reorder_rows swaps rows)) = mset (zip ids rows) \<and> length ids' = length ids \<and> sorted ids' \<and>
    (oids = assign_rows ids' xs \<or> oids = assign_rows ids' (replicate (length xs) (- 1)))"
  proof cases
    case sort
    then show ?thesis using sort_outputs_correct[OF assms(2)] by simp
  next
    case id
    then show ?thesis by (auto simp: reorder_rows_def sorted_wrt_iff_nth_less list_all_iff)
  qed
  then show "mset (zip ids' (reorder_rows swaps rows)) = mset (zip ids rows)" "length ids' = length ids" "sorted ids'"
    "oids = assign_rows ids' xs \<or> oids = assign_rows ids' (replicate (length xs) (- 1))"
    by blast+
qed

lemma mset_zip_set:
  assumes "mset (zip xs ys) = mset (zip as bs)" "k < length as" "length as \<le> length bs"
  obtains r where "r < length xs" "r < length ys" "xs ! r = as ! k" "ys ! r = bs ! k"
proof -
  have "(as ! k, bs ! k) \<in> set (zip as bs)" using assms(2,3) by (auto simp: set_zip)
  then have "(as ! k, bs ! k) \<in> set (zip xs ys)" using assms(1) by (metis set_mset_mset)
  then show ?thesis using that by (auto simp: set_zip)
qed

lemma mset_zip_fst:
  "mset (zip xs ys) = mset (zip as bs) \<Longrightarrow> length xs \<le> length ys \<Longrightarrow> length as \<le> length bs \<Longrightarrow> mset xs = mset as"
  by (metis (no_types, lifting) map_fst_zip_take min.absorb1 mset_map take_all order.refl)

lemma map_outputs_rows:
  assumes "map_outputs ids xs = (ids', oids, swaps)" "length ids \<le> length rows" "distinct ids" "\<forall>i \<in> set ids. i < length xs"
  shows "k < length ids \<Longrightarrow> \<exists>r < length ids. oids ! (ids ! k) = int r \<and> ids' ! r = ids ! k \<and> reorder_rows swaps rows ! r = rows ! k"
    "\<lbrakk>i \<notin> set ids; i < length xs; xs ! i = - 1\<rbrakk> \<Longrightarrow> oids ! i = - 1" "sorted ids'" "mset ids' = mset ids"
proof -
  note M = map_outputs_cases[OF assms(1,2)]
  show m: "mset ids' = mset ids" by (rule mset_zip_fst[OF M(1)]) (use M(2) assms(2) in auto)
  have d: "distinct ids'" "set ids' = set ids" using m assms(3) mset_eq_setD[OF m] by (auto dest: mset_eq_imp_distinct_iff)
  have in_xs: "\<forall>i \<in> set ids'. i < length xs" "\<forall>i \<in> set ids'. i < length (replicate (length xs) (- 1 :: int))"
    using assms(4) d(2) by auto
  show "\<exists>r < length ids. oids ! (ids ! k) = int r \<and> ids' ! r = ids ! k \<and> reorder_rows swaps rows ! r = rows ! k"
    if k: "k < length ids"
  proof -
    obtain r where r: "r < length ids'" "ids' ! r = ids ! k" "reorder_rows swaps rows ! r = rows ! k"
      using mset_zip_set[OF M(1) k assms(2)] by blast
    have "oids ! (ids' ! r) = int r"
      using M(4) assign_rows_correct(1)[OF d(1) in_xs(1) r(1)] assign_rows_correct(1)[OF d(1) in_xs(2) r(1)] by auto
    then show ?thesis using r M(2) by auto
  qed
  show "sorted ids'" by (fact M(3))
  assume "i \<notin> set ids" "i < length xs" "xs ! i = - 1"
  then show "oids ! i = - 1"
    using M(4) assign_rows_correct(2)[OF d(1) in_xs(1)] assign_rows_correct(2)[OF d(1) in_xs(2)] d(2) by auto
qed

section \<open>Properties\<close>

text \<open>C30. Whatever order the ubatches produced the outputs in, after the swaps are applied the row that
  \<^verbatim>\<open>output_ids\<close> names for a batch index holds the data computed for that token, the rows are in batch
  order, and tokens without an output keep no row.\<close>

theorem output_rows_in_batch_order:
  assumes "distinct out_ids" "\<forall>i \<in> set out_ids. i < n_batch" "length out_ids \<le> length rows"
    and "map_outputs out_ids (replicate n_batch (- 1)) = (out_ids', output_ids, swaps)"
  shows "(\<forall>k < length out_ids. \<exists>r < length out_ids. output_ids ! (out_ids ! k) = int r \<and>
      out_ids' ! r = out_ids ! k \<and> reorder_rows swaps rows ! r = rows ! k) \<and>
    (\<forall>i < n_batch. i \<notin> set out_ids \<longrightarrow> output_ids ! i = - 1) \<and>
    out_ids' = sorted_list_of_set (set out_ids)"
proof -
  have "\<forall>i \<in> set out_ids. i < length (replicate n_batch (- 1 :: int))" using assms(2) by simp
  note M = map_outputs_rows[OF assms(4,3,1) this]
  have "distinct out_ids'" "set out_ids' = set out_ids"
    using M(4) assms(1) mset_eq_setD[OF M(4)] by (auto dest: mset_eq_imp_distinct_iff)
  then have "out_ids' = sorted_list_of_set (set out_ids)"
    using M(3) by (metis sorted_list_of_set.idem_if_sorted_distinct)
  then show ?thesis using M(1,2) by auto
qed

theorem output_rows_in_batch_order_witness:
  "map_outputs [2, 0, 3] (replicate 4 (- 1)) = ([0, 2, 3], [0, - 1, 1, 2], [(0, 1)]) \<and>
   reorder_rows [(0, 1)] [''c'', ''a'', ''d''] ! 1 = ''c''"
proof -
  have m: "map_outputs [2, 0, 3] (replicate 4 (- 1)) = ([0, 2, 3], [0, - 1, 1, 2], [(0, 1)])"
    by code_simp
  then show ?thesis
    using output_rows_in_batch_order[of "[2, 0, 3]" 4 "[''c'', ''a'', ''d'']" "[0, 2, 3]" "[0, - 1, 1, 2]" "[(0, 1)]"]
    by (force simp: All_less_Suc numeral_eq_Suc)
qed

end
