(* ===== verification/Llama_Context.thy ===== *)
theory Llama_Context
  imports Kv_Slots Output_Rows
begin

text \<open>
  \<^verbatim>\<open>llama_context\<close> of a model whose memory is a \<^verbatim>\<open>llama_kv_cache\<close>: \<^verbatim>\<open>memory_update\<close>,
  \<^verbatim>\<open>output_reserve\<close>, \<^verbatim>\<open>process_ubatch\<close>, \<^verbatim>\<open>decode\<close> and the reading of logits
  (\<^verbatim>\<open>llama-context.cpp\<close>), with the \<^verbatim>\<open>llama_kv_cache_context\<close> that walks over the ubatches
  (\<^verbatim>\<open>llama-kv-cache.cpp\<close>).

  Tensors are not modelled. What a graph does is the argument \<open>env\<close>: from the ubatch, the number of
  attended cells, the cells and the opaque tensor data \<open>'t\<close> it gives new data, a status and, when it
  has a logits tensor, one row of type \<open>'r\<close> per output. A row of the output buffer is \<open>None\<close> until it is
  written. Embeddings and the buffers of backend samplers are not part of the state.
\<close>

section \<open>Memory status\<close>

fun llama_memory_status_combine :: "memory_status \<Rightarrow> memory_status \<Rightarrow> memory_status" where
  "llama_memory_status_combine STATUS_FAILED_PREPARE s1 = STATUS_FAILED_PREPARE"
| "llama_memory_status_combine STATUS_FAILED_COMPUTE s1 = STATUS_FAILED_COMPUTE"
| "llama_memory_status_combine s0 STATUS_FAILED_PREPARE = STATUS_FAILED_PREPARE"
| "llama_memory_status_combine s0 STATUS_FAILED_COMPUTE = STATUS_FAILED_COMPUTE"
| "llama_memory_status_combine s0 s1 =
     (if s0 = STATUS_SUCCESS \<or> s1 = STATUS_SUCCESS then STATUS_SUCCESS else STATUS_NO_UPDATE)"

fun llama_memory_status_is_fail :: "memory_status \<Rightarrow> bool" where
  "llama_memory_status_is_fail STATUS_SUCCESS = False"
| "llama_memory_status_is_fail STATUS_NO_UPDATE = False"
| "llama_memory_status_is_fail STATUS_FAILED_PREPARE = True"
| "llama_memory_status_is_fail STATUS_FAILED_COMPUTE = True"

section \<open>State\<close>

datatype ggml_status = GGML_ALLOC_FAILED | GGML_FAILED | GGML_SUCCESS | GGML_ABORTED

record ('t, 'r) llama_env =
  env_compute :: "ubatch \<Rightarrow> nat \<Rightarrow> kv_cache \<Rightarrow> 't \<Rightarrow> 't \<times> ggml_status \<times> 'r list option"
  env_update :: "nat list \<times> nat list \<Rightarrow> bool \<Rightarrow> kv_cache \<Rightarrow> 't \<Rightarrow> 't \<times> bool"
  env_alloc_ok :: "nat \<Rightarrow> bool"

record ('t, 'r) llama_context =
  cx_n_ctx :: nat
  cx_n_batch :: nat
  cx_n_ubatch :: nat
  cx_n_seq_max :: nat
  cx_kv_unified :: bool
  cx_causal_attn :: bool
  cx_embeddings :: bool
  cx_n_vocab :: nat
  cx_n_embd_inp :: nat
  cx_rope :: bool
  cx_samplers :: "nat set"
  cx_memory :: kv_cache
  cx_data :: 't
  cx_balloc :: allocr
  cx_n_outputs :: nat
  cx_output_ids :: "int list"
  cx_output_swaps :: "(nat \<times> nat) list"
  cx_logits :: "'r option list option"

section \<open>Pending updates\<close>

definition memory_update :: "('t, 'r) llama_env \<Rightarrow> ('t, 'r) llama_context \<Rightarrow> (('t, 'r) llama_context \<times> bool) res" where
  "memory_update env cx =
     (case kv_init_update (cx_memory cx) of (kv1, do_shift, sc) \<Rightarrow>
        if \<not> do_shift \<and> fst sc = [] then Inr (cx\<lparr>cx_memory := kv1\<rparr>, False)
        else case env_update env sc do_shift kv1 (cx_data cx) of (d, compute_ok) \<Rightarrow>
          (case kv_update (cx_rope cx) compute_ok do_shift kv1 of
             Inl e \<Rightarrow> Inl e
           | Inr (kv2, _) \<Rightarrow> Inr (cx\<lparr>cx_memory := kv2, cx_data := d\<rparr>, True)))"

section \<open>Outputs\<close>

text \<open>The result is the number of rows reserved, 0 where the allocation failed.\<close>

definition output_reserve :: "('t, 'r) llama_env \<Rightarrow> nat \<Rightarrow> ('t, 'r) llama_context \<Rightarrow> ('t, 'r) llama_context \<times> nat" where
  "output_reserve env n_outputs cx =
     (let n_outputs_max = max n_outputs (cx_n_seq_max cx);
          ids = (if cx_output_ids cx = [] then replicate (cx_n_batch cx) 0 else cx_output_ids cx)
      in if \<not> env_alloc_ok env n_outputs_max then (cx\<lparr>cx_output_ids := ids, cx_logits := None\<rparr>, 0)
         else (cx\<lparr>cx_output_ids := replicate (length ids) (- 1), cx_n_outputs := 0,
                cx_logits := Some (replicate n_outputs_max None)\<rparr>, n_outputs_max))"

definition output_reorder :: "('t, 'r) llama_context \<Rightarrow> ('t, 'r) llama_context" where
  "output_reorder cx = cx\<lparr>cx_logits := map_option (reorder_rows (cx_output_swaps cx)) (cx_logits cx),
     cx_output_swaps := []\<rparr>"

definition output_resolve_row :: "int \<Rightarrow> ('t, 'r) llama_context \<Rightarrow> nat res" where
  "output_resolve_row i cx =
     (if i < 0 \<and> int (cx_n_outputs cx) + i < 0 then Inl (Runtime_error ''negative index out of range'')
      else if i \<ge> 0 \<and> nat i \<ge> length (cx_output_ids cx) then Inl (Runtime_error ''out of range'')
      else
        (let j = (if i < 0 then int (cx_n_outputs cx) + i else cx_output_ids cx ! nat i) in
         if j < 0 then Inl (Runtime_error ''batch.logits != true'')
         else if j \<ge> int (cx_n_outputs cx) then Inl (Runtime_error ''corrupt output buffer'')
         else Inr (nat j)))"

text \<open>\<open>None\<close> is the null pointer the release build returns; \<open>Some r\<close> is a pointer to a row with
  content \<open>r\<close>.\<close>

definition get_logits_ith :: "int \<Rightarrow> ('t, 'r) llama_context \<Rightarrow> ('t, 'r) llama_context \<times> 'r option option" where
  "get_logits_ith i cx =
     (let cx' = output_reorder cx in
      (cx', case cx_logits cx' of
         None \<Rightarrow> None
       | Some rows \<Rightarrow>
           (case output_resolve_row i cx' of
              Inl e \<Rightarrow> None
            | Inr j \<Rightarrow> Some (if j < length rows then rows ! j else None))))"

section \<open>\<^verbatim>\<open>decode\<close>\<close>

text \<open>With backend samplers every sequence may have one output. The sequence ids are not yet validated
  here, so that an id outside the table is an access outside it.\<close>

definition output_seqs :: "llama_batch \<Rightarrow> int list" where
  "output_seqs b = concat (map (\<lambda>i. if the (lb_logits b) ! i = 0 then []
     else map (\<lambda>s. case lb_seq_id b of None \<Rightarrow> 0 | Some ss \<Rightarrow> ss ! i ! s)
            [0..<(case lb_n_seq_id b of None \<Rightarrow> 1 | Some ns \<Rightarrow> ns ! i)]) [0..<lb_n_tokens b])"

fun sampler_check :: "nat \<Rightarrow> (nat \<Rightarrow> nat) \<Rightarrow> int list \<Rightarrow> bool res" where
  "sampler_check n_seq_max cnt [] = Inr True"
| "sampler_check n_seq_max cnt (s # ss) =
     (if s < 0 \<or> nat s \<ge> n_seq_max then Inl Undefined
      else if cnt (nat s) + 1 > 1 then Inr False
      else sampler_check n_seq_max (cnt(nat s := cnt (nat s) + 1)) ss)"

text \<open>The loop around \<^verbatim>\<open>init_batch\<close>: a failed preparation is tried again once, if the update that
  is then applied changed anything. \<open>Inl\<close> is the code \<^verbatim>\<open>decode\<close> returns.\<close>

definition prepare_once :: "('t, 'r) llama_context \<Rightarrow>
    (('t, 'r) llama_context \<times> memory_status \<times> slot_info list \<times> ubatch list) res" where
  "prepare_once cx =
     (case kv_init_batch (cx_n_ubatch cx) (cx_balloc cx) (cx_memory cx) of
        Inl e \<Rightarrow> Inl e
      | Inr (kv', a', st, sis, ubs) \<Rightarrow> Inr (cx\<lparr>cx_memory := kv', cx_balloc := a'\<rparr>, st, sis, ubs))"

fun decode_prepare :: "('t, 'r) llama_env \<Rightarrow> nat \<Rightarrow> ('t, 'r) llama_context \<Rightarrow>
    (('t, 'r) llama_context \<times> (int + slot_info list \<times> ubatch list)) res" where
  "decode_prepare env retries cx =
     (case prepare_once cx of
        Inl e \<Rightarrow> Inl e
      | Inr (cx', st, sis, ubs) \<Rightarrow>
          (case st of
             STATUS_SUCCESS \<Rightarrow> Inr (cx', Inr (sis, ubs))
           | STATUS_NO_UPDATE \<Rightarrow> Inr (cx', Inl (- 2))
           | STATUS_FAILED_COMPUTE \<Rightarrow> Inr (cx', Inl (- 2))
           | STATUS_FAILED_PREPARE \<Rightarrow>
               (case retries of
                  0 \<Rightarrow> Inr (cx', Inl 1)
                | Suc n \<Rightarrow>
                    (case memory_update env cx' of
                       Inl e \<Rightarrow> Inl e
                     | Inr (cx'', updated) \<Rightarrow>
                         if updated then decode_prepare env n cx'' else Inr (cx'', Inl 1)))))"

declare decode_prepare.simps [simp del]

definition needs_raw_logits :: "ubatch \<Rightarrow> nat set \<Rightarrow> bool" where
  "needs_raw_logits ub samplers \<longleftrightarrow>
     list_ex (\<lambda>i. ub_output ub ! i \<noteq> 0 \<and> list_ex (\<lambda>s. s \<notin> samplers) (ub_seq_id ub ! i)) [0..<ub_n_tokens ub]"

definition store_logits :: "ubatch \<Rightarrow> nat \<Rightarrow> nat \<Rightarrow> 'r list option \<Rightarrow> ('t, 'r) llama_context \<Rightarrow>
    ('t, 'r) llama_context res" where
  "store_logits ub n_outputs_all prev rows cx =
     (case (cx_logits cx, rows) of
        (Some buf, Some rs) \<Rightarrow>
          if cx_n_outputs cx > 0 \<and> needs_raw_logits ub (cx_samplers cx) then
            (if prev + cx_n_outputs cx > n_outputs_all then Inl Abort
             else if prev + cx_n_outputs cx > length buf then Inl Abort
             else Inr (cx\<lparr>cx_logits := Some (map (\<lambda>k. if prev \<le> k \<and> k < prev + cx_n_outputs cx
                    then Some (rs ! (k - prev)) else buf ! k) [0..<length buf])\<rparr>))
          else Inr cx
      | _ \<Rightarrow> Inr cx)"

text \<open>After a failure the positions of the ubatch, and all behind them, are removed.\<close>

definition ubatch_pos_min :: "ubatch \<Rightarrow> nat \<Rightarrow> int" where
  "ubatch_pos_min ub = fold (\<lambda>i pm. let s = hd (ub_seq_id ub ! i) in pm(s := min (pm s) (ub_pos ub ! i)))
     [0..<ub_n_tokens ub] (\<lambda>_. INT32_MAX)"

fun remove_from :: "(nat \<Rightarrow> int) \<Rightarrow> nat list \<Rightarrow> kv_cache \<Rightarrow> kv_cache res" where
  "remove_from pm [] kv = Inr kv"
| "remove_from pm (s # ss) kv =
     (if pm s = INT32_MAX then remove_from pm ss kv
      else and_then (kv_seq_rm (int s) (pm s) (- 1) kv) (\<lambda>r. remove_from pm ss (fst r)))"

definition status_code :: "ggml_status \<Rightarrow> int res" where
  "status_code st = (case st of GGML_ABORTED \<Rightarrow> Inr 2 | GGML_ALLOC_FAILED \<Rightarrow> Inr (- 2)
     | GGML_FAILED \<Rightarrow> Inr (- 3) | GGML_SUCCESS \<Rightarrow> Inl Abort)"

text \<open>\<^verbatim>\<open>process_ubatch\<close>: apply the memory context, then compute.\<close>

definition process_ubatch :: "('t, 'r) llama_env \<Rightarrow> slot_info \<Rightarrow> ubatch \<Rightarrow> ('t, 'r) llama_context \<Rightarrow>
    (('t, 'r) llama_context \<times> ggml_status \<times> 'r list option) res" where
  "process_ubatch env si ub cx =
     (case apply_ubatch si ub (cx_memory cx) of
        Inl e \<Rightarrow> Inl e
      | Inr kv \<Rightarrow>
          (case env_compute env ub (kv_get_n_kv si kv) kv (cx_data cx) of (d, st, rows) \<Rightarrow>
             Inr (cx\<lparr>cx_memory := kv, cx_data := d\<rparr>, st, rows)))"

definition ubatch_outputs :: "nat \<Rightarrow> nat \<Rightarrow> ubatch \<Rightarrow> nat" where
  "ubatch_outputs n_tokens_all n_outputs_all ub =
     (if n_outputs_all = n_tokens_all then ub_n_tokens ub else length (filter (\<lambda>x. x \<noteq> 0) (ub_output ub)))"

fun decode_loop :: "('t, 'r) llama_env \<Rightarrow> nat \<Rightarrow> nat \<Rightarrow> (slot_info \<times> ubatch) list \<Rightarrow> nat \<Rightarrow> ('t, 'r) llama_context \<Rightarrow>
    (('t, 'r) llama_context \<times> int option) res" where
  "decode_loop env n_tokens_all n_outputs_all [] prev cx = Inr (cx, None)"
| "decode_loop env n_tokens_all n_outputs_all ((si, ub) # rest) prev cx =
     (let n_outputs = ubatch_outputs n_tokens_all n_outputs_all ub in
      case process_ubatch env si ub (cx\<lparr>cx_n_outputs := n_outputs\<rparr>) of
        Inl e \<Rightarrow> Inl e
      | Inr (cx1, st, rows) \<Rightarrow>
          if st \<noteq> GGML_SUCCESS then
            and_then (remove_from (ubatch_pos_min ub) [0..<LLAMA_MAX_SEQ] (cx_memory cx1)) (\<lambda>kv.
              and_then (status_code st) (\<lambda>c. Inr (cx1\<lparr>cx_memory := kv\<rparr>, Some c)))
          else
            and_then (store_logits ub n_outputs_all prev rows cx1)
              (decode_loop env n_tokens_all n_outputs_all rest (prev + n_outputs)))"

definition decode_finish :: "nat \<Rightarrow> ('t, 'r) llama_context \<Rightarrow> (('t, 'r) llama_context \<times> int) res" where
  "decode_finish n_outputs_all cx =
     (let cx1 = cx\<lparr>cx_n_outputs := n_outputs_all\<rparr>; out_ids = al_out_ids (cx_balloc cx) in
      if n_outputs_all = 0 then Inr (cx1, 0)
      else if length out_ids \<noteq> n_outputs_all then Inl Abort
      else case map_outputs out_ids (cx_output_ids cx) of (out_ids', output_ids, swaps) \<Rightarrow>
        Inr (cx1\<lparr>cx_balloc := (cx_balloc cx)\<lparr>al_out_ids := out_ids'\<rparr>, cx_output_ids := output_ids,
                 cx_output_swaps := cx_output_swaps cx @ swaps\<rparr>, 0))"

definition decode_run :: "('t, 'r) llama_env \<Rightarrow> nat \<Rightarrow> nat \<Rightarrow> slot_info list \<Rightarrow> ubatch list \<Rightarrow> ('t, 'r) llama_context \<Rightarrow>
    (('t, 'r) llama_context \<times> int) res" where
  "decode_run env n_tokens_all n_outputs_all sis ubs cx =
     (case output_reserve env n_outputs_all cx of (cx1, reserved) \<Rightarrow>
        if reserved < n_outputs_all then Inr (cx1, - 2)
        else and_then (decode_loop env n_tokens_all n_outputs_all (zip sis ubs) 0 cx1) (\<lambda>(cx2, ret).
          case ret of Some c \<Rightarrow> Inr (cx2, c) | None \<Rightarrow> decode_finish n_outputs_all cx2))"

definition decode_accepted :: "('t, 'r) llama_env \<Rightarrow> allocr \<Rightarrow> ('t, 'r) llama_context \<Rightarrow> (('t, 'r) llama_context \<times> int) res" where
  "decode_accepted env a cx =
     (let n_tokens_all = lb_n_tokens (al_batch a); n_outputs_all = al_n_outputs a;
          cx1 = cx\<lparr>cx_balloc := a\<rparr> in
      if cx_embeddings cx \<and> n_outputs_all \<noteq> n_tokens_all then Inr (cx1, - 1)
      else if n_tokens_all > cx_n_batch cx then Inl Abort
      else if \<not> (cx_causal_attn cx \<or> cx_n_ubatch cx \<ge> n_tokens_all) then Inl Abort
      else and_then (memory_update env (cx1\<lparr>cx_output_swaps := []\<rparr>)) (\<lambda>(cx2, _).
        and_then (decode_prepare env 1 cx2) (\<lambda>(cx3, r).
          case r of Inl c \<Rightarrow> Inr (cx3, c)
          | Inr (sis, ubs) \<Rightarrow> decode_run env n_tokens_all n_outputs_all sis ubs cx3)))"

text \<open>A batch \<^verbatim>\<open>init\<close> refuses leaves the allocator to be cleared by the next call.\<close>

definition llama_decode :: "('t, 'r) llama_env \<Rightarrow> llama_batch \<Rightarrow> ('t, 'r) llama_context \<Rightarrow>
    (('t, 'r) llama_context \<times> int) res" where
  "llama_decode env b cx =
     (let n_seq_max = (if cx_kv_unified cx then LLAMA_MAX_SEQ else cx_n_seq_max cx) in
      if (lb_token b = None) = (lb_embd b = None) then Inl Abort
      else if lb_n_tokens b = 0 then Inr (cx, - 1)
      else and_then (if cx_samplers cx \<noteq> {} \<and> lb_logits b \<noteq> None
             then sampler_check n_seq_max (\<lambda>_. 0) (output_seqs b) else Inr True) (\<lambda>ok.
        if \<not> ok then Inr (cx, - 1)
        else and_then (al_init (cx_n_vocab cx) (kv_bounds (cx_memory cx)) (cx_n_embd_inp cx) n_seq_max
               (cx_embeddings cx) b (cx_balloc cx)) (\<lambda>r.
          case r of None \<Rightarrow> Inr (cx, - 1) | Some a \<Rightarrow> decode_accepted env a cx)))"

section \<open>Ubatches in the order of the batch\<close>

definition ub_positions :: "ubatch \<Rightarrow> nat \<Rightarrow> int set" where
  "ub_positions ub s = {ub_pos ub ! i | i. i < ub_n_tokens ub \<and> s \<in> set (ub_seq_id ub ! i)}"

definition slot_cells :: "slot_info list \<Rightarrow> nat set" where
  "slot_cells sis = (\<Union>si \<in> set sis. set (concat (si_idxs si)))"

lemma plain_slots_append:
  assumes "plain_slots F (xs @ ys) sis"
  shows "\<exists>s1 s2. sis = s1 @ s2 \<and> plain_slots F xs s1 \<and> plain_slots (F - slot_cells s1) ys s2"
  using assms
proof (induction xs arbitrary: F sis)
  case (Cons x xs)
  obtain si sis' where s: "sis = si # sis'" using Cons.prems by (cases sis) auto
  then obtain idxs where i: "si_strm si = [0]" "si_idxs si = [idxs]" "length idxs = ub_n_tokens x" "idxs \<noteq> []"
    "distinct idxs" "set idxs \<subseteq> F" "plain_slots (F - set idxs) (xs @ ys) sis'"
    using Cons.prems by auto
  from Cons.IH[OF i(7)] obtain s1 s2 where "sis' = s1 @ s2" "plain_slots (F - set idxs) xs s1"
    "plain_slots (F - set idxs - slot_cells s1) ys s2" by blast
  moreover have "F - set idxs - slot_cells s1 = F - slot_cells (si # s1)"
    using i(2) by (auto simp: slot_cells_def)
  ultimately show ?case
    using s i by (intro exI[of _ "si # s1"] exI[of _ s2]) auto
qed (auto simp: slot_cells_def)

lemma rows_split:
  assumes "concat (map ub_rows (front @ u # back)) = map f [0..<n]"
  defines "m \<equiv> length (concat (map ub_rows front))"
  shows "ub_rows u = map f [m..<m + ub_n_tokens u]" "m + ub_n_tokens u \<le> n" "concat (map ub_rows front) = map f [0..<m]"
    "back = [] \<Longrightarrow> m + ub_n_tokens u = n"
proof -
  let ?A = "concat (map ub_rows front)" and ?B = "ub_rows u" and ?C = "concat (map ub_rows back)"
  have e: "?A @ ?B @ ?C = map f [0..<n]" using assms(1) by simp
  have l: "length ?B = ub_n_tokens u" by (simp add: ub_rows_def)
  have len: "m + ub_n_tokens u + length ?C = n" using arg_cong[OF e, of length] l by (simp add: m_def)
  then show "m + ub_n_tokens u \<le> n" "back = [] \<Longrightarrow> m + ub_n_tokens u = n" by auto
  show "?A = map f [0..<m]"
    using arg_cong[OF e, of "take m"] len by (simp add: m_def take_map)
  have "?B = take (ub_n_tokens u) (drop m (map f [0..<n]))"
    unfolding e[symmetric] m_def using l by simp
  then show "?B = map f [m..<m + ub_n_tokens u]" using len by (simp add: take_map drop_map)
qed

lemma ub_rows_nth:
  assumes "ub_rows u = map f [m..<m + ub_n_tokens u]" "i < ub_n_tokens u"
  shows "(map_option (\<lambda>t. t ! i) (ub_token u), ub_pos u ! i, ub_seq_id u ! i, ub_output u ! i) = f (m + i)"
  using arg_cong[OF assms(1), of "\<lambda>xs. xs ! i"] assms(2) by (simp add: ub_rows_def)

text \<open>A ubatch of the prompt: tokens \<open>m\<close> to \<open>m + n_tokens\<close> of it, all of sequence 0.\<close>

lemma prompt_ubatch:
  assumes f: "\<forall>i < n. f i = (Some (toks ! i), q + int i, [0::nat], of_bool (i = n - 1))"
    and u: "ub_rows u = map f [m..<m + ub_n_tokens u]" "m + ub_n_tokens u \<le> n" "0 < ub_n_tokens u"
      "length (ub_output u) = ub_n_tokens u"
  shows "ub_positions u s = (if s = 0 then {q + int m..<q + int (m + ub_n_tokens u)} else {})"
    "length (filter (\<lambda>x. x \<noteq> 0) (ub_output u)) = of_bool (m + ub_n_tokens u = n)"
    "q + int (m + ub_n_tokens u) \<le> INT32_MAX \<Longrightarrow> ubatch_pos_min u = (\<lambda>_. INT32_MAX)(0 := q + int m)"
    "m + ub_n_tokens u = n \<Longrightarrow> needs_raw_logits u {}"
proof -
  have r: "ub_pos u ! i = q + int (m + i)" "ub_seq_id u ! i = [0]" "ub_output u ! i = of_bool (m + i = n - 1)"
    if "i < ub_n_tokens u" for i
    using ub_rows_nth[OF u(1) that] f[rule_format, of "m + i"] that u(2) by auto
  show "ub_positions u s = (if s = 0 then {q + int m..<q + int (m + ub_n_tokens u)} else {})"
  proof (cases "s = 0")
    case True
    have "ub_positions u 0 = (\<lambda>i. q + int (m + i)) ` {..<ub_n_tokens u}"
      using r(1,2) by (force simp: ub_positions_def image_def)
    also have "\<dots> = {q + int m..<q + int (m + ub_n_tokens u)}"
      by (auto intro!: image_eqI[of _ _ "nat (_ - (q + int m))"])
    finally show ?thesis using True by simp
  qed (use r in \<open>auto simp: ub_positions_def\<close>)
  have out: "ub_output u = map (\<lambda>i. of_bool (m + i = n - 1)) [0..<ub_n_tokens u]"
    using r(3) u(4) by (auto intro!: nth_equalityI)
  have "length (filter (\<lambda>x. x \<noteq> 0) (ub_output u)) = card {i. i < ub_n_tokens u \<and> m + i = n - 1}"
    unfolding out by (simp add: filter_map comp_def length_filter_conv_card cong: conj_cong)
  also have "{i. i < ub_n_tokens u \<and> m + i = n - 1} = (if m + ub_n_tokens u = n then {ub_n_tokens u - 1} else {})"
    using u(2,3) by auto
  finally show "length (filter (\<lambda>x. x \<noteq> 0) (ub_output u)) = of_bool (m + ub_n_tokens u = n)" by simp
  show "needs_raw_logits u {}" if "m + ub_n_tokens u = n"
    unfolding needs_raw_logits_def list_ex_iff
    by (rule bexI[of _ "ub_n_tokens u - 1"]) (use that r[of "ub_n_tokens u - 1"] u(3) in auto)
  assume b: "q + int (m + ub_n_tokens u) \<le> INT32_MAX"
  let ?f = "\<lambda>i pm. let s = hd (ub_seq_id u ! i) in pm(s := min (pm s) (ub_pos u ! i))"
  have "k \<le> ub_n_tokens u \<Longrightarrow> fold ?f [0..<k] (\<lambda>_. INT32_MAX) =
      (if k = 0 then (\<lambda>_. INT32_MAX) else (\<lambda>_. INT32_MAX)(0 := q + int m))" for k
  proof (induction k)
    case (Suc k)
    then show ?case using r(1,2)[of k] b by (auto simp: Let_def fun_eq_iff)
  qed simp
  from this[of "ub_n_tokens u"] show "ubatch_pos_min u = (\<lambda>_. INT32_MAX)(0 := q + int m)"
    using u(3) by (simp add: ubatch_pos_min_def)
qed

section \<open>Placing tokens leaves the shift flags alone\<close>

definition kv_shifts :: "kv_cache \<Rightarrow> bool list" where
  "kv_shifts kv = map kc_has_shift (kv_v_cells kv)"

lemma fold_has_shift:
  assumes "\<And>x c. kc_has_shift (f x c) = kc_has_shift c"
  shows "kc_has_shift (fold f xs c) = kc_has_shift c"
  using assms by (induction xs arbitrary: c) auto

lemma has_shift_pos_rm_add [simp]:
  "kc_has_shift (cells_seq_pos_rm i c) = kc_has_shift c" "kc_has_shift (cells_seq_pos_add i c) = kc_has_shift c"
  unfolding cells_seq_pos_rm_def cells_seq_pos_add_def
  by (rule fold_has_shift; simp add: cells_seq_pos_dec_def cells_seq_pos_inc_def)+

lemma has_shift_ops [simp]:
  "kc_has_shift (cells_rm i c) = kc_has_shift c" "kc_has_shift (cells_seq_add i s c) = kc_has_shift c"
  "kc_has_shift (fst (cells_seq_rm i s c)) = kc_has_shift c" "kc_has_shift (cells_set_one i p e S c) = kc_has_shift c"
  "kc_has_shift (cells_pos_set i p c) = kc_has_shift c" "kc_has_shift (cells_ext_set i e c) = kc_has_shift c"
  by (simp_all add: cells_rm_def cells_clear_cell_def cells_seq_add_def cells_seq_pos_inc_def cells_seq_pos_dec_def
      cells_seq_rm_def cells_set_one_def cells_pos_set_def cells_ext_set_def Let_def)

lemma has_shift_place_cell [simp]: "kc_has_shift (place_cell ub idx i c) = kc_has_shift c"
  unfolding place_cell_def Let_def by (subst fold_has_shift) auto

lemma has_shift_set_idxs [simp]: "kc_has_shift (cells_set_idxs idxs c0 c) = kc_has_shift c"
  unfolding cells_set_idxs_def by (rule fold_has_shift) simp

lemma has_shift_sweep:
  assumes "\<And>i c. kc_has_shift (fst (body i c)) = kc_has_shift c"
  shows "kc_has_shift (fst (sweep body c)) = kc_has_shift c"
  unfolding sweep_def
  by (rule fold_invariant_simple[where P = "\<lambda>r. kc_has_shift (fst r) = kc_has_shift c"])
    (use assms in \<open>auto simp: sweep_step_def Let_def\<close>)

lemma has_shift_list_update:
  "kc_has_shift c = kc_has_shift (cs ! st) \<Longrightarrow> map kc_has_shift (cs[st := c]) = map kc_has_shift cs"
  by (cases "st < length cs") (auto intro!: nth_equalityI simp: nth_list_update split: if_splits)

lemma kv_shifts_upd [simp]:
  "kc_has_shift c = kc_has_shift (kv_v_cells kv ! st) \<Longrightarrow> kv_shifts (kv\<lparr>kv_v_cells := (kv_v_cells kv)[st := c]\<rparr>) = kv_shifts kv"
  "kc_has_shift c = kc_has_shift (kv_v_cells kv ! st) \<Longrightarrow> kv_shifts (kv_set_stream st c h kv) = kv_shifts kv"
  by (simp_all add: kv_shifts_def kv_set_stream_def has_shift_list_update)

lemma kv_shifts_fold:
  "(\<And>x kv. kv_shifts (f x kv) = kv_shifts kv) \<Longrightarrow> kv_shifts (fold f xs kv) = kv_shifts kv"
  by (induction xs arbitrary: kv) auto

lemma kv_shifts_seq_rm:
  assumes "kv_seq_rm s p0 p1 kv = Inr (kv', b)"
  shows "kv_shifts kv' = kv_shifts kv"
proof -
  have b: "kc_has_shift (fst (seq_rm_body s p0 p1 i c)) = kc_has_shift c"
    "kc_has_shift (fst (rm_body p0 p1 i c)) = kc_has_shift c" for s p0 p1 i c
    by (simp_all add: seq_rm_body_def rm_body_def)
  have "kv_shifts (kv_sweep_stream (seq_rm_body s p0 p1) st kv) = kv_shifts kv"
    "kv_shifts (kv_sweep_stream (rm_body p0 p1) st kv) = kv_shifts kv" for s p0 p1 st kv
    by (simp_all add: kv_sweep_stream_def Let_def has_shift_sweep b)
  then show ?thesis
    using assms by (auto simp: kv_seq_rm_def kv_shifts_fold split: if_splits)
qed

lemma kv_shifts_purge: "purge_seqs rm ss kv = Inr kv' \<Longrightarrow> kv_shifts kv' = kv_shifts kv"
  by (induction rm ss kv rule: purge_seqs.induct)
    (auto simp: Let_def dest: kv_shifts_seq_rm split: if_splits sum.splits)

lemma kv_shifts_apply:
  assumes "apply_ubatch si ub kv = Inr kv'"
  shows "kv_shifts kv' = kv_shifts kv"
proof -
  let ?r = "fold (place_token ub si) (slot_pairs si) (kv, \<lambda>_. - 1)"
  have "kv_shifts (fst ?r) = kv_shifts kv"
    by (rule fold_invariant_simple[where P = "\<lambda>r. kv_shifts (fst r) = kv_shifts kv"])
      (auto simp: place_token_def Let_def)
  moreover have "kv_shifts (move_heads si x) = kv_shifts x" for x
    unfolding move_heads_def by (rule kv_shifts_fold) (simp add: kv_shifts_def)
  ultimately show ?thesis
    using assms by (auto simp: apply_ubatch_def Let_def dest: kv_shifts_purge split: sum.splits)
qed

lemma kv_shifts_place: "prep_place ubs kv states = Inr (kv', r) \<Longrightarrow> kv_shifts kv' = kv_shifts kv"
  by (induction ubs kv states rule: prep_place.induct)
    (auto dest: kv_shifts_apply split: sum.splits option.splits)

lemma kv_shifts_restore: "kv_shifts (prep_restore ps kv) = kv_shifts kv"
  unfolding prep_restore_def by (rule kv_shifts_fold) (simp add: prep_restore_stream_def Let_def split: prod.splits)

lemma kv_shifts_init_batch:
  assumes "kv_init_batch n a kv = Inr (kv', r)"
  shows "kv_shifts kv' = kv_shifts kv"
proof -
  have "kv_shifts (fold prep_restore states x) = kv_shifts x" for states x
    by (rule kv_shifts_fold) (rule kv_shifts_restore)
  then show ?thesis
    using assms by (auto simp: kv_init_batch_def kv_prepare_def dest: kv_shifts_place
        split: option.splits prod.splits sum.splits if_splits)
qed

lemma kv_get_has_shift_eq:
  assumes "kv_inv kv"
  shows "kv_get_has_shift kv \<longleftrightarrow> (\<exists>st < length (kv_shifts kv). kv_shifts kv ! st)"
  using kv_invD(2)[OF assms] by (auto simp: kv_get_has_shift_def kv_shifts_def list_ex_iff)

section \<open>The loop over the ubatches\<close>

lemma process_ubatch_plain:
  assumes "kv_inv (cx_memory cx)" "kv_n_stream (cx_memory cx) = 1" "ub_ok ub" "plain_slot ub (cx_memory cx) si idxs"
  obtains kv d st rows n where "process_ubatch env si ub cx = Inr (cx\<lparr>cx_memory := kv, cx_data := d\<rparr>, st, rows)"
    "env_compute env ub n kv (cx_data cx) = (d, st, rows)"
    "kv_kept (cx_memory cx) kv" "kv_free kv = kv_free (cx_memory cx) - set idxs" "kv_shifts kv = kv_shifts (cx_memory cx)"
    "\<And>s. s < length (kv_seq_to_stream (cx_memory cx)) \<Longrightarrow>
       kv_positions kv s = kv_positions (cx_memory cx) s \<union> ub_positions ub s"
proof -
  obtain kv where kv: "apply_ubatch si ub (cx_memory cx) = Inr kv"
    "\<And>s. s < length (kv_seq_to_stream (cx_memory cx)) \<Longrightarrow>
       kv_positions kv s = kv_positions (cx_memory cx) s \<union> ub_positions ub s"
    using apply_ubatch_plain_positions[OF assms] by (auto simp: ub_positions_def)
  obtain d st rows where "env_compute env ub (kv_get_n_kv si kv) kv (cx_data cx) = (d, st, rows)"
    by (cases "env_compute env ub (kv_get_n_kv si kv) kv (cx_data cx)") auto
  then show ?thesis
    using that[where kv = kv and d = d and st = st and rows = rows] kv apply_plain_free[OF assms(1,3,4) kv(1)]
      kv_shifts_apply[OF kv(1)] by (simp add: process_ubatch_def)
qed

text \<open>\<open>computes env ubs\<close>: the graph of each of these ubatches succeeds and has a logits tensor.\<close>

definition computes :: "('t, 'r) llama_env \<Rightarrow> ubatch list \<Rightarrow> bool" where
  "computes env ubs \<longleftrightarrow> (\<forall>ub \<in> set ubs. \<forall>n kv d. \<exists>d' rows. env_compute env ub n kv d = (d', GGML_SUCCESS, Some rows))"

lemma computesD:
  assumes "computes env ubs" "ub \<in> set ubs" "env_compute env ub n kv d = (d', st, rows)"
  shows "st = GGML_SUCCESS" "\<exists>rs. rows = Some rs"
  using assms unfolding computes_def by (metis prod.inject)+

lemma decode_loop_front:
  assumes "kv_inv (cx_memory cx)" "kv_n_stream (cx_memory cx) = 1" "\<forall>ub \<in> set ubs. ub_ok ub \<and> ubatch_outputs na no ub = 0"
    "plain_slots (kv_free (cx_memory cx)) ubs sis" "computes env ubs"
  shows "\<exists>kv d n. (\<forall>rest. decode_loop env na no (zip sis ubs @ rest) prev cx =
      decode_loop env na no rest prev (cx\<lparr>cx_memory := kv, cx_data := d, cx_n_outputs := n\<rparr>)) \<and>
    kv_kept (cx_memory cx) kv \<and> kv_free kv = kv_free (cx_memory cx) - slot_cells sis \<and>
    kv_shifts kv = kv_shifts (cx_memory cx) \<and>
    (\<forall>s < length (kv_seq_to_stream (cx_memory cx)). kv_positions kv s =
       kv_positions (cx_memory cx) s \<union> (\<Union>ub \<in> set ubs. ub_positions ub s))"
  using assms
proof (induction ubs arbitrary: cx sis)
  case Nil
  then show ?case
    by (intro exI[of _ "cx_memory cx"] exI[of _ "cx_data cx"] exI[of _ "cx_n_outputs cx"])
      (auto simp: kv_kept_refl slot_cells_def)
next
  case (Cons ub ubs)
  obtain si sis' where s: "sis = si # sis'" using Cons.prems(4) by (cases sis) auto
  then obtain idxs where i: "plain_slot ub (cx_memory cx) si idxs" "plain_slots (kv_free (cx_memory cx) - set idxs) ubs sis'"
    "si_idxs si = [idxs]"
    using Cons.prems(4) by (auto simp: plain_slot_free)
  let ?cx = "cx\<lparr>cx_n_outputs := 0\<rparr>"
  obtain kv1 d1 st rows n where P: "process_ubatch env si ub ?cx = Inr (?cx\<lparr>cx_memory := kv1, cx_data := d1\<rparr>, st, rows)"
    "env_compute env ub n kv1 (cx_data cx) = (d1, st, rows)"
    "kv_kept (cx_memory cx) kv1" "kv_free kv1 = kv_free (cx_memory cx) - set idxs"
    "kv_shifts kv1 = kv_shifts (cx_memory cx)"
    "\<And>s. s < length (kv_seq_to_stream (cx_memory cx)) \<Longrightarrow>
       kv_positions kv1 s = kv_positions (cx_memory cx) s \<union> ub_positions ub s"
    by (rule process_ubatch_plain[of ?cx ub si idxs env]) (use Cons.prems(1-3) i(1) in auto)
  have st: "st = GGML_SUCCESS" using computesD(1)[OF Cons.prems(5) _ P(2)] by simp
  let ?cx1 = "?cx\<lparr>cx_memory := kv1, cx_data := d1\<rparr>"
  have sl: "store_logits ub no prev rows ?cx1 = Inr ?cx1"
    by (auto simp: store_logits_def split: option.splits)
  have zero: "ubatch_outputs na no ub = 0" using Cons.prems(3) by simp
  have step: "decode_loop env na no (zip sis (ub # ubs) @ rest) prev cx =
      decode_loop env na no (zip sis' ubs @ rest) prev ?cx1" for rest
    using zero P(1) st sl by (simp add: s)
  obtain kv d m where IH: "\<And>rest. decode_loop env na no (zip sis' ubs @ rest) prev ?cx1 =
      decode_loop env na no rest prev (?cx1\<lparr>cx_memory := kv, cx_data := d, cx_n_outputs := m\<rparr>)"
    "kv_kept kv1 kv" "kv_free kv = kv_free kv1 - slot_cells sis'" "kv_shifts kv = kv_shifts kv1"
    "\<And>s. s < length (kv_seq_to_stream kv1) \<Longrightarrow> kv_positions kv s = kv_positions kv1 s \<union> (\<Union>ub \<in> set ubs. ub_positions ub s)"
    using Cons.IH[of ?cx1 sis'] kv_keptD[OF P(3)] Cons.prems i(2) P(4) by (auto simp: computes_def)
  have "?cx1\<lparr>cx_memory := kv, cx_data := d, cx_n_outputs := m\<rparr> = cx\<lparr>cx_memory := kv, cx_data := d, cx_n_outputs := m\<rparr>"
    by simp
  then show ?case
    using step IH kv_kept_trans[OF P(3) IH(2)] P(4-6) kv_keptD(5)[OF P(3)] i(3) s
    by (intro exI[of _ kv] exI[of _ d] exI[of _ m]) (auto simp: slot_cells_def)
qed

lemma remove_from_skip: "\<forall>s \<in> set ss. pm s = INT32_MAX \<Longrightarrow> remove_from pm ss kv = Inr kv"
  by (induction ss) auto

lemma remove_from_first:
  assumes "kv_inv kv" "0 < length (kv_seq_to_stream kv)" "p \<noteq> INT32_MAX" "0 \<le> p"
  shows "\<exists>kv'. remove_from ((\<lambda>_. INT32_MAX)(0 := p)) [0..<LLAMA_MAX_SEQ] kv = Inr kv' \<and> kv_inv kv' \<and>
    kv_positions kv' 0 = {x \<in> kv_positions kv 0. \<not> (p \<le> x \<and> x < INT32_MAX)} \<and>
    (\<forall>s. s \<noteq> 0 \<longrightarrow> kv_positions kv' s = kv_positions kv s)"
proof -
  have "kv_seq_ok kv 0" using assms(2) by (simp add: kv_seq_ok_def)
  from kv_seq_rm_spec[OF assms(1) this, of p "- 1"] obtain kv' where kv': "kv_seq_rm 0 p (- 1) kv = Inr (kv', True)" "kv_inv kv'"
    "kv_positions kv' 0 = {x \<in> kv_positions kv 0. \<not> (p \<le> x \<and> x < INT32_MAX)}"
    "\<forall>s. s \<noteq> 0 \<longrightarrow> kv_positions kv' s = kv_positions kv s"
    using assms(4) by (auto simp: in_range_def norm_p0_def norm_p1_def)
  have "[0..<LLAMA_MAX_SEQ] = 0 # [1..<LLAMA_MAX_SEQ]" by (simp add: LLAMA_MAX_SEQ_def upt_conv_Cons)
  then have "remove_from ((\<lambda>_. INT32_MAX)(0 := p)) [0..<LLAMA_MAX_SEQ] kv = Inr kv'"
    using kv'(1) assms(3) remove_from_skip[of "[1..<LLAMA_MAX_SEQ]" "(\<lambda>_. INT32_MAX)(0 := p)"] by simp
  then show ?thesis using kv' by blast
qed

section \<open>Decoding a prompt\<close>

text \<open>The application's use of a context: a cache with one stream and no window, nothing pending, no
  embeddings and no backend samplers, and a prompt of valid tokens that fits the batch size.\<close>

definition ctx_ready :: "('t, 'r) llama_context \<Rightarrow> bool" where
  "ctx_ready cx \<longleftrightarrow>
     (let kv = cx_memory cx in
      kv_inv kv \<and> kv_n_stream kv = 1 \<and> kv_swa_type kv = SWA_NONE \<and> 0 < length (kv_seq_to_stream kv) \<and>
      \<not> kv_get_has_shift kv \<and> kv_sc_ssrc kv = [] \<and> kv_sc_sdst kv = []) \<and>
     cx_causal_attn cx \<and> \<not> cx_embeddings cx \<and> cx_samplers cx = {} \<and>
     0 < cx_n_seq_max cx \<and> cx_n_seq_max cx \<le> LLAMA_MAX_SEQ \<and> al_n_pos_per_embd (cx_balloc cx) = 1 \<and>
     (cx_output_ids cx = [] \<or> length (cx_output_ids cx) = cx_n_batch cx)"

definition prompt_ready :: "int list \<Rightarrow> ('t, 'r) llama_context \<Rightarrow> bool" where
  "prompt_ready toks cx \<longleftrightarrow> ctx_ready cx \<and> toks \<noteq> [] \<and> length toks \<le> cx_n_batch cx \<and>
     (\<forall>t \<in> set toks. 0 \<le> t \<and> t < int (cx_n_vocab cx) \<and> t < 2 ^ 32)"

lemma prompt_readyD:
  assumes "prompt_ready toks cx"
  shows "kv_inv (cx_memory cx)" "kv_n_stream (cx_memory cx) = 1" "kv_swa_type (cx_memory cx) = SWA_NONE"
    "0 < length (kv_seq_to_stream (cx_memory cx))" "\<not> kv_get_has_shift (cx_memory cx)"
    "kv_sc_ssrc (cx_memory cx) = []" "kv_sc_sdst (cx_memory cx) = []"
    "toks \<noteq> []" "\<forall>t \<in> set toks. 0 \<le> t \<and> t < int (cx_n_vocab cx) \<and> t < 2 ^ 32" "length toks \<le> cx_n_batch cx"
    "cx_causal_attn cx" "\<not> cx_embeddings cx" "cx_samplers cx = {}" "0 < cx_n_seq_max cx"
    "cx_n_seq_max cx \<le> LLAMA_MAX_SEQ" "al_n_pos_per_embd (cx_balloc cx) = 1"
    "cx_output_ids cx = [] \<or> length (cx_output_ids cx) = cx_n_batch cx"
  using assms by (simp_all add: prompt_ready_def ctx_ready_def Let_def)

definition next_pos :: "('t, 'r) llama_context \<Rightarrow> int" where
  "next_pos cx = mem_pos_max (kv_bounds (cx_memory cx)) 0 + 1"

lemma memory_update_none:
  assumes "\<not> kv_get_has_shift (cx_memory cx)" "kv_sc_ssrc (cx_memory cx) = []" "kv_sc_sdst (cx_memory cx) = []"
  shows "memory_update env cx = Inr (cx, False)"
proof -
  have "(cx_memory cx)\<lparr>kv_sc_ssrc := [], kv_sc_sdst := []\<rparr> = cx_memory cx"
    using assms(2,3) by (auto intro: kv_cache.equality)
  then show ?thesis
    using assms by (auto simp: memory_update_def kv_init_update_def intro: llama_context.equality)
qed

text \<open>Up to the loop over the ubatches.\<close>

lemma decode_setup:
  assumes R: "prompt_ready toks cx"
  defines "n \<equiv> length toks"
  shows "\<exists>a' kv' sis ubs f. kv_same (cx_memory cx) kv' \<and>
    (let cx1 = cx\<lparr>cx_memory := kv', cx_balloc := a', cx_output_swaps := []\<rparr> in
     llama_decode env (llama_batch_get_one toks) cx =
       (if n \<le> card (kv_free (cx_memory cx)) then decode_run env n 1 sis ubs cx1 else Inr (cx1, 1))) \<and>
    (n \<le> card (kv_free (cx_memory cx)) \<longrightarrow> plain_slots (kv_free (cx_memory cx)) ubs sis \<and> ubs \<noteq> [] \<and>
       (\<forall>ub \<in> set ubs. ub_good (cx_memory cx) ub \<and> length (ub_output ub) = ub_n_tokens ub) \<and>
       (\<forall>ub \<in> set ubs. ub_n_tokens ub \<le> length (ub_pos ub)) \<and>
       concat (map ub_rows ubs) = map f [0..<n] \<and> al_out_ids a' = [n - 1]) \<and> 0 \<le> next_pos cx \<and>
    al_n_pos_per_embd a' = 1 \<and> kv_shifts kv' = kv_shifts (cx_memory cx) \<and>
    (\<forall>i < n. f i = (Some (toks ! i), next_pos cx + int i, [0::nat], of_bool (i = n - 1)))"
proof -
  note D = prompt_readyD[OF R]
  let ?kv = "cx_memory cx" and ?m = "if cx_kv_unified cx then LLAMA_MAX_SEQ else cx_n_seq_max cx"
  have m: "0 < ?m" "?m \<le> LLAMA_MAX_SEQ" using D(14,15) by (auto simp: LLAMA_MAX_SEQ_def)
  obtain a a' kv' st sis ubs where
    a: "al_init (cx_n_vocab cx) (kv_bounds ?kv) (cx_n_embd_inp cx) ?m False (llama_batch_get_one toks) (cx_balloc cx) = Inr (Some a)"
    and ib: "kv_init_batch (cx_n_ubatch cx) a ?kv = Inr (kv', a', st, sis, ubs)" and same: "kv_same ?kv kv'"
    and ok: "if n \<le> card (kv_free ?kv) then st = STATUS_SUCCESS \<and> plain_slots (kv_free ?kv) ubs sis \<and> ubs \<noteq> [] \<and>
       (\<forall>ub \<in> set ubs. ub_good ?kv ub \<and> length (ub_output ub) = ub_n_tokens ub \<and> ub_n_tokens ub \<le> length (ub_pos ub)) \<and>
       concat (map ub_rows ubs) = map (batch_row (al_batch a)) [0..<n] \<and> al_out_ids a' = [n - 1]
     else st = STATUS_FAILED_PREPARE"
    and np: "al_n_pos_per_embd a' = 1"
    and q: "0 \<le> next_pos cx" and an: "lb_n_tokens (al_batch a) = n" "al_n_outputs a = 1"
    and row: "\<forall>i < n. batch_row (al_batch a) i = (Some (toks ! i), next_pos cx + int i, [0], of_bool (i = n - 1))"
    using kv_init_batch_one[OF D(1-4,8,9) m D(16), where n_embd = "cx_n_embd_inp cx" and n_ubatch = "cx_n_ubatch cx"]
    unfolding next_pos_def n_def by blast
  let ?cx0 = "cx\<lparr>cx_balloc := a, cx_output_swaps := []\<rparr>"
  let ?cx1 = "cx\<lparr>cx_memory := kv', cx_balloc := a', cx_output_swaps := []\<rparr>"
  have u0: "memory_update env ?cx0 = Inr (?cx0, False)" using D(5-7) by (intro memory_update_none) auto
  have kept: "kv_kept ?kv kv'" using same by (simp add: kv_same_def)
  have sc: "kv_sc_ssrc kv' = []" "kv_sc_sdst kv' = []"
    using kv_keptD(2)[OF kept] D(6,7) by (auto simp: kv_cfg_def dest: arg_cong[where f = kv_sc_ssrc] arg_cong[where f = kv_sc_sdst])
  have "\<not> kv_get_has_shift kv'"
    using D(5) kv_shifts_init_batch[OF ib] kv_get_has_shift_eq[OF D(1)] kv_get_has_shift_eq[OF kv_keptD(1)[OF kept]] by simp
  then have u1: "memory_update env ?cx1 = Inr (?cx1, False)" using sc by (intro memory_update_none) auto
  have once: "prepare_once ?cx0 = Inr (?cx1, st, sis, ubs)" using ib by (simp add: prepare_once_def)
  have prep: "decode_prepare env 1 ?cx0 = Inr (?cx1, if n \<le> card (kv_free ?kv) then Inr (sis, ubs) else Inl 1)"
    using once ok u1 by (subst decode_prepare.simps) (auto split: if_splits)
  have "n \<noteq> 0" using D(8) by (simp add: n_def)
  then have "decode_accepted env a cx =
      (if n \<le> card (kv_free ?kv) then decode_run env n 1 sis ubs ?cx1 else Inr (?cx1, 1))"
    using D(10-12) an u0 prep by (simp add: decode_accepted_def n_def)
  moreover have "llama_decode env (llama_batch_get_one toks) cx = decode_accepted env a cx"
    using a D(8,12,13) by (simp add: llama_decode_def llama_batch_get_one_def batch_none_def)
  ultimately show ?thesis
    using same ok q row np kv_shifts_init_batch[OF ib] by (intro exI[of _ a'] exI[of _ kv'] exI[of _ sis] exI[of _ ubs] exI[of _ "batch_row (al_batch a)"])
      (simp add: Let_def)
qed


lemma ub_positions_rows: "ub_positions u s = {p. \<exists>t ss x. (t, p, ss, x) \<in> set (ub_rows u) \<and> s \<in> set ss}"
  unfolding ub_positions_def ub_rows_def set_map image_def by fastforce

lemma positions_rows:
  assumes "\<forall>i < n. f i = (Some (toks ! i), q + int i, [0::nat], of_bool (i = n - 1))"
    and "concat (map ub_rows us) = map f [a..<b]" "a \<le> b" "b \<le> n"
  shows "(\<Union>u \<in> set us. ub_positions u s) = (if s = 0 then {q + int a..<q + int b} else {})"
proof -
  have "(\<Union>u \<in> set us. ub_positions u s) = {p. \<exists>t ss x. (t, p, ss, x) \<in> set (concat (map ub_rows us)) \<and> s \<in> set ss}"
    by (auto simp: ub_positions_rows)
  also have "\<dots> = {p. \<exists>i \<in> {a..<b}. p = q + int i \<and> s = 0}"
    unfolding assms(2) using assms(1,4) by (auto simp: image_iff Bex_def)
  also have "\<dots> = (if s = 0 then {q + int a..<q + int b} else {})"
    using assms(3) by (auto intro!: bexI[of _ "nat (_ - q)"])
  finally show ?thesis .
qed

definition decode_result :: "('t, 'r) llama_context \<times> int option \<Rightarrow> (('t, 'r) llama_context \<times> int) res" where
  "decode_result r = (case r of (cx, Some c) \<Rightarrow> Inr (cx, c) | (cx, None) \<Rightarrow> decode_finish 1 cx)"

text \<open>The state in which the loop reaches the ubatch \<open>u\<close>.\<close>

lemma decode_upto:
  assumes kv: "kv_inv (cx_memory cx)" "kv_n_stream (cx_memory cx) = 1"
    "plain_slots (kv_free (cx_memory cx)) (front @ u # back) sis"
    and ubs: "\<forall>ub \<in> set (front @ u # back). ub_ok ub \<and> 0 < ub_n_tokens ub \<and> length (ub_output ub) = ub_n_tokens ub"
    and rows: "concat (map ub_rows (front @ u # back)) = map f [0..<n]"
    and f: "\<forall>i < n. f i = (Some (toks ! i), q + int i, [0::nat], of_bool (i = n - 1))"
    and env: "computes env front" "env_alloc_ok env (max 1 (cx_n_seq_max cx))"
    and ids: "cx_output_ids cx = [] \<or> length (cx_output_ids cx) = cx_n_batch cx"
  defines "m \<equiv> length (concat (map ub_rows front))"
  shows "\<exists>kv d k si s1 s2 idxs. decode_run env n 1 sis (front @ u # back) cx =
      and_then (decode_loop env n 1 ((si, u) # zip s2 back) 0
        (cx\<lparr>cx_output_ids := replicate (cx_n_batch cx) (- 1), cx_logits := Some (replicate (max 1 (cx_n_seq_max cx)) None),
            cx_memory := kv, cx_data := d, cx_n_outputs := k\<rparr>)) decode_result \<and>
    plain_slot u kv si idxs \<and> kv_kept (cx_memory cx) kv \<and> kv_shifts kv = kv_shifts (cx_memory cx) \<and>
    kv_free kv = kv_free (cx_memory cx) - slot_cells s1 \<and> plain_slots (kv_free (cx_memory cx)) front s1 \<and>
    (\<forall>s < length (kv_seq_to_stream (cx_memory cx)). kv_positions kv s =
       kv_positions (cx_memory cx) s \<union> (if s = 0 then {q..<q + int m} else {}))"
proof -
  note S = rows_split[OF rows, folded m_def]
  obtain s1 s' where s': "sis = s1 @ s'" "plain_slots (kv_free (cx_memory cx)) front s1"
    "plain_slots (kv_free (cx_memory cx) - slot_cells s1) (u # back) s'"
    using plain_slots_append[OF kv(3)] by blast
  then obtain si s2 where si: "s' = si # s2" by (cases s') auto
  have u: "0 < ub_n_tokens u" using ubs by simp
  have zero: "ubatch_outputs n 1 ub = 0" if "ub \<in> set front" for ub
  proof -
    obtain f1 f2 where f12: "front = f1 @ ub # f2" using \<open>ub \<in> set front\<close> by (meson split_list)
    let ?m = "length (concat (map ub_rows f1))"
    have b: "0 < ub_n_tokens ub" "length (ub_output ub) = ub_n_tokens ub" using ubs that by auto
    have "concat (map ub_rows (f1 @ ub # (f2 @ u # back))) = map f [0..<n]" using rows by (simp add: f12)
    note T = rows_split(1,2)[OF this]
    have "?m + ub_n_tokens ub \<le> m" by (simp add: m_def f12 ub_rows_def)
    then have "?m + ub_n_tokens ub < n" using S(2) u by linarith
    then show ?thesis using prompt_ubatch(2)[OF f T b] b(1) by (simp add: ubatch_outputs_def)
  qed
  let ?cx = "cx\<lparr>cx_output_ids := replicate (cx_n_batch cx) (- 1), cx_n_outputs := 0,
      cx_logits := Some (replicate (max 1 (cx_n_seq_max cx)) None)\<rparr>"
  have "\<forall>ub \<in> set front. ub_ok ub \<and> ubatch_outputs n 1 ub = 0" using zero ubs by simp
  with decode_loop_front[of ?cx front n 1 s1 env 0] obtain kv d k where
    L: "\<And>rest. decode_loop env n 1 (zip s1 front @ rest) 0 ?cx =
      decode_loop env n 1 rest 0 (?cx\<lparr>cx_memory := kv, cx_data := d, cx_n_outputs := k\<rparr>)"
    "kv_kept (cx_memory cx) kv" "kv_free kv = kv_free (cx_memory cx) - slot_cells s1" "kv_shifts kv = kv_shifts (cx_memory cx)"
    "\<And>s. s < length (kv_seq_to_stream (cx_memory cx)) \<Longrightarrow> kv_positions kv s =
       kv_positions (cx_memory cx) s \<union> (\<Union>ub \<in> set front. ub_positions ub s)"
    using kv(1,2) s'(2) env(1) by auto
  have z: "zip sis (front @ u # back) = zip s1 front @ (si, u) # zip s2 back"
    using s'(1) si plain_slots_length[OF s'(2)] by simp
  have "output_reserve env 1 cx = (?cx, max 1 (cx_n_seq_max cx))"
    using env(2) ids by (auto simp: output_reserve_def Let_def)
  then have "decode_run env n 1 sis (front @ u # back) cx =
      and_then (decode_loop env n 1 (zip s1 front @ (si, u) # zip s2 back) 0 ?cx) decode_result"
    unfolding decode_run_def z decode_result_def by (auto intro!: arg_cong2[where f = and_then] split: option.splits prod.splits)
  moreover obtain idxs where "plain_slot u kv si idxs" using s'(3) si L(3) by (auto simp: plain_slot_free)
  moreover have "(\<Union>ub \<in> set front. ub_positions ub s) = (if s = 0 then {q..<q + int m} else {})" for s
    using positions_rows[OF f S(3), of s] S(2) by simp
  ultimately show ?thesis
    using L s'(2) by (intro exI[of _ kv] exI[of _ d] exI[of _ k] exI[of _ si] exI[of _ s1] exI[of _ s2] exI[of _ idxs]) simp
qed

lemma positions_below_next:
  assumes "kv_inv (cx_memory cx)" "0 < length (kv_seq_to_stream (cx_memory cx))" "p \<in> kv_positions (cx_memory cx) 0"
  shows "p < next_pos cx"
proof -
  let ?c = "kv_v_cells (cx_memory cx) ! kv_stream (cx_memory cx) 0"
  have c: "cells_inv ?c" using kv_invD(5,6)[OF assms(1)] assms(2) by blast
  have "p \<in> seq_positions ?c 0" using assms(3) by (simp add: kv_positions_def)
  then show ?thesis
    using finite_seq_positions[of ?c 0] Max_ge[of "seq_positions ?c 0" p]
    by (auto simp: next_pos_def mem_pos_max_def kv_bounds_def cells_seq_pos_max_eq[OF c] LLAMA_MAX_SEQ_def)
qed

lemma kv_same_positions:
  assumes "kv_inv kv" "kv_n_stream kv = 1" "kv_same kv kv'" "s < length (kv_seq_to_stream kv)"
  shows "kv_positions kv' s = kv_positions kv s"
proof -
  have k: "kv_kept kv kv'" using assms(3) by (simp add: kv_same_def)
  have "kv_stream kv s = 0" "kv_stream kv' s = 0"
    using kv_invD(5)[OF assms(1,4)] assms(2) kv_keptD(5)[OF k] by (simp_all add: kv_stream_def)
  then show ?thesis using assms(3) by (simp add: kv_positions_def seq_positions_def kv_same_def)
qed


lemma ctx_ready_keep:
  assumes "ctx_ready cx" "kv_kept (cx_memory cx) kv" "kv_shifts kv = kv_shifts (cx_memory cx)"
    "al_n_pos_per_embd a = 1" "length ids = cx_n_batch cx"
  shows "ctx_ready (cx\<lparr>cx_memory := kv, cx_balloc := a, cx_output_ids := ids, cx_output_swaps := sw, cx_logits := lg,
    cx_data := d, cx_n_outputs := k\<rparr>)"
proof -
  have C: "kv_inv (cx_memory cx)" "\<not> kv_get_has_shift (cx_memory cx)" "kv_sc_ssrc (cx_memory cx) = []" "kv_sc_sdst (cx_memory cx) = []"
    using assms(1) by (simp_all add: ctx_ready_def Let_def)
  have "kv_sc_ssrc kv = []" "kv_sc_sdst kv = []"
    using kv_keptD(2)[OF assms(2)] C(3,4)
    by (auto simp: kv_cfg_def dest: arg_cong[where f = kv_sc_ssrc] arg_cong[where f = kv_sc_sdst])
  moreover have "\<not> kv_get_has_shift kv"
    using C(2) assms(3) kv_get_has_shift_eq[OF C(1)] kv_get_has_shift_eq[OF kv_keptD(1)[OF assms(2)]] by simp
  ultimately show ?thesis
    using assms(1,4,5) kv_keptD[OF assms(2)] by (simp add: ctx_ready_def Let_def)
qed

lemma next_pos_eq:
  assumes "kv_inv (cx_memory cx)" "0 < length (kv_seq_to_stream (cx_memory cx))"
  shows "next_pos cx = (if kv_positions (cx_memory cx) 0 = {} then 0 else Max (kv_positions (cx_memory cx) 0) + 1)"
proof -
  let ?c = "kv_v_cells (cx_memory cx) ! kv_stream (cx_memory cx) 0"
  have c: "cells_inv ?c" using kv_invD(5,6)[OF assms(1)] assms(2) by blast
  show ?thesis
    using assms(2) by (simp add: next_pos_def mem_pos_max_def kv_bounds_def cells_seq_pos_max_eq[OF c] LLAMA_MAX_SEQ_def
        kv_positions_def)
qed

lemma next_pos_advance:
  assumes "kv_inv (cx_memory cx)" "kv_inv (cx_memory cx')" "0 < length (kv_seq_to_stream (cx_memory cx))"
    "kv_seq_to_stream (cx_memory cx') = kv_seq_to_stream (cx_memory cx)"
    "kv_positions (cx_memory cx') 0 = kv_positions (cx_memory cx) 0 \<union> {next_pos cx..<next_pos cx + int n}" "0 < n"
  shows "next_pos cx' = next_pos cx + int n"
proof -
  let ?P = "kv_positions (cx_memory cx') 0"
  have "Max ?P = next_pos cx + int n - 1"
  proof (rule Max_eqI)
    show "finite ?P" by (simp add: kv_positions_def finite_seq_positions)
    show "y \<le> next_pos cx + int n - 1" if "y \<in> ?P" for y
      using that positions_below_next[OF assms(1,3)] assms(6) unfolding assms(5) by force
    show "next_pos cx + int n - 1 \<in> ?P" using assms(6) unfolding assms(5) by auto
  qed
  moreover have "?P \<noteq> {}" using assms(6) unfolding assms(5) by auto
  ultimately show ?thesis using next_pos_eq[OF assms(2)] assms(3,4) by simp
qed

lemma kv_free_slots:
  "plain_slots F ubs sis \<Longrightarrow> finite F \<Longrightarrow> slot_cells sis \<subseteq> F \<and> card (slot_cells sis) = sum_list (map ub_n_tokens ubs)"
proof (induction F ubs sis rule: plain_slots.induct)
  case (3 F ub ubs si sis)
  then obtain idxs where i: "si_idxs si = [idxs]" "length idxs = ub_n_tokens ub" "distinct idxs" "set idxs \<subseteq> F"
    "plain_slots (F - set idxs) ubs sis" by auto
  have IH: "slot_cells sis \<subseteq> F - set idxs" "card (slot_cells sis) = sum_list (map ub_n_tokens ubs)"
    using 3(1)[OF i(5)] 3(3) by auto
  have "slot_cells (si # sis) = set idxs \<union> slot_cells sis" using i(1) by (simp add: slot_cells_def)
  then show ?case
    using IH i(2-4) 3(3) card_Un_disjoint[of "set idxs" "slot_cells sis"]
    by (auto simp: distinct_card slot_cells_def)
qed (auto simp: slot_cells_def)

lemma finite_kv_free [simp]: "finite (kv_free kv)"
  by (simp add: kv_free_def)

lemma card_minus: "S \<subseteq> F \<Longrightarrow> finite F \<Longrightarrow> card (F - S) + card S = card F"
  by (metis card_Diff_subset card_mono finite_subset le_add_diff_inverse2)

lemma store_first_row:
  "map (\<lambda>k. if p \<le> k \<and> k < p + 1 then Some (rs ! (k - p)) else replicate (Suc n) None ! k)
     [0..<length (replicate (Suc n) None)] = Some (rs ! 0) # replicate n None" if "p = 0"
  using that by (intro nth_equalityI) (auto simp: nth_Cons' simp del: upt_Suc replicate_Suc)


text \<open>The ubatch that holds token \<open>k\<close>.\<close>

lemma find_ubatch:
  assumes "k < length (concat (map ub_rows us))"
  obtains front u post where "us = front @ u # post" "length (concat (map ub_rows front)) \<le> k"
    "k < length (concat (map ub_rows front)) + ub_n_tokens u"
  using assms
proof (induction us arbitrary: k thesis)
  case (Cons u us)
  have l: "length (ub_rows u) = ub_n_tokens u" by (simp add: ub_rows_def)
  show ?case
  proof (cases "k < ub_n_tokens u")
    case True
    then show ?thesis using Cons.prems(1)[of "[]" u us] by simp
  next
    case False
    then have "k - ub_n_tokens u < length (concat (map ub_rows us))" using Cons.prems(2) l by simp
    then obtain front v post where "us = front @ v # post" "length (concat (map ub_rows front)) \<le> k - ub_n_tokens u"
      "k - ub_n_tokens u < length (concat (map ub_rows front)) + ub_n_tokens v"
      using Cons.IH by blast
    then show ?thesis using Cons.prems(1)[of "u # front" v post] False l by auto
  qed
qed simp

definition ub_holds :: "ubatch \<Rightarrow> int \<Rightarrow> bool" where
  "ub_holds ub p \<longleftrightarrow> p \<in> set (take (ub_n_tokens ub) (ub_pos ub))"

lemma ub_holds_iff:
  assumes "\<forall>i < n. f i = (Some (toks ! i), q + int i, [0::nat], of_bool (i = n - 1))"
    and "ub_rows u = map f [m..<m + ub_n_tokens u]" "m + ub_n_tokens u \<le> n" "ub_n_tokens u \<le> length (ub_pos u)"
  shows "ub_holds u (q + int k) \<longleftrightarrow> m \<le> k \<and> k < m + ub_n_tokens u"
proof -
  have p: "ub_pos u ! i = q + int (m + i)" if "i < ub_n_tokens u" for i
    using ub_rows_nth[OF assms(2) that] assms(1)[rule_format, of "m + i"] that assms(3) by auto
  have "ub_holds u (q + int k) \<longleftrightarrow> (\<exists>i < ub_n_tokens u. q + int k = ub_pos u ! i)"
    using assms(4) by (auto simp: ub_holds_def in_set_conv_nth)
  also have "\<dots> \<longleftrightarrow> (\<exists>i < ub_n_tokens u. k = m + i)" using p by auto
  also have "\<dots> \<longleftrightarrow> m \<le> k \<and> k < m + ub_n_tokens u" by (auto intro!: exI[of _ "k - m"])
  finally show ?thesis .
qed

text \<open>The call up to the graph of the ubatch that holds token \<open>k\<close>, where the graphs before it succeed.\<close>

definition reserved :: "('t, 'r) llama_context \<Rightarrow> allocr \<Rightarrow> kv_cache \<Rightarrow> 't \<Rightarrow> nat \<Rightarrow> ('t, 'r) llama_context" where
  "reserved cx a kv d k = cx\<lparr>cx_memory := kv, cx_balloc := a, cx_output_swaps := [],
     cx_output_ids := replicate (cx_n_batch cx) (- 1),
     cx_logits := Some (replicate (max 1 (cx_n_seq_max cx)) None), cx_data := d, cx_n_outputs := k\<rparr>"

lemma computes_front:
  assumes f: "\<forall>i < n. f i = (Some (toks ! i), q + int i, [0::nat], of_bool (i = n - 1))"
    and rows: "concat (map ub_rows (front @ u # post)) = map f [0..<n]" "length (concat (map ub_rows front)) \<le> k"
    and pos: "\<forall>ub \<in> set front. ub_n_tokens ub \<le> length (ub_pos ub)"
    and env: "\<And>ub n kv d. \<not> ub_holds ub (q + int k) \<Longrightarrow> \<exists>d' rows. env_compute env ub n kv d = (d', GGML_SUCCESS, Some rows)"
  shows "computes env front"
  unfolding computes_def
proof (intro ballI allI)
  fix ub n' kv d assume ub: "ub \<in> set front"
  obtain f1 f2 where f12: "front = f1 @ ub # f2" using ub by (meson split_list)
  have "concat (map ub_rows (f1 @ ub # (f2 @ u # post))) = map f [0..<n]" using rows(1) by (simp add: f12)
  note T = rows_split(1,2)[OF this]
  have "length (concat (map ub_rows f1)) + ub_n_tokens ub \<le> k" using rows(2) by (simp add: f12 ub_rows_def)
  then have "\<not> ub_holds ub (q + int k)" using ub_holds_iff[OF f T] pos ub by auto
  then show "\<exists>d' rows. env_compute env ub n' kv d = (d', GGML_SUCCESS, Some rows)" by (rule env)
qed

lemma decode_reach:
  assumes R: "prompt_ready toks cx" and free: "length toks \<le> card (kv_free (cx_memory cx))"
    and alloc: "env_alloc_ok env (max 1 (cx_n_seq_max cx))" and k: "k < length toks"
    and env: "\<And>ub n kv d. \<not> ub_holds ub (next_pos cx + int k) \<Longrightarrow>
      \<exists>d' rows. env_compute env ub n kv d = (d', GGML_SUCCESS, Some rows)"
  obtains a kv d kv1 d1 st rs n_kv u post si s2 f m where
    "llama_decode env (llama_batch_get_one toks) cx = and_then (decode_loop env (length toks) 1 ((si, u) # zip s2 post) 0
       (reserved cx a kv d 0)) decode_result"
    "process_ubatch env si u (reserved cx a kv d (ubatch_outputs (length toks) 1 u)) =
       Inr (reserved cx a kv1 d1 (ubatch_outputs (length toks) 1 u), st, rs)"
    "env_compute env u n_kv kv1 d = (d1, st, rs)" "kv_kept (cx_memory cx) kv1" "kv_shifts kv1 = kv_shifts (cx_memory cx)"
    "card (kv_free kv1) + (m + ub_n_tokens u) = card (kv_free (cx_memory cx))"
    "\<forall>s < length (kv_seq_to_stream (cx_memory cx)). kv_positions kv1 s = kv_positions (cx_memory cx) s \<union>
      (if s = 0 then {next_pos cx..<next_pos cx + int (m + ub_n_tokens u)} else {})"
    "al_n_pos_per_embd a = 1" "al_out_ids a = [length toks - 1]"
    "\<forall>i < length toks. f i = (Some (toks ! i), next_pos cx + int i, [0::nat], of_bool (i = length toks - 1))"
    "ub_rows u = map f [m..<m + ub_n_tokens u]" "m + ub_n_tokens u \<le> length toks" "0 < ub_n_tokens u"
    "length (ub_output u) = ub_n_tokens u" "m \<le> k" "k < m + ub_n_tokens u" "ub_holds u (next_pos cx + int k)"
    "m + ub_n_tokens u = length toks \<longleftrightarrow> post = []" "0 \<le> next_pos cx"
proof -
  note D = prompt_readyD[OF R]
  let ?n = "length toks" and ?kv = "cx_memory cx" and ?q = "next_pos cx"
  from decode_setup[OF R, of env] obtain a kv' sis ubs f where same: "kv_same ?kv kv'"
    and dec: "llama_decode env (llama_batch_get_one toks) cx =
      decode_run env ?n 1 sis ubs (cx\<lparr>cx_memory := kv', cx_balloc := a, cx_output_swaps := []\<rparr>)"
    and U: "plain_slots (kv_free ?kv) ubs sis" "\<forall>ub \<in> set ubs. ub_good ?kv ub \<and> length (ub_output ub) = ub_n_tokens ub"
      "\<forall>ub \<in> set ubs. ub_n_tokens ub \<le> length (ub_pos ub)" "concat (map ub_rows ubs) = map f [0..<?n]"
    and np: "al_n_pos_per_embd a = 1" "al_out_ids a = [?n - 1]" "kv_shifts kv' = kv_shifts ?kv"
    and q0: "0 \<le> ?q" and f: "\<forall>i < ?n. f i = (Some (toks ! i), ?q + int i, [0], of_bool (i = ?n - 1))"
    unfolding Let_def if_P[OF free] using free by blast
  let ?cx1 = "cx\<lparr>cx_memory := kv', cx_balloc := a, cx_output_swaps := []\<rparr>"
  have "k < length (concat (map ub_rows ubs))" using k U(4) by simp
  then obtain front u post where split: "ubs = front @ u # post" and mk: "length (concat (map ub_rows front)) \<le> k"
    "k < length (concat (map ub_rows front)) + ub_n_tokens u" by (rule find_ubatch)
  define m where "m = length (concat (map ub_rows front))"
  have rows: "concat (map ub_rows (front @ u # post)) = map f [0..<?n]" using U(4) by (simp add: split)
  note S = rows_split[OF rows, folded m_def]
  have ubs: "\<forall>ub \<in> set (front @ u # post). ub_ok ub \<and> 0 < ub_n_tokens ub \<and> length (ub_output ub) = ub_n_tokens ub"
    using U(2) by (simp add: split ub_good_def)
  have comp: "computes env front"
    by (rule computes_front[OF f rows mk(1) _ env]) (use U(3) in \<open>auto simp: split\<close>)
  have k': "kv_kept ?kv kv'" "kv_free kv' = kv_free ?kv" using same kv_same_free by (auto simp: kv_same_def)
  have pl: "plain_slots (kv_free (cx_memory ?cx1)) (front @ u # post) sis" using U(1) k'(2) split by simp
  have p: "kv_inv (cx_memory ?cx1)" "kv_n_stream (cx_memory ?cx1) = 1" "env_alloc_ok env (max 1 (cx_n_seq_max ?cx1))"
    "cx_output_ids ?cx1 = [] \<or> length (cx_output_ids ?cx1) = cx_n_batch ?cx1"
    using kv_keptD(1,4)[OF k'(1)] D(2,17) alloc by auto
  have mem: "cx_memory ?cx1 = kv'" by simp
  have res: "?cx1\<lparr>cx_output_ids := replicate (cx_n_batch ?cx1) (- 1), cx_logits := Some (replicate (max 1 (cx_n_seq_max ?cx1)) None),
      cx_memory := kv, cx_data := d, cx_n_outputs := j\<rparr> = reserved cx a kv d j" for kv d j
    by (simp add: reserved_def)
  obtain kv d j si s1 s2 idxs where L: "decode_run env ?n 1 sis ubs ?cx1 =
      and_then (decode_loop env ?n 1 ((si, u) # zip s2 post) 0 (reserved cx a kv d j)) decode_result"
    "plain_slot u kv si idxs" "kv_kept kv' kv" "kv_shifts kv = kv_shifts kv'" "kv_free kv = kv_free kv' - slot_cells s1"
    "plain_slots (kv_free kv') front s1"
    "\<forall>s < length (kv_seq_to_stream kv'). kv_positions kv s = kv_positions kv' s \<union> (if s = 0 then {?q..<?q + int m} else {})"
    using decode_upto[OF p(1,2) pl ubs rows f comp p(3,4), folded m_def] unfolding split res mem by blast
  have kk: "kv_kept ?kv kv" using kv_kept_trans[OF k'(1) L(3)] .
  have uu: "0 < ub_n_tokens u" "length (ub_output u) = ub_n_tokens u" "ub_ok u" "ub_n_tokens u \<le> length (ub_pos u)"
    using ubs U(3) by (auto simp: split)
  let ?o = "ubatch_outputs ?n 1 u"
  obtain kv1 d1 st rs n_kv where Q: "process_ubatch env si u (reserved cx a kv d ?o) =
      Inr ((reserved cx a kv d ?o)\<lparr>cx_memory := kv1, cx_data := d1\<rparr>, st, rs)"
    "env_compute env u n_kv kv1 d = (d1, st, rs)" "kv_kept kv kv1" "kv_free kv1 = kv_free kv - set idxs"
    "kv_shifts kv1 = kv_shifts kv"
    "\<And>s. s < length (kv_seq_to_stream kv) \<Longrightarrow> kv_positions kv1 s = kv_positions kv s \<union> ub_positions u s"
    by (rule process_ubatch_plain[of "reserved cx a kv d ?o" u si idxs env])
      (use kv_keptD[OF kk] D(2) uu(3) L(2) in \<open>auto simp: reserved_def\<close>)
  have "sum_list (map ub_n_tokens front) = m" by (simp add: m_def sum_rows)
  then have c1: "card (kv_free kv) + m = card (kv_free ?kv)"
    using kv_free_slots[OF L(6)] L(5) k'(2) card_minus[of "slot_cells s1" "kv_free ?kv"] by simp
  have c2: "card (kv_free kv1) + ub_n_tokens u = card (kv_free kv)"
    using L(2) Q(4) card_minus[of "set idxs" "kv_free kv"] by (simp add: plain_slot_free distinct_card)
  have pos: "kv_positions kv1 s = kv_positions ?kv s \<union> (if s = 0 then {?q..<?q + int (m + ub_n_tokens u)} else {})"
    if s: "s < length (kv_seq_to_stream ?kv)" for s
  proof -
    have "kv_positions kv1 s = kv_positions kv' s \<union> (if s = 0 then {?q..<?q + int m} else {}) \<union> ub_positions u s"
      using Q(6)[of s] L(7) s kv_keptD(5)[OF kk] kv_keptD(5)[OF k'(1)] by simp
    also have "kv_positions kv' s = kv_positions ?kv s" by (rule kv_same_positions[OF D(1,2) same s])
    finally show ?thesis using prompt_ubatch(1)[OF f S(1,2) uu(1,2), of s] by auto
  qed
  have "m + ub_n_tokens u < ?n" if "post \<noteq> []"
  proof -
    have "0 < ub_n_tokens (hd post)" using ubs that by (cases post) auto
    then have "0 < length (concat (map ub_rows post))" using that by (cases post) (auto simp: ub_rows_def)
    moreover have "m + ub_n_tokens u + length (concat (map ub_rows post)) = ?n"
      using arg_cong[OF rows, of length] by (simp add: m_def ub_rows_def)
    ultimately show ?thesis by linarith
  qed
  then have last: "m + ub_n_tokens u = ?n \<longleftrightarrow> post = []" using S(4) by (cases "post = []") auto
  have holds: "ub_holds u (?q + int k)" using ub_holds_iff[OF f S(1,2) uu(4)] mk by (auto simp: m_def)
  have dec0: "llama_decode env (llama_batch_get_one toks) cx =
      and_then (decode_loop env ?n 1 ((si, u) # zip s2 post) 0 (reserved cx a kv d 0)) decode_result"
    unfolding dec L(1) by (simp add: reserved_def)
  have run: "process_ubatch env si u (reserved cx a kv d ?o) = Inr (reserved cx a kv1 d1 ?o, st, rs)"
    using Q(1) by (simp add: reserved_def)
  show ?thesis
    by (rule that[OF dec0 run Q(2) kv_kept_trans[OF kk Q(3)] _ _ _ np(1,2) f S(1,2) uu(1,2) _ _ holds last q0])
      (use Q(5) L(4) np(3) c1 c2 pos mk in \<open>auto simp: m_def\<close>)
qed

text \<open>What a successful call leaves behind.\<close>

lemma decode_prompt_run:
  assumes R: "prompt_ready toks cx" and free: "length toks \<le> card (kv_free (cx_memory cx))"
    and alloc: "env_alloc_ok env (max 1 (cx_n_seq_max cx))"
    and env: "\<And>ub n kv d. \<exists>d' rows. env_compute env ub n kv d = (d', GGML_SUCCESS, Some rows)"
  shows "\<exists>kv d a ids rows ub n_kv kv1 d1. llama_decode env (llama_batch_get_one toks) cx =
      Inr (cx\<lparr>cx_memory := kv, cx_balloc := a, cx_output_ids := ids, cx_output_swaps := [],
        cx_logits := Some (Some (rows ! 0) # replicate (cx_n_seq_max cx - 1) None), cx_data := d, cx_n_outputs := 1\<rparr>, 0) \<and>
    kv_kept (cx_memory cx) kv \<and> kv_shifts kv = kv_shifts (cx_memory cx) \<and> al_n_pos_per_embd a = 1 \<and>
    length ids = cx_n_batch cx \<and> ids ! (length toks - 1) = 0 \<and>
    card (kv_free kv) + length toks = card (kv_free (cx_memory cx)) \<and>
    (\<forall>s < length (kv_seq_to_stream (cx_memory cx)). kv_positions kv s = kv_positions (cx_memory cx) s \<union>
      (if s = 0 then {next_pos cx..<next_pos cx + int (length toks)} else {})) \<and>
    env_compute env ub n_kv kv1 d1 = (d, GGML_SUCCESS, Some rows) \<and>
    last (ub_rows ub) = (Some (last toks), next_pos cx + int (length toks) - 1, [0], 1)"
proof -
  note D = prompt_readyD[OF R]
  let ?n = "length toks" and ?q = "next_pos cx"
  have "?n - 1 < ?n" using D(8) by simp
  from decode_reach[OF R free alloc this env]
  obtain a kv d kv1 d1 st rs n_kv u post si s2 f m where
    L: "llama_decode env (llama_batch_get_one toks) cx =
      and_then (decode_loop env ?n 1 ((si, u) # zip s2 post) 0 (reserved cx a kv d 0)) decode_result"
    "process_ubatch env si u (reserved cx a kv d (ubatch_outputs ?n 1 u)) =
       Inr (reserved cx a kv1 d1 (ubatch_outputs ?n 1 u), st, rs)"
    "env_compute env u n_kv kv1 d = (d1, st, rs)" "kv_kept (cx_memory cx) kv1" "kv_shifts kv1 = kv_shifts (cx_memory cx)"
    "card (kv_free kv1) + (m + ub_n_tokens u) = card (kv_free (cx_memory cx))"
    "\<forall>s < length (kv_seq_to_stream (cx_memory cx)). kv_positions kv1 s = kv_positions (cx_memory cx) s \<union>
      (if s = 0 then {?q..<?q + int (m + ub_n_tokens u)} else {})"
    "al_n_pos_per_embd a = 1" "al_out_ids a = [?n - 1]"
    and f: "\<forall>i < ?n. f i = (Some (toks ! i), ?q + int i, [0::nat], of_bool (i = ?n - 1))"
    and u: "ub_rows u = map f [m..<m + ub_n_tokens u]" "m + ub_n_tokens u \<le> ?n" "0 < ub_n_tokens u"
      "length (ub_output u) = ub_n_tokens u" "?n - 1 < m + ub_n_tokens u" "m + ub_n_tokens u = ?n \<longleftrightarrow> post = []"
    by metis
  note P = prompt_ubatch[OF f u(1-4)]
  have mn: "m + ub_n_tokens u = ?n" "post = []" using u(2,5,6) by linarith+
  have one: "ubatch_outputs ?n 1 u = 1" using P(2) mn u(2,3) by (auto simp: ubatch_outputs_def)
  obtain rows where st: "st = GGML_SUCCESS" "rs = Some rows" using env[of u n_kv kv1 d] L(3) by auto
  let ?lg = "Some (Some (rows ! 0) # replicate (cx_n_seq_max cx - 1) None)"
  obtain N where N: "cx_n_seq_max cx = Suc N" using D(14) by (cases "cx_n_seq_max cx") auto
  have store: "store_logits u 1 0 rs (reserved cx a kv1 d1 1) = Inr ((reserved cx a kv1 d1 1)\<lparr>cx_logits := ?lg\<rparr>)"
    using P(4)[OF mn(1)] D(13) store_first_row[OF refl, of rows N] unfolding st(2) store_logits_def N reserved_def
    by (simp del: upt_Suc replicate_Suc)
  let ?ids = "(replicate (cx_n_batch cx) (- 1 :: int))[?n - 1 := 0]"
  have fin: "decode_finish 1 ((reserved cx a kv1 d1 1)\<lparr>cx_logits := ?lg\<rparr>) =
      Inr ((reserved cx a kv1 d1 1)\<lparr>cx_logits := ?lg, cx_balloc := a, cx_output_ids := ?ids\<rparr>, 0)"
    using L(9) by (auto simp: decode_finish_def map_outputs_def assign_rows_def Let_def reserved_def intro!: llama_context.equality)
  have run: "llama_decode env (llama_batch_get_one toks) cx =
      Inr (cx\<lparr>cx_memory := kv1, cx_balloc := a, cx_output_ids := ?ids, cx_output_swaps := [], cx_logits := ?lg,
        cx_data := d1, cx_n_outputs := 1\<rparr>, 0)"
    unfolding L(1) using one L(2) st(1) store fin mn(2) by (simp add: decode_result_def reserved_def)
  have "m < ?n" using u(3) mn by linarith
  then have "last (ub_rows u) = f (?n - 1)" unfolding u(1) mn(1) by (subst last_map) (auto simp: last_upt)
  then have lst: "last (ub_rows u) = (Some (last toks), ?q + int ?n - 1, [0], 1)"
    using f[rule_format, of "?n - 1"] D(8) by (simp add: last_conv_nth of_nat_diff Suc_le_eq)
  have "?n - 1 < cx_n_batch cx" using \<open>m < ?n\<close> D(10) by linarith
  then have ids: "?ids ! (?n - 1) = 0" by simp
  show ?thesis
    using run L(3-8) st lst ids mn(1)
    by (rule_tac exI[of _ kv1], rule_tac exI[of _ d1], rule_tac exI[of _ a], rule_tac exI[of _ ?ids], rule_tac exI[of _ rows],
        rule_tac exI[of _ u], rule_tac exI[of _ n_kv], rule_tac exI[of _ kv1], rule_tac exI[of _ d]) simp
qed

lemma get_logits_first:
  fixes cx :: "('t, 'r) llama_context"
  assumes "cx_output_swaps cx = []" "cx_n_outputs cx = 1" "cx_logits cx = Some (r # rs)"
    "i = - 1 \<or> 0 \<le> i \<and> nat i < length (cx_output_ids cx) \<and> cx_output_ids cx ! nat i = 0"
  shows "snd (get_logits_ith i cx) = Some r"
  using assms by (auto simp: get_logits_ith_def output_reorder_def output_resolve_row_def Let_def reorder_rows_def)

lemma get_logits_cong:
  assumes "cx_output_swaps cx' = cx_output_swaps cx" "cx_n_outputs cx' = cx_n_outputs cx" "cx_logits cx' = cx_logits cx"
    "cx_output_ids cx' = cx_output_ids cx"
  shows "snd (get_logits_ith i cx') = snd (get_logits_ith i cx)"
proof -
  have res: "output_resolve_row i (output_reorder cx') = output_resolve_row i (output_reorder cx)"
    using assms by (simp add: output_resolve_row_def output_reorder_def Let_def)
  have "cx_logits (output_reorder cx') = cx_logits (output_reorder cx)" using assms(1,3) by (simp add: output_reorder_def)
  then show ?thesis unfolding get_logits_ith_def Let_def snd_conv res by simp
qed

section \<open>Properties\<close>

text \<open>C5. A prompt that fits the free cells, when every graph succeeds: \<^verbatim>\<open>llama_decode\<close> returns 0, sequence
  0 is continued by exactly one position per token, no other sequence changes, and both index \<open>-1\<close> and the
  batch index of the last token give the row the graph computed for the ubatch that ends with the last
  token.\<close>

theorem decode_prompt:
  assumes "prompt_ready toks cx" "length toks \<le> card (kv_free (cx_memory cx))" "env_alloc_ok env (max 1 (cx_n_seq_max cx))"
    and "\<And>ub n kv d. \<exists>d' rows. env_compute env ub n kv d = (d', GGML_SUCCESS, Some rows)"
  shows "\<exists>cx' ub n_kv kv d d' rows. llama_decode env (llama_batch_get_one toks) cx = Inr (cx', 0) \<and>
    kv_inv (cx_memory cx') \<and> next_pos cx' = next_pos cx + int (length toks) \<and>
    kv_positions (cx_memory cx') 0 = kv_positions (cx_memory cx) 0 \<union> {next_pos cx..<next_pos cx + int (length toks)} \<and>
    (\<forall>s. 0 < s \<longrightarrow> s < length (kv_seq_to_stream (cx_memory cx)) \<longrightarrow>
       kv_positions (cx_memory cx') s = kv_positions (cx_memory cx) s) \<and>
    env_compute env ub n_kv kv d = (d', GGML_SUCCESS, Some rows) \<and>
    last (ub_rows ub) = (Some (last toks), next_pos cx + int (length toks) - 1, [0], 1) \<and>
    snd (get_logits_ith (- 1) cx') = Some (Some (rows ! 0)) \<and>
    snd (get_logits_ith (int (length toks) - 1) cx') = Some (Some (rows ! 0))"
proof -
  note D = prompt_readyD[OF assms(1)]
  obtain kv d a ids rows ub n_kv kv1 d1 where dec: "llama_decode env (llama_batch_get_one toks) cx =
      Inr (cx\<lparr>cx_memory := kv, cx_balloc := a, cx_output_ids := ids, cx_output_swaps := [],
        cx_logits := Some (Some (rows ! 0) # replicate (cx_n_seq_max cx - 1) None), cx_data := d, cx_n_outputs := 1\<rparr>, 0)"
    (is "_ = Inr (?cx', 0)")
    and kept: "kv_kept (cx_memory cx) kv" and ids: "length ids = cx_n_batch cx" "ids ! (length toks - 1) = 0"
    and pos: "\<forall>s < length (kv_seq_to_stream (cx_memory cx)). kv_positions kv s = kv_positions (cx_memory cx) s \<union>
      (if s = 0 then {next_pos cx..<next_pos cx + int (length toks)} else {})"
    and comp: "env_compute env ub n_kv kv1 d1 = (d, GGML_SUCCESS, Some rows)"
      "last (ub_rows ub) = (Some (last toks), next_pos cx + int (length toks) - 1, [0], 1)"
    using decode_prompt_run[OF assms] by blast
  have len: "length toks - 1 < cx_n_batch cx" using D(8,10) by (cases toks) auto
  have "snd (get_logits_ith (- 1) ?cx') = Some (Some (rows ! 0))"
    by (rule get_logits_first) auto
  moreover have "snd (get_logits_ith (int (length toks) - 1) ?cx') = Some (Some (rows ! 0))"
    by (rule get_logits_first) (use ids D(8) len in \<open>auto simp: nat_diff_distrib Suc_le_eq\<close>)
  moreover have p0: "kv_positions kv 0 = kv_positions (cx_memory cx) 0 \<union> {next_pos cx..<next_pos cx + int (length toks)}"
    using pos D(4) by simp
  moreover have "next_pos ?cx' = next_pos cx + int (length toks)"
    by (rule next_pos_advance) (use D(1,4,8) kv_keptD[OF kept] p0 in auto)
  ultimately show ?thesis
    using kv_keptD(1)[OF kept] pos dec comp by (rule_tac exI[of _ ?cx']) (auto intro!: exI)
qed

text \<open>A prompt with more tokens than free cells: \<^verbatim>\<open>llama_decode\<close> returns 1 and leaves the memory, the
  output buffer, the number of outputs and the row table as they were, so that reading logits afterwards
  gives those of the previous call.\<close>

theorem decode_no_slot:
  assumes "prompt_ready toks cx" "card (kv_free (cx_memory cx)) < length toks" "cx_output_swaps cx = []"
  shows "\<exists>cx'. llama_decode env (llama_batch_get_one toks) cx = Inr (cx', 1) \<and> kv_same (cx_memory cx) (cx_memory cx') \<and>
    (\<forall>s < length (kv_seq_to_stream (cx_memory cx)). kv_positions (cx_memory cx') s = kv_positions (cx_memory cx) s) \<and>
    (\<forall>i. snd (get_logits_ith i cx') = snd (get_logits_ith i cx))"
proof -
  note D = prompt_readyD[OF assms(1)]
  have no: "\<not> length toks \<le> card (kv_free (cx_memory cx))" using assms(2) by simp
  obtain a' kv' where same: "kv_same (cx_memory cx) kv'" and "llama_decode env (llama_batch_get_one toks) cx =
      Inr (cx\<lparr>cx_memory := kv', cx_balloc := a', cx_output_swaps := []\<rparr>, 1)" (is "_ = Inr (?cx', 1)")
    using decode_setup[OF assms(1), of env] unfolding Let_def if_not_P[OF no] by blast
  moreover have "snd (get_logits_ith i ?cx') = snd (get_logits_ith i cx)" for i
    by (rule get_logits_cong) (use assms(3) in auto)
  ultimately show ?thesis
    using kv_same_positions[OF D(1,2) same] by (rule_tac exI[of _ ?cx']) simp
qed


section \<open>Examples\<close>

definition ex_env :: "(ubatch \<Rightarrow> ggml_status) \<Rightarrow> (nat, nat) llama_env" where
  "ex_env st = \<lparr>env_compute = (\<lambda>ub n kv d. (Suc d, st ub, Some [d])), env_update = (\<lambda>sc b kv d. (d, True)),
     env_alloc_ok = (\<lambda>_. True)\<rparr>"

definition ex_cx :: "(nat, nat) llama_context" where
  "ex_cx = \<lparr>cx_n_ctx = 4, cx_n_batch = 4, cx_n_ubatch = 1, cx_n_seq_max = 1, cx_kv_unified = True,
     cx_causal_attn = True, cx_embeddings = False, cx_n_vocab = 10, cx_n_embd_inp = 8, cx_rope = True,
     cx_samplers = {}, cx_memory = ex_kv True, cx_data = 0, cx_balloc = al_new 1, cx_n_outputs = 0,
     cx_output_ids = [], cx_output_swaps = [], cx_logits = None\<rparr>"

lemma ex_cx_fields [simp]: "cx_memory ex_cx = ex_kv True" "cx_n_seq_max ex_cx = 1" "cx_n_batch ex_cx = 4"
  "cx_output_swaps ex_cx = []" "cx_n_vocab ex_cx = 10" "cx_n_ctx ex_cx = 4"
  by (simp_all add: ex_cx_def)

lemma ex_cx_ready: "ctx_ready ex_cx"
proof -
  have "\<not> kv_get_has_shift (ex_kv True)" "kv_sc_ssrc (ex_kv True) = []" "kv_sc_sdst (ex_kv True) = []"
    by (auto simp: kv_get_has_shift_def ex_kv_def kv_new_def ex_cells_def kv_set_stream_def cells_resize_def cells_reset_def Let_def)
  then show ?thesis
    using ex_kv_inv[of True] by (simp add: ctx_ready_def Let_def) (simp add: ex_cx_def LLAMA_MAX_SEQ_def al_new_def)
qed

lemma ex_next_pos: "next_pos ex_cx = 2"
proof -
  have "kv_positions (ex_kv True) 0 = {0, 1}" by (simp add: LLAMA_MAX_SEQ_def)
  then show ?thesis using next_pos_eq[of ex_cx] ex_kv_inv[of True] by simp
qed

theorem decode_prompt_witness:
  "\<exists>cx'. llama_decode (ex_env (\<lambda>_. GGML_SUCCESS)) (llama_batch_get_one [3, 4]) ex_cx = Inr (cx', 0) \<and> next_pos cx' = 4"
  using decode_prompt[of "[3, 4]" ex_cx "ex_env (\<lambda>_. GGML_SUCCESS)"] ex_cx_ready
  by (auto simp: prompt_ready_def ex_kv_free ex_env_def ex_next_pos)

theorem decode_no_slot_witness:
  "\<exists>cx'. llama_decode (ex_env (\<lambda>_. GGML_SUCCESS)) (llama_batch_get_one [3, 4, 5]) ex_cx = Inr (cx', 1) \<and>
     kv_positions (cx_memory cx') 0 = {0, 1}"
  using decode_no_slot[of "[3, 4, 5]" ex_cx "ex_env (\<lambda>_. GGML_SUCCESS)"] ex_cx_ready
  by (auto simp: prompt_ready_def ex_kv_free LLAMA_MAX_SEQ_def)


end
