(* ===== verification/Context_Init.thy ===== *)
theory Context_Init
  imports Llama_Context
begin

text \<open>
  Construction of a context (\<^verbatim>\<open>llama_context_default_params\<close>, \<^verbatim>\<open>llama_init_from_model\<close> and the
  constructor of \<^verbatim>\<open>llama_context\<close> in \<^verbatim>\<open>llama-context.cpp\<close>) for a model whose memory is a plain
  \<^verbatim>\<open>llama_kv_cache\<close>, and the interface through which the application uses a context: decode a list of
  tokens, then read one row.
\<close>

section \<open>Construction\<close>

text \<open>What the constructor reads of a model.\<close>

record model_info =
  mi_n_ctx_train :: nat
  mi_causal_attn :: bool
  mi_n_vocab :: nat
  mi_n_embd_inp :: nat
  mi_n_pos_per_embd :: nat
  mi_rope :: bool
  mi_step35 :: bool
  mi_n_swa :: nat

record ctx_params =
  cp_n_ctx :: nat
  cp_n_batch :: nat
  cp_n_ubatch :: nat
  cp_n_seq_max :: nat
  cp_embeddings :: bool
  cp_kv_unified :: bool
  cp_causal_attn :: "bool option"

definition llama_context_default_params :: ctx_params where
  "llama_context_default_params = \<lparr>cp_n_ctx = 512, cp_n_batch = 2048, cp_n_ubatch = 512, cp_n_seq_max = 1,
     cp_embeddings = False, cp_kv_unified = False, cp_causal_attn = None\<rparr>"

record ctx_sizes =
  cs_n_ctx :: nat
  cs_n_ctx_seq :: nat
  cs_n_batch :: nat
  cs_n_ubatch :: nat
  cs_n_seq_max :: nat
  cs_causal_attn :: bool

definition context_sizes :: "model_info \<Rightarrow> ctx_params \<Rightarrow> ctx_sizes res" where
  "context_sizes model params =
     (let n_seq_max = max 1 (cp_n_seq_max params) in
      if n_seq_max > LLAMA_MAX_SEQ then Inl (Runtime_error ''n_seq_max must be <= 256'')
      else
        (let n_ctx = (if cp_n_ctx params = 0 then mi_n_ctx_train model else cp_n_ctx params);
             causal = (case cp_causal_attn params of None \<Rightarrow> mi_causal_attn model | Some c \<Rightarrow> c);
             n_batch = (if causal then min n_ctx (cp_n_batch params) else cp_n_batch params);
             n_ubatch = min n_batch (if cp_n_ubatch params = 0 then cp_n_batch params else cp_n_ubatch params);
             n_ctx1 = ggml_pad n_ctx 256
         in if cp_kv_unified params
            then Inr \<lparr>cs_n_ctx = n_ctx1, cs_n_ctx_seq = n_ctx1, cs_n_batch = n_batch, cs_n_ubatch = n_ubatch,
              cs_n_seq_max = n_seq_max, cs_causal_attn = causal\<rparr>
            else
              (let n_ctx_seq = ggml_pad (n_ctx1 div n_seq_max) 256 in
               if n_ctx_seq = 0 then Inl (Runtime_error ''n_ctx_seq == 0'')
               else Inr \<lparr>cs_n_ctx = (if n_ctx1 \<noteq> u32 (int (n_ctx_seq * n_seq_max)) then u32 (int (n_ctx_seq * n_seq_max)) else n_ctx1),
                 cs_n_ctx_seq = n_ctx_seq, cs_n_batch = n_batch, cs_n_ubatch = n_ubatch, cs_n_seq_max = n_seq_max,
                 cs_causal_attn = causal\<rparr>)))"

text \<open>\<open>backends_ok\<close>: the devices start; otherwise the constructor throws. The memory is the default case of
  \<^verbatim>\<open>llama_model::create_memory\<close>. The data of the tensors starts as \<open>d0\<close>.\<close>

definition llama_context_new :: "('t, 'r) llama_env \<Rightarrow> bool \<Rightarrow> 't \<Rightarrow> model_info \<Rightarrow> ctx_params \<Rightarrow> ('t, 'r) llama_context res" where
  "llama_context_new env backends_ok d0 model params =
     and_then (context_sizes model params) (\<lambda>cs.
       if \<not> backends_ok then Inl (Runtime_error ''failed to initialize backend'')
       else and_then (kv_new (mi_step35 model) (mi_n_pos_per_embd model) (cp_kv_unified params) (cs_n_ctx_seq cs)
           (cs_n_seq_max cs) 1 (mi_n_swa model) SWA_NONE) (\<lambda>kv.
         case output_reserve env (cp_n_seq_max params)
           \<lparr>cx_n_ctx = cs_n_ctx cs, cx_n_batch = cs_n_batch cs, cx_n_ubatch = cs_n_ubatch cs,
            cx_n_seq_max = cs_n_seq_max cs, cx_kv_unified = cp_kv_unified params, cx_causal_attn = cs_causal_attn cs,
            cx_embeddings = cp_embeddings params, cx_n_vocab = mi_n_vocab model, cx_n_embd_inp = mi_n_embd_inp model,
            cx_rope = mi_rope model, cx_samplers = {}, cx_memory = kv, cx_data = d0,
            cx_balloc = al_new (mi_n_pos_per_embd model), cx_n_outputs = 0, cx_output_ids = [], cx_output_swaps = [],
            cx_logits = None\<rparr> of (cx, n) \<Rightarrow>
         if n < cp_n_seq_max params then Inl (Runtime_error ''failed to reserve initial output buffer'')
         else Inr cx))"

text \<open>\<open>None\<close> is the null pointer: an exception of the constructor is caught, an abort is not.\<close>

definition llama_init_from_model :: "('t, 'r) llama_env \<Rightarrow> bool \<Rightarrow> 't \<Rightarrow> model_info \<Rightarrow> ctx_params \<Rightarrow>
    ('t, 'r) llama_context option res" where
  "llama_init_from_model env backends_ok d0 model params =
     (if cp_n_batch params = 0 \<and> cp_n_ubatch params = 0 then Inr None
      else if cp_n_ctx params = 0 \<and> mi_n_ctx_train model = 0 then Inr None
      else case llama_context_new env backends_ok d0 model params of
        Inl (Runtime_error e) \<Rightarrow> Inr None
      | Inl e \<Rightarrow> Inl e
      | Inr cx \<Rightarrow> Inr (Some cx))"

section \<open>Decoding a list of tokens\<close>

text \<open>A context of the application: ready, and its free cells are those the positions of sequence 0 leave of
  \<open>n_ctx\<close>.\<close>

definition app_ready :: "('t, 'r) llama_context \<Rightarrow> bool" where
  "app_ready cx \<longleftrightarrow> ctx_ready cx \<and> card (kv_free (cx_memory cx)) + nat (next_pos cx) = cx_n_ctx cx"

definition used_pos :: "('t, 'r) llama_context \<Rightarrow> nat" where
  "used_pos cx = nat (next_pos cx)"

definition env_ok :: "('t, 'r) llama_env \<Rightarrow> bool" where
  "env_ok env \<longleftrightarrow> (\<forall>n. env_alloc_ok env n) \<and>
     (\<forall>ub n kv d. \<exists>d' rows. env_compute env ub n kv d = (d', GGML_SUCCESS, Some rows))"

definition batch_fits :: "('t, 'r) llama_context \<Rightarrow> int list \<Rightarrow> bool" where
  "batch_fits cx toks \<longleftrightarrow> toks \<noteq> [] \<and> length toks \<le> cx_n_batch cx \<and>
     (\<forall>t \<in> set toks. 0 \<le> t \<and> t < int (cx_n_vocab cx) \<and> t < 2 ^ 32)"

text \<open>What a client of a context relies on.\<close>

locale decoder =
  fixes ready :: "'c \<Rightarrow> bool" and used :: "'c \<Rightarrow> nat" and cap :: "'c \<Rightarrow> nat" and fits :: "'c \<Rightarrow> int list \<Rightarrow> bool"
    and decode :: "int list \<Rightarrow> 'c \<Rightarrow> ('c \<times> int) res" and row :: "'c \<Rightarrow> 'c \<times> 'r option option"
  assumes decode_ok: "ready c \<Longrightarrow> fits c toks \<Longrightarrow> used c + length toks \<le> cap c \<Longrightarrow>
      \<exists>c' r. decode toks c = Inr (c', 0) \<and> ready c' \<and> used c' = used c + length toks \<and> cap c' = cap c \<and>
        fits c' = fits c \<and> row c' = (c', Some (Some r))"
    and used_le: "ready c \<Longrightarrow> used c \<le> cap c"
    and fits_nonempty: "fits c toks \<Longrightarrow> toks \<noteq> []"
begin

fun feed :: "int list list \<Rightarrow> 'c \<Rightarrow> 'c res" where
  "feed [] c = Inr c"
| "feed (toks # rest) c = and_then (decode toks c) (\<lambda>(c', ret). if ret < 0 then Inl Abort else feed rest c')"

lemma feed_ok:
  assumes "ready c" "\<forall>toks \<in> set batches. fits c toks" "used c + sum_list (map length batches) \<le> cap c"
  shows "\<exists>c'. feed batches c = Inr c' \<and> ready c' \<and> used c' = used c + sum_list (map length batches) \<and> cap c' = cap c"
  using assms
proof (induction batches arbitrary: c)
  case (Cons toks rest)
  obtain c' where "decode toks c = Inr (c', 0)" "ready c'" "used c' = used c + length toks" "cap c' = cap c" "fits c' = fits c"
    using decode_ok[OF Cons.prems(1), of toks] Cons.prems(2,3) by auto
  then show ?case using Cons.IH[of c'] Cons.prems(2,3) by auto
qed simp

text \<open>The number of batches that fit is bounded by the capacity.\<close>

lemma feed_bound: "\<forall>toks \<in> set batches. fits c toks \<Longrightarrow> length batches \<le> sum_list (map length batches)"
proof (induction batches)
  case (Cons toks rest)
  then show ?case using fits_nonempty[of c toks] by (cases toks) auto
qed simp

end

text \<open>The interface on \<^verbatim>\<open>llama_decode\<close> and \<^verbatim>\<open>llama_get_logits_ith(ctx, -1)\<close>.\<close>

lemma app_decode:
  assumes "env_ok env" "app_ready cx" "batch_fits cx toks" "used_pos cx + length toks \<le> cx_n_ctx cx"
  shows "\<exists>cx' r. llama_decode env (llama_batch_get_one toks) cx = Inr (cx', 0) \<and> app_ready cx' \<and>
    used_pos cx' = used_pos cx + length toks \<and> cx_n_ctx cx' = cx_n_ctx cx \<and> batch_fits cx' = batch_fits cx \<and>
    get_logits_ith (- 1) cx' = (cx', Some (Some r))"
proof -
  have R: "prompt_ready toks cx" using assms(2,3) by (simp add: prompt_ready_def app_ready_def batch_fits_def)
  note D = prompt_readyD[OF R]
  have ready: "ctx_ready cx" and fr: "card (kv_free (cx_memory cx)) + nat (next_pos cx) = cx_n_ctx cx"
    using assms(2) by (simp_all add: app_ready_def)
  have free: "length toks \<le> card (kv_free (cx_memory cx))" using assms(4) fr by (simp add: used_pos_def)
  have env: "env_alloc_ok env (max 1 (cx_n_seq_max cx))"
    "\<And>ub n kv d. \<exists>d' rows. env_compute env ub n kv d = (d', GGML_SUCCESS, Some rows)"
    using assms(1) by (simp_all add: env_ok_def)
  obtain kv d a ids rows where dec: "llama_decode env (llama_batch_get_one toks) cx =
      Inr (cx\<lparr>cx_memory := kv, cx_balloc := a, cx_output_ids := ids, cx_output_swaps := [],
        cx_logits := Some (Some (rows ! 0) # replicate (cx_n_seq_max cx - 1) None), cx_data := d, cx_n_outputs := 1\<rparr>, 0)"
    (is "_ = Inr (?cx', 0)")
    and kept: "kv_kept (cx_memory cx) kv" "kv_shifts kv = kv_shifts (cx_memory cx)" "al_n_pos_per_embd a = 1"
    and ids: "length ids = cx_n_batch cx" and card: "card (kv_free kv) + length toks = card (kv_free (cx_memory cx))"
    and pos: "\<forall>s < length (kv_seq_to_stream (cx_memory cx)). kv_positions kv s = kv_positions (cx_memory cx) s \<union>
      (if s = 0 then {next_pos cx..<next_pos cx + int (length toks)} else {})"
    using decode_prompt_run[OF R free env] by blast
  have nn: "0 \<le> next_pos cx" using kv_bounds_max_ge[OF D(1,4)] by (simp add: next_pos_def)
  have np: "next_pos ?cx' = next_pos cx + int (length toks)"
    by (rule next_pos_advance) (use D(1,4,8) kv_keptD[OF kept(1)] pos in auto)
  have "app_ready ?cx'"
    using ctx_ready_keep[OF ready kept ids] np nn card fr by (simp add: app_ready_def)
  moreover have "snd (get_logits_ith (- 1) ?cx') = Some (Some (rows ! 0))" by (rule get_logits_first) auto
  moreover have "fst (get_logits_ith (- 1) ?cx') = ?cx'"
    by (simp add: get_logits_ith_def output_reorder_def reorder_rows_def Let_def)
  ultimately show ?thesis
    using dec np nn by (rule_tac exI[of _ ?cx'], rule_tac exI[of _ "rows ! 0"])
      (auto simp: used_pos_def batch_fits_def fun_eq_iff prod_eq_iff)
qed

interpretation dec: decoder "\<lambda>cx. env_ok env \<and> app_ready cx" used_pos cx_n_ctx batch_fits
  "\<lambda>toks. llama_decode env (llama_batch_get_one toks)" "get_logits_ith (- 1)" for env
proof
  show "\<exists>c' r. llama_decode env (llama_batch_get_one toks) c = Inr (c', 0) \<and> (env_ok env \<and> app_ready c') \<and>
      used_pos c' = used_pos c + length toks \<and> cx_n_ctx c' = cx_n_ctx c \<and> batch_fits c' = batch_fits c \<and>
      get_logits_ith (- 1) c' = (c', Some (Some r))"
    if "env_ok env \<and> app_ready c" "batch_fits c toks" "used_pos c + length toks \<le> cx_n_ctx c" for c toks
    using app_decode[of env c toks] that by blast
qed (auto simp: app_ready_def used_pos_def batch_fits_def)

section \<open>The parameters of the application\<close>

text \<open>\<^verbatim>\<open>LLMInference::loadModel\<close> sets \<^verbatim>\<open>n_ctx\<close> and \<^verbatim>\<open>n_batch\<close> from one \<^verbatim>\<open>long\<close>.\<close>

definition app_params :: "int \<Rightarrow> ctx_params" where
  "app_params contextSize = llama_context_default_params\<lparr>cp_n_ctx := u32 contextSize, cp_n_batch := u32 contextSize\<rparr>"

lemma ggml_pad_256:
  assumes "x \<le> 2 ^ 32 - 256"
  shows "ggml_pad x 256 = (x + 255) div 256 * 256"
  using ggml_pad_eq[of x 8] assms by simp

lemma ggml_pad_256_wraps:
  assumes "2 ^ 32 - 256 < x" "x < 2 ^ 32"
  shows "ggml_pad x 256 = 0"
proof -
  obtain k where k: "x + 256 = 2 ^ 32 + Suc k" "k < 255" using assms by (intro that[of "x + 256 - 2 ^ 32 - 1"]) auto
  have w: "(word_of_nat (x + 256) - 1 :: 32 word) = word_of_nat k" unfolding k(1) of_nat_add by simp
  have m: "(word_of_nat 256 - 1 :: 32 word) = mask 8" by (simp add: mask_eq_exp_minus_1)
  have "unat (word_of_nat k :: 32 word) = k" using k(2) by (simp add: unat_of_nat)
  then show ?thesis
    unfolding ggml_pad_def w m and_not_mask_word unat_push_drop using k(2) by (simp add: push_bit_eq_mult drop_bit_eq_div)
qed

lemma round_256:
  fixes x :: nat
  defines "r \<equiv> (x + 255) div 256 * 256"
  shows "x \<le> r" "r < x + 256" "256 dvd r" "x \<le> 2 ^ 32 - 256 \<Longrightarrow> r \<le> 2 ^ 32 - 256"
proof -
  have "(x + 255) mod 256 < 256" by simp
  moreover have "r + (x + 255) mod 256 = x + 255" unfolding r_def by (rule div_mult_mod_eq)
  ultimately show "x \<le> r" "r < x + 256" by linarith+
  show "256 dvd r" by (simp add: r_def)
  assume "x \<le> 2 ^ 32 - 256"
  then have "(x + 255) div 256 < 16777216" by (intro less_mult_imp_div_less) simp
  then show "r \<le> 2 ^ 32 - 256" by (simp add: r_def)
qed

text \<open>The sizes for a context of \<open>n\<close> that is not refused.\<close>

lemma context_sizes_app:
  fixes cs :: int
  assumes "mi_causal_attn model"
  defines "n \<equiv> (if u32 cs = 0 then mi_n_ctx_train model else u32 cs)"
  defines "n_ctx \<equiv> (n + 255) div 256 * 256"
  assumes "0 < n" "n \<le> 2 ^ 32 - 256"
  shows "context_sizes model (app_params cs) = Inr \<lparr>cs_n_ctx = n_ctx, cs_n_ctx_seq = n_ctx, cs_n_batch = u32 cs,
    cs_n_ubatch = min (u32 cs) 512, cs_n_seq_max = 1, cs_causal_attn = True\<rparr>"
proof -
  note r = round_256[of n, folded n_ctx_def]
  have p: "ggml_pad n 256 = n_ctx" using ggml_pad_256[OF assms(5)] by (simp add: n_ctx_def)
  have p2: "ggml_pad n_ctx 256 = n_ctx" using ggml_pad_256[OF r(4)[OF assms(5)]] by (simp add: n_ctx_def)
  have "n_ctx \<noteq> 0" using r(1) assms(4) by linarith
  moreover have "u32 (int n_ctx) = n_ctx" using r(4)[OF assms(5)] by (intro trans[OF u32_small]) auto
  ultimately show ?thesis
    using assms(1) p p2 by (cases "u32 cs = 0")
      (simp_all add: context_sizes_def app_params_def llama_context_default_params_def LLAMA_MAX_SEQ_def Let_def n_def)
qed

text \<open>More tokens than \<^verbatim>\<open>n_batch\<close> are an abort, whatever the context has room for.\<close>

lemma decode_over_batch:
  assumes R: "ctx_ready cx" and toks: "toks \<noteq> []" "\<forall>t \<in> set toks. 0 \<le> t \<and> t < int (cx_n_vocab cx) \<and> t < 2 ^ 32"
    and long: "cx_n_batch cx < length toks"
  shows "llama_decode env (llama_batch_get_one toks) cx = Inl Abort"
proof -
  let ?m = "if cx_kv_unified cx then LLAMA_MAX_SEQ else cx_n_seq_max cx"
  have D: "kv_inv (cx_memory cx)" "kv_n_stream (cx_memory cx) = 1" "kv_swa_type (cx_memory cx) = SWA_NONE"
    "0 < length (kv_seq_to_stream (cx_memory cx))" "0 < ?m" "?m \<le> LLAMA_MAX_SEQ" "al_n_pos_per_embd (cx_balloc cx) = 1"
    "\<not> cx_embeddings cx" "cx_samplers cx = {}"
    using R by (auto simp: ctx_ready_def Let_def LLAMA_MAX_SEQ_def)
  obtain a where "al_init (cx_n_vocab cx) (kv_bounds (cx_memory cx)) (cx_n_embd_inp cx) ?m False (llama_batch_get_one toks)
      (cx_balloc cx) = Inr (Some a)" "lb_n_tokens (al_batch a) = length toks"
    using kv_init_batch_one[OF D(1-4) toks D(5-7), where n_embd = "cx_n_embd_inp cx" and n_ubatch = "cx_n_ubatch cx"] by blast
  then show ?thesis
    using D(8,9) toks(1) long
    by (simp add: llama_decode_def llama_batch_get_one_def batch_none_def decode_accepted_def Let_def)
qed


text \<open>A context made for the application.\<close>

lemma app_init:
  assumes "mi_causal_attn model" "mi_n_pos_per_embd model = 1" "0 < u32 cs" "u32 cs \<le> 2 ^ 32 - 256" "env_alloc_ok env 1"
  shows "\<exists>cx. llama_init_from_model env True d0 model (app_params cs) = Inr (Some cx) \<and> app_ready cx \<and> used_pos cx = 0 \<and>
    cx_n_batch cx = u32 cs \<and> u32 cs \<le> cx_n_ctx cx \<and> card (kv_free (cx_memory cx)) = cx_n_ctx cx \<and>
    cx_n_ctx cx < u32 cs + 256 \<and> cx_n_vocab cx = mi_n_vocab model"
proof -
  define n where "n = (u32 cs + 255) div 256 * 256"
  have sizes: "context_sizes model (app_params cs) = Inr \<lparr>cs_n_ctx = n, cs_n_ctx_seq = n, cs_n_batch = u32 cs,
      cs_n_ubatch = min (u32 cs) 512, cs_n_seq_max = 1, cs_causal_attn = True\<rparr>"
    using context_sizes_app[OF assms(1), of cs] assms(3,4) by (simp add: n_def)
  have n: "u32 cs \<le> n" "n < u32 cs + 256" using round_256(1,2)[of "u32 cs"] by (simp_all add: n_def)
  obtain kv where kv: "kv_new (mi_step35 model) 1 False n 1 1 (mi_n_swa model) SWA_NONE = Inr kv"
    by (simp add: kv_new_def)
  have inv: "kv_inv kv" by (rule kv_new_inv[OF kv]) (simp_all add: LLAMA_MAX_SEQ_def)
  have K: "kv_n_stream kv = 1" "kv_swa_type kv = SWA_NONE" "kv_seq_to_stream kv = replicate LLAMA_MAX_SEQ 0"
    "kv_v_cells kv = [cells_resize n cells_new]" "kv_sc_ssrc kv = []" "kv_sc_sdst kv = []"
    using kv by (auto simp: kv_new_def)
  let ?c = "cells_resize n cells_new"
  have cell: "cell_at ?c i = None" if "i < n" for i
    using that by (simp add: cell_at_def cells_resize_def cells_reset_def cells_size_def resize_list_def Let_def)
  have size: "cells_size ?c = n" by (simp add: cells_resize_def cells_reset_def cells_size_def resize_list_def Let_def)
  have free: "kv_free kv = {..<n}" using cell size by (auto simp: kv_free_def K(4))
  have pos: "kv_positions kv 0 = {}"
    using cell size by (auto simp: kv_positions_def seq_positions_def kv_stream_def K(3,4) LLAMA_MAX_SEQ_def)
  have shift: "\<not> kv_get_has_shift kv"
    using K(1,4) by (simp add: kv_get_has_shift_def cells_resize_def cells_reset_def Let_def)
  let ?cx = "\<lparr>cx_n_ctx = n, cx_n_batch = u32 cs, cx_n_ubatch = min (u32 cs) 512,
            cx_n_seq_max = 1, cx_kv_unified = False, cx_causal_attn = True,
            cx_embeddings = False, cx_n_vocab = mi_n_vocab model, cx_n_embd_inp = mi_n_embd_inp model,
            cx_rope = mi_rope model, cx_samplers = {}, cx_memory = kv, cx_data = d0,
            cx_balloc = al_new 1, cx_n_outputs = 0, cx_output_ids = replicate (u32 cs) (- 1), cx_output_swaps = [],
            cx_logits = Some [None]\<rparr> :: ('a, 'b) llama_context"
  have "llama_context_new env True d0 model (app_params cs) = Inr ?cx"
    using sizes assms(2,5) kv
    by (simp add: llama_context_new_def output_reserve_def app_params_def llama_context_default_params_def Let_def)
  then have "llama_init_from_model env True d0 model (app_params cs) = Inr (Some ?cx)"
    using assms(3) by (simp add: llama_init_from_model_def app_params_def llama_context_default_params_def)
  moreover have np: "next_pos ?cx = 0"
    using next_pos_eq[of ?cx] inv pos K(3) by (simp add: LLAMA_MAX_SEQ_def)
  moreover have "app_ready ?cx"
    using inv K shift np free by (simp add: app_ready_def ctx_ready_def al_new_def LLAMA_MAX_SEQ_def)
  ultimately show ?thesis using n free by (intro exI[of _ ?cx]) (simp add: used_pos_def)
qed

section \<open>Properties\<close>

text \<open>What a requested context size becomes, for a causal model: the context is the size rounded up to a
  multiple of 256 while the batch keeps the requested size, a size of 0 takes the context from the model but leaves a
  batch of 0, and a size in the last 255 values below \<open>2 ^ 32\<close> (a negative \<^verbatim>\<open>long\<close> such as \<open>-1\<close>) wraps
  around to a context of 0 and is refused.\<close>

theorem app_context_sizes:
  assumes "mi_causal_attn model"
  shows "(0 < u32 cs \<and> u32 cs \<le> 2 ^ 32 - 256 \<longrightarrow>
      (\<exists>s. context_sizes model (app_params cs) = Inr s \<and> cs_n_batch s = u32 cs \<and> cs_n_ctx_seq s = cs_n_ctx s \<and>
        256 dvd cs_n_ctx s \<and> u32 cs \<le> cs_n_ctx s \<and> cs_n_ctx s < u32 cs + 256)) \<and>
    (u32 cs = 0 \<and> 0 < mi_n_ctx_train model \<and> mi_n_ctx_train model \<le> 2 ^ 32 - 256 \<longrightarrow>
      (\<exists>s. context_sizes model (app_params cs) = Inr s \<and> cs_n_batch s = 0 \<and> mi_n_ctx_train model \<le> cs_n_ctx s)) \<and>
    (2 ^ 32 - 256 < u32 cs \<longrightarrow> context_sizes model (app_params cs) = Inl (Runtime_error ''n_ctx_seq == 0''))"
proof (intro conjI impI; (elim conjE)?)
  assume "0 < u32 cs" "u32 cs \<le> 2 ^ 32 - 256"
  then show "\<exists>s. context_sizes model (app_params cs) = Inr s \<and> cs_n_batch s = u32 cs \<and> cs_n_ctx_seq s = cs_n_ctx s \<and>
      256 dvd cs_n_ctx s \<and> u32 cs \<le> cs_n_ctx s \<and> cs_n_ctx s < u32 cs + 256"
    using context_sizes_app[OF assms, of cs] round_256[of "u32 cs"] by simp
next
  assume "u32 cs = 0" "0 < mi_n_ctx_train model" "mi_n_ctx_train model \<le> 2 ^ 32 - 256"
  then show "\<exists>s. context_sizes model (app_params cs) = Inr s \<and> cs_n_batch s = 0 \<and> mi_n_ctx_train model \<le> cs_n_ctx s"
    using context_sizes_app[OF assms, of cs] round_256[of "mi_n_ctx_train model"] by simp
next
  assume a: "2 ^ 32 - 256 < u32 cs"
  have "ggml_pad (u32 cs) 256 = 0" using ggml_pad_256_wraps[OF a u32_less] .
  moreover have "ggml_pad 0 256 = 0" using ggml_pad_256[of 0] by simp
  ultimately show "context_sizes model (app_params cs) = Inl (Runtime_error ''n_ctx_seq == 0'')"
    using a by (simp add: context_sizes_def app_params_def llama_context_default_params_def LLAMA_MAX_SEQ_def Let_def)
qed

text \<open>C36. A context made for the application is ready: nothing is stored in it, all of its cells are free, and
  there are exactly as many of them as the context size it reports. Together with the interface \<open>decoder\<close> this
  means that a list of tokens is decoded whenever the reported size has room for it and it is no longer than the
  requested size.\<close>

theorem app_context_ready:
  assumes "mi_causal_attn model" "mi_n_pos_per_embd model = 1" "0 < u32 cs" "u32 cs \<le> 2 ^ 32 - 256" "env_alloc_ok env 1"
  shows "\<exists>cx. llama_init_from_model env True d0 model (app_params cs) = Inr (Some cx) \<and> app_ready cx \<and> used_pos cx = 0 \<and>
    cx_n_batch cx = u32 cs \<and> u32 cs \<le> cx_n_ctx cx \<and> card (kv_free (cx_memory cx)) = cx_n_ctx cx"
  using app_init[OF assms, of d0] by blast

section \<open>Examples\<close>

definition ex_model :: model_info where
  "ex_model = \<lparr>mi_n_ctx_train = 2048, mi_causal_attn = True, mi_n_vocab = 10, mi_n_embd_inp = 8, mi_n_pos_per_embd = 1,
     mi_rope = True, mi_step35 = False, mi_n_swa = 0\<rparr>"

theorem app_context_sizes_witness:
  "(\<exists>s. context_sizes ex_model (app_params 1000) = Inr s \<and> cs_n_batch s = 1000 \<and> 1000 \<le> cs_n_ctx s \<and> 256 dvd cs_n_ctx s) \<and>
   (\<exists>s. context_sizes ex_model (app_params 0) = Inr s \<and> cs_n_batch s = 0) \<and>
   context_sizes ex_model (app_params (- 1)) = Inl (Runtime_error ''n_ctx_seq == 0'')"
proof -
  have "mi_causal_attn ex_model" "mi_n_ctx_train ex_model = 2048" by (simp_all add: ex_model_def)
  moreover have "u32 1000 = 1000" "u32 0 = 0" "u32 (- 1) = 2 ^ 32 - 1" by (simp_all add: u32_def)
  ultimately show ?thesis
    using app_context_sizes[of ex_model 1000] app_context_sizes[of ex_model 0] app_context_sizes[of ex_model "- 1"] by auto
qed

theorem app_context_ready_witness:
  "\<exists>cx. llama_init_from_model (ex_env (\<lambda>_. GGML_SUCCESS)) True 0 ex_model (app_params 1000) = Inr (Some cx) \<and>
     app_ready cx \<and> cx_n_batch cx = 1000"
  using app_context_ready[of ex_model 1000 "ex_env (\<lambda>_. GGML_SUCCESS)" 0]
  by (auto simp: ex_model_def ex_env_def u32_def)

end
