(* ===== verification/Utf8_Check.thy ===== *)
theory Utf8_Check
  imports Prelude
begin

text \<open>
  \<^verbatim>\<open>LLMInference::_isValidUtf8\<close> (\<^verbatim>\<open>smollm/src/main/cpp/LLMInference.cpp\<close>), the test by which
  a completion decides that the bytes it has collected can be handed to Java.

  A C string is the list of its bytes up to the terminating zero. A pointer into it is the list that is
  left; behind the list stands the terminator, so that reading an empty list gives 0.
\<close>

unbundle bit_operations_syntax

section \<open>The check\<close>

definition peek :: "8 word list \<Rightarrow> 8 word" where
  "peek bytes = (case bytes of [] \<Rightarrow> 0 | b # _ \<Rightarrow> b)"

text \<open>The length the leading byte announces, \<open>None\<close> where the code returns \<open>false\<close>.\<close>

definition utf8_num :: "8 word \<Rightarrow> nat option" where
  "utf8_num b =
     (if b AND 0x80 = 0 then Some 1
      else if b AND 0xE0 = 0xC0 then Some 2
      else if b AND 0xF0 = 0xE0 then Some 3
      else if b AND 0xF8 = 0xF0 then Some 4
      else None)"

fun utf8_cont :: "nat \<Rightarrow> 8 word list \<Rightarrow> 8 word list option" where
  "utf8_cont 0 bytes = Some bytes"
| "utf8_cont (Suc n) bytes = (if peek bytes AND 0xC0 \<noteq> 0x80 then None else utf8_cont n (tl bytes))"

lemma utf8_cont_length: "utf8_cont n bs = Some rest \<Longrightarrow> length rest \<le> length bs"
  by (induction n bs rule: utf8_cont.induct) (force split: if_splits)+

function utf8_loop :: "8 word list \<Rightarrow> bool" where
  "utf8_loop bytes =
     (if peek bytes = 0 then True
      else case utf8_num (peek bytes) of
        None \<Rightarrow> False
      | Some num \<Rightarrow> (case utf8_cont (num - 1) (tl bytes) of None \<Rightarrow> False | Some rest \<Rightarrow> utf8_loop rest))"
  by pat_completeness auto
termination
proof (relation "measure length")
  fix bytes :: "8 word list" and num rest
  assume "peek bytes \<noteq> 0" "utf8_cont (num - 1) (tl bytes) = Some rest"
  then show "(rest, bytes) \<in> measure length"
    using utf8_cont_length[of "num - 1" "tl bytes" rest] by (cases bytes) (auto simp: peek_def)
qed simp

declare utf8_loop.simps [simp del]

definition isValidUtf8 :: "8 word list option \<Rightarrow> bool" where
  "isValidUtf8 response = (case response of None \<Rightarrow> True | Some bytes \<Rightarrow> utf8_loop bytes)"

section \<open>Bytes\<close>

lemma lead_bytes: "list_all (\<lambda>n. utf8_num (word_of_nat n) =
    (if n < 128 then Some 1 else if n < 192 then None else if n < 224 then Some 2 else if n < 240 then Some 3
     else if n < 248 then Some 4 else None) \<and>
    ((word_of_nat n :: 8 word) AND 0xC0 = 0x80 \<longleftrightarrow> 128 \<le> n \<and> n < 192)) [0..<256]"
  by code_simp

definition is_cont :: "8 word \<Rightarrow> bool" where
  "is_cont b \<longleftrightarrow> 128 \<le> unat b \<and> unat b < 192"

lemma byte_less: "unat (b :: 8 word) < 256"
proof -
  have "unat b < 2 ^ LENGTH(8)" by (rule unsigned_less)
  then show ?thesis by simp
qed

lemma utf8_num_eq:
  "utf8_num b = (if unat b < 128 then Some 1 else if unat b < 192 then None else if unat b < 224 then Some 2
     else if unat b < 240 then Some 3 else if unat b < 248 then Some 4 else None)"
  using lead_bytes byte_less[of b] unfolding list_all_iff by (auto dest!: bspec[of _ _ "unat b"])

lemma cont_eq: "b AND 0xC0 = 0x80 \<longleftrightarrow> is_cont b"
  using lead_bytes byte_less[of b] unfolding list_all_iff is_cont_def by (auto dest!: bspec[of _ _ "unat b"])

lemma utf8_cont_iff: "utf8_cont n bs = Some rest \<longleftrightarrow> (\<exists>cs. bs = cs @ rest \<and> length cs = n \<and> (\<forall>c \<in> set cs. is_cont c))"
proof (induction n bs rule: utf8_cont.induct)
  case (2 n bs)
  show ?case
  proof (cases bs)
    case Nil
    then show ?thesis by (simp add: peek_def)
  next
    case (Cons b bs')
    then show ?thesis
      using 2 by (auto simp: peek_def cont_eq length_Suc_conv Cons_eq_append_conv)
  qed
qed auto

section \<open>The language it accepts\<close>

text \<open>The form of \<open>n\<close> bytes of the value \<open>c\<close>, for the values that have one. UTF-8 prescribes the shortest
  form, and admits only values that are no surrogates and at most \<open>0x10FFFF\<close>.\<close>

definition byte :: "nat \<Rightarrow> 8 word" where
  "byte n = word_of_nat n"

definition utf8_form :: "nat \<Rightarrow> nat \<Rightarrow> 8 word list" where
  "utf8_form n c = map byte
     (if n = 1 then [c]
      else if n = 2 then [192 + c div 64, 128 + c mod 64]
      else if n = 3 then [224 + c div 4096, 128 + c div 64 mod 64, 128 + c mod 64]
      else [240 + c div 262144, 128 + c div 4096 mod 64, 128 + c div 64 mod 64, 128 + c mod 64])"

definition utf8_has_form :: "nat \<Rightarrow> nat \<Rightarrow> bool" where
  "utf8_has_form n c \<longleftrightarrow> n \<in> {1, 2, 3, 4} \<and> c < (if n = 1 then 2 ^ 7 else if n = 2 then 2 ^ 11 else if n = 3 then 2 ^ 16 else 2 ^ 21)"

definition utf8_unit :: "8 word list \<Rightarrow> bool" where
  "utf8_unit u \<longleftrightarrow> (\<exists>b cs. u = b # cs \<and> b \<noteq> 0 \<and> utf8_num b = Some (Suc (length cs)) \<and> (\<forall>c \<in> set cs. is_cont c))"

lemma utf8_loop_stop: "peek bs = 0 \<Longrightarrow> utf8_loop bs"
  by (subst utf8_loop.simps) simp

lemma utf8_loop_unfold:
  "utf8_loop bs \<longleftrightarrow> peek bs = 0 \<or> (\<exists>u rest. bs = u @ rest \<and> utf8_unit u \<and> utf8_loop rest)"
proof (cases "peek bs = 0")
  case False
  then obtain b bs' where bs: "bs = b # bs'" by (cases bs) (auto simp: peek_def)
  have nz: "b \<noteq> 0" using False bs by (simp add: peek_def)
  have num: "utf8_num b = Some n \<Longrightarrow> 0 < n" for n by (auto simp: utf8_num_eq split: if_splits)
  have "utf8_loop bs \<longleftrightarrow> (\<exists>n rest. utf8_num b = Some n \<and> utf8_cont (n - 1) bs' = Some rest \<and> utf8_loop rest)"
    using False by (subst utf8_loop.simps) (auto simp: bs peek_def split: option.splits)
  also have "\<dots> \<longleftrightarrow> (\<exists>u rest. bs = u @ rest \<and> utf8_unit u \<and> utf8_loop rest)"
  proof
    assume "\<exists>n rest. utf8_num b = Some n \<and> utf8_cont (n - 1) bs' = Some rest \<and> utf8_loop rest"
    then obtain n cs rest where *: "utf8_num b = Some n" "bs' = cs @ rest" "length cs = n - 1" "\<forall>c \<in> set cs. is_cont c" "utf8_loop rest"
      by (auto simp: utf8_cont_iff)
    then have "utf8_unit (b # cs)" using nz num[OF *(1)] by (auto simp: utf8_unit_def)
    then show "\<exists>u rest. bs = u @ rest \<and> utf8_unit u \<and> utf8_loop rest"
      using * bs by (intro exI[of _ "b # cs"] exI[of _ rest]) simp
  next
    assume "\<exists>u rest. bs = u @ rest \<and> utf8_unit u \<and> utf8_loop rest"
    then obtain cs rest where "bs' = cs @ rest" "utf8_num b = Some (Suc (length cs))" "\<forall>c \<in> set cs. is_cont c" "utf8_loop rest"
      by (auto simp: utf8_unit_def bs)
    then show "\<exists>n rest. utf8_num b = Some n \<and> utf8_cont (n - 1) bs' = Some rest \<and> utf8_loop rest"
      by (intro exI[of _ "Suc (length cs)"] exI[of _ rest]) (auto simp: utf8_cont_iff)
  qed
  finally show ?thesis using False by simp
qed (simp add: utf8_loop_stop)

lemma utf8_unit_nonzero: "utf8_unit u \<Longrightarrow> 0 \<notin> set u"
  by (fastforce simp: utf8_unit_def is_cont_def)

lemma utf8_unit_prefix: "utf8_unit u \<Longrightarrow> utf8_unit v \<Longrightarrow> u @ a = v @ b \<Longrightarrow> u = v \<and> a = b"
  by (auto simp: utf8_unit_def Cons_eq_append_conv)

lemma unat_byte [simp]: "n < 256 \<Longrightarrow> unat (byte n) = n"
  by (simp add: byte_def unat_of_nat)

lemma utf8_form_unit:
  assumes "utf8_has_form n c" "n = 1 \<longrightarrow> c \<noteq> 0"
  shows "utf8_unit (utf8_form n c)"
proof -
  have nz: "byte m \<noteq> 0" if "0 < m" "m < 256" for m
    using that unat_byte[of m] by fastforce
  consider "n = 1" "c < 128" "c \<noteq> 0" | "n = 2" "c < 2048" | "n = 3" "c < 65536" | "n = 4" "c < 2097152"
    using assms by (auto simp: utf8_has_form_def)
  then show ?thesis
  proof cases
    case 1
    then show ?thesis using nz by (simp add: utf8_unit_def utf8_form_def utf8_num_eq)
  next
    case 2
    then have "192 + c div 64 < 224" by linarith
    then show ?thesis using 2 nz by (simp add: utf8_unit_def utf8_form_def utf8_num_eq is_cont_def)
  next
    case 3
    then have "224 + c div 4096 < 240" by linarith
    then show ?thesis using 3 nz by (simp add: utf8_unit_def utf8_form_def utf8_num_eq is_cont_def)
  next
    case 4
    then have "240 + c div 262144 < 248" by linarith
    then show ?thesis using 4 nz by (simp add: utf8_unit_def utf8_form_def utf8_num_eq is_cont_def)
  qed
qed

lemma byte_eqI: "unat a = n \<Longrightarrow> a = byte n"
  by (auto simp: byte_def)

lemma digit64: "(r :: nat) < 64 \<Longrightarrow> (q * 64 + r) div 64 = q" "(r :: nat) < 64 \<Longrightarrow> (q * 64 + r) mod 64 = r"
  by auto

lemma utf8_unit_form:
  assumes "utf8_unit u"
  shows "\<exists>n c. utf8_has_form n c \<and> u = utf8_form n c"
proof -
  obtain b cs where u: "u = b # cs" "utf8_num b = Some (Suc (length cs))" and cs: "\<forall>c \<in> set cs. is_cont c"
    using assms by (auto simp: utf8_unit_def)
  consider "unat b < 128" "cs = []"
    | c1 where "192 \<le> unat b" "unat b < 224" "cs = [c1]"
    | c1 c2 where "224 \<le> unat b" "unat b < 240" "cs = [c1, c2]"
    | c1 c2 c3 where "240 \<le> unat b" "unat b < 248" "cs = [c1, c2, c3]"
  proof -
    have one: "\<exists>c1. cs = [c1]" if "length cs = 1" using that by (simp add: length_Suc_conv)
    have two: "\<exists>c1 c2. cs = [c1, c2]" if "length cs = 2" using that by (auto simp: length_Suc_conv numeral_2_eq_2)
    have three: "\<exists>c1 c2 c3. cs = [c1, c2, c3]" if "length cs = 3" using that by (auto simp: length_Suc_conv numeral_3_eq_3)
    show thesis if H: "unat b < 128 \<Longrightarrow> cs = [] \<Longrightarrow> thesis"
      "\<And>c1. 192 \<le> unat b \<Longrightarrow> unat b < 224 \<Longrightarrow> cs = [c1] \<Longrightarrow> thesis"
      "\<And>c1 c2. 224 \<le> unat b \<Longrightarrow> unat b < 240 \<Longrightarrow> cs = [c1, c2] \<Longrightarrow> thesis"
      "\<And>c1 c2 c3. 240 \<le> unat b \<Longrightarrow> unat b < 248 \<Longrightarrow> cs = [c1, c2, c3] \<Longrightarrow> thesis"
    proof -
      consider "unat b < 128" "length cs = 0" | "192 \<le> unat b" "unat b < 224" "length cs = 1"
        | "224 \<le> unat b" "unat b < 240" "length cs = 2" | "240 \<le> unat b" "unat b < 248" "length cs = 3"
        using u(2) by (fastforce simp: utf8_num_eq split: if_splits)
      then show thesis using H one two three by cases blast+
    qed
  qed
  then show ?thesis
  proof cases
    case 1
    then show ?thesis
      by (intro exI[of _ 1] exI[of _ "unat b"]) (simp add: utf8_has_form_def utf8_form_def u byte_eqI)
  next
    case (2 c1)
    define q r where "q = unat b - 192" and "r = unat c1 - 128"
    have c: "unat b = 192 + q" "q < 32" "unat c1 = 128 + r" "r < 64" using cs 2 by (auto simp: is_cont_def q_def r_def)
    define k where "k = q * 64 + r"
    have d: "k div 64 = q" "k mod 64 = r" using c digit64 by (simp_all only: k_def)
    have "u = utf8_form 2 k" using c 2 by (simp add: utf8_form_def d u byte_eqI)
    moreover have "k < 2 ^ 11" using c by (simp add: k_def)
    ultimately show ?thesis by (intro exI[of _ 2] exI[of _ k]) (simp add: utf8_has_form_def)
  next
    case (3 c1 c2)
    define q r t where "q = unat b - 224" and "r = unat c1 - 128" and "t = unat c2 - 128"
    have c: "unat b = 224 + q" "q < 16" "unat c1 = 128 + r" "r < 64" "unat c2 = 128 + t" "t < 64"
      using cs 3 by (auto simp: is_cont_def q_def r_def t_def)
    define m where "m = q * 64 + r"
    define k where "k = m * 64 + t"
    have d: "k div 64 = m" "k mod 64 = t" "m div 64 = q" "m mod 64 = r" using c digit64 by (simp_all only: k_def m_def)
    have e: "k div 4096 = q" using div_mult2_eq[of k 64 64] by (simp add: d)
    have "u = utf8_form 3 k" using c 3 by (simp add: utf8_form_def d e u byte_eqI)
    moreover have "k < 2 ^ 16" using c by (simp add: k_def m_def)
    ultimately show ?thesis by (intro exI[of _ 3] exI[of _ k]) (simp add: utf8_has_form_def)
  next
    case (4 c1 c2 c3)
    define q r t v where "q = unat b - 240" and "r = unat c1 - 128" and "t = unat c2 - 128" and "v = unat c3 - 128"
    have c: "unat b = 240 + q" "q < 8" "unat c1 = 128 + r" "r < 64" "unat c2 = 128 + t" "t < 64" "unat c3 = 128 + v" "v < 64"
      using cs 4 by (auto simp: is_cont_def q_def r_def t_def v_def)
    define m where "m = q * 64 + r"
    define k where "k = m * 64 + t"
    define w where "w = k * 64 + v"
    have d: "w div 64 = k" "w mod 64 = v" "k div 64 = m" "k mod 64 = t" "m div 64 = q" "m mod 64 = r"
      using c digit64 by (simp_all only: w_def k_def m_def)
    have e: "w div 4096 = m" using div_mult2_eq[of w 64 64] by (simp add: d)
    have g: "w div 262144 = q" using div_mult2_eq[of w 4096 64] by (simp add: d e)
    have "u = utf8_form 4 w" using c 4 by (simp add: utf8_form_def d e g u byte_eqI)
    moreover have "w < 2 ^ 21" using c by (simp add: w_def k_def m_def)
    ultimately show ?thesis by (intro exI[of _ 4] exI[of _ w]) (simp add: utf8_has_form_def)
  qed
qed

text \<open>A whole string of characters in front does not change the answer.\<close>

lemma utf8_loop_units:
  assumes "0 \<notin> set bs"
  shows "utf8_loop bs \<longleftrightarrow> (\<exists>us. bs = concat us \<and> (\<forall>u \<in> set us. utf8_unit u))"
  using assms
proof (induction "length bs" arbitrary: bs rule: less_induct)
  case less
  show ?case
  proof (cases bs)
    case Nil
    then show ?thesis by (auto simp: utf8_loop_stop peek_def intro!: exI[of _ "[]"])
  next
    case (Cons b bs')
    have nz: "peek bs \<noteq> 0" using less.prems Cons by (auto simp: peek_def)
    have IH: "utf8_loop rest \<longleftrightarrow> (\<exists>us. rest = concat us \<and> (\<forall>u \<in> set us. utf8_unit u))" if "bs = u @ rest" "utf8_unit u" for u rest
      using less.hyps[of rest] less.prems that by (auto simp: utf8_unit_def)
    have "utf8_loop bs \<longleftrightarrow> (\<exists>u rest. bs = u @ rest \<and> utf8_unit u \<and> (\<exists>us. rest = concat us \<and> (\<forall>u \<in> set us. utf8_unit u)))"
      using nz IH by (subst utf8_loop_unfold) blast
    also have "\<dots> \<longleftrightarrow> (\<exists>us. bs = concat us \<and> (\<forall>u \<in> set us. utf8_unit u))"
    proof
      assume "\<exists>us. bs = concat us \<and> (\<forall>u \<in> set us. utf8_unit u)"
      then obtain us where us: "bs = concat us" "\<forall>u \<in> set us. utf8_unit u" by blast
      then obtain u us' where "us = u # us'" using Cons by (cases us) auto
      then show "\<exists>u rest. bs = u @ rest \<and> utf8_unit u \<and> (\<exists>us. rest = concat us \<and> (\<forall>u \<in> set us. utf8_unit u))"
        using us by (intro exI[of _ u] exI[of _ "concat us'"]) auto
    next
      assume "\<exists>u rest. bs = u @ rest \<and> utf8_unit u \<and> (\<exists>us. rest = concat us \<and> (\<forall>u \<in> set us. utf8_unit u))"
      then obtain u us where "bs = concat (u # us)" "\<forall>v \<in> set (u # us). utf8_unit v" by auto
      then show "\<exists>us. bs = concat us \<and> (\<forall>u \<in> set us. utf8_unit u)" by blast
    qed
    finally show ?thesis .
  qed
qed

lemma utf8_loop_append:
  assumes "utf8_loop as" "0 \<notin> set as"
  shows "utf8_loop (as @ bs) \<longleftrightarrow> utf8_loop bs"
proof -
  obtain us where us: "as = concat us" "\<forall>u \<in> set us. utf8_unit u" using assms utf8_loop_units by blast
  have "utf8_loop (concat us @ bs) \<longleftrightarrow> utf8_loop bs" if "\<forall>u \<in> set us. utf8_unit u" for us
    using that
  proof (induction us)
    case (Cons u us)
    have "peek (concat (u # us) @ bs) \<noteq> 0" using Cons.prems by (auto simp: utf8_unit_def peek_def)
    then have "utf8_loop (concat (u # us) @ bs) \<longleftrightarrow> utf8_loop (concat us @ bs)"
      using Cons.prems by (subst utf8_loop_unfold) (auto dest: utf8_unit_prefix)
    then show ?case using Cons by simp
  qed simp
  then show ?thesis using us by simp
qed

lemma utf8_loop_until_nul: "utf8_loop bs \<longleftrightarrow> utf8_loop (takeWhile (\<lambda>b. b \<noteq> 0) bs)"
proof (induction "length bs" arbitrary: bs rule: less_induct)
  case less
  let ?t = "takeWhile (\<lambda>b. b \<noteq> (0 :: 8 word))"
  show ?case
  proof (cases "peek bs = 0")
    case True
    then have "?t bs = []" by (cases bs) (auto simp: peek_def)
    then show ?thesis using True by (simp add: utf8_loop_stop peek_def)
  next
    case False
    then have nz: "peek (?t bs) \<noteq> 0" by (cases bs) (auto simp: peek_def)
    have a: "?t (u @ rest) = u @ ?t rest" if "utf8_unit u" for u rest
      using utf8_unit_nonzero[OF that] by (auto intro!: takeWhile_append2)
    have b: "\<exists>rest'. bs = u @ rest' \<and> rest = ?t rest'" if "utf8_unit u" "?t bs = u @ rest" for u rest
    proof -
      have "bs = u @ rest @ dropWhile (\<lambda>b. b \<noteq> 0) bs" using that(2) takeWhile_dropWhile_id[of "\<lambda>b. b \<noteq> 0" bs] by simp
      then show ?thesis using a[OF that(1)] that(2) by (metis same_append_eq)
    qed
    have "utf8_loop bs \<longleftrightarrow> (\<exists>u rest. bs = u @ rest \<and> utf8_unit u \<and> utf8_loop (?t rest))"
    proof -
      have "utf8_loop rest \<longleftrightarrow> utf8_loop (?t rest)" if "bs = u @ rest" "utf8_unit u" for u rest
        using less.hyps[of rest] that by (auto simp: utf8_unit_def)
      then show ?thesis using False utf8_loop_unfold[of bs] by blast
    qed
    also have "\<dots> \<longleftrightarrow> (\<exists>u rest. ?t bs = u @ rest \<and> utf8_unit u \<and> utf8_loop rest)"
      using a b by blast
    also have "\<dots> \<longleftrightarrow> utf8_loop (?t bs)" using nz utf8_loop_unfold[of "?t bs"] by blast
    finally show ?thesis .
  qed
qed

section \<open>Properties\<close>

text \<open>The text a C string holds.\<close>

definition cstr :: "8 word list \<Rightarrow> 8 word list" where
  "cstr bytes = takeWhile (\<lambda>b. b \<noteq> 0) bytes"

text \<open>C35. The check accepts a string exactly when the bytes before the terminator are a sequence of forms of one to
  four bytes. Forms that are longer than the value needs, surrogates and values above \<open>0x10FFFF\<close> are accepted
  too.\<close>

theorem isValidUtf8_iff:
  "isValidUtf8 (Some bytes) \<longleftrightarrow>
     (\<exists>fs. cstr bytes = concat (map (\<lambda>(n, c). utf8_form n c) fs) \<and> list_all (\<lambda>(n, c). utf8_has_form n c) fs)"
proof -
  let ?f = "\<lambda>(n, c). utf8_form n c" and ?ok = "\<lambda>(n, c). utf8_has_form n c"
  have nz: "0 \<notin> set (cstr bytes)" by (auto simp: cstr_def dest: set_takeWhileD)
  have "isValidUtf8 (Some bytes) \<longleftrightarrow> (\<exists>us. cstr bytes = concat us \<and> (\<forall>u \<in> set us. utf8_unit u))"
    using utf8_loop_until_nul[of bytes] utf8_loop_units[OF nz] by (simp add: isValidUtf8_def cstr_def)
  also have "\<dots> \<longleftrightarrow> (\<exists>fs. cstr bytes = concat (map ?f fs) \<and> list_all ?ok fs)"
  proof
    assume "\<exists>us. cstr bytes = concat us \<and> (\<forall>u \<in> set us. utf8_unit u)"
    then obtain us where us: "cstr bytes = concat us" "\<forall>u \<in> set us. utf8_unit u" by blast
    have "\<exists>fs. us = map ?f fs \<and> list_all ?ok fs" using us(2)
    proof (induction us)
      case (Cons u us)
      then obtain fs n c where "us = map ?f fs" "list_all ?ok fs" "utf8_has_form n c" "u = utf8_form n c"
        using utf8_unit_form[of u] by auto
      then show ?case by (intro exI[of _ "(n, c) # fs"]) simp
    qed simp
    then show "\<exists>fs. cstr bytes = concat (map ?f fs) \<and> list_all ?ok fs" using us(1) by auto
  next
    assume "\<exists>fs. cstr bytes = concat (map ?f fs) \<and> list_all ?ok fs"
    then obtain fs where fs: "cstr bytes = concat (map ?f fs)" "list_all ?ok fs" by blast
    have "utf8_unit (?f x)" if "x \<in> set fs" for x
    proof -
      obtain n c where x: "x = (n, c)" by force
      have "0 \<notin> set (utf8_form n c)" using nz that fs(1) x by force
      then have "n = 1 \<longrightarrow> c \<noteq> 0" by (cases "c = 0") (auto simp: utf8_form_def byte_def)
      then show ?thesis using fs(2) that x by (auto simp: list_all_iff intro: utf8_form_unit)
    qed
    then show "\<exists>us. cstr bytes = concat us \<and> (\<forall>u \<in> set us. utf8_unit u)" using fs(1) by (intro exI[of _ "map ?f fs"]) auto
  qed
  finally show ?thesis .
qed

text \<open>The shortest form of a scalar value, as UTF-8 prescribes it.\<close>

definition utf8_encode :: "nat \<Rightarrow> 8 word list" where
  "utf8_encode c = utf8_form (if c < 2 ^ 7 then 1 else if c < 2 ^ 11 then 2 else if c < 2 ^ 16 then 3 else 4) c"

definition scalar_value :: "nat \<Rightarrow> bool" where
  "scalar_value c \<longleftrightarrow> c < 0x110000 \<and> \<not> (0xD800 \<le> c \<and> c < 0xE000)"

lemma utf8_encode_unit: "scalar_value c \<Longrightarrow> c \<noteq> 0 \<Longrightarrow> utf8_unit (utf8_encode c)"
  unfolding utf8_encode_def by (rule utf8_form_unit) (auto simp: utf8_has_form_def scalar_value_def)

text \<open>On a text encoded in UTF-8 the check notices every cut inside a character: of the prefixes of a text
  without zero characters exactly those that end between two characters are accepted.\<close>

theorem isValidUtf8_encoded:
  assumes "list_all (\<lambda>c. scalar_value c \<and> c \<noteq> 0) cs"
  shows "isValidUtf8 (Some (take n (concat (map utf8_encode cs)))) \<longleftrightarrow>
    (\<exists>k \<le> length cs. take n (concat (map utf8_encode cs)) = concat (map utf8_encode (take k cs)))"
  using assms
proof (induction cs arbitrary: n)
  case Nil
  then show ?case by (simp add: isValidUtf8_def utf8_loop_stop peek_def)
next
  case (Cons c cs)
  let ?u = "utf8_encode c" and ?E = "concat (map utf8_encode cs)"
  have u: "utf8_unit ?u" using Cons.prems by (simp add: utf8_encode_unit)
  have nz: "0 \<notin> set ?u" by (rule utf8_unit_nonzero[OF u])
  have "utf8_loop ?u" by (subst utf8_loop_units[OF nz]) (intro exI[of _ "[?u]"], simp add: u)
  then have app: "utf8_loop (?u @ bs) \<longleftrightarrow> utf8_loop bs" for bs using utf8_loop_append nz by blast
  show ?case
  proof (cases "length ?u \<le> n")
    case True
    then have t: "take n (concat (map utf8_encode (c # cs))) = ?u @ take (n - length ?u) ?E" by simp
    have "(\<exists>k \<le> length (c # cs). ?u @ take (n - length ?u) ?E = concat (map utf8_encode (take k (c # cs)))) \<longleftrightarrow>
      (\<exists>k \<le> length cs. take (n - length ?u) ?E = concat (map utf8_encode (take k cs)))" (is "?L \<longleftrightarrow> ?R")
    proof
      assume ?L
      then obtain k where k: "k \<le> length (c # cs)" "?u @ take (n - length ?u) ?E = concat (map utf8_encode (take k (c # cs)))"
        by blast
      have "?u \<noteq> []" using u by (auto simp: utf8_unit_def)
      then obtain j where "k = Suc j" using k(2) by (cases k) auto
      then show ?R using k by auto
    next
      assume ?R
      then obtain k where "k \<le> length cs" "take (n - length ?u) ?E = concat (map utf8_encode (take k cs))" by blast
      then show ?L by (intro exI[of _ "Suc k"]) simp
    qed
    then show ?thesis using Cons app unfolding t by (simp add: isValidUtf8_def)
  next
    case False
    then have t: "take n (concat (map utf8_encode (c # cs))) = take n ?u" by simp
    have no: "\<not> utf8_loop (take n ?u)" if "0 < n"
    proof
      assume "utf8_loop (take n ?u)"
      moreover have "peek (take n ?u) \<noteq> 0" using u that by (cases n) (auto simp: utf8_unit_def peek_def)
      ultimately obtain v rest where v: "take n ?u = v @ rest" "utf8_unit v" using utf8_loop_unfold[of "take n ?u"] by blast
      then have "?u @ [] = v @ (rest @ drop n ?u)" by (metis append.assoc append.right_neutral append_take_drop_id)
      then have "drop n ?u = []" using utf8_unit_prefix[OF u v(2)] by blast
      then show False using False by simp
    qed
    have "(\<exists>k \<le> length (c # cs). take n ?u = concat (map utf8_encode (take k (c # cs)))) \<longleftrightarrow> n = 0"
    proof
      assume "\<exists>k \<le> length (c # cs). take n ?u = concat (map utf8_encode (take k (c # cs)))"
      then obtain k where k: "take n ?u = concat (map utf8_encode (take k (c # cs)))" by blast
      then have "length (take n ?u) \<ge> length ?u" if "k \<noteq> 0" using that by (cases k) auto
      then have "k = 0" using False by auto
      then show "n = 0" using k u by (auto simp: utf8_unit_def)
    qed (auto intro: exI[of _ 0])
    moreover have "isValidUtf8 (Some (take n ?u)) \<longleftrightarrow> n = 0"
      using no by (cases "n = 0") (auto simp: isValidUtf8_def utf8_loop_stop peek_def)
    ultimately show ?thesis unfolding t by simp
  qed
qed

theorem isValidUtf8_encoded_witness:
  "isValidUtf8 (Some (take 3 (concat (map utf8_encode [0x68, 0xE9, 0x21])))) \<and>
   \<not> isValidUtf8 (Some (take 2 (concat (map utf8_encode [0x68, 0xE9, 0x21]))))"
proof -
  have t: "take 3 (concat (map utf8_encode [0x68, 0xE9, 0x21])) = concat (map utf8_encode (take 2 [0x68, 0xE9, 0x21]))"
    by code_simp
  have s: "list_all (\<lambda>c. scalar_value c \<and> c \<noteq> 0) [0x68, 0xE9, 0x21]" by (simp add: scalar_value_def)
  have "list_all (\<lambda>k. take 2 (concat (map utf8_encode [0x68, 0xE9, 0x21])) \<noteq>
      concat (map utf8_encode (take k [0x68, 0xE9, 0x21]))) [0..<4]" by code_simp
  then have "\<not> (\<exists>k \<le> length [0x68, 0xE9, 0x21 :: nat]. take 2 (concat (map utf8_encode [0x68, 0xE9, 0x21])) =
      concat (map utf8_encode (take k [0x68, 0xE9, 0x21])))"
    unfolding list_all_iff by (auto simp: Ball_def less_Suc_eq_le)
  then show ?thesis
    using isValidUtf8_encoded[OF s, of 3] isValidUtf8_encoded[OF s, of 2] t by (metis (no_types, lifting) length_Cons le_simps(2) lessI less_SucI list.size(3) numeral_2_eq_2)
qed

end
