(* ===== verification/Bytes.thy ===== *)
theory Bytes
  imports Prelude Utf8_Check
begin

text \<open>
  Byte strings and the little-endian fields of binary files: what \<^verbatim>\<open>fread\<close> into an integer and
  \<^verbatim>\<open>memcpy\<close> of one give on the little-endian machines the app runs on. A decoder takes the bytes that remain
  and gives the value and the bytes after it, or \<open>None\<close> when it refuses. The interface of a field is the locale
  \<open>codec\<close>: its encoder and decoder are inverse on the values it can hold, and repetition of a field is verified once
  from that.
\<close>

type_synonym bytes = "8 word list"
type_synonym 'a decoder = "bytes \<Rightarrow> ('a \<times> bytes) option"

definition str :: "string \<Rightarrow> bytes" where
  "str s = map of_char s"

definition SIZE_MAX :: nat where
  "SIZE_MAX = 2 ^ 64 - 1"

definition INT64_MAX :: int where
  "INT64_MAX = 2 ^ 63 - 1"

definition u64 :: "int \<Rightarrow> nat" where
  "u64 x = nat (x mod 2 ^ 64)"

section \<open>Little-endian numbers\<close>

primrec le_bytes :: "nat \<Rightarrow> nat \<Rightarrow> bytes" where
  "le_bytes 0 n = []"
| "le_bytes (Suc k) n = byte (n mod 256) # le_bytes k (n div 256)"

primrec le_val :: "bytes \<Rightarrow> nat" where
  "le_val [] = 0"
| "le_val (b # bs) = unat b + 256 * le_val bs"

text \<open>Two's complement at width \<open>w\<close>.\<close>

definition signed_at :: "nat \<Rightarrow> nat \<Rightarrow> int" where
  "signed_at w n = (if n < 2 ^ (w - 1) then int n else int n - 2 ^ w)"

definition unsigned_at :: "nat \<Rightarrow> int \<Rightarrow> nat" where
  "unsigned_at w x = nat (x mod 2 ^ w)"

definition wrap_i32 :: "int \<Rightarrow> int" where
  "wrap_i32 x = (x + 2 ^ 31) mod 2 ^ 32 - 2 ^ 31"

lemma wrap_i32_id [simp]: "- (2 ^ 31) \<le> x \<Longrightarrow> x < 2 ^ 31 \<Longrightarrow> wrap_i32 x = x"
  by (simp add: wrap_i32_def)

lemma unat_byte_mod [simp]: "unat (byte (n mod 256)) = n mod 256"
  by (simp add: byte_def unat_of_nat)

lemma byte_unat [simp]: "byte (unat b) = b"
  by (simp add: byte_def)

lemma unat_byte_less [simp]: "unat (b :: 8 word) < 256"
  by transfer (simp add: take_bit_eq_mod nat_less_iff)

lemma length_le_bytes [simp]: "length (le_bytes k n) = k"
  by (induction k arbitrary: n) auto

lemma pow256: "(256 :: nat) ^ n = 2 ^ (8 * n)"
  by (simp add: power_mult)

lemma le_val_less: "le_val bs < 256 ^ length bs"
proof (induction bs)
  case (Cons b bs)
  then have "256 * le_val bs + 256 \<le> 256 * 256 ^ length bs" by simp
  then show ?case using unat_byte_less[of b] by (simp del: unat_byte_less)
qed simp

lemma le_val_le_bytes: "le_val (le_bytes k n) = n mod 256 ^ k"
proof (induction k arbitrary: n)
  case (Suc k)
  have "n mod 256 + 256 * (n div 256 mod 256 ^ k) = n mod (256 * 256 ^ k)"
    by (simp add: mod_mult2_eq)
  then show ?case using Suc by simp
qed simp

lemma le_bytes_le_val [simp]: "le_bytes (length bs) (le_val bs) = bs"
proof (induction bs)
  case (Cons b bs)
  have "(unat b + 256 * le_val bs) mod 256 = unat b" "(unat b + 256 * le_val bs) div 256 = le_val bs"
    using unat_byte_less[of b] by (simp_all del: unat_byte_less)
  then show ?case using Cons by simp
qed simp

lemma signed_unsigned:
  assumes "0 < w" "- (2 ^ (w - 1)) \<le> x" "x < 2 ^ (w - 1)"
  shows "signed_at w (unsigned_at w x) = x"
proof -
  obtain v where w: "w = Suc v" using assms(1) by (cases w) auto
  show ?thesis
  proof (cases "0 \<le> x")
    case True
    then have "x mod 2 ^ w = x" using assms(3) w by simp
    then show ?thesis using True assms(3) w by (simp add: signed_at_def unsigned_at_def nat_less_iff)
  next
    case False
    then have "x mod 2 ^ w = x + 2 ^ w" using assms(2) w by (intro mod_pos_pos_trivial[of "x + 2 ^ w" "2 ^ w", simplified]) auto
    then show ?thesis using False assms(2) w by (simp add: signed_at_def unsigned_at_def nat_less_iff)
  qed
qed

lemma signed_range: "0 < w \<Longrightarrow> n < 2 ^ w \<Longrightarrow> - (2 ^ (w - 1)) \<le> signed_at w n \<and> signed_at w n < 2 ^ (w - 1)"
proof -
  assume "0 < w" and n: "n < 2 ^ w"
  then obtain v where w: "w = Suc v" by (cases w) auto
  have "int n < 2 ^ w" using n by (metis of_nat_less_iff of_nat_numeral of_nat_power)
  then show ?thesis using w by (auto simp: signed_at_def not_less of_nat_less_iff[of _ "2 ^ v", symmetric] of_nat_le_iff[of "2 ^ v", symmetric] simp del: of_nat_less_iff of_nat_le_iff)
qed

lemma unsigned_signed: "0 < w \<Longrightarrow> n < 2 ^ w \<Longrightarrow> unsigned_at w (signed_at w n) = n"
  by (simp add: unsigned_at_def signed_at_def nat_mod_distrib zmod_int[symmetric] del: of_nat_mod)

lemma le_bytes_of_le_val: "length bs = k \<Longrightarrow> le_bytes k (le_val bs) = bs"
  using le_bytes_le_val by blast

lemma le_bytes_signed: "length bs = Suc k \<Longrightarrow> le_bytes (Suc k) (unsigned_at (8 * Suc k) (signed_at (8 * Suc k) (le_val bs))) = bs"
  using le_val_less[of bs] by (simp add: unsigned_signed le_bytes_of_le_val pow256 del: le_bytes.simps mult_Suc_right power_Suc)

section \<open>Decoders\<close>

definition gr_bytes :: "nat \<Rightarrow> bytes decoder" where
  "gr_bytes n r = (if length r < n then None else Some (take n r, drop n r))"

definition gr_uint :: "nat \<Rightarrow> nat decoder" where
  "gr_uint n r = map_option (map_prod le_val id) (gr_bytes n r)"

definition gr_int :: "nat \<Rightarrow> int decoder" where
  "gr_int n r = map_option (map_prod (signed_at (8 * n)) id) (gr_uint n r)"

primrec read_n :: "'a decoder \<Rightarrow> nat \<Rightarrow> 'a list decoder" where
  "read_n f 0 r = Some ([], r)"
| "read_n f (Suc n) r = (case f r of None \<Rightarrow> None | Some (x, r') \<Rightarrow> map_option (map_prod (Cons x) id) (read_n f n r'))"

section \<open>What a field promises\<close>

locale codec =
  fixes ok :: "'a \<Rightarrow> bool" and enc :: "'a \<Rightarrow> bytes" and dec :: "'a decoder"
  assumes dec_enc: "ok x \<Longrightarrow> dec (enc x @ rest) = Some (x, rest)"
    and dec_ok: "dec r = Some (x, rest) \<Longrightarrow> ok x \<and> (\<exists>u. r = u @ rest)"
begin

lemma read_n_enc: "list_all ok xs \<Longrightarrow> read_n dec (length xs) (concat (map enc xs) @ rest) = Some (xs, rest)"
  by (induction xs) (simp_all add: dec_enc)

lemma read_n_ok: "read_n dec n r = Some (xs, rest) \<Longrightarrow> length xs = n \<and> list_all ok xs \<and> (\<exists>u. r = u @ rest)"
proof (induction n arbitrary: r xs)
  case (Suc n)
  then obtain x r' ys where "dec r = Some (x, r')" "read_n dec n r' = Some (ys, rest)" "xs = x # ys"
    by (auto split: option.splits prod.splits)
  then show ?case using Suc.IH[of r' ys] dec_ok[of r x r'] by fastforce
qed simp

end

lemma gr_bytes_enc: "length x = n \<Longrightarrow> gr_bytes n (x @ rest) = Some (x, rest)"
  by (simp add: gr_bytes_def)

lemma gr_bytes_ok: "gr_bytes n r = Some (x, rest) \<longleftrightarrow> length x = n \<and> r = x @ rest"
  by (auto simp: gr_bytes_def split: if_splits)

interpretation raw: codec "\<lambda>x. length x = n" "\<lambda>x. x" "gr_bytes n" for n
  by unfold_locales (auto simp: gr_bytes_ok)

interpretation uint: codec "\<lambda>x. x < 256 ^ n" "le_bytes n" "gr_uint n" for n
proof
  show "gr_uint n (le_bytes n x @ rest) = Some (x, rest)" if "x < 256 ^ n" for x rest
    using that by (simp add: gr_uint_def gr_bytes_enc le_val_le_bytes)
  show "x < 256 ^ n \<and> (\<exists>u. r = u @ rest)" if "gr_uint n r = Some (x, rest)" for r x rest
    using that by (auto simp: gr_uint_def gr_bytes_ok le_val_less)
qed

lemma unsigned_at_less: "unsigned_at w x < 2 ^ w"
  by (simp add: unsigned_at_def nat_less_iff)

interpretation sint: codec "\<lambda>x. - (2 ^ (8 * Suc n - 1)) \<le> x \<and> x < 2 ^ (8 * Suc n - 1)"
  "\<lambda>x. le_bytes (Suc n) (unsigned_at (8 * Suc n) x)" "gr_int (Suc n)" for n
proof
  show "gr_int (Suc n) (le_bytes (Suc n) (unsigned_at (8 * Suc n) x) @ rest) = Some (x, rest)"
    if "- (2 ^ (8 * Suc n - 1)) \<le> x \<and> x < 2 ^ (8 * Suc n - 1)" for x :: int and rest
    unfolding gr_int_def
    using that signed_unsigned[of "8 * Suc n" x] unsigned_at_less[of "8 * Suc n" x]
    by (subst uint.dec_enc) (auto simp: pow256 simp del: mult_Suc_right power_Suc)
  show "(- (2 ^ (8 * Suc n - 1)) \<le> x \<and> x < 2 ^ (8 * Suc n - 1)) \<and> (\<exists>u. r = u @ rest)"
    if dec: "gr_int (Suc n) r = Some (x, rest)" for r x rest
  proof -
    obtain m where "gr_uint (Suc n) r = Some (m, rest)" "x = signed_at (8 * Suc n) m"
      using dec by (auto simp: gr_int_def)
    then show ?thesis using uint.dec_ok[of "Suc n" r m rest] signed_range[of "8 * Suc n" m]
      by (simp add: pow256 del: mult_Suc_right power_Suc)
  qed
qed

end
