(* ===== verification/Llm_Inference.thy ===== *)
theory Llm_Inference
  imports Context_Init Bytes
begin

text \<open>
  \<^verbatim>\<open>LLMInference\<close> (\<^verbatim>\<open>smollm/src/main/cpp/LLMInference.cpp\<close>): one chat of the application over
  one context. The context, its memory and \<^verbatim>\<open>llama_decode\<close> are those of \<open>Llama_Context\<close>. What the
  library does beyond that is the argument \<open>host\<close>: loading a model, rendering the chat template,
  tokenizing, the arithmetic of the sampler chain, the end-of-generation tokens and the text of a token.

  A \<^verbatim>\<open>std::string\<close> is the list of its bytes. A member function returns the object as it is left together
  with \<open>Inl what\<close> where it throws and \<open>Inr\<close> of its result otherwise; the outer \<open>Inl\<close> is a fault that ends the
  process.
\<close>

section \<open>State\<close>

type_synonym ('l, 'a) call = "('l \<times> (bytes + 'a)) res"

record ('t, 'r, 's, 'm, 'f) llm_host =
  h_env :: "('t, 'r) llama_env"
  h_load :: "bytes \<Rightarrow> bool \<Rightarrow> bool \<Rightarrow> 'm option"
  h_info :: "'m \<Rightarrow> model_info"
  h_backends_ok :: "int \<Rightarrow> bool"
  h_data :: "'m \<Rightarrow> 't"
  h_sampler :: "'f \<Rightarrow> 's"
  h_model_template :: "'m \<Rightarrow> bytes option"
  h_prompt :: "'m \<Rightarrow> bytes option \<Rightarrow> (bytes \<times> bytes) list \<Rightarrow> bytes + bytes"
  h_tokenize :: "'m \<Rightarrow> bytes \<Rightarrow> bytes + int list"
  h_sample :: "'s \<Rightarrow> 'r option \<Rightarrow> ('s \<times> int) option"
  h_is_eog :: "'m \<Rightarrow> int \<Rightarrow> bool"
  h_piece :: "'m \<Rightarrow> int \<Rightarrow> bytes"

text \<open>\<^verbatim>\<open>_batch->token\<close> points to \<^verbatim>\<open>_promptTokens\<close> or to \<^verbatim>\<open>_currToken\<close>, so that its content follows
  the member it points to.\<close>

datatype batch_src = Prompt_tokens | Curr_token

record ('t, 'r, 's, 'm) llm =
  ll_ctx :: "('t, 'r) llama_context"
  ll_model :: 'm
  ll_sampler :: 's
  ll_currToken :: int
  ll_batch :: "batch_src option"
  ll_messages :: "(bytes \<times> bytes) list"
  ll_formattedMessages :: bytes
  ll_promptTokens :: "int list"
  ll_chatTemplate :: "bytes option"
  ll_response :: bytes
  ll_cacheResponseTokens :: bytes
  ll_storeChats :: bool
  ll_responseGenerationTime :: int
  ll_responseNumTokens :: int
  ll_nCtxUsed :: int

section \<open>Operations\<close>

text \<open>\<^verbatim>\<open>loadModel\<close> on a new object. An object on which it throws is deleted by its only caller, so the error
  carries no object. \<^verbatim>\<open>minP\<close> is not used.\<close>

definition loadModel :: "('t, 'r, 's, 'm, 'f) llm_host \<Rightarrow> bytes \<Rightarrow> 'f \<Rightarrow> 'f \<Rightarrow> bool \<Rightarrow> int \<Rightarrow> bytes option \<Rightarrow> int \<Rightarrow> bool \<Rightarrow>
    bool \<Rightarrow> (bytes + ('t, 'r, 's, 'm) llm) res" where
  "loadModel host model_path minP temperature storeChats contextSize chatTemplate nThreads useMmap useMlock =
     (case h_load host model_path useMmap useMlock of
        None \<Rightarrow> Inr (Inl (str ''loadModel() failed''))
      | Some model \<Rightarrow>
          and_then (llama_init_from_model (h_env host) (h_backends_ok host nThreads) (h_data host model) (h_info host model)
              (app_params contextSize)) (\<lambda>r.
            case r of
              None \<Rightarrow> Inr (Inl (str ''llama_new_context_with_model() returned null''))
            | Some ctx \<Rightarrow> Inr (Inr \<lparr>ll_ctx = ctx, ll_model = model, ll_sampler = h_sampler host temperature,
                ll_currToken = 0, ll_batch = None, ll_messages = [],
                ll_formattedMessages = replicate (cx_n_ctx ctx) 0, ll_promptTokens = [],
                ll_chatTemplate = (case chatTemplate of None \<Rightarrow> h_model_template host model | Some t \<Rightarrow> Some (cstr t)),
                ll_response = [], ll_cacheResponseTokens = [], ll_storeChats = storeChats,
                ll_responseGenerationTime = 0, ll_responseNumTokens = 0, ll_nCtxUsed = 0\<rparr>)))"

definition addChatMessage :: "bytes \<Rightarrow> bytes \<Rightarrow> ('t, 'r, 's, 'm) llm \<Rightarrow> ('t, 'r, 's, 'm) llm" where
  "addChatMessage message role l = l\<lparr>ll_messages := ll_messages l @ [(cstr role, cstr message)]\<rparr>"

definition getContextSizeUsed :: "('t, 'r, 's, 'm) llm \<Rightarrow> int" where
  "getContextSizeUsed l = ll_nCtxUsed l"

definition startCompletion :: "('t, 'r, 's, 'm, 'f) llm_host \<Rightarrow> bytes \<Rightarrow> ('t, 'r, 's, 'm) llm \<Rightarrow>
    ('t, 'r, 's, 'm) llm \<times> (bytes + unit)" where
  "startCompletion host query l =
     (let l1 = (if ll_storeChats l then l else l\<lparr>ll_formattedMessages := replicate (cx_n_ctx (ll_ctx l)) 0\<rparr>);
          l2 = addChatMessage query (str ''user'') (l1\<lparr>ll_responseGenerationTime := 0, ll_responseNumTokens := 0\<rparr>)
      in case h_prompt host (ll_model l) (ll_chatTemplate l) (ll_messages l2) of
           Inl what \<Rightarrow> (l2, Inl what)
         | Inr prompt \<Rightarrow>
             (case h_tokenize host (ll_model l) prompt of
                Inl what \<Rightarrow> (l2, Inl what)
              | Inr toks \<Rightarrow> (l2\<lparr>ll_promptTokens := toks, ll_batch := Some Prompt_tokens\<rparr>, Inr ())))"

definition batch_tokens :: "('t, 'r, 's, 'm) llm \<Rightarrow> int list option" where
  "batch_tokens l = map_option (\<lambda>src. case src of Prompt_tokens \<Rightarrow> ll_promptTokens l | Curr_token \<Rightarrow> [ll_currToken l]) (ll_batch l)"

text \<open>\<^verbatim>\<open>llama_sampler_sample\<close> for a context without backend samplers: no row is a failed assertion, and so is
  a chain that selects no token.\<close>

definition llama_sampler_sample :: "('t, 'r, 's, 'm, 'f) llm_host \<Rightarrow> 's \<Rightarrow> ('t, 'r) llama_context \<Rightarrow> int \<Rightarrow>
    (('t, 'r) llama_context \<times> 's \<times> int) res" where
  "llama_sampler_sample host smpl ctx idx =
     (case get_logits_ith idx ctx of
        (ctx', None) \<Rightarrow> Inl Abort
      | (ctx', Some logits) \<Rightarrow>
          (case h_sample host smpl logits of None \<Rightarrow> Inl Abort | Some (smpl', token) \<Rightarrow> Inr (ctx', smpl', token)))"

text \<open>What \<^verbatim>\<open>completionLoop\<close> does with the sampled token; \<open>dt\<close> is the measured time.\<close>

definition take_token :: "('t, 'r, 's, 'm, 'f) llm_host \<Rightarrow> int \<Rightarrow> int \<Rightarrow> ('t, 'r, 's, 'm) llm \<Rightarrow> ('t, 'r, 's, 'm) llm \<times> bytes" where
  "take_token host dt token l0 =
     (let l = l0\<lparr>ll_currToken := token\<rparr> in
      if h_is_eog host (ll_model l) token
      then ((addChatMessage (ll_response l) (str ''assistant'') l)\<lparr>ll_response := []\<rparr>, str ''[EOG]'')
      else
        (let cache = ll_cacheResponseTokens l @ h_piece host (ll_model l) token;
             l1 = l\<lparr>ll_responseGenerationTime := ll_responseGenerationTime l + dt,
                    ll_responseNumTokens := ll_responseNumTokens l + 1,
                    ll_cacheResponseTokens := cache, ll_batch := Some Curr_token\<rparr>
         in if isValidUtf8 (Some cache)
            then (l1\<lparr>ll_response := ll_response l @ cache, ll_cacheResponseTokens := []\<rparr>, cache)
            else (l1, [])))"

definition completionLoop :: "('t, 'r, 's, 'm, 'f) llm_host \<Rightarrow> int \<Rightarrow> ('t, 'r, 's, 'm) llm \<Rightarrow>
    (('t, 'r, 's, 'm) llm, bytes) call" where
  "completionLoop host dt l =
     and_then (kv_seq_pos_max (cx_memory (ll_ctx l)) 0) (\<lambda>pos_max.
       let l1 = l\<lparr>ll_nCtxUsed := pos_max + 1\<rparr> in
       case batch_tokens l of
         None \<Rightarrow> Inl Undefined
       | Some toks \<Rightarrow>
           if u32 (pos_max + 1 + int (length toks)) > cx_n_ctx (ll_ctx l)
           then Inr (l1, Inl (str ''context size reached''))
           else and_then (llama_decode (h_env host) (llama_batch_get_one toks) (ll_ctx l)) (\<lambda>(ctx, ret).
             if ret < 0 then Inr (l1\<lparr>ll_ctx := ctx\<rparr>, Inl (str ''llama_decode() failed''))
             else and_then (llama_sampler_sample host (ll_sampler l) ctx (- 1)) (\<lambda>(ctx', smpl, token).
               case take_token host dt token (l1\<lparr>ll_ctx := ctx', ll_sampler := smpl\<rparr>) of (l2, piece) \<Rightarrow> Inr (l2, Inr piece))))"

definition stopCompletion :: "('t, 'r, 's, 'm) llm \<Rightarrow> ('t, 'r, 's, 'm) llm" where
  "stopCompletion l =
     (if ll_storeChats l then addChatMessage (ll_response l) (str ''assistant'') l else l)\<lparr>ll_response := []\<rparr>"

section \<open>One call of \<^verbatim>\<open>completionLoop\<close>\<close>

text \<open>What the application relies on: a ready context whose graphs succeed, a sampler that selects a token of the
  vocabulary, a batch that can be decoded, and sizes that fit an \<^verbatim>\<open>int\<close>.\<close>

definition llm_ok :: "('t, 'r, 's, 'm, 'f) llm_host \<Rightarrow> ('t, 'r, 's, 'm) llm \<Rightarrow> bool" where
  "llm_ok host l \<longleftrightarrow> env_ok (h_env host) \<and> app_ready (ll_ctx l) \<and> cx_n_ctx (ll_ctx l) < 2 ^ 31 \<and>
     (\<forall>s r. \<exists>s' t. h_sample host s r = Some (s', t) \<and> batch_fits (ll_ctx l) [t]) \<and>
     (\<forall>toks. batch_tokens l = Some toks \<longrightarrow> batch_fits (ll_ctx l) toks \<and> length toks < 2 ^ 31)"

definition ctx_used :: "('t, 'r, 's, 'm) llm \<Rightarrow> nat" where
  "ctx_used l = used_pos (ll_ctx l)"

definition ctx_size :: "('t, 'r, 's, 'm) llm \<Rightarrow> nat" where
  "ctx_size l = cx_n_ctx (ll_ctx l)"

lemma app_pos_max:
  assumes "app_ready cx"
  shows "kv_seq_pos_max (cx_memory cx) 0 = Inr (int (used_pos cx) - 1)"
proof -
  have "kv_inv (cx_memory cx)" "0 < length (kv_seq_to_stream (cx_memory cx))"
    using assms by (simp_all add: app_ready_def ctx_ready_def Let_def)
  then have "0 \<le> next_pos cx" "kv_seq_ok (cx_memory cx) 0"
    using kv_bounds_max_ge[of "cx_memory cx" 0] by (simp_all add: next_pos_def kv_seq_ok_def)
  then show ?thesis
    by (simp add: kv_seq_pos_max_def used_pos_def next_pos_def mem_pos_max_def kv_bounds_def kv_stream_def)
qed

lemma take_token_fields:
  "ll_ctx (fst (take_token host dt t l)) = ll_ctx l" "ll_model (fst (take_token host dt t l)) = ll_model l"
  "ll_nCtxUsed (fst (take_token host dt t l)) = ll_nCtxUsed l" "ll_currToken (fst (take_token host dt t l)) = t"
  "ll_storeChats (fst (take_token host dt t l)) = ll_storeChats l"
  "ll_promptTokens (fst (take_token host dt t l)) = ll_promptTokens l"
  by (simp_all add: take_token_def addChatMessage_def Let_def)

lemma take_token_eog:
  "h_is_eog host (ll_model l) t \<Longrightarrow> take_token host dt t l =
     (l\<lparr>ll_currToken := t, ll_messages := ll_messages l @ [(str ''assistant'', cstr (ll_response l))], ll_response := []\<rparr>, str ''[EOG]'')"
  by (simp add: take_token_def addChatMessage_def Let_def str_def cstr_def)

text \<open>A call either finds the context full, and changes nothing but the counter, or decodes the batch and takes the
  token the sampler selects.\<close>

lemma completion_full:
  assumes "llm_ok host l" "batch_tokens l = Some toks" "ctx_size l < ctx_used l + length toks"
  shows "completionLoop host dt l = Inr (l\<lparr>ll_nCtxUsed := int (ctx_used l)\<rparr>, Inl (str ''context size reached''))"
proof -
  have a: "app_ready (ll_ctx l)" "cx_n_ctx (ll_ctx l) < 2 ^ 31" "length toks < 2 ^ 31"
    using assms(1,2) by (auto simp: llm_ok_def)
  have "used_pos (ll_ctx l) \<le> cx_n_ctx (ll_ctx l)" using a(1) by (simp add: app_ready_def used_pos_def)
  then have "u32 (int (used_pos (ll_ctx l)) + int (length toks)) = used_pos (ll_ctx l) + length toks"
    using a(2,3) by (subst u32_small) auto
  then show ?thesis
    using assms(2,3) app_pos_max[OF a(1)] by (simp add: completionLoop_def ctx_used_def ctx_size_def)
qed

lemma completion_step:
  assumes "llm_ok host l" "batch_tokens l = Some toks" "ctx_used l + length toks \<le> ctx_size l"
  obtains ctx smpl t where "completionLoop host dt l =
      Inr (apsnd Inr (take_token host dt t (l\<lparr>ll_nCtxUsed := int (ctx_used l), ll_ctx := ctx, ll_sampler := smpl\<rparr>)))"
    "app_ready ctx" "used_pos ctx = ctx_used l + length toks" "cx_n_ctx ctx = ctx_size l" "batch_fits ctx = batch_fits (ll_ctx l)"
    "batch_fits (ll_ctx l) [t]"
proof -
  have a: "env_ok (h_env host)" "app_ready (ll_ctx l)" "cx_n_ctx (ll_ctx l) < 2 ^ 31" "batch_fits (ll_ctx l) toks" "length toks < 2 ^ 31"
    and smp: "\<And>s r. \<exists>s' t. h_sample host s r = Some (s', t) \<and> batch_fits (ll_ctx l) [t]"
    using assms(1,2) by (auto simp: llm_ok_def)
  let ?used = "used_pos (ll_ctx l)"
  have le: "?used + length toks \<le> cx_n_ctx (ll_ctx l)" using assms(3) by (simp add: ctx_used_def ctx_size_def)
  obtain ctx r where d: "llama_decode (h_env host) (llama_batch_get_one toks) (ll_ctx l) = Inr (ctx, 0)" "app_ready ctx"
    "used_pos ctx = ?used + length toks" "cx_n_ctx ctx = cx_n_ctx (ll_ctx l)" "batch_fits ctx = batch_fits (ll_ctx l)"
    "get_logits_ith (- 1) ctx = (ctx, Some (Some r))"
    using dec.decode_ok[of "h_env host" "ll_ctx l" toks] a(1,2,4) le by blast
  obtain s' t where t: "h_sample host (ll_sampler l) (Some r) = Some (s', t)" "batch_fits (ll_ctx l) [t]" using smp by blast
  have "llama_sampler_sample host (ll_sampler l) ctx (- 1) = Inr (ctx, s', t)"
    using d(6) t(1) by (simp add: llama_sampler_sample_def)
  moreover have "u32 (int ?used + int (length toks)) = ?used + length toks"
    using a(3,5) le by (subst u32_small) auto
  ultimately have "completionLoop host dt l =
      Inr (apsnd Inr (take_token host dt t (l\<lparr>ll_nCtxUsed := int (ctx_used l), ll_ctx := ctx, ll_sampler := s'\<rparr>)))"
    using assms(2) app_pos_max[OF a(2)] d(1) le
    by (simp add: completionLoop_def ctx_used_def ctx_size_def apsnd_def map_prod_def split: prod.splits)
  then show ?thesis using that d t(2) by (auto simp: ctx_used_def ctx_size_def)
qed

lemma llm_ok_take:
  assumes "llm_ok host l" "app_ready ctx" "batch_fits ctx = batch_fits (ll_ctx l)" "cx_n_ctx ctx = ctx_size l"
    "batch_fits (ll_ctx l) [t]" "batch_tokens l \<noteq> None"
  shows "llm_ok host (fst (take_token host dt t (l\<lparr>ll_nCtxUsed := u, ll_ctx := ctx, ll_sampler := smpl\<rparr>)))" (is "llm_ok host ?l")
proof -
  have "batch_tokens ?l = Some [t] \<or> batch_tokens ?l = Some (ll_promptTokens l) \<and> batch_tokens l = Some (ll_promptTokens l)"
    using assms(6) by (auto simp: batch_tokens_def take_token_def addChatMessage_def Let_def split: batch_src.splits)
  then show ?thesis
    using assms(1-5) by (auto simp: llm_ok_def take_token_fields ctx_size_def)
qed

section \<open>A whole reply\<close>

text \<open>The loop in which \<^verbatim>\<open>SmolLM.getResponse\<close> calls \<^verbatim>\<open>completionLoop\<close> until it returns the text
  \<^verbatim>\<open>[EOG]\<close>: the pieces before it and the exception that ended the loop, if any. \<open>n\<close> bounds the number of
  calls, \<open>dts\<close> gives their times.\<close>

fun respond :: "('t, 'r, 's, 'm, 'f) llm_host \<Rightarrow> (nat \<Rightarrow> int) \<Rightarrow> nat \<Rightarrow> ('t, 'r, 's, 'm) llm \<Rightarrow>
    (('t, 'r, 's, 'm) llm \<times> bytes list \<times> (bytes + unit)) res" where
  "respond host dts 0 l = Inl Diverges"
| "respond host dts (Suc n) l = and_then (completionLoop host (dts n) l) (\<lambda>(l', r).
     case r of
       Inl what \<Rightarrow> Inr (l', [], Inl what)
     | Inr piece \<Rightarrow>
         if piece = str ''[EOG]'' then Inr (l', [], Inr ())
         else and_then (respond host dts n l') (\<lambda>(l'', pieces, e). Inr (l'', piece # pieces, e)))"

text \<open>How a reply ends, from \<open>l\<close> in \<open>l'\<close> after the pieces \<open>ps\<close>: the context is full; the sampler chose an
  end-of-generation token; or the generated text itself read \<^verbatim>\<open>[EOG]\<close>. \<open>lst\<close> is the text that was decoded
  but not delivered because of the last.\<close>

definition reply_end :: "('t, 'r, 's, 'm, 'f) llm_host \<Rightarrow> ('t, 'r, 's, 'm) llm \<Rightarrow> bytes list \<Rightarrow> bytes \<Rightarrow> bytes + unit \<Rightarrow>
    ('t, 'r, 's, 'm) llm \<Rightarrow> bool" where
  "reply_end host l ps lst e l' \<longleftrightarrow>
     (e = Inl (str ''context size reached'') \<and> lst = [] \<and> ll_response l' = ll_response l @ concat ps \<and>
        ll_messages l' = ll_messages l) \<or>
     (e = Inr () \<and> lst = [] \<and> h_is_eog host (ll_model l) (ll_currToken l') \<and> ll_response l' = [] \<and>
        ll_messages l' = ll_messages l @ [(str ''assistant'', cstr (ll_response l @ concat ps))]) \<or>
     (e = Inr () \<and> lst = str ''[EOG]'' \<and> \<not> h_is_eog host (ll_model l) (ll_currToken l') \<and> ll_response l' = ll_response l @ concat ps @ lst \<and> ll_messages l' = ll_messages l)"

definition cache_pending :: "('t, 'r, 's, 'm) llm \<Rightarrow> bool" where
  "cache_pending l \<longleftrightarrow> ll_cacheResponseTokens l = [] \<or> \<not> utf8_loop (ll_cacheResponseTokens l)"

lemma batch_tokens_counter: "batch_tokens (l\<lparr>ll_nCtxUsed := u\<rparr>) = batch_tokens l"
  by (auto simp: batch_tokens_def map_option_case split: option.splits batch_src.splits)

lemma utf8_loop_Nil [simp]: "utf8_loop []"
  by (simp add: utf8_loop_stop peek_def)

text \<open>A token that is not the end: the text it adds is delivered or kept.\<close>

lemma take_token_text:
  assumes "\<not> h_is_eog host (ll_model l) t" and T: "take_token host dt t l = (l', piece)"
  shows "piece @ ll_cacheResponseTokens l' = ll_cacheResponseTokens l @ h_piece host (ll_model l) t"
    "ll_response l' = ll_response l @ piece" "ll_messages l' = ll_messages l" "utf8_loop piece"
    "cache_pending l'" "batch_tokens l' = Some [t]"
  using assms by (auto simp: take_token_def Let_def isValidUtf8_def cache_pending_def batch_tokens_def split: if_splits)

lemma respond_run:
  assumes "llm_ok host l" "batch_tokens l \<noteq> None" "ctx_size l - ctx_used l < n"
  shows "\<exists>l' ps e gen lst. respond host dts n l = Inr (l', ps, e) \<and> llm_ok host l' \<and> ctx_size l' = ctx_size l \<and>
    ctx_used l \<le> ctx_used l' \<and> length ps \<le> ctx_used l' - ctx_used l \<and> ll_model l' = ll_model l \<and> ll_storeChats l' = ll_storeChats l \<and>
    concat ps @ lst @ ll_cacheResponseTokens l' = ll_cacheResponseTokens l @ concat (map (h_piece host (ll_model l)) gen) \<and>
    reply_end host l ps lst e l' \<and> list_all utf8_loop ps \<and> utf8_loop lst \<and> (cache_pending l \<longrightarrow> cache_pending l')"
  using assms
proof (induction n arbitrary: l)
  case (Suc n)
  obtain toks where toks: "batch_tokens l = Some toks" using Suc.prems(2) by auto
  have pos: "0 < length toks" using Suc.prems(1) toks by (auto simp: llm_ok_def batch_fits_def)
  show ?case
  proof (cases "ctx_size l < ctx_used l + length toks")
    case True
    let ?l = "l\<lparr>ll_nCtxUsed := int (ctx_used l)\<rparr>"
    have "respond host dts (Suc n) l = Inr (?l, [], Inl (str ''context size reached''))"
      using completion_full[OF Suc.prems(1) toks True] by simp
    moreover have "llm_ok host ?l" using Suc.prems(1) by (simp add: llm_ok_def batch_tokens_counter)
    ultimately show ?thesis
      by (rule_tac exI[of _ ?l], rule_tac exI[of _ "[]"], rule_tac exI[of _ "Inl (str ''context size reached'')"], rule_tac exI[of _ "[]"], rule_tac exI[of _ "[]"])
        (simp add: reply_end_def cache_pending_def ctx_size_def ctx_used_def)
  next
    case False
    then have fit: "ctx_used l + length toks \<le> ctx_size l" by simp
    obtain ctx smpl t where C: "completionLoop host (dts n) l =
        Inr (apsnd Inr (take_token host (dts n) t (l\<lparr>ll_nCtxUsed := int (ctx_used l), ll_ctx := ctx, ll_sampler := smpl\<rparr>)))"
      "app_ready ctx" "used_pos ctx = ctx_used l + length toks" "cx_n_ctx ctx = ctx_size l" "batch_fits ctx = batch_fits (ll_ctx l)"
      "batch_fits (ll_ctx l) [t]"
      using completion_step[OF Suc.prems(1) toks fit] by metis
    let ?l0 = "l\<lparr>ll_nCtxUsed := int (ctx_used l), ll_ctx := ctx, ll_sampler := smpl\<rparr>"
    obtain l1 piece where T: "take_token host (dts n) t ?l0 = (l1, piece)" by force
    have l1: "l1 = fst (take_token host (dts n) t ?l0)" using T by simp
    have F: "ll_ctx l1 = ctx" "ll_model l1 = ll_model l" "ll_storeChats l1 = ll_storeChats l" "ll_currToken l1 = t"
      unfolding l1 take_token_fields by simp_all
    have ok: "llm_ok host l1" unfolding l1 by (rule llm_ok_take[OF Suc.prems(1) C(2,5,4,6)]) (simp add: toks)
    have used: "ctx_used l1 = ctx_used l + length toks" "ctx_size l1 = ctx_size l" using F(1) C(3,4) by (simp_all add: ctx_used_def ctx_size_def)
    show ?thesis
    proof (cases "h_is_eog host (ll_model l) t")
      case True
      have e: "piece = str ''[EOG]''" "ll_response l1 = []" "ll_cacheResponseTokens l1 = ll_cacheResponseTokens l"
        "ll_messages l1 = ll_messages l @ [(str ''assistant'', cstr (ll_response l))]"
        using take_token_eog[of host ?l0 t "dts n"] True T by auto
      have "respond host dts (Suc n) l = Inr (l1, [], Inr ())" using C(1) T e(1) by simp
      then show ?thesis
        using ok used F e True
        by (rule_tac exI[of _ l1], rule_tac exI[of _ "[]"], rule_tac exI[of _ "Inr ()"], rule_tac exI[of _ "[]"], rule_tac exI[of _ "[]"])
          (simp add: reply_end_def cache_pending_def)
    next
      case False
      note TT = take_token_text[OF _ T, simplified, OF False]
      show ?thesis
      proof (cases "piece = str ''[EOG]''")
        case True
        have "respond host dts (Suc n) l = Inr (l1, [], Inr ())" using C(1) T True by simp
        then show ?thesis
          using ok used F TT True False
          by (rule_tac exI[of _ l1], rule_tac exI[of _ "[]"], rule_tac exI[of _ "Inr ()"], rule_tac exI[of _ "[t]"], rule_tac exI[of _ piece])
            (simp add: reply_end_def)
      next
        case neq: False
        have "ctx_size l1 - ctx_used l1 < n" using used pos fit Suc.prems(3) by linarith
        with Suc.IH[OF ok] TT(6) obtain l' ps e gen lst where IH: "respond host dts n l1 = Inr (l', ps, e)" "llm_ok host l'"
          "ctx_size l' = ctx_size l1" "ctx_used l1 \<le> ctx_used l'" "length ps \<le> ctx_used l' - ctx_used l1" "ll_model l' = ll_model l1"
          "ll_storeChats l' = ll_storeChats l1"
          "concat ps @ lst @ ll_cacheResponseTokens l' = ll_cacheResponseTokens l1 @ concat (map (h_piece host (ll_model l1)) gen)"
          "reply_end host l1 ps lst e l'" "list_all utf8_loop ps" "utf8_loop lst" "cache_pending l1 \<longrightarrow> cache_pending l'"
          by auto
        have run: "respond host dts (Suc n) l = Inr (l', piece # ps, e)" using C(1) T neq IH(1) by simp
        have "concat (piece # ps) @ lst @ ll_cacheResponseTokens l' =
            ll_cacheResponseTokens l @ concat (map (h_piece host (ll_model l)) (t # gen))"
          using IH(8) TT(1) F(2) by simp
        moreover have "reply_end host l (piece # ps) lst e l'"
          using IH(9) TT(2,3) F(2) by (auto simp: reply_end_def)
        moreover have "length (piece # ps) \<le> ctx_used l' - ctx_used l" using IH(4,5) used(1) pos unfolding list.size by linarith
        ultimately show ?thesis
          using run IH used F TT(4,5)
          by (rule_tac exI[of _ l'], rule_tac exI[of _ "piece # ps"], rule_tac exI[of _ e], rule_tac exI[of _ "t # gen"],
              rule_tac exI[of _ lst]) simp
      qed
    qed
  qed
qed simp

lemma utf8_loop_concat:
  assumes "list_all utf8_loop ps" "0 \<notin> set (concat ps)"
  shows "utf8_loop (concat ps)"
  using assms by (induction ps) (auto simp: utf8_loop_append)

section \<open>Properties\<close>

text \<open>C1. One call of \<^verbatim>\<open>completionLoop\<close>. It throws "context size reached" exactly when the tokens to decode
  do not fit what is left of the context, and then changes nothing but the counter; otherwise it decodes them, so that
  the context holds exactly that many tokens more, and the object can be used again.\<close>

theorem completionLoop_guard:
  assumes "llm_ok host l" "batch_tokens l = Some toks"
  shows "\<exists>l' r. completionLoop host dt l = Inr (l', r) \<and> llm_ok host l' \<and> ll_nCtxUsed l' = int (ctx_used l) \<and>
    ctx_size l' = ctx_size l \<and> ctx_used l' \<le> ctx_size l' \<and>
    (r = Inl (str ''context size reached'') \<longleftrightarrow> ctx_size l < ctx_used l + length toks) \<and>
    (case r of Inl what \<Rightarrow> l' = l\<lparr>ll_nCtxUsed := int (ctx_used l)\<rparr> | Inr piece \<Rightarrow> ctx_used l' = ctx_used l + length toks)"
proof (cases "ctx_size l < ctx_used l + length toks")
  case True
  have "ctx_used l \<le> ctx_size l" using assms(1) by (simp add: llm_ok_def app_ready_def ctx_used_def ctx_size_def used_pos_def)
  then show ?thesis
    using completion_full[OF assms True] True assms(1)
    by (auto simp: llm_ok_def batch_tokens_counter ctx_size_def ctx_used_def)
next
  case False
  then have fit: "ctx_used l + length toks \<le> ctx_size l" by simp
  obtain ctx smpl t where C: "completionLoop host dt l =
      Inr (apsnd Inr (take_token host dt t (l\<lparr>ll_nCtxUsed := int (ctx_used l), ll_ctx := ctx, ll_sampler := smpl\<rparr>)))"
    "app_ready ctx" "used_pos ctx = ctx_used l + length toks" "cx_n_ctx ctx = ctx_size l" "batch_fits ctx = batch_fits (ll_ctx l)"
    "batch_fits (ll_ctx l) [t]"
    using completion_step[OF assms fit] by metis
  let ?r = "take_token host dt t (l\<lparr>ll_nCtxUsed := int (ctx_used l), ll_ctx := ctx, ll_sampler := smpl\<rparr>)"
  have "llm_ok host (fst ?r)" by (rule llm_ok_take[OF assms(1) C(2,5,4,6)]) (simp add: assms(2))
  moreover have "ll_ctx (fst ?r) = ctx" "ll_nCtxUsed (fst ?r) = int (ctx_used l)" by (simp_all add: take_token_fields)
  ultimately show ?thesis
    using C(1,3,4) fit by (rule_tac exI[of _ "fst ?r"], rule_tac exI[of _ "Inr (snd ?r)"])
      (simp add: ctx_used_def ctx_size_def apsnd_def map_prod_def split: prod.splits)
qed

text \<open>C3. A reply ends: after at most as many calls as the context has room for, and one, the loop of
  \<^verbatim>\<open>getResponse\<close> has either been told the end of the generation or been stopped by a full context.\<close>

theorem respond_terminates:
  assumes "llm_ok host l" "batch_tokens l \<noteq> None" "ctx_size l - ctx_used l < n"
  shows "\<exists>l' ps e. respond host dts n l = Inr (l', ps, e) \<and> e \<in> {Inr (), Inl (str ''context size reached'')} \<and>
    llm_ok host l' \<and> ctx_used l + length ps \<le> ctx_used l' \<and> ctx_used l' \<le> ctx_size l' \<and> ctx_size l' = ctx_size l"
proof -
  obtain l' ps e lst where R: "respond host dts n l = Inr (l', ps, e)" "llm_ok host l'" "ctx_size l' = ctx_size l"
    "ctx_used l \<le> ctx_used l'" "length ps \<le> ctx_used l' - ctx_used l" "reply_end host l ps lst e l'"
    using respond_run[OF assms, of dts] by blast
  moreover have "ctx_used l' \<le> ctx_size l'" using R(2) by (simp add: llm_ok_def app_ready_def ctx_used_def ctx_size_def used_pos_def)
  moreover have "e \<in> {Inr (), Inl (str ''context size reached'')}" using R(6) by (auto simp: reply_end_def)
  ultimately show ?thesis by (rule_tac exI[of _ l'], rule_tac exI[of _ ps], rule_tac exI[of _ e]) simp
qed


lemma startCompletion_ok:
  assumes "startCompletion host query l = (l1, Inr ())"
  shows "ll_messages l1 = ll_messages l @ [(str ''user'', cstr query)]" "ll_model l1 = ll_model l" "ll_storeChats l1 = ll_storeChats l"
    "ll_response l1 = ll_response l" "ll_ctx l1 = ll_ctx l" "ll_cacheResponseTokens l1 = ll_cacheResponseTokens l"
    "batch_tokens l1 \<noteq> None"
proof -
  have "cstr (str ''user'') = str ''user''" by (simp add: cstr_def str_def)
  then show "ll_messages l1 = ll_messages l @ [(str ''user'', cstr query)]" "ll_model l1 = ll_model l"
    "ll_storeChats l1 = ll_storeChats l" "ll_response l1 = ll_response l" "ll_ctx l1 = ll_ctx l"
    "ll_cacheResponseTokens l1 = ll_cacheResponseTokens l" "batch_tokens l1 \<noteq> None"
    using assms by (auto simp: startCompletion_def addChatMessage_def batch_tokens_def Let_def split: sum.splits if_splits)
qed

text \<open>C31. The history after a whole turn, when the template and the tokenizer do not throw. If the sampler chose an
  end-of-generation token, the question and the answer have been appended whatever \<^verbatim>\<open>storeChats\<close> is, and when
  it is set \<^verbatim>\<open>stopCompletion\<close> appends a second, empty answer. If the context was full, the question stays
  without an answer, and the text generated so far stays in \<^verbatim>\<open>_response\<close>, in front of the next
  answer.\<close>

theorem turn_history:
  assumes "startCompletion host query l = (l1, Inr ())" "llm_ok host l1" "ctx_size l1 - ctx_used l1 < n"
  shows "\<exists>l2 ps e. respond host dts n l1 = Inr (l2, ps, e) \<and>
    (e = Inr () \<and> h_is_eog host (ll_model l) (ll_currToken l2) \<longrightarrow>
       ll_messages (stopCompletion l2) = ll_messages l @ [(str ''user'', cstr query), (str ''assistant'', cstr (ll_response l @ concat ps))] @
         (if ll_storeChats l then [(str ''assistant'', [])] else [])) \<and>
    (e \<noteq> Inr () \<longrightarrow> ll_messages l2 = ll_messages l @ [(str ''user'', cstr query)] \<and> ll_response l2 = ll_response l @ concat ps)"
proof -
  note S = startCompletion_ok[OF assms(1)]
  obtain l2 ps e lst where R: "respond host dts n l1 = Inr (l2, ps, e)" "reply_end host l1 ps lst e l2" "ll_storeChats l2 = ll_storeChats l1"
    using respond_run[OF assms(2) S(7) assms(3), of dts] by blast
  have lit: "cstr (str ''assistant'') = str ''assistant''" "cstr [] = []" by (simp_all add: cstr_def str_def)
  show ?thesis
    using R S by (rule_tac exI[of _ l2], rule_tac exI[of _ ps], rule_tac exI[of _ e])
      (auto simp: reply_end_def stopCompletion_def addChatMessage_def lit)
qed

section \<open>Examples\<close>

definition ex_host :: "(nat, nat, nat, unit, unit) llm_host" where
  "ex_host = \<lparr>h_env = ex_env (\<lambda>_. GGML_SUCCESS), h_load = (\<lambda>path _ _. if path = [] then None else Some ()),
     h_info = (\<lambda>_. ex_model), h_backends_ok = (\<lambda>_. True), h_data = (\<lambda>_. 0), h_sampler = (\<lambda>_. 0),
     h_model_template = (\<lambda>_. None), h_prompt = (\<lambda>_ _ msgs. Inr (concat (map snd msgs))),
     h_tokenize = (\<lambda>_ p. Inr (map (\<lambda>_. 3) (take 1 p))), h_sample = (\<lambda>s r. Some (Suc s, if s < 1 then 5 else 9)),
     h_is_eog = (\<lambda>_ t. t = 9), h_piece = (\<lambda>_ t. [byte (nat t + 100)])\<rparr>"

definition ex_llm :: "(nat, nat, nat, unit) llm" where
  "ex_llm = \<lparr>ll_ctx = ex_cx, ll_model = (), ll_sampler = 0, ll_currToken = 0, ll_batch = Some Prompt_tokens,
     ll_messages = [], ll_formattedMessages = [], ll_promptTokens = [3], ll_chatTemplate = None, ll_response = [],
     ll_cacheResponseTokens = [], ll_storeChats = True, ll_responseGenerationTime = 0, ll_responseNumTokens = 0,
     ll_nCtxUsed = 0\<rparr>"

lemma ex_app_ready: "app_ready ex_cx"
  using ex_cx_ready by (simp add: app_ready_def ex_next_pos ex_kv_free)

lemma ex_llm_sizes [simp]: "ctx_used ex_llm = 2" "ctx_size ex_llm = 4" "batch_tokens ex_llm = Some [3]"
  by (simp_all add: ctx_used_def ctx_size_def used_pos_def ex_llm_def ex_next_pos batch_tokens_def)

lemma ex_llm_ok: "llm_ok ex_host ex_llm"
  using ex_app_ready ex_llm_sizes(3)
  by (simp add: llm_ok_def) (simp add: ex_llm_def ex_host_def ex_env_def env_ok_def batch_fits_def)

theorem completionLoop_guard_witness:
  "\<exists>l' r. completionLoop ex_host 7 ex_llm = Inr (l', r) \<and> ll_nCtxUsed l' = 2 \<and> r \<noteq> Inl (str ''context size reached'')"
  using completionLoop_guard[OF ex_llm_ok ex_llm_sizes(3), of 7] by auto

theorem respond_terminates_witness:
  "\<exists>l' ps e. respond ex_host (\<lambda>_. 7) 3 ex_llm = Inr (l', ps, e) \<and> ctx_used l' \<le> 4"
  using respond_terminates[OF ex_llm_ok, of 3 "\<lambda>_. 7"] by auto


theorem turn_history_witness:
  "\<exists>l1 l2 ps e. startCompletion ex_host (str ''hi'') ex_llm = (l1, Inr ()) \<and> respond ex_host (\<lambda>_. 7) 3 l1 = Inr (l2, ps, e) \<and>
     (e \<noteq> Inr () \<longrightarrow> ll_messages l2 = [(str ''user'', str ''hi'')])"
proof -
  let ?l1 = "fst (startCompletion ex_host (str ''hi'') ex_llm)"
  have s: "startCompletion ex_host (str ''hi'') ex_llm = (?l1, Inr ())"
    by (simp add: startCompletion_def addChatMessage_def ex_host_def ex_llm_def Let_def)
  have F: "ll_ctx ?l1 = ex_cx" "batch_tokens ?l1 = Some [3]"
    by (simp_all add: startCompletion_def addChatMessage_def ex_host_def ex_llm_def Let_def batch_tokens_def str_def cstr_def)
  have ok: "llm_ok ex_host ?l1" using ex_llm_ok F by (simp add: llm_ok_def) (simp add: ex_llm_def)
  have "ctx_size ?l1 = 4" "ctx_used ?l1 = 2" using F ex_llm_sizes by (simp_all add: ctx_size_def ctx_used_def ex_llm_def)
  moreover have "cstr (str ''hi'') = str ''hi''" "ll_messages ex_llm = []" by (simp_all add: cstr_def str_def ex_llm_def)
  ultimately show ?thesis using turn_history[OF s ok, of 3 "\<lambda>_. 7"] s by auto
qed

end
