(* ===== verification/Smollm_Jni.thy ===== *)
theory Smollm_Jni
  imports Llm_Inference
begin

text \<open>
  The JNI functions of \<^verbatim>\<open>smollm/src/main/cpp/smollm.cpp\<close> over a heap of \<^verbatim>\<open>LLMInference\<close> objects, and
  the part of \<^verbatim>\<open>LLMInference::benchModel\<close> that runs the model. A handle is the address of a live object; a
  handle that is not live is undefined behaviour. An exception the function hands to Java is \<open>Inl what\<close>.
\<close>

section \<open>Batches with a capacity\<close>

text \<open>A batch of \<^verbatim>\<open>llama_batch_init\<close>: its capacity, the number of sequence ids a token can have, and the
  tokens added. What lies behind the last token is never read. A negative capacity makes the allocation write through
  a null pointer.\<close>

record owned_batch =
  ob_cap :: nat
  ob_seq_max :: nat
  ob_rows :: "(int \<times> int \<times> int list \<times> bool) list"

definition llama_batch_init :: "int \<Rightarrow> int \<Rightarrow> owned_batch res" where
  "llama_batch_init n_tokens_alloc n_seq_max =
     (if n_tokens_alloc < 0 then Inl Undefined
      else Inr \<lparr>ob_cap = nat n_tokens_alloc, ob_seq_max = nat n_seq_max, ob_rows = []\<rparr>)"

definition common_batch_clear :: "owned_batch \<Rightarrow> owned_batch" where
  "common_batch_clear b = b\<lparr>ob_rows := []\<rparr>"

definition common_batch_add :: "int \<Rightarrow> int \<Rightarrow> int list \<Rightarrow> bool \<Rightarrow> owned_batch \<Rightarrow> owned_batch res" where
  "common_batch_add tok pos seq_ids logits b =
     (if length (ob_rows b) \<ge> ob_cap b then Inl Abort
      else if length seq_ids > ob_seq_max b then Inl Undefined
      else Inr (b\<lparr>ob_rows := ob_rows b @ [(tok, pos, seq_ids, logits)]\<rparr>))"

definition batch_of :: "owned_batch \<Rightarrow> llama_batch" where
  "batch_of b = \<lparr>lb_n_tokens = length (ob_rows b), lb_token = Some (map fst (ob_rows b)), lb_embd = None,
     lb_pos = Some (map (\<lambda>(_, p, _). p) (ob_rows b)), lb_n_seq_id = Some (map (\<lambda>(_, _, s, _). length s) (ob_rows b)),
     lb_seq_id = Some (map (\<lambda>(_, _, s, _). s) (ob_rows b)), lb_logits = Some (map (\<lambda>(_, _, _, out). of_bool out) (ob_rows b))\<rparr>"

fun add_all :: "(int \<times> int \<times> int list \<times> bool) list \<Rightarrow> owned_batch \<Rightarrow> owned_batch res" where
  "add_all [] b = Inr b"
| "add_all ((t, p, s, out) # rows) b = and_then (common_batch_add t p s out b) (add_all rows)"

section \<open>\<^verbatim>\<open>benchModel\<close>\<close>

text \<open>\<^verbatim>\<open>g_batch.logits[g_batch.n_tokens - 1] = true\<close> writes in front of the array when there is no
  token.\<close>

definition mark_last :: "owned_batch \<Rightarrow> owned_batch res" where
  "mark_last b =
     (case rev (ob_rows b) of
        [] \<Rightarrow> Inl Undefined
      | (t, p, s, out) # rows \<Rightarrow> Inr (b\<lparr>ob_rows := rev ((t, p, s, True) # rows)\<rparr>))"

definition clear_memory :: "('t, 'r) llama_context \<Rightarrow> ('t, 'r) llama_context" where
  "clear_memory cx = cx\<lparr>cx_memory := kv_clear (cx_memory cx)\<rparr>"

fun bench_gen :: "('t, 'r) llama_env \<Rightarrow> int \<Rightarrow> nat list \<Rightarrow> owned_batch \<Rightarrow> ('t, 'r) llama_context \<Rightarrow>
    (owned_batch \<times> ('t, 'r) llama_context) res" where
  "bench_gen env pl [] b cx = Inr (b, cx)"
| "bench_gen env pl (i # is) b cx =
     and_then (add_all (map (\<lambda>j. (0, int i, [int j], True)) [0..<nat pl]) (common_batch_clear b)) (\<lambda>b'.
       and_then (llama_decode env (batch_of b') cx) (\<lambda>(cx', ret). bench_gen env pl is b' cx'))"

definition bench_round :: "('t, 'r) llama_env \<Rightarrow> int \<Rightarrow> int \<Rightarrow> int \<Rightarrow> owned_batch \<times> ('t, 'r) llama_context \<Rightarrow>
    (owned_batch \<times> ('t, 'r) llama_context) res" where
  "bench_round env pp tg pl s =
     and_then (add_all (map (\<lambda>i. (1, int i, [0], False)) [0..<nat pp]) (common_batch_clear (fst s))) (\<lambda>b1.
     and_then (mark_last b1) (\<lambda>b2.
     and_then (llama_decode env (batch_of b2) (clear_memory (snd s))) (\<lambda>(cx1, ret).
     and_then (bench_gen env pl [0..<nat tg] b2 (clear_memory cx1)) (\<lambda>(b3, cx2).
       Inr (b3, clear_memory cx2)))))"

fun bench_rounds :: "nat \<Rightarrow> ('t, 'r) llama_env \<Rightarrow> int \<Rightarrow> int \<Rightarrow> int \<Rightarrow> owned_batch \<times> ('t, 'r) llama_context \<Rightarrow>
    (owned_batch \<times> ('t, 'r) llama_context) res" where
  "bench_rounds 0 env pp tg pl s = Inr s"
| "bench_rounds (Suc n) env pp tg pl s = and_then (bench_round env pp tg pl s) (bench_rounds n env pp tg pl)"

definition benchModel :: "('t, 'r, 's, 'm, 'f) llm_host \<Rightarrow> int \<Rightarrow> int \<Rightarrow> int \<Rightarrow> int \<Rightarrow> ('t, 'r, 's, 'm) llm \<Rightarrow>
    ('t, 'r, 's, 'm) llm res" where
  "benchModel host pp tg pl nr l =
     and_then (llama_batch_init pp pl) (\<lambda>b.
     and_then (bench_rounds (nat nr) (h_env host) pp tg pl (b, ll_ctx l)) (\<lambda>s. Inr (l\<lparr>ll_ctx := snd s\<rparr>)))"

section \<open>JNI entry points\<close>

record ('t, 'r, 's, 'm) llm_heap =
  lh_next :: nat
  lh_mem :: "nat \<Rightarrow> ('t, 'r, 's, 'm) llm option"

definition on_object :: "nat \<Rightarrow> (('t, 'r, 's, 'm) llm \<Rightarrow> (('t, 'r, 's, 'm) llm, 'a) call) \<Rightarrow> ('t, 'r, 's, 'm) llm_heap \<Rightarrow>
    (('t, 'r, 's, 'm) llm_heap, 'a) call" where
  "on_object hdl f h =
     (case lh_mem h hdl of
        None \<Rightarrow> Inl Undefined
      | Some l \<Rightarrow> and_then (f l) (\<lambda>(l', r). Inr (h\<lparr>lh_mem := (lh_mem h)(hdl \<mapsto> l')\<rparr>, r)))"

definition jni_loadModel :: "('t, 'r, 's, 'm, 'f) llm_host \<Rightarrow> bytes \<Rightarrow> 'f \<Rightarrow> 'f \<Rightarrow> bool \<Rightarrow> int \<Rightarrow> bytes \<Rightarrow> int \<Rightarrow> bool \<Rightarrow>
    bool \<Rightarrow> ('t, 'r, 's, 'm) llm_heap \<Rightarrow> (('t, 'r, 's, 'm) llm_heap, nat) call" where
  "jni_loadModel host modelPath minP temperature storeChats contextSize chatTemplate nThreads useMmap useMlock h =
     and_then (loadModel host modelPath minP temperature storeChats contextSize (Some chatTemplate) nThreads useMmap useMlock) (\<lambda>r.
       case r of
         Inl what \<Rightarrow> Inr (h, Inl what)
       | Inr l \<Rightarrow> Inr (h\<lparr>lh_next := Suc (lh_next h), lh_mem := (lh_mem h)(lh_next h \<mapsto> l)\<rparr>, Inr (lh_next h)))"

definition jni_addChatMessage :: "nat \<Rightarrow> bytes \<Rightarrow> bytes \<Rightarrow> ('t, 'r, 's, 'm) llm_heap \<Rightarrow> (('t, 'r, 's, 'm) llm_heap, unit) call" where
  "jni_addChatMessage hdl message role = on_object hdl (\<lambda>l. Inr (addChatMessage message role l, Inr ()))"

definition jni_getContextSizeUsed :: "nat \<Rightarrow> ('t, 'r, 's, 'm) llm_heap \<Rightarrow> (('t, 'r, 's, 'm) llm_heap, int) call" where
  "jni_getContextSizeUsed hdl = on_object hdl (\<lambda>l. Inr (l, Inr (getContextSizeUsed l)))"

definition jni_startCompletion :: "('t, 'r, 's, 'm, 'f) llm_host \<Rightarrow> nat \<Rightarrow> bytes \<Rightarrow> ('t, 'r, 's, 'm) llm_heap \<Rightarrow>
    (('t, 'r, 's, 'm) llm_heap, unit) call" where
  "jni_startCompletion host hdl prompt = on_object hdl (\<lambda>l. Inr (startCompletion host prompt l))"

text \<open>The string handed to Java ends at the first zero byte.\<close>

definition jni_completionLoop :: "('t, 'r, 's, 'm, 'f) llm_host \<Rightarrow> int \<Rightarrow> nat \<Rightarrow> ('t, 'r, 's, 'm) llm_heap \<Rightarrow>
    (('t, 'r, 's, 'm) llm_heap, bytes) call" where
  "jni_completionLoop host dt hdl =
     on_object hdl (\<lambda>l. and_then (completionLoop host dt l) (\<lambda>(l', r). Inr (l', map_sum id cstr r)))"

definition jni_stopCompletion :: "nat \<Rightarrow> ('t, 'r, 's, 'm) llm_heap \<Rightarrow> (('t, 'r, 's, 'm) llm_heap, unit) call" where
  "jni_stopCompletion hdl = on_object hdl (\<lambda>l. Inr (stopCompletion l, Inr ()))"

text \<open>The table of measurements that is returned is not modelled.\<close>

definition jni_benchModel :: "('t, 'r, 's, 'm, 'f) llm_host \<Rightarrow> nat \<Rightarrow> int \<Rightarrow> int \<Rightarrow> int \<Rightarrow> int \<Rightarrow> ('t, 'r, 's, 'm) llm_heap \<Rightarrow>
    (('t, 'r, 's, 'm) llm_heap, unit) call" where
  "jni_benchModel host hdl pp tg pl nr = on_object hdl (\<lambda>l. and_then (benchModel host pp tg pl nr l) (\<lambda>l'. Inr (l', Inr ())))"

text \<open>\<^verbatim>\<open>delete\<close> of a null pointer does nothing.\<close>

definition jni_close :: "nat \<Rightarrow> ('t, 'r, 's, 'm) llm_heap \<Rightarrow> ('t, 'r, 's, 'm) llm_heap res" where
  "jni_close hdl h =
     (if hdl = 0 then Inr h
      else case lh_mem h hdl of None \<Rightarrow> Inl Undefined | Some _ \<Rightarrow> Inr (h\<lparr>lh_mem := (lh_mem h)(hdl := None)\<rparr>))"

section \<open>What every call keeps\<close>

text \<open>The library as the application uses it: graphs succeed, models are causal with one position per token, tokens
  of the sampler and of the tokenizer are tokens of the model, and a prompt has fewer than \<open>2 ^ 31\<close> of them.\<close>

definition valid_token :: "('t, 'r, 's, 'm, 'f) llm_host \<Rightarrow> 'm \<Rightarrow> int \<Rightarrow> bool" where
  "valid_token host m t \<longleftrightarrow> 0 \<le> t \<and> t < int (mi_n_vocab (h_info host m)) \<and> t < 2 ^ 32"

definition host_ok :: "('t, 'r, 's, 'm, 'f) llm_host \<Rightarrow> bool" where
  "host_ok host \<longleftrightarrow> env_ok (h_env host) \<and>
     (\<forall>m. mi_causal_attn (h_info host m) \<and> mi_n_pos_per_embd (h_info host m) = 1) \<and>
     (\<forall>m s r. \<exists>s' t. h_sample host s r = Some (s', t) \<and> valid_token host m t) \<and>
     (\<forall>m p toks. h_tokenize host m p = Inr toks \<longrightarrow> length toks < 2 ^ 31 \<and> list_all (valid_token host m) toks)"

definition obj_ok :: "('t, 'r, 's, 'm, 'f) llm_host \<Rightarrow> ('t, 'r, 's, 'm) llm \<Rightarrow> bool" where
  "obj_ok host l \<longleftrightarrow> app_ready (ll_ctx l) \<and> cx_n_ctx (ll_ctx l) < 2 ^ 31 \<and>
     (\<forall>t. valid_token host (ll_model l) t \<longrightarrow> batch_fits (ll_ctx l) [t]) \<and>
     (\<forall>toks. batch_tokens l = Some toks \<longrightarrow> length toks < 2 ^ 31 \<and> (\<forall>t \<in> set toks. batch_fits (ll_ctx l) [t]))"

lemma loadModel_ok:
  assumes "host_ok host" "0 < cs" "cs \<le> 2 ^ 31 - 256"
    and L: "loadModel host path minP temp store cs tmpl nt mm ml = Inr (Inr l)"
  shows "obj_ok host l \<and> ctx_used l = 0 \<and> nat cs \<le> ctx_size l \<and> ll_messages l = []"
proof -
  obtain m cx where l: "llama_init_from_model (h_env host) (h_backends_ok host nt) (h_data host m) (h_info host m) (app_params cs) =
      Inr (Some cx)" "ll_ctx l = cx" "ll_model l = m" "ll_batch l = None" "ll_messages l = []"
    using L by (auto simp: loadModel_def and_then_Inr split: option.splits)
  have H: "mi_causal_attn (h_info host m)" "mi_n_pos_per_embd (h_info host m) = 1" "env_alloc_ok (h_env host) 1"
    using assms(1) by (simp_all add: host_ok_def env_ok_def)
  have u: "u32 cs = nat cs" "0 < u32 cs" "u32 cs \<le> 2 ^ 32 - 256" using assms(2,3) by (simp_all add: nat_le_iff)
  have "h_backends_ok host nt"
  proof (rule ccontr)
    assume "\<not> h_backends_ok host nt"
    then have "\<exists>e. llama_context_new (h_env host) (h_backends_ok host nt) (h_data host m) (h_info host m) (app_params cs) = Inl e"
      by (cases "context_sizes (h_info host m) (app_params cs)") (simp_all add: llama_context_new_def)
    then show False using l(1) by (auto simp: llama_init_from_model_def split: if_splits fault.splits)
  qed
  then obtain cx' where "cx' = cx" "app_ready cx'" "used_pos cx' = 0" "cx_n_batch cx' = u32 cs" "u32 cs \<le> cx_n_ctx cx'"
    "cx_n_ctx cx' < u32 cs + 256" "cx_n_vocab cx' = mi_n_vocab (h_info host m)"
    using app_init[OF H(1,2) u(2,3) H(3), of "h_data host m"] l(1) by auto
  then show ?thesis
    using l(2-5) u assms(2,3)
    by (auto simp: obj_ok_def batch_fits_def valid_token_def batch_tokens_def ctx_used_def ctx_size_def nat_le_iff)
qed

lemma fits_all:
  assumes "batch_fits cx [t0]" "toks \<noteq> []" "\<forall>t \<in> set toks. batch_fits cx [t]"
  shows "batch_fits cx toks \<longleftrightarrow> length toks \<le> cx_n_batch cx"
  using assms by (auto simp: batch_fits_def)

lemma completion_keeps:
  assumes H: "host_ok host" and O: "obj_ok host l" and C: "completionLoop host dt l = Inr (l', r)"
  shows "obj_ok host l'"
proof -
  obtain toks where toks: "batch_tokens l = Some toks"
    using C by (cases "batch_tokens l") (auto simp: completionLoop_def and_then_Inr Let_def)
  have a: "app_ready (ll_ctx l)" "cx_n_ctx (ll_ctx l) < 2 ^ 31" "\<And>t. valid_token host (ll_model l) t \<Longrightarrow> batch_fits (ll_ctx l) [t]"
    "length toks < 2 ^ 31" "\<forall>t \<in> set toks. batch_fits (ll_ctx l) [t]"
    using O toks by (auto simp: obj_ok_def)
  have le: "used_pos (ll_ctx l) \<le> cx_n_ctx (ll_ctx l)" using a(1) by (simp add: app_ready_def used_pos_def)
  have u: "u32 (int (used_pos (ll_ctx l)) + int (length toks)) = used_pos (ll_ctx l) + length toks"
    using a(2,4) le by (subst u32_small) auto
  have counter: "obj_ok host (l\<lparr>ll_nCtxUsed := u\<rparr>)" for u using O by (simp add: obj_ok_def batch_tokens_counter)
  have step: "completionLoop host dt l =
      (if cx_n_ctx (ll_ctx l) < used_pos (ll_ctx l) + length toks
       then Inr (l\<lparr>ll_nCtxUsed := int (used_pos (ll_ctx l))\<rparr>, Inl (str ''context size reached''))
       else and_then (llama_decode (h_env host) (llama_batch_get_one toks) (ll_ctx l)) (\<lambda>(ctx, ret).
             if ret < 0 then Inr (l\<lparr>ll_nCtxUsed := int (used_pos (ll_ctx l)), ll_ctx := ctx\<rparr>, Inl (str ''llama_decode() failed''))
             else and_then (llama_sampler_sample host (ll_sampler l) ctx (- 1)) (\<lambda>(ctx', smpl, token).
               case take_token host dt token (l\<lparr>ll_nCtxUsed := int (used_pos (ll_ctx l)), ll_ctx := ctx', ll_sampler := smpl\<rparr>)
               of (l2, piece) \<Rightarrow> Inr (l2, Inr piece))))"
    unfolding completionLoop_def Let_def app_pos_max[OF a(1)] and_then.simps toks option.case diff_add_cancel u ..
  show ?thesis
  proof (cases "cx_n_ctx (ll_ctx l) < used_pos (ll_ctx l) + length toks")
    case True
    then show ?thesis using C counter unfolding step by auto
  next
    case fit: False
    show ?thesis
    proof (cases "toks = []")
      case True
      then have "llama_decode (h_env host) (llama_batch_get_one toks) (ll_ctx l) = Inr (ll_ctx l, - 1)"
        by (simp add: llama_decode_def llama_batch_get_one_def batch_none_def Let_def)
      then have "l\<lparr>ll_nCtxUsed := int (used_pos (ll_ctx l))\<rparr> = l'" using C fit unfolding step by simp
      then show ?thesis using counter by blast
    next
      case ne: False
      have "batch_fits (ll_ctx l) toks"
      proof (rule ccontr)
        assume n: "\<not> batch_fits (ll_ctx l) toks"
        have "batch_fits (ll_ctx l) [hd toks]" using a(5) ne by simp
        then have "cx_n_batch (ll_ctx l) < length toks" using n fits_all[OF _ ne a(5)] by auto
        then have "llama_decode (h_env host) (llama_batch_get_one toks) (ll_ctx l) = Inl Abort"
          by (intro decode_over_batch) (use a(1,5) ne in \<open>auto simp: app_ready_def batch_fits_def\<close>)
        then show False using C fit unfolding step by simp
      qed
      moreover have "\<exists>s' t. h_sample host s r = Some (s', t) \<and> batch_fits (ll_ctx l) [t]" for s r
        using H a(3) unfolding host_ok_def by metis
      moreover have "env_ok (h_env host)" using H by (simp add: host_ok_def)
      ultimately have ok: "llm_ok host l" using a(1,2,4) toks by (simp add: llm_ok_def)
      have fit': "ctx_used l + length toks \<le> ctx_size l" using fit by (simp add: ctx_used_def ctx_size_def)
      obtain ctx smpl t where S: "completionLoop host dt l =
          Inr (apsnd Inr (take_token host dt t (l\<lparr>ll_nCtxUsed := int (ctx_used l), ll_ctx := ctx, ll_sampler := smpl\<rparr>)))"
        "app_ready ctx" "cx_n_ctx ctx = ctx_size l" "batch_fits ctx = batch_fits (ll_ctx l)" "batch_fits (ll_ctx l) [t]"
        using completion_step[OF ok toks fit'] by metis
      let ?l0 = "l\<lparr>ll_nCtxUsed := int (ctx_used l), ll_ctx := ctx, ll_sampler := smpl\<rparr>"
      have l': "l' = fst (take_token host dt t ?l0)" using C S(1) by (cases "take_token host dt t ?l0") simp
      have F: "ll_ctx l' = ctx" "ll_model l' = ll_model l" unfolding l' take_token_fields by simp_all
      have "batch_tokens l' = Some [t] \<or> batch_tokens l' = batch_tokens l \<and> ll_batch l = Some Prompt_tokens"
        unfolding l' using toks by (auto simp: batch_tokens_def take_token_def addChatMessage_def Let_def split: batch_src.splits)
      then show ?thesis using S F a(2-5) toks by (auto simp: obj_ok_def ctx_size_def)
    qed
  qed
qed

lemma obj_ok_cong:
  assumes "obj_ok host l" "ll_ctx l' = ll_ctx l" "ll_model l' = ll_model l" "batch_tokens l' = batch_tokens l"
  shows "obj_ok host l'"
  using assms by (simp add: obj_ok_def)

lemma start_keeps:
  assumes "host_ok host" "obj_ok host l" "startCompletion host q l = (l', r)"
  shows "obj_ok host l'"
proof -
  let ?toks = "ll_promptTokens l'"
  have F: "ll_ctx l' = ll_ctx l" "ll_model l' = ll_model l"
    using assms(3) by (auto simp: startCompletion_def addChatMessage_def Let_def split: sum.splits if_splits)
  have "batch_tokens l' = batch_tokens l \<or> batch_tokens l' = Some ?toks \<and> (\<exists>p. h_tokenize host (ll_model l) p = Inr ?toks)"
    using assms(3) by (auto simp: startCompletion_def addChatMessage_def Let_def batch_tokens_def map_option_case
        split: sum.splits if_splits option.splits batch_src.splits)
  then show ?thesis
    using assms(1,2) F by (fastforce simp: obj_ok_def host_ok_def list_all_iff)
qed

text \<open>The calls Java can make, \<^verbatim>\<open>benchModel\<close> aside. A model is loaded with a context size the user interface
  can ask for.\<close>

inductive jni_step :: "('t, 'r, 's, 'm, 'f) llm_host \<Rightarrow> ('t, 'r, 's, 'm) llm_heap \<Rightarrow> ('t, 'r, 's, 'm) llm_heap \<Rightarrow> bool"
  for host where
  "jni_loadModel host path minP temp store cs tmpl nt mm ml h = Inr (h', r) \<Longrightarrow> 0 < cs \<Longrightarrow> cs \<le> 2 ^ 31 - 256 \<Longrightarrow> jni_step host h h'"
| "jni_addChatMessage hdl msg role h = Inr (h', r') \<Longrightarrow> jni_step host h h'"
| "jni_startCompletion host hdl prompt h = Inr (h', r') \<Longrightarrow> jni_step host h h'"
| "jni_completionLoop host dt hdl h = Inr (h', p) \<Longrightarrow> jni_step host h h'"
| "jni_stopCompletion hdl h = Inr (h', r') \<Longrightarrow> jni_step host h h'"
| "jni_close hdl h = Inr h' \<Longrightarrow> jni_step host h h'"

inductive_cases jni_stepE: "jni_step host h h'"

definition heap_ok :: "('t, 'r, 's, 'm, 'f) llm_host \<Rightarrow> ('t, 'r, 's, 'm) llm_heap \<Rightarrow> bool" where
  "heap_ok host h \<longleftrightarrow> 0 < lh_next h \<and> (\<forall>hdl l. lh_mem h hdl = Some l \<longrightarrow> hdl < lh_next h \<and> 0 < hdl \<and> obj_ok host l)"

definition heap_empty :: "('t, 'r, 's, 'm) llm_heap" where
  "heap_empty = \<lparr>lh_next = 1, lh_mem = (\<lambda>_. None)\<rparr>"

lemma on_object_ok:
  assumes "heap_ok host h" "on_object hdl f h = Inr (h', r)"
    and "\<And>l l' x. obj_ok host l \<Longrightarrow> f l = Inr (l', x) \<Longrightarrow> obj_ok host l'"
  shows "heap_ok host h'"
proof -
  obtain l l' where l: "lh_mem h hdl = Some l" "f l = Inr (l', r)" "h' = h\<lparr>lh_mem := (lh_mem h)(hdl \<mapsto> l')\<rparr>"
    using assms(2) by (auto simp: on_object_def and_then_Inr split: option.splits)
  have "obj_ok host l" using assms(1) l(1) by (simp add: heap_ok_def)
  then show ?thesis using assms(1) assms(3)[OF _ l(2)] l(1) unfolding l(3) heap_ok_def by auto
qed

lemma jni_load_cases:
  assumes "jni_loadModel host path minP temp store cs tmpl nt mm ml h = Inr (h', r)"
  shows "(\<exists>what. r = Inl what \<and> h' = h) \<or>
    (\<exists>l. loadModel host path minP temp store cs (Some tmpl) nt mm ml = Inr (Inr l) \<and>
       h' = h\<lparr>lh_next := Suc (lh_next h), lh_mem := (lh_mem h)(lh_next h \<mapsto> l)\<rparr> \<and> r = Inr (lh_next h))"
proof (cases "loadModel host path minP temp store cs (Some tmpl) nt mm ml")
  case (Inr z)
  then show ?thesis using assms by (cases z) (auto simp: jni_loadModel_def)
qed (use assms in \<open>simp add: jni_loadModel_def\<close>)

lemma jni_step_ok:
  assumes "host_ok host" "heap_ok host h" "jni_step host h h'"
  shows "heap_ok host h'"
  using assms(3)
proof cases
  case (1 path minP temp store cs tmpl nt mm ml r)
  show ?thesis
    using jni_load_cases[OF 1(1)]
  proof (elim disjE exE conjE)
    fix l assume "loadModel host path minP temp store cs (Some tmpl) nt mm ml = Inr (Inr l)"
      and h': "h' = h\<lparr>lh_next := Suc (lh_next h), lh_mem := (lh_mem h)(lh_next h \<mapsto> l)\<rparr>"
    then have "obj_ok host l" using loadModel_ok[OF assms(1) 1(2,3)] by blast
    then show ?thesis using assms(2) unfolding h' heap_ok_def by (auto split: if_splits intro: less_SucI)
  qed (use assms(2) in simp)
next
  case (2 hdl msg role r')
  then show ?thesis unfolding jni_addChatMessage_def
    by (elim on_object_ok[OF assms(2)]) (auto elim!: obj_ok_cong simp: addChatMessage_def batch_tokens_def)
next
  case (3 hdl prompt r')
  then show ?thesis unfolding jni_startCompletion_def
    by (elim on_object_ok[OF assms(2)]) (auto intro: start_keeps[OF assms(1)])
next
  case (4 dt hdl p)
  then show ?thesis unfolding jni_completionLoop_def
    by (elim on_object_ok[OF assms(2)]) (auto simp: and_then_Inr intro: completion_keeps[OF assms(1)])
next
  case (5 hdl r')
  then show ?thesis unfolding jni_stopCompletion_def
    by (elim on_object_ok[OF assms(2)]) (auto elim!: obj_ok_cong simp: stopCompletion_def addChatMessage_def batch_tokens_def)
next
  case (6 hdl)
  then show ?thesis using assms(2) by (auto simp: jni_close_def heap_ok_def split: option.splits if_splits)
qed

section \<open>Properties\<close>


text \<open>Chats do not interfere, and a failed load leaves nothing behind: a call on one handle leaves the objects of
  all other handles as they were, loading gives a handle no live object has, and a load that throws leaves the
  heap as it was.\<close>

theorem jni_isolated:
  assumes "on_object hdl f h = Inr (h', r)" "other \<noteq> hdl"
    and "jni_loadModel host path minP temp store cs tmpl nt mm ml h' = Inr (h'', r')" "heap_ok host h'"
  shows "lh_mem h' other = lh_mem h other \<and>
    (case r' of Inl what \<Rightarrow> h'' = h' | Inr hdl' \<Rightarrow> lh_mem h' hdl' = None \<and> (\<forall>x. x \<noteq> hdl' \<longrightarrow> lh_mem h'' x = lh_mem h' x))"
proof -
  have "lh_mem h' other = lh_mem h other"
    using assms(1,2) by (auto simp: on_object_def and_then_Inr split: option.splits)
  moreover have "lh_mem h' (lh_next h') = None" using assms(4)
    by (cases "lh_mem h' (lh_next h')") (auto simp: heap_ok_def)
  ultimately show ?thesis using jni_load_cases[OF assms(3)] by auto
qed

lemma bench_rounds_clear:
  assumes "bench_rounds n env pp tg pl s = Inr s'" "0 < n"
  shows "\<exists>cx. snd s' = clear_memory cx"
  using assms
proof (induction n arbitrary: s)
  case (Suc n)
  obtain s1 where s1: "bench_round env pp tg pl s = Inr s1" "bench_rounds n env pp tg pl s1 = Inr s'"
    using Suc.prems(1) by (auto simp: and_then_Inr)
  have "\<exists>cx. snd s1 = clear_memory cx" using s1(1) by (auto simp: bench_round_def and_then_Inr)
  then show ?case using Suc.IH[OF s1(2)] s1(2) by (cases n) auto
qed simp

lemma add_all_cap:
  assumes "add_all rows b = Inr b'"
  shows "length (ob_rows b') = length (ob_rows b) + length rows \<and> ob_cap b' = ob_cap b \<and> (rows \<noteq> [] \<longrightarrow> length (ob_rows b') \<le> ob_cap b)"
  using assms
proof (induction rows b rule: add_all.induct)
  case (2 t p s out rows b)
  then obtain b1 where b1: "common_batch_add t p s out b = Inr b1" "add_all rows b1 = Inr b'" by (auto simp: and_then_Inr)
  then have "length (ob_rows b1) = Suc (length (ob_rows b))" "ob_cap b1 = ob_cap b" "length (ob_rows b1) \<le> ob_cap b"
    by (auto simp: common_batch_add_def split: if_splits)
  then show ?case using "2.IH"[OF b1(2)] b1(2) by (cases rows) auto
qed simp

lemma bench_gen_cap:
  assumes "bench_gen env pl is b cx = Inr (b', cx')"
  shows "ob_cap b' = ob_cap b \<and> (is \<noteq> [] \<longrightarrow> nat pl \<le> ob_cap b)"
  using assms
proof (induction "is" arbitrary: b cx)
  case (Cons i "is")
  obtain b1 cx1 where b1: "add_all (map (\<lambda>j. (0, int i, [int j], True)) [0..<nat pl]) (common_batch_clear b) = Inr b1"
    "bench_gen env pl is b1 cx1 = Inr (b', cx')"
    using Cons.prems by (auto simp: and_then_Inr)
  have "nat pl \<le> ob_cap b \<and> ob_cap b1 = ob_cap b" using add_all_cap[OF b1(1)] by (cases "nat pl") (auto simp: common_batch_clear_def)
  then show ?case using Cons.IH[OF b1(2)] by simp
qed simp


section \<open>Examples\<close>

lemma ex_host_ok: "host_ok ex_host"
  by (auto simp: host_ok_def ex_host_def ex_env_def ex_model_def env_ok_def valid_token_def list_all_iff)

text \<open>A model loaded through JNI.\<close>

lemma ex_load:
  assumes "h = heap_empty"
  obtains h1 l where "jni_loadModel ex_host (str ''m'') () () True 1000 [] 4 True False h = Inr (h1, Inr 1)"
    "lh_mem h1 1 = Some l" "heap_ok ex_host h1" "jni_step ex_host h h1"
proof -
  have u: "u32 1000 = 1000" by simp
  obtain cx where cx: "llama_init_from_model (ex_env (\<lambda>_. GGML_SUCCESS)) True (0 :: nat) ex_model (app_params 1000) = Inr (Some cx)"
    using app_init[of ex_model 1000 "ex_env (\<lambda>_. GGML_SUCCESS)" 0] by (auto simp: ex_model_def ex_env_def u)
  obtain l where L: "loadModel ex_host (str ''m'') () () True 1000 (Some []) 4 True False = Inr (Inr l)"
    using cx by (simp add: loadModel_def ex_host_def str_def)
  let ?h = "h\<lparr>lh_next := Suc (lh_next h), lh_mem := (lh_mem h)(lh_next h \<mapsto> l)\<rparr>"
  have J: "jni_loadModel ex_host (str ''m'') () () True 1000 [] 4 True False h = Inr (?h, Inr 1)"
    using L assms by (simp add: jni_loadModel_def heap_empty_def)
  have st: "jni_step ex_host h ?h" by (rule jni_step.intros(1)[OF J]) simp_all
  moreover have "heap_ok ex_host h" using assms by (simp add: heap_ok_def heap_empty_def)
  ultimately have "heap_ok ex_host ?h" by (rule jni_step_ok[OF ex_host_ok, rotated])
  then show ?thesis using that[OF J _ _ st, of l] assms by (simp add: heap_empty_def)
qed


theorem jni_isolated_witness:
  "\<exists>h h' h'' r'. jni_stopCompletion 1 h = Inr (h', Inr ()) \<and>
     jni_loadModel ex_host [] () () True 1000 [] 4 True False h' = Inr (h'', r') \<and> lh_mem h' 2 = lh_mem h 2 \<and> h'' = h'"
proof -
  obtain h l where h: "lh_mem h 1 = Some l" "heap_ok ex_host h" by (rule ex_load[OF refl])
  obtain h' where h': "jni_stopCompletion 1 h = Inr (h', Inr ())" using h(1) by (simp add: jni_stopCompletion_def on_object_def)
  have ok: "heap_ok ex_host h'" by (rule jni_step_ok[OF ex_host_ok h(2)]) (rule jni_step.intros(5)[OF h'])
  have L: "jni_loadModel ex_host [] () () True 1000 [] 4 True False h' = Inr (h', Inl (str ''loadModel() failed''))"
    by (simp add: jni_loadModel_def loadModel_def ex_host_def)
  show ?thesis
    using jni_isolated[OF h'[unfolded jni_stopCompletion_def], of 2, OF _ L ok] h' L by auto
qed

text \<open>A context without a vocabulary refuses every token; \<^verbatim>\<open>benchModel\<close> goes on all the same.\<close>

lemma ex_bench_refused:
  assumes "cx_n_vocab cx = 0" "cx_samplers cx = {}" "al_n_pos_per_embd (cx_balloc cx) = 1"
  shows "llama_decode env (batch_of \<lparr>ob_cap = Suc 0, ob_seq_max = Suc 0, ob_rows = [(t, 0, [0], o')]\<rparr>) cx = Inr (cx, - 1)"
  using assms by (simp add: llama_decode_def batch_of_def al_init_def batch_shape_def al_valid_input_def Let_def)


end
