(* ===== verification/Vector_DB.thy ===== *)
theory Vector_DB
  imports Prelude "HOL-Library.Multiset"
begin

text \<open>
  The vector store of the application: \<^verbatim>\<open>smolvectordb/src/main/cpp/VectorDB.cpp\<close> and its JNI
  entry points in \<^verbatim>\<open>smolvectordb.cpp\<close>.

  \<^verbatim>\<open>float\<close> arithmetic is an argument \<open>fops\<close> of the model: the operations the code uses, with
  \<open>fl_gt\<close> the comparison \<^verbatim>\<open>>\<close>. What the search relies on is that this comparison is a strict
  weak order on the similarities (\<open>strict_weak\<close>), which holds unless one of them is NaN.
  \<^verbatim>\<open>std::priority_queue\<close> promises that \<^verbatim>\<open>top\<close> is extremal, and leaves open which of several
  equal elements it is: the choice is the argument \<open>sel\<close>.
\<close>

section \<open>Data\<close>

record 'f float_ops =
  fl_zero :: 'f
  fl_add :: "'f \<Rightarrow> 'f \<Rightarrow> 'f"
  fl_mul :: "'f \<Rightarrow> 'f \<Rightarrow> 'f"
  fl_div :: "'f \<Rightarrow> 'f \<Rightarrow> 'f"
  fl_sqrt :: "'f \<Rightarrow> 'f"
  fl_gt :: "'f \<Rightarrow> 'f \<Rightarrow> bool"

definition EMBEDDING_DIM :: nat where
  "EMBEDDING_DIM = 328"

record 'f vdb_record =
  vr_text :: string
  vr_embedding :: "'f list"
  vr_mag :: 'f

type_synonym 'f vdb = "'f vdb_record list"

definition computeMagnitude :: "'f float_ops \<Rightarrow> 'f list \<Rightarrow> 'f" where
  "computeMagnitude fo v = fl_sqrt fo
     (fold (\<lambda>i m. fl_add fo m (fl_mul fo (v ! i) (v ! i))) [0..<EMBEDDING_DIM] (fl_zero fo))"

definition mk_record :: "'f float_ops \<Rightarrow> string \<Rightarrow> 'f list \<Rightarrow> 'f vdb_record" where
  "mk_record fo text emb = \<lparr>vr_text = text, vr_embedding = emb, vr_mag = computeMagnitude fo emb\<rparr>"

definition insertRecord :: "'f vdb_record \<Rightarrow> 'f vdb \<Rightarrow> 'f vdb" where
  "insertRecord r db = db @ [r]"

definition vdb_clear :: "'f vdb \<Rightarrow> 'f vdb" where
  "vdb_clear db = []"

section \<open>The priority queue\<close>

text \<open>A queue of scored entries with the comparator \<^verbatim>\<open>a.first > b.first\<close>: its top is an entry of
  least score. \<open>sel\<close> names the index of that entry.\<close>

type_synonym ('f, 'r) entry = "'f \<times> 'r"

definition pq_push :: "('f, 'r) entry \<Rightarrow> ('f, 'r) entry list \<Rightarrow> ('f, 'r) entry list" where
  "pq_push e q = q @ [e]"

definition pq_top :: "(('f, 'r) entry list \<Rightarrow> nat) \<Rightarrow> ('f, 'r) entry list \<Rightarrow> ('f, 'r) entry" where
  "pq_top sel q = q ! sel q"

definition pq_pop :: "(('f, 'r) entry list \<Rightarrow> nat) \<Rightarrow> ('f, 'r) entry list \<Rightarrow> ('f, 'r) entry list" where
  "pq_pop sel q = take (sel q) q @ drop (Suc (sel q)) q"

definition sel_ok :: "('f \<Rightarrow> 'f \<Rightarrow> bool) \<Rightarrow> (('f, 'r) entry list \<Rightarrow> nat) \<Rightarrow> bool" where
  "sel_ok gt sel \<longleftrightarrow> (\<forall>q. q \<noteq> [] \<longrightarrow> sel q < length q \<and> (\<forall>e \<in> set q. \<not> gt (fst (q ! sel q)) (fst e)))"

section \<open>Search\<close>

definition similarity :: "'f float_ops \<Rightarrow> 'f list \<Rightarrow> 'f \<Rightarrow> 'f vdb_record \<Rightarrow> 'f" where
  "similarity fo query queryMag r =
     (let dot = fold (\<lambda>i d. fl_add fo d (fl_mul fo (query ! i) (vr_embedding r ! i))) [0..<EMBEDDING_DIM] (fl_zero fo)
      in fl_div fo dot (fl_mul fo queryMag (vr_mag r)))"

text \<open>\<^verbatim>\<open>(size_t) k\<close> of a 32-bit \<^verbatim>\<open>int\<close>.\<close>

definition size_of_int :: "int \<Rightarrow> nat" where
  "size_of_int k = nat (k mod 2 ^ 64)"

text \<open>One record: \<^verbatim>\<open>top\<close> of an empty queue is undefined.\<close>

definition nn_step :: "('f \<Rightarrow> 'f \<Rightarrow> bool) \<Rightarrow> (('f, 'r) entry list \<Rightarrow> nat) \<Rightarrow> nat \<Rightarrow> ('f, 'r) entry \<Rightarrow>
    ('f, 'r) entry list \<Rightarrow> ('f, 'r) entry list res" where
  "nn_step gt sel k e q =
     (if length q < k then Inr (pq_push e q)
      else if q = [] then Inl Undefined
      else if gt (fst e) (fst (pq_top sel q)) then Inr (pq_push e (pq_pop sel q))
      else Inr q)"

fun nn_scan :: "('f \<Rightarrow> 'f \<Rightarrow> bool) \<Rightarrow> (('f, 'r) entry list \<Rightarrow> nat) \<Rightarrow> nat \<Rightarrow> ('f, 'r) entry list \<Rightarrow>
    ('f, 'r) entry list \<Rightarrow> ('f, 'r) entry list res" where
  "nn_scan gt sel k [] q = Inr q"
| "nn_scan gt sel k (e # es) q = and_then (nn_step gt sel k e q) (nn_scan gt sel k es)"

text \<open>\<^verbatim>\<open>while (!top_k.empty())\<close>; an entry leaves the queue in every round.\<close>

fun nn_drain_n :: "nat \<Rightarrow> (('f, 'r) entry list \<Rightarrow> nat) \<Rightarrow> ('f, 'r) entry list \<Rightarrow> ('f, 'r) entry list" where
  "nn_drain_n 0 sel q = []"
| "nn_drain_n (Suc n) sel q = (if q = [] then [] else pq_top sel q # nn_drain_n n sel (pq_pop sel q))"

definition nn_drain :: "(('f, 'r) entry list \<Rightarrow> nat) \<Rightarrow> ('f, 'r) entry list \<Rightarrow> ('f, 'r) entry list" where
  "nn_drain sel q = nn_drain_n (length q) sel q"

definition scored :: "'f float_ops \<Rightarrow> 'f list \<Rightarrow> 'f vdb \<Rightarrow> ('f, 'f vdb_record) entry list" where
  "scored fo query db = (let m = computeMagnitude fo query in map (\<lambda>r. (similarity fo query m r, r)) db)"

definition nearestNeighbor :: "'f float_ops \<Rightarrow> (('f, 'f vdb_record) entry list \<Rightarrow> nat) \<Rightarrow> 'f list \<Rightarrow> int \<Rightarrow>
    'f vdb \<Rightarrow> 'f vdb_record list res" where
  "nearestNeighbor fo sel query k db =
     and_then (nn_scan (fl_gt fo) sel (size_of_int k) (scored fo query db) [])
       (\<lambda>q. Inr (rev (map snd (nn_drain sel q))))"

section \<open>JNI entry points\<close>

text \<open>The heap of stores: a handle is the address of a live \<^verbatim>\<open>VectorDB\<close>. A handle that is not live,
  or an array shorter than \<^verbatim>\<open>EMBEDDING_DIM\<close>, is undefined behaviour.\<close>

record 'f vdb_heap =
  vh_next :: nat
  vh_mem :: "nat \<Rightarrow> 'f vdb option"

definition vdb_initialize :: "'f vdb_heap \<Rightarrow> 'f vdb_heap \<times> nat" where
  "vdb_initialize h = (h\<lparr>vh_next := Suc (vh_next h), vh_mem := (vh_mem h)(vh_next h \<mapsto> [])\<rparr>, vh_next h)"

definition jni_insertRecord :: "'f float_ops \<Rightarrow> nat \<Rightarrow> string \<Rightarrow> 'f list \<Rightarrow> 'f vdb_heap \<Rightarrow> 'f vdb_heap res" where
  "jni_insertRecord fo hdl text emb h =
     (case vh_mem h hdl of
        None \<Rightarrow> Inl Undefined
      | Some db \<Rightarrow>
          if length emb < EMBEDDING_DIM then Inl Undefined
          else Inr (h\<lparr>vh_mem := (vh_mem h)(hdl \<mapsto>
            insertRecord (mk_record fo text (take EMBEDDING_DIM emb)) db)\<rparr>))"

definition jni_nearestNeighbor :: "'f float_ops \<Rightarrow> (('f, 'f vdb_record) entry list \<Rightarrow> nat) \<Rightarrow> nat \<Rightarrow> 'f list \<Rightarrow> int \<Rightarrow>
    'f vdb_heap \<Rightarrow> string list res" where
  "jni_nearestNeighbor fo sel hdl query k h =
     (case vh_mem h hdl of
        None \<Rightarrow> Inl Undefined
      | Some db \<Rightarrow>
          if length query < EMBEDDING_DIM then Inl Undefined
          else and_then (nearestNeighbor fo sel (take EMBEDDING_DIM query) k db) (\<lambda>rs. Inr (map vr_text rs)))"

definition vdb_close :: "nat \<Rightarrow> 'f vdb_heap \<Rightarrow> 'f vdb_heap res" where
  "vdb_close hdl h =
     (if hdl = 0 then Inr h
      else case vh_mem h hdl of None \<Rightarrow> Inl Undefined | Some _ \<Rightarrow> Inr (h\<lparr>vh_mem := (vh_mem h)(hdl := None)\<rparr>))"

section \<open>What a priority queue promises\<close>

definition strict_weak :: "('f \<Rightarrow> 'f \<Rightarrow> bool) \<Rightarrow> bool" where
  "strict_weak gt \<longleftrightarrow> (\<forall>a. \<not> gt a a) \<and> (\<forall>a b c. gt a b \<longrightarrow> gt b c \<longrightarrow> gt a c) \<and>
     (\<forall>a b c. \<not> gt a b \<longrightarrow> \<not> gt b c \<longrightarrow> \<not> gt a c)"

text \<open>The laws of the queue, for the entries it holds as a multiset. The search is verified from them
  alone.\<close>

locale prio_queue =
  fixes ok :: bool
    and gt :: "'f \<Rightarrow> 'f \<Rightarrow> bool"
    and push :: "('f, 'r) entry \<Rightarrow> ('f, 'r) entry list \<Rightarrow> ('f, 'r) entry list"
    and top :: "('f, 'r) entry list \<Rightarrow> ('f, 'r) entry"
    and pop :: "('f, 'r) entry list \<Rightarrow> ('f, 'r) entry list"
  assumes mset_push: "ok \<Longrightarrow> mset (push e q) = add_mset e (mset q)"
    and mset_pop: "ok \<Longrightarrow> q \<noteq> [] \<Longrightarrow> add_mset (top q) (mset (pop q)) = mset q"
    and top_least: "ok \<Longrightarrow> e \<in># mset q \<Longrightarrow> \<not> gt (fst (top q)) (fst e)"
    and order: "ok \<Longrightarrow> strict_weak gt"
begin

lemma length_push: "ok \<Longrightarrow> length (push e q) = Suc (length q)"
  using mset_push[of e q] by (metis size_add_mset size_mset)

lemma length_pop: "ok \<Longrightarrow> q \<noteq> [] \<Longrightarrow> Suc (length (pop q)) = length q"
  using mset_pop[of q] by (metis size_add_mset size_mset)

text \<open>\<open>best k all q\<close>: the queue holds the \<open>k\<close> best entries of \<open>all\<close>.\<close>

definition best :: "nat \<Rightarrow> ('f, 'r) entry multiset \<Rightarrow> ('f, 'r) entry list \<Rightarrow> bool" where
  "best k all q \<longleftrightarrow> length q = min k (size all) \<and>
     (\<exists>rest. all = mset q + rest \<and> (\<forall>x \<in># rest. \<forall>y \<in># mset q. \<not> gt (fst x) (fst y)))"

lemma best_fill:
  assumes "ok" "best k all q" "length q < k"
  shows "best k (add_mset e all) (push e q)"
proof -
  obtain rest where r: "all = mset q + rest" and l: "length q = min k (size all)"
    using assms(2) unfolding best_def by blast
  have "size all = length q + size rest" using r by simp
  then have "size rest = 0" using l assms(3) by (cases "k \<le> size all") (simp_all add: min_def)
  then have all: "all = mset q" using r by simp
  show ?thesis
    unfolding best_def using assms(3) length_push[OF assms(1)]
    by (intro conjI exI[of _ "{#}"]) (simp_all add: all mset_push[OF assms(1)])
qed

lemma best_keep:
  assumes "ok" "best k all q" "\<not> length q < k" "q \<noteq> []" "\<not> gt (fst e) (fst (top q))"
  shows "best k (add_mset e all) q"
proof -
  obtain rest where r: "all = mset q + rest" "\<forall>x \<in># rest. \<forall>y \<in># mset q. \<not> gt (fst x) (fst y)"
    using assms(2) unfolding best_def by blast
  have "\<not> gt (fst e) (fst y)" if "y \<in># mset q" for y
    using assms(5) top_least[OF assms(1) that] order[OF assms(1)] unfolding strict_weak_def by blast
  moreover have "length q = min k (size (add_mset e all))" using assms(2,3) by (auto simp: best_def)
  ultimately show ?thesis
    unfolding best_def using r by (intro conjI exI[of _ "add_mset e rest"]) auto
qed

lemma best_swap:
  assumes "ok" "best k all q" "\<not> length q < k" "q \<noteq> []" "gt (fst e) (fst (top q))"
  shows "best k (add_mset e all) (push e (pop q))"
proof -
  note sw = order[OF assms(1), unfolded strict_weak_def] and mp = mset_pop[OF assms(1,4)]
  obtain rest where r: "all = mset q + rest" "\<forall>x \<in># rest. \<forall>y \<in># mset q. \<not> gt (fst x) (fst y)"
    using assms(2) unfolding best_def by blast
  have q: "set_mset (mset q) = insert (top q) (set_mset (mset (pop q)))"
    using arg_cong[OF mp, of set_mset] by simp
  have "length (push e (pop q)) = min k (size (add_mset e all))"
    using assms(2,3) length_push[OF assms(1)] length_pop[OF assms(1,4)] by (auto simp: best_def)
  moreover have "add_mset e all = mset (push e (pop q)) + add_mset (top q) rest"
    using mp r(1) by (simp add: mset_push[OF assms(1)])
  moreover have "\<not> gt (fst x) (fst y)" if "x \<in># add_mset (top q) rest" "y \<in># mset (push e (pop q))" for x y
  proof -
    have y: "y = e \<or> y \<in># mset q" using that(2) unfolding q mset_push[OF assms(1)] by auto
    have tq: "top q \<in># mset q" unfolding q by simp
    have "x = top q \<or> x \<in># rest" using that(1) by simp
    then have xt: "\<not> gt (fst x) (fst (top q))" using r(2) tq sw by blast
    have et: "\<not> gt (fst (top q)) (fst e)" using assms(5) sw by blast
    have "\<not> gt (fst (top q)) (fst y)" using y
    proof
      assume "y = e"
      then show ?thesis using et by simp
    next
      assume "y \<in># mset q"
      then show ?thesis by (rule top_least[OF assms(1)])
    qed
    then show ?thesis using xt sw by blast
  qed
  ultimately show ?thesis unfolding best_def by blast
qed

end

interpretation pq: prio_queue "sel_ok gt sel \<and> strict_weak gt" gt pq_push "pq_top sel" "pq_pop sel"
  for gt :: "'f \<Rightarrow> 'f \<Rightarrow> bool" and sel :: "('f, 'r) entry list \<Rightarrow> nat"
proof (unfold_locales, goal_cases)
  case (2 q)
  then have "sel q < length q" by (simp add: sel_ok_def)
  then have "q = take (sel q) q @ q ! sel q # drop (Suc (sel q)) q" by (rule id_take_nth_drop)
  then have "mset q = mset (take (sel q) q @ q ! sel q # drop (Suc (sel q)) q)" by (rule arg_cong)
  then show ?case by (simp add: pq_top_def pq_pop_def)
next
  case (3 e q)
  then have "q \<noteq> []" by auto
  then show ?case using 3 by (auto simp: sel_ok_def pq_top_def)
qed (auto simp: pq_push_def)

section \<open>The search returns the best records\<close>

lemma nn_scan_best:
  assumes "sel_ok gt sel \<and> strict_weak gt" "0 < k" "pq.best gt k all q"
  shows "\<exists>q'. nn_scan gt sel k es q = Inr q' \<and> pq.best gt k (all + mset es) q'"
  using assms(3)
proof (induction es arbitrary: all q)
  case (Cons e es)
  consider (fill) "length q < k" | (keep) "\<not> length q < k" "q \<noteq> []" "\<not> gt (fst e) (fst (pq_top sel q))"
    | (swap) "\<not> length q < k" "q \<noteq> []" "gt (fst e) (fst (pq_top sel q))"
    using assms(2) by fastforce
  then obtain q1 where q1: "nn_step gt sel k e q = Inr q1" "pq.best gt k (add_mset e all) q1"
  proof cases
    case fill
    then show ?thesis using that pq.best_fill[OF assms(1) Cons.prems fill] by (simp add: nn_step_def)
  next
    case keep
    then show ?thesis using that pq.best_keep[OF assms(1) Cons.prems keep] by (simp add: nn_step_def)
  next
    case swap
    then show ?thesis using that pq.best_swap[OF assms(1) Cons.prems swap] by (simp add: nn_step_def)
  qed
  show ?case using Cons.IH[OF q1(2)] q1(1) by simp
qed simp

lemma nn_drain_n_correct:
  assumes "sel_ok gt sel \<and> strict_weak gt" "length q = n"
  shows "mset (nn_drain_n n sel q) = mset q \<and> sorted_wrt (\<lambda>a b. \<not> gt (fst a) (fst b)) (nn_drain_n n sel q)"
  using assms(2)
proof (induction n arbitrary: q)
  case (Suc n)
  then have ne: "q \<noteq> []" by auto
  have "length (pq_pop sel q) = n" using pq.length_pop[OF assms(1) ne] Suc.prems by simp
  note IH = Suc.IH[OF this]
  have m: "add_mset (pq_top sel q) (mset (pq_pop sel q)) = mset q" by (rule pq.mset_pop[OF assms(1) ne])
  have "\<not> gt (fst (pq_top sel q)) (fst e)" if "e \<in> set (nn_drain_n n sel (pq_pop sel q))" for e
  proof (rule pq.top_least[OF assms(1)])
    have "e \<in># mset (pq_pop sel q)" using that IH by (metis set_mset_mset)
    then show "e \<in># mset q" using m by (metis union_iff add_mset_add_single)
  qed
  then show ?case using IH m ne by auto
qed simp

lemma nn_drain_correct:
  assumes "sel_ok gt sel \<and> strict_weak gt"
  shows "mset (nn_drain sel q) = mset q" "sorted_wrt (\<lambda>a b. \<not> gt (fst a) (fst b)) (nn_drain sel q)"
  using nn_drain_n_correct[OF assms refl] by (auto simp: nn_drain_def)

lemma nearestNeighbor_aux:
  assumes "strict_weak (fl_gt fo)" "sel_ok (fl_gt fo) sel" "0 < size_of_int k"
  shows "\<exists>out rest. nearestNeighbor fo sel query k db = Inr (map snd out) \<and>
    mset (scored fo query db) = mset out + rest \<and> length out = min (size_of_int k) (length db) \<and>
    sorted_wrt (\<lambda>a b. \<not> fl_gt fo (fst b) (fst a)) out \<and>
    (\<forall>x \<in># rest. \<forall>y \<in> set out. \<not> fl_gt fo (fst x) (fst y))"
proof -
  let ?ok = "sel_ok (fl_gt fo) sel \<and> strict_weak (fl_gt fo)" and ?k = "size_of_int k"
  have ok: ?ok using assms by simp
  have "pq.best (fl_gt fo) ?k {#} []" by (simp add: pq.best_def)
  from nn_scan_best[OF ok assms(3) this, of "scored fo query db"]
  obtain q where q: "nn_scan (fl_gt fo) sel ?k (scored fo query db) [] = Inr q"
    "pq.best (fl_gt fo) ?k (mset (scored fo query db)) q" by auto
  obtain rest where r: "mset (scored fo query db) = mset q + rest"
    "\<forall>x \<in># rest. \<forall>y \<in># mset q. \<not> fl_gt fo (fst x) (fst y)" "length q = min ?k (size (mset (scored fo query db)))"
    using q(2) unfolding pq.best_def by blast
  let ?out = "rev (nn_drain sel q)"
  have m: "mset ?out = mset q" using nn_drain_correct(1)[OF ok, of q] by simp
  have "nearestNeighbor fo sel query k db = Inr (map snd ?out)"
    using q(1) by (simp add: nearestNeighbor_def rev_map)
  moreover have "length ?out = min ?k (length db)"
    using r(3) arg_cong[OF m, of size] by (simp add: scored_def Let_def)
  moreover have "sorted_wrt (\<lambda>a b. \<not> fl_gt fo (fst b) (fst a)) ?out"
    using nn_drain_correct(2)[OF ok, of q] by (simp add: sorted_wrt_rev)
  ultimately show ?thesis
    using r(1,2) m by (metis set_mset_mset)
qed


text \<open>The edge cases of \<open>k\<close>: with \<open>k = 0\<close> and a record in the store the search reads the top of an
  empty queue; a negative \<open>k\<close> becomes a huge size and all records are returned.\<close>

theorem nearestNeighbor_bad_k:
  assumes "strict_weak (fl_gt fo)" "sel_ok (fl_gt fo) sel" "k < 0" "- (2 ^ 31) \<le> k" "length db < 2 ^ 63"
  shows "(db \<noteq> [] \<longrightarrow> nearestNeighbor fo sel query 0 db = Inl Undefined) \<and>
    (\<exists>rs. nearestNeighbor fo sel query k db = Inr rs \<and> mset rs = mset db)"
proof -
  have "nearestNeighbor fo sel query 0 db = Inl Undefined" if "db \<noteq> []"
    using that by (cases db) (auto simp: nearestNeighbor_def scored_def size_of_int_def nn_step_def Let_def)
  moreover have "size_of_int k = nat (k + 2 ^ 64)"
  proof -
    have "k mod 2 ^ 64 = (k + 2 ^ 64) mod 2 ^ 64" by (rule mod_add_self2[symmetric])
    also have "\<dots> = k + 2 ^ 64" using assms(3,4) by (intro mod_pos_pos_trivial) auto
    finally show ?thesis by (simp add: size_of_int_def)
  qed
  moreover have "\<exists>rs. nearestNeighbor fo sel query k db = Inr rs \<and> mset rs = mset db"
    if s: "size_of_int k = nat (k + 2 ^ 64)"
  proof -
    have "int (length db) < k + 2 ^ 64" using assms(4,5) by simp
    then have big: "length db < size_of_int k" "0 < size_of_int k" unfolding s by linarith+
    obtain out rest where o: "nearestNeighbor fo sel query k db = Inr (map snd out)"
      "mset (scored fo query db) = mset out + rest" "length out = length db"
      using nearestNeighbor_aux[OF assms(1,2) big(2), of query db] big(1) by auto
    have "size (mset (scored fo query db)) = length db" by (simp add: scored_def Let_def)
    then have "rest = {#}" using o(2,3) by simp
    then have "mset (map snd out) = image_mset snd (mset (scored fo query db))" using o(2) by simp
    also have "\<dots> = mset db" by (simp add: scored_def Let_def image_mset.compositionality comp_def)
    finally show ?thesis using o(1) by blast
  qed
  ultimately show ?thesis by blast
qed

text \<open>Through the JNI interface: records inserted under a live handle are exactly what a search
  for all of them returns, whatever other handles hold, and a closed handle is never usable again.\<close>

theorem vdb_insert_then_search:
  assumes "strict_weak (fl_gt fo)" "sel_ok (fl_gt fo) sel" "vh_mem h hdl = Some db" "EMBEDDING_DIM \<le> length emb"
    "EMBEDDING_DIM \<le> length query" "int (Suc (length db)) < 2 ^ 31" "hdl \<noteq> 0"
  shows "\<exists>h' texts. jni_insertRecord fo hdl text emb h = Inr h' \<and>
    (\<forall>x. x \<noteq> hdl \<longrightarrow> vh_mem h' x = vh_mem h x) \<and>
    jni_nearestNeighbor fo sel hdl query (int (Suc (length db))) h' = Inr texts \<and>
    mset texts = add_mset text (mset (map vr_text db)) \<and>
    (\<exists>h''. vdb_close hdl h' = Inr h'' \<and> jni_nearestNeighbor fo sel hdl query k h'' = Inl Undefined)"
proof -
  let ?r = "mk_record fo text (take EMBEDDING_DIM emb)" and ?q = "take EMBEDDING_DIM query"
  let ?h = "h\<lparr>vh_mem := (vh_mem h)(hdl \<mapsto> db @ [?r])\<rparr>" and ?k = "int (Suc (length db))"
  have "size_of_int ?k = Suc (length db)" using assms(6) by (simp add: size_of_int_def)
  then obtain out rest where o: "nearestNeighbor fo sel ?q ?k (db @ [?r]) = Inr (map snd out)"
    "mset (scored fo ?q (db @ [?r])) = mset out + rest" "length out = Suc (length db)"
    using nearestNeighbor_aux[OF assms(1,2), of ?k ?q "db @ [?r]"] by auto
  have "size (mset (scored fo ?q (db @ [?r]))) = Suc (length db)" by (simp add: scored_def Let_def)
  then have "rest = {#}" using o(2,3) by simp
  then have "mset (map snd out) = image_mset snd (mset (scored fo ?q (db @ [?r])))" using o(2) by simp
  also have "\<dots> = mset (db @ [?r])" by (simp add: scored_def Let_def image_mset.compositionality comp_def)
  finally have "mset (map vr_text (map snd out)) = mset (map vr_text (db @ [?r]))"
    by (metis mset_map)
  then show ?thesis
    using assms(3-5,7) o(1)
    by (auto simp: jni_insertRecord_def jni_nearestNeighbor_def vdb_close_def insertRecord_def mk_record_def)
qed

section \<open>Examples\<close>

definition ex_fops :: "int float_ops" where
  "ex_fops = \<lparr>fl_zero = 0, fl_add = (+), fl_mul = (*), fl_div = (\<lambda>a b. a), fl_sqrt = id, fl_gt = (>)\<rparr>"

fun ex_sel :: "(int, 'r) entry list \<Rightarrow> nat" where
  "ex_sel [] = 0"
| "ex_sel [e] = 0"
| "ex_sel (e # es) = (if fst (es ! ex_sel es) < fst e then Suc (ex_sel es) else 0)"

lemma ex_fops_ok: "strict_weak (fl_gt ex_fops)" "sel_ok (fl_gt ex_fops) ex_sel"
proof -
  show "strict_weak (fl_gt ex_fops)" by (auto simp: strict_weak_def ex_fops_def)
  have "q \<noteq> [] \<longrightarrow> ex_sel q < length q \<and> (\<forall>e \<in> set q. fst (q ! ex_sel q) \<le> fst e)" for q :: "(int, 'r) entry list"
    by (induction q rule: ex_sel.induct) fastforce+
  then show "sel_ok (fl_gt ex_fops) (ex_sel :: (int, 'r) entry list \<Rightarrow> nat)"
    by (auto simp: sel_ok_def ex_fops_def not_less)
qed


lemma nearestNeighbor_bad_k_witness:
  "nearestNeighbor ex_fops ex_sel [] 0 [mk_record ex_fops ''a'' []] = Inl Undefined \<and>
   (\<exists>rs. nearestNeighbor ex_fops ex_sel [] (- 1) [mk_record ex_fops ''a'' []] = Inr rs \<and> mset rs = {#mk_record ex_fops ''a'' []#})"
  using nearestNeighbor_bad_k[OF ex_fops_ok, of "- 1" "[mk_record ex_fops ''a'' []]" "[]"] by simp

lemma vdb_insert_then_search_witness:
  "\<exists>h' texts. jni_insertRecord ex_fops 1 ''a'' (replicate 328 0) \<lparr>vh_next = 2, vh_mem = [1 \<mapsto> []]\<rparr> = Inr h' \<and>
     jni_nearestNeighbor ex_fops ex_sel 1 (replicate 328 0) 1 h' = Inr texts \<and> mset texts = {#''a''#}"
  using vdb_insert_then_search[OF ex_fops_ok, of "\<lparr>vh_next = 2, vh_mem = [1 \<mapsto> []]\<rparr>" 1 "[]" "replicate 328 0" "replicate 328 0" "''a''"]
  by (auto simp: EMBEDDING_DIM_def)

end
