(* ===== verification/Ggml_Tensor.thy ===== *)
theory Ggml_Tensor
  imports Bytes
begin

text \<open>
  The description of a tensor (\<^verbatim>\<open>ggml.h\<close>, \<^verbatim>\<open>ggml.c\<close>): the table of element types, the
  shape, the strides and the size in bytes. \<^verbatim>\<open>size_t\<close> arithmetic wraps at 64 bits and is written out with
  \<open>u64\<close>. The data of a tensor is the bytes its \<^verbatim>\<open>data\<close> pointer addresses, \<open>None\<close> for a null pointer.
\<close>

unbundle bit_operations_syntax

section \<open>Element types\<close>

definition GGML_TYPE_COUNT :: int where
  "GGML_TYPE_COUNT = 40"

definition GGML_MAX_DIMS :: nat where
  "GGML_MAX_DIMS = 4"

definition GGML_MAX_NAME :: nat where
  "GGML_MAX_NAME = 64"

text \<open>Elements per block and bytes per block of every type, by its number. A type that was removed has 0 and 0, as do the
  numbers that were never used.\<close>

definition type_traits :: "(nat \<times> nat) list" where
  "type_traits =
    [(1, 4), (1, 2), (32, 18), (32, 20), (0, 0), (0, 0), (32, 22), (32, 24), (32, 34), (32, 36),
     (256, 84), (256, 110), (256, 144), (256, 176), (256, 210), (256, 292), (256, 66), (256, 74), (256, 98), (256, 50),
     (32, 18), (256, 110), (256, 82), (256, 136), (1, 1), (1, 2), (1, 4), (1, 8), (1, 8), (256, 56),
     (1, 2), (0, 0), (0, 0), (0, 0), (256, 54), (256, 66), (0, 0), (0, 0), (0, 0), (32, 17)]"

definition ggml_blck_size :: "int \<Rightarrow> nat" where
  "ggml_blck_size type = fst (type_traits ! nat type)"

definition ggml_type_size :: "int \<Rightarrow> nat" where
  "ggml_type_size type = snd (type_traits ! nat type)"

lemma type_size_pos:
  assumes "0 \<le> t" "t < GGML_TYPE_COUNT" "ggml_blck_size t \<noteq> 0"
  shows "0 < ggml_type_size t" "ggml_type_size t \<le> 292"
proof -
  have "nat t < length type_traits" using assms by (simp add: GGML_TYPE_COUNT_def type_traits_def)
  then have "type_traits ! nat t \<in> set type_traits" by simp
  moreover have "\<forall>e \<in> set type_traits. fst e \<noteq> 0 \<longrightarrow> 0 < snd e \<and> snd e \<le> 292" by (simp add: type_traits_def)
  ultimately show "0 < ggml_type_size t" "ggml_type_size t \<le> 292"
    using assms(3) by (auto simp: ggml_blck_size_def ggml_type_size_def)
qed

section \<open>Tensors\<close>

record ggml_tensor =
  t_name :: bytes
  t_type :: int
  t_ne :: "int list"
  t_nb :: "nat list"
  t_data :: "bytes option"

definition ggml_nelements :: "ggml_tensor \<Rightarrow> int" where
  "ggml_nelements t = t_ne t ! 0 * t_ne t ! 1 * t_ne t ! 2 * t_ne t ! 3"

definition ggml_nbytes :: "ggml_tensor \<Rightarrow> nat" where
  "ggml_nbytes t =
    (if \<exists>i \<in> set [0..<GGML_MAX_DIMS]. t_ne t ! i \<le> 0 then 0
     else let blck_size = ggml_blck_size (t_type t);
              steps = (\<lambda>is. \<Sum>i\<leftarrow>is. (t_ne t ! i - 1) * int (t_nb t ! i)) in
       if blck_size = 1 then u64 (int (ggml_type_size (t_type t)) + steps [0..<GGML_MAX_DIMS])
       else u64 (int (u64 (t_ne t ! 0 * int (t_nb t ! 0)) div blck_size) + steps [1..<GGML_MAX_DIMS]))"

definition ggml_n_dims :: "ggml_tensor \<Rightarrow> nat" where
  "ggml_n_dims t = (if t_ne t ! 3 > 1 then 4 else if t_ne t ! 2 > 1 then 3 else if t_ne t ! 1 > 1 then 2 else 1)"

text \<open>\<^verbatim>\<open>ggml_set_name\<close> keeps what fits before the terminator.\<close>

definition ggml_set_name :: "bytes \<Rightarrow> ggml_tensor \<Rightarrow> ggml_tensor" where
  "ggml_set_name name t = t\<lparr>t_name := take (GGML_MAX_NAME - 1) (cstr name)\<rparr>"

fun contiguous_from :: "nat \<Rightarrow> nat \<Rightarrow> nat list \<Rightarrow> ggml_tensor \<Rightarrow> bool" where
  "contiguous_from n next_nb [] t = True"
| "contiguous_from n next_nb (i # is) t =
    (if t_ne t ! i \<noteq> 1 then
       if i > n then t_nb t ! i = next_nb \<and> contiguous_from n (u64 (int next_nb * t_ne t ! i)) is t
       else contiguous_from n (u64 (t_ne t ! i * int (t_nb t ! i))) is t
     else contiguous_from n next_nb is t)"

definition ggml_is_contiguous_n :: "ggml_tensor \<Rightarrow> nat \<Rightarrow> bool" where
  "ggml_is_contiguous_n t n =
    (let next_nb = ggml_type_size (t_type t); blck = int (ggml_blck_size (t_type t)) in
     if t_ne t ! 0 \<noteq> blck \<and> t_nb t ! 0 \<noteq> next_nb then False
     else contiguous_from n (u64 (int next_nb * (t_ne t ! 0 div blck))) [1..<GGML_MAX_DIMS] t)"

definition ggml_is_contiguous :: "ggml_tensor \<Rightarrow> bool" where
  "ggml_is_contiguous t = ggml_is_contiguous_n t 0"

text \<open>The strides of a tensor laid out without gaps, as the reader and \<^verbatim>\<open>gguf_set_tensor_type\<close> compute them.\<close>

definition row_strides :: "int \<Rightarrow> int list \<Rightarrow> nat list" where
  "row_strides type ne =
    (let nb0 = ggml_type_size type;
         nb1 = u64 (int nb0 * (ne ! 0 div int (ggml_blck_size type)));
         nb2 = u64 (int nb1 * ne ! 1);
         nb3 = u64 (int nb2 * ne ! 2) in [nb0, nb1, nb2, nb3])"

text \<open>\<^verbatim>\<open>GGML_PAD(x, n)\<close> on \<^verbatim>\<open>size_t\<close> operands.\<close>

definition GGML_PAD :: "nat \<Rightarrow> nat \<Rightarrow> nat" where
  "GGML_PAD x n = unat ((word_of_nat x + word_of_nat n - 1) AND NOT (word_of_nat n - 1) :: 64 word)"

section \<open>What they compute\<close>

lemma u64_small: "0 \<le> x \<Longrightarrow> x < 2 ^ 64 \<Longrightarrow> u64 x = nat x"
  by (simp add: u64_def)

lemma u64_nat [simp]: "n < 2 ^ 64 \<Longrightarrow> u64 (int n) = n"
  by (simp add: u64_def)

lemma u64_u64 [simp]: "u64 (int (u64 x)) = u64 x"
  by (simp add: u64_def)

lemma u64_less: "u64 x < 2 ^ 64"
  by (simp add: u64_def nat_less_iff)

lemma GGML_PAD_eq:
  assumes "k < 64" "x + 2 ^ k \<le> 2 ^ 64"
  shows "GGML_PAD x (2 ^ k) = (x + 2 ^ k - 1) div 2 ^ k * 2 ^ k"
proof -
  define y where "y = x + 2 ^ k - 1"
  have y: "y < 2 ^ 64" using assms by (simp add: y_def)
  have "Suc y = x + 2 ^ k" by (simp add: y_def)
  then have "(word_of_nat (Suc y) :: 64 word) = word_of_nat (x + 2 ^ k)" by simp
  then have w: "(word_of_nat x + word_of_nat (2 ^ k) - 1 :: 64 word) = word_of_nat y"
    by (simp add: algebra_simps)
  have m: "(word_of_nat (2 ^ k) - 1 :: 64 word) = mask k" by (simp add: mask_eq_exp_minus_1)
  have "(word_of_nat y AND NOT (mask k) :: 64 word) = push_bit k (drop_bit k (word_of_nat y))"
    by (rule bit_word_eqI) (auto simp: bit_simps)
  then have "GGML_PAD x (2 ^ k) = take_bit 64 (push_bit k (drop_bit k y))"
    using y unfolding GGML_PAD_def w m by (simp add: unsigned_push_bit_eq unat_drop_bit_eq unat_of_nat)
  moreover have "y div 2 ^ k * 2 ^ k < 2 ^ 64" using y by (meson div_times_less_eq_dividend le_less_trans)
  ultimately show ?thesis by (simp add: push_bit_eq_mult drop_bit_eq_div take_bit_eq_mod y_def)
qed

text \<open>A tensor as the reader makes it: a known type, a shape without a zero beyond the first dimension, rows of whole
  blocks, strides without gaps, and a size that \<^verbatim>\<open>size_t\<close> can hold.\<close>

definition shape_ok :: "int \<Rightarrow> int list \<Rightarrow> bool" where
  "shape_ok type ne \<longleftrightarrow>
    0 \<le> type \<and> type < GGML_TYPE_COUNT \<and> ggml_blck_size type \<noteq> 0 \<and> length ne = GGML_MAX_DIMS \<and>
    0 \<le> ne ! 0 \<and> (\<forall>i \<in> {1, 2, 3}. 1 \<le> ne ! i) \<and> int (ggml_blck_size type) dvd ne ! 0 \<and>
    ne ! 0 * ne ! 1 * ne ! 2 * ne ! 3 < INT64_MAX \<and>
    ne ! 0 * ne ! 1 * ne ! 2 * ne ! 3 div int (ggml_blck_size type) * int (ggml_type_size type) < 2 ^ 64"

definition dense :: "ggml_tensor \<Rightarrow> bool" where
  "dense t \<longleftrightarrow> shape_ok (t_type t) (t_ne t) \<and> t_nb t = row_strides (t_type t) (t_ne t)"

lemma shape_cases:
  assumes "shape_ok type ne"
  obtains a b c d q where "ne = [a, b, c, d]" "0 \<le> q" "a = int (ggml_blck_size type) * q" "1 \<le> b" "1 \<le> c" "1 \<le> d"
    "q * b * c * d * int (ggml_type_size type) < 2 ^ 64" "a * b * c * d = int (ggml_blck_size type) * (q * b * c * d)"
proof -
  have len: "length ne = Suc (Suc (Suc (Suc 0)))" using assms by (simp add: shape_ok_def GGML_MAX_DIMS_def)
  obtain a b c d where ne: "ne = [a, b, c, d]" using len by (auto simp: length_Suc_conv)
  obtain q where a: "a = int (ggml_blck_size type) * q" using assms ne by (auto simp: shape_ok_def elim: dvdE)
  have pos: "0 < int (ggml_blck_size type)" using assms by (simp add: shape_ok_def)
  have "0 \<le> q" using assms ne a pos by (auto simp: shape_ok_def zero_le_mult_iff)
  moreover have prod: "a * b * c * d = int (ggml_blck_size type) * (q * b * c * d)" by (simp add: a)
  moreover have "q * b * c * d * int (ggml_type_size type) < 2 ^ 64"
    using assms ne prod pos by (simp add: shape_ok_def)
  moreover have "1 \<le> b" "1 \<le> c" "1 \<le> d" using assms ne by (auto simp: shape_ok_def)
  ultimately show thesis using ne a that by blast
qed

text \<open>A prefix of the product of the dimensions is no larger than the product.\<close>

lemma mult_ge_left: "0 \<le> x \<Longrightarrow> 1 \<le> y \<Longrightarrow> x \<le> x * (y :: int)"
  using mult_left_mono[of 1 y x] by simp

lemma row_strides_eq:
  assumes "shape_ok type [a, b, c, d]" "a = int (ggml_blck_size type) * q" "0 \<le> q" "1 \<le> b" "1 \<le> c" "1 \<le> d"
    "q * b * c * d * int (ggml_type_size type) < 2 ^ 64"
  shows "map int (row_strides type [a, b, c, d]) =
    [int (ggml_type_size type), int (ggml_type_size type) * q, int (ggml_type_size type) * q * b, int (ggml_type_size type) * q * b * c]"
proof -
  let ?s = "int (ggml_type_size type)"
  have pos: "0 \<le> ?s * q" "0 \<le> ?s * q * b" "0 \<le> ?s * q * b * c" using assms by auto
  have le: "?s * q \<le> ?s * q * b" "?s * q * b \<le> ?s * q * b * c" "?s * q * b * c \<le> ?s * q * b * c * d"
    using pos assms(4-6) by (intro mult_ge_left; simp)+
  have tot: "?s * q * b * c * d < 2 ^ 64" using assms(7) by (simp add: mult.commute mult.left_commute)
  have "a div int (ggml_blck_size type) = q" using assms(1,2) by (simp add: shape_ok_def)
  then show ?thesis using pos le tot by (simp add: row_strides_def Let_def u64_small)
qed

lemma nbytes_unfold:
  assumes "t_ne t = [a, b, c, d]" "t_nb t = [n0, n1, n2, n3]" "0 < a" "0 < b" "0 < c" "0 < d"
  shows "ggml_nbytes t =
    (if ggml_blck_size (t_type t) = 1
     then u64 (int (ggml_type_size (t_type t)) + ((a - 1) * int n0 + ((b - 1) * int n1 + ((c - 1) * int n2 + (d - 1) * int n3))))
     else u64 (int (u64 (a * int n0) div ggml_blck_size (t_type t)) + ((b - 1) * int n1 + ((c - 1) * int n2 + (d - 1) * int n3))))"
proof -
  have idx: "[0..<GGML_MAX_DIMS] = [0, 1, 2, 3]" "[1..<GGML_MAX_DIMS] = [1, 2, 3]"
    by (simp_all add: GGML_MAX_DIMS_def upt_rec)
  show ?thesis unfolding ggml_nbytes_def idx using assms by simp
qed

lemma nbytes_dense:
  assumes "dense t" "t_ne t ! 0 * int (ggml_type_size (t_type t)) < 2 ^ 64"
  shows "int (ggml_nbytes t) = ggml_nelements t div int (ggml_blck_size (t_type t)) * int (ggml_type_size (t_type t))"
proof -
  let ?s = "int (ggml_type_size (t_type t))" and ?k = "int (ggml_blck_size (t_type t))"
  have sh: "shape_ok (t_type t) (t_ne t)" using assms(1) by (simp add: dense_def)
  obtain a b c d q where ne: "t_ne t = [a, b, c, d]" and q: "0 \<le> q" "a = ?k * q" and ge: "1 \<le> b" "1 \<le> c" "1 \<le> d"
    and lt: "q * b * c * d * ?s < 2 ^ 64" and prod: "a * b * c * d = ?k * (q * b * c * d)"
    by (rule shape_cases[OF sh])
  have kpos: "0 < ?k" using sh by (simp add: shape_ok_def)
  have val: "ggml_nelements t div ?k = q * b * c * d"
    using kpos by (simp add: ggml_nelements_def ne prod mult.assoc q(2))
  show ?thesis
  proof (cases "q = 0")
    case True
    then have "\<exists>i \<in> set [0..<GGML_MAX_DIMS]. t_ne t ! i \<le> 0"
      using q by (intro bexI[of _ 0]) (simp_all add: ne GGML_MAX_DIMS_def)
    then show ?thesis using True val by (simp add: ggml_nbytes_def)
  next
    case False
    have apos: "0 < a" using False q kpos by simp
    have nbm: "map int (t_nb t) = [?s, ?s * q, ?s * q * b, ?s * q * b * c]"
      using assms(1) row_strides_eq[of "t_type t" a b c d q] q ge lt by (simp add: dense_def ne)
    then obtain n1 n2 n3 where nb: "t_nb t = [ggml_type_size (t_type t), n1, n2, n3]"
      "int n1 = ?s * q" "int n2 = ?s * q * b" "int n3 = ?s * q * b * c"
      by (auto simp: map_eq_Cons_conv)
    have row: "int (u64 (a * ?s) div ggml_blck_size (t_type t)) = ?s * q"
      using assms(2) ne apos q kpos by (simp add: u64_small zdiv_int)
    have "ggml_nbytes t = u64 (q * b * c * d * ?s)"
      using apos ge row q by (simp add: nbytes_unfold[OF ne nb(1)] nb(2-) algebra_simps del: of_nat_mult)
    moreover have "0 \<le> q * b * c * d * ?s" using q ge by simp
    ultimately show ?thesis using lt val by (simp add: u64_small)
  qed
qed

lemma dense_contiguous: "dense t \<Longrightarrow> ggml_is_contiguous t"
proof -
  assume d: "dense t"
  have sh: "shape_ok (t_type t) (t_ne t)" using d by (simp add: dense_def)
  obtain a b c d' where ne: "t_ne t = [a, b, c, d']" by (rule shape_cases[OF sh])
  have idx: "[1..<GGML_MAX_DIMS] = [1, 2, 3]" by (simp add: GGML_MAX_DIMS_def upt_rec)
  show ?thesis
    using d unfolding ggml_is_contiguous_def ggml_is_contiguous_n_def idx
    by (simp add: dense_def row_strides_def Let_def ne)
qed

text \<open>The size of a tensor is the number of its blocks times their size as long as the bytes of a row, counted as if
  every element took a block, do not overflow.\<close>

theorem ggml_nbytes_blocks:
  assumes "dense t" "t_ne t ! 0 * int (ggml_type_size (t_type t)) < 2 ^ 64"
  shows "int (ggml_nbytes t) = ggml_nelements t div int (ggml_blck_size (t_type t)) * int (ggml_type_size (t_type t))"
  using assms by (rule nbytes_dense)

definition ex_tensor :: "int \<Rightarrow> int list \<Rightarrow> ggml_tensor" where
  "ex_tensor type ne = \<lparr>t_name = str ''w'', t_type = type, t_ne = ne, t_nb = row_strides type ne, t_data = None\<rparr>"

lemmas ex_dense_simps = ex_tensor_def dense_def shape_ok_def GGML_TYPE_COUNT_def GGML_MAX_DIMS_def ggml_blck_size_def
  ggml_type_size_def type_traits_def INT64_MAX_def u64_def ggml_nelements_def

theorem ggml_nbytes_blocks_witness: "ggml_nbytes (ex_tensor 8 [64, 3, 1, 1]) = 204"
proof -
  have "dense (ex_tensor 8 [64, 3, 1, 1])" by (simp add: ex_dense_simps)
  then show ?thesis
    using ggml_nbytes_blocks[of "ex_tensor 8 [64, 3, 1, 1]"]
    by (simp add: ex_tensor_def ggml_nelements_def ggml_blck_size_def ggml_type_size_def type_traits_def)
qed

text \<open>The reader's own check admits larger rows, for which the size is wrong: a row of \<open>2 ^ 60\<close> elements of type Q8_0
  takes \<open>34 * 2 ^ 55\<close> bytes and is counted as \<open>2 ^ 56\<close>.\<close>

lemma ggml_nbytes_overflow:
  "dense (ex_tensor 8 [2 ^ 60, 1, 1, 1]) \<and> ggml_nbytes (ex_tensor 8 [2 ^ 60, 1, 1, 1]) = 2 ^ 56 \<and>
   ggml_nelements (ex_tensor 8 [2 ^ 60, 1, 1, 1]) div 32 * 34 = 17 * 2 ^ 56"
  by (simp add: nbytes_unfold[of _ "2 ^ 60" 1 1 1 34] ex_dense_simps row_strides_def)

end
