(* ===== verification/Gguf_Context.thy ===== *)
theory Gguf_Context
  imports Ggml_Tensor
begin

text \<open>
  The contents of a GGUF file in memory (\<^verbatim>\<open>gguf.cpp\<close>): typed key-value pairs and tensor descriptions, the
  functions that read them and those that change them. A value is kept as the bytes it has in memory; a call that fails an
  assertion ends in \<open>Abort\<close>. Keys are looked up as C strings. A \<^verbatim>\<open>gguf_kv\<close> keeps strings apart from all
  other values.
\<close>

section \<open>Types and values\<close>

datatype gguf_type =
    GGUF_TYPE_UINT8 | GGUF_TYPE_INT8 | GGUF_TYPE_UINT16 | GGUF_TYPE_INT16 | GGUF_TYPE_UINT32 | GGUF_TYPE_INT32
  | GGUF_TYPE_FLOAT32 | GGUF_TYPE_BOOL | GGUF_TYPE_STRING | GGUF_TYPE_ARRAY | GGUF_TYPE_UINT64 | GGUF_TYPE_INT64
  | GGUF_TYPE_FLOAT64

definition gguf_types :: "gguf_type list" where
  "gguf_types =
    [GGUF_TYPE_UINT8, GGUF_TYPE_INT8, GGUF_TYPE_UINT16, GGUF_TYPE_INT16, GGUF_TYPE_UINT32, GGUF_TYPE_INT32,
     GGUF_TYPE_FLOAT32, GGUF_TYPE_BOOL, GGUF_TYPE_STRING, GGUF_TYPE_ARRAY, GGUF_TYPE_UINT64, GGUF_TYPE_INT64,
     GGUF_TYPE_FLOAT64]"

fun gguf_type_size :: "gguf_type \<Rightarrow> nat" where
  "gguf_type_size GGUF_TYPE_UINT8 = 1"
| "gguf_type_size GGUF_TYPE_INT8 = 1"
| "gguf_type_size GGUF_TYPE_UINT16 = 2"
| "gguf_type_size GGUF_TYPE_INT16 = 2"
| "gguf_type_size GGUF_TYPE_UINT32 = 4"
| "gguf_type_size GGUF_TYPE_INT32 = 4"
| "gguf_type_size GGUF_TYPE_FLOAT32 = 4"
| "gguf_type_size GGUF_TYPE_BOOL = 1"
| "gguf_type_size GGUF_TYPE_STRING = 0"
| "gguf_type_size GGUF_TYPE_ARRAY = 0"
| "gguf_type_size GGUF_TYPE_UINT64 = 8"
| "gguf_type_size GGUF_TYPE_INT64 = 8"
| "gguf_type_size GGUF_TYPE_FLOAT64 = 8"

fun gguf_type_name :: "gguf_type \<Rightarrow> string" where
  "gguf_type_name GGUF_TYPE_UINT8 = ''u8''"
| "gguf_type_name GGUF_TYPE_INT8 = ''i8''"
| "gguf_type_name GGUF_TYPE_UINT16 = ''u16''"
| "gguf_type_name GGUF_TYPE_INT16 = ''i16''"
| "gguf_type_name GGUF_TYPE_UINT32 = ''u32''"
| "gguf_type_name GGUF_TYPE_INT32 = ''i32''"
| "gguf_type_name GGUF_TYPE_FLOAT32 = ''f32''"
| "gguf_type_name GGUF_TYPE_BOOL = ''bool''"
| "gguf_type_name GGUF_TYPE_STRING = ''str''"
| "gguf_type_name GGUF_TYPE_ARRAY = ''arr''"
| "gguf_type_name GGUF_TYPE_UINT64 = ''u64''"
| "gguf_type_name GGUF_TYPE_INT64 = ''i64''"
| "gguf_type_name GGUF_TYPE_FLOAT64 = ''f64''"

record gguf_kv =
  kv_key :: bytes
  kv_is_array :: bool
  kv_type :: gguf_type
  kv_bytes :: bytes
  kv_strings :: "bytes list"

text \<open>The four constructors: a value, an array, a string and an array of strings. Each asserts that the key is not
  empty.\<close>

definition gguf_kv_new :: "bytes \<Rightarrow> bool \<Rightarrow> gguf_type \<Rightarrow> bytes \<Rightarrow> bytes list \<Rightarrow> gguf_kv res" where
  "gguf_kv_new key is_array type bs ss =
    (if key = [] then Inl Abort
     else Inr \<lparr>kv_key = key, kv_is_array = is_array, kv_type = type, kv_bytes = bs, kv_strings = ss\<rparr>)"

definition get_ne :: "gguf_kv \<Rightarrow> nat res" where
  "get_ne kv =
    (if kv_type kv = GGUF_TYPE_STRING then
       (let ne = length (kv_strings kv) in if kv_is_array kv \<or> ne = 1 then Inr ne else Inl Abort)
     else
       (let type_size = gguf_type_size (kv_type kv) in
        if type_size = 0 then Inl Undefined
        else if length (kv_bytes kv) mod type_size \<noteq> 0 then Inl Abort
        else let ne = length (kv_bytes kv) div type_size in if kv_is_array kv \<or> ne = 1 then Inr ne else Inl Abort))"

definition get_val_str :: "gguf_kv \<Rightarrow> nat \<Rightarrow> bytes res" where
  "get_val_str kv i =
    (if kv_type kv \<noteq> GGUF_TYPE_STRING then Inl Abort
     else if length (kv_strings kv) < i + 1 then Inl Abort
     else Inr (kv_strings kv ! i))"

definition get_val :: "gguf_type \<Rightarrow> gguf_kv \<Rightarrow> nat \<Rightarrow> bytes res" where
  "get_val T kv i =
    (if T \<noteq> kv_type kv then Inl Abort
     else let type_size = gguf_type_size (kv_type kv) in
       if type_size = 0 then Inl Undefined
       else if length (kv_bytes kv) mod type_size \<noteq> 0 then Inl Abort
       else if length (kv_bytes kv) < (i + 1) * type_size then Inl Abort
       else Inr (take type_size (drop (i * type_size) (kv_bytes kv))))"

text \<open>A byte that is read as a \<^verbatim>\<open>bool\<close> must be 0 or 1.\<close>

definition as_bool :: "bytes \<Rightarrow> bool res" where
  "as_bool bs = (if bs = [0] then Inr False else if bs = [1] then Inr True else Inl Undefined)"

definition cast :: "gguf_type \<Rightarrow> gguf_kv \<Rightarrow> gguf_kv res" where
  "cast new_type kv =
    (let new_type_size = gguf_type_size new_type in
     if new_type_size = 0 then Inl Undefined
     else if length (kv_bytes kv) mod new_type_size \<noteq> 0 then Inl Abort
     else Inr (kv\<lparr>kv_type := new_type\<rparr>))"

record gguf_tensor_info =
  ti_t :: ggml_tensor
  ti_offset :: nat

record gguf_context =
  gg_version :: nat
  gg_kv :: "gguf_kv list"
  gg_info :: "gguf_tensor_info list"
  gg_alignment :: nat
  gg_offset :: nat
  gg_size :: nat

definition GGUF_VERSION :: nat where
  "GGUF_VERSION = 3"

definition GGUF_DEFAULT_ALIGNMENT :: nat where
  "GGUF_DEFAULT_ALIGNMENT = 32"

definition GGUF_KEY_GENERAL_ALIGNMENT :: bytes where
  "GGUF_KEY_GENERAL_ALIGNMENT = str ''general.alignment''"

definition gguf_init_empty :: gguf_context where
  "gguf_init_empty =
    \<lparr>gg_version = GGUF_VERSION, gg_kv = [], gg_info = [], gg_alignment = GGUF_DEFAULT_ALIGNMENT, gg_offset = 0, gg_size = 0\<rparr>"

section \<open>Reading key-value pairs\<close>

definition gguf_get_n_kv :: "gguf_context \<Rightarrow> int" where
  "gguf_get_n_kv ctx = int (length (gg_kv ctx))"

definition kv_at :: "gguf_context \<Rightarrow> int \<Rightarrow> gguf_kv res" where
  "kv_at ctx key_id = (if key_id \<ge> 0 \<and> key_id < gguf_get_n_kv ctx then Inr (gg_kv ctx ! nat key_id) else Inl Abort)"

definition gguf_get_key :: "gguf_context \<Rightarrow> int \<Rightarrow> bytes res" where
  "gguf_get_key ctx key_id = and_then (kv_at ctx key_id) (\<lambda>kv. Inr (cstr (kv_key kv)))"

fun index_from :: "int \<Rightarrow> ('a \<Rightarrow> bool) \<Rightarrow> 'a list \<Rightarrow> int" where
  "index_from i P [] = - 1"
| "index_from i P (x # xs) = (if P x then i else index_from (i + 1) P xs)"

definition gguf_find_key :: "gguf_context \<Rightarrow> bytes \<Rightarrow> int" where
  "gguf_find_key ctx key = index_from 0 (\<lambda>kv. cstr key = cstr (kv_key kv)) (gg_kv ctx)"

definition gguf_get_kv_type :: "gguf_context \<Rightarrow> int \<Rightarrow> gguf_type res" where
  "gguf_get_kv_type ctx key_id =
    and_then (kv_at ctx key_id) (\<lambda>kv. Inr (if kv_is_array kv then GGUF_TYPE_ARRAY else kv_type kv))"

definition gguf_get_arr_type :: "gguf_context \<Rightarrow> int \<Rightarrow> gguf_type res" where
  "gguf_get_arr_type ctx key_id =
    and_then (kv_at ctx key_id) (\<lambda>kv. if kv_is_array kv then Inr (kv_type kv) else Inl Abort)"

definition gguf_get_arr_data :: "gguf_context \<Rightarrow> int \<Rightarrow> bytes res" where
  "gguf_get_arr_data ctx key_id =
    and_then (kv_at ctx key_id) (\<lambda>kv. if kv_type kv = GGUF_TYPE_STRING then Inl Abort else Inr (kv_bytes kv))"

definition gguf_get_arr_str :: "gguf_context \<Rightarrow> int \<Rightarrow> nat \<Rightarrow> bytes res" where
  "gguf_get_arr_str ctx key_id i =
    and_then (kv_at ctx key_id) (\<lambda>kv.
      if kv_type kv \<noteq> GGUF_TYPE_STRING then Inl Abort
      else if i < length (kv_strings kv) then Inr (cstr (kv_strings kv ! i)) else Inl Undefined)"

definition gguf_get_arr_n :: "gguf_context \<Rightarrow> int \<Rightarrow> nat res" where
  "gguf_get_arr_n ctx key_id =
    and_then (kv_at ctx key_id) (\<lambda>kv.
      if kv_type kv = GGUF_TYPE_STRING then Inr (length (kv_strings kv))
      else let type_size = gguf_type_size (kv_type kv) in
        if type_size = 0 then Inl Undefined
        else if length (kv_bytes kv) mod type_size \<noteq> 0 then Inl Abort
        else Inr (length (kv_bytes kv) div type_size))"

text \<open>The accessors of one value: the key is there, the pair holds one element, and it has the type asked for.\<close>

definition gguf_get_val :: "gguf_type \<Rightarrow> gguf_context \<Rightarrow> int \<Rightarrow> bytes res" where
  "gguf_get_val T ctx key_id =
    and_then (kv_at ctx key_id) (\<lambda>kv.
      and_then (get_ne kv) (\<lambda>ne. if ne \<noteq> 1 then Inl Abort else get_val T kv 0))"

definition gguf_get_val_u8 :: "gguf_context \<Rightarrow> int \<Rightarrow> nat res" where
  "gguf_get_val_u8 ctx key_id = and_then (gguf_get_val GGUF_TYPE_UINT8 ctx key_id) (\<lambda>v. Inr (le_val v))"

definition gguf_get_val_i8 :: "gguf_context \<Rightarrow> int \<Rightarrow> int res" where
  "gguf_get_val_i8 ctx key_id = and_then (gguf_get_val GGUF_TYPE_INT8 ctx key_id) (\<lambda>v. Inr (signed_at 8 (le_val v)))"

definition gguf_get_val_u16 :: "gguf_context \<Rightarrow> int \<Rightarrow> nat res" where
  "gguf_get_val_u16 ctx key_id = and_then (gguf_get_val GGUF_TYPE_UINT16 ctx key_id) (\<lambda>v. Inr (le_val v))"

definition gguf_get_val_i16 :: "gguf_context \<Rightarrow> int \<Rightarrow> int res" where
  "gguf_get_val_i16 ctx key_id = and_then (gguf_get_val GGUF_TYPE_INT16 ctx key_id) (\<lambda>v. Inr (signed_at 16 (le_val v)))"

definition gguf_get_val_u32 :: "gguf_context \<Rightarrow> int \<Rightarrow> nat res" where
  "gguf_get_val_u32 ctx key_id = and_then (gguf_get_val GGUF_TYPE_UINT32 ctx key_id) (\<lambda>v. Inr (le_val v))"

definition gguf_get_val_i32 :: "gguf_context \<Rightarrow> int \<Rightarrow> int res" where
  "gguf_get_val_i32 ctx key_id = and_then (gguf_get_val GGUF_TYPE_INT32 ctx key_id) (\<lambda>v. Inr (signed_at 32 (le_val v)))"

definition gguf_get_val_f32 :: "gguf_context \<Rightarrow> int \<Rightarrow> bytes res" where
  "gguf_get_val_f32 ctx key_id = gguf_get_val GGUF_TYPE_FLOAT32 ctx key_id"

definition gguf_get_val_u64 :: "gguf_context \<Rightarrow> int \<Rightarrow> nat res" where
  "gguf_get_val_u64 ctx key_id = and_then (gguf_get_val GGUF_TYPE_UINT64 ctx key_id) (\<lambda>v. Inr (le_val v))"

definition gguf_get_val_i64 :: "gguf_context \<Rightarrow> int \<Rightarrow> int res" where
  "gguf_get_val_i64 ctx key_id = and_then (gguf_get_val GGUF_TYPE_INT64 ctx key_id) (\<lambda>v. Inr (signed_at 64 (le_val v)))"

definition gguf_get_val_f64 :: "gguf_context \<Rightarrow> int \<Rightarrow> bytes res" where
  "gguf_get_val_f64 ctx key_id = gguf_get_val GGUF_TYPE_FLOAT64 ctx key_id"

definition gguf_get_val_bool :: "gguf_context \<Rightarrow> int \<Rightarrow> bool res" where
  "gguf_get_val_bool ctx key_id = and_then (gguf_get_val GGUF_TYPE_BOOL ctx key_id) as_bool"

definition gguf_get_val_str :: "gguf_context \<Rightarrow> int \<Rightarrow> bytes res" where
  "gguf_get_val_str ctx key_id =
    and_then (kv_at ctx key_id) (\<lambda>kv.
      and_then (get_ne kv) (\<lambda>ne. if ne \<noteq> 1 then Inl Abort else and_then (get_val_str kv 0) (\<lambda>s. Inr (cstr s))))"

definition gguf_get_val_data :: "gguf_context \<Rightarrow> int \<Rightarrow> bytes res" where
  "gguf_get_val_data ctx key_id =
    and_then (kv_at ctx key_id) (\<lambda>kv.
      and_then (get_ne kv) (\<lambda>ne.
        if ne \<noteq> 1 then Inl Abort else if kv_type kv = GGUF_TYPE_STRING then Inl Abort else Inr (kv_bytes kv)))"

section \<open>Reading tensor descriptions\<close>

definition gguf_get_n_tensors :: "gguf_context \<Rightarrow> int" where
  "gguf_get_n_tensors ctx = int (length (gg_info ctx))"

definition gguf_find_tensor :: "gguf_context \<Rightarrow> bytes \<Rightarrow> int" where
  "gguf_find_tensor ctx name = index_from 0 (\<lambda>ti. cstr name = cstr (t_name (ti_t ti))) (gg_info ctx)"

definition info_at :: "gguf_context \<Rightarrow> int \<Rightarrow> gguf_tensor_info res" where
  "info_at ctx tensor_id =
    (if tensor_id \<ge> 0 \<and> tensor_id < gguf_get_n_tensors ctx then Inr (gg_info ctx ! nat tensor_id) else Inl Abort)"

definition gguf_get_tensor_offset :: "gguf_context \<Rightarrow> int \<Rightarrow> nat res" where
  "gguf_get_tensor_offset ctx tensor_id = and_then (info_at ctx tensor_id) (\<lambda>ti. Inr (ti_offset ti))"

definition gguf_get_tensor_name :: "gguf_context \<Rightarrow> int \<Rightarrow> bytes res" where
  "gguf_get_tensor_name ctx tensor_id = and_then (info_at ctx tensor_id) (\<lambda>ti. Inr (cstr (t_name (ti_t ti))))"

definition gguf_get_tensor_type :: "gguf_context \<Rightarrow> int \<Rightarrow> int res" where
  "gguf_get_tensor_type ctx tensor_id = and_then (info_at ctx tensor_id) (\<lambda>ti. Inr (t_type (ti_t ti)))"

definition gguf_get_tensor_size :: "gguf_context \<Rightarrow> int \<Rightarrow> nat res" where
  "gguf_get_tensor_size ctx tensor_id = and_then (info_at ctx tensor_id) (\<lambda>ti. Inr (ggml_nbytes (ti_t ti)))"

section \<open>Changing key-value pairs\<close>

definition remove_at :: "nat \<Rightarrow> 'a list \<Rightarrow> 'a list" where
  "remove_at i xs = take i xs @ drop (Suc i) xs"

definition gguf_remove_key :: "gguf_context \<Rightarrow> bytes \<Rightarrow> gguf_context \<times> int" where
  "gguf_remove_key ctx key =
    (let key_id = gguf_find_key ctx key in
     (if key_id \<ge> 0 then ctx\<lparr>gg_kv := remove_at (nat key_id) (gg_kv ctx)\<rparr> else ctx, key_id))"

text \<open>The alignment is reserved: it must be set as a \<^verbatim>\<open>uint32_t\<close> (\<open>Some\<close>) and be a power of two.\<close>

definition gguf_check_reserved_keys :: "bytes \<Rightarrow> nat option \<Rightarrow> unit res" where
  "gguf_check_reserved_keys key val =
    (if cstr key = GGUF_KEY_GENERAL_ALIGNMENT then
       (case val of
          Some v \<Rightarrow> if v > 0 \<and> (word_of_nat v AND (word_of_nat v - 1) :: 32 word) = 0 then Inr () else Inl Abort
        | None \<Rightarrow> Inl Abort)
     else Inr ())"

definition gguf_emplace :: "gguf_context \<Rightarrow> bytes \<Rightarrow> bool \<Rightarrow> gguf_type \<Rightarrow> bytes \<Rightarrow> bytes list \<Rightarrow> gguf_context res" where
  "gguf_emplace ctx key is_array type bs ss =
    and_then (gguf_kv_new (cstr key) is_array type bs ss) (\<lambda>kv. Inr (ctx\<lparr>gg_kv := gg_kv ctx @ [kv]\<rparr>))"

text \<open>What every setter does: the check, the removal of an earlier pair with this key, the new pair at the end.\<close>

definition gguf_set :: "gguf_context \<Rightarrow> bytes \<Rightarrow> nat option \<Rightarrow> bool \<Rightarrow> gguf_type \<Rightarrow> bytes \<Rightarrow> bytes list \<Rightarrow> gguf_context res" where
  "gguf_set ctx key val is_array type bs ss =
    and_then (gguf_check_reserved_keys key val) (\<lambda>_. gguf_emplace (fst (gguf_remove_key ctx key)) key is_array type bs ss)"

definition gguf_set_val_u8 :: "gguf_context \<Rightarrow> bytes \<Rightarrow> nat \<Rightarrow> gguf_context res" where
  "gguf_set_val_u8 ctx key val = gguf_set ctx key None False GGUF_TYPE_UINT8 (le_bytes 1 val) []"

definition gguf_set_val_i8 :: "gguf_context \<Rightarrow> bytes \<Rightarrow> int \<Rightarrow> gguf_context res" where
  "gguf_set_val_i8 ctx key val = gguf_set ctx key None False GGUF_TYPE_INT8 (le_bytes 1 (unsigned_at 8 val)) []"

definition gguf_set_val_u16 :: "gguf_context \<Rightarrow> bytes \<Rightarrow> nat \<Rightarrow> gguf_context res" where
  "gguf_set_val_u16 ctx key val = gguf_set ctx key None False GGUF_TYPE_UINT16 (le_bytes 2 val) []"

definition gguf_set_val_i16 :: "gguf_context \<Rightarrow> bytes \<Rightarrow> int \<Rightarrow> gguf_context res" where
  "gguf_set_val_i16 ctx key val = gguf_set ctx key None False GGUF_TYPE_INT16 (le_bytes 2 (unsigned_at 16 val)) []"

definition gguf_set_val_u32 :: "gguf_context \<Rightarrow> bytes \<Rightarrow> nat \<Rightarrow> gguf_context res" where
  "gguf_set_val_u32 ctx key val = gguf_set ctx key (Some val) False GGUF_TYPE_UINT32 (le_bytes 4 val) []"

definition gguf_set_val_i32 :: "gguf_context \<Rightarrow> bytes \<Rightarrow> int \<Rightarrow> gguf_context res" where
  "gguf_set_val_i32 ctx key val = gguf_set ctx key None False GGUF_TYPE_INT32 (le_bytes 4 (unsigned_at 32 val)) []"

definition gguf_set_val_f32 :: "gguf_context \<Rightarrow> bytes \<Rightarrow> bytes \<Rightarrow> gguf_context res" where
  "gguf_set_val_f32 ctx key val = gguf_set ctx key None False GGUF_TYPE_FLOAT32 val []"

definition gguf_set_val_u64 :: "gguf_context \<Rightarrow> bytes \<Rightarrow> nat \<Rightarrow> gguf_context res" where
  "gguf_set_val_u64 ctx key val = gguf_set ctx key None False GGUF_TYPE_UINT64 (le_bytes 8 val) []"

definition gguf_set_val_i64 :: "gguf_context \<Rightarrow> bytes \<Rightarrow> int \<Rightarrow> gguf_context res" where
  "gguf_set_val_i64 ctx key val = gguf_set ctx key None False GGUF_TYPE_INT64 (le_bytes 8 (unsigned_at 64 val)) []"

definition gguf_set_val_f64 :: "gguf_context \<Rightarrow> bytes \<Rightarrow> bytes \<Rightarrow> gguf_context res" where
  "gguf_set_val_f64 ctx key val = gguf_set ctx key None False GGUF_TYPE_FLOAT64 val []"

definition gguf_set_val_bool :: "gguf_context \<Rightarrow> bytes \<Rightarrow> bool \<Rightarrow> gguf_context res" where
  "gguf_set_val_bool ctx key val = gguf_set ctx key None False GGUF_TYPE_BOOL [if val then 1 else 0] []"

definition gguf_set_val_str :: "gguf_context \<Rightarrow> bytes \<Rightarrow> bytes \<Rightarrow> gguf_context res" where
  "gguf_set_val_str ctx key val = gguf_set ctx key None False GGUF_TYPE_STRING [] [cstr val]"

text \<open>An array of \<open>n\<close> elements from memory: it is made as an array of \<^verbatim>\<open>int8_t\<close> and then given its type.
  Reading past the end of the source has no meaning.\<close>

definition gguf_set_arr_data :: "gguf_context \<Rightarrow> bytes \<Rightarrow> gguf_type \<Rightarrow> bytes \<Rightarrow> nat \<Rightarrow> gguf_context res" where
  "gguf_set_arr_data ctx key type src n =
    and_then (gguf_check_reserved_keys key None) (\<lambda>_.
      let ctx1 = fst (gguf_remove_key ctx key); nbytes = u64 (int n * int (gguf_type_size type)) in
      if length src < nbytes then Inl Undefined
      else and_then (gguf_kv_new (cstr key) True GGUF_TYPE_INT8 (take nbytes src) []) (\<lambda>kv.
        and_then (cast type kv) (\<lambda>kv'. Inr (ctx1\<lparr>gg_kv := gg_kv ctx1 @ [kv']\<rparr>))))"

definition gguf_set_arr_str :: "gguf_context \<Rightarrow> bytes \<Rightarrow> bytes list \<Rightarrow> gguf_context res" where
  "gguf_set_arr_str ctx key src = gguf_set ctx key None True GGUF_TYPE_STRING [] (map cstr src)"

definition gguf_set_one :: "gguf_context \<Rightarrow> gguf_kv \<Rightarrow> gguf_context res" where
  "gguf_set_one ctx kv =
    (if \<not> kv_is_array kv then
       (case kv_type kv of
          GGUF_TYPE_UINT8 \<Rightarrow> and_then (get_val GGUF_TYPE_UINT8 kv 0) (\<lambda>v. gguf_set_val_u8 ctx (kv_key kv) (le_val v))
        | GGUF_TYPE_INT8 \<Rightarrow> and_then (get_val GGUF_TYPE_INT8 kv 0) (\<lambda>v. gguf_set_val_i8 ctx (kv_key kv) (signed_at 8 (le_val v)))
        | GGUF_TYPE_UINT16 \<Rightarrow> and_then (get_val GGUF_TYPE_UINT16 kv 0) (\<lambda>v. gguf_set_val_u16 ctx (kv_key kv) (le_val v))
        | GGUF_TYPE_INT16 \<Rightarrow> and_then (get_val GGUF_TYPE_INT16 kv 0) (\<lambda>v. gguf_set_val_i16 ctx (kv_key kv) (signed_at 16 (le_val v)))
        | GGUF_TYPE_UINT32 \<Rightarrow> and_then (get_val GGUF_TYPE_UINT32 kv 0) (\<lambda>v. gguf_set_val_u32 ctx (kv_key kv) (le_val v))
        | GGUF_TYPE_INT32 \<Rightarrow> and_then (get_val GGUF_TYPE_INT32 kv 0) (\<lambda>v. gguf_set_val_i32 ctx (kv_key kv) (signed_at 32 (le_val v)))
        | GGUF_TYPE_FLOAT32 \<Rightarrow> and_then (get_val GGUF_TYPE_FLOAT32 kv 0) (gguf_set_val_f32 ctx (kv_key kv))
        | GGUF_TYPE_UINT64 \<Rightarrow> and_then (get_val GGUF_TYPE_UINT64 kv 0) (\<lambda>v. gguf_set_val_u64 ctx (kv_key kv) (le_val v))
        | GGUF_TYPE_INT64 \<Rightarrow> and_then (get_val GGUF_TYPE_INT64 kv 0) (\<lambda>v. gguf_set_val_i64 ctx (kv_key kv) (signed_at 64 (le_val v)))
        | GGUF_TYPE_FLOAT64 \<Rightarrow> and_then (get_val GGUF_TYPE_FLOAT64 kv 0) (gguf_set_val_f64 ctx (kv_key kv))
        | GGUF_TYPE_BOOL \<Rightarrow> and_then (and_then (get_val GGUF_TYPE_BOOL kv 0) as_bool) (gguf_set_val_bool ctx (kv_key kv))
        | GGUF_TYPE_STRING \<Rightarrow> and_then (get_val_str kv 0) (gguf_set_val_str ctx (kv_key kv))
        | GGUF_TYPE_ARRAY \<Rightarrow> Inl Abort)
     else
       and_then (get_ne kv) (\<lambda>ne.
         case kv_type kv of
           GGUF_TYPE_STRING \<Rightarrow> gguf_set_arr_str ctx (kv_key kv) (kv_strings kv)
         | GGUF_TYPE_ARRAY \<Rightarrow> Inl Abort
         | T \<Rightarrow> gguf_set_arr_data ctx (kv_key kv) T (kv_bytes kv) ne))"

primrec gguf_set_all :: "gguf_context \<Rightarrow> gguf_kv list \<Rightarrow> gguf_context res" where
  "gguf_set_all ctx [] = Inr ctx"
| "gguf_set_all ctx (kv # kvs) = and_then (gguf_set_one ctx kv) (\<lambda>ctx'. gguf_set_all ctx' kvs)"

definition gguf_set_kv :: "gguf_context \<Rightarrow> gguf_context \<Rightarrow> gguf_context res" where
  "gguf_set_kv ctx src = gguf_set_all ctx (gg_kv src)"

section \<open>Changing tensor descriptions\<close>

definition next_offset :: "nat \<Rightarrow> gguf_tensor_info \<Rightarrow> nat" where
  "next_offset alignment ti = u64 (int (ti_offset ti + GGML_PAD (ggml_nbytes (ti_t ti)) alignment))"

definition gguf_add_tensor :: "gguf_context \<Rightarrow> ggml_tensor \<Rightarrow> gguf_context res" where
  "gguf_add_tensor ctx tensor =
    (if gguf_find_tensor ctx (t_name tensor) \<noteq> - 1 then Inl Abort
     else Inr (ctx\<lparr>gg_info := gg_info ctx @
       [\<lparr>ti_t = tensor,
         ti_offset = (if gg_info ctx = [] then 0 else next_offset (gg_alignment ctx) (last (gg_info ctx)))\<rparr>]\<rparr>))"

primrec update_offsets :: "nat \<Rightarrow> gguf_tensor_info \<Rightarrow> gguf_tensor_info list \<Rightarrow> gguf_tensor_info list" where
  "update_offsets alignment prev [] = []"
| "update_offsets alignment prev (ti # tis) =
    (let ti' = ti\<lparr>ti_offset := next_offset alignment prev\<rparr> in ti' # update_offsets alignment ti' tis)"

definition gguf_set_tensor_type :: "gguf_context \<Rightarrow> bytes \<Rightarrow> int \<Rightarrow> gguf_context res" where
  "gguf_set_tensor_type ctx name type =
    (let tensor_id = gguf_find_tensor ctx name in
     if tensor_id < 0 then Inl Abort
     else if type < 0 \<or> type \<ge> GGML_TYPE_COUNT then Inl Undefined
     else let i = nat tensor_id; ti = gg_info ctx ! i; tensor = ti_t ti in
       if ggml_blck_size type = 0 then Inl Undefined
       else if t_ne tensor ! 0 mod int (ggml_blck_size type) \<noteq> 0 then Inl Abort
       else let ti' = ti\<lparr>ti_t := tensor\<lparr>t_type := type, t_nb := row_strides type (t_ne tensor)\<rparr>\<rparr> in
         Inr (ctx\<lparr>gg_info := take i (gg_info ctx) @ ti' # update_offsets (gg_alignment ctx) ti' (drop (Suc i) (gg_info ctx))\<rparr>))"

definition gguf_set_tensor_data :: "gguf_context \<Rightarrow> bytes \<Rightarrow> bytes option \<Rightarrow> gguf_context res" where
  "gguf_set_tensor_data ctx name src =
    (let tensor_id = gguf_find_tensor ctx name in
     if tensor_id < 0 then Inl Abort
     else let i = nat tensor_id; ti = gg_info ctx ! i in
       Inr (ctx\<lparr>gg_info := (gg_info ctx)[i := ti\<lparr>ti_t := (ti_t ti)\<lparr>t_data := src\<rparr>\<rparr>]\<rparr>))"

section \<open>Well-formed pairs\<close>

definition GGUF_MAX_STRING_LENGTH :: nat where
  "GGUF_MAX_STRING_LENGTH = 1024 * 1024 * 1024"

definition GGUF_MAX_ARRAY_ELEMENTS :: nat where
  "GGUF_MAX_ARRAY_ELEMENTS = 1024 * 1024 * 1024"

text \<open>A pair as a file can hold it: the strings or the bytes are those of its type, one element unless it is an array,
  and within the limits of the format.\<close>

definition kv_ne :: "gguf_kv \<Rightarrow> nat" where
  "kv_ne kv = (if kv_type kv = GGUF_TYPE_STRING then length (kv_strings kv) else length (kv_bytes kv) div gguf_type_size (kv_type kv))"

definition kv_ok :: "gguf_kv \<Rightarrow> bool" where
  "kv_ok kv \<longleftrightarrow>
    kv_key kv \<noteq> [] \<and> length (kv_key kv) \<le> GGUF_MAX_STRING_LENGTH \<and> kv_type kv \<noteq> GGUF_TYPE_ARRAY \<and>
    kv_ne kv \<le> GGUF_MAX_ARRAY_ELEMENTS \<and> (kv_is_array kv \<or> kv_ne kv = 1) \<and>
    (if kv_type kv = GGUF_TYPE_STRING
     then kv_bytes kv = [] \<and> (\<forall>s \<in> set (kv_strings kv). length s \<le> GGUF_MAX_STRING_LENGTH)
     else kv_strings kv = [] \<and> length (kv_bytes kv) = kv_ne kv * gguf_type_size (kv_type kv) \<and>
       (kv_type kv = GGUF_TYPE_BOOL \<longrightarrow> set (kv_bytes kv) \<subseteq> {0, 1}))"

lemma gguf_type_size_pos: "gguf_type_size t = 0 \<longleftrightarrow> t = GGUF_TYPE_STRING \<or> t = GGUF_TYPE_ARRAY"
  by (cases t) auto

lemma kv_ok_type_size: "kv_ok kv \<Longrightarrow> kv_type kv \<noteq> GGUF_TYPE_STRING \<Longrightarrow> 0 < gguf_type_size (kv_type kv)"
  using gguf_type_size_pos[of "kv_type kv"] by (auto simp: kv_ok_def)

lemma get_ne_ok: "kv_ok kv \<Longrightarrow> get_ne kv = Inr (kv_ne kv)"
proof (cases "kv_type kv = GGUF_TYPE_STRING")
  case True
  then show "kv_ok kv \<Longrightarrow> ?thesis" by (auto simp: kv_ok_def get_ne_def kv_ne_def)
next
  case False
  assume ok: "kv_ok kv"
  then have "length (kv_bytes kv) = kv_ne kv * gguf_type_size (kv_type kv)" "kv_is_array kv \<or> kv_ne kv = 1"
    using False by (simp_all add: kv_ok_def)
  then show ?thesis using False kv_ok_type_size[OF ok False] by (auto simp: get_ne_def)
qed

section \<open>The pairs as a dictionary\<close>

type_synonym gguf_value = "bool \<times> gguf_type \<times> bytes \<times> bytes list"

definition kv_value :: "gguf_kv \<Rightarrow> gguf_value" where
  "kv_value kv = (kv_is_array kv, kv_type kv, kv_bytes kv, kv_strings kv)"

definition gguf_dict :: "gguf_context \<Rightarrow> bytes \<rightharpoonup> gguf_value" where
  "gguf_dict ctx = map_of (map (\<lambda>kv. (cstr (kv_key kv), kv_value kv)) (gg_kv ctx))"

definition keys_ok :: "gguf_context \<Rightarrow> bool" where
  "keys_ok ctx \<longleftrightarrow> distinct (map (\<lambda>kv. cstr (kv_key kv)) (gg_kv ctx))"

lemma cstr_cstr [simp]: "cstr (cstr s) = cstr s"
  by (simp add: cstr_def takeWhile_idem)

lemma index_from_cases:
  "(index_from k P xs = - 1 \<and> (\<forall>x \<in> set xs. \<not> P x)) \<or>
   (\<exists>i < length xs. index_from k P xs = k + int i \<and> P (xs ! i) \<and> (\<forall>j < i. \<not> P (xs ! j)))"
proof (induction xs arbitrary: k)
  case (Cons x xs)
  show ?case
  proof (cases "P x")
    case True
    then show ?thesis by auto
  next
    case False
    then show ?thesis using Cons[of "k + 1"]
    proof (elim disjE exE conjE, goal_cases)
      case (2 i)
      then show ?case using False by (intro disjI2 exI[of _ "Suc i"]) (auto simp: less_Suc_eq_0_disj)
    qed auto
  qed
qed simp

lemma find_key_None: "gguf_find_key ctx key = - 1 \<longleftrightarrow> gguf_dict ctx (cstr key) = None"
  using index_from_cases[of 0 "\<lambda>kv. cstr key = cstr (kv_key kv)" "gg_kv ctx"]
  by (auto simp: gguf_find_key_def gguf_dict_def map_of_eq_None_iff image_image intro!: image_eqI)

lemma find_key_Some:
  assumes "gguf_dict ctx (cstr key) = Some v"
  obtains i where "i < length (gg_kv ctx)" "gguf_find_key ctx key = int i" "cstr (kv_key (gg_kv ctx ! i)) = cstr key"
    "kv_value (gg_kv ctx ! i) = v" "\<forall>j < i. cstr (kv_key (gg_kv ctx ! j)) \<noteq> cstr key"
proof -
  let ?P = "\<lambda>kv. cstr key = cstr (kv_key kv)"
  have "gguf_find_key ctx key \<noteq> - 1" using assms find_key_None by auto
  then obtain i where i: "i < length (gg_kv ctx)" "gguf_find_key ctx key = int i" "?P (gg_kv ctx ! i)" "\<forall>j < i. \<not> ?P (gg_kv ctx ! j)"
    using index_from_cases[of 0 ?P "gg_kv ctx"] by (auto simp: gguf_find_key_def)
  have split: "gg_kv ctx = take i (gg_kv ctx) @ gg_kv ctx ! i # drop (Suc i) (gg_kv ctx)" using i(1) by (simp add: id_take_nth_drop)
  have "map_of (map (\<lambda>kv. (cstr (kv_key kv), kv_value kv)) (take i (gg_kv ctx))) (cstr key) = None"
    using i(4) unfolding map_of_eq_None_iff by (auto simp: in_set_conv_nth) metis
  then have "gguf_dict ctx (cstr key) = Some (kv_value (gg_kv ctx ! i))"
    unfolding gguf_dict_def by (subst split) (simp add: i(3) map_add_def)
  then have "kv_value (gg_kv ctx ! i) = v" using assms by simp
  moreover have "cstr (kv_key (gg_kv ctx ! i)) = cstr key" "\<forall>j < i. cstr (kv_key (gg_kv ctx ! j)) \<noteq> cstr key"
    using i by auto
  ultimately show thesis using i(1,2) that by blast
qed

text \<open>Removing a pair and adding one, on the dictionary.\<close>

lemma remove_key_dict:
  assumes "keys_ok ctx"
  shows "gguf_dict (fst (gguf_remove_key ctx key)) = (gguf_dict ctx)(cstr key := None)"
    and "keys_ok (fst (gguf_remove_key ctx key))" "gg_info (fst (gguf_remove_key ctx key)) = gg_info ctx"
    "gg_alignment (fst (gguf_remove_key ctx key)) = gg_alignment ctx"
proof -
  let ?p = "\<lambda>kv. (cstr (kv_key kv), kv_value kv)" and ?k = "\<lambda>kv. cstr (kv_key kv)"
  have "gguf_dict (fst (gguf_remove_key ctx key)) = (gguf_dict ctx)(cstr key := None) \<and> keys_ok (fst (gguf_remove_key ctx key))"
  proof (cases "gguf_dict ctx (cstr key)")
    case None
    then show ?thesis using assms find_key_None[of ctx key] by (auto simp: gguf_remove_key_def)
  next
    case (Some v)
    obtain i where i: "i < length (gg_kv ctx)" "gguf_find_key ctx key = int i" "?k (gg_kv ctx ! i) = cstr key"
      by (rule find_key_Some[OF Some])
    define xs y zs where "xs = take i (gg_kv ctx)" and "y = gg_kv ctx ! i" and "zs = drop (Suc i) (gg_kv ctx)"
    have kv: "gg_kv ctx = xs @ y # zs" using i(1) by (simp add: xs_def y_def zs_def id_take_nth_drop)
    have kv': "gg_kv (fst (gguf_remove_key ctx key)) = xs @ zs"
      using i(2) by (simp add: gguf_remove_key_def remove_at_def xs_def zs_def Let_def)
    have d: "distinct (map ?k (xs @ y # zs))" using assms unfolding keys_ok_def kv .
    have y: "?k y = cstr key" using i(3) unfolding y_def .
    have "cstr key \<notin> fst ` set (map ?p xs)" "cstr key \<notin> fst ` set (map ?p zs)" using d y by (auto simp: image_image)
    then have "map_of (map ?p xs) (cstr key) = None" "map_of (map ?p zs) (cstr key) = None"
      by (simp_all only: map_of_eq_None_iff not_False_eq_True)
    then have "map_of (map ?p (xs @ zs)) = (map_of (map ?p (xs @ y # zs)))(cstr key := None)"
      unfolding map_append list.map map_of_append map_of.simps fst_conv snd_conv y map_add_def
      by (auto simp only: fun_eq_iff fun_upd_apply split: option.splits if_splits)
    then show ?thesis using d kv kv' by (simp add: gguf_dict_def keys_ok_def)
  qed
  then show "gguf_dict (fst (gguf_remove_key ctx key)) = (gguf_dict ctx)(cstr key := None)"
    "keys_ok (fst (gguf_remove_key ctx key))" by blast+
qed (simp_all add: gguf_remove_key_def Let_def)

lemma emplace_dict:
  assumes "keys_ok ctx" "gguf_dict ctx (cstr key) = None" "gguf_emplace ctx key is_array type bs ss = Inr ctx'"
  shows "keys_ok ctx'" "gguf_dict ctx' = (gguf_dict ctx)(cstr key \<mapsto> (is_array, type, bs, ss))"
    "gg_info ctx' = gg_info ctx" "gg_alignment ctx' = gg_alignment ctx" "cstr key \<noteq> []"
proof -
  let ?p = "\<lambda>kv. (cstr (kv_key kv), kv_value kv)"
  have new: "cstr key \<noteq> []" and kv: "ctx' = ctx\<lparr>gg_kv := gg_kv ctx @
      [\<lparr>kv_key = cstr key, kv_is_array = is_array, kv_type = type, kv_bytes = bs, kv_strings = ss\<rparr>]\<rparr>"
    using assms(3) by (auto simp: gguf_emplace_def gguf_kv_new_def split: if_splits)
  have "cstr key \<notin> fst ` set (map ?p (gg_kv ctx))" using assms(2) unfolding gguf_dict_def map_of_eq_None_iff .
  then show "keys_ok ctx'" using assms(1) kv by (auto simp: keys_ok_def image_image)
  show "gguf_dict ctx' = (gguf_dict ctx)(cstr key \<mapsto> (is_array, type, bs, ss))"
    using assms(2) kv by (auto simp: gguf_dict_def fun_eq_iff map_add_def kv_value_def split: option.splits)
  show "gg_info ctx' = gg_info ctx" "gg_alignment ctx' = gg_alignment ctx" "cstr key \<noteq> []" using kv new by simp_all
qed

lemma set_dict:
  assumes "keys_ok ctx" "gguf_set ctx key val is_array type bs ss = Inr ctx'"
  shows "keys_ok ctx'" "gguf_dict ctx' = (gguf_dict ctx)(cstr key \<mapsto> (is_array, type, bs, ss))"
    "gg_info ctx' = gg_info ctx" "gg_alignment ctx' = gg_alignment ctx"
proof -
  let ?c = "fst (gguf_remove_key ctx key)"
  have e: "gguf_emplace ?c key is_array type bs ss = Inr ctx'" using assms(2) by (auto simp: gguf_set_def and_then_Inr)
  have "gguf_dict ?c (cstr key) = None" by (simp add: remove_key_dict(1)[OF assms(1)])
  note e = emplace_dict[OF remove_key_dict(2)[OF assms(1)] this e]
  show "keys_ok ctx'" "gguf_dict ctx' = (gguf_dict ctx)(cstr key \<mapsto> (is_array, type, bs, ss))"
    "gg_info ctx' = gg_info ctx" "gg_alignment ctx' = gg_alignment ctx"
    using e remove_key_dict[OF assms(1)] by simp_all
qed

section \<open>What a store of pairs promises\<close>

lemma map_of_rev_distinct: "distinct (map fst xs) \<Longrightarrow> map_of (rev xs) = map_of xs"
proof (induction xs)
  case (Cons x xs)
  then have "map_of xs (fst x) = None" unfolding map_of_eq_None_iff by auto
  then show ?case using Cons by (auto simp: fun_eq_iff map_add_def split: option.splits)
qed simp

text \<open>A client that only puts values under keys sees a dictionary. Keys that \<open>norm\<close> identifies are one key, and a
  loop of puts overrides what was there, later puts first.\<close>

primrec put_all :: "('s \<Rightarrow> 'k \<Rightarrow> 'v \<Rightarrow> 's res) \<Rightarrow> 's \<Rightarrow> ('k \<times> 'v) list \<Rightarrow> 's res" where
  "put_all put s [] = Inr s"
| "put_all put s (e # es) = and_then (put s (fst e) (snd e)) (\<lambda>s'. put_all put s' es)"

locale key_store =
  fixes inv :: "'s \<Rightarrow> bool" and contents :: "'s \<Rightarrow> 'k \<rightharpoonup> 'v" and norm :: "'k \<Rightarrow> 'k"
    and put :: "'s \<Rightarrow> 'k \<Rightarrow> 'v \<Rightarrow> 's res"
  assumes put_inv: "inv s \<Longrightarrow> put s k v = Inr s' \<Longrightarrow> inv s'"
    and put_contents: "inv s \<Longrightarrow> put s k v = Inr s' \<Longrightarrow> contents s' = (contents s)(norm k \<mapsto> v)"
begin

lemma put_all_contents:
  "inv s \<Longrightarrow> put_all put s es = Inr s' \<Longrightarrow>
   inv s' \<and> contents s' = contents s ++ map_of (rev (map (\<lambda>(k, v). (norm k, v)) es))"
proof (induction es arbitrary: s)
  case (Cons e es)
  obtain k v where e: "e = (k, v)" by (cases e)
  obtain s1 where s1: "put s k v = Inr s1" "put_all put s1 es = Inr s'" using Cons.prems(2) e by (auto simp: and_then_Inr)
  show ?case
    using Cons.IH[OF put_inv[OF Cons.prems(1) s1(1)] s1(2)] put_contents[OF Cons.prems(1) s1(1)]
    by (simp add: e fun_eq_iff map_add_def split: option.splits)
qed simp

lemma put_all_distinct:
  assumes "inv s" "put_all put s es = Inr s'" "distinct (map (\<lambda>(k, v). norm k) es)"
  shows "contents s' = contents s ++ map_of (map (\<lambda>(k, v). (norm k, v)) es)"
proof -
  have "distinct (map fst (map (\<lambda>(k, v). (norm k, v)) es))" using assms(3) by (simp add: comp_def split_def)
  then show ?thesis using put_all_contents[OF assms(1,2)] map_of_rev_distinct by fastforce
qed

end

definition gguf_put :: "gguf_context \<Rightarrow> bytes \<Rightarrow> gguf_value \<Rightarrow> gguf_context res" where
  "gguf_put ctx key v =
    (case v of (is_array, type, bs, ss) \<Rightarrow>
       gguf_set ctx key (if type = GGUF_TYPE_UINT32 \<and> \<not> is_array then Some (le_val bs) else None) is_array type bs ss)"

interpretation kvs: key_store keys_ok gguf_dict cstr gguf_put
  by unfold_locales (auto simp: gguf_put_def set_dict split: prod.splits)

lemma one_byte: "length bs = 1 \<Longrightarrow> bs = [hd bs]"
  by (cases bs) auto

lemma as_bool_ok: "length bs = 1 \<Longrightarrow> set bs \<subseteq> {0, 1} \<Longrightarrow> \<exists>b. as_bool bs = Inr b \<and> [if b then 1 else 0] = bs"
  by (cases bs) (auto simp: as_bool_def)

text \<open>Copying a well-formed pair puts its value, with its strings cut at a zero byte.\<close>

definition kv_copied :: "gguf_kv \<Rightarrow> gguf_value" where
  "kv_copied kv = (kv_is_array kv, kv_type kv, kv_bytes kv, map cstr (kv_strings kv))"

lemma set_one_array:
  assumes "kv_ok kv" and arr: "kv_is_array kv"
  shows "gguf_set_one ctx kv = gguf_put ctx (kv_key kv) (kv_copied kv)"
proof -
  show ?thesis
  proof (cases "kv_type kv = GGUF_TYPE_STRING")
    case True
    then show ?thesis
      using arr get_ne_ok[OF assms(1)] assms by (simp add: gguf_set_one_def gguf_set_arr_str_def gguf_put_def kv_copied_def kv_ok_def)
  next
    case False
    have len: "length (kv_bytes kv) = kv_ne kv * gguf_type_size (kv_type kv)" "kv_ne kv \<le> GGUF_MAX_ARRAY_ELEMENTS"
      "kv_type kv \<noteq> GGUF_TYPE_ARRAY" "kv_strings kv = []"
      using assms False by (auto simp: kv_ok_def)
    have "gguf_type_size (kv_type kv) \<le> 8" by (cases "kv_type kv") auto
    then have "kv_ne kv * gguf_type_size (kv_type kv) \<le> 1073741824 * 8"
      using len(2) by (intro mult_mono) (auto simp: GGUF_MAX_ARRAY_ELEMENTS_def)
    then have "u64 (int (kv_ne kv) * int (gguf_type_size (kv_type kv))) = length (kv_bytes kv)"
      unfolding of_nat_mult[symmetric] len(1) by (intro u64_nat) simp
    then have "gguf_set_arr_data ctx (kv_key kv) (kv_type kv) (kv_bytes kv) (kv_ne kv) =
        gguf_set ctx (kv_key kv) None True (kv_type kv) (kv_bytes kv) []"
      using len kv_ok_type_size[OF assms(1) False]
      by (auto simp: gguf_set_arr_data_def gguf_set_def gguf_emplace_def gguf_kv_new_def cast_def Let_def intro!: arg_cong2[where f = and_then])
    then show ?thesis using arr False get_ne_ok[OF assms(1)] len
      by (cases "kv_type kv") (simp_all add: gguf_set_one_def gguf_put_def kv_copied_def)
  qed
qed

lemmas setter_defs = gguf_set_val_u8_def gguf_set_val_i8_def gguf_set_val_u16_def gguf_set_val_i16_def gguf_set_val_u32_def
  gguf_set_val_i32_def gguf_set_val_f32_def gguf_set_val_u64_def gguf_set_val_i64_def gguf_set_val_f64_def

lemma set_one_value:
  assumes "kv_ok kv" and False: "\<not> kv_is_array kv"
  shows "gguf_set_one ctx kv = gguf_put ctx (kv_key kv) (kv_copied kv)"
proof -
  show ?thesis
  proof (cases "kv_type kv = GGUF_TYPE_STRING")
    case True
    then obtain s where "kv_strings kv = [s]" using assms False by (auto simp: kv_ok_def kv_ne_def length_Suc_conv)
    then show ?thesis using True False assms by (simp add: gguf_set_one_def get_val_str_def gguf_set_val_str_def gguf_put_def kv_copied_def kv_ok_def)
  next
    case ns: False
    have len: "length (kv_bytes kv) = gguf_type_size (kv_type kv)" "kv_type kv \<noteq> GGUF_TYPE_ARRAY" "kv_strings kv = []"
      using assms False ns by (auto simp: kv_ok_def)
    have val: "get_val (kv_type kv) kv 0 = Inr (kv_bytes kv)"
      using len kv_ok_type_size[OF assms(1) ns] by (simp add: get_val_def)
    show ?thesis
    proof (cases "kv_type kv = GGUF_TYPE_BOOL")
      case True
      have "length (kv_bytes kv) = 1" "set (kv_bytes kv) \<subseteq> {0, 1}" using True len assms(1) by (simp_all add: kv_ok_def)
      then obtain b where b: "as_bool (kv_bytes kv) = Inr b" "kv_bytes kv = [if b then 1 else 0]"
        using as_bool_ok[of "kv_bytes kv"] by metis
      then show ?thesis using True False val[unfolded True] len by (simp add: gguf_set_one_def gguf_put_def kv_copied_def gguf_set_val_bool_def)
    next
      case nb: False
      define k where "k = gguf_type_size (kv_type kv)"
      have us: "le_bytes k (le_val (kv_bytes kv)) = kv_bytes kv" using len by (simp add: le_bytes_of_le_val k_def)
      have sg: "le_bytes k (unsigned_at (8 * k) (signed_at (8 * k) (le_val (kv_bytes kv)))) = kv_bytes kv"
        using len kv_ok_type_size[OF assms(1) ns] le_bytes_signed[of "kv_bytes kv" "k - 1"] by (simp add: k_def)
      show ?thesis using False ns nb val us sg len
        by (cases "kv_type kv")
          (simp_all add: k_def gguf_set_one_def gguf_put_def kv_copied_def setter_defs del: le_bytes.simps)
    qed
  qed
qed

lemma set_all_eq:
  "\<forall>kv \<in> set kvs. kv_ok kv \<Longrightarrow> gguf_set_all ctx kvs = put_all gguf_put ctx (map (\<lambda>kv. (kv_key kv, kv_copied kv)) kvs)"
proof (induction kvs arbitrary: ctx)
  case (Cons kv kvs)
  have "gguf_set_one ctx kv = gguf_put ctx (kv_key kv) (kv_copied kv)"
    using Cons.prems set_one_array[of kv ctx] set_one_value[of kv ctx] by (cases "kv_is_array kv") auto
  then show ?case using Cons by simp
qed simp

text \<open>Which puts are refused does not depend on the context.\<close>

definition put_ok :: "bytes \<Rightarrow> gguf_value \<Rightarrow> bool" where
  "put_ok key v \<longleftrightarrow> cstr key \<noteq> [] \<and>
    (case v of (is_array, type, bs, ss) \<Rightarrow>
       gguf_check_reserved_keys key (if type = GGUF_TYPE_UINT32 \<and> \<not> is_array then Some (le_val bs) else None) = Inr ())"

lemma put_succeeds: "put_ok key v \<Longrightarrow> \<exists>ctx'. gguf_put ctx key v = Inr ctx' \<and> gg_info ctx' = gg_info ctx \<and> gg_alignment ctx' = gg_alignment ctx"
  by (auto simp: put_ok_def gguf_put_def gguf_set_def gguf_emplace_def gguf_kv_new_def gguf_remove_key_def Let_def split: prod.splits)

lemma put_all_succeeds:
  "\<forall>e \<in> set es. put_ok (fst e) (snd e) \<Longrightarrow>
   \<exists>ctx'. put_all gguf_put ctx es = Inr ctx' \<and> gg_info ctx' = gg_info ctx \<and> gg_alignment ctx' = gg_alignment ctx"
proof (induction es arbitrary: ctx)
  case (Cons e es)
  then obtain c where c: "gguf_put ctx (fst e) (snd e) = Inr c" "gg_info c = gg_info ctx" "gg_alignment c = gg_alignment ctx"
    using put_succeeds[of "fst e" "snd e" ctx] by auto
  then show ?case using Cons.IH[of c] Cons.prems by simp
qed simp

text \<open>C29. Copying the pairs of one context into another overrides those that have the same key and keeps the rest. The
  tensors and the alignment are not touched, not even by a pair that says what the alignment is.\<close>

theorem gguf_set_kv_merges:
  assumes "keys_ok ctx" "keys_ok src" "\<forall>kv \<in> set (gg_kv src). kv_ok kv \<and> put_ok (kv_key kv) (kv_copied kv)"
  shows "\<exists>ctx'. gguf_set_kv ctx src = Inr ctx' \<and> keys_ok ctx' \<and> gg_info ctx' = gg_info ctx \<and> gg_alignment ctx' = gg_alignment ctx \<and>
    gguf_dict ctx' = gguf_dict ctx ++ map_of (map (\<lambda>kv. (cstr (kv_key kv), kv_copied kv)) (gg_kv src))"
proof -
  let ?es = "map (\<lambda>kv. (kv_key kv, kv_copied kv)) (gg_kv src)"
  obtain c where c: "put_all gguf_put ctx ?es = Inr c" "gg_info c = gg_info ctx" "gg_alignment c = gg_alignment ctx"
    using put_all_succeeds[of ?es ctx] assms(3) by auto
  have "gguf_set_kv ctx src = Inr c" using set_all_eq[of "gg_kv src" ctx] assms(3) c(1) by (simp add: gguf_set_kv_def)
  moreover have "distinct (map (\<lambda>(k, v). cstr k) ?es)" using assms(2) by (simp add: keys_ok_def comp_def)
  then have "gguf_dict c = gguf_dict ctx ++ map_of (map (\<lambda>(k, v). (cstr k, v)) ?es)"
    by (rule kvs.put_all_distinct[OF assms(1) c(1)])
  ultimately show ?thesis using c kvs.put_all_contents[OF assms(1) c(1)] by (simp add: comp_def)
qed

lemma set_found:
  assumes "keys_ok ctx" "cstr key \<noteq> []" "cstr key \<noteq> GGUF_KEY_GENERAL_ALIGNMENT"
  obtains c i where "gguf_set ctx key val is_array type bs ss = Inr c" "gguf_find_key c key = int i"
    "kv_at c (int i) = Inr (gg_kv c ! i)" "kv_is_array (gg_kv c ! i) = is_array" "kv_type (gg_kv c ! i) = type"
    "kv_bytes (gg_kv c ! i) = bs" "kv_strings (gg_kv c ! i) = ss"
proof -
  obtain c where c: "gguf_set ctx key val is_array type bs ss = Inr c"
    using assms(2,3) by (auto simp: gguf_set_def gguf_check_reserved_keys_def gguf_emplace_def gguf_kv_new_def)
  have "gguf_dict c (cstr key) = Some (is_array, type, bs, ss)" by (simp add: set_dict(2)[OF assms(1) c])
  then obtain i where "i < length (gg_kv c)" "gguf_find_key c key = int i" "kv_value (gg_kv c ! i) = (is_array, type, bs, ss)"
    by (rule find_key_Some)
  then show thesis using c that[of c i] by (simp add: kv_value_def kv_at_def gguf_get_n_kv_def)
qed

lemma set_get_bytes:
  assumes "keys_ok ctx" "cstr key \<noteq> []" "cstr key \<noteq> GGUF_KEY_GENERAL_ALIGNMENT"
    "length bs = gguf_type_size type" "0 < gguf_type_size type"
  obtains c where "gguf_set ctx key val False type bs [] = Inr c" "gguf_get_val type c (gguf_find_key c key) = Inr bs"
proof -
  have "type \<noteq> GGUF_TYPE_STRING" using assms(5) by auto
  moreover obtain c i where "gguf_set ctx key val False type bs [] = Inr c" "gguf_find_key c key = int i"
    "kv_at c (int i) = Inr (gg_kv c ! i)" "kv_is_array (gg_kv c ! i) = False" "kv_type (gg_kv c ! i) = type"
    "kv_bytes (gg_kv c ! i) = bs" by (rule set_found[OF assms(1-3)])
  ultimately show thesis using assms(4,5) that[of c] by (simp add: gguf_get_val_def get_ne_def get_val_def)
qed

text \<open>What is set is what is found, for an unsigned and a signed number, a boolean and a string, which ends at its first
  zero byte. The key must not be empty and not be the reserved one.\<close>

theorem gguf_set_get:
  assumes "keys_ok ctx" "cstr key \<noteq> []" "cstr key \<noteq> GGUF_KEY_GENERAL_ALIGNMENT"
    and "v < 2 ^ 32" "- (2 ^ 63) \<le> x" "x < 2 ^ 63"
  shows "(\<exists>c. gguf_set_val_u32 ctx key v = Inr c \<and> gguf_get_val_u32 c (gguf_find_key c key) = Inr v) \<and>
    (\<exists>c. gguf_set_val_i64 ctx key x = Inr c \<and> gguf_get_val_i64 c (gguf_find_key c key) = Inr x) \<and>
    (\<exists>c. gguf_set_val_bool ctx key b = Inr c \<and> gguf_get_val_bool c (gguf_find_key c key) = Inr b) \<and>
    (\<exists>c. gguf_set_val_str ctx key s = Inr c \<and> gguf_get_val_str c (gguf_find_key c key) = Inr (cstr s))"
proof (intro conjI)
  obtain c where "gguf_set ctx key (Some v) False GGUF_TYPE_UINT32 (le_bytes 4 v) [] = Inr c"
    "gguf_get_val GGUF_TYPE_UINT32 c (gguf_find_key c key) = Inr (le_bytes 4 v)"
    by (rule set_get_bytes[OF assms(1-3), of "le_bytes 4 v" GGUF_TYPE_UINT32 "Some v"]) simp_all
  then show "\<exists>c. gguf_set_val_u32 ctx key v = Inr c \<and> gguf_get_val_u32 c (gguf_find_key c key) = Inr v"
    using assms(4) by (simp add: gguf_set_val_u32_def gguf_get_val_u32_def le_val_le_bytes)
  obtain c where "gguf_set ctx key None False GGUF_TYPE_INT64 (le_bytes 8 (unsigned_at 64 x)) [] = Inr c"
    "gguf_get_val GGUF_TYPE_INT64 c (gguf_find_key c key) = Inr (le_bytes 8 (unsigned_at 64 x))"
    by (rule set_get_bytes[OF assms(1-3), of "le_bytes 8 (unsigned_at 64 x)" GGUF_TYPE_INT64 "None"]) simp_all
  then show "\<exists>c. gguf_set_val_i64 ctx key x = Inr c \<and> gguf_get_val_i64 c (gguf_find_key c key) = Inr x"
    using assms(5,6) signed_unsigned[of 64 x] unsigned_at_less[of 64 x]
    by (simp add: gguf_set_val_i64_def gguf_get_val_i64_def le_val_le_bytes)
  obtain c where "gguf_set ctx key None False GGUF_TYPE_BOOL [if b then 1 else 0] [] = Inr c"
    "gguf_get_val GGUF_TYPE_BOOL c (gguf_find_key c key) = Inr [if b then 1 else 0]"
    by (rule set_get_bytes[OF assms(1-3), of "[if b then 1 else 0]" GGUF_TYPE_BOOL "None"]) simp_all
  then show "\<exists>c. gguf_set_val_bool ctx key b = Inr c \<and> gguf_get_val_bool c (gguf_find_key c key) = Inr b"
    by (cases b) (simp_all add: gguf_set_val_bool_def gguf_get_val_bool_def as_bool_def)
  obtain c i where "gguf_set ctx key None False GGUF_TYPE_STRING [] [cstr s] = Inr c" "gguf_find_key c key = int i"
    "kv_at c (int i) = Inr (gg_kv c ! i)" "kv_is_array (gg_kv c ! i) = False" "kv_type (gg_kv c ! i) = GGUF_TYPE_STRING"
    "kv_bytes (gg_kv c ! i) = []" "kv_strings (gg_kv c ! i) = [cstr s]" by (rule set_found[OF assms(1-3)])
  then show "\<exists>c. gguf_set_val_str ctx key s = Inr c \<and> gguf_get_val_str c (gguf_find_key c key) = Inr (cstr s)"
    by (simp add: gguf_set_val_str_def gguf_get_val_str_def get_ne_def get_val_str_def)
qed

section \<open>Tensor offsets\<close>

text \<open>The data of the tensors follows one another, each padded to the alignment.\<close>

fun offsets_from :: "nat \<Rightarrow> nat \<Rightarrow> gguf_tensor_info list \<Rightarrow> bool" where
  "offsets_from alignment off [] \<longleftrightarrow> True"
| "offsets_from alignment off (ti # tis) \<longleftrightarrow> ti_offset ti = off \<and> offsets_from alignment (next_offset alignment ti) tis"

definition offsets_ok :: "gguf_context \<Rightarrow> bool" where
  "offsets_ok ctx \<longleftrightarrow> offsets_from (gg_alignment ctx) 0 (gg_info ctx)"

lemma offsets_from_append:
  "offsets_from a off (xs @ ys) \<longleftrightarrow> offsets_from a off xs \<and> offsets_from a (if xs = [] then off else next_offset a (last xs)) ys"
  by (induction xs arbitrary: off) auto

lemma offsets_from_update: "offsets_from a (next_offset a prev) (update_offsets a prev tis)"
  by (induction tis arbitrary: prev) (auto simp: Let_def)

lemma offsets_from_same: "next_offset a ti' = next_offset a ti \<Longrightarrow> ti_offset ti' = ti_offset ti \<Longrightarrow> i < length tis \<Longrightarrow> tis ! i = ti \<Longrightarrow>
  offsets_from a off (tis[i := ti']) = offsets_from a off tis"
  by (induction tis arbitrary: i off) (auto split: nat.splits)

lemma find_tensor_cases:
  assumes "\<not> gguf_find_tensor ctx name < 0"
  obtains i where "gguf_find_tensor ctx name = int i" "i < length (gg_info ctx)"
  using assms index_from_cases[of 0 "\<lambda>ti. cstr name = cstr (t_name (ti_t ti))" "gg_info ctx"] by (auto simp: gguf_find_tensor_def)

lemma add_tensor_offsets: "offsets_ok ctx \<Longrightarrow> gguf_add_tensor ctx t = Inr ctx' \<Longrightarrow> offsets_ok ctx'"
  by (auto simp: gguf_add_tensor_def offsets_ok_def offsets_from_append split: if_splits)

lemma set_tensor_data_offsets: "offsets_ok ctx \<Longrightarrow> gguf_set_tensor_data ctx name src = Inr ctx' \<Longrightarrow> offsets_ok ctx'"
proof -
  assume ok: "offsets_ok ctx" and set: "gguf_set_tensor_data ctx name src = Inr ctx'"
  then have nn: "\<not> gguf_find_tensor ctx name < 0" by (auto simp: gguf_set_tensor_data_def Let_def split: if_splits)
  obtain i where i: "gguf_find_tensor ctx name = int i" "i < length (gg_info ctx)" by (rule find_tensor_cases[OF nn])
  then show ?thesis using ok set
    by (auto simp: gguf_set_tensor_data_def Let_def offsets_ok_def next_offset_def ggml_nbytes_def
      offsets_from_same[of _ _ "gg_info ctx ! i"])
qed

lemma set_tensor_type_offsets: "offsets_ok ctx \<Longrightarrow> gguf_set_tensor_type ctx name type = Inr ctx' \<Longrightarrow> offsets_ok ctx'"
proof -
  assume ok: "offsets_ok ctx" and set: "gguf_set_tensor_type ctx name type = Inr ctx'"
  then have nn: "\<not> gguf_find_tensor ctx name < 0" by (auto simp: gguf_set_tensor_type_def Let_def split: if_splits)
  obtain i where i: "gguf_find_tensor ctx name = int i" "i < length (gg_info ctx)" by (rule find_tensor_cases[OF nn])
  define ti where "ti = gg_info ctx ! i"
  define ti' where "ti' = ti\<lparr>ti_t := (ti_t ti)\<lparr>t_type := type, t_nb := row_strides type (t_ne (ti_t ti))\<rparr>\<rparr>"
  have ctx': "ctx' = ctx\<lparr>gg_info := take i (gg_info ctx) @ ti' # update_offsets (gg_alignment ctx) ti' (drop (Suc i) (gg_info ctx))\<rparr>"
    using set i by (auto simp: gguf_set_tensor_type_def Let_def ti_def ti'_def split: if_splits)
  have "offsets_from (gg_alignment ctx) 0 (take i (gg_info ctx) @ ti # drop (Suc i) (gg_info ctx))"
    using ok i(2) by (simp add: offsets_ok_def ti_def id_take_nth_drop[symmetric])
  then show ?thesis
    by (simp add: ctx' offsets_ok_def offsets_from_append offsets_from_update) (simp add: ti'_def)
qed

text \<open>Every way to change the tensors keeps their data one after the other.\<close>

theorem gguf_tensor_offsets:
  assumes "offsets_ok ctx"
    and "gguf_add_tensor ctx t = Inr ctx' \<or> gguf_set_tensor_type ctx name type = Inr ctx' \<or> gguf_set_tensor_data ctx name src = Inr ctx'"
  shows "offsets_ok ctx'"
  using assms add_tensor_offsets set_tensor_type_offsets set_tensor_data_offsets by blast

section \<open>Concrete calls\<close>

theorem gguf_tensor_offsets_witness:
  "\<exists>c. gguf_add_tensor gguf_init_empty (ex_tensor 0 [2, 1, 1, 1]) = Inr c \<and> offsets_ok c"
proof -
  obtain c where c: "gguf_add_tensor gguf_init_empty (ex_tensor 0 [2, 1, 1, 1]) = Inr c"
    by (simp add: gguf_add_tensor_def gguf_find_tensor_def gguf_init_empty_def)
  have "offsets_ok gguf_init_empty" by (simp add: offsets_ok_def gguf_init_empty_def)
  then show ?thesis using gguf_tensor_offsets[of gguf_init_empty "ex_tensor 0 [2, 1, 1, 1]" c] c by blast
qed

lemma empty_keys_ok: "keys_ok gguf_init_empty"
  by (simp add: keys_ok_def gguf_init_empty_def)

theorem gguf_set_get_witness:
  "\<exists>c. gguf_set_val_i64 gguf_init_empty (str ''a'') (- 3) = Inr c \<and> gguf_get_val_i64 c (gguf_find_key c (str ''a'')) = Inr (- 3)"
  using gguf_set_get[OF empty_keys_ok, of "str ''a''" 5 "- 3" True "str ''hi''"]
  by (simp add: str_def cstr_def GGUF_KEY_GENERAL_ALIGNMENT_def)

definition ex_src :: gguf_context where
  "ex_src = gguf_init_empty\<lparr>gg_kv :=
    [\<lparr>kv_key = GGUF_KEY_GENERAL_ALIGNMENT, kv_is_array = False, kv_type = GGUF_TYPE_UINT32, kv_bytes = [64, 0, 0, 0], kv_strings = []\<rparr>]\<rparr>"

theorem gguf_set_kv_merges_witness:
  "\<exists>c. gguf_set_kv gguf_init_empty ex_src = Inr c \<and> gg_alignment c = 32 \<and>
     gguf_dict c GGUF_KEY_GENERAL_ALIGNMENT = Some (False, GGUF_TYPE_UINT32, [64, 0, 0, 0], [])"
proof -
  have "keys_ok ex_src" "\<forall>kv \<in> set (gg_kv ex_src). kv_ok kv \<and> put_ok (kv_key kv) (kv_copied kv)"
    by (simp_all add: ex_src_def keys_ok_def kv_ok_def kv_ne_def put_ok_def kv_copied_def gguf_check_reserved_keys_def
      GGUF_KEY_GENERAL_ALIGNMENT_def str_def cstr_def GGUF_MAX_STRING_LENGTH_def GGUF_MAX_ARRAY_ELEMENTS_def)
  then obtain c where "gguf_set_kv gguf_init_empty ex_src = Inr c" "gg_alignment c = gg_alignment gguf_init_empty"
    "gguf_dict c = gguf_dict gguf_init_empty ++ map_of (map (\<lambda>kv. (cstr (kv_key kv), kv_copied kv)) (gg_kv ex_src))"
    using gguf_set_kv_merges[OF empty_keys_ok] by blast
  then show ?thesis
    by (simp add: ex_src_def kv_copied_def gguf_init_empty_def GGUF_DEFAULT_ALIGNMENT_def GGUF_KEY_GENERAL_ALIGNMENT_def str_def cstr_def)
qed

end
