(* ===== verification/Gguf_Read.thy ===== *)
theory Gguf_Read
  imports Gguf_Context
begin

text \<open>
  The reader of GGUF files (\<^verbatim>\<open>gguf_init_from_file_impl\<close>) for the call the app makes, which asks for the
  description of the model and not for the tensor data (\<^verbatim>\<open>params.ctx == nullptr\<close>). The file is the list of its
  bytes and the reader's state the bytes that remain. \<open>Inr None\<close> is a null return, \<open>Inl\<close> a fault: a failed assertion or a
  division by zero. Allocation succeeds.
\<close>

fun null_then :: "'a option res \<Rightarrow> ('a \<Rightarrow> 'b option res) \<Rightarrow> 'b option res" where
  "null_then (Inl e) f = Inl e"
| "null_then (Inr None) f = Inr None"
| "null_then (Inr (Some x)) f = f x"

lemma null_then_Some: "null_then m f = Inr (Some y) \<longleftrightarrow> (\<exists>x. m = Inr (Some x) \<and> f x = Inr (Some y))"
  by (cases "(m, f)" rule: null_then.cases) auto

section \<open>Fields\<close>

definition gr_string :: "bytes decoder" where
  "gr_string r =
    (case gr_uint 8 r of
       None \<Rightarrow> None
     | Some (len, r') \<Rightarrow>
         if len > GGUF_MAX_STRING_LENGTH then None
         else if len > length r' then None
         else gr_bytes len r')"

definition gr_vector :: "nat \<Rightarrow> 'a decoder \<Rightarrow> nat \<Rightarrow> 'a list decoder" where
  "gr_vector elem_size f n r =
    (if n > GGUF_MAX_ARRAY_ELEMENTS then None
     else if n > SIZE_MAX div elem_size then None
     else if length r < n * elem_size then None
     else read_n f n r)"

text \<open>One value as the bytes it has in memory. A \<^verbatim>\<open>bool\<close> is read from any byte and stored as 0 or 1.\<close>

definition gr_value :: "gguf_type \<Rightarrow> bytes decoder" where
  "gr_value type r =
    (if type = GGUF_TYPE_BOOL then map_option (map_prod (map (\<lambda>b. if b \<noteq> 0 then 1 else 0)) id) (gr_bytes 1 r)
     else gr_bytes (gguf_type_size type) r)"

definition gguf_type_of :: "int \<Rightarrow> gguf_type option" where
  "gguf_type_of n = (if 0 \<le> n \<and> n < int (length gguf_types) then Some (gguf_types ! nat n) else None)"

definition gr_gguf_type :: "gguf_type option decoder" where
  "gr_gguf_type r = map_option (map_prod gguf_type_of id) (gr_int 4 r)"

section \<open>Header\<close>

text \<open>The sizes of the two structures the counts are checked against.\<close>

record gguf_abi =
  abi_tensor_info :: nat
  abi_kv :: nat

definition GGUF_MAGIC :: bytes where
  "GGUF_MAGIC = str ''GGUF''"

definition version_ok :: "nat \<Rightarrow> bool" where
  "version_ok version \<longleftrightarrow>
    version \<noteq> 0 \<and> (word_of_nat version AND 0x0000FFFF :: 32 word) \<noteq> 0 \<and> version \<noteq> 1 \<and> \<not> version > GGUF_VERSION"

definition read_header :: "gguf_abi \<Rightarrow> bytes \<Rightarrow> ((nat \<times> int \<times> int) \<times> bytes) option" where
  "read_header abi r =
    (case gr_vector 1 (gr_bytes 1) 4 r of None \<Rightarrow> None | Some (magic, r1) \<Rightarrow>
     if concat magic \<noteq> GGUF_MAGIC then None
     else case gr_uint 4 r1 of None \<Rightarrow> None | Some (version, r2) \<Rightarrow>
       if \<not> version_ok version then None
       else case gr_int 8 r2 of None \<Rightarrow> None | Some (n_tensors, r3) \<Rightarrow>
         if n_tensors < 0 \<or> n_tensors > int (SIZE_MAX div abi_tensor_info abi) then None
         else case gr_int 8 r3 of None \<Rightarrow> None | Some (n_kv, r4) \<Rightarrow>
           if n_kv < 0 \<or> n_kv > int (SIZE_MAX div abi_kv abi) then None
           else Some ((version, n_tensors, n_kv), r4))"

section \<open>Key-value pairs\<close>

definition gguf_read_emplace_helper :: "gguf_type \<Rightarrow> bytes \<Rightarrow> bool \<Rightarrow> nat \<Rightarrow> bytes \<Rightarrow> (gguf_kv \<times> bytes) option res" where
  "gguf_read_emplace_helper type key is_array n r =
    (if type = GGUF_TYPE_STRING then
       null_then (Inr (if is_array then gr_vector 8 gr_string n r else read_n gr_string 1 r)) (\<lambda>(value, r').
         and_then (gguf_kv_new key is_array type [] value) (\<lambda>kv. Inr (Some (kv, r'))))
     else
       null_then (Inr (if is_array then gr_vector (gguf_type_size type) (gr_value type) n r else read_n (gr_value type) 1 r)) (\<lambda>(value, r').
         and_then (gguf_kv_new key is_array type (concat value) []) (\<lambda>kv. Inr (Some (kv, r')))))"

definition read_kv_value :: "gguf_type option \<Rightarrow> bytes \<Rightarrow> bool \<Rightarrow> nat \<Rightarrow> bytes \<Rightarrow> (gguf_kv \<times> bytes) option res" where
  "read_kv_value type key is_array n r =
    (case type of
       None \<Rightarrow> Inr None
     | Some t \<Rightarrow> if t = GGUF_TYPE_ARRAY then Inr None else gguf_read_emplace_helper t key is_array n r)"

definition read_kv :: "gguf_kv list \<Rightarrow> bytes \<Rightarrow> (gguf_kv \<times> bytes) option res" where
  "read_kv kvs r =
    null_then (Inr (gr_string r)) (\<lambda>(key, r1).
      if \<exists>kv \<in> set kvs. kv_key kv = key then Inr None
      else null_then (Inr (gr_gguf_type r1)) (\<lambda>(type, r2).
        if type = Some GGUF_TYPE_ARRAY then
          null_then (Inr (gr_gguf_type r2)) (\<lambda>(type', r3).
            null_then (Inr (gr_uint 8 r3)) (\<lambda>(n, r4). read_kv_value type' key True n r4))
        else read_kv_value type key False 1 r2))"

primrec read_kvs :: "nat \<Rightarrow> gguf_kv list \<Rightarrow> bytes \<Rightarrow> (gguf_kv list \<times> bytes) option res" where
  "read_kvs 0 kvs r = Inr (Some (kvs, r))"
| "read_kvs (Suc n) kvs r = null_then (read_kv kvs r) (\<lambda>(kv, r'). read_kvs n (kvs @ [kv]) r')"

text \<open>The alignment is the pair \<^verbatim>\<open>general.alignment\<close> when there is one. The index of the pair is kept in an
  \<^verbatim>\<open>int\<close>, and reading it asserts that the pair holds one \<^verbatim>\<open>uint32_t\<close>.\<close>

definition read_alignment :: "gguf_context \<Rightarrow> nat res" where
  "read_alignment ctx =
    (let alignment_idx = wrap_i32 (gguf_find_key ctx GGUF_KEY_GENERAL_ALIGNMENT) in
     if alignment_idx = - 1 then Inr GGUF_DEFAULT_ALIGNMENT else gguf_get_val_u32 ctx alignment_idx)"

definition alignment_ok :: "nat \<Rightarrow> bool" where
  "alignment_ok alignment \<longleftrightarrow> \<not> (alignment = 0 \<or> (word_of_nat alignment AND (word_of_nat alignment - 1) :: 64 word) \<noteq> 0)"

section \<open>Tensor descriptions\<close>

primrec read_ne :: "nat list \<Rightarrow> nat \<Rightarrow> int list decoder" where
  "read_ne [] n_dims r = Some ([], r)"
| "read_ne (j # js) n_dims r =
    (case (if j < n_dims then gr_int 8 r else Some (1, r)) of
       None \<Rightarrow> None
     | Some (x, r') \<Rightarrow> if x < 0 then None else map_option (map_prod (Cons x) id) (read_ne js n_dims r'))"

text \<open>The total number of elements is representable. Each quotient is taken before the dimension is known not to be
  zero.\<close>

definition elements_ok :: "int list \<Rightarrow> bool res" where
  "elements_ok ne =
    (if ne ! 1 = 0 then Inl Undefined
     else if INT64_MAX div ne ! 1 \<le> ne ! 0 then Inr False
     else if ne ! 2 = 0 then Inl Undefined
     else if INT64_MAX div ne ! 2 \<le> ne ! 0 * ne ! 1 then Inr False
     else if ne ! 3 = 0 then Inl Undefined
     else if INT64_MAX div ne ! 3 \<le> ne ! 0 * ne ! 1 * ne ! 2 then Inr False
     else Inr True)"

definition type_ok :: "int \<Rightarrow> int list \<Rightarrow> bool" where
  "type_ok type ne \<longleftrightarrow>
    \<not> (type < 0 \<or> type \<ge> GGML_TYPE_COUNT) \<and>
    \<not> (ggml_blck_size type = 0 \<or> ne ! 0 mod int (ggml_blck_size type) \<noteq> 0) \<and>
    \<not> u64 (ne ! 0 * ne ! 1 * ne ! 2 * ne ! 3 div int (ggml_blck_size type)) > SIZE_MAX div ggml_type_size type"

definition read_info :: "gguf_tensor_info list \<Rightarrow> bytes \<Rightarrow> (gguf_tensor_info \<times> bytes) option res" where
  "read_info infos r =
    null_then (Inr (gr_string r)) (\<lambda>(name, r1).
      if length name \<ge> GGML_MAX_NAME then Inr None
      else let t = ggml_set_name name \<lparr>t_name = [], t_type = 0, t_ne = [], t_nb = [], t_data = None\<rparr> in
        if \<exists>ti \<in> set infos. cstr (t_name t) = cstr (t_name (ti_t ti)) then Inr None
        else null_then (Inr (gr_uint 4 r1)) (\<lambda>(n_dims, r2).
          if n_dims > GGML_MAX_DIMS then Inr None
          else null_then (Inr (read_ne [0..<GGML_MAX_DIMS] n_dims r2)) (\<lambda>(ne, r3).
            and_then (elements_ok ne) (\<lambda>representable.
              if \<not> representable then Inr None
              else null_then (Inr (gr_int 4 r3)) (\<lambda>(type, r4).
                if \<not> type_ok type ne then Inr None
                else null_then (Inr (gr_uint 8 r4)) (\<lambda>(off, r5).
                  Inr (Some (\<lparr>ti_t = t\<lparr>t_type := type, t_ne := ne, t_nb := row_strides type ne\<rparr>, ti_offset = off\<rparr>, r5))))))))"

primrec read_infos :: "nat \<Rightarrow> gguf_tensor_info list \<Rightarrow> bytes \<Rightarrow> (gguf_tensor_info list \<times> bytes) option res" where
  "read_infos 0 infos r = Inr (Some (infos, r))"
| "read_infos (Suc n) infos r = null_then (read_info infos r) (\<lambda>(ti, r'). read_infos n (infos @ [ti]) r')"

primrec data_size :: "nat \<Rightarrow> nat \<Rightarrow> gguf_tensor_info list \<Rightarrow> nat option" where
  "data_size alignment sz [] = Some sz"
| "data_size alignment sz (ti # tis) =
    (if ti_offset ti \<noteq> sz then None
     else let padded_size = GGML_PAD (ggml_nbytes (ti_t ti)) alignment in
       if SIZE_MAX - sz < padded_size then None else data_size alignment (sz + padded_size) tis)"

section \<open>The file\<close>

definition gguf_init_from_file_impl :: "gguf_abi \<Rightarrow> bytes \<Rightarrow> gguf_context option res" where
  "gguf_init_from_file_impl abi file =
    null_then (Inr (read_header abi file)) (\<lambda>((version, n_tensors, n_kv), r1).
      null_then (read_kvs (nat n_kv) [] r1) (\<lambda>(kv, r2).
        let ctx = gguf_init_empty\<lparr>gg_version := version, gg_kv := kv\<rparr> in
        and_then (read_alignment ctx) (\<lambda>alignment.
          if \<not> alignment_ok alignment then Inr None
          else null_then (read_infos (nat n_tensors) [] r2) (\<lambda>(info, r3).
            let start = GGML_PAD (length file - length r3) alignment in
            if start \<ge> 2 ^ 63 then Inr None
            else null_then (Inr (data_size alignment 0 info)) (\<lambda>sz.
              Inr (Some (ctx\<lparr>gg_alignment := alignment, gg_info := info, gg_offset := start, gg_size := sz\<rparr>)))))))"

definition gguf_init_from_file :: "gguf_abi \<Rightarrow> (bytes \<rightharpoonup> bytes) \<Rightarrow> bytes \<Rightarrow> gguf_context option res" where
  "gguf_init_from_file abi fopen fname = null_then (Inr (fopen fname)) (gguf_init_from_file_impl abi)"

section \<open>Fields are codecs\<close>

definition enc_string :: "bytes \<Rightarrow> bytes" where
  "enc_string s = le_bytes 8 (length s) @ s"

lemma string_small: "length s \<le> GGUF_MAX_STRING_LENGTH \<Longrightarrow> length s < 256 ^ 8"
  by (simp add: GGUF_MAX_STRING_LENGTH_def)

interpretation strings: codec "\<lambda>s. length s \<le> GGUF_MAX_STRING_LENGTH" enc_string gr_string
proof
  show "gr_string (enc_string s @ rest) = Some (s, rest)" if "length s \<le> GGUF_MAX_STRING_LENGTH" for s rest
    using that uint.dec_enc[of "length s" 8 "s @ rest"] string_small[OF that]
    by (simp add: gr_string_def enc_string_def gr_bytes_enc)
  show "length s \<le> GGUF_MAX_STRING_LENGTH \<and> (\<exists>u. r = u @ rest)" if "gr_string r = Some (s, rest)" for r s rest
    using that uint.dec_ok[of 8 r] by (fastforce simp: gr_string_def gr_bytes_ok split: option.splits if_splits)
qed

text \<open>The values of a type that are kept as they are.\<close>

definition value_ok :: "gguf_type \<Rightarrow> bytes \<Rightarrow> bool" where
  "value_ok type v \<longleftrightarrow> length v = gguf_type_size type \<and> (type = GGUF_TYPE_BOOL \<longrightarrow> set v \<subseteq> {0, 1})"

interpretation vals: codec "value_ok type" "\<lambda>v. v" "gr_value type" for type
proof
  show "gr_value type (v @ rest) = Some (v, rest)" if "value_ok type v" for v rest
  proof (cases "type = GGUF_TYPE_BOOL")
    case True
    then show ?thesis using that by (cases v) (auto simp: value_ok_def gr_value_def gr_bytes_def)
  next
    case False
    then show ?thesis using that by (simp add: value_ok_def gr_value_def gr_bytes_enc)
  qed
  show "value_ok type v \<and> (\<exists>u. r = u @ rest)" if "gr_value type r = Some (v, rest)" for r v rest
    using that by (auto simp: gr_value_def value_ok_def gr_bytes_ok split: if_splits)
qed

lemma gr_vector_Some:
  "gr_vector k f n r = Some (xs, rest) \<Longrightarrow> n \<le> GGUF_MAX_ARRAY_ELEMENTS \<and> read_n f n r = Some (xs, rest)"
  by (auto simp: gr_vector_def split: if_splits)

section \<open>What is read is well-formed\<close>

definition info_ok :: "gguf_tensor_info \<Rightarrow> bool" where
  "info_ok ti \<longleftrightarrow> dense (ti_t ti) \<and> elements_ok (t_ne (ti_t ti)) = Inr True \<and> length (t_name (ti_t ti)) < GGML_MAX_NAME \<and> 0 \<notin> set (t_name (ti_t ti)) \<and> ti_offset ti < 2 ^ 64"

definition contents_ok :: "gguf_context \<Rightarrow> bool" where
  "contents_ok ctx \<longleftrightarrow>
    gg_version ctx \<in> {2, 3} \<and> list_all kv_ok (gg_kv ctx) \<and> distinct (map kv_key (gg_kv ctx)) \<and>
    list_all info_ok (gg_info ctx) \<and> distinct (map (\<lambda>ti. t_name (ti_t ti)) (gg_info ctx)) \<and>
    read_alignment ctx = Inr (gg_alignment ctx) \<and> alignment_ok (gg_alignment ctx) \<and>
    data_size (gg_alignment ctx) 0 (gg_info ctx) \<noteq> None"

lemma concat_values:
  assumes "list_all (value_ok type) vs"
  shows "length (concat vs) = length vs * gguf_type_size type" "type = GGUF_TYPE_BOOL \<longrightarrow> set (concat vs) \<subseteq> {0, 1}"
  using assms by (induction vs) (auto simp: value_ok_def)

lemma emplace_ok:
  assumes "gguf_read_emplace_helper type key is_array n r = Inr (Some (kv, rest))" "type \<noteq> GGUF_TYPE_ARRAY"
    "length key \<le> GGUF_MAX_STRING_LENGTH"
  shows "kv_ok kv" "kv_key kv = key"
proof -
  have key: "key \<noteq> []" using assms(1) by (auto simp: gguf_read_emplace_helper_def null_then_Some and_then_Inr gguf_kv_new_def split: if_splits)
  have "kv_ok kv \<and> kv_key kv = key"
  proof (cases "type = GGUF_TYPE_STRING")
    case True
    then obtain vs where vs: "(if is_array then gr_vector 8 gr_string n r else read_n gr_string 1 r) = Some (vs, rest)"
      and kv: "kv = \<lparr>kv_key = key, kv_is_array = is_array, kv_type = type, kv_bytes = [], kv_strings = vs\<rparr>"
      using assms(1) key by (auto simp: gguf_read_emplace_helper_def null_then_Some and_then_Inr gguf_kv_new_def)
    define m where "m = (if is_array then n else 1)"
    have "read_n gr_string m r = Some (vs, rest)" "m \<le> GGUF_MAX_ARRAY_ELEMENTS"
      using vs gr_vector_Some[of 8 gr_string n r vs rest] by (auto simp: m_def GGUF_MAX_ARRAY_ELEMENTS_def split: if_splits)
    then show ?thesis using strings.read_n_ok[of m r vs rest] kv True key assms(3)
      by (auto simp: kv_ok_def kv_ne_def list_all_iff m_def split: if_splits)
  next
    case False
    then obtain vs where vs: "(if is_array then gr_vector (gguf_type_size type) (gr_value type) n r else read_n (gr_value type) 1 r) = Some (vs, rest)"
      and kv: "kv = \<lparr>kv_key = key, kv_is_array = is_array, kv_type = type, kv_bytes = concat vs, kv_strings = []\<rparr>"
      using assms(1) key by (auto simp: gguf_read_emplace_helper_def null_then_Some and_then_Inr gguf_kv_new_def)
    define m where "m = (if is_array then n else 1)"
    have m: "read_n (gr_value type) m r = Some (vs, rest)" "m \<le> GGUF_MAX_ARRAY_ELEMENTS"
      using vs gr_vector_Some[of _ "gr_value type" n r vs rest] by (auto simp: m_def GGUF_MAX_ARRAY_ELEMENTS_def split: if_splits)
    have vok: "list_all (value_ok type) vs" "length vs = m" using vals.read_n_ok[OF m(1)] by auto
    have "0 < gguf_type_size type" using gguf_type_size_pos[of type] False assms(2) by auto
    then show ?thesis using concat_values[OF vok(1)] vok(2) m(2) kv False key assms(2,3)
      by (auto simp: kv_ok_def kv_ne_def m_def split: if_splits)
  qed
  then show "kv_ok kv" "kv_key kv = key" by auto
qed

lemma read_kv_ok:
  assumes "read_kv kvs r = Inr (Some (kv, rest))"
  shows "kv_ok kv" "kv_key kv \<notin> kv_key ` set kvs"
proof -
  obtain key r1 where key: "gr_string r = Some (key, r1)" "key \<notin> kv_key ` set kvs"
    using assms by (auto simp: read_kv_def null_then_Some split: if_splits)
  have len: "length key \<le> GGUF_MAX_STRING_LENGTH" using strings.dec_ok[OF key(1)] by simp
  obtain t a n r' where "gguf_read_emplace_helper t key a n r' = Inr (Some (kv, rest))" "t \<noteq> GGUF_TYPE_ARRAY"
    using assms key
    by (auto simp: read_kv_def read_kv_value_def null_then_Some split: if_splits option.splits)
  then show "kv_ok kv" "kv_key kv \<notin> kv_key ` set kvs" using emplace_ok[of t key a n r' kv rest] len key(2) by auto
qed

lemma read_kvs_ok:
  assumes "read_kvs n kvs r = Inr (Some (kvs', rest))" "list_all kv_ok kvs" "distinct (map kv_key kvs)"
  shows "list_all kv_ok kvs' \<and> distinct (map kv_key kvs') \<and> length kvs' = length kvs + n"
  using assms
proof (induction n arbitrary: kvs r)
  case (Suc n)
  then obtain kv r' where kv: "read_kv kvs r = Inr (Some (kv, r'))" and rest: "read_kvs n (kvs @ [kv]) r' = Inr (Some (kvs', rest))"
    by (auto simp: null_then_Some)
  show ?case using Suc.IH[OF rest] read_kv_ok[OF kv] Suc.prems(2,3) by simp
qed simp

lemma read_ne_ok: "read_ne js n r = Some (ne, rest) \<Longrightarrow> length ne = length js \<and> (\<forall>x \<in> set ne. 0 \<le> x)"
  by (induction js arbitrary: r ne) (fastforce split: option.splits if_splits prod.splits)+

lemma div_bound: "0 < d \<Longrightarrow> \<not> (m div d \<le> x) \<Longrightarrow> x * d < (m :: int)"
proof -
  assume d: "0 < d" and "\<not> (m div d \<le> x)"
  then have "(x + 1) * d \<le> m div d * d" by (intro mult_right_mono) auto
  also have "\<dots> \<le> m" using d div_mult_mod_eq[of m d] pos_mod_sign[of d m] by linarith
  finally show ?thesis using d by (simp add: algebra_simps)
qed

lemma elements_ok_bound:
  assumes "elements_ok ne = Inr True" "\<forall>x \<in> set ne. 0 \<le> x" "length ne = 4"
  shows "\<forall>i \<in> {1, 2, 3}. 1 \<le> ne ! i" "ne ! 0 * ne ! 1 * ne ! 2 * ne ! 3 < INT64_MAX"
proof -
  have nn: "0 \<le> ne ! i" if "i < 4" for i using that assms(2,3) by simp
  have nz: "ne ! 1 \<noteq> 0" "ne ! 2 \<noteq> 0" "ne ! 3 \<noteq> 0" and last: "\<not> (INT64_MAX div ne ! 3 \<le> ne ! 0 * ne ! 1 * ne ! 2)"
    using assms(1) by (auto simp: elements_ok_def split: if_splits)
  show ge: "\<forall>i \<in> {1, 2, 3}. 1 \<le> ne ! i" using nz nn[of 1] nn[of 2] nn[of 3] by auto
  show "ne ! 0 * ne ! 1 * ne ! 2 * ne ! 3 < INT64_MAX" using div_bound[OF _ last] ge by simp
qed

lemma type_ok_shape:
  assumes "elements_ok ne = Inr True" "\<forall>x \<in> set ne. 0 \<le> x" "length ne = 4" "type_ok type ne"
  shows "shape_ok type ne"
proof -
  let ?n = "ne ! 0 * ne ! 1 * ne ! 2 * ne ! 3" and ?k = "int (ggml_blck_size type)" and ?s = "ggml_type_size type"
  note el = elements_ok_bound[OF assms(1-3)]
  have t: "0 \<le> type" "type < GGML_TYPE_COUNT" "ggml_blck_size type \<noteq> 0" "?k dvd ne ! 0"
    and sz: "u64 (?n div ?k) \<le> SIZE_MAX div ?s"
    using assms(4) by (auto simp: type_ok_def dvd_eq_mod_eq_0)
  have nn: "0 \<le> ne ! i" if "i < 4" for i using that assms(2,3) by simp
  have "0 \<le> ?n" using nn[of 0] nn[of 1] nn[of 2] nn[of 3] by simp
  then have q: "0 \<le> ?n div ?k" "?n div ?k \<le> ?n"
    using t(3) zdiv_mono2[of ?n 1 ?k] by (auto simp: pos_imp_zdiv_nonneg_iff)
  have small: "?n div ?k < 2 ^ 64" using q(2) el(2) by (simp add: INT64_MAX_def)
  have "nat (?n div ?k) * ?s \<le> SIZE_MAX div ?s * ?s" using sz u64_small[OF q(1) small] by simp
  also have "\<dots> \<le> SIZE_MAX" by simp
  finally have "int (nat (?n div ?k) * ?s) \<le> int SIZE_MAX" by (simp only: of_nat_le_iff)
  then have "?n div ?k * int ?s < 2 ^ 64" using q(1) by (simp add: SIZE_MAX_def)
  then show ?thesis using t el nn[of 0] assms(3) by (simp add: shape_ok_def GGML_MAX_DIMS_def)
qed

lemma read_info_ok:
  assumes "read_info infos r = Inr (Some (ti, rest))" "list_all info_ok infos"
  shows "info_ok ti" "t_name (ti_t ti) \<notin> (\<lambda>ti. t_name (ti_t ti)) ` set infos"
proof -
  obtain name r1 n r2 ne r3 type r4 off where name: "gr_string r = Some (name, r1)" "length name < GGML_MAX_NAME"
    and ne: "read_ne [0..<GGML_MAX_DIMS] n r2 = Some (ne, r3)" "elements_ok ne = Inr True"
    and type: "type_ok type ne" and off: "gr_uint 8 r4 = Some (off, rest)"
    and ti: "ti = \<lparr>ti_t = \<lparr>t_name = take (GGML_MAX_NAME - 1) (cstr name), t_type = type, t_ne = ne, t_nb = row_strides type ne, t_data = None\<rparr>,
      ti_offset = off\<rparr>"
    and new: "\<not> (\<exists>tj \<in> set infos. cstr (t_name (ti_t ti)) = cstr (t_name (ti_t tj)))"
    using assms(1) by (auto simp: read_info_def null_then_Some and_then_Inr Let_def ggml_set_name_def split: if_splits)
  have nz: "0 \<notin> set (t_name (ti_t ti))" using ti by (auto simp: cstr_def dest!: in_set_takeD set_takeWhileD)
  have ln: "length ne = 4" "\<forall>x \<in> set ne. 0 \<le> x" using read_ne_ok[OF ne(1)] by (simp_all add: GGML_MAX_DIMS_def)
  have "off < 2 ^ 64" using uint.dec_ok[OF off] by simp
  then show "info_ok ti"
    using ti nz ne(2) type_ok_shape[OF ne(2) ln(2,1) type] by (simp add: info_ok_def dense_def GGML_MAX_NAME_def)
  have "cstr (t_name (ti_t ti)) = t_name (ti_t ti)" if "0 \<notin> set (t_name (ti_t ti))" for ti :: gguf_tensor_info
    using that by (auto simp: cstr_def takeWhile_eq_all_conv)
  then show "t_name (ti_t ti) \<notin> (\<lambda>ti. t_name (ti_t ti)) ` set infos"
    using new nz assms(2) by (auto simp: list_all_iff info_ok_def)
qed

lemma read_infos_ok:
  assumes "read_infos n infos r = Inr (Some (infos', rest))" "list_all info_ok infos" "distinct (map (\<lambda>ti. t_name (ti_t ti)) infos)"
  shows "list_all info_ok infos' \<and> distinct (map (\<lambda>ti. t_name (ti_t ti)) infos') \<and> length infos' = length infos + n"
  using assms
proof (induction n arbitrary: infos r)
  case (Suc n)
  then obtain ti r' where ti: "read_info infos r = Inr (Some (ti, r'))" and rest: "read_infos n (infos @ [ti]) r' = Inr (Some (infos', rest))"
    by (auto simp: null_then_Some)
  show ?case using Suc.IH[OF rest] read_info_ok[OF ti Suc.prems(2)] Suc.prems(2,3) by simp
qed simp

lemma data_size_offsets: "data_size a sz tis = Some n \<Longrightarrow> sz \<le> SIZE_MAX \<Longrightarrow> offsets_from a sz tis"
proof (induction tis arbitrary: sz)
  case (Cons ti tis)
  let ?p = "GGML_PAD (ggml_nbytes (ti_t ti)) a"
  have off: "ti_offset ti = sz" and le: "sz + ?p \<le> SIZE_MAX" and rest: "data_size a (sz + ?p) tis = Some n"
    using Cons.prems by (auto simp: Let_def split: if_splits)
  then have "next_offset a ti = sz + ?p" by (simp add: next_offset_def SIZE_MAX_def u64_def)
  then show ?case using off Cons.IH[OF rest le] by simp
qed simp

lemma read_alignment_cong: "gg_kv c = gg_kv d \<Longrightarrow> read_alignment c = read_alignment d"
  by (simp add: read_alignment_def gguf_find_key_def gguf_get_val_u32_def gguf_get_val_def kv_at_def gguf_get_n_kv_def Let_def)

lemma read_header_version:
  "read_header abi r = Some ((version, nt, nk), rest) \<Longrightarrow> version \<in> {2, 3}"
  by (auto simp: read_header_def version_ok_def GGUF_VERSION_def split: option.splits if_splits)

lemma read_ok:
  assumes "gguf_init_from_file_impl abi file = Inr (Some ctx)"
  shows "contents_ok ctx \<and> offsets_ok ctx \<and> data_size (gg_alignment ctx) 0 (gg_info ctx) = Some (gg_size ctx)"
proof -
  obtain version nt nk r1 kv r2 a info r3 sz off where hd: "read_header abi file = Some ((version, nt, nk), r1)"
    and kv: "read_kvs (nat nk) [] r1 = Inr (Some (kv, r2))"
    and al: "read_alignment (gguf_init_empty\<lparr>gg_version := version, gg_kv := kv\<rparr>) = Inr a" "alignment_ok a"
    and info: "read_infos (nat nt) [] r2 = Inr (Some (info, r3))" and sz: "data_size a 0 info = Some sz"
    and ctx: "ctx = gguf_init_empty\<lparr>gg_version := version, gg_kv := kv, gg_alignment := a, gg_info := info, gg_offset := off, gg_size := sz\<rparr>"
    using assms by (auto simp: gguf_init_from_file_impl_def null_then_Some and_then_Inr Let_def split: if_splits)
  have "read_alignment ctx = Inr a" using al(1) ctx read_alignment_cong[of ctx "gguf_init_empty\<lparr>gg_version := version, gg_kv := kv\<rparr>"] by simp
  then show ?thesis
    using read_kvs_ok[OF kv] read_infos_ok[OF info] read_header_version[OF hd] al(2) sz data_size_offsets[OF sz] ctx
    by (simp add: contents_ok_def offsets_ok_def)
qed

lemmas read_contents = read_ok[THEN conjunct1]

text \<open>C26. Whatever the file holds, a context that the reader returns is well-formed: the keys are distinct, every value has
  the bytes of its type and its count, every tensor is of a known type, laid out without gaps and of a size that can be
  counted, the alignment is a power of two and the one the pairs give, and the tensors follow one another without
  overlapping.\<close>

theorem gguf_read_wf:
  assumes "gguf_init_from_file_impl abi file = Inr (Some ctx)"
  shows "contents_ok ctx \<and> offsets_ok ctx \<and> data_size (gg_alignment ctx) 0 (gg_info ctx) = Some (gg_size ctx)"
  using assms by (rule read_ok)

section \<open>Reading what was written, field by field\<close>

lemma gr_uint_enc: "n < 2 ^ (8 * k) \<Longrightarrow> gr_uint k (le_bytes k n @ rest) = Some (n, rest)"
  using uint.dec_enc[of n k rest] by (simp add: pow256)

lemma gr_int_enc_nat:
  assumes "0 < k" "n < 2 ^ (8 * k - 1)"
  shows "gr_int k (le_bytes k n @ rest) = Some (int n, rest)"
proof -
  have "n < 2 ^ (8 * k)" by (rule less_le_trans[OF assms(2)]) simp
  then show ?thesis using assms(2) by (simp add: gr_int_def gr_uint_enc signed_at_def)
qed

lemma gr_int_enc:
  assumes "0 < k" "- (2 ^ (8 * k - 1)) \<le> x" "x < 2 ^ (8 * k - 1)"
  shows "gr_int k (le_bytes k (unsigned_at (8 * k) x) @ rest) = Some (x, rest)"
proof -
  obtain j where "k = Suc j" using assms(1) by (cases k) auto
  then show ?thesis using sint.dec_enc[of j x rest] assms(2,3) by simp
qed

lemma concat_singletons [simp]: "concat (map (\<lambda>b. [b]) xs) = xs"
  by (induction xs) auto

lemma read_magic: "gr_vector 1 (gr_bytes 1) 4 (GGUF_MAGIC @ rest) = Some (map (\<lambda>b. [b]) GGUF_MAGIC, rest)"
proof -
  have "length GGUF_MAGIC = 4" by (simp add: GGUF_MAGIC_def str_def)
  then show ?thesis
    using raw.read_n_enc[of 1 "map (\<lambda>b. [b]) GGUF_MAGIC" rest]
    by (simp add: gr_vector_def GGUF_MAX_ARRAY_ELEMENTS_def SIZE_MAX_def list_all_iff)
qed

lemma read_header_enc:
  assumes "v \<in> {2, 3}" "nt \<le> SIZE_MAX div abi_tensor_info abi" "nk \<le> SIZE_MAX div abi_kv abi" "nt < 2 ^ 63" "nk < 2 ^ 63"
  shows "read_header abi (GGUF_MAGIC @ le_bytes 4 v @ le_bytes 8 nt @ le_bytes 8 nk @ rest) = Some ((v, int nt, int nk), rest)"
proof -
  have "version_ok v" using assms(1) by (auto simp: version_ok_def GGUF_VERSION_def)
  then show ?thesis using assms
    unfolding read_header_def read_magic
    by (auto simp: gr_uint_enc gr_int_enc_nat simp del: le_bytes.simps)
qed

definition type_no :: "gguf_type \<Rightarrow> nat" where
  "type_no t = (case t of
     GGUF_TYPE_UINT8 \<Rightarrow> 0 | GGUF_TYPE_INT8 \<Rightarrow> 1 | GGUF_TYPE_UINT16 \<Rightarrow> 2 | GGUF_TYPE_INT16 \<Rightarrow> 3 | GGUF_TYPE_UINT32 \<Rightarrow> 4
   | GGUF_TYPE_INT32 \<Rightarrow> 5 | GGUF_TYPE_FLOAT32 \<Rightarrow> 6 | GGUF_TYPE_BOOL \<Rightarrow> 7 | GGUF_TYPE_STRING \<Rightarrow> 8 | GGUF_TYPE_ARRAY \<Rightarrow> 9
   | GGUF_TYPE_UINT64 \<Rightarrow> 10 | GGUF_TYPE_INT64 \<Rightarrow> 11 | GGUF_TYPE_FLOAT64 \<Rightarrow> 12)"

lemma gr_gguf_type_enc: "gr_gguf_type (le_bytes 4 (type_no t) @ rest) = Some (Some t, rest)"
proof -
  have "type_no t < 13" "gguf_types ! type_no t = t" by (cases t; simp add: type_no_def gguf_types_def)+
  then show ?thesis
    using gr_int_enc_nat[of 4 "type_no t" rest] by (simp add: gr_gguf_type_def gguf_type_of_def gguf_types_def del: le_bytes.simps)
qed

lemma gr_string_enc: "length s \<le> GGUF_MAX_STRING_LENGTH \<Longrightarrow> gr_string (enc_string s @ rest) = Some (s, rest)"
  by (rule strings.dec_enc)

lemma read_n_one: "f r = Some (x, r') \<Longrightarrow> read_n f 1 r = Some ([x], r')"
  by simp

section \<open>Files that are not refused but fault\<close>

lemma empty_key_aborts:
  "length v = 4 \<Longrightarrow> [] \<notin> kv_key ` set kvs \<Longrightarrow> read_kv kvs (enc_string [] @ le_bytes 4 (type_no GGUF_TYPE_UINT32) @ v @ rest) = Inl Abort"
  by (auto simp: read_kv_def gr_string_enc gr_gguf_type_enc read_kv_value_def gguf_read_emplace_helper_def gr_value_def
    gr_bytes_enc gguf_kv_new_def image_iff simp del: le_bytes.simps)

lemma read_kv_scalar:
  assumes "key \<noteq> []" "length key \<le> GGUF_MAX_STRING_LENGTH" "key \<notin> kv_key ` set kvs" "value_ok type v"
    "type \<noteq> GGUF_TYPE_ARRAY" "type \<noteq> GGUF_TYPE_STRING"
  shows "read_kv kvs (enc_string key @ le_bytes 4 (type_no type) @ v @ rest) =
    Inr (Some (\<lparr>kv_key = key, kv_is_array = False, kv_type = type, kv_bytes = v, kv_strings = []\<rparr>, rest))"
  using assms vals.dec_enc[OF assms(4), of rest]
  by (auto simp: read_kv_def gr_string_enc gr_gguf_type_enc read_kv_value_def gguf_read_emplace_helper_def gguf_kv_new_def image_iff
    simp del: le_bytes.simps)

lemma zero_dimension:
  assumes "length name < GGML_MAX_NAME" "a < 2 ^ 63"
  shows "read_info [] (enc_string name @ le_bytes 4 2 @ le_bytes 8 a @ le_bytes 8 0 @ rest) = Inl Undefined"
proof -
  have "length name \<le> GGUF_MAX_STRING_LENGTH" using assms(1) by (simp add: GGML_MAX_NAME_def GGUF_MAX_STRING_LENGTH_def)
  moreover have "read_ne [0..<GGML_MAX_DIMS] 2 (le_bytes 8 a @ le_bytes 8 0 @ rest) = Some ([int a, 0, 1, 1], rest)"
    using assms(2) gr_int_enc_nat[of 8 a] gr_int_enc_nat[of 8 0] by (simp add: GGML_MAX_DIMS_def upt_rec del: le_bytes.simps)
  ultimately show ?thesis using assms(1)
    by (simp add: read_info_def gr_string_enc gr_uint_enc GGML_MAX_DIMS_def elements_ok_def del: le_bytes.simps upt_Suc)
qed


section \<open>Concrete files\<close>

definition ex_abi :: gguf_abi where
  "ex_abi = \<lparr>abi_tensor_info = 376, abi_kv = 88\<rparr>"


lemma read_empty_file:
  "gguf_init_from_file_impl ex_abi (GGUF_MAGIC @ le_bytes 4 3 @ le_bytes 8 0 @ le_bytes 8 0 @ []) = Inr (Some (gguf_init_empty\<lparr>gg_offset := 32\<rparr>))"
proof -
  have "GGML_PAD 24 32 = 32" using GGML_PAD_eq[of 5 24] by simp
  moreover have "length GGUF_MAGIC = 4" by (simp add: GGUF_MAGIC_def str_def)
  ultimately show ?thesis unfolding gguf_init_from_file_impl_def
    by (subst read_header_enc) (simp_all add: read_alignment_def gguf_find_key_def gguf_init_empty_def GGUF_DEFAULT_ALIGNMENT_def
      GGUF_VERSION_def alignment_ok_def del: le_bytes.simps)
qed

theorem gguf_read_wf_witness: "contents_ok (gguf_init_empty\<lparr>gg_offset := 32\<rparr>)"
  using gguf_read_wf[OF read_empty_file] by simp

end
