(* ===== verification/Gguf_Write.thy ===== *)
theory Gguf_Write
  imports Gguf_Read
begin

text \<open>
  The writer of GGUF files (\<^verbatim>\<open>gguf_writer_base\<close>, \<^verbatim>\<open>gguf_writer_buf\<close>, \<^verbatim>\<open>gguf_write_out\<close>) and
  the round trip through the reader. The writer's state is its buffer and the count of the bytes it wrote; a buffer that
  was not empty keeps its bytes in front. A tensor's data is taken from its data pointer: tensors that live in a backend
  buffer are not modelled.
\<close>

section \<open>Fields\<close>

record gguf_writer =
  gw_buf :: bytes
  gw_written :: nat

definition gw_put :: "bytes \<Rightarrow> gguf_writer \<Rightarrow> gguf_writer" where
  "gw_put bs w = w\<lparr>gw_buf := gw_buf w @ bs, gw_written := gw_written w + length bs\<rparr>"

definition gw_string :: "bytes \<Rightarrow> gguf_writer \<Rightarrow> gguf_writer" where
  "gw_string s w = gw_put s (gw_put (le_bytes 8 (length s)) w)"

definition gw_type :: "gguf_type \<Rightarrow> gguf_writer \<Rightarrow> gguf_writer" where
  "gw_type t w = gw_put (le_bytes 4 (type_no t)) w"

primrec gw_bools :: "nat list \<Rightarrow> gguf_kv \<Rightarrow> gguf_writer \<Rightarrow> gguf_writer res" where
  "gw_bools [] kv w = Inr w"
| "gw_bools (i # is) kv w =
    and_then (and_then (get_val GGUF_TYPE_BOOL kv i) as_bool) (\<lambda>b. gw_bools is kv (gw_put [if b then 1 else 0] w))"

primrec gw_strings :: "nat list \<Rightarrow> gguf_kv \<Rightarrow> gguf_writer \<Rightarrow> gguf_writer res" where
  "gw_strings [] kv w = Inr w"
| "gw_strings (i # is) kv w = and_then (get_val_str kv i) (\<lambda>s. gw_strings is kv (gw_string s w))"

definition gw_kv :: "gguf_kv \<Rightarrow> gguf_writer \<Rightarrow> gguf_writer res" where
  "gw_kv kv w =
    and_then (get_ne kv) (\<lambda>ne.
      let w1 = gw_string (kv_key kv) w;
          w2 = (if kv_is_array kv then gw_put (le_bytes 8 ne) (gw_type (kv_type kv) (gw_type GGUF_TYPE_ARRAY w1))
                else gw_type (kv_type kv) w1) in
      case kv_type kv of
        GGUF_TYPE_BOOL \<Rightarrow> gw_bools [0..<ne] kv w2
      | GGUF_TYPE_STRING \<Rightarrow> gw_strings [0..<ne] kv w2
      | GGUF_TYPE_ARRAY \<Rightarrow> Inl Abort
      | _ \<Rightarrow> Inr (gw_put (kv_bytes kv) w2))"

definition write_tensor_meta :: "gguf_tensor_info \<Rightarrow> gguf_writer \<Rightarrow> gguf_writer" where
  "write_tensor_meta ti w =
    (let t = ti_t ti; n_dims = ggml_n_dims t;
         w1 = gw_put (le_bytes 4 n_dims) (gw_string (cstr (t_name t)) w);
         w2 = fold (\<lambda>j. gw_put (le_bytes 8 (unsigned_at 64 (t_ne t ! j)))) [0..<n_dims] w1 in
     gw_put (le_bytes 8 (ti_offset ti)) (gw_put (le_bytes 4 (unsigned_at 32 (t_type t))) w2))"

function gw_pad :: "nat \<Rightarrow> gguf_writer \<Rightarrow> gguf_writer res" where
  "gw_pad alignment w =
    (if alignment = 0 then Inl Undefined
     else if gw_written w mod alignment \<noteq> 0 then gw_pad alignment (gw_put [0] w) else Inr w)"
  by auto
termination
proof (relation "measure (\<lambda>(a, w). if gw_written w mod a = 0 then 0 else a - gw_written w mod a)", goal_cases)
  case (2 a w)
  then have "gw_written w mod a < a" by simp
  then show ?case using 2 by (auto simp: gw_put_def mod_Suc intro!: diff_less_mono2)
qed simp

declare gw_pad.simps [simp del]

text \<open>The data of one tensor: it must start where the description says and be laid out without gaps.\<close>

definition write_tensor_data :: "gguf_tensor_info \<Rightarrow> nat \<Rightarrow> nat \<Rightarrow> gguf_writer \<Rightarrow> gguf_writer res" where
  "write_tensor_data ti offset_data alignment w =
    (if u64 (int (length (gw_buf w)) - int offset_data) \<noteq> ti_offset ti then Inl Abort
     else if \<not> ggml_is_contiguous (ti_t ti) then Inl Abort
     else let nbytes = ggml_nbytes (ti_t ti) in
       case t_data (ti_t ti) of
         None \<Rightarrow> Inl Abort
       | Some src \<Rightarrow> if length src < nbytes then Inl Undefined else gw_pad alignment (gw_put (take nbytes src) w))"

primrec gw_kvs :: "gguf_kv list \<Rightarrow> gguf_writer \<Rightarrow> gguf_writer res" where
  "gw_kvs [] w = Inr w"
| "gw_kvs (kv # kvs) w = and_then (gw_kv kv w) (gw_kvs kvs)"

primrec gw_data :: "gguf_tensor_info list \<Rightarrow> nat \<Rightarrow> nat \<Rightarrow> gguf_writer \<Rightarrow> gguf_writer res" where
  "gw_data [] offset_data alignment w = Inr w"
| "gw_data (ti # tis) offset_data alignment w =
    and_then (write_tensor_data ti offset_data alignment w) (gw_data tis offset_data alignment)"

definition gguf_write_out :: "gguf_context \<Rightarrow> bool \<Rightarrow> gguf_writer \<Rightarrow> gguf_writer res" where
  "gguf_write_out ctx only_meta w =
    (let n_kv = gguf_get_n_kv ctx; n_tensors = gguf_get_n_tensors ctx;
         w1 = gw_put (le_bytes 8 (unsigned_at 64 n_kv)) (gw_put (le_bytes 8 (unsigned_at 64 n_tensors))
           (gw_put (le_bytes 4 (gg_version ctx)) (gw_put GGUF_MAGIC w))) in
     and_then (gw_kvs (gg_kv ctx) w1) (\<lambda>w2.
       and_then (gw_pad (gg_alignment ctx) (fold write_tensor_meta (gg_info ctx) w2)) (\<lambda>w3.
         if only_meta then Inr w3 else gw_data (gg_info ctx) (gw_written w3) (gg_alignment ctx) w3)))"

definition gguf_write_to_buf :: "gguf_context \<Rightarrow> bytes \<Rightarrow> bool \<Rightarrow> bytes res" where
  "gguf_write_to_buf ctx buf only_meta =
    and_then (gguf_write_out ctx only_meta \<lparr>gw_buf = buf, gw_written = 0\<rparr>) (\<lambda>w. Inr (gw_buf w))"

definition gguf_get_meta_size :: "gguf_context \<Rightarrow> nat res" where
  "gguf_get_meta_size ctx = and_then (gguf_write_to_buf ctx [] True) (\<lambda>buf. Inr (length buf))"

definition gguf_get_meta_data :: "gguf_context \<Rightarrow> bytes res" where
  "gguf_get_meta_data ctx = gguf_write_to_buf ctx [] True"

section \<open>What is written\<close>

lemma gw_put_put: "gw_put bs (gw_put as w) = gw_put (as @ bs) w"
  by (simp add: gw_put_def)

lemma gw_put_simps [simp]: "gw_buf (gw_put bs w) = gw_buf w @ bs" "gw_written (gw_put bs w) = gw_written w + length bs" "gw_put [] w = w"
  by (simp_all add: gw_put_def)

definition enc_kv :: "gguf_kv \<Rightarrow> bytes" where
  "enc_kv kv = enc_string (kv_key kv) @
    (if kv_is_array kv then le_bytes 4 (type_no GGUF_TYPE_ARRAY) @ le_bytes 4 (type_no (kv_type kv)) @ le_bytes 8 (kv_ne kv)
     else le_bytes 4 (type_no (kv_type kv))) @
    (if kv_type kv = GGUF_TYPE_STRING then concat (map enc_string (kv_strings kv)) else kv_bytes kv)"

lemma gw_strings_eq:
  assumes "kv_type kv = GGUF_TYPE_STRING" "list_all (\<lambda>i. i < length (kv_strings kv)) is"
  shows "gw_strings is kv w = Inr (gw_put (concat (map (\<lambda>i. enc_string (kv_strings kv ! i)) is)) w)"
  using assms by (induction "is" arbitrary: w) (simp_all add: get_val_str_def gw_string_def gw_put_put enc_string_def)

lemma gw_bools_eq:
  assumes "kv_type kv = GGUF_TYPE_BOOL" "set (kv_bytes kv) \<subseteq> {0, 1}" "list_all (\<lambda>i. i < length (kv_bytes kv)) is"
  shows "gw_bools is kv w = Inr (gw_put (map (\<lambda>i. kv_bytes kv ! i) is) w)"
  using assms(3)
proof (induction "is" arbitrary: w)
  case (Cons i js)
  then have i: "i < length (kv_bytes kv)" by simp
  then have "kv_bytes kv ! i \<in> {0, 1}" using assms(2) nth_mem by blast
  moreover have "get_val GGUF_TYPE_BOOL kv i = Inr [kv_bytes kv ! i]"
    using assms(1) i by (simp add: get_val_def take_Suc_conv_app_nth Cons_nth_drop_Suc[symmetric])
  ultimately show ?case using Cons by (auto simp: as_bool_def gw_put_put)
qed simp

lemma gw_kv_eq:
  assumes "kv_ok kv"
  shows "gw_kv kv w = Inr (gw_put (enc_kv kv) w)"
proof -
  note defs = gw_kv_def enc_kv_def gw_type_def gw_string_def gw_put_put enc_string_def Let_def
  consider (s) "kv_type kv = GGUF_TYPE_STRING" | (b) "kv_type kv = GGUF_TYPE_BOOL"
    | (o) "kv_type kv \<noteq> GGUF_TYPE_STRING" "kv_type kv \<noteq> GGUF_TYPE_BOOL" "kv_type kv \<noteq> GGUF_TYPE_ARRAY"
    using assms by (auto simp: kv_ok_def)
  then show ?thesis
  proof cases
    case s
    have "map (\<lambda>i. enc_string (kv_strings kv ! i)) [0..<length (kv_strings kv)] = map enc_string (kv_strings kv)"
      by (rule nth_equalityI) simp_all
    then have "gw_strings [0..<kv_ne kv] kv w' = Inr (gw_put (concat (map enc_string (kv_strings kv))) w')" for w'
      using s gw_strings_eq[OF s, of "[0..<kv_ne kv]"] by (simp add: kv_ne_def list_all_iff)
    then show ?thesis using s by (simp add: defs get_ne_ok[OF assms] del: le_bytes.simps)
  next
    case b
    have ne: "kv_ne kv = length (kv_bytes kv)" using b by (simp add: kv_ne_def)
    then have "gw_bools [0..<kv_ne kv] kv w' = Inr (gw_put (kv_bytes kv) w')" for w'
      using gw_bools_eq[OF b, of "[0..<kv_ne kv]"] assms b by (simp add: kv_ok_def list_all_iff map_nth)
    then show ?thesis using b by (simp add: defs get_ne_ok[OF assms] del: le_bytes.simps)
  next
    case o
    then show ?thesis by (cases "kv_type kv") (simp_all add: defs get_ne_ok[OF assms] del: le_bytes.simps)
  qed
qed

lemma gw_kvs_eq: "list_all kv_ok kvs \<Longrightarrow> gw_kvs kvs w = Inr (gw_put (concat (map enc_kv kvs)) w)"
  by (induction kvs arbitrary: w) (simp_all add: gw_kv_eq gw_put_put)

section \<open>Pairs and descriptions are read back\<close>

lemma sum_ge_mult: "\<forall>x \<in> set xs. k \<le> length (f x) \<Longrightarrow> length xs * k \<le> length (concat (map f xs))"
  by (induction xs) auto

lemma gr_vector_strings:
  assumes "list_all (\<lambda>s. length s \<le> GGUF_MAX_STRING_LENGTH) ss" "length ss \<le> GGUF_MAX_ARRAY_ELEMENTS"
  shows "gr_vector 8 gr_string (length ss) (concat (map enc_string ss) @ rest) = Some (ss, rest)"
  using assms strings.read_n_enc[OF assms(1), of rest] sum_ge_mult[of ss 8 enc_string]
  by (simp add: gr_vector_def SIZE_MAX_def GGUF_MAX_ARRAY_ELEMENTS_def enc_string_def)

text \<open>The bytes of an array are the bytes of its elements.\<close>

lemma split_values:
  "length bs = n * gguf_type_size type \<Longrightarrow> type = GGUF_TYPE_BOOL \<longrightarrow> set bs \<subseteq> {0, 1} \<Longrightarrow>
   \<exists>vs. list_all (value_ok type) vs \<and> length vs = n \<and> concat vs = bs"
proof (induction n arbitrary: bs)
  case (Suc n)
  let ?k = "gguf_type_size type"
  have sub: "set (drop ?k bs) \<subseteq> set bs" "set (take ?k bs) \<subseteq> set bs" by (rule set_drop_subset set_take_subset)+
  then have "length (drop ?k bs) = n * ?k" "type = GGUF_TYPE_BOOL \<longrightarrow> set (drop ?k bs) \<subseteq> {0, 1}" using Suc.prems by auto
  then obtain vs where vs: "list_all (value_ok type) vs" "length vs = n" "concat vs = drop ?k bs"
    using Suc.IH by blast
  have "value_ok type (take ?k bs)" using Suc.prems sub(2) by (auto simp: value_ok_def)
  then show ?case using vs by (intro exI[of _ "take ?k bs # vs"]) simp
qed simp

lemma read_values:
  assumes "length bs = n * gguf_type_size type" "type = GGUF_TYPE_BOOL \<longrightarrow> set bs \<subseteq> {0, 1}"
  obtains vs where "concat vs = bs" "read_n (gr_value type) n (bs @ rest) = Some (vs, rest)"
proof -
  obtain vs where vs: "list_all (value_ok type) vs" "length vs = n" "concat vs = bs"
    using split_values[OF assms] by blast
  then show thesis using vals.read_n_enc[OF vs(1), of rest] that[of vs] by simp
qed

lemma emplace_enc:
  assumes "kv_ok kv"
  shows "gguf_read_emplace_helper (kv_type kv) (kv_key kv) (kv_is_array kv) (kv_ne kv)
    ((if kv_type kv = GGUF_TYPE_STRING then concat (map enc_string (kv_strings kv)) else kv_bytes kv) @ rest) = Inr (Some (kv, rest))"
proof (cases "kv_type kv = GGUF_TYPE_STRING")
  case True
  have ss: "list_all (\<lambda>s. length s \<le> GGUF_MAX_STRING_LENGTH) (kv_strings kv)" "length (kv_strings kv) \<le> GGUF_MAX_ARRAY_ELEMENTS"
    using assms True by (auto simp: kv_ok_def kv_ne_def list_all_iff)
  have "read_n gr_string (kv_ne kv) (concat (map enc_string (kv_strings kv)) @ rest) = Some (kv_strings kv, rest)"
    using strings.read_n_enc[OF ss(1), of rest] True by (simp add: kv_ne_def)
  then show ?thesis using True assms gr_vector_strings[OF ss, of rest]
    by (auto simp: gguf_read_emplace_helper_def kv_ok_def kv_ne_def gguf_kv_new_def simp del: read_n.simps)
next
  case False
  have len: "length (kv_bytes kv) = kv_ne kv * gguf_type_size (kv_type kv)" "kv_ne kv \<le> GGUF_MAX_ARRAY_ELEMENTS"
    "kv_type kv = GGUF_TYPE_BOOL \<longrightarrow> set (kv_bytes kv) \<subseteq> {0, 1}" "kv_is_array kv \<or> kv_ne kv = 1" "kv_strings kv = []" "kv_key kv \<noteq> []"
    using assms False by (auto simp: kv_ok_def)
  obtain vs where vs: "concat vs = kv_bytes kv" "read_n (gr_value (kv_type kv)) (kv_ne kv) (kv_bytes kv @ rest) = Some (vs, rest)"
    by (rule read_values[OF len(1,3)])
  have "gguf_type_size (kv_type kv) \<le> 8" by (cases "kv_type kv") auto
  then have "1073741824 * gguf_type_size (kv_type kv) \<le> SIZE_MAX" by (simp add: SIZE_MAX_def)
  then have "1073741824 \<le> SIZE_MAX div gguf_type_size (kv_type kv)"
    using kv_ok_type_size[OF assms False] by (simp add: less_eq_div_iff_mult_less_eq)
  then have "gr_vector (gguf_type_size (kv_type kv)) (gr_value (kv_type kv)) (kv_ne kv) (kv_bytes kv @ rest) = Some (vs, rest)"
    using len vs by (simp add: gr_vector_def GGUF_MAX_ARRAY_ELEMENTS_def)
  then show ?thesis using False len vs
    by (auto simp: gguf_read_emplace_helper_def gguf_kv_new_def simp del: read_n.simps)
qed

lemma read_kv_enc:
  assumes "kv_ok kv" "kv_key kv \<notin> kv_key ` set kvs"
  shows "read_kv kvs (enc_kv kv @ rest) = Inr (Some (kv, rest))"
proof -
  have key: "length (kv_key kv) \<le> GGUF_MAX_STRING_LENGTH" "kv_type kv \<noteq> GGUF_TYPE_ARRAY" "kv_ne kv < 2 ^ 64"
    "\<not> kv_is_array kv \<Longrightarrow> kv_ne kv = 1"
    using assms(1) by (auto simp: kv_ok_def GGUF_MAX_ARRAY_ELEMENTS_def)
  then show ?thesis using assms(2) emplace_enc[OF assms(1), of rest]
    by (cases "kv_is_array kv") (auto simp: read_kv_def enc_kv_def gr_string_enc gr_gguf_type_enc gr_uint_enc read_kv_value_def image_iff
      simp del: le_bytes.simps)
qed

lemma read_kvs_enc:
  "list_all kv_ok xs \<Longrightarrow> distinct (map kv_key (kvs @ xs)) \<Longrightarrow>
   read_kvs (length xs) kvs (concat (map enc_kv xs) @ rest) = Inr (Some (kvs @ xs, rest))"
proof (induction xs arbitrary: kvs)
  case (Cons x xs)
  then show ?case using read_kv_enc[of x kvs] Cons.IH[of "kvs @ [x]"] by auto
qed simp

definition enc_ne :: "int list \<Rightarrow> bytes" where
  "enc_ne ne = concat (map (\<lambda>x. le_bytes 8 (unsigned_at 64 x)) ne)"

definition enc_info :: "gguf_tensor_info \<Rightarrow> bytes" where
  "enc_info ti =
    (let t = ti_t ti in
     enc_string (t_name t) @ le_bytes 4 (ggml_n_dims t) @ enc_ne (take (ggml_n_dims t) (t_ne t)) @
     le_bytes 4 (unsigned_at 32 (t_type t)) @ le_bytes 8 (ti_offset ti))"

lemma cstr_id: "0 \<notin> set s \<Longrightarrow> cstr s = s"
  by (auto simp: cstr_def takeWhile_eq_all_conv)

lemma fold_put: "fold (\<lambda>j. gw_put (f j)) js w = gw_put (concat (map f js)) w"
  by (induction js arbitrary: w) (simp_all add: gw_put_put)

lemma n_dims_le: "ggml_n_dims t \<le> 4"
  by (simp add: ggml_n_dims_def)

lemma write_tensor_meta_eq:
  assumes "info_ok ti"
  shows "write_tensor_meta ti w = gw_put (enc_info ti) w"
proof -
  have len: "length (t_ne (ti_t ti)) = 4" using assms by (simp add: info_ok_def dense_def shape_ok_def GGML_MAX_DIMS_def)
  have "map (\<lambda>j. le_bytes 8 (unsigned_at 64 (t_ne (ti_t ti) ! j))) [0..<ggml_n_dims (ti_t ti)] =
      map (\<lambda>x. le_bytes 8 (unsigned_at 64 x)) (take (ggml_n_dims (ti_t ti)) (t_ne (ti_t ti)))"
    using len n_dims_le[of "ti_t ti"] by (intro nth_equalityI) (simp_all del: le_bytes.simps)
  then show ?thesis using assms
    by (simp add: write_tensor_meta_def enc_info_def enc_ne_def fold_put gw_put_put gw_string_def enc_string_def cstr_id info_ok_def Let_def
      del: le_bytes.simps)
qed

lemma fold_tensor_meta: "list_all info_ok tis \<Longrightarrow> fold write_tensor_meta tis w = gw_put (concat (map enc_info tis)) w"
  by (induction tis arbitrary: w) (simp_all add: write_tensor_meta_eq gw_put_put)

lemma shape_dim_bounds:
  assumes "shape_ok type ne" "elements_ok ne = Inr True" "i < 4"
  shows "0 \<le> ne ! i" "ne ! i < 2 ^ 63"
proof -
  obtain a b c d q where ne: "ne = [a, b, c, d]" and ge: "1 \<le> b" "1 \<le> c" "1 \<le> d" by (rule shape_cases[OF assms(1)])
  have a: "0 \<le> a" using assms(1) ne by (simp add: shape_ok_def)
  have d: "\<not> (INT64_MAX div b \<le> a)" "\<not> (INT64_MAX div c \<le> a * b)" "\<not> (INT64_MAX div d \<le> a * b * c)"
    using assms(2) ne by (auto simp: elements_ok_def split: if_splits)
  have "x < 2 ^ 63" if "\<not> (INT64_MAX div x \<le> y)" "0 \<le> y" "1 \<le> x" for x y :: int
    using that by (cases "INT64_MAX < x") (auto simp: div_pos_pos_trivial INT64_MAX_def)
  then have "b < 2 ^ 63" "c < 2 ^ 63" "d < 2 ^ 63" using d a ge by auto
  moreover have "a < 2 ^ 63"
  proof -
    have "a * b < INT64_MAX" using div_bound[OF _ d(1)] ge by simp
    then show ?thesis using mult_ge_left[OF a ge(1)] by (simp add: INT64_MAX_def)
  qed
  ultimately show "0 \<le> ne ! i" "ne ! i < 2 ^ 63" using a ge assms(3) ne by (auto simp: less_Suc_eq numeral_eq_Suc)
qed

text \<open>The dimensions that are not written are 1.\<close>

lemma read_ne_enc:
  assumes "\<And>i. i < length ne \<Longrightarrow> 0 \<le> ne ! i \<and> ne ! i < 2 ^ 63" "\<And>i. n \<le> m + i \<Longrightarrow> i < length ne \<Longrightarrow> ne ! i = 1"
  shows "read_ne [m..<m + length ne] n (enc_ne (take (n - m) ne) @ rest) = Some (ne, rest)"
  using assms
proof (induction ne arbitrary: m)
  case (Cons x xs)
  have range: "[m..<m + length (x # xs)] = m # [Suc m..<Suc m + length xs]" by (simp add: upt_rec)
  have x: "0 \<le> x" "x < 2 ^ 63" using Cons.prems(1)[of 0] by auto
  have IH: "read_ne [Suc m..<Suc m + length xs] n (enc_ne (take (n - Suc m) xs) @ rest) = Some (xs, rest)"
  proof (rule Cons.IH)
    show "0 \<le> xs ! i \<and> xs ! i < 2 ^ 63" if "i < length xs" for i using Cons.prems(1)[of "Suc i"] that by simp
    show "xs ! i = 1" if "n \<le> Suc m + i" "i < length xs" for i using Cons.prems(2)[of "Suc i"] that by simp
  qed
  show ?case
  proof (cases "m < n")
    case True
    then obtain k where k: "n - m = Suc k" "n - Suc m = k" by (metis Suc_diff_Suc)
    then show ?thesis using True x IH gr_int_enc[of 8 x] unfolding range
      by (simp add: enc_ne_def del: le_bytes.simps upt_Suc)
  next
    case False
    then have "x = 1" "n - m = 0" "n - Suc m = 0" using Cons.prems(2)[of 0] by auto
    then show ?thesis using False IH unfolding range by (simp add: enc_ne_def del: upt_Suc)
  qed
qed (simp add: enc_ne_def)

lemma read_ne_tensor:
  assumes "info_ok ti"
  shows "read_ne [0..<GGML_MAX_DIMS] (ggml_n_dims (ti_t ti)) (enc_ne (take (ggml_n_dims (ti_t ti)) (t_ne (ti_t ti))) @ rest) = Some (t_ne (ti_t ti), rest)"
proof -
  let ?t = "ti_t ti"
  have sh: "shape_ok (t_type ?t) (t_ne ?t)" "elements_ok (t_ne ?t) = Inr True" using assms by (simp_all add: info_ok_def dense_def)
  obtain a b c d q where ne: "t_ne ?t = [a, b, c, d]" and ge: "1 \<le> b" "1 \<le> c" "1 \<le> d" by (rule shape_cases[OF sh(1)])
  have one: "t_ne ?t ! i = 1" if "ggml_n_dims ?t \<le> i" "i < 4" for i
    using that ge ne by (auto simp: ggml_n_dims_def less_Suc_eq numeral_eq_Suc split: if_splits)
  have len: "0 + length (t_ne ?t) = GGML_MAX_DIMS" using ne by (simp add: GGML_MAX_DIMS_def)
  have "read_ne [0..<0 + length (t_ne ?t)] (ggml_n_dims ?t) (enc_ne (take (ggml_n_dims ?t - 0) (t_ne ?t)) @ rest) = Some (t_ne ?t, rest)"
    by (rule read_ne_enc) (use shape_dim_bounds[OF sh] one len in \<open>simp_all add: GGML_MAX_DIMS_def\<close>)
  then show ?thesis unfolding len by simp
qed

lemma shape_type_ok:
  assumes "shape_ok type ne"
  shows "type_ok type ne"
proof -
  let ?n = "ne ! 0 * ne ! 1 * ne ! 2 * ne ! 3" and ?k = "int (ggml_blck_size type)" and ?s = "ggml_type_size type"
  obtain a b c d q where ne: "ne = [a, b, c, d]" "0 \<le> q" "1 \<le> b" "1 \<le> c" "1 \<le> d" and lt: "q * b * c * d * int ?s < 2 ^ 64"
    and prod: "a * b * c * d = ?k * (q * b * c * d)" by (rule shape_cases[OF assms])
  have t: "0 \<le> type" "type < GGML_TYPE_COUNT" "ggml_blck_size type \<noteq> 0" "?k dvd ne ! 0" using assms by (simp_all add: shape_ok_def)
  have s: "0 < ?s" using type_size_pos[OF t(1-3)] by simp
  define m where "m = nat (q * b * c * d)"
  have nn: "0 \<le> q * b * c * d" using ne by simp
  have "?n = ?k * (q * b * c * d)" unfolding ne(1) using prod by simp
  then have m: "?n div ?k = int m" using t(3) nn by (simp only: m_def nonzero_mult_div_cancel_left of_nat_eq_0_iff int_nat_eq if_True not_False_eq_True)
  have "int (m * ?s) < 2 ^ 64" using lt nn by (simp add: m_def)
  then have ms: "m * ?s < 2 ^ 64" by (metis of_nat_less_iff of_nat_numeral of_nat_power)
  have "m \<le> m * ?s" using s by simp
  then have "m < 2 ^ 64" using ms by (rule le_less_trans)
  then have "u64 (?n div ?k) = m" unfolding m by (rule u64_nat)
  moreover have "m \<le> SIZE_MAX div ?s" using ms s by (simp add: SIZE_MAX_def less_eq_div_iff_mult_less_eq)
  ultimately show ?thesis using t by (auto simp: type_ok_def dvd_eq_mod_eq_0)
qed

definition no_data :: "gguf_tensor_info \<Rightarrow> gguf_tensor_info" where
  "no_data ti = ti\<lparr>ti_t := (ti_t ti)\<lparr>t_data := None\<rparr>\<rparr>"

lemma read_info_enc:
  assumes "info_ok ti" "list_all info_ok tis" "t_name (ti_t ti) \<notin> (\<lambda>ti. t_name (ti_t ti)) ` set tis"
  shows "read_info tis (enc_info ti @ rest) = Inr (Some (no_data ti, rest))"
proof -
  let ?t = "ti_t ti"
  have ok: "length (t_name ?t) < 64" "0 \<notin> set (t_name ?t)" "elements_ok (t_ne ?t) = Inr True" "shape_ok (t_type ?t) (t_ne ?t)"
    "t_nb ?t = row_strides (t_type ?t) (t_ne ?t)" "ti_offset ti < 2 ^ 64"
    using assms(1) by (simp_all add: info_ok_def dense_def GGML_MAX_NAME_def)
  have type: "0 \<le> t_type ?t" "t_type ?t < 40" using ok(4) by (simp_all add: shape_ok_def GGML_TYPE_COUNT_def)
  have new: "\<not> (\<exists>tj \<in> set tis. t_name ?t = cstr (t_name (ti_t tj)))"
    using assms(2,3) by (auto simp: list_all_iff info_ok_def cstr_id)
  have str: "gr_string (enc_string (t_name ?t) @ r) = Some (t_name ?t, r)" for r
    using ok(1) by (intro gr_string_enc) (simp add: GGUF_MAX_STRING_LENGTH_def)
  show ?thesis
    using ok(1-3,5,6) type new shape_type_ok[OF ok(4)] n_dims_le[of ?t] read_ne_tensor[OF assms(1)]
      gr_int_enc[of 4 "t_type ?t"]
    by (simp add: read_info_def enc_info_def Let_def str cstr_id ggml_set_name_def gr_uint_enc GGML_MAX_NAME_def no_data_def GGML_MAX_DIMS_def
      del: le_bytes.simps read_ne.simps upt_Suc)
qed

lemma no_data_simps [simp]:
  "t_name (ti_t (no_data ti)) = t_name (ti_t ti)" "ti_offset (no_data ti) = ti_offset ti" "info_ok (no_data ti) = info_ok ti"
  "ggml_nbytes (ti_t (no_data ti)) = ggml_nbytes (ti_t ti)"
  by (simp_all add: no_data_def info_ok_def dense_def ggml_nbytes_def Let_def)

lemma read_infos_enc:
  "list_all info_ok tis \<Longrightarrow> list_all info_ok xs \<Longrightarrow> distinct (map (\<lambda>ti. t_name (ti_t ti)) (tis @ xs)) \<Longrightarrow>
   read_infos (length xs) tis (concat (map enc_info xs) @ rest) = Inr (Some (tis @ map no_data xs, rest))"
proof (induction xs arbitrary: tis)
  case (Cons x xs)
  have "read_info tis (enc_info x @ concat (map enc_info xs) @ rest) = Inr (Some (no_data x, concat (map enc_info xs) @ rest))"
    using Cons.prems by (intro read_info_enc) auto
  then show ?case using Cons.IH[of "tis @ [no_data x]"] Cons.prems by (simp add: comp_def)
qed simp

lemma data_size_no_data [simp]: "data_size a sz (map no_data tis) = data_size a sz tis"
  by (induction tis arbitrary: sz) (simp_all add: Let_def)

section \<open>Padding\<close>

definition pad_len :: "nat \<Rightarrow> nat \<Rightarrow> nat" where
  "pad_len a n = (a - n mod a) mod a"

lemma gw_pad_eq: "0 < a \<Longrightarrow> gw_pad a w = Inr (gw_put (replicate (pad_len a (gw_written w)) 0) w)"
proof (induction a w rule: gw_pad.induct)
  case (1 a w)
  show ?case
  proof (cases "gw_written w mod a = 0")
    case True
    then show ?thesis using 1 by (subst gw_pad.simps) (simp add: pad_len_def)
  next
    case False
    have lt: "gw_written w mod a < a" using 1 by simp
    have "pad_len a (gw_written w) = Suc (pad_len a (Suc (gw_written w)))"
      using False lt by (auto simp: pad_len_def mod_Suc)
    moreover have "gw_pad a (gw_put [0] w) = Inr (gw_put (replicate (pad_len a (gw_written (gw_put [0] w))) 0) (gw_put [0] w))"
      using 1 False by simp
    ultimately show ?thesis using False 1(2) by (subst gw_pad.simps) (simp add: gw_put_put)
  qed
qed

lemma and_half: "m div 2 AND n div 2 = (m AND n) div (2 :: nat)"
  using drop_bit_and[of 1 m n] by (simp add: drop_bit_eq_div)

lemma and_pred_pow2: "0 < n \<Longrightarrow> n AND (n - 1) = (0 :: nat) \<Longrightarrow> \<exists>k. n = 2 ^ k"
proof (induction n rule: less_induct)
  case (less n)
  show ?case
  proof (cases "even n")
    case True
    then obtain b where b: "n = 2 * b" by (elim evenE)
    have "0 < b" "b < n" using less.prems(1) b by auto
    moreover have "b AND (b - 1) = 0"
    proof -
      have "(n - 1) div 2 = b - 1" "n div 2 = b" using b by auto
      then show ?thesis using less.prems(2) and_half[of n "n - 1"] by simp
    qed
    ultimately obtain k where "b = 2 ^ k" using less.IH by blast
    then show ?thesis using b by (intro exI[of _ "Suc k"]) simp
  next
    case False
    then obtain b where b: "n = 2 * b + 1" by (elim oddE)
    have "(n - 1) div 2 = b" "n div 2 = b" using b by auto
    then have "b = 0" using less.prems(2) and_half[of n "n - 1"] by simp
    then show ?thesis using b by (intro exI[of _ 0]) simp
  qed
qed

lemma alignment_pow2:
  assumes "alignment_ok a" "a < 2 ^ 64"
  obtains k where "k < 64" "a = 2 ^ k"
proof -
  have pos: "0 < a" and z: "(word_of_nat a AND (word_of_nat a - 1) :: 64 word) = 0"
    using assms(1) by (auto simp: alignment_ok_def)
  have "(word_of_nat a - 1 :: 64 word) = word_of_nat (a - 1)" using pos by (simp add: of_nat_diff)
  then have "unat (word_of_nat a AND word_of_nat (a - 1) :: 64 word) = 0" using z by simp
  then have "a AND (a - 1) = 0" using assms(2) by (simp add: unsigned_and_eq unat_of_nat)
  then obtain k where k: "a = 2 ^ k" using and_pred_pow2[OF pos] by blast
  then have "(2 :: nat) ^ k < 2 ^ 64" using assms(2) by simp
  then have "k < 64" by (simp only: power_strict_increasing_iff one_less_numeral_iff semiring_norm)
  then show thesis using k that by blast
qed

lemma read_alignment_small:
  assumes "read_alignment ctx = Inr a"
  shows "a < 2 ^ 32"
proof -
  have "le_val (take 4 v) < 256 ^ 4" for v using le_val_less[of "take 4 v"] less_le_trans[of _ _ "256 ^ 4 :: nat"]
    by (metis length_take min.cobounded2 power_increasing one_le_numeral)
  then show ?thesis using assms
    by (auto simp: read_alignment_def gguf_get_val_u32_def gguf_get_val_def get_val_def and_then_Inr GGUF_DEFAULT_ALIGNMENT_def Let_def
      split: if_splits)
qed

text \<open>The writer's padding ends where \<^verbatim>\<open>GGML_PAD\<close> says.\<close>

lemma pad_len_eq:
  assumes "k < 64" "n + 2 ^ k \<le> 2 ^ 64"
  shows "n + pad_len (2 ^ k) n = GGML_PAD n (2 ^ k)"
proof -
  let ?a = "2 ^ k :: nat"
  define q r where "q = n div ?a" and "r = n mod ?a"
  have n: "n = q * ?a + r" "r < ?a" unfolding q_def r_def by (simp_all only: div_mult_mod_eq) simp
  have "GGML_PAD n ?a = (q * ?a + r + ?a - 1) div ?a * ?a" using GGML_PAD_eq[OF assms] n(1) by simp
  moreover have "n + pad_len ?a n = (if r = 0 then q * ?a else Suc q * ?a)" using n by (auto simp: pad_len_def)
  moreover have "(q * ?a + r + ?a - 1) div ?a = (if r = 0 then q else Suc q)"
  proof (cases "r = 0")
    case True
    then have "q * ?a + r + ?a - 1 = q * ?a + (?a - 1)" by simp
    moreover have "(q * ?a + (?a - 1)) div ?a = q" by (subst div_mult_self3) simp_all
    ultimately show ?thesis using True by simp
  next
    case False
    then have "q * ?a + r + ?a - 1 = Suc q * ?a + (r - 1)" by simp
    moreover have "(Suc q * ?a + (r - 1)) div ?a = Suc q"
      by (subst div_mult_self3) (use n(2) in simp_all)
    ultimately show ?thesis using False by simp
  qed
  ultimately show ?thesis by simp
qed

section \<open>The round trip\<close>

definition enc_meta :: "gguf_context \<Rightarrow> bytes" where
  "enc_meta ctx = GGUF_MAGIC @ le_bytes 4 (gg_version ctx) @ le_bytes 8 (length (gg_info ctx)) @ le_bytes 8 (length (gg_kv ctx)) @
    concat (map enc_kv (gg_kv ctx)) @ concat (map enc_info (gg_info ctx))"

text \<open>The counts are within the reader's bounds, and the description is of a size a file can have.\<close>

definition fits :: "gguf_abi \<Rightarrow> gguf_context \<Rightarrow> bool" where
  "fits abi ctx \<longleftrightarrow>
    length (gg_kv ctx) \<le> SIZE_MAX div abi_kv abi \<and> length (gg_info ctx) \<le> SIZE_MAX div abi_tensor_info abi \<and>
    length (gg_kv ctx) < 2 ^ 63 \<and> length (gg_info ctx) < 2 ^ 63 \<and> length (enc_meta ctx) + gg_alignment ctx < 2 ^ 63"

lemma unsigned_at_nat: "n < 2 ^ w \<Longrightarrow> unsigned_at w (int n) = n"
  by (simp add: unsigned_at_def nat_mod_distrib)

lemma contents_alignment:
  assumes "contents_ok ctx"
  obtains k where "k < 64" "gg_alignment ctx = 2 ^ k"
proof -
  have "gg_alignment ctx < 2 ^ 32" using assms by (intro read_alignment_small[of ctx]) (simp add: contents_ok_def)
  then have "gg_alignment ctx < 2 ^ 64" by simp
  moreover have "alignment_ok (gg_alignment ctx)" using assms by (simp add: contents_ok_def)
  ultimately show thesis using alignment_pow2 that by blast
qed

lemma write_meta_eq:
  assumes "contents_ok ctx" "fits abi ctx"
  shows "gguf_write_out ctx only_meta \<lparr>gw_buf = [], gw_written = 0\<rparr> =
    (let w = gw_put (enc_meta ctx @ replicate (pad_len (gg_alignment ctx) (length (enc_meta ctx))) 0) \<lparr>gw_buf = [], gw_written = 0\<rparr> in
     if only_meta then Inr w else gw_data (gg_info ctx) (gw_written w) (gg_alignment ctx) w)"
proof -
  obtain k where k: "gg_alignment ctx = 2 ^ k" by (rule contents_alignment[OF assms(1)])
  let ?w = "\<lparr>gw_buf = [], gw_written = 0\<rparr>"
  let ?w1 = "gw_put (le_bytes 8 (unsigned_at 64 (gguf_get_n_kv ctx))) (gw_put (le_bytes 8 (unsigned_at 64 (gguf_get_n_tensors ctx)))
    (gw_put (le_bytes 4 (gg_version ctx)) (gw_put GGUF_MAGIC ?w)))"
  have ok: "list_all kv_ok (gg_kv ctx)" "list_all info_ok (gg_info ctx)" "0 < gg_alignment ctx"
    using assms(1) k by (simp_all add: contents_ok_def)
  have "length (gg_kv ctx) < 2 ^ 64" "length (gg_info ctx) < 2 ^ 64" using assms(2) by (simp_all add: fits_def)
  then have "fold write_tensor_meta (gg_info ctx) (gw_put (concat (map enc_kv (gg_kv ctx))) ?w1) = gw_put (enc_meta ctx) ?w"
    unfolding fold_tensor_meta[OF ok(2)] gguf_get_n_kv_def gguf_get_n_tensors_def enc_meta_def
    by (simp add: gw_put_put unsigned_at_nat del: le_bytes.simps)
  then show ?thesis unfolding gguf_write_out_def Let_def gw_kvs_eq[OF ok(1)] and_then.simps
    by (simp only: gw_pad_eq[OF ok(3)] and_then.simps gw_put_put gw_put_simps gguf_writer.select_convs add_0)
qed

lemma read_meta:
  assumes "contents_ok ctx" "fits abi ctx" and sz: "data_size (gg_alignment ctx) 0 (gg_info ctx) = Some sz"
  shows "gguf_init_from_file_impl abi (enc_meta ctx @ rest) =
    Inr (Some (ctx\<lparr>gg_info := map no_data (gg_info ctx), gg_offset := GGML_PAD (length (enc_meta ctx)) (gg_alignment ctx), gg_size := sz\<rparr>))"
proof -
  let ?infos = "concat (map enc_info (gg_info ctx))" and ?kvs = "concat (map enc_kv (gg_kv ctx))"
  obtain k where k: "k < 64" "gg_alignment ctx = 2 ^ k" by (rule contents_alignment[OF assms(1)])
  have hd: "read_header abi (enc_meta ctx @ rest) = Some ((gg_version ctx, int (length (gg_info ctx)), int (length (gg_kv ctx))), ?kvs @ ?infos @ rest)"
    unfolding enc_meta_def append_assoc using assms(1,2) by (intro read_header_enc) (simp_all add: contents_ok_def fits_def)
  have kv: "read_kvs (length (gg_kv ctx)) [] (?kvs @ ?infos @ rest) = Inr (Some (gg_kv ctx, ?infos @ rest))"
    using read_kvs_enc[of "gg_kv ctx" "[]"] assms(1) by (simp add: contents_ok_def)
  have info: "read_infos (length (gg_info ctx)) [] (?infos @ rest) = Inr (Some (map no_data (gg_info ctx), rest))"
    using read_infos_enc[of "[]" "gg_info ctx"] assms(1) by (simp add: contents_ok_def)
  have al: "read_alignment (gguf_init_empty\<lparr>gg_version := gg_version ctx, gg_kv := gg_kv ctx\<rparr>) = Inr (gg_alignment ctx)"
    "alignment_ok (gg_alignment ctx)"
    using assms(1) read_alignment_cong[of ctx "gguf_init_empty\<lparr>gg_version := gg_version ctx, gg_kv := gg_kv ctx\<rparr>"] by (simp_all add: contents_ok_def)
  have bound: "length (enc_meta ctx) + 2 ^ k < 2 ^ 63" using assms(2) k(2) by (simp add: fits_def)
  have "GGML_PAD (length (enc_meta ctx)) (2 ^ k) \<le> length (enc_meta ctx) + 2 ^ k - 1"
    using bound k(1) by (subst GGML_PAD_eq) (simp_all add: div_times_less_eq_dividend)
  then have start: "\<not> 2 ^ 63 \<le> GGML_PAD (length (enc_meta ctx)) (gg_alignment ctx)" using bound k(2) by simp
  show ?thesis unfolding gguf_init_from_file_impl_def hd
    using kv info al start sz by (simp add: Let_def gguf_init_empty_def)
qed

text \<open>A tensor whose data can be written: the pointer addresses as many bytes as the description says.\<close>

definition data_ok :: "gguf_tensor_info \<Rightarrow> bool" where
  "data_ok ti \<longleftrightarrow> (\<exists>src. t_data (ti_t ti) = Some src \<and> length src = ggml_nbytes (ti_t ti)) \<and> ggml_nbytes (ti_t ti) < 2 ^ 63"

lemma pad_len_shift: "a dvd m \<Longrightarrow> pad_len a (m + n) = pad_len a n"
  by (auto simp: pad_len_def elim: dvdE)

lemma pad_dvd:
  assumes "k < 64" "n + 2 ^ k \<le> 2 ^ 64"
  shows "2 ^ k dvd GGML_PAD n (2 ^ k)"
  by (simp add: GGML_PAD_eq[OF assms])

lemma write_tensor_data_eq:
  assumes "data_ok ti" "dense (ti_t ti)" "k < 64" "length (gw_buf w) = start + ti_offset ti" "gw_written w = length (gw_buf w)"
    "2 ^ k dvd start + ti_offset ti" "ti_offset ti < 2 ^ 64"
  shows "write_tensor_data ti start (2 ^ k) w =
    Inr (gw_put (the (t_data (ti_t ti)) @ replicate (GGML_PAD (ggml_nbytes (ti_t ti)) (2 ^ k) - ggml_nbytes (ti_t ti)) 0) w)"
proof -
  obtain src where src: "t_data (ti_t ti) = Some src" "length src = ggml_nbytes (ti_t ti)" "ggml_nbytes (ti_t ti) < 2 ^ 63"
    using assms(1) by (auto simp: data_ok_def)
  have "(2 :: nat) ^ k \<le> 2 ^ 63" using assms(3) by (intro power_increasing) auto
  then have "length src + pad_len (2 ^ k) (length src) = GGML_PAD (length src) (2 ^ k)" using src assms(3) by (intro pad_len_eq) auto
  then have "pad_len (2 ^ k) (start + ti_offset ti + length src) = GGML_PAD (length src) (2 ^ k) - length src"
    using pad_len_shift[OF assms(6), of "length src"] by simp
  then show ?thesis using assms src dense_contiguous[OF assms(2)]
    by (simp add: write_tensor_data_def gw_pad_eq gw_put_put Let_def)
qed

lemma gw_data_eq:
  assumes "list_all data_ok tis" "list_all (\<lambda>ti. dense (ti_t ti)) tis" "k < 64" "length (gw_buf w) = start + off" "gw_written w = length (gw_buf w)"
    "2 ^ k dvd start" "2 ^ k dvd off" "data_size (2 ^ k) off tis = Some sz" "off \<le> SIZE_MAX"
  shows "\<exists>bs. gw_data tis start (2 ^ k) w = Inr (gw_put bs w) \<and> off + length bs = sz \<and>
    (\<forall>ti \<in> set tis. off \<le> ti_offset ti \<and> take (ggml_nbytes (ti_t ti)) (drop (ti_offset ti - off) bs) = the (t_data (ti_t ti)))"
  using assms
proof (induction tis arbitrary: w off)
  case (Cons ti tis)
  let ?n = "ggml_nbytes (ti_t ti)" and ?p = "GGML_PAD (ggml_nbytes (ti_t ti)) (2 ^ k)" and ?src = "the (t_data (ti_t ti))"
  have src: "length ?src = ?n" "?n < 2 ^ 63" using Cons.prems(1) by (auto simp: data_ok_def)
  have off: "ti_offset ti = off" "off + ?p \<le> SIZE_MAX" "data_size (2 ^ k) (off + ?p) tis = Some sz"
    using Cons.prems(8,9) by (auto simp: Let_def split: if_splits)
  have kp: "(2 :: nat) ^ k \<le> 2 ^ 63" using Cons.prems(3) by (intro power_increasing) auto
  have bd: "?n + 2 ^ k \<le> 2 ^ 64" using src kp by simp
  have np: "?n \<le> ?p" using pad_len_eq[OF Cons.prems(3) bd] by linarith
  define b where "b = ?src @ replicate (?p - ?n) 0"
  have lb: "length b = ?p" using src np by (simp add: b_def)
  have w: "write_tensor_data ti start (2 ^ k) w = Inr (gw_put b w)" unfolding b_def
    using Cons.prems off by (intro write_tensor_data_eq) (auto simp: SIZE_MAX_def)
  obtain bs where bs: "gw_data tis start (2 ^ k) (gw_put b w) = Inr (gw_put bs (gw_put b w))" "off + ?p + length bs = sz"
    "\<forall>t \<in> set tis. off + ?p \<le> ti_offset t \<and> take (ggml_nbytes (ti_t t)) (drop (ti_offset t - (off + ?p)) bs) = the (t_data (ti_t t))"
    using Cons.IH[of "gw_put b w" "off + ?p"] Cons.prems off lb pad_dvd[OF Cons.prems(3) bd] by auto
  have "take ?n (drop (ti_offset ti - off) (b @ bs)) = ?src" using off(1) src by (simp add: b_def)
  moreover have "take (ggml_nbytes (ti_t t)) (drop (ti_offset t - off) (b @ bs)) = the (t_data (ti_t t)) \<and> off \<le> ti_offset t" if "t \<in> set tis" for t
  proof -
    have le: "off + ?p \<le> ti_offset t" using bs(3) that by blast
    then have "drop (ti_offset t - off) (b @ bs) = drop (ti_offset t - (off + ?p)) bs" using lb by simp
    then show ?thesis using bs(3) that add_leD1[OF le] by auto
  qed
  ultimately show ?case using w bs lb off(1) by (intro exI[of _ "b @ bs"]) (auto simp: gw_put_put)
qed simp

lemma write_read:
  assumes "contents_ok ctx" "fits abi ctx" "list_all data_ok (gg_info ctx)"
  shows "\<exists>meta bs ctx'. gguf_write_to_buf ctx [] True = Inr meta \<and> gguf_write_to_buf ctx [] False = Inr (meta @ bs) \<and>
    (\<forall>rest. gguf_init_from_file_impl abi (meta @ rest) = Inr (Some ctx')) \<and>
    ctx' = ctx\<lparr>gg_info := map no_data (gg_info ctx), gg_offset := length meta, gg_size := length bs\<rparr> \<and>
    (\<forall>ti \<in> set (gg_info ctx). take (ggml_nbytes (ti_t ti)) (drop (gg_offset ctx' + ti_offset ti) (meta @ bs)) = the (t_data (ti_t ti)))"
proof -
  obtain sz where sz: "data_size (gg_alignment ctx) 0 (gg_info ctx) = Some sz" using assms(1) by (auto simp: contents_ok_def)
  obtain k where k: "k < 64" "gg_alignment ctx = 2 ^ k" by (rule contents_alignment[OF assms(1)])
  let ?z = "replicate (pad_len (gg_alignment ctx) (length (enc_meta ctx))) (0 :: 8 word)"
  define meta where "meta = enc_meta ctx @ ?z"
  have bd: "length (enc_meta ctx) + 2 ^ k \<le> 2 ^ 64" using assms(2) k by (simp add: fits_def)
  have len: "length meta = GGML_PAD (length (enc_meta ctx)) (gg_alignment ctx)" using pad_len_eq[OF k(1) bd] k(2) by (simp add: meta_def)
  let ?w = "gw_put meta \<lparr>gw_buf = [], gw_written = 0\<rparr>"
  have dn: "list_all (\<lambda>ti. dense (ti_t ti)) (gg_info ctx)" using assms(1) by (auto simp: contents_ok_def list_all_iff info_ok_def)
  have "2 ^ k dvd length meta" using pad_dvd[OF k(1) bd] len k(2) by simp
  then obtain bs where bs: "gw_data (gg_info ctx) (length meta) (2 ^ k) ?w = Inr (gw_put bs ?w)" "length bs = sz"
    "\<forall>ti \<in> set (gg_info ctx). take (ggml_nbytes (ti_t ti)) (drop (ti_offset ti) bs) = the (t_data (ti_t ti))"
    using gw_data_eq[OF assms(3) dn k(1), of ?w "length meta" 0 sz] sz k(2) by auto
  have "gguf_write_to_buf ctx [] True = Inr meta" "gguf_write_to_buf ctx [] False = Inr (meta @ bs)"
    using bs(1) k(2) unfolding gguf_write_to_buf_def write_meta_eq[OF assms(1,2)] Let_def meta_def[symmetric] by simp_all
  moreover have "gguf_init_from_file_impl abi (meta @ rest) =
      Inr (Some (ctx\<lparr>gg_info := map no_data (gg_info ctx), gg_offset := length meta, gg_size := length bs\<rparr>))" for rest
    using read_meta[OF assms(1,2) sz, of "?z @ rest"] len bs(2) by (simp add: meta_def)
  ultimately show ?thesis using bs(3) by (intro exI[of _ meta] exI[of _ bs]) auto
qed

text \<open>C11. A well-formed context that is written to a buffer is read back as it was, except for the pointers to the data.
  The data section starts at the offset that is read, has the size that is read, and holds the bytes of every tensor at
  its offset. Without the data, or with anything after it, the description is read the same.\<close>

theorem gguf_roundtrip:
  assumes "contents_ok ctx" "fits abi ctx" "list_all data_ok (gg_info ctx)"
  shows "\<exists>meta bs ctx'. gguf_write_to_buf ctx [] True = Inr meta \<and> gguf_write_to_buf ctx [] False = Inr (meta @ bs) \<and>
    (\<forall>rest. gguf_init_from_file_impl abi (meta @ rest) = Inr (Some ctx')) \<and>
    ctx' = ctx\<lparr>gg_info := map no_data (gg_info ctx), gg_offset := length meta, gg_size := length bs\<rparr> \<and>
    (\<forall>ti \<in> set (gg_info ctx). take (ggml_nbytes (ti_t ti)) (drop (gg_offset ctx' + ti_offset ti) (meta @ bs)) = the (t_data (ti_t ti)))"
  using assms by (rule write_read)

text \<open>A model with an architecture, a context length and one tensor of two floats.\<close>

definition ex_pair :: "bytes \<Rightarrow> gguf_type \<Rightarrow> bytes \<Rightarrow> bytes list \<Rightarrow> gguf_kv" where
  "ex_pair key type bs ss = \<lparr>kv_key = key, kv_is_array = False, kv_type = type, kv_bytes = bs, kv_strings = ss\<rparr>"

definition ex_info :: gguf_tensor_info where
  "ex_info = \<lparr>ti_t = (ex_tensor 0 [2, 1, 1, 1])\<lparr>t_data := Some (replicate 8 7)\<rparr>, ti_offset = 0\<rparr>"

definition ex_gguf :: gguf_context where
  "ex_gguf = gguf_init_empty\<lparr>
    gg_kv := [ex_pair (str ''general.architecture'') GGUF_TYPE_STRING [] [str ''llama''],
      ex_pair (str ''llama.context_length'') GGUF_TYPE_UINT32 (le_bytes 4 2048) []],
    gg_info := [ex_info]\<rparr>"

lemma ex_info_ok: "info_ok ex_info" "data_ok ex_info" "ggml_nbytes (ti_t ex_info) = 8"
proof -
  show n: "ggml_nbytes (ti_t ex_info) = 8"
    by (simp add: ex_info_def nbytes_unfold[of _ 2 1 1 1 4 8 8 8] ex_dense_simps row_strides_def)
  show "data_ok ex_info" unfolding data_ok_def n by (simp add: ex_info_def)
  show "info_ok ex_info" by (simp add: info_ok_def ex_info_def ex_dense_simps GGML_MAX_NAME_def str_def elements_ok_def)
qed

lemma ex_contents: "contents_ok ex_gguf"
proof -
  have kv: "list_all kv_ok (gg_kv ex_gguf)" "distinct (map kv_key (gg_kv ex_gguf))"
    by (simp_all add: ex_gguf_def ex_pair_def kv_ok_def kv_ne_def str_def GGUF_MAX_STRING_LENGTH_def GGUF_MAX_ARRAY_ELEMENTS_def del: le_bytes.simps)
  have al: "read_alignment ex_gguf = Inr 32"
    by (simp add: read_alignment_def gguf_find_key_def ex_gguf_def ex_pair_def str_def cstr_def GGUF_KEY_GENERAL_ALIGNMENT_def
      GGUF_DEFAULT_ALIGNMENT_def del: le_bytes.simps)
  have "GGML_PAD 8 32 = 32" using GGML_PAD_eq[of 5 8] by simp
  then have "data_size 32 0 [ex_info] = Some 32" using ex_info_ok(3) by (simp add: SIZE_MAX_def ex_info_def)
  then show ?thesis using kv al ex_info_ok(1)
    by (simp add: contents_ok_def ex_gguf_def gguf_init_empty_def GGUF_VERSION_def GGUF_DEFAULT_ALIGNMENT_def alignment_ok_def)
qed

lemma ex_fits: "fits ex_abi ex_gguf"
  by (simp add: fits_def ex_gguf_def ex_abi_def SIZE_MAX_def gguf_init_empty_def GGUF_DEFAULT_ALIGNMENT_def enc_meta_def GGUF_MAGIC_def
    str_def enc_kv_def ex_pair_def enc_string_def enc_info_def enc_ne_def ex_info_def ex_tensor_def ggml_n_dims_def Let_def del: le_bytes.simps)

theorem gguf_roundtrip_witness:
  "\<exists>meta bs ctx'. gguf_write_to_buf ex_gguf [] False = Inr (meta @ bs) \<and> gguf_init_from_file_impl ex_abi (meta @ bs) = Inr (Some ctx') \<and>
     gg_kv ctx' = gg_kv ex_gguf \<and> take 8 (drop (gg_offset ctx') (meta @ bs)) = replicate 8 7"
proof -
  have data: "list_all data_ok (gg_info ex_gguf)" "gg_info ex_gguf = [ex_info]" using ex_info_ok(2) by (simp_all add: ex_gguf_def)
  have t: "ti_offset ex_info = 0" "the (t_data (ti_t ex_info)) = replicate 8 7" by (simp_all add: ex_info_def)
  obtain meta bs ctx' where "gguf_write_to_buf ex_gguf [] False = Inr (meta @ bs)"
    "\<forall>rest. gguf_init_from_file_impl ex_abi (meta @ rest) = Inr (Some ctx')" "gg_kv ctx' = gg_kv ex_gguf"
    "\<forall>ti \<in> set (gg_info ex_gguf). take (ggml_nbytes (ti_t ti)) (drop (gg_offset ctx' + ti_offset ti) (meta @ bs)) = the (t_data (ti_t ti))"
    using gguf_roundtrip[OF ex_contents ex_fits data(1)] by auto
  then show ?thesis using t data(2) ex_info_ok(3) by (intro exI[of _ meta] exI[of _ bs] exI[of _ ctx']) simp
qed

end
