(* ===== verification/Gguf_Reader.thy ===== *)
theory Gguf_Reader
  imports Gguf_Write
begin

text \<open>
  The JNI entry points of the app's \<^verbatim>\<open>GGUFReader\<close> (\<^verbatim>\<open>GGUFReader.cpp\<close>), with which it reads the
  context length and the chat template of a model before loading it. The contexts that are open live in a heap under their
  handles; the handle 0 is the null pointer, which a file that cannot be read gives. Strings from Java hold no zero byte.
\<close>

section \<open>Entry points\<close>

record gguf_heap =
  gh_next :: nat
  gh_mem :: "nat \<rightharpoonup> gguf_context"

definition gh_ok :: "gguf_heap \<Rightarrow> bool" where
  "gh_ok h \<longleftrightarrow> 0 < gh_next h \<and> gh_mem h 0 = None \<and> (\<forall>i \<ge> gh_next h. gh_mem h i = None)"

definition getGGUFContextNativeHandle :: "gguf_abi \<Rightarrow> (bytes \<rightharpoonup> bytes) \<Rightarrow> bytes \<Rightarrow> gguf_heap \<Rightarrow> (gguf_heap \<times> nat) res" where
  "getGGUFContextNativeHandle abi fopen modelPath h =
    and_then (gguf_init_from_file abi fopen modelPath) (\<lambda>r.
      case r of
        None \<Rightarrow> Inr (h, 0)
      | Some ctx \<Rightarrow> Inr (h\<lparr>gh_next := Suc (gh_next h), gh_mem := (gh_mem h)(gh_next h \<mapsto> ctx)\<rparr>, gh_next h))"

definition deref :: "gguf_heap \<Rightarrow> nat \<Rightarrow> gguf_context res" where
  "deref h nativeHandle = (case gh_mem h nativeHandle of None \<Rightarrow> Inl Undefined | Some ctx \<Rightarrow> Inr ctx)"

definition getContextSize :: "nat \<Rightarrow> gguf_heap \<Rightarrow> int res" where
  "getContextSize nativeHandle h =
    and_then (deref h nativeHandle) (\<lambda>ctx.
      let architectureKeyId = gguf_find_key ctx (str ''general.architecture'') in
      if architectureKeyId = - 1 then Inr (- 1)
      else and_then (gguf_get_val_str ctx architectureKeyId) (\<lambda>architecture.
        let contextLengthKey = architecture @ str ''.context_length'';
            contextLengthKeyId = gguf_find_key ctx contextLengthKey in
        if contextLengthKeyId = - 1 then Inr (- 1)
        else and_then (gguf_get_val_u32 ctx contextLengthKeyId) (\<lambda>contextLength. Inr (int contextLength))))"

definition getChatTemplate :: "nat \<Rightarrow> gguf_heap \<Rightarrow> bytes res" where
  "getChatTemplate nativeHandle h =
    and_then (deref h nativeHandle) (\<lambda>ctx.
      let chatTemplateKeyId = gguf_find_key ctx (str ''tokenizer.chat_template'') in
      if chatTemplateKeyId = - 1 then Inr []
      else gguf_get_val_str ctx chatTemplateKeyId)"

definition freeGGUFContext :: "nat \<Rightarrow> gguf_heap \<Rightarrow> gguf_heap res" where
  "freeGGUFContext nativeHandle h =
    (if nativeHandle \<noteq> 0 then
       (case gh_mem h nativeHandle of None \<Rightarrow> Inl Undefined | Some _ \<Rightarrow> Inr (h\<lparr>gh_mem := (gh_mem h)(nativeHandle := None)\<rparr>))
     else Inr h)"

section \<open>What they answer\<close>

text \<open>The answers by the dictionary of the file: a string and a \<^verbatim>\<open>uint32_t\<close> are asserted to be single values of
  their type (an array of one counts), and are absent otherwise.\<close>

fun one_string :: "gguf_value \<Rightarrow> bytes res" where
  "one_string (is_array, type, bs, ss) =
    (if type = GGUF_TYPE_STRING then (case ss of [s] \<Rightarrow> Inr (cstr s) | _ \<Rightarrow> Inl Abort) else Inl Abort)"

fun one_u32 :: "gguf_value \<Rightarrow> nat res" where
  "one_u32 (is_array, type, bs, ss) =
    (if type = GGUF_TYPE_UINT32 \<and> length bs = 4 then Inr (le_val bs) else Inl Abort)"

definition context_size_of :: "(bytes \<rightharpoonup> gguf_value) \<Rightarrow> int res" where
  "context_size_of d =
    (case d (str ''general.architecture'') of
       None \<Rightarrow> Inr (- 1)
     | Some v \<Rightarrow> and_then (one_string v) (\<lambda>architecture.
         case d (architecture @ str ''.context_length'') of
           None \<Rightarrow> Inr (- 1)
         | Some n \<Rightarrow> and_then (one_u32 n) (\<lambda>k. Inr (int k))))"

definition chat_template_of :: "(bytes \<rightharpoonup> gguf_value) \<Rightarrow> bytes res" where
  "chat_template_of d = (case d (str ''tokenizer.chat_template'') of None \<Rightarrow> Inr [] | Some v \<Rightarrow> one_string v)"

lemma get_val_str_value:
  assumes "kv_ok kv"
  shows "and_then (get_ne kv) (\<lambda>ne. if ne \<noteq> 1 then Inl Abort else and_then (get_val_str kv 0) (\<lambda>s. Inr (cstr s))) = one_string (kv_value kv)"
proof (cases "kv_type kv = GGUF_TYPE_STRING")
  case True
  then show ?thesis unfolding get_ne_ok[OF assms]
    by (auto simp: kv_value_def kv_ne_def get_val_str_def split: list.splits)
next
  case False
  then show ?thesis unfolding get_ne_ok[OF assms] by (auto simp: kv_value_def get_val_str_def)
qed

lemma get_val_u32_value:
  assumes "kv_ok kv"
  shows "and_then (and_then (get_ne kv) (\<lambda>ne. if ne \<noteq> 1 then Inl Abort else get_val GGUF_TYPE_UINT32 kv 0)) (\<lambda>v. Inr (le_val v)) = one_u32 (kv_value kv)"
proof (cases "kv_type kv = GGUF_TYPE_UINT32")
  case True
  then have "length (kv_bytes kv) = kv_ne kv * 4" using assms by (simp add: kv_ok_def)
  then show ?thesis using True unfolding get_ne_ok[OF assms] by (auto simp: kv_value_def get_val_def)
next
  case False
  then show ?thesis unfolding get_ne_ok[OF assms] by (auto simp: kv_value_def get_val_def)
qed

lemma cstr_append: "0 \<notin> set b \<Longrightarrow> cstr (cstr a @ b) = cstr a @ b"
  by (rule cstr_id) (auto simp: cstr_def dest: set_takeWhileD)

lemma cstr_lit [simp]: "cstr (str ''general.architecture'') = str ''general.architecture''"
  "cstr (str ''tokenizer.chat_template'') = str ''tokenizer.chat_template''" "0 \<notin> set (str ''.context_length'')"
  by (simp_all add: cstr_def str_def)

lemma found_kv:
  assumes "list_all kv_ok (gg_kv ctx)" "gguf_dict ctx (cstr key) = Some v"
  obtains kv where "kv_at ctx (gguf_find_key ctx key) = Inr kv" "kv_ok kv" "kv_value kv = v" "gguf_find_key ctx key \<noteq> - 1"
proof -
  obtain i where "i < length (gg_kv ctx)" "gguf_find_key ctx key = int i" "kv_value (gg_kv ctx ! i) = v"
    by (rule find_key_Some[OF assms(2)])
  then show thesis using that[of "gg_kv ctx ! i"] assms(1) by (simp add: kv_at_def gguf_get_n_kv_def list_all_length)
qed

lemma str_by_dict:
  assumes "list_all kv_ok (gg_kv ctx)" "gguf_dict ctx (cstr key) = Some v"
  shows "gguf_get_val_str ctx (gguf_find_key ctx key) = one_string v" "gguf_find_key ctx key \<noteq> - 1"
proof -
  obtain kv where "kv_at ctx (gguf_find_key ctx key) = Inr kv" "kv_ok kv" "kv_value kv = v" and ne: "gguf_find_key ctx key \<noteq> - 1"
    by (rule found_kv[OF assms])
  then show "gguf_get_val_str ctx (gguf_find_key ctx key) = one_string v" "gguf_find_key ctx key \<noteq> - 1"
    using get_val_str_value[of kv] by (simp_all add: gguf_get_val_str_def)
qed

lemma u32_by_dict:
  assumes "list_all kv_ok (gg_kv ctx)" "gguf_dict ctx (cstr key) = Some v"
  shows "gguf_get_val_u32 ctx (gguf_find_key ctx key) = one_u32 v" "gguf_find_key ctx key \<noteq> - 1"
proof -
  obtain kv where "kv_at ctx (gguf_find_key ctx key) = Inr kv" "kv_ok kv" "kv_value kv = v" and ne: "gguf_find_key ctx key \<noteq> - 1"
    by (rule found_kv[OF assms])
  then show "gguf_get_val_u32 ctx (gguf_find_key ctx key) = one_u32 v" "gguf_find_key ctx key \<noteq> - 1"
    using get_val_u32_value[of kv] by (simp_all add: gguf_get_val_u32_def gguf_get_val_def)
qed

lemma context_size_by_dict:
  assumes "list_all kv_ok (gg_kv ctx)" "gh_mem h hdl = Some ctx"
  shows "getContextSize hdl h = context_size_of (gguf_dict ctx)"
proof (cases "gguf_dict ctx (str ''general.architecture'')")
  case None
  then show ?thesis using assms(2) find_key_None[of ctx "str ''general.architecture''"]
    by (simp add: getContextSize_def deref_def context_size_of_def)
next
  case (Some v)
  note arch = str_by_dict[OF assms(1), of "str ''general.architecture''" v]
  show ?thesis
  proof (cases "one_string v")
    case (Inl e)
    then show ?thesis using Some arch assms(2) by (simp add: getContextSize_def deref_def context_size_of_def)
  next
    case (Inr a)
    have "a = cstr a" using Inr by (cases v rule: one_string.cases) (auto split: if_splits list.splits)
    then have key: "cstr (a @ str ''.context_length'') = a @ str ''.context_length''" by (metis cstr_append cstr_lit(3))
    show ?thesis
      using Some arch Inr assms(2) find_key_None[of ctx "a @ str ''.context_length''"] u32_by_dict[OF assms(1), of "a @ str ''.context_length''"]
      by (cases "gguf_dict ctx (a @ str ''.context_length'')") (auto simp: getContextSize_def deref_def context_size_of_def key)
  qed
qed

lemma chat_template_by_dict:
  assumes "list_all kv_ok (gg_kv ctx)" "gh_mem h hdl = Some ctx"
  shows "getChatTemplate hdl h = chat_template_of (gguf_dict ctx)"
  using assms(2) find_key_None[of ctx "str ''tokenizer.chat_template''"] str_by_dict[OF assms(1), of "str ''tokenizer.chat_template''"]
  by (cases "gguf_dict ctx (str ''tokenizer.chat_template'')") (auto simp: getChatTemplate_def deref_def chat_template_of_def)

lemma open_file:
  assumes "gh_ok h" "gguf_init_from_file abi fopen path = Inr (Some ctx)"
  shows "\<exists>h' hdl. getGGUFContextNativeHandle abi fopen path h = Inr (h', hdl) \<and> hdl \<noteq> 0 \<and> gh_mem h hdl = None \<and> gh_ok h' \<and>
    gh_mem h' = (gh_mem h)(hdl \<mapsto> ctx)"
  using assms by (auto simp: getGGUFContextNativeHandle_def gh_ok_def)

text \<open>Any file that opens answers by its dictionary: the context length of its architecture or \<open>- 1\<close>, and its chat
  template or the empty string. The pairs that are asked for must have the expected type, or the process is aborted. A
  file that does not open gives the null handle, on which both calls have no meaning.\<close>

theorem reader_any_file:
  assumes "gh_ok h" "getGGUFContextNativeHandle abi fopen path h = Inr (h', hdl)"
  shows "gh_ok h' \<and>
    (if hdl = 0 then h' = h \<and> getContextSize hdl h' = Inl Undefined \<and> getChatTemplate hdl h' = Inl Undefined
     else \<exists>ctx. contents_ok ctx \<and> gh_mem h' = (gh_mem h)(hdl \<mapsto> ctx) \<and> getContextSize hdl h' = context_size_of (gguf_dict ctx) \<and>
       getChatTemplate hdl h' = chat_template_of (gguf_dict ctx))"
proof -
  consider "gguf_init_from_file abi fopen path = Inr None" | ctx where "gguf_init_from_file abi fopen path = Inr (Some ctx)"
    using assms(2) by (cases "gguf_init_from_file abi fopen path") (auto simp: getGGUFContextNativeHandle_def split: option.splits)
  then show ?thesis
  proof cases
    case 1
    then show ?thesis using assms
      by (auto simp: getGGUFContextNativeHandle_def getContextSize_def getChatTemplate_def deref_def gh_ok_def)
  next
    case (2 ctx)
    then obtain f where f: "gguf_init_from_file_impl abi f = Inr (Some ctx)"
      by (auto simp: gguf_init_from_file_def null_then_Some)
    have ok: "contents_ok ctx" by (rule read_contents[OF f])
    have h': "hdl \<noteq> 0" "gh_ok h'" "gh_mem h' = (gh_mem h)(hdl \<mapsto> ctx)" using open_file[OF assms(1) 2] assms(2) by auto
    have kv: "list_all kv_ok (gg_kv ctx)" using ok by (simp add: contents_ok_def)
    have mem: "gh_mem h' hdl = Some ctx" using h'(3) by simp
    show ?thesis
      using ok h' context_size_by_dict[OF kv mem] chat_template_by_dict[OF kv mem] by auto
  qed
qed

text \<open>C27. Opening the file of a model that was written from a context answers with what the context says, and closing it
  leaves the heap as it was.\<close>

theorem reader_of_written:
  assumes "contents_ok ctx" "fits abi ctx" "list_all data_ok (gg_info ctx)" "gh_ok h"
  shows "\<exists>buf. gguf_write_to_buf ctx [] False = Inr buf \<and>
    (\<forall>fopen path. fopen path = Some buf \<longrightarrow>
      (\<exists>h' hdl. getGGUFContextNativeHandle abi fopen path h = Inr (h', hdl) \<and> hdl \<noteq> 0 \<and>
        getContextSize hdl h' = context_size_of (gguf_dict ctx) \<and> getChatTemplate hdl h' = chat_template_of (gguf_dict ctx) \<and>
        (\<exists>h''. freeGGUFContext hdl h' = Inr h'' \<and> gh_mem h'' = gh_mem h)))"
proof -
  obtain meta bs ctx' where w: "gguf_write_to_buf ctx [] False = Inr (meta @ bs)" "gguf_init_from_file_impl abi (meta @ bs) = Inr (Some ctx')"
    "gg_kv ctx' = gg_kv ctx"
    using write_read[OF assms(1-3)] by auto
  have kv: "list_all kv_ok (gg_kv ctx')" and d: "gguf_dict ctx' = gguf_dict ctx"
    using assms(1) w(3) by (simp_all add: contents_ok_def gguf_dict_def)
  show ?thesis
  proof (intro exI[of _ "meta @ bs"] conjI w(1) allI impI)
    fix fopen :: "bytes \<rightharpoonup> bytes" and path
    assume "fopen path = Some (meta @ bs)"
    then have "gguf_init_from_file abi fopen path = Inr (Some ctx')" using w(2) by (simp add: gguf_init_from_file_def)
    then obtain h' hdl where h': "getGGUFContextNativeHandle abi fopen path h = Inr (h', hdl)" "hdl \<noteq> 0" "gh_mem h hdl = None"
      "gh_mem h' = (gh_mem h)(hdl \<mapsto> ctx')"
      using open_file[OF assms(4)] by blast
    have mem: "gh_mem h' hdl = Some ctx'" using h'(4) by simp
    have "freeGGUFContext hdl h' = Inr (h'\<lparr>gh_mem := (gh_mem h')(hdl := None)\<rparr>)" "(gh_mem h')(hdl := None) = gh_mem h"
      using h' by (auto simp: freeGGUFContext_def)
    then show "\<exists>h' hdl. getGGUFContextNativeHandle abi fopen path h = Inr (h', hdl) \<and> hdl \<noteq> 0 \<and>
        getContextSize hdl h' = context_size_of (gguf_dict ctx) \<and> getChatTemplate hdl h' = chat_template_of (gguf_dict ctx) \<and>
        (\<exists>h''. freeGGUFContext hdl h' = Inr h'' \<and> gh_mem h'' = gh_mem h)"
      using h'(1,2) context_size_by_dict[OF kv mem] chat_template_by_dict[OF kv mem] d by (intro exI[of _ h'] exI[of _ hdl]) auto
  qed
qed

section \<open>A concrete model\<close>

definition ex_heap :: gguf_heap where
  "ex_heap = \<lparr>gh_next = 1, gh_mem = (\<lambda>_. None)\<rparr>"

lemma ex_heap_ok: "gh_ok ex_heap"
  by (simp add: gh_ok_def ex_heap_def)

lemma ex_context_size: "context_size_of (gguf_dict ex_gguf) = Inr 2048"
  by (simp add: context_size_of_def gguf_dict_def ex_gguf_def ex_pair_def kv_value_def str_def cstr_def le_val_le_bytes del: le_bytes.simps)

theorem reader_of_written_witness:
  "\<exists>buf. gguf_write_to_buf ex_gguf [] False = Inr buf \<and>
     (\<exists>h' hdl. getGGUFContextNativeHandle ex_abi (\<lambda>_. Some buf) (str ''m'') ex_heap = Inr (h', hdl) \<and> getContextSize hdl h' = Inr 2048)"
proof -
  have "list_all data_ok (gg_info ex_gguf)" using ex_info_ok(2) by (simp add: ex_gguf_def)
  from reader_of_written[OF ex_contents ex_fits this ex_heap_ok] show ?thesis using ex_context_size by fastforce
qed

theorem reader_any_file_witness:
  "\<exists>h'. getGGUFContextNativeHandle ex_abi (\<lambda>_. None) (str ''m'') ex_heap = Inr (h', 0) \<and> getContextSize 0 h' = Inl Undefined"
proof -
  have "getGGUFContextNativeHandle ex_abi (\<lambda>_. None) (str ''m'') ex_heap = Inr (ex_heap, 0)"
    by (simp add: getGGUFContextNativeHandle_def gguf_init_from_file_def)
  then show ?thesis using reader_any_file[OF ex_heap_ok, of ex_abi "\<lambda>_. None" "str ''m''" ex_heap 0] by simp
qed

end
