(* ===== verification/Kv_Mask.thy ===== *)
theory Kv_Mask
  imports Kv_Slots Bytes
begin

text \<open>
  The inputs of the attention graph that the KV cache fills in (\<^verbatim>\<open>llama-kv-cache.cpp\<close>): the cells the keys and
  values of a ubatch are written to, the pending shifts, and the mask that says which cells a token attends to. The data of
  a tensor is a function from the index of an element to its value, so that what is left alone can be stated. An element
  of the mask is \<open>None\<close> for \<open>-INFINITY\<close> and \<open>Some b\<close> for the bias \<open>b\<close> that is added to the score.

  The mask of a token is computed from that of an earlier token of its sequence: it is copied, and only cells with
  positions close to those of the batch are visited again. The theorem says that this gives the mask that visiting every
  cell would give.
\<close>

section \<open>Where keys and values are written\<close>

type_synonym 'a tensor_data = "nat \<Rightarrow> 'a"

definition k_idxs_stream :: "kv_cache \<Rightarrow> slot_info \<Rightarrow> nat \<Rightarrow> int tensor_data \<Rightarrow> int tensor_data" where
  "k_idxs_stream kv si s dat =
    (let offs = int (u32 (int (si_strm si ! s * kv_get_size kv))) in
     fold (\<lambda>i d. d(s * si_size si + i := offs + int (si_idxs si ! s ! i))) [0..<si_size si] dat)"

definition set_input_k_idxs :: "kv_cache \<Rightarrow> ubatch \<Rightarrow> slot_info \<Rightarrow> int tensor_data \<Rightarrow> int tensor_data res" where
  "set_input_k_idxs kv ub si dat =
    (if ub_n_tokens ub \<noteq> si_size si * si_n_stream si then Inl Abort
     else Inr (fold (k_idxs_stream kv si) [0..<si_n_stream si] dat))"

text \<open>The values are stored transposed when flash attention is not used: \<open>n_embd\<close> elements per token, a row of the
  cache apart.\<close>

definition v_idxs_stream :: "nat \<Rightarrow> kv_cache \<Rightarrow> slot_info \<Rightarrow> nat \<Rightarrow> int tensor_data \<Rightarrow> int tensor_data" where
  "v_idxs_stream n_embd kv si s dat =
    (let kv_size = kv_get_size kv; offs = int (si_strm si ! s * kv_size * n_embd) in
     fold (\<lambda>i d. fold (\<lambda>j d. d(s * si_size si * n_embd + i * n_embd + j := offs + int (j * kv_size) + int (si_idxs si ! s ! i)))
       [0..<n_embd] d) [0..<si_size si] dat)"

definition set_input_v_idxs :: "bool \<Rightarrow> nat \<Rightarrow> kv_cache \<Rightarrow> ubatch \<Rightarrow> slot_info \<Rightarrow> int tensor_data \<Rightarrow> int tensor_data res" where
  "set_input_v_idxs v_trans n_embd kv ub si dat =
    (if ub_n_tokens ub \<noteq> si_size si * si_n_stream si then Inl Abort
     else if \<not> v_trans then Inr (fold (k_idxs_stream kv si) [0..<si_n_stream si] dat)
     else Inr (fold (v_idxs_stream n_embd kv si) [0..<si_n_stream si] dat))"

definition k_shift_stream :: "kv_cache \<Rightarrow> nat \<Rightarrow> int tensor_data \<Rightarrow> int tensor_data" where
  "k_shift_stream kv s dat =
    (let c = kv_v_cells kv ! s in
     fold (\<lambda>i d. d(s * cells_size c + i := (if cells_is_empty c i then 0 else cells_get_shift c i))) [0..<cells_size c] dat)"

definition set_input_k_shift :: "kv_cache \<Rightarrow> int tensor_data \<Rightarrow> int tensor_data" where
  "set_input_k_shift kv dat = fold (k_shift_stream kv) [0..<kv_n_stream kv] dat"

section \<open>The attention mask\<close>

record kq_args =
  ka_ubatch :: ubatch
  ka_v_cells :: "kv_cells list"
  ka_seq_to_stream :: "nat list"
  ka_n_swa :: nat
  ka_swa_type :: swa_type
  ka_n_kv :: nat
  ka_n_stream :: nat
  ka_n_tps :: nat
  ka_alibi :: bool

text \<open>The smallest position of each sequence in the ubatch.\<close>

definition kq_seq :: "kq_args \<Rightarrow> nat \<Rightarrow> nat" where
  "kq_seq a i = ub_seq_id (ka_ubatch a) ! i ! 0"

definition kq_seq_pos_min :: "kq_args \<Rightarrow> nat \<Rightarrow> int" where
  "kq_seq_pos_min a =
    fold (\<lambda>i m. m(kq_seq a i := min (m (kq_seq a i)) (ub_pos (ka_ubatch a) ! i))) [0..<ub_n_tokens (ka_ubatch a)] (\<lambda>_. INT32_MAX)"

text \<open>What is stored for the token \<open>i\<close> and the cell \<open>j\<close>: the chain of tests, each of which may skip to the entry that
  masks the cell.\<close>

definition kq_cell :: "bool \<Rightarrow> bool \<Rightarrow> bool \<Rightarrow> kq_args \<Rightarrow> kv_cells \<Rightarrow> nat \<Rightarrow> nat \<Rightarrow> int option" where
  "kq_cell causal swa is_2d a c i j =
    (let ub = ka_ubatch a; p1 = ub_pos ub ! i;
         p1_x = (if is_2d then ub_pos ub ! (i + ub_n_tokens ub * 2) else 0);
         p1_y = (if is_2d then ub_pos ub ! (i + ub_n_tokens ub) else 0);
         p0 = cells_pos_get c j in
     if cells_is_empty c j then None
     else if \<not> cells_seq_has c j (kq_seq a i) then None
     else if causal \<and> p0 > p1 then None
     else if causal \<and> is_2d \<and> p0 = p1 \<and> is_2d_gt (cells_ext_get c j) p1_x p1_y then None
     else if swa \<and> is_masked_swa (ka_n_swa a) (ka_swa_type a) p0 p1 then None
     else if ka_alibi a then Some (- \<bar>p0 - p1\<bar>) else Some 0)"

text \<open>Cells with positions close to those of the batch, whose entries differ between the tokens of a sequence.\<close>

definition kq_close :: "kq_args \<Rightarrow> kv_cells \<Rightarrow> nat \<Rightarrow> nat \<Rightarrow> bool" where
  "kq_close a c i j \<longleftrightarrow>
    \<not> cells_is_empty c j \<and> cells_seq_has c j (kq_seq a i) \<and>
    cells_pos_get c j + wrap_i32 (int (ka_n_swa a) + 32) \<ge> kq_seq_pos_min a (kq_seq a i)"

type_synonym kq_state = "int option tensor_data \<times> (nat \<rightharpoonup> nat) \<times> (nat \<Rightarrow> nat list)"

definition kq_row :: "bool \<Rightarrow> bool \<Rightarrow> bool \<Rightarrow> kq_args \<Rightarrow> nat \<Rightarrow> kq_state \<Rightarrow> kq_state res" where
  "kq_row causal swa is_2d a i st =
    (let (dat, seq_srct, seq_idxs) = st; seq_id = kq_seq a i; n_kv = ka_n_kv a in
     if \<not> seq_id < length (ka_seq_to_stream a) then Inl Undefined
     else if \<not> ka_seq_to_stream a ! seq_id < length (ka_v_cells a) then Inl Out_of_range
     else let c = ka_v_cells a ! (ka_seq_to_stream a ! seq_id); idst = n_kv * i in
       if n_kv > cells_size c then Inl Undefined
       else if ka_alibi a then
         Inr (fold (\<lambda>j d. d(idst + j := kq_cell causal swa is_2d a c i j)) [0..<n_kv] dat, seq_srct, seq_idxs)
       else case seq_srct seq_id of
         Some srct \<Rightarrow>
           (let dat1 = fold (\<lambda>j d. d(idst + j := dat (n_kv * srct + j))) [0..<n_kv] dat in
            Inr (fold (\<lambda>j d. d(idst + j := kq_cell causal swa is_2d a c i j)) (take n_kv (seq_idxs seq_id)) dat1, seq_srct, seq_idxs))
       | None \<Rightarrow>
           (let (dat1, idxs) = fold (\<lambda>j (d, xs). (d(idst + j := kq_cell causal swa is_2d a c i j), if kq_close a c i j then xs @ [j] else xs))
              [0..<n_kv] (dat, []) in
            Inr (dat1, seq_srct(seq_id \<mapsto> i), seq_idxs(seq_id := idxs))))"

primrec kq_rows :: "bool \<Rightarrow> bool \<Rightarrow> bool \<Rightarrow> kq_args \<Rightarrow> nat list \<Rightarrow> kq_state \<Rightarrow> kq_state res" where
  "kq_rows causal swa is_2d a [] st = Inr st"
| "kq_rows causal swa is_2d a (i # is) st = and_then (kq_row causal swa is_2d a i st) (kq_rows causal swa is_2d a is)"

primrec kq_streams :: "bool \<Rightarrow> bool \<Rightarrow> bool \<Rightarrow> kq_args \<Rightarrow> nat list \<Rightarrow> int option tensor_data \<Rightarrow> int option tensor_data res" where
  "kq_streams causal swa is_2d a [] dat = Inr dat"
| "kq_streams causal swa is_2d a (s # ss) dat =
    and_then (kq_rows causal swa is_2d a [s * ka_n_tps a..<s * ka_n_tps a + ka_n_tps a] (dat, Map.empty, \<lambda>_. [])) (\<lambda>st.
      kq_streams causal swa is_2d a ss (fst st))"

definition set_input_kq_mask_impl :: "bool \<Rightarrow> kq_args \<Rightarrow> int option tensor_data \<Rightarrow> int option tensor_data res" where
  "set_input_kq_mask_impl causal a dat =
    kq_streams causal (ka_swa_type a \<noteq> SWA_NONE) (ub_is_pos_2d (ka_ubatch a)) a [0..<ka_n_stream a] dat"

definition set_input_kq_mask :: "bool \<Rightarrow> nat \<Rightarrow> nat \<Rightarrow> kv_cache \<Rightarrow> ubatch \<Rightarrow> bool \<Rightarrow> int option tensor_data \<Rightarrow> int option tensor_data res" where
  "set_input_kq_mask use_alibi n_kv n_stream kv ub causal_attn dat =
    (if n_stream = 0 then Inl Undefined
     else if ub_n_tokens ub mod n_stream \<noteq> 0 then Inl Abort
     else set_input_kq_mask_impl causal_attn
       \<lparr>ka_ubatch = ub, ka_v_cells = kv_v_cells kv, ka_seq_to_stream = kv_seq_to_stream kv, ka_n_swa = kv_n_swa kv,
        ka_swa_type = kv_swa_type kv, ka_n_kv = n_kv, ka_n_stream = n_stream, ka_n_tps = ub_n_tokens ub div n_stream,
        ka_alibi = use_alibi\<rparr> dat)"

section \<open>Which cells a token attends to\<close>

text \<open>The mask as it is meant: the cell holds the token's sequence, at a position that is not in the token's future and
  not outside its window.\<close>

definition attends :: "bool \<Rightarrow> kv_cache \<Rightarrow> ubatch \<Rightarrow> nat \<Rightarrow> nat \<Rightarrow> bool" where
  "attends causal kv ub i j \<longleftrightarrow>
    (let s = ub_seq_id ub ! i ! 0; c = kv_v_cells kv ! (kv_seq_to_stream kv ! s); p0 = kc_pos c ! j; p1 = ub_pos ub ! i in
     p0 \<noteq> - 1 \<and> s \<in> kc_seq c ! j \<and> \<not> is_masked_swa (kv_n_swa kv) (kv_swa_type kv) p0 p1 \<and>
     (causal \<longrightarrow> p0 \<le> p1 \<and>
       (ub_is_pos_2d ub \<and> p0 = p1 \<longrightarrow>
         \<not> is_2d_gt (kc_ext c ! j) (ub_pos ub ! (i + ub_n_tokens ub * 2)) (ub_pos ub ! (i + ub_n_tokens ub)))))"

section \<open>Filling a row\<close>

lemma fold_upd:
  fixes b :: nat
  shows "fold (\<lambda>j d. d(b + j := f j)) js d k = (if b \<le> k \<and> k - b \<in> set js then f (k - b) else d k)"
  by (induction js arbitrary: d) auto

lemma fold_upd_collect:
  "fold (\<lambda>j (d, xs). (d(b + j := f j), if P j then xs @ [j] else xs)) js (d, ys) =
   (fold (\<lambda>j d. d(b + j := f j)) js d, ys @ filter P js)"
  by (induction js arbitrary: d ys) auto

lemma row_index: "j < n \<Longrightarrow> j' < n \<Longrightarrow> n * i + j = n * i' + (j' :: nat) \<longleftrightarrow> i = i' \<and> j = j'"
proof
  assume "j < n" "j' < n" and eq: "n * i + j = n * i' + j'"
  then have "(j + n * i) div n = i" "(j' + n * i') div n = i'" by simp_all
  then have "i = i'" using eq by (simp add: add.commute)
  then show "i = i' \<and> j = j'" using eq by simp
qed simp

text \<open>A loop over one row sets the entries of the visited cells of that row and nothing else.\<close>

lemma fold_upd_row:
  fixes n :: nat
  assumes "set js \<subseteq> {..<n}" "j < n"
  shows "fold (\<lambda>j d. d(n * i + j := f j)) js d (n * i' + j) = (if i' = i \<and> j \<in> set js then f j else d (n * i' + j))"
proof -
  have "n * i \<le> n * i' + j \<and> n * i' + j - n * i \<in> set js \<longleftrightarrow> i' = i \<and> j \<in> set js"
  proof
    assume h: "n * i \<le> n * i' + j \<and> n * i' + j - n * i \<in> set js"
    then have "n * i + (n * i' + j - n * i) = n * i' + j" "n * i' + j - n * i < n" using assms(1) by auto
    then show "i' = i \<and> j \<in> set js" using row_index[of "n * i' + j - n * i" n j i i'] assms(2) h by auto
  qed auto
  then show ?thesis by (auto simp: fold_upd)
qed

lemma fold_upd_beyond: "set js \<subseteq> {..<n :: nat} \<Longrightarrow> n * i + n \<le> k \<Longrightarrow> fold (\<lambda>j d. d(n * i + j := f j)) js d k = d k"
  by (auto simp: fold_upd subset_iff)

text \<open>\<open>d'\<close> is \<open>d\<close> with the row \<open>i\<close> of \<open>n\<close> entries set to \<open>f\<close>; rows further on are untouched.\<close>

definition row_set :: "nat \<Rightarrow> nat \<Rightarrow> (nat \<Rightarrow> 'a) \<Rightarrow> 'a tensor_data \<Rightarrow> 'a tensor_data \<Rightarrow> bool" where
  "row_set n i f d d' \<longleftrightarrow> (\<forall>j < n. d' (n * i + j) = f j) \<and> (\<forall>t j. t \<noteq> i \<longrightarrow> j < n \<longrightarrow> d' (n * t + j) = d (n * t + j)) \<and>
    (\<forall>k \<ge> n * i + n. d' k = d k)"

lemma row_set_full: "row_set n i f d (fold (\<lambda>j d. d(n * i + j := f j)) [0..<n] d)"
proof -
  have sub: "set [0..<n] \<subseteq> {..<n}" by auto
  show ?thesis unfolding row_set_def
    using fold_upd_row[OF sub, of _ i f d] fold_upd_beyond[OF sub, of i _ f d] by auto
qed

text \<open>Copying another row and setting the entries where it may differ.\<close>

lemma row_set_copy:
  assumes "set js \<subseteq> {..<n}" "\<And>j. j < n \<Longrightarrow> j \<notin> set js \<Longrightarrow> d (n * t + j) = f j"
  shows "row_set n i f d (fold (\<lambda>j d. d(n * i + j := f j)) js (fold (\<lambda>j e. e(n * i + j := d (n * t + j))) [0..<n] d))"
proof -
  have c: "row_set n i (\<lambda>j. d (n * t + j)) d (fold (\<lambda>j e. e(n * i + j := d (n * t + j))) [0..<n] d)" by (rule row_set_full)
  show ?thesis unfolding row_set_def
    using c assms(2) fold_upd_row[OF assms(1), of _ i f] fold_upd_beyond[OF assms(1), of i _ f] by (auto simp: row_set_def)
qed

section \<open>Cells far from the batch\<close>

lemma seq_pos_min_le_aux:
  "i < n \<Longrightarrow> fold (\<lambda>i m. m(g i := min (m (g i)) (p i))) [0..<n] m0 (g i) \<le> (p i :: int)"
proof (induction n)
  case (Suc n)
  then show ?case by (cases "i = n") auto
qed simp

lemma seq_pos_min_le: "i < ub_n_tokens (ka_ubatch a) \<Longrightarrow> kq_seq_pos_min a (kq_seq a i) \<le> ub_pos (ka_ubatch a) ! i"
  unfolding kq_seq_pos_min_def by (rule seq_pos_min_le_aux)

text \<open>A position further back than the window is outside the window of every kind.\<close>

lemma far_masked:
  assumes "p0 + int n < p1" "swa \<noteq> SWA_NONE" "swa = SWA_CHUNKED \<Longrightarrow> 0 < n"
  shows "is_masked_swa n swa p0 p1"
proof (cases swa)
  case SWA_CHUNKED
  then have "p1 - int n < p1 div int n * int n" using assms(3) div_mult_mod_eq[of p1 "int n"] pos_mod_bound[of "int n" p1] by linarith
  then show ?thesis using SWA_CHUNKED assms(1) by (simp add: is_masked_swa_def)
qed (use assms in \<open>auto simp: is_masked_swa_def Let_def\<close>)

text \<open>Whether a far cell is masked does not depend on the token of the sequence.\<close>

lemma far_same:
  assumes "\<not> kq_close a c t j" "kq_seq a i = kq_seq a t" "i < ub_n_tokens (ka_ubatch a)" "t < ub_n_tokens (ka_ubatch a)"
    "\<not> ka_alibi a" "ka_n_swa a + 32 < 2 ^ 31" "ka_swa_type a = SWA_CHUNKED \<Longrightarrow> 0 < ka_n_swa a"
  shows "kq_cell causal (ka_swa_type a \<noteq> SWA_NONE) is_2d a c i j = kq_cell causal (ka_swa_type a \<noteq> SWA_NONE) is_2d a c t j"
proof (cases "cells_is_empty c j \<or> \<not> cells_seq_has c j (kq_seq a t)")
  case True
  then show ?thesis using assms(2) by (auto simp: kq_cell_def Let_def)
next
  case False
  let ?x = "cells_pos_get c j" and ?p = "\<lambda>i. ub_pos (ka_ubatch a) ! i"
  have w: "wrap_i32 (int (ka_n_swa a) + 32) = int (ka_n_swa a) + 32" using assms(6) by (intro wrap_i32_id) auto
  have "?x + (int (ka_n_swa a) + 32) < kq_seq_pos_min a (kq_seq a t)" using assms(1) False by (auto simp: kq_close_def w)
  then have far: "?x + int (ka_n_swa a) < ?p i" "?x + int (ka_n_swa a) < ?p t"
    using seq_pos_min_le[OF assms(3)] seq_pos_min_le[OF assms(4)] assms(2) by auto
  then have "?x < ?p i" "?x < ?p t" by auto
  moreover have "ka_swa_type a \<noteq> SWA_NONE \<Longrightarrow> is_masked_swa (ka_n_swa a) (ka_swa_type a) ?x (?p i) \<and> is_masked_swa (ka_n_swa a) (ka_swa_type a) ?x (?p t)"
    using far_masked[OF far(1)] far_masked[OF far(2)] assms(7) by auto
  ultimately show ?thesis using False assms(2,5) by (auto simp: kq_cell_def Let_def)
qed

section \<open>The mask is what it is meant to be\<close>

definition kq_ok :: "kq_args \<Rightarrow> bool" where
  "kq_ok a \<longleftrightarrow> ka_n_swa a + 32 < 2 ^ 31 \<and> (ka_swa_type a = SWA_CHUNKED \<longrightarrow> 0 < ka_n_swa a) \<and>
    (\<forall>i < ub_n_tokens (ka_ubatch a). kq_seq a i < length (ka_seq_to_stream a) \<and>
      ka_seq_to_stream a ! kq_seq a i < length (ka_v_cells a) \<and>
      ka_n_kv a \<le> cells_size (ka_v_cells a ! (ka_seq_to_stream a ! kq_seq a i)))"

definition kq_val :: "bool \<Rightarrow> kq_args \<Rightarrow> nat \<Rightarrow> nat \<Rightarrow> int option" where
  "kq_val causal a i j =
    kq_cell causal (ka_swa_type a \<noteq> SWA_NONE) (ub_is_pos_2d (ka_ubatch a)) a (ka_v_cells a ! (ka_seq_to_stream a ! kq_seq a i)) i j"

text \<open>The state between two rows: the rows done are right, the row remembered for a sequence is one of them, and the
  cells remembered are those close to the batch.\<close>

definition kq_good :: "bool \<Rightarrow> kq_args \<Rightarrow> nat set \<Rightarrow> kq_state \<Rightarrow> bool" where
  "kq_good causal a D st \<longleftrightarrow>
    (case st of (dat, srct, idxs) \<Rightarrow>
      (\<forall>t \<in> D. \<forall>j < ka_n_kv a. dat (ka_n_kv a * t + j) = kq_val causal a t j) \<and>
      (\<forall>s t. srct s = Some t \<longrightarrow> t \<in> D \<and> t < ub_n_tokens (ka_ubatch a) \<and> kq_seq a t = s \<and>
        idxs s = filter (kq_close a (ka_v_cells a ! (ka_seq_to_stream a ! s)) t) [0..<ka_n_kv a]))"

lemma kq_good_row:
  assumes "kq_good causal a D (dat, srct, idxs)" "row_set (ka_n_kv a) i (kq_val causal a i) dat d"
  shows "kq_good causal a (insert i D) (d, srct, idxs)"
    and "i < ub_n_tokens (ka_ubatch a) \<Longrightarrow> s = kq_seq a i \<Longrightarrow>
      kq_good causal a (insert i D) (d, srct(s \<mapsto> i), idxs(s := filter (kq_close a (ka_v_cells a ! (ka_seq_to_stream a ! s)) i) [0..<ka_n_kv a]))"
proof -
  have "d (ka_n_kv a * t + j) = kq_val causal a t j" if "t \<in> insert i D" "j < ka_n_kv a" for t j
    using assms that by (cases "t = i") (auto simp: kq_good_def row_set_def)
  then show "kq_good causal a (insert i D) (d, srct, idxs)"
    "i < ub_n_tokens (ka_ubatch a) \<Longrightarrow> s = kq_seq a i \<Longrightarrow>
      kq_good causal a (insert i D) (d, srct(s \<mapsto> i), idxs(s := filter (kq_close a (ka_v_cells a ! (ka_seq_to_stream a ! s)) i) [0..<ka_n_kv a]))"
    using assms(1) unfolding kq_good_def by auto
qed

lemma kq_row_good:
  assumes ok: "kq_ok a" and i: "i < ub_n_tokens (ka_ubatch a)" and good: "kq_good causal a D st"
  shows "\<exists>st'. kq_row causal (ka_swa_type a \<noteq> SWA_NONE) (ub_is_pos_2d (ka_ubatch a)) a i st = Inr st' \<and>
    kq_good causal a (insert i D) st' \<and> (\<forall>k \<ge> ka_n_kv a * i + ka_n_kv a. fst st' k = fst st k)"
proof -
  obtain dat srct idxs where st: "st = (dat, srct, idxs)" by (cases st) auto
  define s n c where "s = kq_seq a i" and "n = ka_n_kv a" and "c = ka_v_cells a ! (ka_seq_to_stream a ! s)"
  have fits: "s < length (ka_seq_to_stream a)" "ka_seq_to_stream a ! s < length (ka_v_cells a)" "n \<le> cells_size c"
    using ok i by (simp_all add: kq_ok_def s_def c_def n_def)
  let ?v = "kq_val causal a i" and ?kq = "kq_row causal (ka_swa_type a \<noteq> SWA_NONE) (ub_is_pos_2d (ka_ubatch a)) a i st"
  have v: "kq_cell causal (ka_swa_type a \<noteq> SWA_NONE) (ub_is_pos_2d (ka_ubatch a)) a c i = ?v"
    by (rule ext) (simp add: kq_val_def c_def s_def)
  note unf = kq_row_def st Let_def s_def[symmetric] n_def[symmetric] c_def[symmetric] v
  note keep = kq_good_row[OF good[unfolded st], of i]
  have full: "row_set n i ?v dat (fold (\<lambda>j d. d(n * i + j := ?v j)) [0..<n] dat)" by (rule row_set_full)
  consider (alibi) "ka_alibi a" | (prev) t where "\<not> ka_alibi a" "srct s = Some t" | (new) "\<not> ka_alibi a" "srct s = None" by fastforce
  then show ?thesis
  proof cases
    case alibi
    then have "?kq = Inr (fold (\<lambda>j d. d(n * i + j := ?v j)) [0..<n] dat, srct, idxs)" using fits by (simp add: unf)
    then show ?thesis using full keep(1) by (auto simp: n_def st row_set_def)
  next
    case (prev t)
    have t: "t \<in> D" "t < ub_n_tokens (ka_ubatch a)" "kq_seq a t = s" "idxs s = filter (kq_close a c t) [0..<n]"
      using good prev(2) by (auto simp: kq_good_def st n_def c_def)
    define d where "d = fold (\<lambda>j d. d(n * i + j := ?v j)) (idxs s) (fold (\<lambda>j e. e(n * i + j := dat (n * t + j))) [0..<n] dat)"
    have "dat (n * t + j) = ?v j" if "j < n" "j \<notin> set (idxs s)" for j
    proof -
      have "\<not> kq_close a c t j" using that by (simp add: t(4))
      then have "kq_val causal a t j = ?v j" unfolding kq_val_def t(3) s_def[symmetric] c_def[symmetric]
        using far_same[of a c t j i causal "ub_is_pos_2d (ka_ubatch a)"] t(2,3) i ok prev(1) by (simp add: s_def kq_ok_def)
      then show ?thesis using good that t(1) by (simp add: kq_good_def st n_def)
    qed
    then have d: "row_set n i ?v dat d" unfolding d_def using t(4) by (intro row_set_copy) auto
    have "take n (idxs s) = idxs s" unfolding t(4) by (simp add: le_trans[OF length_filter_le])
    then have "?kq = Inr (d, srct, idxs)" using fits prev by (simp add: unf d_def)
    then show ?thesis using d keep(1) by (auto simp: n_def st row_set_def)
  next
    case new
    then have "?kq = Inr (fold (\<lambda>j d. d(n * i + j := ?v j)) [0..<n] dat, srct(s \<mapsto> i), idxs(s := filter (kq_close a c i) [0..<n]))"
      using fits by (simp add: unf fold_upd_collect)
    then show ?thesis using full keep(2)[OF _ i] by (auto simp: n_def st row_set_def c_def s_def)
  qed
qed

lemma kq_rows_good:
  assumes "kq_ok a" "\<forall>i \<in> set is. i < ub_n_tokens (ka_ubatch a)" "kq_good causal a D st"
  shows "\<exists>st'. kq_rows causal (ka_swa_type a \<noteq> SWA_NONE) (ub_is_pos_2d (ka_ubatch a)) a is st = Inr st' \<and>
    kq_good causal a (set is \<union> D) st' \<and> (\<forall>k \<ge> ka_n_kv a * ub_n_tokens (ka_ubatch a). fst st' k = fst st k)"
  using assms(2,3)
proof (induction "is" arbitrary: D st)
  case (Cons i js)
  have i: "i < ub_n_tokens (ka_ubatch a)" using Cons.prems(1) by simp
  obtain st1 where st1: "kq_row causal (ka_swa_type a \<noteq> SWA_NONE) (ub_is_pos_2d (ka_ubatch a)) a i st = Inr st1"
    "kq_good causal a (insert i D) st1" "\<forall>k \<ge> ka_n_kv a * i + ka_n_kv a. fst st1 k = fst st k"
    using kq_row_good[OF assms(1) i Cons.prems(2)] by blast
  have "ka_n_kv a * i + ka_n_kv a \<le> ka_n_kv a * ub_n_tokens (ka_ubatch a)"
    using i mult_le_mono2[of "Suc i" "ub_n_tokens (ka_ubatch a)" "ka_n_kv a"] by simp
  then have "\<forall>k \<ge> ka_n_kv a * ub_n_tokens (ka_ubatch a). fst st1 k = fst st k" using st1(3) by auto
  then show ?case using Cons.IH[OF _ st1(2)] Cons.prems(1) st1(1) by fastforce
qed simp

lemma kq_streams_good:
  assumes "kq_ok a" "\<forall>s \<in> set ss. s * ka_n_tps a + ka_n_tps a \<le> ub_n_tokens (ka_ubatch a)" "kq_good causal a D (dat, Map.empty, \<lambda>_. [])"
  shows "\<exists>d. kq_streams causal (ka_swa_type a \<noteq> SWA_NONE) (ub_is_pos_2d (ka_ubatch a)) a ss dat = Inr d \<and>
    kq_good causal a ((\<Union>s \<in> set ss. {s * ka_n_tps a..<s * ka_n_tps a + ka_n_tps a}) \<union> D) (d, Map.empty, \<lambda>_. []) \<and>
    (\<forall>k \<ge> ka_n_kv a * ub_n_tokens (ka_ubatch a). d k = dat k)"
  using assms(2,3)
proof (induction ss arbitrary: D dat)
  case (Cons s ss)
  let ?r = "[s * ka_n_tps a..<s * ka_n_tps a + ka_n_tps a]"
  have r: "\<forall>i \<in> set ?r. i < ub_n_tokens (ka_ubatch a)" using Cons.prems(1) by auto
  obtain st where st: "kq_rows causal (ka_swa_type a \<noteq> SWA_NONE) (ub_is_pos_2d (ka_ubatch a)) a ?r (dat, Map.empty, \<lambda>_. []) = Inr st"
    "kq_good causal a (set ?r \<union> D) st" "\<forall>k \<ge> ka_n_kv a * ub_n_tokens (ka_ubatch a). fst st k = dat k"
    using kq_rows_good[OF assms(1) r Cons.prems(2)] by auto
  have fresh: "kq_good causal a (set ?r \<union> D) (fst st, Map.empty, \<lambda>_. [])" using st(2) by (auto simp: kq_good_def)
  obtain d where "kq_streams causal (ka_swa_type a \<noteq> SWA_NONE) (ub_is_pos_2d (ka_ubatch a)) a ss (fst st) = Inr d"
    "kq_good causal a ((\<Union>s \<in> set ss. {s * ka_n_tps a..<s * ka_n_tps a + ka_n_tps a}) \<union> (set ?r \<union> D)) (d, Map.empty, \<lambda>_. [])"
    "\<forall>k \<ge> ka_n_kv a * ub_n_tokens (ka_ubatch a). d k = fst st k"
    using Cons.IH[OF _ fresh] Cons.prems(1) by auto
  then show ?case using st(1,3) by (auto simp: Un_ac)
qed simp

lemma tokens_of_streams:
  assumes "n mod m = 0" "0 < m" "i < n"
  shows "\<exists>s \<in> set [0..<m]. i \<in> {s * (n div m)..<s * (n div m) + n div m}"
proof -
  define w where "w = n div m"
  have n: "n = m * w" using assms(1) by (auto simp: w_def)
  then have w: "0 < w" using assms(3) by (cases w) auto
  have "i div w < m" using assms(3) n w by (simp add: less_mult_imp_div_less)
  moreover have "i div w * w \<le> i" "i < i div w * w + w" using w by (simp, metis dividend_less_div_times add.commute)
  ultimately show ?thesis unfolding w_def[symmetric] by (intro bexI[of _ "i div w"]) auto
qed

text \<open>C12. For every token and every cell the mask says whether the token attends to the cell, with a bias of 0 or, for
  models that use it, the distance. Nothing beyond the mask is written.\<close>

theorem kq_mask_correct:
  assumes "kv_inv kv" "0 < n_stream" "ub_n_tokens ub mod n_stream = 0" "n_kv \<le> kv_width kv"
    and "\<forall>i < ub_n_tokens ub. ub_seq_id ub ! i \<noteq> [] \<and> ub_seq_id ub ! i ! 0 < length (kv_seq_to_stream kv)"
    and "kv_n_swa kv + 32 < 2 ^ 31" "kv_swa_type kv = SWA_CHUNKED \<longrightarrow> 0 < kv_n_swa kv"
  shows "\<exists>d. set_input_kq_mask use_alibi n_kv n_stream kv ub causal dat = Inr d \<and>
    (\<forall>i < ub_n_tokens ub. \<forall>j < n_kv. d (n_kv * i + j) =
      (if attends causal kv ub i j
       then Some (if use_alibi then - \<bar>kc_pos (kv_v_cells kv ! (kv_seq_to_stream kv ! (ub_seq_id ub ! i ! 0))) ! j - ub_pos ub ! i\<bar> else 0)
       else None)) \<and>
    (\<forall>k \<ge> n_kv * ub_n_tokens ub. d k = dat k)"
proof -
  define a where "a = \<lparr>ka_ubatch = ub, ka_v_cells = kv_v_cells kv, ka_seq_to_stream = kv_seq_to_stream kv, ka_n_swa = kv_n_swa kv,
    ka_swa_type = kv_swa_type kv, ka_n_kv = n_kv, ka_n_stream = n_stream, ka_n_tps = ub_n_tokens ub div n_stream, ka_alibi = use_alibi\<rparr>"
  have ok: "kq_ok a" using assms(4-7) kv_invD[OF assms(1)] by (auto simp: kq_ok_def a_def kq_seq_def kv_stream_def)
  have le: "s * (ub_n_tokens ub div n_stream) + ub_n_tokens ub div n_stream \<le> ub_n_tokens ub" if "s < n_stream" for s
    using that assms(3) mult_le_mono1[of "Suc s" n_stream "ub_n_tokens ub div n_stream"] by auto
  obtain d where d: "set_input_kq_mask_impl causal a dat = Inr d" "\<forall>k \<ge> n_kv * ub_n_tokens ub. d k = dat k"
    and good: "kq_good causal a (\<Union>s \<in> set [0..<n_stream]. {s * (ub_n_tokens ub div n_stream)..<s * (ub_n_tokens ub div n_stream) + ub_n_tokens ub div n_stream}) (d, Map.empty, \<lambda>_. [])"
    using kq_streams_good[OF ok, of "[0..<n_stream]" causal "{}" dat] le by (auto simp: a_def set_input_kq_mask_impl_def kq_good_def)
  have "d (n_kv * i + j) = kq_val causal a i j" if "i < ub_n_tokens ub" "j < n_kv" for i j
    using good tokens_of_streams[OF assms(3,2) that(1)] that(2) by (auto simp: kq_good_def a_def)
  moreover have "kq_val causal a i j =
      (if attends causal kv ub i j
       then Some (if use_alibi then - \<bar>kc_pos (kv_v_cells kv ! (kv_seq_to_stream kv ! (ub_seq_id ub ! i ! 0))) ! j - ub_pos ub ! i\<bar> else 0)
       else None)" for i j
    by (auto simp: kq_val_def kq_cell_def attends_def a_def Let_def kq_seq_def cells_is_empty_def cells_seq_has_def cells_pos_get_def
      cells_ext_get_def is_masked_swa_def)
  ultimately show ?thesis using d assms(2,3) by (auto simp: set_input_kq_mask_def a_def[symmetric])
qed

section \<open>The cells that are written\<close>

lemma rows_keep:
  assumes "\<And>r d. r \<in> set rs \<Longrightarrow> row_set n r (f r) d (g r d)" "t \<notin> set rs" "j < n"
  shows "fold g rs d (n * t + j) = d (n * t + j)"
  using assms(1,2)
proof (induction rs arbitrary: d)
  case (Cons r rs)
  have "g r d (n * t + j) = d (n * t + j)" using Cons.prems(1)[of r d] Cons.prems(2) assms(3) by (auto simp: row_set_def)
  then show ?case using Cons.IH[of "g r d"] Cons.prems by simp
qed simp

text \<open>A loop over rows sets every row it visits.\<close>

lemma rows_set:
  assumes "\<And>r d. r \<in> set rs \<Longrightarrow> row_set n r (f r) d (g r d)" "t \<in> set rs" "j < n"
  shows "fold g rs d (n * t + j) = f t j"
  using assms(1,2)
proof (induction rs arbitrary: d)
  case (Cons r rs)
  show ?case
  proof (cases "t \<in> set rs")
    case True
    then show ?thesis using Cons.IH[of "g r d"] Cons.prems(1) by simp
  next
    case False
    then have "t = r" using Cons.prems(2) by simp
    moreover have "fold g rs (g r d) (n * t + j) = g r d (n * t + j)" using Cons.prems(1) False assms(3) by (intro rows_keep) auto
    ultimately show ?thesis using Cons.prems(1)[of r d] assms(3) by (auto simp: row_set_def)
  qed
qed simp

lemma k_idxs_eq:
  assumes "ub_n_tokens ub = si_size si * si_n_stream si" "\<And>s. s < si_n_stream si \<Longrightarrow> si_strm si ! s * kv_get_size kv < 2 ^ 32"
  obtains d where "set_input_k_idxs kv ub si dat = Inr d"
    "\<And>s i. s < si_n_stream si \<Longrightarrow> i < si_size si \<Longrightarrow> d (si_size si * s + i) = int (si_strm si ! s * kv_get_size kv + si_idxs si ! s ! i)"
proof -
  let ?f = "\<lambda>s i. int (u32 (int (si_strm si ! s * kv_get_size kv))) + int (si_idxs si ! s ! i)"
  have "row_set (si_size si) s (?f s) d (k_idxs_stream kv si s d)" for s d
    unfolding k_idxs_stream_def Let_def mult.commute[of s "si_size si"] by (rule row_set_full)
  then have "fold (k_idxs_stream kv si) [0..<si_n_stream si] dat (si_size si * s + i) = ?f s i"
    if "s < si_n_stream si" "i < si_size si" for s i
    using that rows_set[of "[0..<si_n_stream si]" "si_size si" ?f "k_idxs_stream kv si" s i dat] by auto
  moreover have "u32 (int (si_strm si ! s * kv_get_size kv)) = si_strm si ! s * kv_get_size kv" if "s < si_n_stream si" for s
    using assms(2)[OF that] by (subst u32_small) (simp_all del: of_nat_mult)
  ultimately show thesis using assms(1) that[of "fold (k_idxs_stream kv si) [0..<si_n_stream si] dat"] by (simp add: set_input_k_idxs_def)
qed

text \<open>The transposed values: one row of \<open>n_embd\<close> targets per token.\<close>

lemma v_idxs_stream_rows:
  "v_idxs_stream n kv si s dat =
   fold (\<lambda>r d. fold (\<lambda>j d. d(n * r + j := int (si_strm si ! s * kv_get_size kv * n) + int (j * kv_get_size kv) + int (si_idxs si ! s ! (r - s * si_size si)))) [0..<n] d)
     (map (\<lambda>i. s * si_size si + i) [0..<si_size si]) dat"
  by (simp add: v_idxs_stream_def Let_def fold_map comp_def algebra_simps)

lemma v_idxs_row_set:
  assumes "0 < n"
  shows "row_set (n * si_size si) s
    (\<lambda>k. int (si_strm si ! s * kv_get_size kv * n) + int (k mod n * kv_get_size kv) + int (si_idxs si ! s ! (k div n))) d (v_idxs_stream n kv si s d)"
proof -
  define N rs where "N = si_size si" and "rs = map (\<lambda>i. s * N + i) [0..<N]"
  let ?f = "\<lambda>r j. int (si_strm si ! s * kv_get_size kv * n) + int (j * kv_get_size kv) + int (si_idxs si ! s ! (r - s * N))"
  let ?g = "\<lambda>r d. fold (\<lambda>j d. d(n * r + j := ?f r j)) [0..<n] d"
  have v: "v_idxs_stream n kv si s d = fold ?g rs d" by (simp add: v_idxs_stream_rows N_def rs_def)
  have rows: "row_set n r (?f r) e (?g r e)" for r e by (rule row_set_full)
  have mem: "r \<in> set rs \<longleftrightarrow> s * N \<le> r \<and> r < s * N + N" for r by (auto simp: rs_def image_iff intro: exI[of _ "r - s * N"])
  have at: "fold ?g rs d k = (if k div n \<in> set rs then ?f (k div n) (k mod n) else d k)" for k
  proof -
    have k: "k = n * (k div n) + k mod n" "k mod n < n" using assms by simp_all
    show ?thesis
    proof (cases "k div n \<in> set rs")
      case True
      have "fold ?g rs d (n * (k div n) + k mod n) = ?f (k div n) (k mod n)" using True k(2) by (intro rows_set rows)
      then show ?thesis using True by simp
    next
      case False
      have "fold ?g rs d (n * (k div n) + k mod n) = d (n * (k div n) + k mod n)" using False k(2) rows_keep[of rs n ?f ?g] rows by blast
      then show ?thesis using False by simp
    qed
  qed
  have eq: "n * N * t + k = k + n * (t * N)" for t k by (simp add: algebra_simps)
  have split: "(n * N * t + k) div n = t * N + k div n" "(n * N * t + k) mod n = k mod n" for t k
    unfolding eq using assms by simp_all
  have col: "k div n < N" if "k < n * N" for k using that by (simp add: less_mult_imp_div_less mult.commute)
  have far: "\<not> (s * N \<le> t * N + i \<and> t * N + i < s * N + N)" if ne: "t \<noteq> s" "i < N" for t i
  proof
    assume "s * N \<le> t * N + i \<and> t * N + i < s * N + N"
    then have a: "s * N \<le> t * N + i" "t * N + i < s * N + N" by auto
    then have "N * t + i = N * s + (t * N + i - s * N)" by (simp add: mult.commute)
    moreover have "t * N + i - s * N < N" using a by linarith
    ultimately show False using row_index[of i N "t * N + i - s * N" t s] ne by simp
  qed
  have beyond: "s * N + N \<le> k div n" if "n * N * s + n * N \<le> k" for k
    using that assms by (simp add: less_eq_div_iff_mult_less_eq algebra_simps)
  show ?thesis unfolding row_set_def v N_def[symmetric] at mem
  proof (intro conjI allI impI)
    fix k assume "k < n * N"
    then show "(if s * N \<le> (n * N * s + k) div n \<and> (n * N * s + k) div n < s * N + N then ?f ((n * N * s + k) div n) ((n * N * s + k) mod n) else d (n * N * s + k)) =
      int (si_strm si ! s * kv_get_size kv * n) + int (k mod n * kv_get_size kv) + int (si_idxs si ! s ! (k div n))"
      unfolding split using col by simp
  next
    fix t k assume "t \<noteq> s" "k < n * N"
    then show "(if s * N \<le> (n * N * t + k) div n \<and> (n * N * t + k) div n < s * N + N then ?f ((n * N * t + k) div n) ((n * N * t + k) mod n) else d (n * N * t + k)) =
      d (n * N * t + k)"
      unfolding split using far[of t "k div n"] col by auto
  next
    fix k assume "n * N * s + n * N \<le> k"
    then show "(if s * N \<le> k div n \<and> k div n < s * N + N then ?f (k div n) (k mod n) else d k) = d k"
      using beyond[of k] by auto
  qed
qed

lemma v_idxs_eq:
  assumes "0 < n" "ub_n_tokens ub = si_size si * si_n_stream si"
  obtains d where "set_input_v_idxs True n kv ub si dat = Inr d"
    "\<And>s k. s < si_n_stream si \<Longrightarrow> k < n * si_size si \<Longrightarrow> d (n * si_size si * s + k) =
       int (si_strm si ! s * kv_get_size kv * n) + int (k mod n * kv_get_size kv) + int (si_idxs si ! s ! (k div n))"
proof -
  let ?f = "\<lambda>s k. int (si_strm si ! s * kv_get_size kv * n) + int (k mod n * kv_get_size kv) + int (si_idxs si ! s ! (k div n))"
  have "fold (v_idxs_stream n kv si) [0..<si_n_stream si] dat (n * si_size si * s + k) = ?f s k"
    if "s < si_n_stream si" "k < n * si_size si" for s k
    using that rows_set[of "[0..<si_n_stream si]" "n * si_size si" ?f "v_idxs_stream n kv si" s k dat] v_idxs_row_set[OF assms(1)] by auto
  then show thesis using assms(2) that[of "fold (v_idxs_stream n kv si) [0..<si_n_stream si] dat"] by (simp add: set_input_v_idxs_def)
qed

text \<open>Every element of a two-dimensional index range has a row and a column.\<close>

lemma row_col: "k < m * n \<Longrightarrow> \<exists>r c. r < n \<and> c < m \<and> k = m * r + (c :: nat)"
  by (metis div_mult_mod_eq less_mult_imp_div_less mod_less_divisor mult.commute mult_0_right not_less0 neq0_conv mult_zero_left)

text \<open>The cells of a slot: each is inside the cache, and two tokens never get the same one.\<close>

lemma slot_cells:
  assumes "kv_inv kv" "slot_ok (si_size si) kv si" "distinct (si_strm si)" "s < si_n_stream si" "i < si_size si"
  shows "si_strm si ! s < kv_n_stream kv" "si_idxs si ! s ! i < kv_width kv"
    and "s' < si_n_stream si \<Longrightarrow> si_strm si ! s = si_strm si ! s' \<Longrightarrow> s = s'"
    and "i' < si_size si \<Longrightarrow> si_idxs si ! s ! i = si_idxs si ! s ! i' \<Longrightarrow> i = i'"
proof -
  have s: "si_strm si ! s < kv_n_stream kv" "length (si_idxs si ! s) = si_size si" "distinct (si_idxs si ! s)"
    "\<forall>i \<in> set (si_idxs si ! s). i < cells_size (kv_v_cells kv ! (si_strm si ! s))"
    using assms(2,4) by (auto simp: slot_ok_def si_n_stream_def)
  then show "si_strm si ! s < kv_n_stream kv" by simp
  show "si_idxs si ! s ! i < kv_width kv" using s assms(5) kv_invD(8)[OF assms(1) s(1)] by auto
  show "s = s'" if "s' < si_n_stream si" "si_strm si ! s = si_strm si ! s'" using that assms(3,4) by (simp add: nth_eq_iff_index_eq si_n_stream_def)
  show "i = i'" if "i' < si_size si" "si_idxs si ! s ! i = si_idxs si ! s ! i'" using that s assms(5) by (simp add: nth_eq_iff_index_eq)
qed

lemma target_bound: "a < b \<Longrightarrow> x < w \<Longrightarrow> w * a + x < w * (b :: nat)"
  by (metis add_less_le_mono less_le_trans mult_Suc_right nat_add_left_cancel_less Suc_leI mult_le_mono2 add.commute)

lemma k_targets:
  assumes "kv_inv kv" "slot_ok (si_size si) kv si" "distinct (si_strm si)" "kv_get_size kv = kv_width kv"
    and d: "\<And>s i. s < si_n_stream si \<Longrightarrow> i < si_size si \<Longrightarrow> d (si_size si * s + i) = int (si_strm si ! s * kv_get_size kv + si_idxs si ! s ! i)"
  shows "inj_on d {..<si_size si * si_n_stream si}" "\<forall>k < si_size si * si_n_stream si. 0 \<le> d k \<and> d k < int (kv_n_stream kv * kv_width kv)"
proof -
  note cell = slot_cells[OF assms(1-3)]
  show "inj_on d {..<si_size si * si_n_stream si}"
  proof (rule inj_onI)
    fix k k' assume k: "k \<in> {..<si_size si * si_n_stream si}" "k' \<in> {..<si_size si * si_n_stream si}" "d k = d k'"
    obtain s i where s: "s < si_n_stream si" "i < si_size si" "k = si_size si * s + i" using row_col[of k "si_size si" "si_n_stream si"] k(1) by auto
    obtain t j where t: "t < si_n_stream si" "j < si_size si" "k' = si_size si * t + j" using row_col[of k' "si_size si" "si_n_stream si"] k(2) by auto
    have "kv_width kv * (si_strm si ! s) + si_idxs si ! s ! i = kv_width kv * (si_strm si ! t) + si_idxs si ! t ! j"
      using k(3) d[OF s(1,2)] d[OF t(1,2)] s(3) t(3) assms(4) by (simp only: of_nat_eq_iff mult.commute)
    then have "si_strm si ! s = si_strm si ! t" "si_idxs si ! s ! i = si_idxs si ! t ! j"
      using row_index[of "si_idxs si ! s ! i" "kv_width kv" "si_idxs si ! t ! j"] cell(2)[OF s(1,2)] cell(2)[OF t(1,2)] by auto
    then show "k = k'" using cell(3)[OF s(1,2) t(1)] cell(4)[OF s(1,2) t(2)] s(3) t(3) by auto
  qed
  show "\<forall>k < si_size si * si_n_stream si. 0 \<le> d k \<and> d k < int (kv_n_stream kv * kv_width kv)"
  proof (intro allI impI)
    fix k assume "k < si_size si * si_n_stream si"
    then obtain s i where s: "s < si_n_stream si" "i < si_size si" "k = si_size si * s + i" using row_col[of k "si_size si" "si_n_stream si"] by auto
    have "kv_width kv * (si_strm si ! s) + si_idxs si ! s ! i < kv_width kv * kv_n_stream kv"
      by (rule target_bound) (use cell(1,2)[OF s(1,2)] in auto)
    then have "si_strm si ! s * kv_width kv + si_idxs si ! s ! i < kv_n_stream kv * kv_width kv" by (simp only: mult.commute)
    then show "0 \<le> d k \<and> d k < int (kv_n_stream kv * kv_width kv)" using d[OF s(1,2)] s(3) assms(4) by (simp only: of_nat_less_iff of_nat_0_le_iff)
  qed
qed

lemma v_targets:
  assumes "kv_inv kv" "slot_ok (si_size si) kv si" "distinct (si_strm si)" "kv_get_size kv = kv_width kv" "0 < n"
    and d: "\<And>s k. s < si_n_stream si \<Longrightarrow> k < n * si_size si \<Longrightarrow> d (n * si_size si * s + k) =
       int (si_strm si ! s * kv_get_size kv * n) + int (k mod n * kv_get_size kv) + int (si_idxs si ! s ! (k div n))"
  shows "inj_on d {..<n * (si_size si * si_n_stream si)}" "\<forall>k < n * (si_size si * si_n_stream si). 0 \<le> d k \<and> d k < int (kv_n_stream kv * kv_width kv * n)"
proof -
  let ?w = "kv_width kv"
  have at: "\<exists>s i j. s < si_n_stream si \<and> i < si_size si \<and> j < n \<and> k = n * si_size si * s + (n * i + j) \<and>
      d k = int (?w * (n * (si_strm si ! s) + j) + si_idxs si ! s ! i)" if "k < n * (si_size si * si_n_stream si)" for k
  proof -
    have "k < n * si_size si * si_n_stream si" using that by (simp add: mult.assoc)
    then obtain s k1 where s: "s < si_n_stream si" "k1 < n * si_size si" "k = n * si_size si * s + k1"
      using row_col by blast
    obtain i j where i: "i < si_size si" "j < n" "k1 = n * i + j" using row_col[OF s(2)] by auto
    have "k1 div n = i" "k1 mod n = j" using i by auto
    then have "d k = int (?w * (n * (si_strm si ! s) + j) + si_idxs si ! s ! i)" using d[OF s(1,2)] s(3) assms(4) by (simp add: algebra_simps)
    then show ?thesis using s i by auto
  qed
  note cell = slot_cells[OF assms(1-3)]
  show "inj_on d {..<n * (si_size si * si_n_stream si)}"
  proof (rule inj_onI)
    fix k k' assume k: "k \<in> {..<n * (si_size si * si_n_stream si)}" "k' \<in> {..<n * (si_size si * si_n_stream si)}" "d k = d k'"
    obtain s i j where s: "s < si_n_stream si" "i < si_size si" "j < n" "k = n * si_size si * s + (n * i + j)"
      "d k = int (?w * (n * (si_strm si ! s) + j) + si_idxs si ! s ! i)" using at[of k] k(1) by auto
    obtain t i' j' where t: "t < si_n_stream si" "i' < si_size si" "j' < n" "k' = n * si_size si * t + (n * i' + j')"
      "d k' = int (?w * (n * (si_strm si ! t) + j') + si_idxs si ! t ! i')" using at[of k'] k(2) by auto
    have "?w * (n * (si_strm si ! s) + j) + si_idxs si ! s ! i = ?w * (n * (si_strm si ! t) + j') + si_idxs si ! t ! i'"
      using k(3) unfolding s(5) t(5) by (simp only: of_nat_eq_iff)
    then have "n * (si_strm si ! s) + j = n * (si_strm si ! t) + j'" "si_idxs si ! s ! i = si_idxs si ! t ! i'"
      using row_index[of "si_idxs si ! s ! i" ?w "si_idxs si ! t ! i'"] cell(2)[OF s(1,2)] cell(2)[OF t(1,2)] by auto
    moreover then have "si_strm si ! s = si_strm si ! t" "j = j'" using row_index[of j n j'] s(3) t(3) by auto
    ultimately show "k = k'" using cell(3)[OF s(1,2) t(1)] cell(4)[OF s(1,2) t(2)] s(4) t(4) by auto
  qed
  show "\<forall>k < n * (si_size si * si_n_stream si). 0 \<le> d k \<and> d k < int (kv_n_stream kv * ?w * n)"
  proof (intro allI impI)
    fix k assume "k < n * (si_size si * si_n_stream si)"
    then obtain s i j where s: "s < si_n_stream si" "i < si_size si" "j < n" and dk: "d k = int (?w * (n * (si_strm si ! s) + j) + si_idxs si ! s ! i)"
      using at[of k] by blast
    have "?w * (n * (si_strm si ! s) + j) + si_idxs si ! s ! i < ?w * (n * kv_n_stream kv)"
      by (intro target_bound cell(1,2)[OF s(1,2)] s(3))
    then have "?w * (n * (si_strm si ! s) + j) + si_idxs si ! s ! i < kv_n_stream kv * ?w * n" by (simp add: mult.commute mult.left_commute)
    then show "0 \<le> d k \<and> d k < int (kv_n_stream kv * ?w * n)" unfolding dk by (simp only: of_nat_less_iff of_nat_0_le_iff)
  qed
qed

text \<open>C28. Keys, and values stored transposed, are written inside their tensor, and no two elements of the batch are written to
  the same place.\<close>

theorem kv_targets_distinct:
  assumes "kv_inv kv" "kv_seq_to_stream kv \<noteq> []" "slot_ok (si_size si) kv si" "distinct (si_strm si)" "0 < n_embd"
    "ub_n_tokens ub = si_size si * si_n_stream si" "kv_n_stream kv * kv_width kv \<le> 2 ^ 32"
  shows "(\<exists>d. set_input_k_idxs kv ub si dat = Inr d \<and> inj_on d {..<ub_n_tokens ub} \<and>
      (\<forall>k < ub_n_tokens ub. 0 \<le> d k \<and> d k < int (kv_n_stream kv * kv_width kv))) \<and>
    (\<exists>d. set_input_v_idxs True n_embd kv ub si dat = Inr d \<and> inj_on d {..<n_embd * ub_n_tokens ub} \<and>
      (\<forall>k < n_embd * ub_n_tokens ub. 0 \<le> d k \<and> d k < int (kv_n_stream kv * kv_width kv * n_embd)))"
proof -
  have w: "kv_get_size kv = kv_width kv" using assms(2) kv_invD(5)[OF assms(1), of 0] kv_invD(8)[OF assms(1)] by (simp add: kv_get_size_def kv_stream_def)
  note k = k_targets[OF assms(1,3,4) w] and v = v_targets[OF assms(1,3,4) w assms(5)]
  have offs: "si_strm si ! s * kv_get_size kv < 2 ^ 32" if "s < si_n_stream si" for s
  proof -
    have "si_strm si ! s < kv_n_stream kv" using assms(3) that by (simp add: slot_ok_def si_n_stream_def)
    then show ?thesis unfolding w using assms(7) less_le_trans[OF mult_less_mono1 assms(7)] by (cases "kv_width kv = 0") auto
  qed
  obtain d where d: "set_input_k_idxs kv ub si dat = Inr d"
    "\<And>s i. s < si_n_stream si \<Longrightarrow> i < si_size si \<Longrightarrow> d (si_size si * s + i) = int (si_strm si ! s * kv_get_size kv + si_idxs si ! s ! i)"
    by (rule k_idxs_eq[OF assms(6), where kv = kv and dat = dat]) (erule offs, rule that, assumption, blast)
  obtain e where e: "set_input_v_idxs True n_embd kv ub si dat = Inr e"
    "\<And>s k. s < si_n_stream si \<Longrightarrow> k < n_embd * si_size si \<Longrightarrow> e (n_embd * si_size si * s + k) =
       int (si_strm si ! s * kv_get_size kv * n_embd) + int (k mod n_embd * kv_get_size kv) + int (si_idxs si ! s ! (k div n_embd))"
    by (rule v_idxs_eq[OF assms(5,6), where kv = kv and dat = dat]) (rule that, assumption, blast)
  show ?thesis unfolding assms(6)
    by (intro conjI exI[of _ d] exI[of _ e] d(1) e(1) k[OF d(2)] v[OF e(2)])
qed

section \<open>Concrete inputs\<close>

lemma ex_slot_simps [simp]: "si_size ex_slot = 1" "si_n_stream ex_slot = 1" "distinct (si_strm ex_slot)"
  by (simp_all add: ex_slot_def si_size_def si_n_stream_def)

lemma ex_slot_ok: "slot_ok 1 (ex_kv True) ex_slot"
  by (simp add: slot_ok_def ex_slot_def slot_can_use_def cells_is_empty_def ex_cells_fields)

lemma ex_total: "kv_n_stream (ex_kv True) * kv_width (ex_kv True) \<le> 2 ^ 32"
  by simp

theorem kv_targets_distinct_witness:
  "\<exists>d. set_input_k_idxs (ex_kv True) ex_ub ex_slot (\<lambda>_. 0) = Inr d \<and> 0 \<le> d 0 \<and> d 0 < 4"
proof -
  have "slot_ok (si_size ex_slot) (ex_kv True) ex_slot" "ub_n_tokens ex_ub = si_size ex_slot * si_n_stream ex_slot"
    using ex_slot_ok by simp_all
  from kv_targets_distinct[OF ex_kv_inv ex_kv_more(3) this(1) ex_slot_simps(3) zero_less_one this(2) ex_total, of "\<lambda>_. 0"]
  obtain d where "set_input_k_idxs (ex_kv True) ex_ub ex_slot (\<lambda>_. 0) = Inr d"
    "\<forall>k < ub_n_tokens ex_ub. 0 \<le> d k \<and> d k < int (kv_n_stream (ex_kv True) * kv_width (ex_kv True))" by blast
  then show ?thesis by simp
qed

theorem kq_mask_correct_witness:
  "\<exists>d. set_input_kq_mask False 4 1 (ex_kv True) ex_ub True (\<lambda>_. None) = Inr d \<and> d 1 = Some 0 \<and> d 3 = None"
proof -
  have st: "kv_seq_to_stream (ex_kv True) ! 0 = 0" using ex_kv_simps(5)[of True] by (simp add: kv_stream_def)
  have sw: "kv_n_swa (ex_kv True) = 0" by (simp add: ex_kv_def kv_new_def)
  have at: "attends True (ex_kv True) ex_ub 0 1" "\<not> attends True (ex_kv True) ex_ub 0 3"
    by (simp_all add: attends_def Let_def st ex_cells_fields is_masked_swa_def ub_is_pos_2d_def ex_ub_def)
  obtain d where "set_input_kq_mask False 4 1 (ex_kv True) ex_ub True (\<lambda>_. None) = Inr d"
    "\<forall>i < ub_n_tokens ex_ub. \<forall>j < 4. d (4 * i + j) =
      (if attends True (ex_kv True) ex_ub i j
       then Some (if False then - \<bar>kc_pos (kv_v_cells (ex_kv True) ! (kv_seq_to_stream (ex_kv True) ! (ub_seq_id ex_ub ! i ! 0))) ! j - ub_pos ex_ub ! i\<bar> else 0)
       else None)"
    using kq_mask_correct[OF ex_kv_inv, of 1 ex_ub 4 True False True "\<lambda>_. None"] sw by auto
  then show ?thesis using at by (auto dest!: spec[of _ 0])
qed

end
