(* ===== verification/State_Io.thy ===== *)
theory State_Io
  imports Ggml_Tensor
begin

text \<open>
  Writing and reading a saved state: the interfaces \<^verbatim>\<open>llama_io_write_i\<close> and \<^verbatim>\<open>llama_io_read_i\<close>
  (\<^verbatim>\<open>llama-io.h\<close>, \<^verbatim>\<open>llama-io.cpp\<close>) with their implementations in \<^verbatim>\<open>llama-context.cpp\<close>: one that counts
  bytes, one that fills a buffer, one that writes a file. The locale \<open>io_writer\<close> is what the three have in common, so that
  what a component writes is shown once. A reader keeps the state it works on also when it throws, since what is left
  behind then matters.
\<close>

section \<open>The data of a tensor\<close>

record kv_tensor =
  kt_type :: int
  kt_data :: bytes

definition tensor_get :: "kv_tensor \<Rightarrow> nat \<Rightarrow> nat \<Rightarrow> bytes res" where
  "tensor_get t offset n =
    (if n = 0 then Inr []
     else if offset + n > length (kt_data t) then Inl Abort
     else Inr (take n (drop offset (kt_data t))))"

definition tensor_set :: "kv_tensor \<Rightarrow> bytes \<Rightarrow> nat \<Rightarrow> kv_tensor res" where
  "tensor_set t src offset =
    (if src = [] then Inr t
     else if offset + length src > length (kt_data t) then Inl Abort
     else Inr (t\<lparr>kt_data := take offset (kt_data t) @ src @ drop (offset + length src) (kt_data t)\<rparr>))"

definition ggml_row_size :: "int \<Rightarrow> nat \<Rightarrow> nat" where
  "ggml_row_size type ne = u64 (int (ggml_type_size type) * int ne) div ggml_blck_size type"

section \<open>Writers\<close>

record 'w io_write_i =
  iw_write :: "bytes \<Rightarrow> 'w \<Rightarrow> 'w res"
  iw_write_tensor :: "kv_tensor \<Rightarrow> nat \<Rightarrow> nat \<Rightarrow> 'w \<Rightarrow> 'w res"

text \<open>Counting only: the tensor is not even looked at.\<close>

definition write_dummy :: "nat io_write_i" where
  "write_dummy = \<lparr>iw_write = (\<lambda>src n. Inr (n + length src)), iw_write_tensor = (\<lambda>t offset size n. Inr (n + size))\<rparr>"

record write_buf =
  wb_out :: bytes
  wb_room :: nat

abbreviation end_of_buffer :: fault where
  "end_of_buffer \<equiv> Runtime_error ''unexpectedly reached end of buffer''"

definition buf_write :: "bytes \<Rightarrow> write_buf \<Rightarrow> write_buf res" where
  "buf_write src w =
    (if length src > wb_room w then Inl end_of_buffer
     else Inr (w\<lparr>wb_out := wb_out w @ src, wb_room := wb_room w - length src\<rparr>))"

definition write_buffer :: "write_buf io_write_i" where
  "write_buffer = \<lparr>iw_write = buf_write,
    iw_write_tensor = (\<lambda>t offset size w.
      if size > wb_room w then Inl end_of_buffer else and_then (tensor_get t offset size) (\<lambda>src. buf_write src w))\<rparr>"

definition write_file :: "bytes io_write_i" where
  "write_file = \<lparr>iw_write = (\<lambda>src f. Inr (f @ src)),
    iw_write_tensor = (\<lambda>t offset size f. and_then (tensor_get t offset size) (\<lambda>src. Inr (f @ src)))\<rparr>"

definition write_string :: "'w io_write_i \<Rightarrow> bytes \<Rightarrow> 'w \<Rightarrow> 'w res" where
  "write_string io s w =
    (let str_size = u32 (int (length s)) in and_then (iw_write io (le_bytes 4 str_size) w) (iw_write io (take str_size s)))"

text \<open>A loop whose steps may fail.\<close>

primrec each :: "('a \<Rightarrow> 'w \<Rightarrow> 'w res) \<Rightarrow> 'a list \<Rightarrow> 'w \<Rightarrow> 'w res" where
  "each f [] w = Inr w"
| "each f (x # xs) w = and_then (f x w) (each f xs)"

section \<open>What a writer promises\<close>

lemma and_then_assoc: "and_then (and_then x f) g = and_then x (\<lambda>y. and_then (f y) g)"
  by (cases x) auto

lemma and_then_eqI: "(\<And>y. f y = g y) \<Longrightarrow> and_then x f = and_then x g"
  by (cases x) auto

lemma each_append: "each f (xs @ ys) w = and_then (each f xs w) (each f ys)"
  by (induction xs arbitrary: w) (auto simp: and_then_assoc intro: and_then_eqI)

lemma each_concat_map: "each f (concat (map g xs)) w = each (\<lambda>x. each f (g x)) xs w"
  by (induction xs arbitrary: w) (auto simp: each_append intro: and_then_eqI)

lemma tensor_get_Inr: "offset + n \<le> length (kt_data t) \<Longrightarrow> tensor_get t offset n = Inr (take n (drop offset (kt_data t)))"
  by (auto simp: tensor_get_def)

locale io_writer =
  fixes io :: "'w io_write_i" and put :: "bytes \<Rightarrow> 'w \<Rightarrow> 'w res"
  assumes put_Nil: "put [] w = Inr w"
    and put_append: "and_then (put a w) (put b) = put (a @ b) w"
    and write_bytes: "iw_write io src w = put src w"
    and write_tensor: "offset + n \<le> length (kt_data t) \<Longrightarrow> iw_write_tensor io t offset n w = put (take n (drop offset (kt_data t))) w"
begin

text \<open>\<open>f\<close> writes exactly \<open>bs\<close>.\<close>

definition writes :: "('w \<Rightarrow> 'w res) \<Rightarrow> bytes \<Rightarrow> bool" where
  "writes f bs \<longleftrightarrow> (\<forall>w. f w = put bs w)"

lemma writesD: "writes f bs \<Longrightarrow> f w = put bs w"
  by (simp add: writes_def)

lemma writes_write: "writes (iw_write io src) src"
  by (simp add: writes_def write_bytes)

lemma writes_tensor: "offset + n \<le> length (kt_data t) \<Longrightarrow> writes (iw_write_tensor io t offset n) (take n (drop offset (kt_data t)))"
  by (simp add: writes_def write_tensor)

lemma writes_Nil: "writes Inr []"
  by (simp add: writes_def put_Nil)

lemma writes_then: "writes f a \<Longrightarrow> writes g b \<Longrightarrow> writes (\<lambda>w. and_then (f w) g) (a @ b)"
  unfolding writes_def put_append[symmetric] by (auto intro!: and_then_eqI)

lemma writes_each: "(\<And>x. x \<in> set xs \<Longrightarrow> writes (f x) (g x)) \<Longrightarrow> writes (each f xs) (concat (map g xs))"
proof (induction xs)
  case Nil
  show ?case by (simp add: writes_def put_Nil)
next
  case (Cons x xs)
  have "writes (\<lambda>w. and_then (f x w) (each f xs)) (g x @ concat (map g xs))" by (rule writes_then) (use Cons in auto)
  then show ?case by (simp add: writes_def)
qed

lemma writes_string: "length s < 2 ^ 32 \<Longrightarrow> writes (write_string io s) (le_bytes 4 (length s) @ s)"
  using writes_then[OF writes_write writes_write, of "le_bytes 4 (length s)" s]
  by (simp add: writes_def write_string_def Let_def)

end

interpretation dummy: io_writer write_dummy "\<lambda>bs n. Inr (n + length bs)"
  by unfold_locales (auto simp: write_dummy_def)

interpretation buffer: io_writer write_buffer buf_write
  by unfold_locales (auto simp: write_buffer_def buf_write_def tensor_get_Inr)

interpretation file_out: io_writer write_file "\<lambda>bs f. Inr (f @ bs)"
  by unfold_locales (auto simp: write_file_def tensor_get_Inr)

section \<open>Readers\<close>

text \<open>A reader works on a state and on the bytes that are left; \<open>eof\<close> is the exception of an input that is too short, which
  differs between a buffer and a file.\<close>

type_synonym ('s, 'a) reader = "'s \<times> bytes \<Rightarrow> 'a res \<times> 's \<times> bytes"

definition ret :: "'a \<Rightarrow> ('s, 'a) reader" where
  "ret x st = (Inr x, st)"

definition throw :: "fault \<Rightarrow> ('s, 'a) reader" where
  "throw e st = (Inl e, st)"

definition rbind :: "('s, 'a) reader \<Rightarrow> ('a \<Rightarrow> ('s, 'b) reader) \<Rightarrow> ('s, 'b) reader" where
  "rbind f g st = (case f st of (Inl e, st') \<Rightarrow> (Inl e, st') | (Inr x, st') \<Rightarrow> g x st')"

definition with_st :: "('s \<Rightarrow> ('s, 'a) reader) \<Rightarrow> ('s, 'a) reader" where
  "with_st f st = f (fst st) st"

definition update_st :: "('s \<Rightarrow> 's res) \<Rightarrow> ('s, unit) reader" where
  "update_st f st = (case f (fst st) of Inl e \<Rightarrow> (Inl e, st) | Inr s \<Rightarrow> (Inr (), s, snd st))"

definition io_read :: "fault \<Rightarrow> nat \<Rightarrow> ('s, bytes) reader" where
  "io_read eof n st = (if n > length (snd st) then (Inl eof, st) else (Inr (take n (snd st)), fst st, drop n (snd st)))"

definition read_uint :: "fault \<Rightarrow> nat \<Rightarrow> ('s, nat) reader" where
  "read_uint eof n = rbind (io_read eof n) (\<lambda>bs. ret (le_val bs))"

definition read_int :: "fault \<Rightarrow> nat \<Rightarrow> ('s, int) reader" where
  "read_int eof n = rbind (io_read eof n) (\<lambda>bs. ret (signed_at (8 * n) (le_val bs)))"

definition read_string :: "fault \<Rightarrow> ('s, bytes) reader" where
  "read_string eof = rbind (read_uint eof 4) (io_read eof)"

text \<open>A loop that stops at the first \<^verbatim>\<open>return false\<close>.\<close>

primrec read_all :: "('a \<Rightarrow> ('s, bool) reader) \<Rightarrow> 'a list \<Rightarrow> ('s, bool) reader" where
  "read_all f [] = ret True"
| "read_all f (x # xs) = rbind (f x) (\<lambda>ok. if ok then read_all f xs else ret False)"

section \<open>Reading what is there\<close>

lemma rbind_simps [simp]:
  "f st = (Inr x, st') \<Longrightarrow> rbind f g st = g x st'" "f st = (Inl e, st') \<Longrightarrow> rbind f g st = (Inl e, st')"
  by (simp_all add: rbind_def)

lemma ret_eq [simp]: "ret x st = (Inr x, st)"
  by (simp add: ret_def)

lemma throw_eq [simp]: "throw e st = (Inl e, st)"
  by (simp add: throw_def)

lemma with_st_eq [simp]: "with_st f (s, r) = f s (s, r)"
  by (simp add: with_st_def)

lemma update_st_eq [simp]: "f s = Inr s' \<Longrightarrow> update_st f (s, r) = (Inr (), s', r)" "f s = Inl e \<Longrightarrow> update_st f (s, r) = (Inl e, s, r)"
  by (simp_all add: update_st_def)

lemma io_read_enc: "length bs = n \<Longrightarrow> io_read eof n (s, bs @ rest) = (Inr bs, s, rest)"
  by (auto simp: io_read_def)

lemma read_uint_enc: "x < 256 ^ n \<Longrightarrow> read_uint eof n (s, le_bytes n x @ rest) = (Inr x, s, rest)"
  by (simp add: read_uint_def io_read_enc le_val_le_bytes)

lemma read_int_enc:
  assumes "0 < n" "- (2 ^ (8 * n - 1)) \<le> x" "x < 2 ^ (8 * n - 1)"
  shows "read_int eof n (s, le_bytes n (unsigned_at (8 * n) x) @ rest) = (Inr x, s, rest)"
  using assms signed_unsigned[of "8 * n" x] unsigned_at_less[of "8 * n" x]
  by (simp add: read_int_def io_read_enc le_val_le_bytes pow256)

lemma read_string_enc: "length t < 2 ^ 32 \<Longrightarrow> read_string eof (s, le_bytes 4 (length t) @ t @ rest) = (Inr t, s, rest)"
  by (simp add: read_string_def read_uint_enc io_read_enc del: le_bytes.simps)

end
