(* ===== verification/Kv_State.thy ===== *)
theory Kv_State
  imports Kv_Slots State_Io
begin

text \<open>
  The saved state of the KV cache (\<^verbatim>\<open>state_write\<close> and \<^verbatim>\<open>state_read\<close> of \<^verbatim>\<open>llama-kv-cache.cpp\<close>): the cells of all
  streams, or of one sequence, with the rows of the key and value tensors that belong to them. The memory of the cache is
  the metadata of \<open>Kv_Cache\<close> with the tensors of its layers, one pair per stream. The values may be stored transposed, and a
  layer may have none.
\<close>

section \<open>The cache with its tensors\<close>

record kv_layer =
  kl_n_embd_k :: nat
  kl_n_embd_v :: nat
  kl_k_stream :: "kv_tensor list"
  kl_v_stream :: "kv_tensor option list"

record kv_mem =
  km_kv :: kv_cache
  km_v_trans :: bool
  km_layers :: "kv_layer list"

definition clear_tensor :: "kv_tensor \<Rightarrow> kv_tensor" where
  "clear_tensor t = t\<lparr>kt_data := map (\<lambda>_. 0) (kt_data t)\<rparr>"

definition clear_layer :: "kv_layer \<Rightarrow> kv_layer" where
  "clear_layer l = l\<lparr>kl_k_stream := map clear_tensor (kl_k_stream l), kl_v_stream := map (map_option clear_tensor) (kl_v_stream l)\<rparr>"

definition mem_clear :: "bool \<Rightarrow> kv_mem \<Rightarrow> kv_mem" where
  "mem_clear data m = m\<lparr>km_kv := kv_clear (km_kv m), km_layers := (if data then map clear_layer (km_layers m) else km_layers m)\<rparr>"

definition mem_seq_rm :: "int \<Rightarrow> int \<Rightarrow> int \<Rightarrow> kv_mem \<Rightarrow> kv_mem res" where
  "mem_seq_rm seq_id p0 p1 m = and_then (kv_seq_rm seq_id p0 p1 (km_kv m)) (\<lambda>r. Inr (m\<lparr>km_kv := fst r\<rparr>))"

definition si_head :: "slot_info \<Rightarrow> nat res" where
  "si_head si = (if length (si_idxs si) \<noteq> 1 then Inl Abort else if si_idxs si ! 0 = [] then Inl Abort else Inr (si_idxs si ! 0 ! 0))"

definition si_is_contiguous :: "slot_info \<Rightarrow> bool" where
  "si_is_contiguous si =
    (if si_idxs si = [] \<or> si_idxs si ! 0 = [] then True
     else if length (si_idxs si) > 1 then False
     else list_all (\<lambda>i. si_idxs si ! 0 ! i = si_idxs si ! 0 ! 0 + i) [0..<length (si_idxs si ! 0)])"

section \<open>Writing\<close>

text \<open>The cells to save as ranges: the scan keeps the count, the start of the open range (the size when none is open) and
  the ranges closed so far.\<close>

definition range_step :: "(nat \<Rightarrow> bool) \<Rightarrow> nat \<Rightarrow> nat \<Rightarrow> nat \<times> nat \<times> (nat \<times> nat) list \<Rightarrow> nat \<times> nat \<times> (nat \<times> nat) list" where
  "range_step P sz i st =
    (let (cell_count, begin_cell, rs) = st in
     if P i then (cell_count + 1, if begin_cell = sz then i else begin_cell, rs)
     else if begin_cell \<noteq> sz then (cell_count, sz, rs @ [(begin_cell, i)]) else (cell_count, begin_cell, rs))"

definition saves_cell :: "kv_cells \<Rightarrow> int \<Rightarrow> nat \<Rightarrow> bool" where
  "saves_cell c seq_id i \<longleftrightarrow> \<not> cells_is_empty c i \<and> (seq_id = - 1 \<or> cells_seq_has c i (nat seq_id))"

definition cell_ranges :: "kv_cells \<Rightarrow> int \<Rightarrow> nat \<times> (nat \<times> nat) list" where
  "cell_ranges c seq_id =
    (let sz = cells_size c; (cell_count, begin_cell, rs) = fold (range_step (saves_cell c seq_id) sz) [0..<sz] (0, sz, []) in
     (cell_count, if begin_cell \<noteq> sz then rs @ [(begin_cell, sz)] else rs))"

definition cell_seq_ids :: "kv_cache \<Rightarrow> kv_cells \<Rightarrow> int \<Rightarrow> nat \<Rightarrow> nat list" where
  "cell_seq_ids kv c seq_id i = filter (\<lambda>cur. (int cur = seq_id \<or> seq_id = - 1) \<and> cells_seq_has c i cur) [0..<kv_n_seq_max kv]"

definition write_cell :: "'w io_write_i \<Rightarrow> kv_cache \<Rightarrow> kv_cells \<Rightarrow> int \<Rightarrow> nat \<Rightarrow> 'w \<Rightarrow> 'w res" where
  "write_cell io kv c seq_id i w =
    (let seq_ids = cell_seq_ids kv c seq_id i in
     and_then (iw_write io (le_bytes 4 (unsigned_at 32 (cells_pos_get c i))) w) (\<lambda>w.
     and_then (iw_write io (le_bytes 4 (length seq_ids)) w) (
     each (\<lambda>s. iw_write io (le_bytes 4 s)) seq_ids)))"

definition state_write_meta :: "'w io_write_i \<Rightarrow> kv_mem \<Rightarrow> nat \<Rightarrow> (nat \<times> nat) list \<Rightarrow> int \<Rightarrow> 'w \<Rightarrow> 'w res" where
  "state_write_meta io m strm rs seq_id =
    each (\<lambda>r. each (write_cell io (km_kv m) (kv_v_cells (km_kv m) ! strm) seq_id) [fst r..<snd r]) rs"

definition write_k_layer :: "'w io_write_i \<Rightarrow> nat \<Rightarrow> (nat \<times> nat) list \<Rightarrow> kv_layer \<Rightarrow> 'w \<Rightarrow> 'w res" where
  "write_k_layer io strm rs l w =
    (let k = kl_k_stream l ! strm; k_size_row = ggml_row_size (kt_type k) (kl_n_embd_k l) in
     and_then (iw_write io (le_bytes 4 (unsigned_at 32 (kt_type k))) w) (\<lambda>w.
     and_then (iw_write io (le_bytes 8 k_size_row) w) (
     each (\<lambda>r. iw_write_tensor io k (fst r * k_size_row) ((snd r - fst r) * k_size_row)) rs)))"

definition write_v_layer :: "'w io_write_i \<Rightarrow> nat \<Rightarrow> (nat \<times> nat) list \<Rightarrow> kv_layer \<Rightarrow> 'w \<Rightarrow> 'w res" where
  "write_v_layer io strm rs l w =
    (case kl_v_stream l ! strm of
       None \<Rightarrow> Inr w
     | Some v \<Rightarrow>
         (let v_size_row = ggml_row_size (kt_type v) (kl_n_embd_v l) in
          and_then (iw_write io (le_bytes 4 (unsigned_at 32 (kt_type v))) w) (\<lambda>w.
          and_then (iw_write io (le_bytes 8 v_size_row) w) (
          each (\<lambda>r. iw_write_tensor io v (fst r * v_size_row) ((snd r - fst r) * v_size_row)) rs))))"

text \<open>Transposed values: one row of the tensor per element of the embedding. The offset is computed in 32 bits.\<close>

definition write_vt_layer :: "'w io_write_i \<Rightarrow> nat \<Rightarrow> nat \<Rightarrow> (nat \<times> nat) list \<Rightarrow> kv_layer \<Rightarrow> 'w \<Rightarrow> 'w res" where
  "write_vt_layer io kv_size strm rs l w =
    (case kl_v_stream l ! strm of
       None \<Rightarrow> Inr w
     | Some v \<Rightarrow>
         (let v_size_el = ggml_type_size (kt_type v) in
          and_then (iw_write io (le_bytes 4 (unsigned_at 32 (kt_type v))) w) (\<lambda>w.
          and_then (iw_write io (le_bytes 4 v_size_el) w) (\<lambda>w.
          and_then (iw_write io (le_bytes 4 (kl_n_embd_v l)) w) (
          each (\<lambda>j. each (\<lambda>r. iw_write_tensor io v (u32 (int ((fst r + j * kv_size) * v_size_el))) ((snd r - fst r) * v_size_el)) rs)
            [0..<kl_n_embd_v l])))))"

definition state_write_data :: "'w io_write_i \<Rightarrow> kv_mem \<Rightarrow> nat \<Rightarrow> (nat \<times> nat) list \<Rightarrow> 'w \<Rightarrow> 'w res" where
  "state_write_data io m strm rs w =
    (let v_trans = (if km_v_trans m then 1 else 0) in
     and_then (iw_write io (le_bytes 4 v_trans) w) (\<lambda>w.
     and_then (iw_write io (le_bytes 4 (length (km_layers m))) w) (\<lambda>w.
     and_then (each (write_k_layer io strm rs) (km_layers m) w) (
     if v_trans = 0 then each (write_v_layer io strm rs) (km_layers m)
     else each (write_vt_layer io (cells_size (kv_v_cells (km_kv m) ! strm)) strm rs) (km_layers m)))))"

text \<open>A sequence id past the 256 bits of a cell makes \<^verbatim>\<open>std::bitset::test\<close> throw at the first cell in use.\<close>

definition write_stream :: "'w io_write_i \<Rightarrow> kv_mem \<Rightarrow> int \<Rightarrow> nat \<Rightarrow> 'w \<Rightarrow> 'w res" where
  "write_stream io m seq_id s w =
    (let c = kv_v_cells (km_kv m) ! s; (cell_count, rs) = cell_ranges c seq_id in
     if seq_id \<noteq> - 1 \<and> \<not> (0 \<le> seq_id \<and> seq_id < int LLAMA_MAX_SEQ) \<and> list_ex (\<lambda>i. \<not> cells_is_empty c i) [0..<cells_size c]
     then Inl Out_of_range
     else if cell_count \<noteq> sum_list (map (\<lambda>r. snd r - fst r) rs) then Inl Abort
     else and_then (iw_write io (le_bytes 4 cell_count) w) (\<lambda>w.
       if cell_count = 0 then Inr w
       else and_then (state_write_meta io m s rs seq_id w) (state_write_data io m s rs)))"

definition state_write :: "'w io_write_i \<Rightarrow> kv_mem \<Rightarrow> int \<Rightarrow> 'w \<Rightarrow> 'w res" where
  "state_write io m seq_id w =
    and_then (iw_write io (le_bytes 4 (kv_n_stream (km_kv m))) w) (each (write_stream io m seq_id) [0..<kv_n_stream (km_kv m)])"

section \<open>Reading the cells\<close>

text \<open>One sequence: the positions of the cells, or \<open>None\<close> for a cell that is not of exactly one sequence.\<close>

primrec read_seq_cells :: "fault \<Rightarrow> nat \<Rightarrow> int list \<Rightarrow> (kv_mem, int list option) reader" where
  "read_seq_cells eof 0 ps = ret (Some ps)"
| "read_seq_cells eof (Suc n) ps =
    rbind (read_int eof 4) (\<lambda>pos. rbind (read_uint eof 4) (\<lambda>n_seq_id.
      if n_seq_id \<noteq> 1 then ret None
      else rbind (read_int eof 4) (\<lambda>_. read_seq_cells eof n (ps @ [pos]))))"

definition restore_ubatch :: "kv_cache \<Rightarrow> nat \<Rightarrow> int list \<Rightarrow> ubatch res" where
  "restore_ubatch kv dest ps =
    and_then (ubatch_reserve (length ps) 1 (al_new (kv_n_pos_per_embd kv))) (\<lambda>(ub, _).
      Inr (ub\<lparr>ub_seq_id_unq := [dest], ub_pos := ps, ub_n_seq_id := replicate (length ps) 1, ub_seq_id := replicate (length ps) [dest]\<rparr>))"

text \<open>The reserved ubatch has one position per token, so for a model with positions in two dimensions \<^verbatim>\<open>apply_ubatch\<close> reads
  past the end of the array.\<close>

definition place_restored :: "nat \<Rightarrow> nat \<Rightarrow> int list \<Rightarrow> (kv_mem, slot_info option) reader" where
  "place_restored strm dest ps = with_st (\<lambda>m.
    case restore_ubatch (km_kv m) dest ps of
      Inl e \<Rightarrow> throw e
    | Inr ub \<Rightarrow>
        (case find_slot ub False (km_kv m) of
           Inl e \<Rightarrow> throw e
         | Inr None \<Rightarrow> ret None
         | Inr (Some si) \<Rightarrow>
             if ub_is_pos_2d ub then throw Undefined
             else rbind (update_st (\<lambda>m. and_then (apply_ubatch si ub (km_kv m)) (\<lambda>kv. Inr (m\<lparr>km_kv := kv\<rparr>)))) (\<lambda>_. with_st (\<lambda>m.
               let c = kv_v_cells (km_kv m) ! strm in
               if si_n_stream si \<noteq> 1 \<or> length (si_idxs si ! 0) \<noteq> length ps then throw Abort
               else if \<not> list_all (\<lambda>i. cells_pos_get c (si_idxs si ! 0 ! i) = ps ! i \<and> cells_seq_has c (si_idxs si ! 0 ! i) dest) [0..<length ps]
               then throw Abort
               else ret (Some si)))))"

text \<open>The whole cache: cell \<open>i\<close> of the stream gets a position and its sequences.\<close>

definition update_cells :: "nat \<Rightarrow> (kv_cells \<Rightarrow> kv_cells) \<Rightarrow> kv_mem \<Rightarrow> kv_mem" where
  "update_cells strm f m = m\<lparr>km_kv := (km_kv m)\<lparr>kv_v_cells := (kv_v_cells (km_kv m))[strm := f (kv_v_cells (km_kv m) ! strm)]\<rparr>\<rparr>"

primrec read_cell_seqs :: "fault \<Rightarrow> nat \<Rightarrow> nat \<Rightarrow> nat \<Rightarrow> (kv_mem, bool) reader" where
  "read_cell_seqs eof strm i 0 = ret True"
| "read_cell_seqs eof strm i (Suc n) =
    rbind (read_int eof 4) (\<lambda>seq_id. with_st (\<lambda>m.
      if seq_id < 0 \<or> nat seq_id \<ge> kv_n_seq_max (km_kv m) then ret False
      else rbind (update_st (\<lambda>m. Inr (update_cells strm (cells_seq_add i (nat seq_id)) m))) (\<lambda>_. read_cell_seqs eof strm i n)))"

definition read_cell :: "fault \<Rightarrow> nat \<Rightarrow> nat \<Rightarrow> (kv_mem, bool) reader" where
  "read_cell eof strm i =
    rbind (read_int eof 4) (\<lambda>pos. rbind (read_uint eof 4) (\<lambda>n_seq_id.
    rbind (update_st (\<lambda>m. Inr (update_cells strm (cells_pos_set i pos) m))) (\<lambda>_. read_cell_seqs eof strm i n_seq_id)))"

definition whole_slot :: "nat \<Rightarrow> nat \<Rightarrow> slot_info" where
  "whole_slot strm n = \<lparr>si_s0 = strm, si_s1 = strm, si_strm = [strm], si_idxs = [[0..<n]]\<rparr>"

definition state_read_meta :: "fault \<Rightarrow> nat \<Rightarrow> nat \<Rightarrow> int \<Rightarrow> (kv_mem, slot_info option) reader" where
  "state_read_meta eof strm cell_count dest =
    (if dest \<noteq> - 1 then
       rbind (update_st (mem_seq_rm dest (- 1) (- 1))) (\<lambda>_. rbind (read_seq_cells eof cell_count []) (\<lambda>r.
         case r of None \<Rightarrow> ret None | Some ps \<Rightarrow> place_restored strm (nat dest) ps))
     else with_st (\<lambda>m.
       if cell_count > cells_size (kv_v_cells (km_kv m) ! strm) then ret None
       else rbind (update_st (\<lambda>m. Inr (mem_clear True m))) (\<lambda>_. rbind (read_all (read_cell eof strm) [0..<cell_count]) (\<lambda>ok.
         if \<not> ok then ret None
         else rbind (update_st (\<lambda>m. Inr (m\<lparr>km_kv := (km_kv m)\<lparr>kv_v_heads := (kv_v_heads (km_kv m))[strm := 0]\<rparr>\<rparr>))) (\<lambda>_.
           ret (Some (whole_slot strm cell_count)))))))"

section \<open>Reading the tensors\<close>

text \<open>Rows of \<open>row\<close> bytes to the cells of the slot; \<open>offset\<close> gives the place of a cell in the tensor.\<close>

definition put_rows :: "nat \<Rightarrow> (nat \<Rightarrow> nat) \<Rightarrow> slot_info \<Rightarrow> nat \<Rightarrow> bytes \<Rightarrow> kv_tensor \<Rightarrow> kv_tensor res" where
  "put_rows row offset si cell_count src t =
    (if si_is_contiguous si then and_then (si_head si) (\<lambda>h. tensor_set t src (offset h))
     else each (\<lambda>i t. tensor_set t (take row (drop (i * row) src)) (offset (si_idxs si ! 0 ! i))) [0..<cell_count] t)"

definition update_k :: "nat \<Rightarrow> nat \<Rightarrow> (kv_tensor \<Rightarrow> kv_tensor res) \<Rightarrow> kv_mem \<Rightarrow> kv_mem res" where
  "update_k il strm f m =
    (let l = km_layers m ! il in
     and_then (f (kl_k_stream l ! strm)) (\<lambda>k. Inr (m\<lparr>km_layers := (km_layers m)[il := l\<lparr>kl_k_stream := (kl_k_stream l)[strm := k]\<rparr>]\<rparr>)))"

definition update_v :: "nat \<Rightarrow> nat \<Rightarrow> (kv_tensor \<Rightarrow> kv_tensor res) \<Rightarrow> kv_mem \<Rightarrow> kv_mem res" where
  "update_v il strm f m =
    (let l = km_layers m ! il in
     and_then (f (the (kl_v_stream l ! strm))) (\<lambda>v. Inr (m\<lparr>km_layers := (km_layers m)[il := l\<lparr>kl_v_stream := (kl_v_stream l)[strm := Some v]\<rparr>]\<rparr>)))"

definition read_k_layer :: "fault \<Rightarrow> nat \<Rightarrow> nat \<Rightarrow> slot_info \<Rightarrow> nat \<Rightarrow> (kv_mem, bool) reader" where
  "read_k_layer eof strm cell_count si il = with_st (\<lambda>m.
    let l = km_layers m ! il; k = kl_k_stream l ! strm; k_size_row = ggml_row_size (kt_type k) (kl_n_embd_k l) in
    rbind (read_int eof 4) (\<lambda>k_type_i_ref. if kt_type k \<noteq> k_type_i_ref then ret False
    else rbind (read_uint eof 8) (\<lambda>k_size_row_ref. if k_size_row \<noteq> k_size_row_ref then ret False
    else if cell_count = 0 then ret True
    else rbind (io_read eof (cell_count * k_size_row)) (\<lambda>src.
      rbind (update_st (update_k il strm (put_rows k_size_row (\<lambda>idx. idx * k_size_row) si cell_count src))) (\<lambda>_. ret True)))))"

definition read_v_layer :: "fault \<Rightarrow> nat \<Rightarrow> nat \<Rightarrow> slot_info \<Rightarrow> nat \<Rightarrow> (kv_mem, bool) reader" where
  "read_v_layer eof strm cell_count si il = with_st (\<lambda>m.
    let l = km_layers m ! il in
    case kl_v_stream l ! strm of
      None \<Rightarrow> ret True
    | Some v \<Rightarrow>
        (let v_size_row = ggml_row_size (kt_type v) (kl_n_embd_v l) in
         rbind (read_int eof 4) (\<lambda>v_type_i_ref. if kt_type v \<noteq> v_type_i_ref then ret False
         else rbind (read_uint eof 8) (\<lambda>v_size_row_ref. if v_size_row \<noteq> v_size_row_ref then ret False
         else if cell_count = 0 then ret True
         else rbind (io_read eof (cell_count * v_size_row)) (\<lambda>src.
           rbind (update_st (update_v il strm (put_rows v_size_row (\<lambda>idx. idx * v_size_row) si cell_count src))) (\<lambda>_. ret True))))))"

definition read_vt_row :: "fault \<Rightarrow> nat \<Rightarrow> nat \<Rightarrow> slot_info \<Rightarrow> nat \<Rightarrow> nat \<Rightarrow> nat \<Rightarrow> nat \<Rightarrow> (kv_mem, bool) reader" where
  "read_vt_row eof strm cell_count si il kv_size v_size_el j =
    rbind (io_read eof (cell_count * v_size_el)) (\<lambda>src.
      rbind (update_st (update_v il strm (put_rows v_size_el (\<lambda>idx. u32 (int (idx + j * kv_size)) * v_size_el) si cell_count src))) (\<lambda>_. ret True))"

definition read_vt_layer :: "fault \<Rightarrow> nat \<Rightarrow> nat \<Rightarrow> slot_info \<Rightarrow> nat \<Rightarrow> (kv_mem, bool) reader" where
  "read_vt_layer eof strm cell_count si il = with_st (\<lambda>m.
    let l = km_layers m ! il in
    case kl_v_stream l ! strm of
      None \<Rightarrow> ret True
    | Some v \<Rightarrow>
        (let v_size_el = ggml_type_size (kt_type v); kv_size = cells_size (kv_v_cells (km_kv m) ! strm) in
         rbind (read_int eof 4) (\<lambda>v_type_i_ref. if kt_type v \<noteq> v_type_i_ref then ret False
         else rbind (read_uint eof 4) (\<lambda>v_size_el_ref. if v_size_el \<noteq> v_size_el_ref then ret False
         else rbind (read_uint eof 4) (\<lambda>n_embd_v_gqa_ref. if kl_n_embd_v l \<noteq> n_embd_v_gqa_ref then ret False
         else if cell_count = 0 then ret True
         else read_all (read_vt_row eof strm cell_count si il kv_size v_size_el) [0..<kl_n_embd_v l])))))"

definition state_read_data :: "fault \<Rightarrow> nat \<Rightarrow> nat \<Rightarrow> slot_info \<Rightarrow> (kv_mem, bool) reader" where
  "state_read_data eof strm cell_count si = rbind (read_uint eof 4) (\<lambda>v_trans. rbind (read_uint eof 4) (\<lambda>n_layer. with_st (\<lambda>m.
    let layers = [0..<length (km_layers m)] in
    if n_layer \<noteq> length (km_layers m) then ret False
    else if cell_count > cells_size (kv_v_cells (km_kv m) ! strm) then ret False
    else if km_v_trans m \<noteq> (v_trans \<noteq> 0) then ret False
    else rbind (read_all (read_k_layer eof strm cell_count si) layers) (\<lambda>ok.
      if \<not> ok then ret False
      else if \<not> km_v_trans m then read_all (read_v_layer eof strm cell_count si) layers
      else read_all (read_vt_layer eof strm cell_count si) layers))))"

section \<open>Reading a state\<close>

abbreviation restore_failed :: fault where
  "restore_failed \<equiv> Runtime_error ''failed to restore kv cache''"

definition fail_restore :: "int \<Rightarrow> (kv_mem, unit) reader" where
  "fail_restore seq_id =
    rbind (update_st (if seq_id = - 1 then (\<lambda>m. Inr (mem_clear True m)) else mem_seq_rm seq_id (- 1) (- 1))) (\<lambda>_. throw restore_failed)"

definition read_stream :: "fault \<Rightarrow> int \<Rightarrow> nat \<Rightarrow> (kv_mem, unit) reader" where
  "read_stream eof seq_id s = rbind (read_uint eof 4) (\<lambda>cell_count.
    if cell_count = 0 then ret ()
    else with_st (\<lambda>m.
      let strm = (if seq_id = - 1 then s else kv_seq_to_stream (km_kv m) ! nat seq_id) in
      rbind (state_read_meta eof strm cell_count seq_id) (\<lambda>r.
        case r of
          None \<Rightarrow> fail_restore seq_id
        | Some si \<Rightarrow> rbind (state_read_data eof strm cell_count si) (\<lambda>ok. if ok then ret () else fail_restore seq_id))))"

primrec read_streams :: "fault \<Rightarrow> int \<Rightarrow> nat list \<Rightarrow> (kv_mem, unit) reader" where
  "read_streams eof seq_id [] = ret ()"
| "read_streams eof seq_id (s # ss) = rbind (read_stream eof seq_id s) (\<lambda>_. read_streams eof seq_id ss)"

definition state_read :: "fault \<Rightarrow> int \<Rightarrow> (kv_mem, unit) reader" where
  "state_read eof seq_id = with_st (\<lambda>m.
    if \<not> (seq_id = - 1 \<or> kv_seq_ok (km_kv m) seq_id) then throw Abort
    else rbind (read_uint eof 4) (\<lambda>n_stream_cur.
      if n_stream_cur \<noteq> kv_n_stream (km_kv m) then throw (Runtime_error ''n_stream mismatch'')
      else read_streams eof seq_id [0..<kv_n_stream (km_kv m)]))"

section \<open>What is written\<close>

definition saved_cells :: "kv_cells \<Rightarrow> int \<Rightarrow> nat list" where
  "saved_cells c seq_id = filter (saves_cell c seq_id) [0..<cells_size c]"

definition tensor_row :: "nat \<Rightarrow> kv_tensor \<Rightarrow> nat \<Rightarrow> bytes" where
  "tensor_row row t i = take row (drop (i * row) (kt_data t))"

definition enc_cell :: "kv_cache \<Rightarrow> kv_cells \<Rightarrow> int \<Rightarrow> nat \<Rightarrow> bytes" where
  "enc_cell kv c seq_id i =
    (let ids = cell_seq_ids kv c seq_id i in
     le_bytes 4 (unsigned_at 32 (cells_pos_get c i)) @ le_bytes 4 (length ids) @ concat (map (le_bytes 4) ids))"

abbreviation k_size :: "kv_layer \<Rightarrow> kv_tensor \<Rightarrow> nat" where
  "k_size l k \<equiv> ggml_row_size (kt_type k) (kl_n_embd_k l)"

abbreviation v_size :: "kv_layer \<Rightarrow> kv_tensor \<Rightarrow> nat" where
  "v_size l v \<equiv> ggml_row_size (kt_type v) (kl_n_embd_v l)"

abbreviation v_el :: "kv_tensor \<Rightarrow> nat" where
  "v_el v \<equiv> ggml_type_size (kt_type v)"

definition enc_k :: "nat \<Rightarrow> nat list \<Rightarrow> kv_layer \<Rightarrow> bytes" where
  "enc_k strm is l =
    (let k = kl_k_stream l ! strm in
     le_bytes 4 (unsigned_at 32 (kt_type k)) @ le_bytes 8 (k_size l k) @ concat (map (tensor_row (k_size l k) k) is))"

definition enc_v :: "bool \<Rightarrow> nat \<Rightarrow> nat \<Rightarrow> nat list \<Rightarrow> kv_layer \<Rightarrow> bytes" where
  "enc_v v_trans kv_size strm is l =
    (case kl_v_stream l ! strm of
       None \<Rightarrow> []
     | Some v \<Rightarrow>
         if v_trans then le_bytes 4 (unsigned_at 32 (kt_type v)) @ le_bytes 4 (v_el v) @ le_bytes 4 (kl_n_embd_v l) @
           concat (map (\<lambda>j. concat (map (\<lambda>i. tensor_row (v_el v) v (i + j * kv_size)) is)) [0..<kl_n_embd_v l])
         else le_bytes 4 (unsigned_at 32 (kt_type v)) @ le_bytes 8 (v_size l v) @ concat (map (tensor_row (v_size l v) v) is))"

definition enc_data :: "kv_mem \<Rightarrow> nat \<Rightarrow> nat list \<Rightarrow> bytes" where
  "enc_data m s is =
    le_bytes 4 (if km_v_trans m then 1 else 0) @ le_bytes 4 (length (km_layers m)) @
    concat (map (enc_k s is) (km_layers m)) @ concat (map (enc_v (km_v_trans m) (cells_size (kv_v_cells (km_kv m) ! s)) s is) (km_layers m))"

definition enc_stream :: "kv_mem \<Rightarrow> int \<Rightarrow> nat \<Rightarrow> bytes" where
  "enc_stream m seq_id s =
    (let c = kv_v_cells (km_kv m) ! s; is = saved_cells c seq_id in
     le_bytes 4 (length is) @ (if is = [] then [] else concat (map (enc_cell (km_kv m) c seq_id) is) @ enc_data m s is))"

definition enc_state :: "kv_mem \<Rightarrow> int \<Rightarrow> bytes" where
  "enc_state m seq_id = le_bytes 4 (kv_n_stream (km_kv m)) @ concat (map (enc_stream m seq_id) [0..<kv_n_stream (km_kv m)])"

text \<open>The tensors have a row per cell, and sizes that fit the fields of the state.\<close>

definition k_ok :: "nat \<Rightarrow> kv_layer \<Rightarrow> kv_tensor \<Rightarrow> bool" where
  "k_ok width l k \<longleftrightarrow> - (2 ^ 31) \<le> kt_type k \<and> kt_type k < 2 ^ 31 \<and> length (kt_data k) = width * k_size l k"

definition v_ok :: "bool \<Rightarrow> nat \<Rightarrow> kv_layer \<Rightarrow> kv_tensor \<Rightarrow> bool" where
  "v_ok v_trans width l v \<longleftrightarrow> - (2 ^ 31) \<le> kt_type v \<and> kt_type v < 2 ^ 31 \<and>
    (if v_trans then length (kt_data v) = kl_n_embd_v l * width * v_el v \<and> kl_n_embd_v l * width * v_el v \<le> 2 ^ 32 \<and>
       kl_n_embd_v l * width \<le> 2 ^ 32 \<and> v_el v < 2 ^ 32
     else length (kt_data v) = width * v_size l v)"

definition layer_ok :: "bool \<Rightarrow> nat \<Rightarrow> nat \<Rightarrow> kv_layer \<Rightarrow> bool" where
  "layer_ok v_trans n_stream width l \<longleftrightarrow>
    length (kl_k_stream l) = n_stream \<and> length (kl_v_stream l) = n_stream \<and> kl_n_embd_v l < 2 ^ 32 \<and>
    (\<forall>s < n_stream. k_ok width l (kl_k_stream l ! s)) \<and>
    (\<forall>s < n_stream. \<forall>v. kl_v_stream l ! s = Some v \<longrightarrow> v_ok v_trans width l v)"

definition mem_ok :: "kv_mem \<Rightarrow> bool" where
  "mem_ok m \<longleftrightarrow> kv_inv (km_kv m) \<and> kv_n_stream (km_kv m) < 2 ^ 32 \<and> kv_width (km_kv m) < 2 ^ 32 \<and> length (km_layers m) < 2 ^ 32 \<and>
    (\<forall>l \<in> set (km_layers m). layer_ok (km_v_trans m) (kv_n_stream (km_kv m)) (kv_width (km_kv m)) l)"

subsection \<open>The ranges\<close>

lemma range_scan:
  assumes "k \<le> sz" "fold (range_step P sz) [0..<k] (0, sz, []) = (n, b, rs)"
  shows "n = length (filter P [0..<k]) \<and> (b = sz \<or> b < k) \<and> (\<forall>r \<in> set rs. fst r < snd r \<and> snd r \<le> k) \<and>
    concat (map (\<lambda>r. [fst r..<snd r]) rs) @ (if b = sz then [] else [b..<k]) = filter P [0..<k]"
  using assms
proof (induction k arbitrary: n b rs)
  case (Suc k)
  obtain n' b' rs' where st: "fold (range_step P sz) [0..<k] (0, sz, []) = (n', b', rs')" by (metis prod_cases3)
  have step: "range_step P sz k (n', b', rs') = (n, b, rs)" using Suc.prems(2) st by simp
  have ih: "n' = length (filter P [0..<k])" "b' = sz \<or> b' < k" "\<forall>r \<in> set rs'. fst r < snd r \<and> snd r \<le> k"
    "concat (map (\<lambda>r. [fst r..<snd r]) rs') @ (if b' = sz then [] else [b'..<k]) = filter P [0..<k]"
    using Suc.IH[OF _ st] Suc.prems(1) by auto
  have lt: "\<forall>r \<in> set rs'. snd r \<le> Suc k" using ih(3) by auto
  show ?case
    using step ih lt Suc.prems(1) by (auto simp: range_step_def split: if_splits)
qed simp

lemma cell_ranges_eq:
  assumes "cell_ranges c seq_id = (n, rs)"
  shows "n = length (saved_cells c seq_id)" "concat (map (\<lambda>r. [fst r..<snd r]) rs) = saved_cells c seq_id"
    "\<forall>r \<in> set rs. fst r < snd r \<and> snd r \<le> cells_size c"
proof -
  obtain n' b rs' where st: "fold (range_step (saves_cell c seq_id) (cells_size c)) [0..<cells_size c] (0, cells_size c, []) = (n', b, rs')"
    by (metis prod_cases3)
  note sc = range_scan[OF le_refl st]
  have eq: "n = n'" "rs = (if b \<noteq> cells_size c then rs' @ [(b, cells_size c)] else rs')"
    using assms st by (auto simp: cell_ranges_def Let_def)
  show "n = length (saved_cells c seq_id)" using sc eq by (simp add: saved_cells_def)
  show "concat (map (\<lambda>r. [fst r..<snd r]) rs) = saved_cells c seq_id" using sc eq by (auto simp: saved_cells_def split: if_splits)
  show "\<forall>r \<in> set rs. fst r < snd r \<and> snd r \<le> cells_size c" using sc eq by auto
qed

lemma range_sum: "sum_list (map (\<lambda>r. snd r - fst r) rs) = length (concat (map (\<lambda>r. [fst r..<snd r]) rs))"
  by (induction rs) auto

subsection \<open>Rows\<close>

lemma rows_of_range:
  assumes "a \<le> b" "b * row \<le> length d"
  shows "take ((b - a) * row) (drop (a * row) d) = concat (map (\<lambda>i. take row (drop (i * row) d)) [a..<b])"
  using assms
proof (induction b)
  case (Suc b)
  show ?case
  proof (cases "a = Suc b")
    case False
    then have ab: "a \<le> b" and k: "(Suc b - a) * row = (b - a) * row + row" using Suc.prems(1) by (auto simp: Suc_diff_le)
    have "take ((Suc b - a) * row) (drop (a * row) d) =
        take ((b - a) * row) (drop (a * row) d) @ take row (drop ((b - a) * row + a * row) d)"
      unfolding k by (simp add: take_add)
    moreover have "(b - a) * row + a * row = b * row" using ab by (metis add_mult_distrib le_add_diff_inverse2)
    ultimately show ?thesis using Suc.IH[OF ab] Suc.prems(2) ab by simp
  qed simp
qed simp

text \<open>The rows of a range, \<open>base\<close> rows further into the tensor.\<close>

lemma tensor_rows_of_range:
  assumes "a \<le> b" "(b + base) * row \<le> length (kt_data t)"
  shows "take ((b - a) * row) (drop ((a + base) * row) (kt_data t)) = concat (map (\<lambda>i. tensor_row row t (i + base)) [a..<b])"
proof -
  have "[a + base..<b + base] = map (\<lambda>i. i + base) [a..<b]" by (rule nth_equalityI) auto
  then show ?thesis using rows_of_range[of "a + base" "b + base" row "kt_data t"] assms by (simp add: comp_def tensor_row_def)
qed

subsection \<open>What each part writes\<close>

lemma layer_okD:
  assumes "layer_ok v_trans n_stream width l" "s < n_stream"
  shows "- (2 ^ 31) \<le> kt_type (kl_k_stream l ! s)" "kt_type (kl_k_stream l ! s) < 2 ^ 31"
    "length (kt_data (kl_k_stream l ! s)) = width * k_size l (kl_k_stream l ! s)" "kl_n_embd_v l < 2 ^ 32"
    "length (kl_k_stream l) = n_stream" "length (kl_v_stream l) = n_stream"
    and "kl_v_stream l ! s = Some v \<Longrightarrow> - (2 ^ 31) \<le> kt_type v \<and> kt_type v < 2 ^ 31"
    and "kl_v_stream l ! s = Some v \<Longrightarrow> \<not> v_trans \<Longrightarrow> length (kt_data v) = width * v_size l v"
    and "kl_v_stream l ! s = Some v \<Longrightarrow> v_trans \<Longrightarrow> length (kt_data v) = kl_n_embd_v l * width * v_el v \<and>
      kl_n_embd_v l * width * v_el v \<le> 2 ^ 32 \<and> kl_n_embd_v l * width \<le> 2 ^ 32 \<and> v_el v < 2 ^ 32"
  using assms unfolding layer_ok_def k_ok_def v_ok_def by (auto split: if_splits)

lemma k_ok_cong: "kt_type k' = kt_type k \<Longrightarrow> length (kt_data k') = length (kt_data k) \<Longrightarrow> kl_n_embd_k l' = kl_n_embd_k l \<Longrightarrow> k_ok width l' k' = k_ok width l k"
  by (simp add: k_ok_def)

lemma v_ok_cong: "kt_type v' = kt_type v \<Longrightarrow> length (kt_data v') = length (kt_data v) \<Longrightarrow> kl_n_embd_v l' = kl_n_embd_v l \<Longrightarrow>
    v_ok vt width l' v' = v_ok vt width l v"
  by (simp add: v_ok_def)

lemma layer_ok_set_k:
  assumes "layer_ok vt n width l" "s < n" "kt_type k' = kt_type (kl_k_stream l ! s)" "length (kt_data k') = length (kt_data (kl_k_stream l ! s))"
  shows "layer_ok vt n width (l\<lparr>kl_k_stream := (kl_k_stream l)[s := k']\<rparr>)"
proof -
  have "k_ok width (l\<lparr>kl_k_stream := x\<rparr>) k = k_ok width l k" "v_ok vt width (l\<lparr>kl_k_stream := x\<rparr>) v = v_ok vt width l v" for x k v
    by (simp_all add: k_ok_def v_ok_def)
  then show ?thesis using assms k_ok_cong[OF assms(3,4), of l l width] by (simp add: layer_ok_def nth_list_update)
qed

lemma layer_ok_set_v:
  assumes "layer_ok vt n width l" "s < n" "kl_v_stream l ! s = Some v" "kt_type v' = kt_type v" "length (kt_data v') = length (kt_data v)"
  shows "layer_ok vt n width (l\<lparr>kl_v_stream := (kl_v_stream l)[s := Some v']\<rparr>)"
proof -
  have "k_ok width (l\<lparr>kl_v_stream := x\<rparr>) k = k_ok width l k" "v_ok vt width (l\<lparr>kl_v_stream := x\<rparr>) u = v_ok vt width l u" for x k u
    by (simp_all add: k_ok_def v_ok_def)
  then show ?thesis using assms v_ok_cong[OF assms(4,5), of l l vt width] by (auto simp: layer_ok_def nth_list_update)
qed

lemma concat_map_concat: "concat (map g (concat (map h rs))) = concat (map (\<lambda>r. concat (map g (h r))) rs)"
  by (induction rs) auto

lemma embd_index:
  fixes j :: nat
  assumes "i \<le> width" "j < n"
  shows "i + j * width \<le> n * width"
proof -
  have "Suc j * width \<le> n * width" using assms(2) by (intro mult_le_mono1) simp
  then show ?thesis using assms(1) by simp
qed

context io_writer
begin

lemma writes_cell: "writes (write_cell io kv c seq_id i) (enc_cell kv c seq_id i)"
  using writes_then[OF writes_write writes_then[OF writes_write writes_each[OF writes_write]]]
  by (simp add: writes_def write_cell_def enc_cell_def Let_def)

lemma writes_ranges:
  assumes "\<And>i. i \<in> set (concat (map (\<lambda>r. [fst r..<snd r]) rs)) \<Longrightarrow> writes (f i) (g i)"
  shows "writes (each (\<lambda>r. each f [fst r..<snd r]) rs) (concat (map g (concat (map (\<lambda>r. [fst r..<snd r]) rs))))"
proof -
  have "each (\<lambda>r. each f [fst r..<snd r]) rs = each f (concat (map (\<lambda>r. [fst r..<snd r]) rs))" by (rule ext) (simp add: each_concat_map)
  then show ?thesis using writes_each[of "concat (map (\<lambda>r. [fst r..<snd r]) rs)" f g] assms by simp
qed

lemma writes_meta:
  assumes "concat (map (\<lambda>r. [fst r..<snd r]) rs) = is"
  shows "writes (state_write_meta io m strm rs seq_id) (concat (map (enc_cell (km_kv m) (kv_v_cells (km_kv m) ! strm) seq_id) is))"
  unfolding state_write_meta_def using writes_ranges[of rs] writes_cell assms by blast

text \<open>The rows of a tensor, range by range.\<close>

lemma writes_rows:
  assumes "\<forall>r \<in> set rs. fst r < snd r \<and> (snd r + base) * row \<le> length (kt_data t) \<and> off (fst r) = (fst r + base) * row"
  shows "writes (each (\<lambda>r. iw_write_tensor io t (off (fst r)) ((snd r - fst r) * row)) rs)
    (concat (map (\<lambda>i. tensor_row row t (i + base)) (concat (map (\<lambda>r. [fst r..<snd r]) rs))))"
proof -
  have "writes (iw_write_tensor io t (off (fst r)) ((snd r - fst r) * row)) (concat (map (\<lambda>i. tensor_row row t (i + base)) [fst r..<snd r]))"
    if "r \<in> set rs" for r
  proof -
    have r: "fst r < snd r" "(snd r + base) * row \<le> length (kt_data t)" "off (fst r) = (fst r + base) * row" using assms that by auto
    have "(fst r + base) * row + (snd r - fst r) * row = (snd r + base) * row" using r(1) by (simp flip: add_mult_distrib)
    then show ?thesis using writes_tensor[of "(fst r + base) * row" "(snd r - fst r) * row" t] r
      by (simp add: tensor_rows_of_range)
  qed
  from writes_each[of rs, OF this] show ?thesis by (simp add: concat_map_concat)
qed

lemma writes_k_layer:
  assumes "concat (map (\<lambda>r. [fst r..<snd r]) rs) = is" "\<forall>r \<in> set rs. fst r < snd r \<and> snd r \<le> width"
    "layer_ok v_trans n_stream width l" "strm < n_stream"
  shows "writes (write_k_layer io strm rs l) (enc_k strm is l)"
proof -
  let ?k = "kl_k_stream l ! strm"
  have "writes (each (\<lambda>r. iw_write_tensor io ?k (fst r * k_size l ?k) ((snd r - fst r) * k_size l ?k)) rs)
      (concat (map (\<lambda>i. tensor_row (k_size l ?k) ?k (i + 0)) is))"
    unfolding assms(1)[symmetric] using assms(2) layer_okD(3)[OF assms(3,4)] by (intro writes_rows) auto
  from writes_then[OF writes_write writes_then[OF writes_write this]] show ?thesis
    by (simp add: writes_def write_k_layer_def enc_k_def Let_def)
qed

lemma writes_v_layer:
  assumes "concat (map (\<lambda>r. [fst r..<snd r]) rs) = is" "\<forall>r \<in> set rs. fst r < snd r \<and> snd r \<le> width"
    "layer_ok False n_stream width l" "strm < n_stream"
  shows "writes (write_v_layer io strm rs l) (enc_v False width strm is l)"
proof (cases "kl_v_stream l ! strm")
  case None
  then show ?thesis by (simp add: writes_def write_v_layer_def enc_v_def put_Nil)
next
  case (Some v)
  have "writes (each (\<lambda>r. iw_write_tensor io v (fst r * v_size l v) ((snd r - fst r) * v_size l v)) rs)
      (concat (map (\<lambda>i. tensor_row (v_size l v) v (i + 0)) is))"
    unfolding assms(1)[symmetric] using assms(2) layer_okD(8)[OF assms(3,4) Some] by (intro writes_rows) auto
  from writes_then[OF writes_write writes_then[OF writes_write this]] show ?thesis
    using Some by (simp add: writes_def write_v_layer_def enc_v_def Let_def)
qed

lemma writes_vt_layer:
  assumes "concat (map (\<lambda>r. [fst r..<snd r]) rs) = is" "\<forall>r \<in> set rs. fst r < snd r \<and> snd r \<le> width"
    "layer_ok True n_stream width l" "strm < n_stream"
  shows "writes (write_vt_layer io width strm rs l) (enc_v True width strm is l)"
proof (cases "kl_v_stream l ! strm")
  case None
  then show ?thesis by (simp add: writes_def write_vt_layer_def enc_v_def put_Nil)
next
  case (Some v)
  note len = layer_okD(9)[OF assms(3,4) Some TrueI]
  have rows: "writes (each (\<lambda>r. iw_write_tensor io v (u32 (int ((fst r + j * width) * v_el v))) ((snd r - fst r) * v_el v)) rs)
      (concat (map (\<lambda>i. tensor_row (v_el v) v (i + j * width)) is))" if j: "j < kl_n_embd_v l" for j
    unfolding assms(1)[symmetric]
  proof (intro writes_rows ballI conjI)
    fix r assume r: "r \<in> set rs"
    then have b: "(snd r + j * width) * v_el v \<le> kl_n_embd_v l * width * v_el v" "fst r < snd r"
      using assms(2) embd_index[OF _ j] by (auto intro!: mult_le_mono1)
    then show "fst r < snd r" "(snd r + j * width) * v_el v \<le> length (kt_data v)" using len by simp_all
    have "(fst r + j * width) * v_el v < 2 ^ 32 \<or> v_el v = 0"
      using b len by (metis add_less_mono1 less_le_trans mult_less_mono1 not_gr_zero order_trans)
    then show "u32 (int ((fst r + j * width) * v_el v)) = (fst r + j * width) * v_el v"
      by (auto simp del: of_nat_mult of_nat_add)
  qed
  have "writes (each (\<lambda>j. each (\<lambda>r. iw_write_tensor io v (u32 (int ((fst r + j * width) * v_el v))) ((snd r - fst r) * v_el v)) rs) [0..<kl_n_embd_v l])
      (concat (map (\<lambda>j. concat (map (\<lambda>i. tensor_row (v_el v) v (i + j * width)) is)) [0..<kl_n_embd_v l]))"
    by (rule writes_each) (use rows in simp)
  from writes_then[OF writes_write writes_then[OF writes_write writes_then[OF writes_write this]]] show ?thesis
    using Some by (simp add: writes_def write_vt_layer_def enc_v_def Let_def)
qed

lemma writes_data:
  assumes "concat (map (\<lambda>r. [fst r..<snd r]) rs) = is" "\<forall>r \<in> set rs. fst r < snd r \<and> snd r \<le> cells_size (kv_v_cells (km_kv m) ! s)"
    "mem_ok m" "s < kv_n_stream (km_kv m)"
  shows "writes (state_write_data io m s rs) (enc_data m s is)"
proof -
  have w: "cells_size (kv_v_cells (km_kv m) ! s) = kv_width (km_kv m)" using assms(3,4) by (simp add: mem_ok_def kv_invD(8))
  have lay: "layer_ok (km_v_trans m) (kv_n_stream (km_kv m)) (kv_width (km_kv m)) l" if "l \<in> set (km_layers m)" for l
    using assms(3) that by (simp add: mem_ok_def)
  have k: "writes (each (write_k_layer io s rs) (km_layers m)) (concat (map (enc_k s is) (km_layers m)))"
    by (rule writes_each) (use writes_k_layer[OF assms(1) assms(2)[unfolded w] lay assms(4)] in auto)
  have v: "writes (if \<not> km_v_trans m then each (write_v_layer io s rs) (km_layers m)
      else each (write_vt_layer io (kv_width (km_kv m)) s rs) (km_layers m))
    (concat (map (enc_v (km_v_trans m) (kv_width (km_kv m)) s is) (km_layers m)))"
  proof (cases "km_v_trans m")
    case True
    then show ?thesis using writes_vt_layer[OF assms(1) assms(2)[unfolded w] _ assms(4)] lay by (auto intro: writes_each)
  next
    case False
    then show ?thesis using writes_v_layer[OF assms(1) assms(2)[unfolded w] _ assms(4)] lay by (auto intro: writes_each)
  qed
  from writes_then[OF writes_write writes_then[OF writes_write writes_then[OF k v]],
      of "le_bytes 4 (if km_v_trans m then 1 else 0)" "le_bytes 4 (length (km_layers m))"]
  show ?thesis unfolding writes_def state_write_data_def enc_data_def w Let_def by (cases "km_v_trans m") simp_all
qed

lemma writes_stream:
  assumes "mem_ok m" "s < kv_n_stream (km_kv m)" "seq_id = - 1 \<or> (0 \<le> seq_id \<and> seq_id < int LLAMA_MAX_SEQ)"
  shows "writes (write_stream io m seq_id s) (enc_stream m seq_id s)"
proof -
  let ?c = "kv_v_cells (km_kv m) ! s"
  obtain n rs where cr: "cell_ranges ?c seq_id = (n, rs)" by force
  note r = cell_ranges_eq[OF cr]
  have tail: "writes (\<lambda>w. if n = 0 then Inr w else and_then (state_write_meta io m s rs seq_id w) (state_write_data io m s rs))
      (if saved_cells ?c seq_id = [] then [] else concat (map (enc_cell (km_kv m) ?c seq_id) (saved_cells ?c seq_id)) @ enc_data m s (saved_cells ?c seq_id))"
    using writes_Nil writes_then[OF writes_meta[OF r(2), of m s seq_id] writes_data[OF r(2,3) assms(1,2)]] r(1) by auto
  have "write_stream io m seq_id s = (\<lambda>w. and_then (iw_write io (le_bytes 4 n) w) (\<lambda>w. if n = 0 then Inr w
      else and_then (state_write_meta io m s rs seq_id w) (state_write_data io m s rs)))"
    using assms(3) r(1,2) cr by (elim disjE) (simp_all add: write_stream_def Let_def range_sum fun_eq_iff cong: if_cong)
  with writes_then[OF writes_write tail, of "le_bytes 4 n"] show ?thesis using r(1) by (simp add: enc_stream_def Let_def)
qed

lemma writes_state:
  assumes "mem_ok m" "seq_id = - 1 \<or> (0 \<le> seq_id \<and> seq_id < int LLAMA_MAX_SEQ)"
  shows "writes (state_write io m seq_id) (enc_state m seq_id)"
proof -
  have "writes (each (write_stream io m seq_id) [0..<kv_n_stream (km_kv m)]) (concat (map (enc_stream m seq_id) [0..<kv_n_stream (km_kv m)]))"
    by (rule writes_each) (use writes_stream[OF assms(1) _ assms(2)] in auto)
  from writes_then[OF writes_write this] show ?thesis by (simp add: writes_def state_write_def enc_state_def)
qed

end

end
