(* ===== verification/Kv_Restore.thy ===== *)
theory Kv_Restore
  imports Kv_State
begin

text \<open>
  Reading a saved state back. What \<open>state_write\<close> wrote, \<open>state_read\<close> accepts in every cache of the same shape, also of
  another size as long as the cells fit: a whole cache gets its cells at the beginning of the stream, a sequence gets cells that were
  free, and both get the rows of the tensors that belonged to the cells. What is left of the cache where a restore is refused is
  shown as well.
\<close>

section \<open>Loops of readers\<close>

lemma read_all_steps:
  assumes "\<And>i m rest. i < n \<Longrightarrow> I i m \<Longrightarrow> \<exists>m'. f i (m, enc i @ rest) = (Inr True, m', rest) \<and> I (Suc i) m'"
    and "k \<le> n" "I k m"
  shows "\<exists>m'. read_all f [k..<n] (m, concat (map enc [k..<n]) @ rest) = (Inr True, m', rest) \<and> I n m'"
  using assms(2,3)
proof (induction "n - k" arbitrary: k m)
  case 0
  then show ?case by simp
next
  case (Suc d)
  then have k: "k < n" "[k..<n] = k # [Suc k..<n]" by (simp_all add: upt_conv_Cons)
  obtain m1 where m1: "f k (m, enc k @ concat (map enc [Suc k..<n]) @ rest) = (Inr True, m1, concat (map enc [Suc k..<n]) @ rest)" "I (Suc k) m1"
    using assms(1)[OF k(1) Suc.prems(2)] by blast
  show ?case using Suc.hyps(1)[of "Suc k" m1] Suc.hyps(2) k m1 by simp
qed

lemma read_all_upt:
  assumes "\<And>i m rest. i < n \<Longrightarrow> I i m \<Longrightarrow> \<exists>m'. f i (m, enc i @ rest) = (Inr True, m', rest) \<and> I (Suc i) m'" "I 0 m"
  shows "\<exists>m'. read_all f [0..<n] (m, concat (map enc [0..<n]) @ rest) = (Inr True, m', rest) \<and> I n m'"
  using read_all_steps[of n I f enc 0 m rest] assms by blast

section \<open>The cells of a whole stream\<close>

lemma update_cells_simps [simp]:
  "kv_n_seq_max (km_kv (update_cells strm f m)) = kv_n_seq_max (km_kv m)"
  "length (kv_v_cells (km_kv (update_cells strm f m))) = length (kv_v_cells (km_kv m))"
  "strm < length (kv_v_cells (km_kv m)) \<Longrightarrow> kv_v_cells (km_kv (update_cells strm f m)) ! strm = f (kv_v_cells (km_kv m) ! strm)"
  "strm < length (kv_v_cells (km_kv m)) \<Longrightarrow> update_cells strm g (update_cells strm f m) = update_cells strm (\<lambda>c. g (f c)) m"
  by (simp_all add: update_cells_def)

lemma read_small_int: "s < 2 ^ 31 \<Longrightarrow> read_int eof 4 (m, le_bytes 4 s @ rest) = (Inr (int s), m, rest)"
  using read_int_enc[of 4 "int s" eof m rest] by (simp add: unsigned_at_def nat_mod_as_int del: le_bytes.simps)

lemma read_cell_seqs_enc:
  assumes "strm < length (kv_v_cells (km_kv m))" "\<forall>s \<in> set ids. s < kv_n_seq_max (km_kv m)" "kv_n_seq_max (km_kv m) \<le> LLAMA_MAX_SEQ"
  shows "read_cell_seqs eof strm i (length ids) (m, concat (map (le_bytes 4) ids) @ rest) =
    (Inr True, update_cells strm (fold (cells_seq_add i) ids) m, rest)"
  using assms
proof (induction ids arbitrary: m)
  case Nil
  then show ?case by (simp add: update_cells_def)
next
  case (Cons s ids)
  have "s < 2 ^ 31" using Cons.prems(2,3) by (simp add: LLAMA_MAX_SEQ_def)
  then show ?case using Cons.IH[of "update_cells strm (cells_seq_add i s) m"] Cons.prems by (simp add: read_small_int del: le_bytes.simps)
qed

definition enc_entry :: "int \<times> nat list \<Rightarrow> bytes" where
  "enc_entry e = le_bytes 4 (unsigned_at 32 (fst e)) @ le_bytes 4 (length (snd e)) @ concat (map (le_bytes 4) (snd e))"

definition entry_ok :: "nat \<Rightarrow> int \<times> nat list \<Rightarrow> bool" where
  "entry_ok n e \<longleftrightarrow> 0 \<le> fst e \<and> fst e < 2 ^ 31 \<and> distinct (snd e) \<and> set (snd e) \<subseteq> {..<n}"

definition placed :: "nat \<Rightarrow> int \<times> nat list \<Rightarrow> kv_cells \<Rightarrow> kv_cells" where
  "placed i e c = fold (cells_seq_add i) (snd e) (cells_pos_set i (fst e) c)"

lemma entry_length:
  assumes "entry_ok n e" "n \<le> LLAMA_MAX_SEQ"
  shows "length (snd e) < 256 ^ 4"
proof -
  have "length (snd e) = card (set (snd e))" using assms(1) by (simp add: entry_ok_def distinct_card)
  also have "\<dots> \<le> n" using assms(1) card_mono[of "{..<n}" "set (snd e)"] by (simp add: entry_ok_def)
  finally show ?thesis using assms(2) by (simp add: LLAMA_MAX_SEQ_def)
qed

lemma read_cell_enc:
  assumes "strm < length (kv_v_cells (km_kv m))" "entry_ok (kv_n_seq_max (km_kv m)) e" "kv_n_seq_max (km_kv m) \<le> LLAMA_MAX_SEQ"
  shows "read_cell eof strm i (m, enc_entry e @ rest) = (Inr True, update_cells strm (placed i e) m, rest)"
proof -
  have seqs: "\<forall>s \<in> set (snd e). s < kv_n_seq_max (km_kv m)" using assms(2) by (auto simp: entry_ok_def)
  have pos: "read_int eof 4 (m, le_bytes 4 (unsigned_at 32 (fst e)) @ r) = (Inr (fst e), m, r)" for r
    using read_int_enc[of 4 "fst e" eof m r] assms(2) by (simp add: entry_ok_def del: le_bytes.simps)
  show ?thesis
    using read_cell_seqs_enc[of strm "update_cells strm (cells_pos_set i (fst e)) m" "snd e" eof i rest] assms(1,3) seqs
    by (simp add: read_cell_def enc_entry_def pos read_uint_enc[OF entry_length[OF assms(2,3)]] placed_def[abs_def] del: le_bytes.simps)
qed

lemma placed_correct:
  assumes "cells_inv c" "i < cells_size c" "cell_at c i = None" "entry_ok n e" "n \<le> LLAMA_MAX_SEQ"
  shows "cells_inv (placed i e c)" "cells_size (placed i e c) = cells_size c"
    "cell_at (placed i e c) j = (if j = i then Some (fst e, set (snd e)) else cell_at c j)"
proof -
  have e: "kc_pos c ! i = - 1" using assms(2,3) by (auto simp: cell_at_def split: if_splits)
  have p: "0 \<le> fst e" "distinct (snd e)" "set (snd e) \<subseteq> {..<LLAMA_MAX_SEQ}" using assms(4,5) by (auto simp: entry_ok_def)
  have at: "cell_at (cells_pos_set i (fst e) c) j = (if j = i then Some (fst e, {}) else cell_at c j)" for j
    by (rule cell_at_pos_set[OF assms(1,2) e p(1)])
  note F = fold_seq_add_correct[OF cells_pos_set_inv[OF assms(1,2) e p(1)] _ p(2) _ p(3), of i "fst e" "{}"]
  show "cells_inv (placed i e c)" "cells_size (placed i e c) = cells_size c"
    "cell_at (placed i e c) j = (if j = i then Some (fst e, set (snd e)) else cell_at c j)"
    using F at by (auto simp: placed_def)
qed

text \<open>The entries of a stream go to its first cells.\<close>

lemma read_cells_enc:
  assumes strm: "strm < length (kv_v_cells (km_kv m))" and n: "kv_n_seq_max (km_kv m) \<le> LLAMA_MAX_SEQ"
    and es: "\<forall>e \<in> set es. entry_ok (kv_n_seq_max (km_kv m)) e" "length es \<le> cells_size (kv_v_cells (km_kv m) ! strm)"
    and inv: "cells_inv (kv_v_cells (km_kv m) ! strm)" "\<And>j. cell_at (kv_v_cells (km_kv m) ! strm) j = None"
  obtains c where "read_all (read_cell eof strm) [0..<length es] (m, concat (map enc_entry es) @ rest) = (Inr True, update_cells strm (\<lambda>_. c) m, rest)"
    "cells_inv c" "cells_size c = cells_size (kv_v_cells (km_kv m) ! strm)"
    "\<And>j. cell_at c j = (if j < length es then Some (fst (es ! j), set (snd (es ! j))) else None)"
proof -
  define I where "I k m' \<longleftrightarrow> (\<exists>c. m' = update_cells strm (\<lambda>_. c) m \<and> cells_inv c \<and> cells_size c = cells_size (kv_v_cells (km_kv m) ! strm) \<and>
    (\<forall>j. cell_at c j = (if j < k then Some (fst (es ! j), set (snd (es ! j))) else None)))" for k m'
  have step: "\<exists>m2. read_cell eof strm i (m1, enc_entry (es ! i) @ r) = (Inr True, m2, r) \<and> I (Suc i) m2" if i: "i < length es" and I: "I i m1" for i m1 r
  proof -
    obtain c where c: "m1 = update_cells strm (\<lambda>_. c) m" "cells_inv c" "cells_size c = cells_size (kv_v_cells (km_kv m) ! strm)"
      "\<forall>j. cell_at c j = (if j < i then Some (fst (es ! j), set (snd (es ! j))) else None)" using I by (auto simp: I_def)
    have e: "entry_ok (kv_n_seq_max (km_kv m)) (es ! i)" using es(1) i by simp
    have "read_cell eof strm i (m1, enc_entry (es ! i) @ r) = (Inr True, update_cells strm (\<lambda>_. placed i (es ! i) c) m, r)"
      using read_cell_enc[of strm m1 "es ! i" eof i r] strm e n c(1) by simp
    moreover have "I (Suc i) (update_cells strm (\<lambda>_. placed i (es ! i) c) m)"
      unfolding I_def using placed_correct[OF c(2) _ _ e n] c(3,4) i es(2)
      by (intro exI[of _ "placed i (es ! i) c"]) (auto simp: less_Suc_eq)
    ultimately show ?thesis by blast
  qed
  have "update_cells strm (\<lambda>_. kv_v_cells (km_kv m) ! strm) m = m" by (simp add: update_cells_def)
  then have "I 0 m" unfolding I_def using inv by (intro exI[of _ "kv_v_cells (km_kv m) ! strm"]) simp
  from read_all_upt[of "length es" I "read_cell eof strm" "\<lambda>i. enc_entry (es ! i)", OF step this, of rest]
  obtain m' where m': "read_all (read_cell eof strm) [0..<length es] (m, concat (map (\<lambda>i. enc_entry (es ! i)) [0..<length es]) @ rest) = (Inr True, m', rest)"
    "I (length es) m'" by blast
  moreover have "map (\<lambda>i. enc_entry (es ! i)) [0..<length es] = map enc_entry es" by (rule nth_equalityI) auto
  ultimately show thesis using that unfolding I_def by auto
qed

section \<open>Rows of a tensor\<close>

lemma tensor_set_rows:
  assumes "length bs = k * row" "(a + k) * row \<le> length (kt_data t)"
  obtains t' where "tensor_set t bs (a * row) = Inr t'" "kt_type t' = kt_type t" "length (kt_data t') = length (kt_data t)"
    "\<And>r. tensor_row row t' r = (if a \<le> r \<and> r < a + k then take row (drop ((r - a) * row) bs) else tensor_row row t r)"
proof (cases "bs = []")
  case True
  then have "row = 0" if "a \<le> r" "r < a + k" for r using assms(1) that by auto
  then have "tensor_row row t r = (if a \<le> r \<and> r < a + k then take row (drop ((r - a) * row) bs) else tensor_row row t r)" for r
    by (metis tensor_row_def take0)
  then show thesis using that[of t] True by (simp add: tensor_set_def)
next
  case False
  let ?d = "kt_data t"
  let ?d' = "take (a * row) ?d @ bs @ drop (a * row + k * row) ?d"
  have len: "a * row + k * row \<le> length ?d" using assms(2) by (simp add: add_mult_distrib)
  have set: "tensor_set t bs (a * row) = Inr (t\<lparr>kt_data := ?d'\<rparr>)" using False len assms(1) by (simp add: tensor_set_def)
  have "take row (drop (r * row) ?d') = (if a \<le> r \<and> r < a + k then take row (drop ((r - a) * row) bs) else take row (drop (r * row) ?d))" for r
  proof -
    consider "r < a" | (mid) q where "r = a + q" "q < k" | (post) q where "r = a + k + q"
      by (metis add_less_cancel_left le_add_diff_inverse not_less)
    then show ?thesis
    proof cases
      case 1
      then have "Suc r * row \<le> a * row" by (intro mult_le_mono1) simp
      then show ?thesis using 1 len by (simp add: take_drop min_def)
    next
      case mid
      then have "Suc q * row \<le> k * row" by (intro mult_le_mono1) simp
      then show ?thesis using mid len assms(1) by (simp add: add_mult_distrib)
    next
      case post
      then show ?thesis using len assms(1) by (simp add: add_mult_distrib add.commute)
    qed
  qed
  then show thesis using that[OF set] len assms(1) by (simp add: tensor_row_def)
qed

text \<open>The rows of the cells \<open>idxs\<close>, \<open>base\<close> rows into the tensor, become \<open>rs\<close>; the others stay.\<close>

definition rows_put :: "nat \<Rightarrow> nat \<Rightarrow> nat list \<Rightarrow> bytes list \<Rightarrow> kv_tensor \<Rightarrow> kv_tensor \<Rightarrow> bool" where
  "rows_put row base idxs rs t t' \<longleftrightarrow> kt_type t' = kt_type t \<and> length (kt_data t') = length (kt_data t) \<and>
    (\<forall>j < length idxs. tensor_row row t' (idxs ! j + base) = rs ! j) \<and>
    (\<forall>r. r \<notin> (\<lambda>x. x + base) ` set idxs \<longrightarrow> tensor_row row t' r = tensor_row row t r)"

lemma row_of_concat:
  assumes "\<forall>r \<in> set rs. length r = row" "j < length rs"
  shows "take row (drop (j * row) (concat rs)) = rs ! j"
  using assms
proof (induction rs arbitrary: j)
  case (Cons r rs)
  then show ?case by (cases j) (auto simp: add.commute)
qed simp

lemma length_concat_rows: "\<forall>r \<in> set rs. length r = row \<Longrightarrow> length (concat rs) = length rs * row"
  by (induction rs) auto

lemma put_rows_correct:
  assumes si: "si_idxs si = [idxs]" "idxs \<noteq> []" "distinct idxs" and rs: "length rs = length idxs" "\<forall>r \<in> set rs. length r = row"
    and off: "\<forall>x \<in> set idxs. offset x = (x + base) * row \<and> (x + base + 1) * row \<le> length (kt_data t)"
  shows "\<exists>t'. put_rows row offset si (length idxs) (concat rs) t = Inr t' \<and> rows_put row base idxs rs t t'"
proof (cases "si_is_contiguous si")
  case True
  let ?h = "idxs ! 0" and ?n = "length idxs"
  have la: "list_all (\<lambda>i. idxs ! i = ?h + i) [0..<?n]" using True si(1,2) by (simp add: si_is_contiguous_def)
  have ix: "idxs ! i = ?h + i" if "i < ?n" for i
  proof -
    have "i \<in> set [0..<?n]" using that by simp
    then show ?thesis using la unfolding list_all_iff by blast
  qed
  have lst: "last idxs + 1 = ?h + ?n" using ix[of "?n - 1"] si(2) by (cases "?n") (auto simp: last_conv_nth)
  have h: "?h \<in> set idxs" using si(2) by simp
  have "?h + base + ?n = last idxs + base + 1" using lst by simp
  then have fit: "(?h + base + ?n) * row \<le> length (kt_data t)" using off last_in_set[OF si(2)] by metis
  obtain t' where t': "tensor_set t (concat rs) ((?h + base) * row) = Inr t'" "kt_type t' = kt_type t" "length (kt_data t') = length (kt_data t)"
    "\<And>r. tensor_row row t' r = (if ?h + base \<le> r \<and> r < ?h + base + ?n then take row (drop ((r - (?h + base)) * row) (concat rs)) else tensor_row row t r)"
    by (rule tensor_set_rows[of "concat rs" ?n row "?h + base" t]) (use length_concat_rows[OF rs(2)] rs(1) fit in auto)
  have set: "r \<in> (\<lambda>x. x + base) ` set idxs \<longleftrightarrow> ?h + base \<le> r \<and> r < ?h + base + ?n" for r
  proof
    assume "r \<in> (\<lambda>x. x + base) ` set idxs"
    then obtain i where "i < ?n" "r = idxs ! i + base" by (auto simp: in_set_conv_nth)
    then show "?h + base \<le> r \<and> r < ?h + base + ?n" using ix[of i] by simp
  next
    assume r: "?h + base \<le> r \<and> r < ?h + base + ?n"
    then have lt: "r - (?h + base) < ?n" by auto
    have "idxs ! (r - (?h + base)) + base = r" using ix[OF lt] r by simp
    then show "r \<in> (\<lambda>x. x + base) ` set idxs" using nth_mem[OF lt] by (metis image_eqI)
  qed
  have "tensor_row row t' (idxs ! j + base) = rs ! j" if "j < ?n" for j
    using t'(4)[of "idxs ! j + base"] ix[OF that] that row_of_concat[OF rs(2), of j] rs(1) by simp
  then have "rows_put row base idxs rs t t'" using t' set by (simp add: rows_put_def)
  moreover have "put_rows row offset si ?n (concat rs) t = Inr t'"
    using True si t'(1) off h by (simp add: put_rows_def si_head_def)
  ultimately show ?thesis by blast
next
  case False
  have "\<exists>t'. each (\<lambda>i t. tensor_set t (take row (drop (i * row) (concat rs))) (offset (idxs ! i))) [0..<k] t = Inr t' \<and>
      rows_put row base (take k idxs) (take k rs) t t'" if "k \<le> length idxs" for k
    using that
  proof (induction k)
    case 0
    then show ?case by (simp add: rows_put_def)
  next
    case (Suc k)
    then have k: "k < length idxs" "k < length rs" "idxs ! k \<in> set idxs" "length (rs ! k) = row" using rs by auto
    obtain t1 where t1: "each (\<lambda>i t. tensor_set t (take row (drop (i * row) (concat rs))) (offset (idxs ! i))) [0..<k] t = Inr t1"
      "rows_put row base (take k idxs) (take k rs) t t1" using Suc by auto
    have fit: "(idxs ! k + base + 1) * row \<le> length (kt_data t1)" using off k(3) t1(2) by (auto simp: rows_put_def)
    obtain t2 where t2: "tensor_set t1 (rs ! k) ((idxs ! k + base) * row) = Inr t2" "kt_type t2 = kt_type t1" "length (kt_data t2) = length (kt_data t1)"
      "\<And>r. tensor_row row t2 r = (if r = idxs ! k + base then rs ! k else tensor_row row t1 r)"
    proof (rule tensor_set_rows[of "rs ! k" 1 row "idxs ! k + base" t1])
      fix t2 assume a: "tensor_set t1 (rs ! k) ((idxs ! k + base) * row) = Inr t2" "kt_type t2 = kt_type t1" "length (kt_data t2) = length (kt_data t1)"
        "\<And>r. tensor_row row t2 r = (if idxs ! k + base \<le> r \<and> r < idxs ! k + base + 1 then take row (drop ((r - (idxs ! k + base)) * row) (rs ! k)) else tensor_row row t1 r)"
      have "tensor_row row t2 r = (if r = idxs ! k + base then rs ! k else tensor_row row t1 r)" for r
        using a(4)[of r] k(4) by (cases "r = idxs ! k + base") (auto simp: not_less_eq_eq)
      then show thesis using that a(1-3) by blast
    qed (use k(4) fit in auto)
    have fresh: "idxs ! k \<notin> set (take k idxs)" using si(3) k(1) by (simp add: in_set_conv_nth nth_eq_iff_index_eq)
    have ne: "idxs ! j + base = idxs ! k + base \<longleftrightarrow> j = k" if "j < Suc k" for j using that si(3) k(1) by (simp add: nth_eq_iff_index_eq)
    have old: "tensor_row row t1 (idxs ! j + base) = rs ! j" if "j < k" for j using t1(2) that k by (auto simp: rows_put_def dest!: spec[of _ j])
    have rows: "tensor_row row t2 (idxs ! j + base) = rs ! j" if "j < Suc k" for j
      using that old[of j] ne[OF that] t2(4)[of "idxs ! j + base"] by (cases "j = k") auto
    have "tensor_row row t2 r = tensor_row row t r" if "r \<notin> (\<lambda>x. x + base) ` set (take (Suc k) idxs)" for r
      using that t1(2) t2(4)[of r] k(1) by (auto simp: rows_put_def take_Suc_conv_app_nth)
    then have "rows_put row base (take (Suc k) idxs) (take (Suc k) rs) t t2"
      unfolding rows_put_def using t1(2) t2(2,3) rows k(1) Suc.prems by (simp add: rows_put_def)
    then show ?case using t1(1) t2(1) off k row_of_concat[OF rs(2), of k] by (simp add: each_append)
  qed
  from this[OF le_refl] show ?thesis using False rs(1) by (simp add: put_rows_def si(1))
qed

section \<open>The tensors of a layer\<close>

text \<open>Caches of the same shape: the same streams and layers with tensors of the same types. The number of cells may
  differ.\<close>

definition layer_like :: "nat \<Rightarrow> kv_layer \<Rightarrow> kv_layer \<Rightarrow> bool" where
  "layer_like n_stream l l' \<longleftrightarrow> kl_n_embd_k l' = kl_n_embd_k l \<and> kl_n_embd_v l' = kl_n_embd_v l \<and>
    (\<forall>s < n_stream. kt_type (kl_k_stream l' ! s) = kt_type (kl_k_stream l ! s) \<and>
      map_option kt_type (kl_v_stream l' ! s) = map_option kt_type (kl_v_stream l ! s))"

definition mem_like :: "kv_mem \<Rightarrow> kv_mem \<Rightarrow> bool" where
  "mem_like m m' \<longleftrightarrow> kv_n_stream (km_kv m') = kv_n_stream (km_kv m) \<and> km_v_trans m' = km_v_trans m \<and>
    length (km_layers m') = length (km_layers m) \<and>
    (\<forall>il < length (km_layers m). layer_like (kv_n_stream (km_kv m)) (km_layers m ! il) (km_layers m' ! il))"

text \<open>A slot that the rows of the cells \<open>is\<close> are read into.\<close>

definition slot_for :: "nat \<Rightarrow> nat \<Rightarrow> nat list \<Rightarrow> slot_info \<Rightarrow> nat list \<Rightarrow> bool" where
  "slot_for width width' is si idxs \<longleftrightarrow> si_idxs si = [idxs] \<and> idxs \<noteq> [] \<and> distinct idxs \<and> length is = length idxs \<and>
    (\<forall>i \<in> set is. i < width) \<and> (\<forall>i \<in> set idxs. i < width')"

lemma ggml_row_size_less: "ggml_row_size type ne < 256 ^ 8"
proof -
  have "ggml_row_size type ne \<le> u64 (int (ggml_type_size type) * int ne)" by (simp add: ggml_row_size_def)
  also have "\<dots> < 256 ^ 8" by (simp add: u64_def nat_less_iff)
  finally show ?thesis .
qed

lemma length_tensor_row: "(i + 1) * row \<le> length (kt_data t) \<Longrightarrow> length (tensor_row row t i) = row"
  by (simp add: tensor_row_def)

lemma row_fits: "i < n \<Longrightarrow> (i + 1) * row \<le> n * (row :: nat)"
  by (rule mult_le_mono1) simp

lemma read_type_enc: "- (2 ^ 31) \<le> x \<Longrightarrow> x < 2 ^ 31 \<Longrightarrow> read_int eof 4 (m, le_bytes 4 (unsigned_at 32 x) @ rest) = (Inr x, m, rest)"
  using read_int_enc[of 4 x eof m rest] by (simp del: le_bytes.simps)

lemma read_k_layer_enc:
  assumes src: "layer_ok vt n_stream width l" and dst: "layer_ok vt n_stream width' (km_layers m ! il)"
    and strm: "strm < n_stream" and like: "layer_like n_stream l (km_layers m ! il)" and si: "slot_for width width' is si idxs"
  defines "k \<equiv> kl_k_stream l ! strm"
  obtains k' where "rows_put (k_size l k) 0 idxs (map (tensor_row (k_size l k) k) is) (kl_k_stream (km_layers m ! il) ! strm) k'"
    "read_k_layer eof strm (length idxs) si il (m, enc_k strm is l @ rest) =
      (Inr True, m\<lparr>km_layers := (km_layers m)[il := (km_layers m ! il)\<lparr>kl_k_stream := (kl_k_stream (km_layers m ! il))[strm := k']\<rparr>]\<rparr>, rest)"
proof -
  let ?l = "km_layers m ! il" and ?row = "k_size l k" and ?rs = "map (tensor_row (k_size l k) k) is"
  have same: "kt_type (kl_k_stream ?l ! strm) = kt_type k" "kl_n_embd_k ?l = kl_n_embd_k l" using like strm by (auto simp: layer_like_def k_def)
  have S: "si_idxs si = [idxs]" "idxs \<noteq> []" "distinct idxs" "length is = length idxs" "\<forall>i \<in> set is. i < width" "\<forall>i \<in> set idxs. i < width'"
    using si by (auto simp: slot_for_def)
  have rs: "length ?rs = length idxs" "\<forall>r \<in> set ?rs. length r = ?row"
    using S layer_okD(3)[OF src strm] row_fits[of _ width ?row] by (auto simp: length_tensor_row k_def)
  have "\<forall>x \<in> set idxs. x * ?row = (x + 0) * ?row \<and> (x + 0 + 1) * ?row \<le> length (kt_data (kl_k_stream ?l ! strm))"
    using S(6) layer_okD(3)[OF dst strm] row_fits[of _ width' ?row] same by simp
  from put_rows_correct[OF S(1-3) rs this] obtain k' where
    k': "put_rows ?row (\<lambda>idx. idx * ?row) si (length idxs) (concat ?rs) (kl_k_stream ?l ! strm) = Inr k'"
      "rows_put ?row 0 idxs ?rs (kl_k_stream ?l ! strm) k'" by blast
  have len: "length (concat ?rs) = length idxs * ?row" using length_concat_rows[OF rs(2)] rs(1) by simp
  have enc: "enc_k strm is l @ rest = le_bytes 4 (unsigned_at 32 (kt_type k)) @ le_bytes 8 ?row @ concat ?rs @ rest"
    by (simp add: enc_k_def Let_def k_def)
  show thesis
  proof (rule that[OF k'(2)])
    show "read_k_layer eof strm (length idxs) si il (m, enc_k strm is l @ rest) =
      (Inr True, m\<lparr>km_layers := (km_layers m)[il := ?l\<lparr>kl_k_stream := (kl_k_stream ?l)[strm := k']\<rparr>]\<rparr>, rest)"
      unfolding enc using k'(1) S(2) layer_okD(1,2)[OF src strm] same
      by (simp add: read_k_layer_def Let_def read_type_enc read_uint_enc[OF ggml_row_size_less] io_read_enc[OF len[unfolded k_def]] update_k_def k_def
        del: le_bytes.simps)
  qed
qed

abbreviation set_v :: "nat \<Rightarrow> nat \<Rightarrow> kv_tensor option \<Rightarrow> kv_mem \<Rightarrow> kv_mem" where
  "set_v il strm v m \<equiv> m\<lparr>km_layers := (km_layers m)[il := (km_layers m ! il)\<lparr>kl_v_stream := (kl_v_stream (km_layers m ! il))[strm := v]\<rparr>]\<rparr>"

lemma read_v_layer_enc:
  assumes src: "layer_ok False n_stream width l" and dst: "layer_ok False n_stream width' (km_layers m ! il)"
    and strm: "strm < n_stream" and like: "layer_like n_stream l (km_layers m ! il)" and si: "slot_for width width' is si idxs"
    and v: "kl_v_stream l ! strm = Some v" "kl_v_stream (km_layers m ! il) ! strm = Some w"
  obtains v' where "rows_put (v_size l v) 0 idxs (map (tensor_row (v_size l v) v) is) w v'"
    "read_v_layer eof strm (length idxs) si il (m, enc_v False width strm is l @ rest) = (Inr True, set_v il strm (Some v') m, rest)"
proof -
  let ?row = "v_size l v" and ?rs = "map (tensor_row (v_size l v) v) is"
  have same: "kt_type w = kt_type v" "kl_n_embd_v (km_layers m ! il) = kl_n_embd_v l" using like strm v by (auto simp: layer_like_def)
  have S: "si_idxs si = [idxs]" "idxs \<noteq> []" "distinct idxs" "length is = length idxs" "\<forall>i \<in> set is. i < width" "\<forall>i \<in> set idxs. i < width'"
    using si by (auto simp: slot_for_def)
  have rs: "length ?rs = length idxs" "\<forall>r \<in> set ?rs. length r = ?row"
    using S layer_okD(8)[OF src strm v(1)] row_fits[of _ width ?row] by (auto simp: length_tensor_row)
  have "\<forall>x \<in> set idxs. x * ?row = (x + 0) * ?row \<and> (x + 0 + 1) * ?row \<le> length (kt_data w)"
    using S(6) layer_okD(8)[OF dst strm v(2)] row_fits[of _ width' ?row] same by simp
  from put_rows_correct[OF S(1-3) rs this] obtain v' where
    v': "put_rows ?row (\<lambda>idx. idx * ?row) si (length idxs) (concat ?rs) w = Inr v'" "rows_put ?row 0 idxs ?rs w v'" by blast
  have len: "length (concat ?rs) = length idxs * ?row" using length_concat_rows[OF rs(2)] rs(1) by simp
  have enc: "enc_v False width strm is l @ rest = le_bytes 4 (unsigned_at 32 (kt_type v)) @ le_bytes 8 ?row @ concat ?rs @ rest"
    using v(1) by (simp add: enc_v_def)
  have "read_v_layer eof strm (length idxs) si il (m, enc_v False width strm is l @ rest) = (Inr True, set_v il strm (Some v') m, rest)"
    unfolding enc using v'(1) S(2) layer_okD(7)[OF src strm v(1)] same v
    by (simp add: read_v_layer_def Let_def read_type_enc read_uint_enc[OF ggml_row_size_less] io_read_enc[OF len] update_v_def del: le_bytes.simps)
  from that[OF v'(2) this] show thesis .
qed

text \<open>Transposed values: row \<open>j\<close> of the tensor holds element \<open>j\<close> of every cell. After \<open>n\<close> rows:\<close>

definition cols_put :: "nat \<Rightarrow> nat \<Rightarrow> nat \<Rightarrow> nat list \<Rightarrow> (nat \<Rightarrow> nat \<Rightarrow> bytes) \<Rightarrow> kv_tensor \<Rightarrow> kv_tensor \<Rightarrow> bool" where
  "cols_put n el width' idxs f t t' \<longleftrightarrow> kt_type t' = kt_type t \<and> length (kt_data t') = length (kt_data t) \<and>
    (\<forall>j < n. \<forall>q < length idxs. tensor_row el t' (idxs ! q + j * width') = f j q) \<and>
    (\<forall>j i. i < width' \<longrightarrow> i \<notin> set idxs \<or> n \<le> j \<longrightarrow> tensor_row el t' (i + j * width') = tensor_row el t (i + j * width'))"

lemma col_index:
  fixes w :: nat
  assumes "i < w" "i' < w" "i + j * w = i' + j' * w"
  shows "i = i'" "j = j'"
proof -
  have "(i + j * w) mod w = i" using assms(1) by simp
  moreover have "(i' + j' * w) mod w = i'" using assms(2) by simp
  ultimately show "i = i'" using assms(3) by simp
  then have "j * w = j' * w" "0 < w" using assms by auto
  then show "j = j'" by simp
qed

lemma cols_put_step:
  assumes "cols_put n el width' idxs f t t1" "rows_put el (n * width') idxs (map (f n) [0..<length idxs]) t1 t2" "\<forall>i \<in> set idxs. i < width'"
  shows "cols_put (Suc n) el width' idxs f t t2"
proof -
  have frame: "tensor_row el t2 (i + j * width') = tensor_row el t1 (i + j * width')" if "i < width'" "i \<notin> set idxs \<or> j \<noteq> n" for i j
  proof -
    have "i + j * width' \<notin> (\<lambda>x. x + n * width') ` set idxs"
    proof
      assume "i + j * width' \<in> (\<lambda>x. x + n * width') ` set idxs"
      then obtain x where "x \<in> set idxs" "i + j * width' = x + n * width'" by auto
      then show False using col_index[of i width' x j n] that assms(3) by auto
    qed
    then show ?thesis using assms(2) by (simp add: rows_put_def)
  qed
  have "tensor_row el t2 (idxs ! q + j * width') = f j q" if "j < Suc n" "q < length idxs" for j q
    using that assms(1,2) frame[of "idxs ! q" j] assms(3) by (cases "j = n") (auto simp: cols_put_def rows_put_def)
  moreover have "tensor_row el t2 (i + j * width') = tensor_row el t (i + j * width')" if "i < width'" "i \<notin> set idxs \<or> Suc n \<le> j" for i j
    using that frame[of i j] assms(1) by (auto simp: cols_put_def)
  ultimately show ?thesis using assms(1,2) by (simp add: cols_put_def rows_put_def)
qed

lemma read_vt_layer_enc:
  assumes src: "layer_ok True n_stream width l" and dst: "layer_ok True n_stream width' (km_layers m ! il)" and il: "il < length (km_layers m)"
    and strm: "strm < n_stream" and like: "layer_like n_stream l (km_layers m ! il)" and si: "slot_for width width' is si idxs"
    and v: "kl_v_stream l ! strm = Some v" "kl_v_stream (km_layers m ! il) ! strm = Some w"
    and kv: "cells_size (kv_v_cells (km_kv m) ! strm) = width'"
  obtains v' where "cols_put (kl_n_embd_v l) (v_el v) width' idxs (\<lambda>j q. tensor_row (v_el v) v (is ! q + j * width)) w v'"
    "read_vt_layer eof strm (length idxs) si il (m, enc_v True width strm is l @ rest) = (Inr True, set_v il strm (Some v') m, rest)"
proof -
  let ?el = "v_el v" and ?f = "\<lambda>j q. tensor_row (v_el v) v (is ! q + j * width)" and ?n = "kl_n_embd_v l"
  have same: "kt_type w = kt_type v" "kl_n_embd_v (km_layers m ! il) = ?n" using like strm v by (auto simp: layer_like_def)
  have S: "si_idxs si = [idxs]" "idxs \<noteq> []" "distinct idxs" "length is = length idxs" "\<forall>i \<in> set is. i < width" "\<forall>i \<in> set idxs. i < width'"
    using si by (auto simp: slot_for_def)
  note lv = layer_okD(9)[OF src strm v(1) TrueI] and lw = layer_okD(9)[OF dst strm v(2) TrueI, unfolded same]
  define I where "I j m' \<longleftrightarrow> (\<exists>v'. m' = set_v il strm (Some v') m \<and> cols_put j ?el width' idxs ?f w v')" for j m'
  have step: "\<exists>m2. read_vt_row eof strm (length idxs) si il width' ?el j (m1, concat (map (\<lambda>i. tensor_row ?el v (i + j * width)) is) @ r) = (Inr True, m2, r) \<and>
      I (Suc j) m2" if j: "j < ?n" and I: "I j m1" for j m1 r
  proof -
    obtain v1 where v1: "m1 = set_v il strm (Some v1) m" "cols_put j ?el width' idxs ?f w v1" using I by (auto simp: I_def)
    let ?rs = "map (\<lambda>i. tensor_row ?el v (i + j * width)) is"
    have at: "kl_v_stream (km_layers m1 ! il) ! strm = Some v1" using il strm layer_okD(6)[OF dst strm] v1(1) by simp
    have rs: "length ?rs = length idxs" "\<forall>r \<in> set ?rs. length r = ?el"
      using S lv row_fits[of _ "?n * width" ?el] embd_index[of "Suc _" width j ?n] j by (auto simp: length_tensor_row Suc_le_eq)
    have "u32 (int (x + j * width')) * ?el = (x + j * width') * ?el \<and> (x + j * width' + 1) * ?el \<le> length (kt_data v1)" if x: "x \<in> set idxs" for x
    proof -
      have b: "x + j * width' < ?n * width'" using embd_index[of "Suc x" width' j ?n] S(6) x j by auto
      then have "u32 (int (x + j * width')) = x + j * width'" using lw by (auto simp del: of_nat_add of_nat_mult)
      then show ?thesis using row_fits[OF b, of ?el] lw v1(2) by (simp add: cols_put_def)
    qed
    from put_rows_correct[OF S(1-3) rs ballI, OF this] obtain v2 where
      v2: "put_rows ?el (\<lambda>idx. u32 (int (idx + j * width')) * ?el) si (length idxs) (concat ?rs) v1 = Inr v2" "rows_put ?el (j * width') idxs ?rs v1 v2" by blast
    have len: "length (concat ?rs) = length idxs * ?el" using length_concat_rows[OF rs(2)] rs(1) by simp
    have "?rs = map (?f j) [0..<length idxs]" using S(4) by (intro nth_equalityI) auto
    then have "I (Suc j) (set_v il strm (Some v2) m)" unfolding I_def using cols_put_step[OF v1(2) _ S(6)] v2(2) by auto
    moreover have "read_vt_row eof strm (length idxs) si il width' ?el j (m1, concat ?rs @ r) = (Inr True, set_v il strm (Some v2) m, r)"
      using v2(1) at il v1(1) by (simp add: read_vt_row_def io_read_enc[OF len] update_v_def)
    ultimately show ?thesis by blast
  qed
  have "set_v il strm (Some w) m = m" using v(2) by (metis kv_layer.surjective kv_layer.update_convs(4) kv_mem.surjective kv_mem.update_convs(3) list_update_id)
  then have "I 0 m" unfolding I_def by (intro exI[of _ w]) (simp add: cols_put_def)
  from read_all_upt[of ?n I, OF step this, of rest] obtain v' where v': "cols_put ?n ?el width' idxs ?f w v'"
    "read_all (read_vt_row eof strm (length idxs) si il width' ?el) [0..<?n]
      (m, concat (map (\<lambda>j. concat (map (\<lambda>i. tensor_row ?el v (i + j * width)) is)) [0..<?n]) @ rest) = (Inr True, set_v il strm (Some v') m, rest)"
    by (auto simp: I_def)
  have enc: "enc_v True width strm is l @ rest = le_bytes 4 (unsigned_at 32 (kt_type v)) @ le_bytes 4 ?el @ le_bytes 4 ?n @
      concat (map (\<lambda>j. concat (map (\<lambda>i. tensor_row ?el v (i + j * width)) is)) [0..<?n]) @ rest"
    using v(1) by (simp add: enc_v_def)
  have "read_vt_layer eof strm (length idxs) si il (m, enc_v True width strm is l @ rest) = (Inr True, set_v il strm (Some v') m, rest)"
    unfolding enc using v'(2) S(2) layer_okD(7)[OF src strm v(1)] same v kv lv layer_okD(4)[OF src strm]
    by (simp add: read_vt_layer_def Let_def read_type_enc read_uint_enc del: le_bytes.simps)
  from that[OF v'(1) this] show thesis .
qed

section \<open>All layers\<close>

lemma read_layers:
  assumes "\<And>il m1 r. il < length ls \<Longrightarrow> km_kv m1 = km_kv m \<Longrightarrow> km_v_trans m1 = km_v_trans m \<Longrightarrow> length (km_layers m1) = length (km_layers m) \<Longrightarrow>
      km_layers m1 ! il = km_layers m ! il \<Longrightarrow>
      \<exists>l'. f il (m1, enc (ls ! il) @ r) = (Inr True, m1\<lparr>km_layers := (km_layers m1)[il := l']\<rparr>, r) \<and> R (ls ! il) (km_layers m ! il) l'"
    and "length ls = length (km_layers m)"
  obtains ls' where "read_all f [0..<length ls] (m, concat (map enc ls) @ rest) = (Inr True, m\<lparr>km_layers := ls'\<rparr>, rest)"
    "length ls' = length ls" "\<And>il. il < length ls \<Longrightarrow> R (ls ! il) (km_layers m ! il) (ls' ! il)"
proof -
  define I where "I k m' \<longleftrightarrow> (\<exists>ls'. m' = m\<lparr>km_layers := ls'\<rparr> \<and> length ls' = length ls \<and>
    (\<forall>il < length ls. if il < k then R (ls ! il) (km_layers m ! il) (ls' ! il) else ls' ! il = km_layers m ! il))" for k m'
  have step: "\<exists>m2. f k (m1, enc (ls ! k) @ r) = (Inr True, m2, r) \<and> I (Suc k) m2" if k: "k < length ls" and I: "I k m1" for k m1 r
  proof -
    obtain ls1 where ls1: "m1 = m\<lparr>km_layers := ls1\<rparr>" "length ls1 = length ls"
      "\<forall>il < length ls. if il < k then R (ls ! il) (km_layers m ! il) (ls1 ! il) else ls1 ! il = km_layers m ! il" using I by (auto simp: I_def)
    obtain l' where l': "f k (m1, enc (ls ! k) @ r) = (Inr True, m1\<lparr>km_layers := (km_layers m1)[k := l']\<rparr>, r)" "R (ls ! k) (km_layers m ! k) l'"
      using assms(1)[OF k, of m1 r] ls1 assms(2) k by auto
    have "I (Suc k) (m\<lparr>km_layers := ls1[k := l']\<rparr>)"
      unfolding I_def using ls1(2,3) l'(2) k by (intro exI[of _ "ls1[k := l']"]) (auto simp: nth_list_update less_Suc_eq)
    then show ?thesis using l'(1) ls1(1) by auto
  qed
  have "I 0 m" unfolding I_def using assms(2) by (intro exI[of _ "km_layers m"]) simp
  from read_all_upt[of "length ls" I, OF step this, of rest] obtain ls' where
    ls': "read_all f [0..<length ls] (m, concat (map (\<lambda>i. enc (ls ! i)) [0..<length ls]) @ rest) = (Inr True, m\<lparr>km_layers := ls'\<rparr>, rest)"
      "length ls' = length ls" "\<And>il. il < length ls \<Longrightarrow> R (ls ! il) (km_layers m ! il) (ls' ! il)"
    by (auto simp: I_def)
  have "map (\<lambda>i. enc (ls ! i)) [0..<length ls] = map enc ls" by (rule nth_equalityI) auto
  then show thesis using that ls' by simp
qed

definition k_restored :: "nat \<Rightarrow> nat list \<Rightarrow> nat list \<Rightarrow> kv_layer \<Rightarrow> kv_layer \<Rightarrow> kv_layer \<Rightarrow> bool" where
  "k_restored strm is idxs l0 l l' \<longleftrightarrow>
    (let k = kl_k_stream l0 ! strm in
     \<exists>k'. l' = l\<lparr>kl_k_stream := (kl_k_stream l)[strm := k']\<rparr> \<and>
       rows_put (k_size l0 k) 0 idxs (map (tensor_row (k_size l0 k) k) is) (kl_k_stream l ! strm) k')"

definition v_restored :: "bool \<Rightarrow> nat \<Rightarrow> nat \<Rightarrow> nat \<Rightarrow> nat list \<Rightarrow> nat list \<Rightarrow> kv_layer \<Rightarrow> kv_layer \<Rightarrow> kv_layer \<Rightarrow> bool" where
  "v_restored vt width width' strm is idxs l0 l l' \<longleftrightarrow>
    (case kl_v_stream l0 ! strm of
       None \<Rightarrow> l' = l
     | Some v \<Rightarrow> \<exists>w v'. kl_v_stream l ! strm = Some w \<and> l' = l\<lparr>kl_v_stream := (kl_v_stream l)[strm := Some v']\<rparr> \<and>
         (if vt then cols_put (kl_n_embd_v l0) (v_el v) width' idxs (\<lambda>j q. tensor_row (v_el v) v (is ! q + j * width)) w v'
          else rows_put (v_size l0 v) 0 idxs (map (tensor_row (v_size l0 v) v) is) w v'))"

lemma read_k_step:
  assumes "layer_ok vt n_stream width l" "layer_ok vt n_stream width' (km_layers m ! il)" "strm < n_stream"
    "layer_like n_stream l (km_layers m ! il)" "slot_for width width' is si idxs"
  shows "\<exists>l'. read_k_layer eof strm (length idxs) si il (m, enc_k strm is l @ r) = (Inr True, m\<lparr>km_layers := (km_layers m)[il := l']\<rparr>, r) \<and>
    k_restored strm is idxs l (km_layers m ! il) l'"
  by (rule read_k_layer_enc[OF assms, of eof r]) (auto simp: k_restored_def Let_def)

lemma read_v_step:
  assumes ok: "layer_ok vt n_stream width l" "layer_ok vt n_stream width' (km_layers m ! il)" and strm: "strm < n_stream"
    and like: "layer_like n_stream l (km_layers m ! il)" and si: "slot_for width width' is si idxs"
    and m: "il < length (km_layers m)" "cells_size (kv_v_cells (km_kv m) ! strm) = width'"
  shows "\<exists>l'. (if vt then read_vt_layer else read_v_layer) eof strm (length idxs) si il (m, enc_v vt width strm is l @ r) =
      (Inr True, m\<lparr>km_layers := (km_layers m)[il := l']\<rparr>, r) \<and> v_restored vt width width' strm is idxs l (km_layers m ! il) l'"
proof (cases "kl_v_stream l ! strm")
  case None
  then have "kl_v_stream (km_layers m ! il) ! strm = None" using like strm by (auto simp: layer_like_def)
  then show ?thesis using None
    by (intro exI[of _ "km_layers m ! il"]) (simp add: read_v_layer_def read_vt_layer_def enc_v_def v_restored_def Let_def)
next
  case (Some v)
  then obtain w where w: "kl_v_stream (km_layers m ! il) ! strm = Some w"
    using like strm by (cases "kl_v_stream (km_layers m ! il) ! strm") (auto simp: layer_like_def)
  show ?thesis
  proof (cases vt)
    case True
    have t: "layer_ok True n_stream width l" "layer_ok True n_stream width' (km_layers m ! il)" using ok True by simp_all
    show ?thesis
      by (rule read_vt_layer_enc[OF t m(1) strm like si Some w m(2), of eof r])
        (use True Some w in \<open>auto simp: v_restored_def\<close>)
  next
    case False
    have t: "layer_ok False n_stream width l" "layer_ok False n_stream width' (km_layers m ! il)" using ok False by simp_all
    show ?thesis
      by (rule read_v_layer_enc[OF t strm like si Some w, of eof r])
        (use False Some w in \<open>auto simp: v_restored_def\<close>)
  qed
qed

lemma k_restored_shape:
  assumes "k_restored strm is idxs l0 l l'" "layer_ok vt n width' l" "layer_like n l0 l" "strm < n"
  shows "layer_ok vt n width' l'" "layer_like n l0 l'"
proof -
  obtain k' where k': "l' = l\<lparr>kl_k_stream := (kl_k_stream l)[strm := k']\<rparr>" "kt_type k' = kt_type (kl_k_stream l ! strm)"
    "length (kt_data k') = length (kt_data (kl_k_stream l ! strm))" using assms(1) by (auto simp: k_restored_def rows_put_def Let_def)
  show "layer_ok vt n width' l'" using layer_ok_set_k[OF assms(2,4) k'(2,3)] k'(1) by simp
  show "layer_like n l0 l'" using assms(3,4) k' layer_okD(5)[OF assms(2,4)] by (auto simp: layer_like_def nth_list_update)
qed

lemma v_restored_shape:
  assumes "v_restored vt width width' strm is idxs l0 l l'" "layer_ok vt n width' l" "layer_like n l0 l" "strm < n"
  shows "layer_ok vt n width' l'" "layer_like n l0 l'"
proof -
  have "l' = l \<or> (\<exists>w v'. kl_v_stream l ! strm = Some w \<and> l' = l\<lparr>kl_v_stream := (kl_v_stream l)[strm := Some v']\<rparr> \<and>
      kt_type v' = kt_type w \<and> length (kt_data v') = length (kt_data w))"
    using assms(1) by (auto simp: v_restored_def rows_put_def cols_put_def split: option.splits if_splits)
  then show "layer_ok vt n width' l'" "layer_like n l0 l'"
    using assms(2-4) layer_ok_set_v[OF assms(2,4)] layer_okD(6)[OF assms(2,4)]
    by (auto simp: layer_like_def nth_list_update) (metis option.simps(9))
qed

text \<open>The rows of a cell.\<close>

definition k_row :: "nat \<Rightarrow> nat \<Rightarrow> kv_layer \<Rightarrow> bytes" where
  "k_row s i l = (let k = kl_k_stream l ! s in tensor_row (k_size l k) k i)"

definition v_row :: "bool \<Rightarrow> nat \<Rightarrow> nat \<Rightarrow> nat \<Rightarrow> kv_layer \<Rightarrow> bytes" where
  "v_row v_trans width s i l =
    (case kl_v_stream l ! s of
       None \<Rightarrow> []
     | Some v \<Rightarrow> if v_trans then concat (map (\<lambda>j. tensor_row (v_el v) v (i + j * width)) [0..<kl_n_embd_v l]) else tensor_row (v_size l v) v i)"

definition cell_rows :: "kv_mem \<Rightarrow> nat \<Rightarrow> nat \<Rightarrow> (bytes \<times> bytes) list" where
  "cell_rows m s i = map (\<lambda>l. (k_row s i l, v_row (km_v_trans m) (kv_width (km_kv m)) s i l)) (km_layers m)"

lemma restored_rows:
  assumes k: "k_restored strm is idxs l0 l l1" and v: "v_restored vt width width' strm is idxs l0 l1 l2"
    and ok: "layer_ok vt n width' l" "strm < n" and like: "layer_like n l0 l" and si: "slot_for width width' is si idxs"
  shows "q < length idxs \<Longrightarrow> k_row strm (idxs ! q) l2 = k_row strm (is ! q) l0 \<and> v_row vt width' strm (idxs ! q) l2 = v_row vt width strm (is ! q) l0"
    and "i < width' \<Longrightarrow> i \<notin> set idxs \<Longrightarrow> k_row strm i l2 = k_row strm i l \<and> v_row vt width' strm i l2 = v_row vt width' strm i l"
    and "s \<noteq> strm \<Longrightarrow> k_row s i l2 = k_row s i l \<and> v_row vt width' s i l2 = v_row vt width' s i l"
proof -
  let ?k = "kl_k_stream l0 ! strm"
  obtain k' where k': "l1 = l\<lparr>kl_k_stream := (kl_k_stream l)[strm := k']\<rparr>"
    "rows_put (k_size l0 ?k) 0 idxs (map (tensor_row (k_size l0 ?k) ?k) is) (kl_k_stream l ! strm) k'"
    using k by (auto simp: k_restored_def Let_def)
  have len: "length is = length idxs" using si by (simp add: slot_for_def)
  have len2: "length (kl_k_stream l) = n" "length (kl_v_stream l) = n" using ok by (simp_all add: layer_ok_def)
  have ks: "kt_type (kl_k_stream l ! strm) = kt_type ?k" "kl_n_embd_k l = kl_n_embd_k l0" "kl_n_embd_v l = kl_n_embd_v l0"
    "map_option kt_type (kl_v_stream l ! strm) = map_option kt_type (kl_v_stream l0 ! strm)" using like ok(2) by (auto simp: layer_like_def)
  have K: "kl_k_stream l2 = (kl_k_stream l)[strm := k']" "kl_n_embd_k l2 = kl_n_embd_k l" "kl_n_embd_v l2 = kl_n_embd_v l"
    using v k'(1) by (auto simp: v_restored_def split: option.splits)
  have kq: "k_row strm (idxs ! q) l2 = k_row strm (is ! q) l0" if "q < length idxs" for q
    using that k'(2) K ks len len2 ok(2) by (simp add: k_row_def rows_put_def Let_def)
  have ki: "k_row strm i l2 = k_row strm i l" if "i \<notin> set idxs" for i
    using that k'(2) K ks len2 ok(2) by (simp add: k_row_def rows_put_def Let_def)
  have V: "(kl_v_stream l0 ! strm = None \<and> kl_v_stream l ! strm = None \<and> kl_v_stream l2 = kl_v_stream l) \<or>
    (\<exists>v0 w v'. kl_v_stream l0 ! strm = Some v0 \<and> kl_v_stream l ! strm = Some w \<and> kl_v_stream l2 = (kl_v_stream l)[strm := Some v'] \<and>
      kt_type w = kt_type v0 \<and>
      (if vt then cols_put (kl_n_embd_v l0) (v_el v0) width' idxs (\<lambda>j q. tensor_row (v_el v0) v0 (is ! q + j * width)) w v'
       else rows_put (v_size l0 v0) 0 idxs (map (tensor_row (v_size l0 v0) v0) is) w v'))"
  proof (cases "kl_v_stream l0 ! strm")
    case None
    then show ?thesis using v k'(1) ks(4) by (simp add: v_restored_def)
  next
    case (Some v0)
    then obtain w v' where "kl_v_stream l1 ! strm = Some w" "l2 = l1\<lparr>kl_v_stream := (kl_v_stream l1)[strm := Some v']\<rparr>"
      "if vt then cols_put (kl_n_embd_v l0) (v_el v0) width' idxs (\<lambda>j q. tensor_row (v_el v0) v0 (is ! q + j * width)) w v'
       else rows_put (v_size l0 v0) 0 idxs (map (tensor_row (v_size l0 v0) v0) is) w v'"
      using v by (simp only: v_restored_def option.case) blast
    then show ?thesis using Some k'(1) ks(4) by (intro disjI2 exI[of _ v0] exI[of _ w] exI[of _ v'] conjI) simp_all
  qed
  then have vq: "v_row vt width' strm (idxs ! q) l2 = v_row vt width strm (is ! q) l0" if "q < length idxs" for q
    using that K(3) ks(3) len len2 ok(2)
    by (elim disjE exE conjE) (auto simp: v_row_def rows_put_def cols_put_def split: if_splits intro!: arg_cong[of _ _ concat])
  from V have vi: "v_row vt width' strm i l2 = v_row vt width' strm i l" if "i < width'" "i \<notin> set idxs" for i
    using that K(3) ks(3) len2 ok(2)
    by (elim disjE exE conjE) (auto simp: v_row_def rows_put_def cols_put_def split: if_splits intro!: arg_cong[of _ _ concat])
  from V have vs: "kl_v_stream l2 ! s = kl_v_stream l ! s" if "s \<noteq> strm" for s using that by auto
  show "k_row strm (idxs ! q) l2 = k_row strm (is ! q) l0 \<and> v_row vt width' strm (idxs ! q) l2 = v_row vt width strm (is ! q) l0" if "q < length idxs"
    using that kq vq by simp
  show "k_row strm i l2 = k_row strm i l \<and> v_row vt width' strm i l2 = v_row vt width' strm i l" if "i < width'" "i \<notin> set idxs" using that ki vi by simp
  show "k_row s i l2 = k_row s i l \<and> v_row vt width' s i l2 = v_row vt width' s i l" if "s \<noteq> strm"
    using that K vs by (simp add: k_row_def v_row_def Let_def split: option.splits)
qed

text \<open>Reading the data of the cells \<open>is\<close> into a slot: only the rows of the slot change.\<close>

lemma read_data_enc:
  assumes m0: "mem_ok m0" and m: "mem_ok m" and like: "mem_like m0 m" and strm: "strm < kv_n_stream (km_kv m0)"
    and si: "slot_for (kv_width (km_kv m0)) (kv_width (km_kv m)) is si idxs"
  obtains m' where "state_read_data eof strm (length idxs) si (m, enc_data m0 strm is @ rest) = (Inr True, m', rest)"
    "mem_ok m'" "mem_like m0 m'" "km_kv m' = km_kv m"
    "\<And>q. q < length idxs \<Longrightarrow> cell_rows m' strm (idxs ! q) = cell_rows m0 strm (is ! q)"
    "\<And>i. i < kv_width (km_kv m) \<Longrightarrow> i \<notin> set idxs \<Longrightarrow> cell_rows m' strm i = cell_rows m strm i"
    "\<And>s i. s \<noteq> strm \<Longrightarrow> cell_rows m' s i = cell_rows m s i"
proof -
  let ?n = "kv_n_stream (km_kv m0)" and ?w = "kv_width (km_kv m0)" and ?w' = "kv_width (km_kv m)" and ?ls = "km_layers m0" and ?vt = "km_v_trans m"
  have L: "kv_n_stream (km_kv m) = ?n" "?vt = km_v_trans m0" "length (km_layers m) = length ?ls" using like by (auto simp: mem_like_def)
  have S: "cells_size (kv_v_cells (km_kv m) ! strm) = ?w'" "cells_size (kv_v_cells (km_kv m0) ! strm) = ?w"
    using m m0 strm L(1) by (auto simp: mem_ok_def kv_invD(8))
  have src: "layer_ok ?vt ?n ?w (?ls ! il)" if "il < length ?ls" for il using m0 that L(2) by (simp add: mem_ok_def)
  have dst: "layer_ok ?vt ?n ?w' (km_layers m ! il)" if "il < length ?ls" for il using m that L by (simp add: mem_ok_def)
  have lk: "layer_like ?n (?ls ! il) (km_layers m ! il)" if "il < length ?ls" for il using like that by (simp add: mem_like_def)
  obtain ls1 where ls1: "read_all (read_k_layer eof strm (length idxs) si) [0..<length ?ls]
      (m, concat (map (enc_k strm is) ?ls) @ concat (map (enc_v ?vt ?w strm is) ?ls) @ rest) =
      (Inr True, m\<lparr>km_layers := ls1\<rparr>, concat (map (enc_v ?vt ?w strm is) ?ls) @ rest)" "length ls1 = length ?ls"
    "\<And>il. il < length ?ls \<Longrightarrow> k_restored strm is idxs (?ls ! il) (km_layers m ! il) (ls1 ! il)"
  proof (rule read_layers[of ?ls m "read_k_layer eof strm (length idxs) si" "enc_k strm is" "k_restored strm is idxs"])
    fix il r and m1 :: kv_mem assume "il < length ?ls" "km_layers m1 ! il = km_layers m ! il"
    then show "\<exists>l'. read_k_layer eof strm (length idxs) si il (m1, enc_k strm is (?ls ! il) @ r) = (Inr True, m1\<lparr>km_layers := (km_layers m1)[il := l']\<rparr>, r) \<and>
        k_restored strm is idxs (?ls ! il) (km_layers m ! il) l'"
      using read_k_step[OF src _ strm _ si, of il m1 il eof r] dst[of il] lk[of il] by simp
  qed (use L in auto)
  note sh1 = k_restored_shape[OF ls1(3) dst lk strm]
  obtain ls2 where ls2: "read_all ((if ?vt then read_vt_layer else read_v_layer) eof strm (length idxs) si) [0..<length ?ls]
      (m\<lparr>km_layers := ls1\<rparr>, concat (map (enc_v ?vt ?w strm is) ?ls) @ rest) = (Inr True, (m\<lparr>km_layers := ls1\<rparr>)\<lparr>km_layers := ls2\<rparr>, rest)"
    "length ls2 = length ?ls" "\<And>il. il < length ?ls \<Longrightarrow> v_restored ?vt ?w ?w' strm is idxs (?ls ! il) (km_layers (m\<lparr>km_layers := ls1\<rparr>) ! il) (ls2 ! il)"
  proof (rule read_layers[of ?ls "m\<lparr>km_layers := ls1\<rparr>" "(if ?vt then read_vt_layer else read_v_layer) eof strm (length idxs) si" "enc_v ?vt ?w strm is"
      "v_restored ?vt ?w ?w' strm is idxs"])
    fix il r and m1 :: kv_mem assume il: "il < length ?ls" "km_kv m1 = km_kv (m\<lparr>km_layers := ls1\<rparr>)" "length (km_layers m1) = length (km_layers (m\<lparr>km_layers := ls1\<rparr>))"
      "km_layers m1 ! il = km_layers (m\<lparr>km_layers := ls1\<rparr>) ! il"
    then show "\<exists>l'. (if ?vt then read_vt_layer else read_v_layer) eof strm (length idxs) si il (m1, enc_v ?vt ?w strm is (?ls ! il) @ r) =
          (Inr True, m1\<lparr>km_layers := (km_layers m1)[il := l']\<rparr>, r) \<and>
        v_restored ?vt ?w ?w' strm is idxs (?ls ! il) (km_layers (m\<lparr>km_layers := ls1\<rparr>) ! il) l'"
      using read_v_step[OF src _ strm _ si, of il m1 il eof r] sh1[of il] S(1) ls1(2) by simp
  qed (use ls1(2) in auto)
  have vr: "v_restored ?vt ?w ?w' strm is idxs (?ls ! il) (ls1 ! il) (ls2 ! il)" if "il < length ?ls" for il using ls2(3)[OF that] by simp
  note sh2 = v_restored_shape[OF vr sh1(1) sh1(2) strm]
  note rows = restored_rows[OF ls1(3) vr dst strm lk si]
  let ?m = "m\<lparr>km_layers := ls2\<rparr>"
  have fits: "length idxs \<le> ?w'" using si card_mono[of "{..<?w'}" "set idxs"] by (auto simp: slot_for_def distinct_card)
  have enc: "enc_data m0 strm is @ rest = le_bytes 4 (if ?vt then 1 else 0) @ le_bytes 4 (length ?ls) @
      concat (map (enc_k strm is) ?ls) @ concat (map (enc_v ?vt ?w strm is) ?ls) @ rest" by (simp add: enc_data_def L(2) S(2))
  have n: "length ?ls < 256 ^ 4" "(if ?vt then 1 else 0) < (256 :: nat) ^ 4" using m0 by (simp_all add: mem_ok_def)
  show thesis
  proof (rule that[of ?m])
    show "state_read_data eof strm (length idxs) si (m, enc_data m0 strm is @ rest) = (Inr True, ?m, rest)"
      unfolding enc using ls1(1) ls2(1) fits S(1) L(3)
      by (cases ?vt) (simp_all add: state_read_data_def read_uint_enc[OF n(1)] read_uint_enc[OF n(2)] read_uint_enc Let_def del: le_bytes.simps)
    show "mem_ok ?m" using m sh2(1) L ls2(2) by (auto simp: mem_ok_def in_set_conv_nth)
    show "mem_like m0 ?m" using like sh2(2) ls2(2) by (simp add: mem_like_def)
    show "cell_rows ?m strm (idxs ! q) = cell_rows m0 strm (is ! q)" if "q < length idxs" for q
      using rows(1)[OF _ _ _ _ that] L ls2(2) by (intro nth_equalityI) (auto simp: cell_rows_def)
    show "cell_rows ?m strm i = cell_rows m strm i" if "i < ?w'" "i \<notin> set idxs" for i
      using rows(2)[OF _ _ _ _ that] L ls2(2) by (intro nth_equalityI) (auto simp: cell_rows_def)
    show "cell_rows ?m s i = cell_rows m s i" if "s \<noteq> strm" for s i
      using rows(3)[OF _ _ _ _ that] L ls2(2) by (intro nth_equalityI) (auto simp: cell_rows_def)
  qed simp
qed

section \<open>Restoring a whole cache\<close>

text \<open>What the cache holds: for every cell in use its position, its sequences and its rows.\<close>

definition stored :: "kv_mem \<Rightarrow> nat \<Rightarrow> (int \<times> nat set \<times> (bytes \<times> bytes) list) list" where
  "stored m s =
    (let c = kv_v_cells (km_kv m) ! s in map (\<lambda>i. (kc_pos c ! i, kc_seq c ! i, cell_rows m s i)) (saved_cells c (- 1)))"

text \<open>The ids of the sequences are below the bound that \<^verbatim>\<open>state_write_meta\<close> goes up to, and the positions fit 32 bits.\<close>

definition saveable :: "nat \<Rightarrow> kv_mem \<Rightarrow> bool" where
  "saveable n_seq_max m \<longleftrightarrow> kv_n_seq_max (km_kv m) \<le> n_seq_max \<and>
    (\<forall>s < kv_n_stream (km_kv m). \<forall>i p S. cell_at (kv_v_cells (km_kv m) ! s) i = Some (p, S) \<longrightarrow> p < 2 ^ 31 \<and> S \<subseteq> {..<kv_n_seq_max (km_kv m)})"

lemma kv_clear_eq:
  assumes "length (kv_v_cells kv) = kv_n_stream kv" "length (kv_v_heads kv) = kv_n_stream kv"
  shows "kv_clear kv = kv\<lparr>kv_v_cells := map cells_reset (kv_v_cells kv), kv_v_heads := replicate (kv_n_stream kv) 0\<rparr>"
proof -
  let ?f = "\<lambda>st kv. kv_set_stream st (cells_reset (kv_v_cells kv ! st)) 0 kv"
  have "fold ?f [0..<n] kv = kv\<lparr>kv_v_cells := map cells_reset (take n (kv_v_cells kv)) @ drop n (kv_v_cells kv),
      kv_v_heads := replicate n 0 @ drop n (kv_v_heads kv)\<rparr>" if "n \<le> kv_n_stream kv" for n
    using that
  proof (induction n)
    case (Suc n)
    have d: "drop n (kv_v_cells kv) = kv_v_cells kv ! n # drop (Suc n) (kv_v_cells kv)" "drop n (kv_v_heads kv) = kv_v_heads kv ! n # drop (Suc n) (kv_v_heads kv)"
      using Suc.prems assms by (simp_all add: Cons_nth_drop_Suc)
    have t: "take (Suc n) (kv_v_cells kv) = take n (kv_v_cells kv) @ [kv_v_cells kv ! n]" using Suc.prems assms by (simp add: take_Suc_conv_app_nth)
    have r: "replicate (Suc n) (0 :: nat) = replicate n 0 @ [0]" by (simp add: replicate_append_same)
    show ?case using Suc assms by (simp add: d t r kv_set_stream_def nth_append list_update_append del: replicate_Suc)
  qed simp
  from this[of "kv_n_stream kv"] show ?thesis using assms by (simp add: kv_clear_def)
qed

lemma clear_layer_shape:
  assumes "layer_ok vt n width l"
  shows "layer_ok vt n width (clear_layer l)" "layer_like n l0 l \<Longrightarrow> layer_like n l0 (clear_layer l)"
proof -
  have "k_ok width (clear_layer l) (clear_tensor k) = k_ok width l k" "v_ok vt width (clear_layer l) (clear_tensor k) = v_ok vt width l k" for k
    by (simp_all add: k_ok_def v_ok_def clear_tensor_def clear_layer_def)
  moreover have "kl_k_stream (clear_layer l) = map clear_tensor (kl_k_stream l)" "kl_v_stream (clear_layer l) = map (map_option clear_tensor) (kl_v_stream l)"
    "kl_n_embd_v (clear_layer l) = kl_n_embd_v l" by (simp_all add: clear_layer_def)
  ultimately show "layer_ok vt n width (clear_layer l)" using assms by (auto simp: layer_ok_def)
  have t: "kt_type (clear_tensor k) = kt_type k" "kt_type \<circ> clear_tensor = kt_type" for k by (auto simp: clear_tensor_def)
  show "layer_like n l0 (clear_layer l)" if "layer_like n l0 l"
    using that assms t by (auto simp: layer_like_def layer_ok_def clear_layer_def option.map_comp)
qed

lemma mem_clear_correct:
  assumes "mem_ok m"
  shows "mem_ok (mem_clear data m)" "mem_like m0 m \<Longrightarrow> mem_like m0 (mem_clear data m)"
    "kv_cfg (km_kv (mem_clear data m)) = kv_cfg (km_kv m)" "kv_width (km_kv (mem_clear data m)) = kv_width (km_kv m)"
    "s < kv_n_stream (km_kv m) \<Longrightarrow> cell_at (kv_v_cells (km_kv (mem_clear data m)) ! s) j = None"
proof -
  have inv: "kv_inv (km_kv m)" using assms by (simp add: mem_ok_def)
  note eq = kv_clear_eq[OF kv_invD(2,3)[OF inv]]
  have w: "kv_width (kv_clear (km_kv m)) = kv_width (km_kv m)" using kv_invD(1,2)[OF inv] by (simp add: eq kv_width_def)
  show "mem_ok (mem_clear data m)"
    using assms kv_clear_inv[OF inv] w clear_layer_shape(1) by (auto simp: mem_ok_def mem_clear_def eq)
  show "mem_like m0 (mem_clear data m)" if "mem_like m0 m"
  proof -
    have "layer_like (kv_n_stream (km_kv m0)) (km_layers m0 ! il) (clear_layer (km_layers m ! il))" if il: "il < length (km_layers m)" for il
    proof (rule clear_layer_shape(2))
      show "layer_ok (km_v_trans m) (kv_n_stream (km_kv m0)) (kv_width (km_kv m)) (km_layers m ! il)"
        using assms il \<open>mem_like m0 m\<close> by (auto simp: mem_ok_def mem_like_def)
      show "layer_like (kv_n_stream (km_kv m0)) (km_layers m0 ! il) (km_layers m ! il)" using il \<open>mem_like m0 m\<close> by (simp add: mem_like_def)
    qed
    then show ?thesis using that by (simp add: mem_like_def mem_clear_def eq)
  qed
  show "kv_cfg (km_kv (mem_clear data m)) = kv_cfg (km_kv m)" by (simp add: mem_clear_def eq kv_cfg_def)
  show "kv_width (km_kv (mem_clear data m)) = kv_width (km_kv m)" using w by (simp add: mem_clear_def)
  show "cell_at (kv_v_cells (km_kv (mem_clear data m)) ! s) j = None" if "s < kv_n_stream (km_kv m)"
    using that kv_invD(2)[OF inv] by (simp add: mem_clear_def eq)
qed

lemma saved_cells_all: "saved_cells c (- 1) = filter (\<lambda>i. cell_at c i \<noteq> None) [0..<cells_size c]"
  by (auto simp: saved_cells_def saves_cell_def cells_is_empty_def cell_at_def intro!: filter_cong)

lemma stored_empty: "(\<And>j. cell_at (kv_v_cells (km_kv m) ! s) j = None) \<Longrightarrow> stored m s = []"
  by (simp add: stored_def saved_cells_all)

definition saved_entry :: "kv_cache \<Rightarrow> kv_cells \<Rightarrow> int \<Rightarrow> nat \<Rightarrow> int \<times> nat list" where
  "saved_entry kv c seq_id i = (cells_pos_get c i, cell_seq_ids kv c seq_id i)"

lemma enc_cell_entry: "enc_cell kv c seq_id = enc_entry \<circ> saved_entry kv c seq_id"
  by (rule ext) (simp add: enc_cell_def enc_entry_def saved_entry_def Let_def)

lemma saved_entries_ok:
  assumes "saveable n m" "s < kv_n_stream (km_kv m)" "i \<in> set (saved_cells (kv_v_cells (km_kv m) ! s) (- 1))" "kv_inv (km_kv m)"
  shows "entry_ok n (saved_entry (km_kv m) (kv_v_cells (km_kv m) ! s) (- 1) i)"
    "saved_entry (km_kv m) (kv_v_cells (km_kv m) ! s) (- 1) i = (kc_pos (kv_v_cells (km_kv m) ! s) ! i, cell_seq_ids (km_kv m) (kv_v_cells (km_kv m) ! s) (- 1) i)"
    "set (cell_seq_ids (km_kv m) (kv_v_cells (km_kv m) ! s) (- 1) i) = kc_seq (kv_v_cells (km_kv m) ! s) ! i"
proof -
  let ?c = "kv_v_cells (km_kv m) ! s"
  have at: "cell_at ?c i = Some (kc_pos ?c ! i, kc_seq ?c ! i)" and i: "i < cells_size ?c"
    using assms(3) by (auto simp: saved_cells_all cell_at_def split: if_splits)
  have p: "kc_pos ?c ! i < 2 ^ 31" "kc_seq ?c ! i \<subseteq> {..<kv_n_seq_max (km_kv m)}" "kv_n_seq_max (km_kv m) \<le> n"
    using assms(1,2) at unfolding saveable_def by blast+
  have "kc_pos ?c ! i \<noteq> - 1" using at by (auto simp: cell_at_def split: if_splits)
  then have "0 \<le> kc_pos ?c ! i" using kv_invD(6)[OF assms(4,2)] i by (force simp: cells_inv_def)
  then show "entry_ok n (saved_entry (km_kv m) ?c (- 1) i)" using p
    by (auto simp: entry_ok_def saved_entry_def cells_pos_get_def cell_seq_ids_def)
  show "saved_entry (km_kv m) ?c (- 1) i = (kc_pos ?c ! i, cell_seq_ids (km_kv m) ?c (- 1) i)" by (simp add: saved_entry_def cells_pos_get_def)
  show "set (cell_seq_ids (km_kv m) ?c (- 1) i) = kc_seq ?c ! i" using p(2) by (auto simp: cell_seq_ids_def cells_seq_has_def)
qed

lemma mem_ok_set_cells:
  assumes "mem_ok m" "s < kv_n_stream (km_kv m)" "cells_inv c" "cells_size c = kv_width (km_kv m)"
  shows "mem_ok (update_cells s (\<lambda>_. c) m)" "kv_width (km_kv (update_cells s (\<lambda>_. c) m)) = kv_width (km_kv m)"
proof -
  have inv: "kv_inv (km_kv m)" using assms(1) by (simp add: mem_ok_def)
  have "kv_inv (km_kv (update_cells s (\<lambda>_. c) m))"
    unfolding update_cells_def using kv_set_cells_inv[OF inv assms(2,3)] assms(4) kv_invD(8)[OF inv assms(2)] by simp
  moreover show w: "kv_width (km_kv (update_cells s (\<lambda>_. c) m)) = kv_width (km_kv m)"
    using assms(2,4) kv_invD(1,2)[OF inv] by (cases "s = 0") (simp_all add: update_cells_def kv_width_def)
  ultimately show "mem_ok (update_cells s (\<lambda>_. c) m)" using assms(1) by (simp add: mem_ok_def update_cells_def)
qed

lemma whole_slot_for:
  assumes "0 < length is" "length is \<le> width'" "\<forall>i \<in> set is. i < width"
  shows "slot_for width width' is (whole_slot s (length is)) [0..<length is]"
  using assms by (auto simp: slot_for_def whole_slot_def)

lemma saved_cells_prefix:
  assumes "cells_size c = width" "n \<le> width" "\<And>j. cell_at c j = None \<longleftrightarrow> \<not> j < n"
  shows "saved_cells c (- 1) = [0..<n]"
proof -
  have "[0..<width] = [0..<n] @ [n..<width]" using assms(2) by (metis le_add_diff_inverse le0 upt_add_eq_append)
  then show ?thesis unfolding saved_cells_all assms(1) using assms(3) by simp
qed

text \<open>One stream that is not empty: the whole cache is cleared, and the first cells of the stream get the entries.\<close>

lemma read_meta_whole:
  assumes m0: "mem_ok m0" "saveable (kv_n_seq_max (km_kv m)) m0" and m: "mem_ok m" "kv_n_seq_max (km_kv m) \<le> LLAMA_MAX_SEQ"
    and like: "mem_like m0 m" and s: "s < kv_n_stream (km_kv m0)"
  defines "c0 \<equiv> kv_v_cells (km_kv m0) ! s"
  assumes fits: "length (saved_cells c0 (- 1)) \<le> kv_width (km_kv m)"
  obtains m' where "state_read_meta eof s (length (saved_cells c0 (- 1))) (- 1) (m, concat (map (enc_cell (km_kv m0) c0 (- 1)) (saved_cells c0 (- 1))) @ rest) =
      (Inr (Some (whole_slot s (length (saved_cells c0 (- 1))))), m', rest)"
    "mem_ok m'" "mem_like m0 m'" "kv_cfg (km_kv m') = kv_cfg (km_kv m)" "kv_width (km_kv m') = kv_width (km_kv m)"
    "\<And>j. cell_at (kv_v_cells (km_kv m') ! s) j = (if j < length (saved_cells c0 (- 1)) then cell_at c0 (saved_cells c0 (- 1) ! j) else None)"
    "\<And>t j. t < kv_n_stream (km_kv m0) \<Longrightarrow> t \<noteq> s \<Longrightarrow> cell_at (kv_v_cells (km_kv m') ! t) j = None"
proof -
  let ?is = "saved_cells c0 (- 1)" and ?m1 = "mem_clear True m"
  let ?es = "map (saved_entry (km_kv m0) c0 (- 1)) ?is"
  have inv0: "kv_inv (km_kv m0)" using m0 by (simp add: mem_ok_def)
  have n: "kv_n_stream (km_kv m) = kv_n_stream (km_kv m0)" using like by (simp add: mem_like_def)
  note cl = mem_clear_correct[OF m(1), where data = True]
  have cfg: "kv_n_seq_max (km_kv ?m1) = kv_n_seq_max (km_kv m)" "kv_n_stream (km_kv ?m1) = kv_n_stream (km_kv m0)"
    using cl(3) kv_cfgD[OF cl(3)] n by (auto simp: kv_cfg_def dest: arg_cong[where f = kv_n_seq_max])
  have inv1: "kv_inv (km_kv ?m1)" using cl(1) by (simp add: mem_ok_def)
  have s1: "s < length (kv_v_cells (km_kv ?m1))" "cells_size (kv_v_cells (km_kv ?m1) ! s) = kv_width (km_kv m)"
    "cells_inv (kv_v_cells (km_kv ?m1) ! s)" "\<And>j. cell_at (kv_v_cells (km_kv ?m1) ! s) j = None"
    using kv_invD(2,6,8)[OF inv1] s cfg(2) cl(4,5) n by auto
  have es: "\<forall>e \<in> set ?es. entry_ok (kv_n_seq_max (km_kv ?m1)) e" using saved_entries_ok(1)[OF m0(2) s _ inv0] by (auto simp: c0_def cfg(1))
  obtain c where c: "read_all (read_cell eof s) [0..<length ?es] (?m1, concat (map enc_entry ?es) @ rest) = (Inr True, update_cells s (\<lambda>_. c) ?m1, rest)"
    "cells_inv c" "cells_size c = cells_size (kv_v_cells (km_kv ?m1) ! s)"
    "\<And>j. cell_at c j = (if j < length ?es then Some (fst (?es ! j), set (snd (?es ! j))) else None)"
    by (rule read_cells_enc[OF s1(1) _ es _ s1(3,4), of eof rest]) (use m(2) cfg(1) fits s1(2) in auto)
  let ?m2 = "update_cells s (\<lambda>_. c) ?m1"
  have m2: "mem_ok ?m2" "kv_width (km_kv ?m2) = kv_width (km_kv m)"
    using mem_ok_set_cells[OF cl(1), of s c] s cfg(2) c(2,3) s1(2) cl(4) by auto
  let ?m3 = "?m2\<lparr>km_kv := (km_kv ?m2)\<lparr>kv_v_heads := (kv_v_heads (km_kv ?m2))[s := 0]\<rparr>\<rparr>"
  have at: "cell_at c j = (if j < length ?is then cell_at c0 (?is ! j) else None)" for j
  proof (cases "j < length ?is")
    case True
    then have i: "?is ! j \<in> set ?is" by simp
    have "cell_at c0 (?is ! j) = Some (kc_pos c0 ! (?is ! j), kc_seq c0 ! (?is ! j))"
      using i by (auto simp: saved_cells_all cell_at_def split: if_splits)
    then show ?thesis using c(4)[of j] True saved_entries_ok(2,3)[OF m0(2) s i[unfolded c0_def] inv0, folded c0_def] by simp
  qed (use c(4)[of j] in simp)
  show thesis
  proof (rule that[of ?m3])
    have en: "concat (map (enc_cell (km_kv m0) c0 (- 1)) ?is) = concat (map enc_entry ?es)" by (simp add: enc_cell_entry)
    show "state_read_meta eof s (length ?is) (- 1) (m, concat (map (enc_cell (km_kv m0) c0 (- 1)) ?is) @ rest) =
        (Inr (Some (whole_slot s (length ?is))), ?m3, rest)"
      unfolding en using c(1) fits kv_invD(8) m(1) s n by (simp add: state_read_meta_def mem_ok_def)
    show "mem_ok ?m3" using m2(1) kv_inv_heads[of "km_kv ?m2" 0 s] by (auto simp: mem_ok_def kv_width_def)
    show "mem_like m0 ?m3" using cl(2)[OF like] by (simp add: mem_like_def update_cells_def)
    show "kv_cfg (km_kv ?m3) = kv_cfg (km_kv m)" using cl(3) by (simp add: update_cells_def)
    show "kv_width (km_kv ?m3) = kv_width (km_kv m)" using m2(2) by (simp add: kv_width_def)
    show "cell_at (kv_v_cells (km_kv ?m3) ! s) j = (if j < length ?is then cell_at c0 (?is ! j) else None)" for j
      using at s1(1) by simp
    show "cell_at (kv_v_cells (km_kv ?m3) ! t) j = None" if "t < kv_n_stream (km_kv m0)" "t \<noteq> s" for t j
      using that cl(5)[of t j] n by (simp add: update_cells_def)
  qed
qed

lemma saved_count: "length (saved_cells c seq_id) \<le> cells_size c"
  by (metis diff_zero length_filter_le length_upt saved_cells_def)

lemma read_stream_whole:
  assumes m0: "mem_ok m0" "saveable (kv_n_seq_max (km_kv m)) m0" and m: "mem_ok m" "kv_n_seq_max (km_kv m) \<le> LLAMA_MAX_SEQ"
    and like: "mem_like m0 m" and s: "s < kv_n_stream (km_kv m0)"
    and fits: "length (stored m0 s) \<le> kv_width (km_kv m)" and ne: "stored m0 s \<noteq> []"
  obtains m' where "read_stream eof (- 1) s (m, enc_stream m0 (- 1) s @ rest) = (Inr (), m', rest)"
    "mem_ok m'" "mem_like m0 m'" "kv_cfg (km_kv m') = kv_cfg (km_kv m)" "kv_width (km_kv m') = kv_width (km_kv m)"
    "stored m' s = stored m0 s" "\<And>t. t < kv_n_stream (km_kv m0) \<Longrightarrow> t \<noteq> s \<Longrightarrow> stored m' t = []"
proof -
  let ?c0 = "kv_v_cells (km_kv m0) ! s"
  let ?is = "saved_cells ?c0 (- 1)"
  have inv0: "kv_inv (km_kv m0)" using m0 by (simp add: mem_ok_def)
  have w0: "cells_size ?c0 = kv_width (km_kv m0)" using kv_invD(8)[OF inv0 s] .
  have cs: "?is \<noteq> []" "length ?is \<le> kv_width (km_kv m)" "\<forall>i \<in> set ?is. i < kv_width (km_kv m0)"
    using ne fits w0 by (auto simp: stored_def saved_cells_def Let_def)
  obtain m1 where m1: "state_read_meta eof s (length ?is) (- 1) (m, concat (map (enc_cell (km_kv m0) ?c0 (- 1)) ?is) @ enc_data m0 s ?is @ rest) =
      (Inr (Some (whole_slot s (length ?is))), m1, enc_data m0 s ?is @ rest)"
    "mem_ok m1" "mem_like m0 m1" "kv_cfg (km_kv m1) = kv_cfg (km_kv m)" "kv_width (km_kv m1) = kv_width (km_kv m)"
    "\<And>j. cell_at (kv_v_cells (km_kv m1) ! s) j = (if j < length ?is then cell_at ?c0 (?is ! j) else None)"
    "\<And>t j. t < kv_n_stream (km_kv m0) \<Longrightarrow> t \<noteq> s \<Longrightarrow> cell_at (kv_v_cells (km_kv m1) ! t) j = None"
    by (rule read_meta_whole[OF m0 m like s cs(2), of eof "enc_data m0 s ?is @ rest"]) (rule that; (assumption | blast))
  have inv1: "kv_inv (km_kv m1)" "s < kv_n_stream (km_kv m1)" using m1(2,3) s by (auto simp: mem_ok_def mem_like_def)
  have sf: "slot_for (kv_width (km_kv m0)) (kv_width (km_kv m1)) ?is (whole_slot s (length ?is)) [0..<length ?is]"
    using whole_slot_for[of ?is "kv_width (km_kv m1)"] cs m1(5) by simp
  obtain m2 where m2: "state_read_data eof s (length [0..<length ?is]) (whole_slot s (length ?is)) (m1, enc_data m0 s ?is @ rest) = (Inr True, m2, rest)"
    "mem_ok m2" "mem_like m0 m2" "km_kv m2 = km_kv m1" "\<And>q. q < length [0..<length ?is] \<Longrightarrow> cell_rows m2 s ([0..<length ?is] ! q) = cell_rows m0 s (?is ! q)"
    by (rule read_data_enc[OF m0(1) m1(2) m1(3) s sf, of eof rest]) (rule that; (assumption | blast))
  have at: "cell_at (kv_v_cells (km_kv m2) ! s) j = (if j < length ?is then cell_at ?c0 (?is ! j) else None)" for j using m1(6)[of j] m2(4) by simp
  have used: "cell_at ?c0 (?is ! j) = Some (kc_pos ?c0 ! (?is ! j), kc_seq ?c0 ! (?is ! j))" if "j < length ?is" for j
  proof -
    have "?is ! j \<in> set ?is" using that by simp
    then show ?thesis by (auto simp: saved_cells_all cell_at_def split: if_splits)
  qed
  have sz: "cells_size (kv_v_cells (km_kv m2) ! s) = kv_width (km_kv m)" using kv_invD(8)[OF inv1] m2(4) m1(5) by simp
  have sc: "saved_cells (kv_v_cells (km_kv m2) ! s) (- 1) = [0..<length ?is]"
    by (rule saved_cells_prefix[OF sz cs(2)]) (use at used in auto)
  have "stored m2 s = stored m0 s"
  proof (rule nth_equalityI)
    fix j assume "j < length (stored m2 s)"
    then have j: "j < length ?is" by (simp add: stored_def sc Let_def)
    have "kc_pos (kv_v_cells (km_kv m2) ! s) ! j = kc_pos ?c0 ! (?is ! j)" "kc_seq (kv_v_cells (km_kv m2) ! s) ! j = kc_seq ?c0 ! (?is ! j)"
      using at[of j] used[OF j] j by (auto simp: cell_at_def split: if_splits)
    then show "stored m2 s ! j = stored m0 s ! j" using m2(5)[of j] j by (simp add: stored_def sc Let_def)
  qed (simp add: stored_def sc Let_def)
  moreover have "stored m2 t = []" if "t < kv_n_stream (km_kv m0)" "t \<noteq> s" for t using m1(7)[OF that] m2(4) by (auto intro: stored_empty)
  moreover have "read_stream eof (- 1) s (m, enc_stream m0 (- 1) s @ rest) = (Inr (), m2, rest)"
  proof -
    have "length ?is < 256 ^ 4" using saved_count[of ?c0 "- 1"] w0 m0(1) by (simp add: mem_ok_def)
    then show ?thesis using cs(1) m1(1) m2(1)
      by (simp add: read_stream_def enc_stream_def Let_def read_uint_enc del: le_bytes.simps)
  qed
  ultimately show thesis using that[of m2] m2(2-4) m1(4,5) by simp
qed

text \<open>All streams. Each stream that is not empty clears what was restored before it.\<close>

lemma read_streams_whole:
  assumes m0: "mem_ok m0" "saveable (kv_n_seq_max (km_kv m)) m0" and m: "mem_ok m" "kv_n_seq_max (km_kv m) \<le> LLAMA_MAX_SEQ"
    and like: "mem_like m0 m" and ss: "set ss \<subseteq> {..<kv_n_stream (km_kv m0)}" "\<forall>s \<in> set ss. length (stored m0 s) \<le> kv_width (km_kv m)"
  shows "\<exists>m'. read_streams eof (- 1) ss (m, concat (map (enc_stream m0 (- 1)) ss) @ rest) = (Inr (), m', rest) \<and> mem_ok m' \<and> mem_like m0 m' \<and>
    (let used = filter (\<lambda>s. stored m0 s \<noteq> []) ss in
     if used = [] then m' = m
     else \<forall>t < kv_n_stream (km_kv m0). stored m' t = (if t = last used then stored m0 t else []))"
  using m0(2) m like ss
proof (induction ss arbitrary: m)
  case Nil
  then show ?case by simp
next
  case (Cons s ss)
  show ?case
  proof (cases "stored m0 s = []")
    case True
    then have "read_stream eof (- 1) s (m, enc_stream m0 (- 1) s @ r) = (Inr (), m, r)" for r
      by (simp add: read_stream_def enc_stream_def stored_def Let_def read_uint_enc del: le_bytes.simps)
    then show ?thesis using Cons.IH[OF Cons.prems(1-4)] Cons.prems(5,6) True by simp
  next
    case False
    obtain m1 where m1: "read_stream eof (- 1) s (m, enc_stream m0 (- 1) s @ concat (map (enc_stream m0 (- 1)) ss) @ rest) = (Inr (), m1, concat (map (enc_stream m0 (- 1)) ss) @ rest)"
      "mem_ok m1" "mem_like m0 m1" "kv_cfg (km_kv m1) = kv_cfg (km_kv m)" "kv_width (km_kv m1) = kv_width (km_kv m)"
      "stored m1 s = stored m0 s" "\<And>t. t < kv_n_stream (km_kv m0) \<Longrightarrow> t \<noteq> s \<Longrightarrow> stored m1 t = []"
      by (rule read_stream_whole[OF m0(1) Cons.prems(1-4) _ _ False, of eof "concat (map (enc_stream m0 (- 1)) ss) @ rest"])
        (use Cons.prems(5,6) in \<open>auto\<close>)
    have n: "kv_n_seq_max (km_kv m1) = kv_n_seq_max (km_kv m)" using m1(4) by (auto simp: kv_cfg_def dest: arg_cong[where f = kv_n_seq_max])
    obtain m2 where m2: "read_streams eof (- 1) ss (m1, concat (map (enc_stream m0 (- 1)) ss) @ rest) = (Inr (), m2, rest)" "mem_ok m2" "mem_like m0 m2"
      "let used = filter (\<lambda>s. stored m0 s \<noteq> []) ss in if used = [] then m2 = m1
       else \<forall>t < kv_n_stream (km_kv m0). stored m2 t = (if t = last used then stored m0 t else [])"
      using Cons.IH[of m1] m1(2,3,5) n Cons.prems by auto
    show ?thesis
    proof (intro exI conjI)
      show "read_streams eof (- 1) (s # ss) (m, concat (map (enc_stream m0 (- 1)) (s # ss)) @ rest) = (Inr (), m2, rest)"
        using m1(1) m2(1) by simp
      show "let used = filter (\<lambda>s. stored m0 s \<noteq> []) (s # ss) in if used = [] then m2 = m
         else \<forall>t < kv_n_stream (km_kv m0). stored m2 t = (if t = last used then stored m0 t else [])"
        using m2(4) m1(6,7) False by (auto simp: Let_def split: if_splits)
    qed (use m2 in auto)
  qed
qed

lemma state_roundtrip_aux:
  assumes m0: "mem_ok m0" "saveable (kv_n_seq_max (km_kv m)) m0" and m: "mem_ok m" "kv_n_seq_max (km_kv m) \<le> LLAMA_MAX_SEQ"
    and like: "mem_like m0 m" and fits: "\<forall>s < kv_n_stream (km_kv m0). length (stored m0 s) \<le> kv_width (km_kv m)"
  shows "\<exists>m'. state_read eof (- 1) (m, enc_state m0 (- 1) @ rest) = (Inr (), m', rest) \<and> mem_ok m' \<and>
    (let used = filter (\<lambda>s. stored m0 s \<noteq> []) [0..<kv_n_stream (km_kv m0)] in
     if used = [] then m' = m
     else \<forall>t < kv_n_stream (km_kv m0). stored m' t = (if t = last used then stored m0 t else []))"
proof -
  have n: "kv_n_stream (km_kv m) = kv_n_stream (km_kv m0)" "kv_n_stream (km_kv m0) < 256 ^ 4" using like m0(1) by (auto simp: mem_like_def mem_ok_def)
  have eq: "state_read eof (- 1) (m, enc_state m0 (- 1) @ rest) =
      read_streams eof (- 1) [0..<kv_n_stream (km_kv m0)] (m, concat (map (enc_stream m0 (- 1)) [0..<kv_n_stream (km_kv m0)]) @ rest)"
    using n by (simp add: state_read_def enc_state_def read_uint_enc del: le_bytes.simps)
  have ss: "set [0..<kv_n_stream (km_kv m0)] \<subseteq> {..<kv_n_stream (km_kv m0)}" "\<forall>s \<in> set [0..<kv_n_stream (km_kv m0)]. length (stored m0 s) \<le> kv_width (km_kv m)"
    using fits by auto
  show ?thesis unfolding eq using read_streams_whole[OF m0 m like ss, of eof rest] by blast
qed


section \<open>A small cache with tensors\<close>

text \<open>Four cells, one layer with keys and transposed values of one float each.\<close>

definition ex_layer :: "8 word \<Rightarrow> kv_layer" where
  "ex_layer b = \<lparr>kl_n_embd_k = 1, kl_n_embd_v = 1, kl_k_stream = [\<lparr>kt_type = 0, kt_data = replicate 16 b\<rparr>],
    kl_v_stream = [Some \<lparr>kt_type = 0, kt_data = replicate 16 b\<rparr>]\<rparr>"

definition ex_mem :: "8 word \<Rightarrow> kv_mem" where
  "ex_mem b = \<lparr>km_kv = ex_kv True, km_v_trans = True, km_layers = [ex_layer b]\<rparr>"

lemma ex_mem_ok: "mem_ok (ex_mem b)" "mem_like (ex_mem a) (ex_mem b)"
  by (simp_all add: ex_mem_def ex_layer_def mem_ok_def mem_like_def layer_ok_def layer_like_def k_ok_def v_ok_def ggml_row_size_def
    ggml_type_size_def ggml_blck_size_def type_traits_def u64_def)

lemma ex_cell_at: "cell_at ex_cells i = (if i = 0 then Some (0, {0}) else if i = 1 then Some (1, {0}) else None)"
  by (cases "i < 4") (auto simp: cell_at_def ex_cells_fields numeral_eq_Suc less_Suc_eq)

lemma ex_n_seq_max [simp]: "kv_n_seq_max (ex_kv u) = 2"
  by (simp add: ex_kv_def kv_new_def)

lemma ex_saved: "saved_cells ex_cells (- 1) = [0, 1]" "saved_cells ex_cells 0 = [0, 1]" "saved_cells ex_cells 1 = []"
  by (simp_all add: saved_cells_def saves_cell_def cells_is_empty_def cells_seq_has_def ex_cells_fields upt_rec)


end
