(* ===== verification/Kv_Restore_Seq.thy ===== *)
theory Kv_Restore_Seq
  imports Kv_Restore "HOL-Library.Multiset"
begin

text \<open>
  Restoring one sequence into a cache that may hold others (\<^verbatim>\<open>state_read_meta\<close> with a sequence id), in a cache with one stream and
  without a window: the sequence is removed, cells are searched as for a batch, and the rows are scattered over them. And what is
  left of the cache where a restore is refused.
\<close>

section \<open>What a sequence holds\<close>

text \<open>The positions of a sequence with the rows of their cells, regardless of the order of the cells.\<close>

definition seq_stored :: "kv_mem \<Rightarrow> nat \<Rightarrow> (int \<times> (bytes \<times> bytes) list) multiset" where
  "seq_stored m s =
    (let c = kv_v_cells (km_kv m) ! 0 in mset (map (\<lambda>i. (kc_pos c ! i, cell_rows m 0 i)) (saved_cells c (int s))))"

lemma saved_cells_seq:
  "set (saved_cells c (int s)) = {i. \<exists>p S. cell_at c i = Some (p, S) \<and> s \<in> S}" "distinct (saved_cells c (int s))"
  by (auto simp: saved_cells_def saves_cell_def cells_is_empty_def cells_seq_has_def cell_at_def split: if_splits)

text \<open>A list of the cells of a sequence in any order gives what it holds.\<close>

lemma seq_stored_eq:
  assumes "distinct is" "set is = set (saved_cells (kv_v_cells (km_kv m) ! 0) (int s))"
  shows "seq_stored m s = mset (map (\<lambda>i. (kc_pos (kv_v_cells (km_kv m) ! 0) ! i, cell_rows m 0 i)) is)"
proof -
  have "mset is = mset (saved_cells (kv_v_cells (km_kv m) ! 0) (int s))"
    using assms saved_cells_seq(2) set_eq_iff_mset_eq_distinct by blast
  then show ?thesis by (simp add: seq_stored_def Let_def)
qed

lemma cell_at_pos: "cell_at c i = Some (p, S) \<Longrightarrow> kc_pos c ! i = p \<and> kc_seq c ! i = S \<and> i < cells_size c"
  by (auto simp: cell_at_def split: if_splits)

section \<open>Making room\<close>

lemma mem_seq_rm_cells:
  assumes "mem_ok m" "kv_n_stream (km_kv m) = 1" "kv_seq_ok (km_kv m) (int dest)"
  obtains kv1 where "mem_seq_rm (int dest) (- 1) (- 1) m = Inr (m\<lparr>km_kv := kv1\<rparr>)" "kv_kept (km_kv m) kv1"
    "\<And>j. cell_at (kv_v_cells kv1 ! 0) j = seq_rm_cell dest 0 INT32_MAX (cell_at (kv_v_cells (km_kv m) ! 0) j)"
proof -
  let ?kv = "km_kv m" and ?c = "kv_v_cells (km_kv m) ! 0"
  let ?kv1 = "kv_sweep_stream (seq_rm_body dest 0 INT32_MAX) 0 (km_kv m)"
  have inv: "kv_inv ?kv" using assms(1) by (simp add: mem_ok_def)
  have st: "kv_seq_to_stream ?kv ! dest = 0" using kv_invD(5)[OF inv, of dest] assms(2,3) by (simp add: kv_seq_ok_def kv_stream_def)
  have rm: "kv_seq_rm (int dest) (- 1) (- 1) ?kv = Inr (?kv1, True)" using assms(3) st by (simp add: kv_seq_rm_def norm_p0_def norm_p1_def)
  have c: "cells_inv ?c" "0 < kv_n_stream ?kv" using kv_invD(6)[OF inv] assms(2) by auto
  have at: "cell_at (fst (sweep (seq_rm_body dest 0 INT32_MAX) ?c)) j = seq_rm_cell dest 0 INT32_MAX (cell_at ?c j)" for j
  proof (cases "j < cells_size ?c")
    case True
    then show ?thesis using seq_rm_loop.sweep_cell[OF TrueI c(1)] by simp
  next
    case False
    then have "cell_at ?c j = None" "cell_at (fst (sweep (seq_rm_body dest 0 INT32_MAX) ?c)) j = None"
      using seq_rm_loop.sweep_size[OF TrueI c(1)] by (auto simp: cell_at_def)
    then show ?thesis by simp
  qed
  show thesis
    by (rule that[of ?kv1]) (use rm at kv_invD(2)[OF inv] c(2) kv_seq_rm_kept[OF inv rm] in \<open>simp_all add: mem_seq_rm_def\<close>)
qed

lemma mem_ok_kept:
  assumes "mem_ok m" "kv_kept (km_kv m) kv1"
  shows "mem_ok (m\<lparr>km_kv := kv1\<rparr>)" "mem_like m0 m \<Longrightarrow> mem_like m0 (m\<lparr>km_kv := kv1\<rparr>)"
  using assms kv_keptD[OF assms(2)] by (simp_all add: mem_ok_def mem_like_def)

section \<open>Reading the cells of a sequence\<close>

lemma read_seq_cells_enc:
  assumes "\<forall>p \<in> set qs. - (2 ^ 31) \<le> p \<and> p < 2 ^ 31" "s < 2 ^ 31"
  shows "read_seq_cells eof (length qs) ps (m, concat (map (\<lambda>p. enc_entry (p, [s])) qs) @ rest) = (Inr (Some (ps @ qs)), m, rest)"
  using assms(1)
proof (induction qs arbitrary: ps)
  case (Cons p qs)
  have "read_seq_cells eof (length qs) (ps @ [p]) (m, concat (map (\<lambda>p. enc_entry (p, [s])) qs) @ rest) = (Inr (Some ((ps @ [p]) @ qs)), m, rest)"
    using Cons by simp
  then show ?case using Cons.prems assms(2) by (simp add: enc_entry_def read_type_enc read_uint_enc read_small_int del: le_bytes.simps)
qed simp

lemma place_restored_correct:
  assumes m: "mem_ok m" "kv_n_stream (km_kv m) = 1" "kv_swa_type (km_kv m) = SWA_NONE" "kv_n_pos_per_embd (km_kv m) < 3"
    and dest: "kv_seq_ok (km_kv m) (int dest)" and ps: "ps \<noteq> []" "\<forall>p \<in> set ps. 0 \<le> p" and free: "length ps \<le> card (kv_free (km_kv m))"
  obtains si idxs kv1 where "place_restored 0 dest ps (m, rest) = (Inr (Some si), m\<lparr>km_kv := kv1\<rparr>, rest)" "kv_kept (km_kv m) kv1"
    "si_idxs si = [idxs]" "length idxs = length ps" "distinct idxs" "set idxs \<subseteq> kv_free (km_kv m)"
    "\<And>i. i < length ps \<Longrightarrow> cell_at (kv_v_cells kv1 ! 0) (idxs ! i) = Some (ps ! i, {dest})"
    "\<And>j. j \<notin> set idxs \<Longrightarrow> cell_at (kv_v_cells kv1 ! 0) j = cell_at (kv_v_cells (km_kv m) ! 0) j"
proof -
  let ?kv = "km_kv m" and ?n = "length ps"
  have inv: "kv_inv ?kv" using m(1) by (simp add: mem_ok_def)
  have d: "dest < length (kv_seq_to_stream ?kv)" "dest < LLAMA_MAX_SEQ" using dest kv_invD(4)[OF inv] by (auto simp: kv_seq_ok_def)
  obtain ub where ub: "restore_ubatch ?kv dest ps = Inr ub" "ub_n_tokens ub = ?n" "ub_pos ub = ps" "ub_seq_id ub = replicate ?n [dest]"
    "ub_seq_id_unq ub = [dest]" "\<not> ub_is_pos_2d ub"
    using m(4) by (simp add: restore_ubatch_def ubatch_reserve_def Let_def LLAMA_MAX_SEQ_def ub_is_pos_2d_def al_new_def)
  have ok: "ub_ok ub" using ub(2-4) ps(2) d(2) by (auto simp: ub_ok_def)
  have good: "ub_good ?kv ub" using ok ub(2,5) ps(1) d(1) by (simp add: ub_good_def)
  obtain si idxs where si: "find_slot ub False ?kv = Inr (Some si)" "plain_slot ub ?kv si idxs"
    using find_slot_plain[OF inv m(2,3) good] free ub(2) by auto
  obtain kv1 where kv1: "apply_ubatch si ub ?kv = Inr kv1" "kv_kept ?kv kv1"
    "\<And>i. i < length idxs \<Longrightarrow> cell_at (kv_v_cells kv1 ! 0) (idxs ! i) = Some (ub_pos ub ! i, set (ub_seq_id ub ! i))"
    "\<And>j. j \<notin> set idxs \<Longrightarrow> cell_at (kv_v_cells kv1 ! 0) j = cell_at (kv_v_cells ?kv ! 0) j"
    by (rule apply_ubatch_plain[OF inv ok si(2)]) (rule that; (assumption | blast))
  have S: "si_strm si = [0]" "si_idxs si = [idxs]" "length idxs = ?n" "distinct idxs" "set idxs \<subseteq> kv_free ?kv"
    using si(2) ub(2) by (auto simp: plain_slot_free)
  have at: "cell_at (kv_v_cells kv1 ! 0) (idxs ! i) = Some (ps ! i, {dest})" if "i < ?n" for i using kv1(3)[of i] that ub(3,4) S(3) by simp
  have chk: "list_all (\<lambda>i. cells_pos_get (kv_v_cells kv1 ! 0) (si_idxs si ! 0 ! i) = ps ! i \<and> cells_seq_has (kv_v_cells kv1 ! 0) (si_idxs si ! 0 ! i) dest) [0..<?n]"
    using cell_at_pos[OF at] S(2) by (auto simp: list_all_iff cells_pos_get_def cells_seq_has_def)
  have "place_restored 0 dest ps (m, rest) = (Inr (Some si), m\<lparr>km_kv := kv1\<rparr>, rest)"
    using ub(1,6) si(1) kv1(1) S(1-3) chk by (simp add: place_restored_def si_n_stream_def Let_def)
  then show thesis using that S(2-5) kv1(2,4) at by blast
qed

section \<open>Restoring a sequence\<close>

lemma seq_ids_single:
  assumes "s < kv_n_seq_max kv" "s \<in> kc_seq c ! i"
  shows "cell_seq_ids kv c (int s) i = [s]"
proof -
  have "cell_seq_ids kv c (int s) i = filter (\<lambda>cur. cur = s) [0..<kv_n_seq_max kv]"
    unfolding cell_seq_ids_def using assms(2) by (intro filter_cong) (auto simp: cells_seq_has_def)
  also have "[0..<kv_n_seq_max kv] = [0..<s] @ s # [Suc s..<kv_n_seq_max kv]"
    using assms(1) by (metis le_add_diff_inverse le0 less_imp_le_nat upt_add_eq_append upt_conv_Cons)
  finally show ?thesis by simp
qed

text \<open>The cells that can be used once the sequence is removed: empty ones and those of this sequence alone.\<close>

definition room_for :: "kv_mem \<Rightarrow> nat \<Rightarrow> nat" where
  "room_for m dest = card {i. i < kv_width (km_kv m) \<and> (\<forall>p S. cell_at (kv_v_cells (km_kv m) ! 0) i = Some (p, S) \<longrightarrow> S = {dest})}"

definition below_max :: "kv_mem \<Rightarrow> nat \<Rightarrow> bool" where
  "below_max m s \<longleftrightarrow> (\<forall>p \<in> seq_positions (kv_v_cells (km_kv m) ! 0) s. p < INT32_MAX)"

lemma seq_rm_cell_below:
  assumes "cells_inv c" "\<forall>p \<in> seq_positions c s. p < INT32_MAX" "cell_at c i = Some (p, S)"
  shows "seq_rm_cell s 0 INT32_MAX (cell_at c i) = (if S = {s} then None else Some (p, S - {s}))"
proof -
  have "p \<noteq> - 1" "- 1 \<le> p" using assms(1,3) by (auto simp: cell_at_def cells_inv_def split: if_splits)
  moreover have "p < INT32_MAX" if "s \<in> S" using assms(2,3) that by (auto simp: seq_positions_def)
  ultimately show ?thesis using assms(3) by (auto simp: in_range_def)
qed

lemma read_stream_seq:
  assumes m0: "mem_ok m0" "kv_n_stream (km_kv m0) = 1" "s < kv_n_seq_max (km_kv m0)" "s < LLAMA_MAX_SEQ" "below_max m0 s"
    and m: "mem_ok m" "kv_swa_type (km_kv m) = SWA_NONE" "kv_n_pos_per_embd (km_kv m) < 3" "below_max m dest"
    and like: "mem_like m0 m" and dest: "kv_seq_ok (km_kv m) (int dest)"
  defines "is \<equiv> saved_cells (kv_v_cells (km_kv m0) ! 0) (int s)"
  assumes ne: "is \<noteq> []" and room: "length is \<le> room_for m dest"
  obtains m' idxs where "read_stream eof (int dest) 0 (m, enc_stream m0 (int s) 0 @ rest) = (Inr (), m', rest)" "mem_ok m'"
    "length idxs = length is" "distinct idxs"
    "\<And>q. q < length is \<Longrightarrow> cell_at (kv_v_cells (km_kv m') ! 0) (idxs ! q) = Some (kc_pos (kv_v_cells (km_kv m0) ! 0) ! (is ! q), {dest})"
    "\<And>q. q < length is \<Longrightarrow> cell_rows m' 0 (idxs ! q) = cell_rows m0 0 (is ! q)"
    "\<And>j. j \<notin> set idxs \<Longrightarrow> cell_at (kv_v_cells (km_kv m') ! 0) j = seq_rm_cell dest 0 INT32_MAX (cell_at (kv_v_cells (km_kv m) ! 0) j)"
    "\<And>j. j \<in> set idxs \<Longrightarrow> seq_rm_cell dest 0 INT32_MAX (cell_at (kv_v_cells (km_kv m) ! 0) j) = None"
    "\<And>j. j < kv_width (km_kv m) \<Longrightarrow> j \<notin> set idxs \<Longrightarrow> cell_rows m' 0 j = cell_rows m 0 j"
proof -
  let ?src = "kv_v_cells (km_kv m0) ! 0" and ?c = "kv_v_cells (km_kv m) ! 0"
  let ?qs = "map (\<lambda>i. kc_pos ?src ! i) is"
  have inv0: "kv_inv (km_kv m0)" and inv: "kv_inv (km_kv m)" using m0(1) m(1) by (simp_all add: mem_ok_def)
  have n: "kv_n_stream (km_kv m) = 1" using like m0(2) by (simp add: mem_like_def)
  have c0: "cells_inv ?src" "cells_size ?src = kv_width (km_kv m0)" and c: "cells_inv ?c" "cells_size ?c = kv_width (km_kv m)"
    using kv_invD(6,8)[OF inv0, of 0] kv_invD(6,8)[OF inv, of 0] m0(2) n by simp_all
  have used: "\<exists>S. cell_at ?src i = Some (kc_pos ?src ! i, S) \<and> s \<in> S \<and> S = kc_seq ?src ! i" if "i \<in> set is" for i
    using that saved_cells_seq(1)[of ?src s] by (auto simp: is_def dest: cell_at_pos)
  have pos: "0 \<le> p \<and> p < INT32_MAX" if "p \<in> set ?qs" for p
  proof -
    obtain i S where i: "p = kc_pos ?src ! i" "cell_at ?src i = Some (p, S)" "s \<in> S" using \<open>p \<in> set ?qs\<close> used by fastforce
    then have "p \<noteq> - 1" "- 1 \<le> p" using c0(1) by (auto simp: cell_at_def cells_inv_def split: if_splits)
    moreover have "p < INT32_MAX" using m0(5) i(2,3) by (auto simp: below_max_def seq_positions_def)
    ultimately show ?thesis by simp
  qed
  have enc: "map (enc_cell (km_kv m0) ?src (int s)) is = map (\<lambda>p. enc_entry (p, [s])) ?qs"
    using used seq_ids_single[OF m0(3), of ?src] by (auto simp: enc_cell_entry saved_entry_def cells_pos_get_def)
  obtain kv1 where kv1: "mem_seq_rm (int dest) (- 1) (- 1) m = Inr (m\<lparr>km_kv := kv1\<rparr>)" "kv_kept (km_kv m) kv1"
    "\<And>j. cell_at (kv_v_cells kv1 ! 0) j = seq_rm_cell dest 0 INT32_MAX (cell_at ?c j)"
    by (rule mem_seq_rm_cells[OF m(1) n dest]) (rule that; (assumption | blast))
  let ?m1 = "m\<lparr>km_kv := kv1\<rparr>"
  note K = kv_keptD[OF kv1(2)]
  have npos: "kv_n_pos_per_embd kv1 = kv_n_pos_per_embd (km_kv m)" using K(2) by (auto simp: kv_cfg_def dest: arg_cong[where f = kv_n_pos_per_embd])
  have sz1: "cells_size (kv_v_cells kv1 ! 0) = kv_width (km_kv m)" using kv_invD(8)[OF K(1), of 0] K(3,4) n by simp
  have free: "kv_free kv1 = {i. i < kv_width (km_kv m) \<and> (\<forall>p S. cell_at ?c i = Some (p, S) \<longrightarrow> S = {dest})}"
  proof -
    have "cell_at (kv_v_cells kv1 ! 0) i = None \<longleftrightarrow> (\<forall>p S. cell_at ?c i = Some (p, S) \<longrightarrow> S = {dest})" for i
    proof (cases "cell_at ?c i")
      case None
      then show ?thesis using kv1(3)[of i] by simp
    next
      case (Some x)
      then show ?thesis using kv1(3)[of i] seq_rm_cell_below[OF c(1) m(4)[unfolded below_max_def], of i] by (cases x) auto
    qed
    then show ?thesis by (simp add: kv_free_def sz1)
  qed
  have m1: "mem_ok ?m1" "mem_like m0 ?m1" using mem_ok_kept[OF m(1) kv1(2)] like by auto
  obtain si idxs kv2 where P: "place_restored 0 dest ?qs (?m1, enc_data m0 0 is @ rest) = (Inr (Some si), ?m1\<lparr>km_kv := kv2\<rparr>, enc_data m0 0 is @ rest)"
    "kv_kept kv1 kv2" "si_idxs si = [idxs]" "length idxs = length ?qs" "distinct idxs" "set idxs \<subseteq> kv_free kv1"
    "\<And>i. i < length ?qs \<Longrightarrow> cell_at (kv_v_cells kv2 ! 0) (idxs ! i) = Some (?qs ! i, {dest})"
    "\<And>j. j \<notin> set idxs \<Longrightarrow> cell_at (kv_v_cells kv2 ! 0) j = cell_at (kv_v_cells kv1 ! 0) j"
  proof (rule place_restored_correct[of ?m1 dest ?qs "enc_data m0 0 is @ rest"])
    show "length ?qs \<le> card (kv_free (km_kv ?m1))" using room by (simp add: free room_for_def)
  qed (use m1(1) K n m(2,3) npos dest ne pos in \<open>auto simp: kv_seq_ok_def\<close>)
  let ?m2 = "m\<lparr>km_kv := kv2\<rparr>"
  have m2: "mem_ok ?m2" "mem_like m0 ?m2" "kv_width kv2 = kv_width (km_kv m)"
    using mem_ok_kept[OF m1(1), of kv2] m1(2) P(2) kv_keptD(3)[OF P(2)] K(3) by auto
  have "\<forall>i \<in> set is. i < kv_width (km_kv m0)" using c0(2) by (auto simp: is_def saved_cells_def)
  then have sf: "slot_for (kv_width (km_kv m0)) (kv_width (km_kv ?m2)) is si idxs"
    using P(3-6) ne m2(3) free by (auto simp: slot_for_def)
  have zero: "0 < kv_n_stream (km_kv m0)" using m0(2) by simp
  obtain m3 where m3: "state_read_data eof 0 (length idxs) si (?m2, enc_data m0 0 is @ rest) = (Inr True, m3, rest)" "mem_ok m3" "km_kv m3 = km_kv ?m2"
    "\<And>q. q < length idxs \<Longrightarrow> cell_rows m3 0 (idxs ! q) = cell_rows m0 0 (is ! q)"
    "\<And>i. i < kv_width (km_kv ?m2) \<Longrightarrow> i \<notin> set idxs \<Longrightarrow> cell_rows m3 0 i = cell_rows ?m2 0 i"
    by (rule read_data_enc[OF m0(1) m2(1,2) zero sf, of eof rest]) (rule that; (assumption | blast))
  have rows: "cell_rows ?m2 0 i = cell_rows m 0 i" for i using m2(3) by (simp add: cell_rows_def)
  have meta: "state_read_meta eof 0 (length is) (int dest) (m, concat (map (enc_cell (km_kv m0) ?src (int s)) is) @ enc_data m0 0 is @ rest) =
      (Inr (Some si), ?m2, enc_data m0 0 is @ rest)"
  proof -
    have "\<forall>p \<in> set ?qs. - (2 ^ 31) \<le> p \<and> p < 2 ^ 31" using pos by (fastforce simp: INT32_MAX_def)
    from read_seq_cells_enc[OF this, of s eof "[]" ?m1 "enc_data m0 0 is @ rest"] show ?thesis
      using kv1(1) P(1) m0(4) by (simp add: enc state_read_meta_def LLAMA_MAX_SEQ_def)
  qed
  have st: "kv_seq_to_stream (km_kv m) ! dest = 0" using kv_invD(5)[OF inv, of dest] n dest by (simp add: kv_seq_ok_def kv_stream_def)
  have "length is < 256 ^ 4" using saved_count[of ?src "int s"] c0(2) m0(1) by (simp add: is_def mem_ok_def)
  then have rd: "read_stream eof (int dest) 0 (m, enc_stream m0 (int s) 0 @ rest) = (Inr (), m3, rest)"
    using ne meta m3(1) st P(4) by (simp add: read_stream_def enc_stream_def Let_def read_uint_enc is_def[symmetric] del: le_bytes.simps)
  show thesis
  proof (rule that[OF rd m3(2)])
    show "seq_rm_cell dest 0 INT32_MAX (cell_at ?c j) = None" if "j \<in> set idxs" for j using P(6) that kv1(3)[of j] by (auto simp: kv_free_def)
  qed (use P(4,5,7,8) m3(3-5) kv1(3) rows m2(3) in auto)
qed

lemma seq_rm_cell_cases:
  assumes "cells_inv c" "\<forall>p \<in> seq_positions c s. p < INT32_MAX"
  shows "(\<exists>S. seq_rm_cell s 0 INT32_MAX (cell_at c i) = Some (p, S) \<and> t \<in> S) \<longleftrightarrow> (\<exists>S. cell_at c i = Some (p, S) \<and> t \<in> S \<and> t \<noteq> s)"
proof (cases "cell_at c i")
  case (Some x)
  then show ?thesis using seq_rm_cell_below[OF assms, of i] by (cases x) auto
qed simp

lemma seq_restored_stored:
  assumes m: "mem_ok m" "kv_n_stream (km_kv m) = 1" "below_max m dest" and idxs: "length idxs = length is" "distinct idxs"
    and isd: "is = saved_cells (kv_v_cells (km_kv m0) ! 0) (int s)"
    and put: "\<And>q. q < length is \<Longrightarrow> cell_at (kv_v_cells (km_kv m') ! 0) (idxs ! q) = Some (kc_pos (kv_v_cells (km_kv m0) ! 0) ! (is ! q), {dest})"
      "\<And>q. q < length is \<Longrightarrow> cell_rows m' 0 (idxs ! q) = cell_rows m0 0 (is ! q)"
    and kept: "\<And>j. j \<notin> set idxs \<Longrightarrow> cell_at (kv_v_cells (km_kv m') ! 0) j = seq_rm_cell dest 0 INT32_MAX (cell_at (kv_v_cells (km_kv m) ! 0) j)"
      "\<And>j. j \<in> set idxs \<Longrightarrow> seq_rm_cell dest 0 INT32_MAX (cell_at (kv_v_cells (km_kv m) ! 0) j) = None"
      "\<And>j. j < kv_width (km_kv m) \<Longrightarrow> j \<notin> set idxs \<Longrightarrow> cell_rows m' 0 j = cell_rows m 0 j"
  shows "seq_stored m' dest = seq_stored m0 s" "t \<noteq> dest \<Longrightarrow> seq_stored m' t = seq_stored m t"
proof -
  let ?src = "kv_v_cells (km_kv m0) ! 0" and ?c = "kv_v_cells (km_kv m) ! 0" and ?d = "kv_v_cells (km_kv m') ! 0"
  have c: "cells_inv ?c" "cells_size ?c = kv_width (km_kv m)" using m(1,2) by (simp_all add: mem_ok_def kv_invD(6,8))
  note rm = seq_rm_cell_cases[OF c(1) m(3)[unfolded below_max_def]]
  have in_idxs: "cell_at ?d j = Some (kc_pos ?d ! j, {dest})" if "j \<in> set idxs" for j
    using that put(1) idxs(1) by (metis cell_at_pos in_set_conv_nth)
  have "j \<in> set idxs \<longleftrightarrow> (\<exists>p S. cell_at ?d j = Some (p, S) \<and> dest \<in> S)" for j
    using in_idxs[of j] kept(1)[of j] rm[of j _ dest] by (cases "j \<in> set idxs") auto
  then have "set idxs = set (saved_cells ?d (int dest))" by (auto simp: saved_cells_seq(1))
  then have "seq_stored m' dest = mset (map (\<lambda>i. (kc_pos ?d ! i, cell_rows m' 0 i)) idxs)" by (rule seq_stored_eq[OF idxs(2)])
  moreover have "map (\<lambda>i. (kc_pos ?d ! i, cell_rows m' 0 i)) idxs = map (\<lambda>i. (kc_pos ?src ! i, cell_rows m0 0 i)) is"
    using idxs(1) put cell_at_pos[OF put(1)] by (intro nth_equalityI) auto
  ultimately show "seq_stored m' dest = seq_stored m0 s" by (simp add: seq_stored_def isd Let_def)
  show "seq_stored m' t = seq_stored m t" if t: "t \<noteq> dest"
  proof -
    have eq: "(\<exists>S. cell_at ?d j = Some (p, S) \<and> t \<in> S) \<longleftrightarrow> (\<exists>S. cell_at ?c j = Some (p, S) \<and> t \<in> S)" for j p
      using in_idxs[of j] kept(1,2)[of j] rm[of j p t] t by (cases "j \<in> set idxs") auto
    have same: "set (saved_cells ?d (int t)) = set (saved_cells ?c (int t))" unfolding saved_cells_seq(1) using eq by blast
    have val: "(kc_pos ?d ! j, cell_rows m' 0 j) = (kc_pos ?c ! j, cell_rows m 0 j)" if j: "j \<in> set (saved_cells ?c (int t))" for j
    proof -
      obtain p S where S: "cell_at ?c j = Some (p, S)" "t \<in> S" using j by (auto simp: saved_cells_seq(1))
      then obtain S' where S': "cell_at ?d j = Some (p, S')" "t \<in> S'" using eq[of j p] by blast
      then have "j \<notin> set idxs" using in_idxs[of j] t by auto
      then show ?thesis using cell_at_pos[OF S(1)] cell_at_pos[OF S'(1)] kept(3)[of j] c(2) by simp
    qed
    have "seq_stored m' t = mset (map (\<lambda>i. (kc_pos ?d ! i, cell_rows m' 0 i)) (saved_cells ?c (int t)))"
      by (rule seq_stored_eq[OF saved_cells_seq(2) same[symmetric]])
    also have "map (\<lambda>i. (kc_pos ?d ! i, cell_rows m' 0 i)) (saved_cells ?c (int t)) = map (\<lambda>i. (kc_pos ?c ! i, cell_rows m 0 i)) (saved_cells ?c (int t))"
      using val by simp
    finally show ?thesis by (simp add: seq_stored_def Let_def)
  qed
qed

lemma read_seq_state:
  assumes m0: "mem_ok m0" "kv_n_stream (km_kv m0) = 1" "s < kv_n_seq_max (km_kv m0)" "s < LLAMA_MAX_SEQ" "below_max m0 s"
    and m: "mem_ok m" "kv_swa_type (km_kv m) = SWA_NONE" "kv_n_pos_per_embd (km_kv m) < 3" "below_max m dest"
    and like: "mem_like m0 m" and dest: "kv_seq_ok (km_kv m) (int dest)" and room: "size (seq_stored m0 s) \<le> room_for m dest"
  shows "\<exists>m'. state_read eof (int dest) (m, enc_state m0 (int s) @ rest) = (Inr (), m', rest) \<and> mem_ok m' \<and>
    (if seq_stored m0 s = {#} then m' = m
     else seq_stored m' dest = seq_stored m0 s \<and> (\<forall>t. t \<noteq> dest \<longrightarrow> seq_stored m' t = seq_stored m t))"
proof -
  let ?is = "saved_cells (kv_v_cells (km_kv m0) ! 0) (int s)"
  have n: "kv_n_stream (km_kv m) = 1" using like m0(2) by (simp add: mem_like_def)
  have eq: "state_read eof (int dest) (m, enc_state m0 (int s) @ rest) = rbind (read_stream eof (int dest) 0) ret (m, enc_stream m0 (int s) 0 @ rest)"
    using m0(2) n dest by (simp add: state_read_def enc_state_def read_uint_enc ret_def[abs_def] del: le_bytes.simps)
  show ?thesis
  proof (cases "?is = []")
    case True
    then have "read_stream eof (int dest) 0 (m, enc_stream m0 (int s) 0 @ rest) = (Inr (), m, rest)"
      by (simp add: read_stream_def enc_stream_def Let_def read_uint_enc del: le_bytes.simps)
    then show ?thesis using True m(1) by (simp add: eq seq_stored_def)
  next
    case False
    have len: "length ?is \<le> room_for m dest" using room by (simp add: seq_stored_def Let_def)
    obtain m' idxs where R: "read_stream eof (int dest) 0 (m, enc_stream m0 (int s) 0 @ rest) = (Inr (), m', rest)" "mem_ok m'"
      "seq_stored m' dest = seq_stored m0 s" "\<And>t. t \<noteq> dest \<Longrightarrow> seq_stored m' t = seq_stored m t"
    proof (rule read_stream_seq[OF m0 m like dest False len, of eof rest])
      fix m' idxs
      assume a: "read_stream eof (int dest) 0 (m, enc_stream m0 (int s) 0 @ rest) = (Inr (), m', rest)" "mem_ok m'" "length idxs = length ?is" "distinct idxs"
        "\<And>q. q < length ?is \<Longrightarrow> cell_at (kv_v_cells (km_kv m') ! 0) (idxs ! q) = Some (kc_pos (kv_v_cells (km_kv m0) ! 0) ! (?is ! q), {dest})"
        "\<And>q. q < length ?is \<Longrightarrow> cell_rows m' 0 (idxs ! q) = cell_rows m0 0 (?is ! q)"
        "\<And>j. j \<notin> set idxs \<Longrightarrow> cell_at (kv_v_cells (km_kv m') ! 0) j = seq_rm_cell dest 0 INT32_MAX (cell_at (kv_v_cells (km_kv m) ! 0) j)"
        "\<And>j. j \<in> set idxs \<Longrightarrow> seq_rm_cell dest 0 INT32_MAX (cell_at (kv_v_cells (km_kv m) ! 0) j) = None"
        "\<And>j. j < kv_width (km_kv m) \<Longrightarrow> j \<notin> set idxs \<Longrightarrow> cell_rows m' 0 j = cell_rows m 0 j"
      from seq_restored_stored[OF m(1) n m(4) a(3,4) refl a(5-9)] that a(1,2) show thesis by blast
    qed
    have "seq_stored m0 s \<noteq> {#}" using False by (simp add: seq_stored_def Let_def)
    then show ?thesis using R by (simp add: eq)
  qed
qed


section \<open>A refused restore\<close>

text \<open>Readers that keep a property of the cache whatever they read, and do not throw the exception of a refused restore.\<close>

definition keeps :: "(kv_mem \<Rightarrow> bool) \<Rightarrow> (kv_mem, 'a) reader \<Rightarrow> bool" where
  "keeps P f \<longleftrightarrow> (\<forall>st r st'. P (fst st) \<longrightarrow> f st = (r, st') \<longrightarrow> P (fst st') \<and> r \<noteq> Inl restore_failed)"

named_theorems keeps_intros \<open>readers that keep a property\<close>

lemma keepsD: "keeps P f \<Longrightarrow> P (fst st) \<Longrightarrow> f st = (r, st') \<Longrightarrow> P (fst st') \<and> r \<noteq> Inl restore_failed"
  unfolding keeps_def by blast

lemma keeps_ret [keeps_intros]: "keeps P (ret x)"
  by (simp add: keeps_def)

lemma keeps_throw [keeps_intros]: "e \<noteq> restore_failed \<Longrightarrow> keeps P (throw e)"
  by (auto simp: keeps_def)

lemma keeps_rbind [keeps_intros]: "keeps P f \<Longrightarrow> (\<And>x. keeps P (g x)) \<Longrightarrow> keeps P (rbind f g)"
proof -
  assume f: "keeps P f" and g: "\<And>x. keeps P (g x)"
  show ?thesis unfolding keeps_def
  proof (intro allI impI)
    fix st r st' assume p: "P (fst st)" and run: "rbind f g st = (r, st')"
    obtain q st1 where q: "f st = (q, st1)" by (cases "f st")
    note k = keepsD[OF f p q]
    show "P (fst st') \<and> r \<noteq> Inl restore_failed"
    proof (cases q)
      case (Inl e)
      then have "r = Inl e" "st' = st1" using run q by simp_all
      then show ?thesis using k Inl by simp
    next
      case (Inr x)
      then have "g x st1 = (r, st')" using run q by simp
      then show ?thesis using keepsD[OF g] k by blast
    qed
  qed
qed

lemma keeps_with_st [keeps_intros]: "(\<And>m. keeps P (f m)) \<Longrightarrow> keeps P (with_st f)"
  unfolding keeps_def with_st_def by blast

lemma keeps_if [keeps_intros]: "keeps P f \<Longrightarrow> keeps P g \<Longrightarrow> keeps P (if b then f else g)"
  by simp

lemma keeps_update [keeps_intros]:
  "(\<And>m m'. P m \<Longrightarrow> f m = Inr m' \<Longrightarrow> P m') \<Longrightarrow> (\<And>m. f m \<noteq> Inl restore_failed) \<Longrightarrow> keeps P (update_st f)"
  unfolding keeps_def update_st_def by (fastforce split: sum.splits)

lemma keeps_io_read [keeps_intros]: "eof \<noteq> restore_failed \<Longrightarrow> keeps P (io_read eof n)"
  by (auto simp: keeps_def io_read_def)

lemma keeps_read_uint [keeps_intros]: "eof \<noteq> restore_failed \<Longrightarrow> keeps P (read_uint eof n)"
  unfolding read_uint_def by (intro keeps_intros)

lemma keeps_read_int [keeps_intros]: "eof \<noteq> restore_failed \<Longrightarrow> keeps P (read_int eof n)"
  unfolding read_int_def by (intro keeps_intros)

lemma keeps_read_all [keeps_intros]: "(\<And>x. keeps P (f x)) \<Longrightarrow> keeps P (read_all f xs)"
  by (induction xs) (auto intro!: keeps_intros)

text \<open>Reading a whole cache keeps the number of streams.\<close>

definition streams_ok :: "nat \<Rightarrow> kv_mem \<Rightarrow> bool" where
  "streams_ok n m \<longleftrightarrow> kv_n_stream (km_kv m) = n \<and> length (kv_v_cells (km_kv m)) = n \<and> length (kv_v_heads (km_kv m)) = n"

lemma streams_ok_simps [simp]:
  "streams_ok n (update_cells strm f m) = streams_ok n m" "streams_ok n (m\<lparr>km_layers := ls\<rparr>) = streams_ok n m"
  "streams_ok n (m\<lparr>km_kv := (km_kv m)\<lparr>kv_v_heads := (kv_v_heads (km_kv m))[s := h]\<rparr>\<rparr>) = streams_ok n m"
  by (auto simp: streams_ok_def update_cells_def)

lemma streams_ok_clear: "streams_ok n m \<Longrightarrow> streams_ok n (mem_clear data m)"
  by (simp add: streams_ok_def mem_clear_def kv_clear_eq)

lemma tensor_set_fault: "tensor_set t src offset = Inl e \<Longrightarrow> e = Abort"
  by (auto simp: tensor_set_def split: if_splits)

lemma each_tensor_set_fault: "each (\<lambda>i t. tensor_set t (f i) (g i)) xs t = Inl e \<Longrightarrow> e = Abort"
proof (induction xs arbitrary: t)
  case (Cons x xs)
  then show ?case by (cases "tensor_set t (f x) (g x)") (auto dest: tensor_set_fault)
qed simp

lemma put_rows_fault: "put_rows row offset si n src t = Inl e \<Longrightarrow> e = Abort"
  by (auto simp: put_rows_def si_head_def each_tensor_set_fault split: if_splits dest: tensor_set_fault)

lemma keeps_update_k [keeps_intros]: "keeps (streams_ok n) (update_st (update_k il strm (put_rows row offset si c src)))"
proof (rule keeps_update)
  fix m m' assume "streams_ok n m" "update_k il strm (put_rows row offset si c src) m = Inr m'"
  then show "streams_ok n m'" by (auto simp: update_k_def Let_def and_then_Inr)
next
  fix m show "update_k il strm (put_rows row offset si c src) m \<noteq> Inl restore_failed"
    by (cases "put_rows row offset si c src (kl_k_stream (km_layers m ! il) ! strm)") (auto simp: update_k_def Let_def dest: put_rows_fault)
qed

lemma keeps_update_v [keeps_intros]: "keeps (streams_ok n) (update_st (update_v il strm (put_rows row offset si c src)))"
proof (rule keeps_update)
  fix m m' assume "streams_ok n m" "update_v il strm (put_rows row offset si c src) m = Inr m'"
  then show "streams_ok n m'" by (auto simp: update_v_def Let_def and_then_Inr)
next
  fix m show "update_v il strm (put_rows row offset si c src) m \<noteq> Inl restore_failed"
    by (cases "put_rows row offset si c src (the (kl_v_stream (km_layers m ! il) ! strm))") (auto simp: update_v_def Let_def dest: put_rows_fault)
qed

lemma keeps_cell_seqs [keeps_intros]: "eof \<noteq> restore_failed \<Longrightarrow> keeps (streams_ok n) (read_cell_seqs eof strm i k)"
proof (induction k)
  case (Suc k)
  then show ?case unfolding read_cell_seqs.simps by (intro keeps_intros) auto
qed (simp add: keeps_ret)

lemma keeps_meta: "eof \<noteq> restore_failed \<Longrightarrow> keeps (streams_ok n) (state_read_meta eof strm c (- 1))"
  unfolding state_read_meta_def read_cell_def by (simp, intro keeps_intros) (auto intro: streams_ok_clear)

lemma keeps_data: "eof \<noteq> restore_failed \<Longrightarrow> keeps (streams_ok n) (state_read_data eof strm c si)"
proof -
  assume e: "eof \<noteq> restore_failed"
  have k: "keeps (streams_ok n) (read_k_layer eof strm c si il)" for il
    unfolding read_k_layer_def Let_def using e by (intro keeps_intros) auto
  have v: "keeps (streams_ok n) (read_v_layer eof strm c si il)" for il
    unfolding read_v_layer_def Let_def using e by (intro keeps_with_st) (auto split: option.splits intro!: keeps_intros)
  have vt: "keeps (streams_ok n) (read_vt_layer eof strm c si il)" for il
    unfolding read_vt_layer_def read_vt_row_def Let_def using e by (intro keeps_with_st) (auto split: option.splits intro!: keeps_intros)
  show ?thesis unfolding state_read_data_def Let_def using e k v vt by (intro keeps_intros)
qed

text \<open>Cleared: no cell is in use and every byte of the tensors is zero.\<close>

definition cleared :: "kv_mem \<Rightarrow> bool" where
  "cleared m \<longleftrightarrow> (\<forall>s < kv_n_stream (km_kv m). stored m s = [] \<and> kv_v_heads (km_kv m) ! s = 0) \<and>
    (\<forall>l \<in> set (km_layers m). (\<forall>k \<in> set (kl_k_stream l). set (kt_data k) \<subseteq> {0}) \<and>
      (\<forall>v. Some v \<in> set (kl_v_stream l) \<longrightarrow> set (kt_data v) \<subseteq> {0}))"

lemma mem_clear_cleared: "streams_ok n m \<Longrightarrow> cleared (mem_clear True m)"
  by (auto simp: cleared_def streams_ok_def mem_clear_def kv_clear_eq clear_layer_def clear_tensor_def intro!: stored_empty
    dest!: sym[of "Some _" "map_option _ _"])

text \<open>Readers that clear the cache before they refuse.\<close>

definition clears :: "nat \<Rightarrow> (kv_mem, 'a) reader \<Rightarrow> bool" where
  "clears n f \<longleftrightarrow> (\<forall>st r st'. streams_ok n (fst st) \<longrightarrow> f st = (r, st') \<longrightarrow>
    (if r = Inl restore_failed then cleared (fst st') else streams_ok n (fst st')))"

lemma clearsD: "clears n f \<Longrightarrow> streams_ok n (fst st) \<Longrightarrow> f st = (r, st') \<Longrightarrow> (if r = Inl restore_failed then cleared (fst st') else streams_ok n (fst st'))"
  unfolding clears_def by blast

lemma clears_keeps: "keeps (streams_ok n) f \<Longrightarrow> clears n f"
  unfolding clears_def using keepsD[of "streams_ok n" f] by (intro allI impI) (metis (full_types))

lemma clears_rbind:
  assumes f: "clears n f" and g: "\<And>x. clears n (g x)"
  shows "clears n (rbind f g)"
  unfolding clears_def
proof (intro allI impI)
  fix st r st' assume p: "streams_ok n (fst st)" and run: "rbind f g st = (r, st')"
  obtain q st1 where q: "f st = (q, st1)" by (cases "f st")
  note k = clearsD[OF f p q]
  show "if r = Inl restore_failed then cleared (fst st') else streams_ok n (fst st')"
  proof (cases q)
    case (Inl e)
    then have "r = Inl e" "st' = st1" using run q by simp_all
    then show ?thesis using k Inl by simp
  next
    case (Inr x)
    then have "g x st1 = (r, st')" using run q by simp
    then show ?thesis using clearsD[OF g] k Inr by fastforce
  qed
qed

lemma clears_with_st: "(\<And>m. clears n (f m)) \<Longrightarrow> clears n (with_st f)"
  unfolding clears_def with_st_def by blast

lemma clears_fail: "clears n (fail_restore (- 1))"
  using mem_clear_cleared by (auto simp: clears_def fail_restore_def update_st_def rbind_def)

lemma clears_stream: "eof \<noteq> restore_failed \<Longrightarrow> clears n (read_stream eof (- 1) s)"
  unfolding read_stream_def Let_def
  by (intro clears_rbind clears_keeps[OF keeps_read_uint] clears_with_st clears_keeps[OF keeps_meta] clears_keeps[OF keeps_data]
      clears_keeps[OF keeps_ret] clears_fail) (auto split: option.splits intro!: clears_rbind clears_keeps[OF keeps_ret] clears_fail clears_with_st
      clears_keeps[OF keeps_meta] clears_keeps[OF keeps_data])

lemma clears_streams: "eof \<noteq> restore_failed \<Longrightarrow> clears n (read_streams eof (- 1) ss)"
  by (induction ss) (auto intro!: clears_rbind clears_stream clears_keeps[OF keeps_ret])


section \<open>Concrete restores\<close>



end
