(* ===== verification/Session.thy ===== *)
theory Session
  imports Kv_Restore_Seq
begin

text \<open>
  Saving and restoring through the context (\<^verbatim>\<open>llama-context.cpp\<close>): the state in a buffer with the name of the model's
  architecture in front, the session file of a whole context and the file of one sequence with the tokens of the prompt. The C
  interface catches exceptions and reports 0 or false; what they leave of the memory is part of the result.
\<close>

section \<open>State of a context\<close>

text \<open>The memory of the context, if it has one, and the tokens a load has handed out.\<close>

record session =
  ss_memory :: "kv_mem option"
  ss_tokens :: "int list option"

text \<open>\<^verbatim>\<open>llama_file::read_raw\<close> reads no further than the end of the file and does not report it: the rest of the destination
  keeps the bytes it had, and the code goes on with them.\<close>

abbreviation end_of_file :: fault where
  "end_of_file \<equiv> Undefined"

abbreviation wrong_arch :: fault where
  "wrong_arch \<equiv> Runtime_error ''wrong model arch''"

definition caught :: "fault \<Rightarrow> bool" where
  "caught e = (case e of Runtime_error _ \<Rightarrow> True | Out_of_range \<Rightarrow> True | _ \<Rightarrow> False)"

definition on_memory :: "(kv_mem, unit) reader \<Rightarrow> (session, unit) reader" where
  "on_memory f st =
    (case ss_memory (fst st) of
       None \<Rightarrow> ret () st
     | Some m \<Rightarrow> (case f (m, snd st) of (r, m', bs) \<Rightarrow> (r, (fst st)\<lparr>ss_memory := Some m'\<rparr>, bs)))"

definition ctx_state_write_data :: "'w io_write_i \<Rightarrow> bytes \<Rightarrow> session \<Rightarrow> 'w \<Rightarrow> 'w res" where
  "ctx_state_write_data io arch ss w =
    and_then (write_string io arch w) (\<lambda>w. case ss_memory ss of None \<Rightarrow> Inr w | Some m \<Rightarrow> state_write io m (- 1) w)"

definition ctx_state_read_data :: "fault \<Rightarrow> bytes \<Rightarrow> (session, unit) reader" where
  "ctx_state_read_data eof arch =
    rbind (read_string eof) (\<lambda>arch_str. if arch \<noteq> arch_str then throw wrong_arch else on_memory (state_read eof (- 1)))"

definition ctx_state_seq_write_data :: "'w io_write_i \<Rightarrow> session \<Rightarrow> int \<Rightarrow> 'w \<Rightarrow> 'w res" where
  "ctx_state_seq_write_data io ss seq_id w = (case ss_memory ss of None \<Rightarrow> Inr w | Some m \<Rightarrow> state_write io m seq_id w)"

definition ctx_state_seq_read_data :: "fault \<Rightarrow> int \<Rightarrow> (session, unit) reader" where
  "ctx_state_seq_read_data eof seq_id = on_memory (state_read eof seq_id)"

section \<open>States in a buffer\<close>

definition or_zero :: "nat res \<Rightarrow> nat res" where
  "or_zero r = (case r of Inl e \<Rightarrow> if caught e then Inr 0 else Inl e | Inr n \<Rightarrow> Inr n)"

definition state_get_size :: "bytes \<Rightarrow> session \<Rightarrow> nat res" where
  "state_get_size arch ss = or_zero (ctx_state_write_data write_dummy arch ss 0)"

definition state_seq_get_size :: "session \<Rightarrow> int \<Rightarrow> nat res" where
  "state_seq_get_size ss seq_id = or_zero (ctx_state_seq_write_data write_dummy ss seq_id 0)"

text \<open>The number of bytes and, where the call succeeds, the bytes; after a failure the buffer is partly written.\<close>

definition in_buffer :: "(write_buf \<Rightarrow> write_buf res) \<Rightarrow> nat \<Rightarrow> (nat \<times> bytes option) res" where
  "in_buffer f n =
    (case f \<lparr>wb_out = [], wb_room = n\<rparr> of
       Inl e \<Rightarrow> if caught e then Inr (0, None) else Inl e
     | Inr w \<Rightarrow> Inr (length (wb_out w), Some (wb_out w)))"

definition state_get_data :: "bytes \<Rightarrow> session \<Rightarrow> nat \<Rightarrow> (nat \<times> bytes option) res" where
  "state_get_data arch ss n = in_buffer (ctx_state_write_data write_buffer arch ss) n"

definition state_seq_get_data :: "session \<Rightarrow> int \<Rightarrow> nat \<Rightarrow> (nat \<times> bytes option) res" where
  "state_seq_get_data ss seq_id n = in_buffer (ctx_state_seq_write_data write_buffer ss seq_id) n"

definition from_buffer :: "(session, unit) reader \<Rightarrow> bytes \<Rightarrow> session \<Rightarrow> nat res \<times> session" where
  "from_buffer f src ss =
    (case f (ss, src) of
       (Inl e, ss', rest) \<Rightarrow> (if caught e then Inr 0 else Inl e, ss')
     | (Inr _, ss', rest) \<Rightarrow> (Inr (length src - length rest), ss'))"

definition state_set_data :: "bytes \<Rightarrow> bytes \<Rightarrow> session \<Rightarrow> nat res \<times> session" where
  "state_set_data arch src ss = from_buffer (ctx_state_read_data end_of_buffer arch) src ss"

definition state_seq_set_data :: "int \<Rightarrow> bytes \<Rightarrow> session \<Rightarrow> nat res \<times> session" where
  "state_seq_set_data seq_id src ss = from_buffer (ctx_state_seq_read_data end_of_buffer seq_id) src ss"

section \<open>Files\<close>

definition LLAMA_SESSION_MAGIC :: nat where "LLAMA_SESSION_MAGIC = 0x6767736e"
definition LLAMA_SESSION_VERSION :: nat where "LLAMA_SESSION_VERSION = 9"
definition LLAMA_STATE_SEQ_MAGIC :: nat where "LLAMA_STATE_SEQ_MAGIC = 0x67677371"
definition LLAMA_STATE_SEQ_VERSION :: nat where "LLAMA_STATE_SEQ_VERSION = 2"

definition token_bytes :: "int list \<Rightarrow> bytes" where
  "token_bytes ts = concat (map (\<lambda>t. le_bytes 4 (unsigned_at 32 t)) ts)"

definition bytes_tokens :: "nat \<Rightarrow> bytes \<Rightarrow> int list" where
  "bytes_tokens n bs = map (\<lambda>i. signed_at 32 (le_val (take 4 (drop (i * 4) bs)))) [0..<n]"

definition file_header :: "nat \<Rightarrow> nat \<Rightarrow> int list \<Rightarrow> bytes" where
  "file_header magic version tokens =
    le_bytes 4 magic @ le_bytes 4 version @ le_bytes 4 (u32 (int (length tokens))) @ token_bytes tokens"

definition state_save_file :: "bytes \<Rightarrow> session \<Rightarrow> int list \<Rightarrow> (bytes \<times> bool) res" where
  "state_save_file arch ss tokens =
    and_then (ctx_state_write_data write_file arch ss (file_header LLAMA_SESSION_MAGIC LLAMA_SESSION_VERSION tokens)) (\<lambda>f. Inr (f, True))"

definition state_seq_save_file :: "session \<Rightarrow> int \<Rightarrow> int list \<Rightarrow> (bytes \<times> nat) res" where
  "state_seq_save_file ss seq_id tokens =
    and_then (ctx_state_seq_write_data write_file ss seq_id (file_header LLAMA_STATE_SEQ_MAGIC LLAMA_STATE_SEQ_VERSION tokens)) (\<lambda>f. Inr (f, length f))"

text \<open>The part that both loads share: magic, version and tokens, then \<open>f\<close> on the rest of the file.\<close>

definition load_header :: "nat \<Rightarrow> nat \<Rightarrow> nat \<Rightarrow> 'a \<Rightarrow> (session, 'a) reader \<Rightarrow> (session, 'a) reader" where
  "load_header magic version n_token_capacity refuse f =
    rbind (read_uint end_of_file 4) (\<lambda>m. rbind (read_uint end_of_file 4) (\<lambda>v.
      if m \<noteq> magic \<or> v \<noteq> version then ret refuse
      else rbind (read_uint end_of_file 4) (\<lambda>n_token_count.
        if n_token_count > n_token_capacity then ret refuse
        else rbind (io_read end_of_file (4 * n_token_count)) (\<lambda>bs.
          rbind (update_st (\<lambda>ss. Inr (ss\<lparr>ss_tokens := Some (bytes_tokens n_token_count bs)\<rparr>))) (\<lambda>_. f)))))"

definition state_load_file :: "bytes \<Rightarrow> nat \<Rightarrow> (session, bool) reader" where
  "state_load_file arch n_token_capacity =
    load_header LLAMA_SESSION_MAGIC LLAMA_SESSION_VERSION n_token_capacity False (\<lambda>st.
      let n_state_size_cur = length (snd st) in
      rbind (ctx_state_read_data end_of_file arch) (\<lambda>_ st'.
        let n_read = n_state_size_cur - length (snd st') in ret (n_read = n_state_size_cur) st') st)"

definition state_seq_load_file :: "int \<Rightarrow> nat \<Rightarrow> nat \<Rightarrow> (session, nat) reader" where
  "state_seq_load_file seq_id file_size n_token_capacity =
    load_header LLAMA_STATE_SEQ_MAGIC LLAMA_STATE_SEQ_VERSION n_token_capacity 0 (\<lambda>st.
      rbind (ctx_state_seq_read_data end_of_file seq_id) (\<lambda>_ st'.
        let nread = length (snd st) - length (snd st') in
        if nread = 0 then ret 0 st' else ret (file_size - length (snd st')) st') st)"

definition llama_state_load_file :: "bytes \<Rightarrow> nat \<Rightarrow> bytes \<Rightarrow> session \<Rightarrow> bool res \<times> session" where
  "llama_state_load_file arch n_token_capacity file_bytes ss =
    (case state_load_file arch n_token_capacity (ss, file_bytes) of
       (Inl e, ss', _) \<Rightarrow> (if caught e then Inr False else Inl e, ss')
     | (Inr b, ss', _) \<Rightarrow> (Inr b, ss'))"

definition llama_state_seq_load_file :: "int \<Rightarrow> nat \<Rightarrow> bytes \<Rightarrow> session \<Rightarrow> nat res \<times> session" where
  "llama_state_seq_load_file seq_id n_token_capacity file_bytes ss =
    (case state_seq_load_file seq_id (length file_bytes) n_token_capacity (ss, file_bytes) of
       (Inl e, ss', _) \<Rightarrow> (if caught e then Inr 0 else Inl e, ss')
     | (Inr n, ss', _) \<Rightarrow> (Inr n, ss'))"

section \<open>Reading the header back\<close>

definition is_token :: "int \<Rightarrow> bool" where
  "is_token t \<longleftrightarrow> - (2 ^ 31) \<le> t \<and> t < 2 ^ 31"

lemma token_bytes_inverse:
  assumes "\<forall>t \<in> set ts. is_token t"
  shows "bytes_tokens (length ts) (token_bytes ts) = ts" "length (token_bytes ts) = 4 * length ts"
proof -
  let ?rs = "map (\<lambda>t. le_bytes 4 (unsigned_at 32 t)) ts"
  have rs: "\<forall>r \<in> set ?rs. length r = 4" by (auto simp del: le_bytes.simps)
  have "signed_at 32 (le_val (take 4 (drop (i * 4) (concat ?rs)))) = ts ! i" if i: "i < length ts" for i
  proof -
    have "- (2 ^ 31) \<le> ts ! i" "ts ! i < 2 ^ 31" using assms i by (auto simp: is_token_def)
    then show ?thesis
      using row_of_concat[OF rs, of i] i signed_unsigned[of 32 "ts ! i"] unsigned_at_less[of 32 "ts ! i"]
      by (simp add: le_val_le_bytes del: le_bytes.simps)
  qed
  then show "bytes_tokens (length ts) (token_bytes ts) = ts" unfolding bytes_tokens_def token_bytes_def by (intro nth_equalityI) simp_all
  show "length (token_bytes ts) = 4 * length ts" using length_concat_rows[OF rs] by (simp add: token_bytes_def)
qed

lemma load_header_enc:
  assumes "\<forall>t \<in> set tokens. is_token t" "length tokens < 2 ^ 32" "magic < 2 ^ 32" "version < 2 ^ 32"
  shows "load_header magic version capacity refuse f (ss, file_header magic' version' tokens @ rest) =
    (if magic' mod 2 ^ 32 \<noteq> magic \<or> version' mod 2 ^ 32 \<noteq> version then (Inr refuse, ss, le_bytes 4 (length tokens) @ token_bytes tokens @ rest)
     else if length tokens > capacity then (Inr refuse, ss, token_bytes tokens @ rest)
     else f (ss\<lparr>ss_tokens := Some tokens\<rparr>, rest))"
proof -
  note tok = token_bytes_inverse[OF assms(1)]
  have u: "read_uint end_of_file 4 (ss, le_bytes 4 x @ r) = (Inr (x mod 2 ^ 32), ss, r)" for x r
    by (simp add: read_uint_def io_read_enc le_val_le_bytes del: le_bytes.simps)
  have n: "u32 (int (length tokens)) = length tokens" "length tokens mod 2 ^ 32 = length tokens" using assms(2) by simp_all
  have tk: "io_read end_of_file (4 * length tokens) (ss, token_bytes tokens @ rest) = (Inr (token_bytes tokens), ss, rest)"
    using tok(2) by (intro io_read_enc) simp
  show ?thesis unfolding load_header_def file_header_def n(1)
    using n(2) by (simp add: u tk tok(1) del: le_bytes.simps)
qed

section \<open>A session saved and loaded\<close>

definition session_of :: "kv_mem \<Rightarrow> int list option \<Rightarrow> session" where
  "session_of m ts = \<lparr>ss_memory = Some m, ss_tokens = ts\<rparr>"

lemma on_memory_session: "f (m, bs) = (r, m', bs') \<Longrightarrow> on_memory f (session_of m ts, bs) = (r, session_of m' ts, bs')"
  by (simp add: on_memory_def session_of_def)

lemma session_of_inject [simp]: "session_of m ts = session_of m' ts' \<longleftrightarrow> m = m' \<and> ts = ts'"
  by (auto simp: session_of_def)

lemma session_tokens [simp]: "(session_of m ts)\<lparr>ss_tokens := ts'\<rparr> = session_of m ts'"
  by (simp add: session_of_def)

lemma save_file_eq:
  assumes "mem_ok m0" "length arch < 2 ^ 32"
  shows "state_save_file arch (session_of m0 ts) tokens =
    Inr (file_header LLAMA_SESSION_MAGIC LLAMA_SESSION_VERSION tokens @ le_bytes 4 (length arch) @ arch @ enc_state m0 (- 1), True)"
  using file_out.writesD[OF file_out.writes_state[OF assms(1)], of "- 1"] file_out.writesD[OF file_out.writes_string[OF assms(2)]]
  by (simp add: state_save_file_def ctx_state_write_data_def session_of_def)

lemma magic_small: "LLAMA_SESSION_MAGIC < 2 ^ 32" "LLAMA_SESSION_VERSION < 2 ^ 32" "LLAMA_STATE_SEQ_MAGIC < 2 ^ 32" "LLAMA_STATE_SEQ_VERSION < 2 ^ 32"
  by (simp_all add: LLAMA_SESSION_MAGIC_def LLAMA_SESSION_VERSION_def LLAMA_STATE_SEQ_MAGIC_def LLAMA_STATE_SEQ_VERSION_def)

lemma load_file_eq:
  assumes "\<forall>t \<in> set tokens. is_token t" "length tokens < 2 ^ 32" "length tokens \<le> capacity" "length arch' < 2 ^ 32"
    and "state_read end_of_file (- 1) (m, bs) = (Inr (), m', rest)"
  shows "llama_state_load_file arch capacity (file_header LLAMA_SESSION_MAGIC LLAMA_SESSION_VERSION tokens @ le_bytes 4 (length arch') @ arch' @ bs) (session_of m ts) =
    (if arch = arch' then (Inr (rest = []), session_of m' (Some tokens)) else (Inr False, session_of m (Some tokens)))"
proof -
  have all: "4 + n - length rest = 4 + n \<longleftrightarrow> rest = []" for n by (cases rest) auto
  have "ctx_state_read_data end_of_file arch (session_of m (Some tokens), le_bytes 4 (length arch') @ arch' @ bs) =
      (if arch = arch' then (Inr (), session_of m' (Some tokens), rest) else (Inl wrong_arch, session_of m (Some tokens), bs))"
    using assms(4,5) by (simp add: ctx_state_read_data_def read_string_enc on_memory_session del: le_bytes.simps)
  then show ?thesis
    using load_header_enc[OF assms(1,2) magic_small(1,2), of capacity False _ "session_of m ts" LLAMA_SESSION_MAGIC LLAMA_SESSION_VERSION] magic_small assms(3)
    by (auto simp: llama_state_load_file_def state_load_file_def Let_def caught_def rbind_def all simp del: le_bytes.simps)
qed


text \<open>Files that are not session files, of another version, or with more tokens than there is room for are refused, and nothing of the
  context has changed then.\<close>

theorem session_refused:
  assumes "\<forall>t \<in> set tokens. is_token t" "length tokens < 2 ^ 32" "magic < 2 ^ 32" "version < 2 ^ 32"
    and "magic \<noteq> LLAMA_SESSION_MAGIC \<or> version \<noteq> LLAMA_SESSION_VERSION \<or> capacity < length tokens"
  shows "llama_state_load_file arch capacity (file_header magic version tokens @ rest) ss = (Inr False, ss)"
  using load_header_enc[OF assms(1,2) magic_small(1,2), of capacity False _ ss magic version rest] assms(3-5)
  by (auto simp: llama_state_load_file_def state_load_file_def)

lemma seq_save_file_eq:
  assumes "mem_ok m0" "s < LLAMA_MAX_SEQ"
  shows "state_seq_save_file (session_of m0 ts) (int s) tokens =
    (let f = file_header LLAMA_STATE_SEQ_MAGIC LLAMA_STATE_SEQ_VERSION tokens @ enc_state m0 (int s) in Inr (f, length f))"
  using file_out.writesD[OF file_out.writes_state[OF assms(1)], of "int s"] assms(2)
  by (simp add: state_seq_save_file_def ctx_state_seq_write_data_def session_of_def)

text \<open>The file of one sequence: it loads under any id into a cache with room for it, the call returns the size of the file, and
  only that sequence changes.\<close>

theorem seq_file_roundtrip:
  assumes "mem_ok m0" "kv_n_stream (km_kv m0) = 1" "s < kv_n_seq_max (km_kv m0)" "s < LLAMA_MAX_SEQ" "below_max m0 s"
    and "mem_ok m" "kv_swa_type (km_kv m) = SWA_NONE" "kv_n_pos_per_embd (km_kv m) < 3" "below_max m dest"
    and "mem_like m0 m" "kv_seq_ok (km_kv m) (int dest)" "size (seq_stored m0 s) \<le> room_for m dest"
    and "\<forall>t \<in> set tokens. is_token t" "length tokens < 2 ^ 32" "length tokens \<le> capacity"
  shows "\<exists>f. state_seq_save_file (session_of m0 ts) (int s) tokens = Inr (f, length f) \<and>
    (\<exists>m'. llama_state_seq_load_file (int dest) capacity f (session_of m ts') = (Inr (length f), session_of m' (Some tokens)) \<and> mem_ok m' \<and>
      (if seq_stored m0 s = {#} then m' = m
       else seq_stored m' dest = seq_stored m0 s \<and> (\<forall>t. t \<noteq> dest \<longrightarrow> seq_stored m' t = seq_stored m t)))"
proof -
  obtain m' where m': "state_read end_of_file (int dest) (m, enc_state m0 (int s)) = (Inr (), m', [])" "mem_ok m'"
    "if seq_stored m0 s = {#} then m' = m
     else seq_stored m' dest = seq_stored m0 s \<and> (\<forall>t. t \<noteq> dest \<longrightarrow> seq_stored m' t = seq_stored m t)"
    using read_seq_state[OF assms(1-12), of end_of_file "[]"] by auto
  have ne: "enc_state m0 (int s) \<noteq> []" by (auto simp: enc_state_def dest!: arg_cong[where f = length] simp del: le_bytes.simps)
  let ?f = "file_header LLAMA_STATE_SEQ_MAGIC LLAMA_STATE_SEQ_VERSION tokens @ enc_state m0 (int s)"
  have "llama_state_seq_load_file (int dest) capacity ?f (session_of m ts') = (Inr (length ?f), session_of m' (Some tokens))"
    using load_header_enc[OF assms(13,14) magic_small(3,4), of capacity "0 :: nat" _ "session_of m ts'" LLAMA_STATE_SEQ_MAGIC LLAMA_STATE_SEQ_VERSION "enc_state m0 (int s)"]
      assms(15) magic_small ne on_memory_session[of "state_read end_of_file (int dest)" m "enc_state m0 (int s)" "Inr ()" m' "[]" "Some tokens", OF m'(1)]
    by (simp add: llama_state_seq_load_file_def state_seq_load_file_def ctx_state_seq_read_data_def rbind_def Let_def)
  then show ?thesis using seq_save_file_eq[OF assms(1,4), of ts tokens, unfolded Let_def] m'(2,3) by blast
qed

section \<open>Sizes and buffers\<close>

lemma in_buffer_eq: "(\<And>w. f w = buf_write bs w) \<Longrightarrow> in_buffer f n = Inr (if length bs \<le> n then (length bs, Some bs) else (0, None))"
  by (simp add: in_buffer_def buf_write_def caught_def)

text \<open>C25. The two-call protocol of the C interface: what the size query answers is exactly what the copy needs and writes, and a smaller
  buffer makes the copy fail with 0.\<close>

theorem state_size_exact:
  assumes "mem_ok m" "length arch < 2 ^ 32" "s < LLAMA_MAX_SEQ"
  shows "(\<exists>bs. state_get_size arch (session_of m ts) = Inr (length bs) \<and>
      (\<forall>n. state_get_data arch (session_of m ts) n = Inr (if length bs \<le> n then (length bs, Some bs) else (0, None)))) \<and>
    (\<exists>bs. state_seq_get_size (session_of m ts) (int s) = Inr (length bs) \<and>
      (\<forall>n. state_seq_get_data (session_of m ts) (int s) n = Inr (if length bs \<le> n then (length bs, Some bs) else (0, None))))"
proof (intro conjI)
  let ?bs = "le_bytes 4 (length arch) @ arch @ enc_state m (- 1)"
  have "ctx_state_write_data write_dummy arch (session_of m ts) n = Inr (n + length ?bs)" for n
    using dummy.writesD[OF dummy.writes_then[OF dummy.writes_string[OF assms(2)] dummy.writes_state[OF assms(1), of "- 1"]]]
    by (simp add: ctx_state_write_data_def session_of_def)
  moreover have "ctx_state_write_data write_buffer arch (session_of m ts) w = buf_write ?bs w" for w
    using buffer.writesD[OF buffer.writes_then[OF buffer.writes_string[OF assms(2)] buffer.writes_state[OF assms(1), of "- 1"]]]
    by (simp add: ctx_state_write_data_def session_of_def)
  ultimately show "\<exists>bs. state_get_size arch (session_of m ts) = Inr (length bs) \<and>
      (\<forall>n. state_get_data arch (session_of m ts) n = Inr (if length bs \<le> n then (length bs, Some bs) else (0, None)))"
    by (intro exI[of _ ?bs]) (simp add: state_get_size_def or_zero_def state_get_data_def in_buffer_eq[of _ ?bs])
next
  have "ctx_state_seq_write_data write_dummy (session_of m ts) (int s) n = Inr (n + length (enc_state m (int s)))" for n
    using dummy.writesD[OF dummy.writes_state[OF assms(1), of "int s"]] assms(3) by (simp add: ctx_state_seq_write_data_def session_of_def)
  moreover have "ctx_state_seq_write_data write_buffer (session_of m ts) (int s) w = buf_write (enc_state m (int s)) w" for w
    using buffer.writesD[OF buffer.writes_state[OF assms(1), of "int s"]] assms(3) by (simp add: ctx_state_seq_write_data_def session_of_def)
  ultimately show "\<exists>bs. state_seq_get_size (session_of m ts) (int s) = Inr (length bs) \<and>
      (\<forall>n. state_seq_get_data (session_of m ts) (int s) n = Inr (if length bs \<le> n then (length bs, Some bs) else (0, None)))"
    by (intro exI[of _ "enc_state m (int s)"]) (simp add: state_seq_get_size_def or_zero_def state_seq_get_data_def in_buffer_eq[of _ "enc_state m (int s)"])
qed

section \<open>Concrete files\<close>

lemma ex_mem_kv: "km_kv (ex_mem b) = ex_kv True"
  by (simp add: ex_mem_def)

lemma ex_tokens: "\<forall>t \<in> set [1, 2 :: int]. is_token t" "length [1, 2 :: int] < 2 ^ 32" "length [1, 2 :: int] \<le> 8"
  by (simp_all add: is_token_def)


theorem session_refused_witness:
  "llama_state_load_file (str ''llama'') 8 (file_header LLAMA_SESSION_MAGIC 8 [1, 2] @ [0]) (session_of (ex_mem 7) None) = (Inr False, session_of (ex_mem 7) None)"
  by (rule session_refused[OF ex_tokens(1,2) magic_small(1)]) (simp_all add: LLAMA_SESSION_VERSION_def)

theorem state_size_exact_witness:
  "(\<exists>n. state_get_size (str ''llama'') (session_of (ex_mem 7) None) = Inr n \<and>
      (\<exists>bs. state_get_data (str ''llama'') (session_of (ex_mem 7) None) n = Inr (n, Some bs) \<and> length bs = n)) \<and>
   (\<exists>n. state_seq_get_size (session_of (ex_mem 7) None) 0 = Inr n)"
proof -
  have "length (str ''llama'') < 2 ^ 32" "0 < LLAMA_MAX_SEQ" by (simp_all add: str_def LLAMA_MAX_SEQ_def)
  from state_size_exact[OF ex_mem_ok(1) this] show ?thesis by fastforce
qed

theorem seq_file_roundtrip_witness:
  "\<exists>f m'. state_seq_save_file (session_of (ex_mem 7) None) 0 [1, 2] = Inr (f, length f) \<and>
     llama_state_seq_load_file 1 8 f (session_of (ex_mem 0) None) = (Inr (length f), session_of m' (Some [1, 2])) \<and>
     size (seq_stored m' 1) = 2 \<and> seq_stored m' 1 = seq_stored (ex_mem 7) 0"
proof -
  have st: "size (seq_stored (ex_mem 7) 0) = 2" by (simp add: seq_stored_def ex_mem_kv ex_saved)
  have "{i. i < 4 \<and> (\<forall>p S. cell_at ex_cells i = Some (p, S) \<longrightarrow> S = {Suc 0})} = {2, 3}" by (auto simp: ex_cell_at)
  then have room: "size (seq_stored (ex_mem 7) 0) \<le> room_for (ex_mem 0) 1" using st by (simp add: room_for_def ex_mem_kv)
  have bm: "below_max (ex_mem b) s" for b s by (simp add: below_max_def ex_mem_kv ex_cells_positions INT32_MAX_def)
  have cfg: "kv_n_stream (km_kv (ex_mem 7)) = 1" "0 < kv_n_seq_max (km_kv (ex_mem 7))" "0 < LLAMA_MAX_SEQ"
    "kv_swa_type (km_kv (ex_mem 0)) = SWA_NONE" "kv_n_pos_per_embd (km_kv (ex_mem 0)) < 3" "kv_seq_ok (km_kv (ex_mem 0)) (int 1)"
    by (simp_all add: ex_mem_kv LLAMA_MAX_SEQ_def)
  have ne: "seq_stored (ex_mem 7) 0 \<noteq> {#}" using st by auto
  obtain f m' where "state_seq_save_file (session_of (ex_mem 7) None) (int 0) [1, 2] = Inr (f, length f)"
    "llama_state_seq_load_file (int 1) 8 f (session_of (ex_mem 0) None) = (Inr (length f), session_of m' (Some [1, 2]))"
    "seq_stored m' 1 = seq_stored (ex_mem 7) 0"
    using seq_file_roundtrip[OF ex_mem_ok(1) cfg(1-3) bm ex_mem_ok(1) cfg(4,5) bm ex_mem_ok(2) cfg(6) room ex_tokens, of None None]
    unfolding if_not_P[OF ne] by blast
  then show ?thesis using st by (intro exI[of _ f] exI[of _ m']) simp
qed

end
