(* ===== verification/Tensor_Alloc.thy ===== *)
theory Tensor_Alloc
  imports Bytes
begin

text \<open>
  The dynamic allocator of the tensor library (\<^verbatim>\<open>ggml_dyn_tallocr\<close> in \<^verbatim>\<open>ggml-alloc.c\<close>): it plans the offsets of the tensors of a graph
  in up to sixteen chunks of memory, each with an array of free blocks sorted by offset. Sizes are \<^verbatim>\<open>size_t\<close>. The free bytes
  of a chunk, as a set, are the abstract view: allocation takes a region out of it, freeing puts it back, and what is
  live never overlaps.
\<close>

section \<open>The allocator\<close>

definition MAX_FREE_BLOCKS :: nat where "MAX_FREE_BLOCKS = 256"
definition GGML_VBUFFER_MAX_CHUNKS :: nat where "GGML_VBUFFER_MAX_CHUNKS = 16"
definition INT64_MIN :: int where "INT64_MIN = - (2 ^ 63)"

record buffer_address =
  ba_chunk :: nat
  ba_offset :: nat

record free_block =
  fb_offset :: nat
  fb_size :: nat

record tallocr_chunk =
  tc_free_blocks :: "free_block list"
  tc_max_size :: nat

record ggml_dyn_tallocr =
  da_alignment :: nat
  da_max_chunk_size :: nat
  da_chunks :: "tallocr_chunk list"

definition aligned_offset :: "nat \<Rightarrow> nat \<Rightarrow> nat \<Rightarrow> nat" where
  "aligned_offset buffer offset alignment =
    (let align = (alignment - u64 (int buffer + int offset) mod alignment) mod alignment in u64 (int offset + int align))"

definition insert_block :: "nat \<Rightarrow> nat \<Rightarrow> free_block list \<Rightarrow> free_block list res" where
  "insert_block offset sz bs =
    (if length bs < MAX_FREE_BLOCKS then
       let insert_pos = length (takeWhile (\<lambda>b. fb_offset b < offset) bs) in
       Inr (take insert_pos bs @ \<lparr>fb_offset = offset, fb_size = sz\<rparr> # drop insert_pos bs)
     else Inl Abort)"

text \<open>The loop that closes the gap runs one step too far: with a full array it reads behind its end.\<close>

definition remove_block :: "nat \<Rightarrow> free_block list \<Rightarrow> free_block list res" where
  "remove_block idx bs = (if length bs = MAX_FREE_BLOCKS then Inl Undefined else Inr (take idx bs @ drop (Suc idx) bs))"

definition new_chunk :: "nat \<Rightarrow> ggml_dyn_tallocr \<Rightarrow> (nat \<times> ggml_dyn_tallocr) option" where
  "new_chunk min_size da =
    (let n_chunks = length (da_chunks da) in
     if n_chunks \<ge> GGML_VBUFFER_MAX_CHUNKS then None
     else
       let sz = (if n_chunks = GGML_VBUFFER_MAX_CHUNKS - 1 then SIZE_MAX div 2 else max min_size (da_max_chunk_size da)) in
       Some (n_chunks, da\<lparr>da_chunks := da_chunks da @ [\<lparr>tc_free_blocks = [\<lparr>fb_offset = 0, fb_size = sz\<rparr>], tc_max_size = 0\<rparr>]\<rparr>))"

text \<open>The best fitting block besides the last one. The size to beat starts anew in every chunk.\<close>

definition fit_step :: "nat \<Rightarrow> nat \<Rightarrow> free_block list \<Rightarrow> nat \<Rightarrow> (nat \<times> nat) option \<times> nat \<Rightarrow> (nat \<times> nat) option \<times> nat" where
  "fit_step sz c bs i st =
    (if fb_size (bs ! i) \<ge> sz \<and> fb_size (bs ! i) \<le> snd st then (Some (c, i), fb_size (bs ! i)) else st)"

definition fit_chunk :: "nat \<Rightarrow> ggml_dyn_tallocr \<Rightarrow> nat \<Rightarrow> (nat \<times> nat) option \<Rightarrow> (nat \<times> nat) option" where
  "fit_chunk sz da c best =
    (let bs = tc_free_blocks (da_chunks da ! c) in fst (fold (fit_step sz c bs) [0..<length bs - 1] (best, SIZE_MAX)))"

definition best_fit :: "nat \<Rightarrow> ggml_dyn_tallocr \<Rightarrow> (nat \<times> nat) option" where
  "best_fit sz da = fold (fit_chunk sz da) [0..<length (da_chunks da)] None"

text \<open>The last blocks, which may grow a chunk: the one that needs the least extra memory, or wastes the least.\<close>

definition reuse_step :: "nat \<Rightarrow> ggml_dyn_tallocr \<Rightarrow> nat \<Rightarrow> (nat \<times> nat) option \<times> int \<Rightarrow> (nat \<times> nat) option \<times> int" where
  "reuse_step sz da c st =
    (let chunk = da_chunks da ! c; bs = tc_free_blocks chunk in
     if bs = [] then st
     else
       let block = bs ! (length bs - 1);
           reuse_factor = signed_at 64 (u64 (int (tc_max_size chunk) - int (fb_offset block) - int sz));
           better_reuse = (snd st < 0 \<and> reuse_factor > snd st);
           better_fit = (reuse_factor \<ge> 0 \<and> reuse_factor < snd st) in
       if fb_size block \<ge> sz \<and> (better_reuse \<or> better_fit) then (Some (c, length bs - 1), reuse_factor) else st)"

definition last_fit :: "nat \<Rightarrow> ggml_dyn_tallocr \<Rightarrow> (nat \<times> nat) option" where
  "last_fit sz da = fst (fold (reuse_step sz da) [0..<length (da_chunks da)] (None, INT64_MIN))"

definition choose_block :: "nat \<Rightarrow> ggml_dyn_tallocr \<Rightarrow> ((nat \<times> nat) \<times> ggml_dyn_tallocr) res" where
  "choose_block sz da =
    (case best_fit sz da of
       Some b \<Rightarrow> Inr (b, da)
     | None \<Rightarrow>
         (case last_fit sz da of
            Some b \<Rightarrow> Inr (b, da)
          | None \<Rightarrow> (case new_chunk sz da of None \<Rightarrow> Inl Abort | Some (c, da') \<Rightarrow> Inr ((c, 0), da'))))"

definition take_block :: "nat \<Rightarrow> nat \<Rightarrow> tallocr_chunk \<Rightarrow> (nat \<times> tallocr_chunk) res" where
  "take_block sz i chunk =
    (let bs = tc_free_blocks chunk; block = bs ! i; offset = fb_offset block;
         block' = \<lparr>fb_offset = u64 (int offset + int sz), fb_size = u64 (int (fb_size block) - int sz)\<rparr>;
         bs' = bs[i := block'] in
     and_then (if fb_size block' = 0 then remove_block i bs' else Inr bs') (\<lambda>bs'.
       Inr (offset, \<lparr>tc_free_blocks = bs', tc_max_size = max (tc_max_size chunk) (u64 (int offset + int sz))\<rparr>)))"

definition ggml_dyn_tallocr_alloc :: "nat \<Rightarrow> ggml_dyn_tallocr \<Rightarrow> (buffer_address \<times> ggml_dyn_tallocr) res" where
  "ggml_dyn_tallocr_alloc size0 da =
    (let sz = aligned_offset 0 size0 (da_alignment da) in
     and_then (choose_block sz da) (\<lambda>((c, i), da).
     and_then (take_block sz i (da_chunks da ! c)) (\<lambda>(offset, chunk).
       Inr (\<lparr>ba_chunk = c, ba_offset = offset\<rparr>, da\<lparr>da_chunks := (da_chunks da)[c := chunk]\<rparr>))))"

text \<open>Freeing: merge with the block that ends where the region starts, or with the one that starts where it ends, and
  then perhaps with the neighbour.\<close>

function free_scan :: "nat \<Rightarrow> nat \<Rightarrow> free_block list \<Rightarrow> nat \<Rightarrow> free_block list res" where
  "free_scan offset sz bs i =
    (if i < length bs then
       let block = bs ! i in
       if u64 (int (fb_offset block) + int (fb_size block)) = offset then
         let block' = block\<lparr>fb_size := u64 (int (fb_size block) + int sz)\<rparr>; bs' = bs[i := block'] in
         if i + 1 < length bs \<and> u64 (int (fb_offset block') + int (fb_size block')) = fb_offset (bs ! (i + 1)) then
           remove_block (i + 1) (bs'[i := block'\<lparr>fb_size := u64 (int (fb_size block') + int (fb_size (bs ! (i + 1))))\<rparr>])
         else Inr bs'
       else if u64 (int offset + int sz) = fb_offset block then
         let block' = \<lparr>fb_offset = offset, fb_size = u64 (int (fb_size block) + int sz)\<rparr>; bs' = bs[i := block'] in
         if i > 0 \<and> u64 (int (fb_offset (bs ! (i - 1))) + int (fb_size (bs ! (i - 1)))) = fb_offset block' then
           remove_block i (bs'[i - 1 := (bs ! (i - 1))\<lparr>fb_size := u64 (int (fb_size (bs ! (i - 1))) + int (fb_size block'))\<rparr>])
         else Inr bs'
       else free_scan offset sz bs (i + 1)
     else insert_block offset sz bs)"
  by pat_completeness auto
termination by (relation "measure (\<lambda>(offset, sz, bs, i). length bs - i)") auto

declare free_scan.simps [simp del]

definition ggml_dyn_tallocr_free_bytes :: "buffer_address \<Rightarrow> nat \<Rightarrow> ggml_dyn_tallocr \<Rightarrow> ggml_dyn_tallocr res" where
  "ggml_dyn_tallocr_free_bytes addr size0 da =
    (let sz = aligned_offset 0 size0 (da_alignment da); chunk = da_chunks da ! ba_chunk addr in
     if ba_chunk addr \<ge> length (da_chunks da) then Inl Undefined
     else and_then (free_scan (ba_offset addr) sz (tc_free_blocks chunk) 0) (\<lambda>bs.
       Inr (da\<lparr>da_chunks := (da_chunks da)[ba_chunk addr := chunk\<lparr>tc_free_blocks := bs\<rparr>]\<rparr>)))"

definition ggml_dyn_tallocr_reset :: "ggml_dyn_tallocr \<Rightarrow> ggml_dyn_tallocr" where
  "ggml_dyn_tallocr_reset da = da\<lparr>da_chunks := []\<rparr>"

definition ggml_dyn_tallocr_new :: "nat \<Rightarrow> nat \<Rightarrow> ggml_dyn_tallocr" where
  "ggml_dyn_tallocr_new alignment max_buffer_size =
    ggml_dyn_tallocr_reset \<lparr>da_alignment = alignment, da_max_chunk_size = min max_buffer_size (SIZE_MAX div 2), da_chunks = []\<rparr>"

definition ggml_dyn_tallocr_max_size :: "ggml_dyn_tallocr \<Rightarrow> nat \<Rightarrow> nat" where
  "ggml_dyn_tallocr_max_size da c = (if c < length (da_chunks da) then tc_max_size (da_chunks da ! c) else 0)"

section \<open>Free bytes of a chunk\<close>

definition block_bytes :: "free_block \<Rightarrow> nat set" where
  "block_bytes b = {fb_offset b..<fb_offset b + fb_size b}"

definition free_set :: "free_block list \<Rightarrow> nat set" where
  "free_set bs = \<Union> (block_bytes ` set bs)"

definition before :: "free_block \<Rightarrow> free_block \<Rightarrow> bool" where
  "before a b \<longleftrightarrow> fb_offset a + fb_size a < fb_offset b"

definition blocks_ok :: "free_block list \<Rightarrow> bool" where
  "blocks_ok bs \<longleftrightarrow> sorted_wrt before bs \<and> (\<forall>b \<in> set bs. 0 < fb_size b \<and> fb_offset b + fb_size b \<le> SIZE_MAX)"

lemma u64_le_max [simp]: "x \<le> SIZE_MAX \<Longrightarrow> u64 (int x) = x"
  by (simp add: u64_def SIZE_MAX_def nat_mod_as_int)

lemma u64_add_max [simp]: "x + y \<le> SIZE_MAX \<Longrightarrow> u64 (int x + int y) = x + y"
  using u64_le_max[of "x + y"] by simp

lemma u64_diff_max [simp]: "y \<le> x \<Longrightarrow> x \<le> SIZE_MAX \<Longrightarrow> u64 (int x - int y) = x - y"
  using u64_le_max[of "x - y"] by (simp add: of_nat_diff)

lemma free_set_simps [simp]:
  "free_set [] = {}" "free_set (b # bs) = block_bytes b \<union> free_set bs" "free_set (as @ bs) = free_set as \<union> free_set bs"
  by (auto simp: free_set_def)

lemma blocks_ok_append: "blocks_ok (as @ bs) \<longleftrightarrow> blocks_ok as \<and> blocks_ok bs \<and> (\<forall>a \<in> set as. \<forall>b \<in> set bs. before a b)"
  by (auto simp: blocks_ok_def sorted_wrt_append)

lemma blocks_ok_Cons: "blocks_ok (b # bs) \<longleftrightarrow> 0 < fb_size b \<and> fb_offset b + fb_size b \<le> SIZE_MAX \<and> blocks_ok bs \<and> (\<forall>a \<in> set bs. before b a)"
  by (auto simp: blocks_ok_def)

lemmas blocks_ok_simps = blocks_ok_append blocks_ok_Cons

lemma free_set_after: "\<forall>b \<in> set bs. before a b \<Longrightarrow> x \<in> free_set bs \<Longrightarrow> fb_offset a + fb_size a < x"
  by (fastforce simp: free_set_def block_bytes_def before_def)

lemma free_set_before: "\<forall>a \<in> set as. before a b \<Longrightarrow> x \<in> free_set as \<Longrightarrow> x < fb_offset b"
  by (fastforce simp: free_set_def block_bytes_def before_def)

text \<open>Taking the front of a block.\<close>

lemma take_block_ok:
  assumes ok: "blocks_ok (tc_free_blocks ch)" and i: "i < length (tc_free_blocks ch)" and sz: "0 < sz" "sz \<le> fb_size (tc_free_blocks ch ! i)"
    and r: "take_block sz i ch = Inr (off, ch')"
  shows "blocks_ok (tc_free_blocks ch') \<and> off = fb_offset (tc_free_blocks ch ! i) \<and> {off..<off + sz} \<subseteq> free_set (tc_free_blocks ch) \<and>
    free_set (tc_free_blocks ch') = free_set (tc_free_blocks ch) - {off..<off + sz} \<and> tc_max_size ch' = max (tc_max_size ch) (off + sz) \<and>
    off + sz \<le> SIZE_MAX \<and> fb_offset ` set (tc_free_blocks ch') \<subseteq> insert (off + sz) (fb_offset ` set (tc_free_blocks ch))"
proof -
  let ?bs = "tc_free_blocks ch"
  obtain P b S where bs: "?bs = P @ b # S" "length P = i" using i id_take_nth_drop[OF i] by (metis length_take min.absorb4)
  note ok' = ok[unfolded bs(1) blocks_ok_simps]
  have b: "?bs ! i = b" "\<And>x. ?bs[i := x] = P @ x # S" using bs by (auto simp: nth_append list_update_append)
  have bnd: "fb_offset b + fb_size b \<le> SIZE_MAX" using ok' by simp
  have u: "u64 (int (fb_offset b) + int sz) = fb_offset b + sz" "u64 (int (fb_size b) - int sz) = fb_size b - sz" using sz bnd b by simp_all
  have disj: "\<And>x. x \<in> free_set S \<Longrightarrow> fb_offset b + fb_size b < x" "\<And>x. x \<in> free_set P \<Longrightarrow> x < fb_offset b"
    using free_set_after[of S b] free_set_before[of P b] ok' by auto
  have res: "off = fb_offset b" "tc_max_size ch' = max (tc_max_size ch) (fb_offset b + sz)"
    "tc_free_blocks ch' = (if fb_size b = sz then P @ S else P @ \<lparr>fb_offset = fb_offset b + sz, fb_size = fb_size b - sz\<rparr> # S)"
    using r sz b bs(2) by (auto simp: take_block_def Let_def u remove_block_def and_then_Inr split: if_splits)
  have ok2: "blocks_ok (tc_free_blocks ch')" using ok' sz b unfolding res(3) by (auto simp: blocks_ok_simps before_def)
  have "free_set (tc_free_blocks ch') = free_set ?bs - {off..<off + sz}"
    using sz b(1) unfolding res bs(1) by (auto simp: block_bytes_def dest: disj)
  moreover have "{off..<off + sz} \<subseteq> free_set ?bs" using sz b unfolding res bs(1) by (auto simp: block_bytes_def)
  moreover have "fb_offset ` set (tc_free_blocks ch') \<subseteq> insert (off + sz) (fb_offset ` set ?bs)" unfolding res bs(1) by auto
  ultimately show ?thesis using ok2 res b bnd sz by simp
qed

text \<open>Freeing a region that is disjoint from the free blocks.\<close>

lemma free_scan_skip:
  assumes "n \<le> length bs" "i \<le> n"
    and "\<And>j. i \<le> j \<Longrightarrow> j < n \<Longrightarrow> u64 (int (fb_offset (bs ! j)) + int (fb_size (bs ! j))) \<noteq> off \<and> u64 (int off + int sz) \<noteq> fb_offset (bs ! j)"
  shows "free_scan off sz bs i = free_scan off sz bs n"
  using assms(2,3)
proof (induction "n - i" arbitrary: i)
  case (Suc k)
  then have "i < length bs" "i < n" using assms(1) by auto
  moreover have "free_scan off sz bs (Suc i) = free_scan off sz bs n" using Suc by (intro Suc.hyps(1)) auto
  ultimately show ?case using Suc.prems(2)[of i] by (subst free_scan.simps) (simp add: Let_def)
qed simp

text \<open>The blocks in front of a disjoint region end before it, the others start after it.\<close>

lemma split_at_region:
  assumes "blocks_ok bs" "0 < sz" "{off..<off + sz} \<inter> free_set bs = {}"
  obtains P S where "bs = P @ S" "takeWhile (\<lambda>b. fb_offset b < off) bs = P"
    "\<forall>b \<in> set P. fb_offset b < off \<and> fb_offset b + fb_size b \<le> off" "\<forall>b \<in> set S. off + sz \<le> fb_offset b"
proof (rule that)
  let ?P = "takeWhile (\<lambda>b. fb_offset b < off) bs" and ?S = "dropWhile (\<lambda>b. fb_offset b < off) bs"
  show bs: "bs = ?P @ ?S" "?P = ?P" by simp_all
  have pos: "0 < fb_size b" if "b \<in> set bs" for b using that assms(1) by (auto simp: blocks_ok_def)
  have dj: "x \<notin> {off..<off + sz}" if "b \<in> set bs" "x \<in> block_bytes b" for b x using that assms(3) by (auto simp: free_set_def)
  have "fb_offset b < off \<and> fb_offset b + fb_size b \<le> off" if b: "b \<in> set ?P" for b
    using set_takeWhileD[OF b] dj[of b off] assms(2) by (fastforce simp: block_bytes_def)
  then show "\<forall>b \<in> set ?P. fb_offset b < off \<and> fb_offset b + fb_size b \<le> off" by blast
  have first: "off \<le> fb_offset b" if b: "b \<in> set ?S" for b
  proof -
    obtain s S' where S: "?S = s # S'" using b by (cases ?S) auto
    then have s: "off \<le> fb_offset s" using hd_dropWhile[of "\<lambda>b. fb_offset b < off" bs] by auto
    have "blocks_ok (s # S')" using assms(1) bs(1) S by (metis blocks_ok_append)
    then show ?thesis using b s S by (auto simp: blocks_ok_Cons before_def)
  qed
  have "off + sz \<le> fb_offset b" if b: "b \<in> set ?S" for b
    using first[OF b] dj[of b "fb_offset b"] pos[of b] set_dropWhileD[OF b] by (fastforce simp: block_bytes_def)
  then show "\<forall>b \<in> set ?S. off + sz \<le> fb_offset b" by blast
qed

lemma resize_block: "(p :: free_block)\<lparr>fb_size := x\<rparr> = \<lparr>fb_offset = fb_offset p, fb_size = x\<rparr>"
  by (cases p) simp

lemma free_scan_cases:
  assumes ok: "blocks_ok (P @ S)" and sz: "0 < sz" "off + sz \<le> SIZE_MAX"
    and P: "\<forall>b \<in> set P. fb_offset b < off \<and> fb_offset b + fb_size b \<le> off" and S: "\<forall>b \<in> set S. off + sz \<le> fb_offset b"
  shows "P = P' @ [p] \<Longrightarrow> fb_offset p + fb_size p = off \<Longrightarrow> S = s # S' \<Longrightarrow> off + sz = fb_offset s \<Longrightarrow>
      free_scan off sz (P @ S) 0 = remove_block (length P) (P' @ \<lparr>fb_offset = fb_offset p, fb_size = fb_size p + sz + fb_size s\<rparr> # S)"
    and "P = P' @ [p] \<Longrightarrow> fb_offset p + fb_size p = off \<Longrightarrow> (\<forall>b \<in> set S. off + sz < fb_offset b) \<Longrightarrow>
      free_scan off sz (P @ S) 0 = Inr (P' @ \<lparr>fb_offset = fb_offset p, fb_size = fb_size p + sz\<rparr> # S)"
    and "(\<forall>b \<in> set P. fb_offset b + fb_size b < off) \<Longrightarrow> S = s # S' \<Longrightarrow> off + sz = fb_offset s \<Longrightarrow>
      free_scan off sz (P @ S) 0 = Inr (P @ \<lparr>fb_offset = off, fb_size = sz + fb_size s\<rparr> # S')"
    and "(\<forall>b \<in> set P. fb_offset b + fb_size b < off) \<Longrightarrow> (\<forall>b \<in> set S. off + sz < fb_offset b) \<Longrightarrow>
      free_scan off sz (P @ S) 0 = insert_block off sz (P @ S)"
proof -
  have bnd: "\<And>b. b \<in> set (P @ S) \<Longrightarrow> 0 < fb_size b \<and> fb_offset b + fb_size b \<le> SIZE_MAX" using ok by (auto simp: blocks_ok_def)
  have skip: "free_scan off sz (Q @ R) 0 = free_scan off sz (Q @ R) (length Q)"
    if "\<And>b. b \<in> set Q \<Longrightarrow> fb_offset b + fb_size b \<noteq> off \<and> fb_offset b \<noteq> off + sz" "set Q \<subseteq> set (P @ S)" for Q R
  proof (rule free_scan_skip)
    fix j assume j: "j < length Q"
    then have m: "Q ! j \<in> set Q" by simp
    then have "fb_offset (Q ! j) + fb_size (Q ! j) \<le> SIZE_MAX" using bnd that(2) by blast
    then show "u64 (int (fb_offset ((Q @ R) ! j)) + int (fb_size ((Q @ R) ! j))) \<noteq> off \<and> u64 (int off + int sz) \<noteq> fb_offset ((Q @ R) ! j)"
      using that(1)[OF m] sz j by (auto simp: nth_append)
  qed simp_all
  { assume a: "P = P' @ [p]" "fb_offset p + fb_size p = off"
    have lt: "fb_offset b + fb_size b < fb_offset p" if "b \<in> set P'" for b using that ok a(1) by (auto simp: blocks_ok_simps before_def)
    have "free_scan off sz (P' @ p # S) 0 = free_scan off sz (P' @ p # S) (length P')"
      using lt a P by (intro skip) force+
    then have at: "free_scan off sz (P @ S) 0 = free_scan off sz (P' @ p # S) (length P')" using a(1) by simp
    have p: "u64 (int (fb_offset p) + int (fb_size p)) = off" "u64 (int (fb_size p) + int sz) = fb_size p + sz"
      "u64 (int (fb_offset p) + int (fb_size p + sz)) = off + sz"
      using a sz u64_add_max[of "fb_offset p" "fb_size p + sz"] by simp_all
    note step = at[unfolded free_scan.simps[of off sz "P' @ p # S" "length P'"]]
    show "S = s # S' \<Longrightarrow> off + sz = fb_offset s \<Longrightarrow>
        free_scan off sz (P @ S) 0 = remove_block (length P) (P' @ \<lparr>fb_offset = fb_offset p, fb_size = fb_size p + sz + fb_size s\<rparr> # S)"
      using bnd[of s] a p u64_add_max[of "fb_size p + sz" "fb_size s"] unfolding step
      by (simp add: nth_append Let_def list_update_append resize_block)
    show "(\<forall>b \<in> set S. off + sz < fb_offset b) \<Longrightarrow> free_scan off sz (P @ S) 0 = Inr (P' @ \<lparr>fb_offset = fb_offset p, fb_size = fb_size p + sz\<rparr> # S)"
      using p unfolding step by (cases S) (auto simp: nth_append Let_def list_update_append resize_block) }
  { assume a: "\<forall>b \<in> set P. fb_offset b + fb_size b < off"
    have at: "free_scan off sz (P @ S) 0 = free_scan off sz (P @ S) (length P)" using a by (intro skip) force+
    note step = at[unfolded free_scan.simps[of off sz "P @ S" "length P"]]
    { assume s: "S = s # S'" "off + sz = fb_offset s"
      have prev: "u64 (int (fb_offset (P ! (length P - Suc 0))) + int (fb_size (P ! (length P - Suc 0)))) \<noteq> off" if "P \<noteq> []"
        using that a bnd[of "P ! (length P - 1)"] by (metis One_nat_def Un_iff diff_less length_greater_0_conv less_numeral_extra(1) nat_neq_iff nth_mem set_append u64_add_max)
      show "free_scan off sz (P @ S) 0 = Inr (P @ \<lparr>fb_offset = off, fb_size = sz + fb_size s\<rparr> # S')"
        using bnd[of s] s sz prev unfolding step by (auto simp: nth_append Let_def list_update_append add.commute) }
    { assume "\<forall>b \<in> set S. off + sz < fb_offset b"
      then have "free_scan off sz ((P @ S) @ []) 0 = free_scan off sz ((P @ S) @ []) (length (P @ S))" using a by (intro skip) force+
      then show "free_scan off sz (P @ S) 0 = insert_block off sz (P @ S)" by (simp add: free_scan.simps[of off sz "P @ S" "length P + length S"]) } }
qed

lemma free_scan_ok:
  assumes ok: "blocks_ok bs" and sz: "0 < sz" "off + sz \<le> SIZE_MAX" and dj: "{off..<off + sz} \<inter> free_set bs = {}"
    and r: "free_scan off sz bs 0 = Inr bs'"
  shows "blocks_ok bs' \<and> free_set bs' = free_set bs \<union> {off..<off + sz} \<and> fb_offset ` set bs' \<subseteq> insert off (fb_offset ` set bs)"
proof -
  obtain P S where PS: "bs = P @ S" "takeWhile (\<lambda>b. fb_offset b < off) bs = P"
    and P: "\<forall>b \<in> set P. fb_offset b < off \<and> fb_offset b + fb_size b \<le> off" and S: "\<forall>b \<in> set S. off + sz \<le> fb_offset b"
    by (rule split_at_region[OF ok sz(1) dj]) (rule that; assumption)
  have ok': "blocks_ok (P @ S)" using ok PS(1) by simp
  note cs = free_scan_cases[OF ok' sz P S]
  note r' = r[unfolded PS(1)]
  consider (a) P' p s S' where "P = P' @ [p]" "fb_offset p + fb_size p = off" "S = s # S'" "off + sz = fb_offset s"
    | (b) P' p where "P = P' @ [p]" "fb_offset p + fb_size p = off" "\<forall>b \<in> set S. off + sz < fb_offset b"
    | (c) s S' where "\<forall>b \<in> set P. fb_offset b + fb_size b < off" "S = s # S'" "off + sz = fb_offset s"
    | (d) "\<forall>b \<in> set P. fb_offset b + fb_size b < off" "\<forall>b \<in> set S. off + sz < fb_offset b"
  proof -
    have pre: "(\<exists>P' p. P = P' @ [p] \<and> fb_offset p + fb_size p = off) \<or> (\<forall>b \<in> set P. fb_offset b + fb_size b < off)"
    proof (cases P rule: rev_cases)
      case (snoc P' p)
      then have "\<forall>b \<in> set P'. fb_offset b + fb_size b < fb_offset p" using ok' by (auto simp: blocks_ok_simps before_def)
      moreover have "fb_offset p < off" "fb_offset p + fb_size p \<le> off" using snoc P by auto
      ultimately have "\<forall>b \<in> set P. fb_offset b + fb_size b < off" if "fb_offset p + fb_size p \<noteq> off" using snoc that by auto
      then show ?thesis using snoc by blast
    qed simp
    have post: "(\<exists>s S'. S = s # S' \<and> off + sz = fb_offset s) \<or> (\<forall>b \<in> set S. off + sz < fb_offset b)"
    proof (cases S)
      case (Cons s S')
      then have "\<forall>b \<in> set S'. fb_offset s < fb_offset b" using ok' by (fastforce simp: blocks_ok_simps before_def)
      moreover have "off + sz \<le> fb_offset s" using Cons S by auto
      ultimately have "\<forall>b \<in> set S. off + sz < fb_offset b" if "off + sz \<noteq> fb_offset s" using Cons that by auto
      then show ?thesis using Cons by blast
    qed simp
    show ?thesis using pre post that by blast
  qed
  then show ?thesis
  proof cases
    case a
    have "bs' = P' @ \<lparr>fb_offset = fb_offset p, fb_size = fb_size p + sz + fb_size s\<rparr> # S'"
      using r' cs(1)[OF a] a by (simp add: remove_block_def split: if_splits)
    then show ?thesis using ok' a sz PS(1) by (fastforce simp: blocks_ok_simps before_def block_bytes_def)
  next
    case b
    have "bs' = P' @ \<lparr>fb_offset = fb_offset p, fb_size = fb_size p + sz\<rparr> # S" using r' cs(2)[OF b] by simp
    then show ?thesis using ok' b sz PS(1) by (fastforce simp: blocks_ok_simps before_def block_bytes_def)
  next
    case c
    have "bs' = P @ \<lparr>fb_offset = off, fb_size = sz + fb_size s\<rparr> # S'" using r' cs(3)[OF c] by simp
    then show ?thesis using ok' c sz PS(1) P by (fastforce simp: blocks_ok_simps before_def block_bytes_def)
  next
    case d
    have "bs' = P @ \<lparr>fb_offset = off, fb_size = sz\<rparr> # S"
      using r' cs(4)[OF d] PS by (simp add: insert_block_def Let_def split: if_splits)
    then show ?thesis using ok' d sz PS(1) P by (fastforce simp: blocks_ok_simps before_def block_bytes_def)
  qed
qed

lemma insert_block_length: "length bs < MAX_FREE_BLOCKS \<Longrightarrow> \<exists>bs'. insert_block off sz bs = Inr bs' \<and> length bs' = Suc (length bs)"
  using length_takeWhile_le[of "\<lambda>b. fb_offset b < off" bs] by (auto simp: insert_block_def Let_def)

lemma free_scan_returns: "length bs < MAX_FREE_BLOCKS \<Longrightarrow> \<exists>bs'. free_scan off sz bs i = Inr bs' \<and> length bs' \<le> Suc (length bs)"
proof (induction off sz bs i rule: free_scan.induct)
  case (1 off sz bs i)
  show ?case
  proof (cases "i < length bs")
    case True
    then show ?thesis using 1 by (subst free_scan.simps) (auto simp: Let_def remove_block_def)
  next
    case False
    then show ?thesis using insert_block_length[OF 1(2), of off sz] by (subst free_scan.simps) auto
  qed
qed

section \<open>Choosing a block\<close>

definition block_at :: "ggml_dyn_tallocr \<Rightarrow> nat \<Rightarrow> nat \<times> nat \<Rightarrow> bool" where
  "block_at da sz b \<longleftrightarrow> fst b < length (da_chunks da) \<and> snd b < length (tc_free_blocks (da_chunks da ! fst b)) \<and>
    sz \<le> fb_size (tc_free_blocks (da_chunks da ! fst b) ! snd b)"

lemma best_fit_at: "best_fit sz da = Some b \<Longrightarrow> block_at da sz b"
proof -
  let ?Q = "\<lambda>best. \<forall>b. best = Some b \<longrightarrow> block_at da sz b"
  have "?Q (best_fit sz da)"
    unfolding best_fit_def
  proof (rule fold_invariant[where Q = "\<lambda>c. c < length (da_chunks da)"])
    fix c best assume c: "c < length (da_chunks da)" "?Q best"
    let ?bs = "tc_free_blocks (da_chunks da ! c)"
    have "?Q (fst (fold (fit_step sz c ?bs) [0..<length ?bs - 1] (best, SIZE_MAX)))"
      by (rule fold_invariant[where Q = "\<lambda>i. i < length ?bs" and P = "\<lambda>st. ?Q (fst st)"]) (use c in \<open>auto simp: fit_step_def block_at_def\<close>)
    then show "?Q (fit_chunk sz da c best)" by (simp add: fit_chunk_def Let_def)
  qed auto
  then show "best_fit sz da = Some b \<Longrightarrow> block_at da sz b" by blast
qed

lemma last_fit_at: "last_fit sz da = Some b \<Longrightarrow> block_at da sz b"
proof -
  let ?Q = "\<lambda>st. \<forall>b. fst st = Some b \<longrightarrow> block_at da sz b"
  have "?Q (fold (reuse_step sz da) [0..<length (da_chunks da)] (None, INT64_MIN))"
    by (rule fold_invariant[where Q = "\<lambda>c. c < length (da_chunks da)"]) (auto simp: reuse_step_def block_at_def Let_def)
  then show "last_fit sz da = Some b \<Longrightarrow> block_at da sz b" by (simp add: last_fit_def)
qed

section \<open>The contract of the allocator\<close>

text \<open>Bytes a client does not have: free ones, and all of those outside of the chunks.\<close>

definition avail :: "ggml_dyn_tallocr \<Rightarrow> (nat \<times> nat) set" where
  "avail da = {(c, x). SIZE_MAX \<le> x \<or> length (da_chunks da) \<le> c \<or> x \<in> free_set (tc_free_blocks (da_chunks da ! c))}"

definition region :: "nat \<Rightarrow> buffer_address \<Rightarrow> nat \<Rightarrow> (nat \<times> nat) set" where
  "region alignment a n = {ba_chunk a} \<times> {ba_offset a..<ba_offset a + aligned_offset 0 n alignment}"

definition dyn_ok :: "nat \<Rightarrow> ggml_dyn_tallocr \<Rightarrow> bool" where
  "dyn_ok alignment da \<longleftrightarrow> 0 < alignment \<and> da_alignment da = alignment \<and> da_max_chunk_size da \<le> SIZE_MAX div 2 \<and>
    (\<forall>ch \<in> set (da_chunks da). blocks_ok (tc_free_blocks ch) \<and> (\<forall>b \<in> set (tc_free_blocks ch). alignment dvd fb_offset b))"

definition fits :: "nat \<Rightarrow> nat \<Rightarrow> bool" where
  "fits alignment n \<longleftrightarrow> 0 < n \<and> n + alignment \<le> SIZE_MAX div 2"

lemma aligned_size:
  assumes "0 < alignment" "fits alignment n"
  shows "alignment dvd aligned_offset 0 n alignment" "n \<le> aligned_offset 0 n alignment" "aligned_offset 0 n alignment < n + alignment"
proof -
  let ?a = "(alignment - n mod alignment) mod alignment"
  have a: "?a < alignment" using assms(1) by simp
  have "n + ?a \<le> SIZE_MAX" "n \<le> SIZE_MAX" using assms(2) a unfolding fits_def by (auto simp del: mod_less_divisor)
  then have eq: "aligned_offset 0 n alignment = n + ?a" by (simp add: aligned_offset_def Let_def)
  have "alignment dvd n + ?a"
  proof (cases "n mod alignment = 0")
    case False
    then have "?a = alignment - n mod alignment" using assms(1) by simp
    moreover have "n mod alignment < alignment" using assms(1) by simp
    ultimately have "n + ?a = n div alignment * alignment + alignment" using div_mult_mod_eq[of n alignment] by linarith
    then show ?thesis by simp
  qed auto
  then show "alignment dvd aligned_offset 0 n alignment" "n \<le> aligned_offset 0 n alignment" "aligned_offset 0 n alignment < n + alignment"
    using eq a by simp_all
qed

lemma choose_block_ok:
  assumes "dyn_ok alignment da" "sz \<le> SIZE_MAX div 2" "0 < sz" "choose_block sz da = Inr (b, da')"
  shows "dyn_ok alignment da' \<and> block_at da' sz b \<and> avail da' \<subseteq> avail da \<and> (\<forall>c. ggml_dyn_tallocr_max_size da' c = ggml_dyn_tallocr_max_size da c) \<and>
    (da' = da \<or> (\<exists>z > 0. z \<le> SIZE_MAX \<and>
      da' = da\<lparr>da_chunks := da_chunks da @ [\<lparr>tc_free_blocks = [\<lparr>fb_offset = 0, fb_size = z\<rparr>], tc_max_size = 0\<rparr>]\<rparr>))"
proof (cases "best_fit sz da = None \<and> last_fit sz da = None")
  case True
  then obtain c where nc: "new_chunk sz da = Some (c, da')" "b = (c, 0)" using assms(4) by (auto simp: choose_block_def split: option.splits)
  let ?n = "length (da_chunks da)"
  define z where "z = (if ?n = GGML_VBUFFER_MAX_CHUNKS - 1 then SIZE_MAX div 2 else max sz (da_max_chunk_size da))"
  have z: "sz \<le> z" "z \<le> SIZE_MAX div 2" "c = ?n"
      "da' = da\<lparr>da_chunks := da_chunks da @ [\<lparr>tc_free_blocks = [\<lparr>fb_offset = 0, fb_size = z\<rparr>], tc_max_size = 0\<rparr>]\<rparr>"
    using nc(1) assms(1,2) by (auto simp: z_def new_chunk_def Let_def dyn_ok_def split: if_splits)
  have zm: "z \<le> SIZE_MAX" using z(2) by simp
  have "avail da' \<subseteq> avail da" unfolding z(4) avail_def by (auto simp: nth_append split: if_splits)
  moreover have "ggml_dyn_tallocr_max_size da' c = ggml_dyn_tallocr_max_size da c" for c
    unfolding z(4) by (auto simp: ggml_dyn_tallocr_max_size_def nth_append)
  moreover have "dyn_ok alignment da'" using assms(1,3) z(1) zm unfolding z(4) by (auto simp: dyn_ok_def blocks_ok_def)
  moreover have "block_at da' sz b" using z(1,3) nc(2) unfolding z(4) by (simp add: block_at_def)
  moreover have "0 < z" using z(1) assms(3) by simp
  ultimately show ?thesis using zm z(4) by blast
next
  case False
  then have "da' = da" "block_at da sz b"
    using assms(4) best_fit_at last_fit_at by (auto simp: choose_block_def split: option.splits)
  then show ?thesis using assms(1) by simp
qed

lemma avail_update:
  assumes "c < length (da_chunks da)"
  shows "avail (da\<lparr>da_chunks := (da_chunks da)[c := ch]\<rparr>) = {(c', x) \<in> avail da. c' \<noteq> c} \<union> {c} \<times> ({SIZE_MAX..} \<union> free_set (tc_free_blocks ch))"
  using assms by (auto simp: avail_def nth_list_update split: if_splits)

lemma dyn_ok_update:
  assumes "dyn_ok alignment da" "blocks_ok (tc_free_blocks ch)" "\<forall>b \<in> set (tc_free_blocks ch). alignment dvd fb_offset b"
  shows "dyn_ok alignment (da\<lparr>da_chunks := (da_chunks da)[c := ch]\<rparr>)"
  using assms set_update_subset_insert[of "da_chunks da" c ch] unfolding dyn_ok_def by auto

lemma dyn_alloc_steps:
  assumes "dyn_ok alignment da" "fits alignment n" "ggml_dyn_tallocr_alloc n da = Inr (a, da')"
  obtains i da1 where "choose_block (aligned_offset 0 n alignment) da = Inr ((ba_chunk a, i), da1)" "dyn_ok alignment da'" "alignment dvd ba_offset a"
    "region alignment a n \<subseteq> avail da1" "avail da' = avail da1 - region alignment a n" "length (da_chunks da') = length (da_chunks da1)"
    "\<And>c. ggml_dyn_tallocr_max_size da' c =
      (if c = ba_chunk a then max (ggml_dyn_tallocr_max_size da c) (ba_offset a + aligned_offset 0 n alignment) else ggml_dyn_tallocr_max_size da c)"
proof -
  define sz where "sz = aligned_offset 0 n alignment"
  have al: "0 < alignment" "da_alignment da = alignment" using assms(1) by (auto simp: dyn_ok_def)
  note sz = aligned_size[OF al(1) assms(2), folded sz_def]
  have szb: "0 < sz" "sz \<le> SIZE_MAX div 2" using sz assms(2) by (auto simp: fits_def)
  obtain c i da1 off ch where r: "choose_block sz da = Inr ((c, i), da1)" "take_block sz i (da_chunks da1 ! c) = Inr (off, ch)"
      "a = \<lparr>ba_chunk = c, ba_offset = off\<rparr>" "da' = da1\<lparr>da_chunks := (da_chunks da1)[c := ch]\<rparr>"
    using assms(3) al(2) by (auto simp: ggml_dyn_tallocr_alloc_def Let_def sz_def and_then_Inr)
  have ch: "dyn_ok alignment da1" "block_at da1 sz (c, i)" "\<And>c. ggml_dyn_tallocr_max_size da1 c = ggml_dyn_tallocr_max_size da c"
    using choose_block_ok[OF assms(1) szb(2,1) r(1)] by blast+
  let ?ch = "da_chunks da1 ! c"
  have at: "c < length (da_chunks da1)" "i < length (tc_free_blocks ?ch)" "sz \<le> fb_size (tc_free_blocks ?ch ! i)" using ch by (auto simp: block_at_def)
  have chk: "blocks_ok (tc_free_blocks ?ch)" "\<forall>b \<in> set (tc_free_blocks ?ch). alignment dvd fb_offset b"
    using ch at(1) by (auto simp: dyn_ok_def)
  note tb = take_block_ok[OF chk(1) at(2) szb(1) at(3) r(2)]
  have off: "alignment dvd off" using tb chk(2) at(2) by auto
  have offs: "\<forall>b \<in> set (tc_free_blocks ch). alignment dvd fb_offset b" using tb off chk(2) sz(1) by fastforce
  have reg: "region alignment a n = {c} \<times> {off..<off + sz}" by (simp add: region_def r(3) sz_def)
  show ?thesis
  proof (rule that)
    show "choose_block (aligned_offset 0 n alignment) da = Inr ((ba_chunk a, i), da1)" using r(1,3) by (simp add: sz_def)
    show "dyn_ok alignment da'" unfolding r(4) using ch tb offs by (intro dyn_ok_update) auto
    show "alignment dvd ba_offset a" using off r(3) by simp
    show "region alignment a n \<subseteq> avail da1" using tb at(1) unfolding reg by (auto simp: avail_def)
    show "avail da' = avail da1 - region alignment a n"
      using tb at(1) unfolding r(4) reg avail_update[OF at(1)] by (auto simp: avail_def)
    show "length (da_chunks da') = length (da_chunks da1)" by (simp add: r(4))
    have mc: "tc_max_size ?ch = ggml_dyn_tallocr_max_size da c" using ch at(1) by (metis ggml_dyn_tallocr_max_size_def)
    show "ggml_dyn_tallocr_max_size da' c' =
      (if c' = ba_chunk a then max (ggml_dyn_tallocr_max_size da c') (ba_offset a + aligned_offset 0 n alignment) else ggml_dyn_tallocr_max_size da c')" for c'
    proof -
      have "ggml_dyn_tallocr_max_size da' c' = (if c' = c then tc_max_size ch else ggml_dyn_tallocr_max_size da1 c')"
        using at(1) unfolding r(4) by (auto simp: ggml_dyn_tallocr_max_size_def)
      then show ?thesis using tb mc ch(3) by (simp add: r(3) sz_def)
    qed
  qed
qed

lemma choose_avail:
  assumes "dyn_ok alignment da" "fits alignment n" "choose_block (aligned_offset 0 n alignment) da = Inr (b, da1)"
  shows "avail da1 \<subseteq> avail da" "da1 = da \<or> (\<exists>z > 0. z \<le> SIZE_MAX \<and>
      da1 = da\<lparr>da_chunks := da_chunks da @ [\<lparr>tc_free_blocks = [\<lparr>fb_offset = 0, fb_size = z\<rparr>], tc_max_size = 0\<rparr>]\<rparr>)"
proof -
  have "0 < alignment" using assms(1) by (simp add: dyn_ok_def)
  from aligned_size[OF this assms(2)] have "aligned_offset 0 n alignment \<le> SIZE_MAX div 2" "0 < aligned_offset 0 n alignment"
    using assms(2) by (auto simp: fits_def)
  note ch = choose_block_ok[OF assms(1) this assms(3)]
  show "avail da1 \<subseteq> avail da" "da1 = da \<or> (\<exists>z > 0. z \<le> SIZE_MAX \<and>
      da1 = da\<lparr>da_chunks := da_chunks da @ [\<lparr>tc_free_blocks = [\<lparr>fb_offset = 0, fb_size = z\<rparr>], tc_max_size = 0\<rparr>]\<rparr>)" using ch by blast+
qed

lemma dyn_alloc_law:
  assumes "dyn_ok alignment da" "fits alignment n" "ggml_dyn_tallocr_alloc n da = Inr (a, da')"
  shows "dyn_ok alignment da' \<and> alignment dvd ba_offset a \<and> region alignment a n \<subseteq> avail da \<and> avail da' \<subseteq> avail da - region alignment a n \<and>
    ba_offset a + aligned_offset 0 n alignment \<le> ggml_dyn_tallocr_max_size da' (ba_chunk a) \<and>
    (\<forall>c. ggml_dyn_tallocr_max_size da c \<le> ggml_dyn_tallocr_max_size da' c)"
proof -
  obtain i da1 where s: "choose_block (aligned_offset 0 n alignment) da = Inr ((ba_chunk a, i), da1)" "dyn_ok alignment da'" "alignment dvd ba_offset a"
    "region alignment a n \<subseteq> avail da1" "avail da' = avail da1 - region alignment a n"
    and mx: "\<And>c. ggml_dyn_tallocr_max_size da' c =
      (if c = ba_chunk a then max (ggml_dyn_tallocr_max_size da c) (ba_offset a + aligned_offset 0 n alignment) else ggml_dyn_tallocr_max_size da c)"
    by (rule dyn_alloc_steps[OF assms]) (rule that; assumption)
  then show ?thesis using choose_avail(1)[OF assms(1,2) s(1)] by auto
qed

lemma dyn_free_law:
  assumes "dyn_ok alignment da" "fits alignment n" "alignment dvd ba_offset a" "region alignment a n \<inter> avail da = {}"
    and "ggml_dyn_tallocr_free_bytes a n da = Inr da'"
  shows "dyn_ok alignment da' \<and> avail da' = avail da \<union> region alignment a n \<and>
    (\<forall>c. ggml_dyn_tallocr_max_size da' c = ggml_dyn_tallocr_max_size da c)"
proof -
  define sz where "sz = aligned_offset 0 n alignment"
  let ?c = "ba_chunk a" and ?off = "ba_offset a"
  have al: "0 < alignment" "da_alignment da = alignment" using assms(1) by (auto simp: dyn_ok_def)
  note sz = aligned_size[OF al(1) assms(2), folded sz_def]
  have szb: "0 < sz" using sz assms(2) by (auto simp: fits_def)
  have reg: "region alignment a n = {?c} \<times> {?off..<?off + sz}" by (simp add: region_def sz_def)
  let ?ch = "da_chunks da ! ?c"
  have last: "(?c, ?off + (sz - 1)) \<notin> avail da" 
  proof
    assume "(?c, ?off + (sz - 1)) \<in> avail da"
    moreover have "(?c, ?off + (sz - 1)) \<in> {?c} \<times> {?off..<?off + sz}" using szb by auto
    ultimately show False using assms(4) unfolding reg by blast
  qed
  then have c: "?c < length (da_chunks da)" and bnd: "?off + sz \<le> SIZE_MAX" using szb by (auto simp: avail_def)
  have dj: "{?off..<?off + sz} \<inter> free_set (tc_free_blocks ?ch) = {}" using assms(4) c unfolding reg by (fastforce simp: avail_def)
  have chk: "blocks_ok (tc_free_blocks ?ch)" "\<forall>b \<in> set (tc_free_blocks ?ch). alignment dvd fb_offset b" using assms(1) c by (auto simp: dyn_ok_def)
  obtain bs where r: "free_scan ?off sz (tc_free_blocks ?ch) 0 = Inr bs" "da' = da\<lparr>da_chunks := (da_chunks da)[?c := ?ch\<lparr>tc_free_blocks := bs\<rparr>]\<rparr>"
    using assms(5) al(2) c by (auto simp: ggml_dyn_tallocr_free_bytes_def Let_def sz_def and_then_Inr)
  note fs = free_scan_ok[OF chk(1) szb bnd dj r(1)]
  have "dyn_ok alignment da'" unfolding r(2) using fs chk(2) assms(1,3) by (intro dyn_ok_update) fastforce+
  moreover have "avail da' = avail da \<union> region alignment a n"
    using fs c unfolding r(2) reg avail_update[OF c] by (auto simp: avail_def)
  moreover have "ggml_dyn_tallocr_max_size da' c' = ggml_dyn_tallocr_max_size da c'" for c'
    using c unfolding r(2) by (cases "c' = ?c") (auto simp: ggml_dyn_tallocr_max_size_def)
  ultimately show ?thesis by blast
qed

text \<open>What a client of an allocator relies on: it gets bytes that were available and nobody else gets them before they are
  given back.\<close>

locale region_alloc =
  fixes ok :: "'s \<Rightarrow> bool" and available :: "'s \<Rightarrow> 'x set" and reg :: "'a \<Rightarrow> 'r \<Rightarrow> 'x set" and good :: "'a \<Rightarrow> 'r \<Rightarrow> bool"
    and fit :: "'r \<Rightarrow> bool" and alloc :: "'r \<Rightarrow> 's \<Rightarrow> ('a \<times> 's) res" and release :: "'a \<Rightarrow> 'r \<Rightarrow> 's \<Rightarrow> 's res"
  assumes alloc_law: "ok s \<Longrightarrow> fit n \<Longrightarrow> alloc n s = Inr (a, s') \<Longrightarrow>
      ok s' \<and> good a n \<and> reg a n \<subseteq> available s \<and> available s' \<subseteq> available s - reg a n"
    and release_law: "ok s \<Longrightarrow> good a n \<Longrightarrow> reg a n \<inter> available s = {} \<Longrightarrow> release a n s = Inr s' \<Longrightarrow>
      ok s' \<and> available s' = available s \<union> reg a n"
begin

text \<open>The regions of the clients are disjoint from each other and from what is available.\<close>

definition separated :: "('i \<Rightarrow> 'x set) \<Rightarrow> 'i set \<Rightarrow> 's \<Rightarrow> bool" where
  "separated r I s \<longleftrightarrow> ok s \<and> (\<forall>i \<in> I. r i \<inter> available s = {}) \<and> (\<forall>i \<in> I. \<forall>j \<in> I. i \<noteq> j \<longrightarrow> r i \<inter> r j = {})"

lemma separatedI:
  "ok s \<Longrightarrow> (\<And>i. i \<in> I \<Longrightarrow> r i \<inter> available s = {}) \<Longrightarrow> (\<And>i j. i \<in> I \<Longrightarrow> j \<in> I \<Longrightarrow> i \<noteq> j \<Longrightarrow> r i \<inter> r j = {}) \<Longrightarrow> separated r I s"
  by (simp add: separated_def)

lemma separatedD:
  assumes "separated r I s"
  shows "ok s" "i \<in> I \<Longrightarrow> r i \<inter> available s = {}" "i \<in> I \<Longrightarrow> j \<in> I \<Longrightarrow> i \<noteq> j \<Longrightarrow> r i \<inter> r j = {}"
  using assms by (simp_all add: separated_def)

lemma separated_alloc:
  assumes "separated r I s" "fit n" "alloc n s = Inr (a, s')" "i \<notin> I"
  shows "separated (r(i := reg a n)) (insert i I) s' \<and> good a n"
proof -
  note law = alloc_law[OF _ assms(2,3)]
  have "r j \<inter> reg a n = {}" if "j \<in> I" for j using assms(1) that law unfolding separated_def by blast
  moreover have "r j \<inter> available s' = {}" if "j \<in> I" for j using assms(1) that law unfolding separated_def by blast
  moreover have "reg a n \<inter> available s' = {}" "ok s'" "good a n" using assms(1) law unfolding separated_def by blast+
  ultimately show ?thesis using assms(1,4) by (auto simp: separated_def)
qed

lemma separated_release:
  assumes "separated r I s" "i \<in> I" "r i = reg a n" "good a n" "release a n s = Inr s'"
  shows "separated r (I - {i}) s'"
proof -
  have "reg a n \<inter> available s = {}" using assms(1-3) by (auto simp: separated_def)
  note law = release_law[OF _ assms(4) this assms(5)]
  show ?thesis using assms(1-3) law unfolding separated_def by blast
qed

text \<open>A region that changes hands, and one of which a part is given back.\<close>

lemma separated_transfer:
  assumes "separated r I s" "j \<in> I" "i \<notin> I"
  shows "separated (r(i := r j)) (insert i (I - {j})) s"
proof (rule separatedI)
  note D = separatedD[OF assms(1)]
  show "ok s" by (rule D)
  show "(r(i := r j)) k \<inter> available s = {}" if "k \<in> insert i (I - {j})" for k
    using that D(2)[OF assms(2)] D(2)[of k] by (cases "k = i") auto
  show "(r(i := r j)) k \<inter> (r(i := r j)) l = {}" if "k \<in> insert i (I - {j})" "l \<in> insert i (I - {j})" "k \<noteq> l" for k l
    using that D(3)[of j l] D(3)[of k j] D(3)[of k l] assms(2) by (cases "k = i"; cases "l = i") auto
qed

lemma separated_shrink:
  assumes "separated r I s" "i \<in> I" "r i = A \<union> reg a n" "A \<inter> reg a n = {}" "good a n" "release a n s = Inr s'"
  shows "separated (r(i := A)) I s'"
proof (rule separatedI)
  note D = separatedD[OF assms(1)]
  have "reg a n \<inter> available s = {}" using D(2)[OF assms(2)] assms(3) by blast
  from release_law[OF D(1) assms(5) this assms(6)] have ok: "ok s'" "available s' = available s \<union> reg a n" by blast+
  show "ok s'" by (rule ok)
  show "(r(i := A)) k \<inter> available s' = {}" if "k \<in> I" for k
  proof (cases "k = i")
    case True
    then show ?thesis using D(2)[OF assms(2)] assms(3,4) ok(2) by auto
  next
    case False
    have "r k \<inter> r i = {}" "r k \<inter> available s = {}" using D(2)[OF that] D(3)[OF that assms(2) False] by blast+
    then show ?thesis using False assms(3) ok(2) by auto
  qed
  show "(r(i := A)) k \<inter> (r(i := A)) l = {}" if "k \<in> I" "l \<in> I" "k \<noteq> l" for k l
  proof -
    have "(r(i := A)) k \<subseteq> r k" "(r(i := A)) l \<subseteq> r l" using assms(3) by auto
    then show ?thesis using D(3)[OF that] by blast
  qed
qed

lemma separated_mono: "separated r I s \<Longrightarrow> J \<subseteq> I \<Longrightarrow> separated r J s"
  unfolding separated_def by blast

lemma separated_none: "ok s \<Longrightarrow> separated r {} s"
  by (simp add: separated_def)

end

interpretation dyn: region_alloc "dyn_ok al" avail "region al" "\<lambda>a n. fits al n \<and> al dvd ba_offset a" "fits al" ggml_dyn_tallocr_alloc ggml_dyn_tallocr_free_bytes
  for al
proof
  show "dyn_ok al s' \<and> (fits al n \<and> al dvd ba_offset a) \<and> region al a n \<subseteq> avail s \<and> avail s' \<subseteq> avail s - region al a n"
    if "dyn_ok al s" "fits al n" "ggml_dyn_tallocr_alloc n s = Inr (a, s')" for s s' n a using dyn_alloc_law[OF that] that(2) by blast
  show "dyn_ok al s' \<and> avail s' = avail s \<union> region al a n"
    if "dyn_ok al s" "fits al n \<and> al dvd ba_offset a" "region al a n \<inter> avail s = {}" "ggml_dyn_tallocr_free_bytes a n s = Inr s'" for s s' a n
    using dyn_free_law[OF that(1) _ _ that(3,4)] that(2) by blast
qed

section \<open>Runs of the allocator\<close>

text \<open>Calls in any order; what has been allocated and not freed yet is listed with the size asked for, under a number.\<close>

inductive alloc_run :: "nat \<Rightarrow> nat \<Rightarrow> ggml_dyn_tallocr \<Rightarrow> (nat \<rightharpoonup> buffer_address \<times> nat) \<Rightarrow> bool" for al mx where
  start: "alloc_run al mx (ggml_dyn_tallocr_new al mx) Map.empty"
| alloc: "alloc_run al mx da live \<Longrightarrow> fits al n \<Longrightarrow> ggml_dyn_tallocr_alloc n da = Inr (a, da') \<Longrightarrow> k \<notin> dom live \<Longrightarrow> alloc_run al mx da' (live(k \<mapsto> (a, n)))"
| free: "alloc_run al mx da live \<Longrightarrow> live k = Some (a, n) \<Longrightarrow> ggml_dyn_tallocr_free_bytes a n da = Inr da' \<Longrightarrow> alloc_run al mx da' (live(k := None))"
| reset: "alloc_run al mx da live \<Longrightarrow> alloc_run al mx (ggml_dyn_tallocr_reset da) Map.empty"

definition live_region :: "nat \<Rightarrow> (nat \<rightharpoonup> buffer_address \<times> nat) \<Rightarrow> nat \<Rightarrow> (nat \<times> nat) set" where
  "live_region al live k = (case live k of None \<Rightarrow> {} | Some (a, n) \<Rightarrow> region al a n)"

lemma alloc_run_inv:
  assumes "alloc_run al mx da live" "0 < al"
  shows "dyn.separated al (live_region al live) (dom live) da \<and>
    (\<forall>k a n. live k = Some (a, n) \<longrightarrow> fits al n \<and> al dvd ba_offset a \<and>
      ba_offset a + aligned_offset 0 n al \<le> ggml_dyn_tallocr_max_size da (ba_chunk a))"
  using assms
proof (induction rule: alloc_run.induct)
  case start
  then have "dyn_ok al (ggml_dyn_tallocr_new al mx)" by (simp add: ggml_dyn_tallocr_new_def ggml_dyn_tallocr_reset_def dyn_ok_def)
  from dyn.separated_none[OF this] show ?case by simp
next
  case (alloc da live n a da' k)
  note law = dyn_alloc_law[OF _ alloc.hyps(2,3)]
  have "dyn.separated al ((live_region al live)(k := region al a n)) (insert k (dom live)) da'"
    using dyn.separated_alloc[of al "live_region al live" "dom live" da n a da' k] alloc by blast
  moreover have "(live_region al live)(k := region al a n) = live_region al (live(k \<mapsto> (a, n)))" by (rule ext) (simp add: live_region_def)
  ultimately have sep: "dyn.separated al (live_region al (live(k \<mapsto> (a, n)))) (dom (live(k \<mapsto> (a, n)))) da'" by simp
  have "dyn_ok al da" using alloc.IH alloc.prems by (simp add: dyn.separated_def)
  note law' = law[OF this]
  have "ba_offset b + aligned_offset 0 m al \<le> ggml_dyn_tallocr_max_size da' (ba_chunk b)" if j: "live j = Some (b, m)" for j b m
  proof -
    have "ba_offset b + aligned_offset 0 m al \<le> ggml_dyn_tallocr_max_size da (ba_chunk b)" using alloc.IH[OF alloc.prems] j by blast
    also have "\<dots> \<le> ggml_dyn_tallocr_max_size da' (ba_chunk b)" using law' by blast
    finally show ?thesis .
  qed
  then have "\<forall>j b m. (live(k \<mapsto> (a, n))) j = Some (b, m) \<longrightarrow> fits al m \<and> al dvd ba_offset b \<and>
      ba_offset b + aligned_offset 0 m al \<le> ggml_dyn_tallocr_max_size da' (ba_chunk b)"
    using law' alloc.IH[OF alloc.prems] alloc.hyps(2) by (simp split: if_splits)
  with sep show ?case by blast
next
  case (free da live k a n da')
  have sep: "dyn.separated al (live_region al live) (dom live) da" and good: "fits al n" "al dvd ba_offset a"
    using free by auto
  have r: "live_region al live k = region al a n" using free.hyps(2) by (simp add: live_region_def)
  have "dyn.separated al (live_region al live) (dom live - {k}) da'"
    using dyn.separated_release[OF sep _ r _ free.hyps(3)] free.hyps(2) good by auto
  then have "dyn.separated al (live_region al (live(k := None))) (dom (live(k := None))) da'" by (auto simp: dyn.separated_def live_region_def)
  moreover have "region al a n \<inter> avail da = {}" "dyn_ok al da" using sep free.hyps(2) r by (auto simp: dyn.separated_def)
  then have "\<forall>c. ggml_dyn_tallocr_max_size da' c = ggml_dyn_tallocr_max_size da c" using dyn_free_law[OF _ good _ free.hyps(3)] by blast
  then have "\<forall>j b m. (live(k := None)) j = Some (b, m) \<longrightarrow> fits al m \<and> al dvd ba_offset b \<and>
      ba_offset b + aligned_offset 0 m al \<le> ggml_dyn_tallocr_max_size da' (ba_chunk b)"
    using free.IH[OF free.prems] by (simp split: if_splits)
  ultimately show ?case by blast
next
  case (reset da live)
  then have "dyn_ok al da" unfolding dyn.separated_def by blast
  then have "dyn_ok al (ggml_dyn_tallocr_reset da)" by (simp add: ggml_dyn_tallocr_reset_def dyn_ok_def)
  from dyn.separated_none[OF this] show ?case by simp
qed

text \<open>C10. Whatever is allocated and freed in whatever order, two live tensors never share a byte; each of them is aligned, as large as asked
  for, and inside the size that is reported for its chunk.\<close>

theorem dyn_alloc_safe:
  assumes "alloc_run al mx da live" "0 < al" "live k = Some (a, n)"
  shows "(\<forall>j b m. live j = Some (b, m) \<longrightarrow> j \<noteq> k \<longrightarrow> region al a n \<inter> region al b m = {}) \<and> al dvd ba_offset a \<and>
    n \<le> aligned_offset 0 n al \<and> ba_offset a + aligned_offset 0 n al \<le> ggml_dyn_tallocr_max_size da (ba_chunk a)"
proof -
  note inv = alloc_run_inv[OF assms(1,2)]
  have "region al a n \<inter> region al b m = {}" if "live j = Some (b, m)" "j \<noteq> k" for j b m
  proof -
    have "live_region al live k \<inter> live_region al live j = {}" using inv that assms(3) unfolding dyn.separated_def by blast
    then show ?thesis using that assms(3) by (simp add: live_region_def)
  qed
  then show ?thesis using inv assms(3) aligned_size(2)[OF assms(2)] by blast
qed

text \<open>Every byte of a chunk is free or belongs to one of the live regions.\<close>

definition covered :: "nat \<Rightarrow> ggml_dyn_tallocr \<Rightarrow> (nat \<rightharpoonup> buffer_address \<times> nat) \<Rightarrow> nat \<Rightarrow> nat set" where
  "covered al da live c = {x. x < SIZE_MAX \<and> ((c, x) \<in> avail da \<or> (\<exists>k \<in> dom live. (c, x) \<in> live_region al live k))}"

lemma alloc_run_covers:
  assumes "alloc_run al mx da live" "0 < al" "c < length (da_chunks da)"
  shows "\<exists>z > 0. z \<le> SIZE_MAX \<and> covered al da live c = {..<z}"
  using assms
proof (induction arbitrary: c rule: alloc_run.induct)
  case start
  then show ?case by (simp add: ggml_dyn_tallocr_new_def ggml_dyn_tallocr_reset_def)
next
  case (alloc da live n a da' k)
  have ok: "dyn_ok al da" using alloc_run_inv[OF alloc.hyps(1) alloc.prems(1)] unfolding dyn.separated_def by blast
  obtain i da1 where s: "choose_block (aligned_offset 0 n al) da = Inr ((ba_chunk a, i), da1)"
      "region al a n \<subseteq> avail da1" "avail da' = avail da1 - region al a n" "length (da_chunks da') = length (da_chunks da1)"
    by (rule dyn_alloc_steps[OF ok alloc.hyps(2,3)]) (rule that; assumption)
  have old: "live_region al (live(k \<mapsto> (a, n))) j = (if j = k then region al a n else live_region al live j)" for j
    by (simp add: live_region_def)
  have split: "covered al da' (live(k \<mapsto> (a, n))) c = covered al da1 live c" for c
    using s(2,3) alloc.hyps(4) by (auto simp: covered_def old split: if_splits)
  consider "da1 = da" | z where "0 < z" "z \<le> SIZE_MAX"
      "da1 = da\<lparr>da_chunks := da_chunks da @ [\<lparr>tc_free_blocks = [\<lparr>fb_offset = 0, fb_size = z\<rparr>], tc_max_size = 0\<rparr>]\<rparr>"
    using choose_avail(2)[OF ok alloc.hyps(2) s(1)] by blast
  then show ?case
  proof cases
    case 1
    then show ?thesis using alloc.IH[OF alloc.prems(1), of c] alloc.prems(2) s(4) unfolding split by simp
  next
    case (2 z)
    show ?thesis
    proof (cases "c < length (da_chunks da)")
      case True
      then have "covered al da1 live c = covered al da live c" unfolding 2(3) by (simp add: covered_def avail_def nth_append)
      then show ?thesis using alloc.IH[OF alloc.prems(1) True] unfolding split by simp
    next
      case False
      then have c: "c = length (da_chunks da)" using alloc.prems(2) s(4) unfolding 2(3) by simp
      have none: "(c, x) \<notin> live_region al live j" if "x < SIZE_MAX" "j \<in> dom live" for x j
        using alloc_run_inv[OF alloc.hyps(1) alloc.prems(1)] that c unfolding dyn.separated_def by (fastforce simp: avail_def)
      then have "covered al da1 live c = {..<z}"
        using 2(2) c unfolding 2(3) by (auto simp: covered_def avail_def block_bytes_def)
      then show ?thesis using 2(1,2) split by blast
    qed
  qed
next
  case (free da live k a n da')
  note inv = alloc_run_inv[OF free.hyps(1) free.prems(1)]
  have r: "live_region al live k = region al a n" using free.hyps(2) by (simp add: live_region_def)
  have "region al a n \<inter> avail da = {}" "dyn_ok al da" "fits al n" "al dvd ba_offset a"
    using inv free.hyps(2) r unfolding dyn.separated_def by blast+
  then have av: "avail da' = avail da \<union> region al a n" using dyn_free_law[OF _ _ _ _ free.hyps(3)] by blast
  have "covered al da' (live(k := None)) c = covered al da live c"
  proof -
    have "live_region al (live(k := None)) j = live_region al live j" if "j \<noteq> k" for j using that by (simp add: live_region_def)
    then have "(\<exists>j \<in> dom live. y \<in> live_region al live j) \<longleftrightarrow> y \<in> region al a n \<or> (\<exists>j \<in> dom (live(k := None)). y \<in> live_region al (live(k := None)) j)" for y
      using r free.hyps(2) unfolding dom_fun_upd by (metis DiffE DiffI domI singletonD singletonI)
    then show ?thesis unfolding covered_def av by blast
  qed
  moreover have "length (da_chunks da') = length (da_chunks da)"
    using free.hyps(3) by (auto simp: ggml_dyn_tallocr_free_bytes_def Let_def and_then_Inr split: if_splits)
  ultimately show ?case using free.IH[OF free.prems(1), of c] free.prems(2) by metis
next
  case (reset da live)
  then show ?case by (simp add: ggml_dyn_tallocr_reset_def)
qed

lemma blocks_of_interval:
  assumes "blocks_ok bs" "free_set bs = {..<z}" "0 < z"
  shows "bs = [\<lparr>fb_offset = 0, fb_size = z\<rparr>]"
proof (cases bs)
  case Nil
  then show ?thesis using assms(2,3) by auto
next
  case (Cons b cs)
  have ok: "0 < fb_size b" "blocks_ok cs" "\<forall>a \<in> set cs. before b a" using assms(1) Cons by (auto simp: blocks_ok_Cons)
  have after: "fb_offset b + fb_size b < x" if "x \<in> free_set cs" for x using free_set_after[OF ok(3) that] .
  have U: "block_bytes b \<union> free_set cs = {..<z}" using assms(2) Cons by simp
  have "(0 :: nat) \<in> {..<z}" using assms(3) by simp
  then have off: "fb_offset b = 0" using after[of 0] unfolding U[symmetric] by (auto simp: block_bytes_def)
  have "cs = []"
  proof (rule ccontr)
    assume "cs \<noteq> []"
    then obtain c where c: "c \<in> set cs" by (cases cs) auto
    have "fb_offset c \<in> free_set cs" using c ok(2) by (force simp: free_set_def block_bytes_def blocks_ok_def)
    then have "fb_offset c \<in> {..<z}" "fb_offset b + fb_size b < fb_offset c" using after U by blast+
    then have "fb_offset b + fb_size b \<in> block_bytes b \<union> free_set cs" unfolding U by simp
    then show False using after[of "fb_offset b + fb_size b"] by (auto simp: block_bytes_def)
  qed
  then have "{..<fb_size b} = {..<z}" using U unfolding block_bytes_def off by (simp add: atLeast0LessThan)
  then show ?thesis using Cons \<open>cs = []\<close> off by (cases b) (auto simp: lessThan_eq_iff)
qed

text \<open>Nothing leaks and nothing stays fragmented: when everything has been freed, in whatever order, every chunk is one free block again.\<close>

theorem dyn_alloc_no_leak:
  assumes "alloc_run al mx da Map.empty" "0 < al" "ch \<in> set (da_chunks da)"
  shows "\<exists>z > 0. tc_free_blocks ch = [\<lparr>fb_offset = 0, fb_size = z\<rparr>]"
proof -
  obtain c where c: "c < length (da_chunks da)" "ch = da_chunks da ! c" using assms(3) by (auto simp: in_set_conv_nth)
  obtain z where z: "0 < z" "z \<le> SIZE_MAX" "covered al da Map.empty c = {..<z}" using alloc_run_covers[OF assms(1,2) c(1)] by blast
  have ok: "blocks_ok (tc_free_blocks ch)" using alloc_run_inv[OF assms(1,2)] assms(3) unfolding dyn.separated_def dyn_ok_def by blast
  have "x < SIZE_MAX" if x: "x \<in> free_set (tc_free_blocks ch)" for x
  proof -
    obtain b where "b \<in> set (tc_free_blocks ch)" "x < fb_offset b + fb_size b" using x by (auto simp: free_set_def block_bytes_def)
    then show ?thesis using ok unfolding blocks_ok_def by (meson less_le_trans)
  qed
  then have "free_set (tc_free_blocks ch) = {..<z}" using z(3) c by (auto simp: covered_def avail_def)
  from blocks_of_interval[OF ok this z(1)] show ?thesis using z(1) by blast
qed

text \<open>The allocator ends the process only when the array of free blocks is full or all sixteen chunks are in use.\<close>

theorem dyn_alloc_returns:
  assumes "dyn_ok al da" "fits al n" "\<forall>ch \<in> set (da_chunks da). length (tc_free_blocks ch) < MAX_FREE_BLOCKS"
  shows "(length (da_chunks da) < GGML_VBUFFER_MAX_CHUNKS \<longrightarrow> (\<exists>r. ggml_dyn_tallocr_alloc n da = Inr r)) \<and>
    (\<exists>da'. ba_chunk a < length (da_chunks da) \<longrightarrow> ggml_dyn_tallocr_free_bytes a n da = Inr da')"
proof (intro conjI impI)
  let ?sz = "aligned_offset 0 n al"
  have al: "0 < al" "da_alignment da = al" using assms(1) by (auto simp: dyn_ok_def)
  have sz: "?sz \<le> SIZE_MAX div 2" "0 < ?sz" using aligned_size[OF al(1) assms(2)] assms(2) by (auto simp: fits_def)
  { assume "length (da_chunks da) < GGML_VBUFFER_MAX_CHUNKS"
    then have "\<exists>r. choose_block ?sz da = Inr r" by (auto simp: choose_block_def new_chunk_def Let_def split: option.splits)
    then obtain c i da1 where cb: "choose_block ?sz da = Inr ((c, i), da1)" by (metis prod.exhaust)
    note ch = choose_block_ok[OF assms(1) sz cb]
    then have c: "c < length (da_chunks da1)" by (simp add: block_at_def)
    have "\<forall>ch \<in> set (da_chunks da1). length (tc_free_blocks ch) < MAX_FREE_BLOCKS"
      using assms(3) ch by (auto simp: MAX_FREE_BLOCKS_def)
    then have "length (tc_free_blocks (da_chunks da1 ! c)) < MAX_FREE_BLOCKS" using c by simp
    then have "\<exists>r. take_block ?sz i (da_chunks da1 ! c) = Inr r" by (simp add: take_block_def Let_def remove_block_def)
    then show "\<exists>r. ggml_dyn_tallocr_alloc n da = Inr r" using cb al(2) by (auto simp: ggml_dyn_tallocr_alloc_def Let_def) }
  show "\<exists>da'. ba_chunk a < length (da_chunks da) \<longrightarrow> ggml_dyn_tallocr_free_bytes a n da = Inr da'"
    using free_scan_returns[of "tc_free_blocks (da_chunks da ! ba_chunk a)" "ba_offset a" ?sz 0] assms(3) al(2)
    by (fastforce simp: ggml_dyn_tallocr_free_bytes_def Let_def)
qed

text \<open>The search for the best fit starts anew in every chunk: here a block of 64 bytes is taken although one of 32 would fit exactly.\<close>

lemma best_fit_not_global:
  "best_fit 32 \<lparr>da_alignment = 32, da_max_chunk_size = 256, da_chunks =
     [\<lparr>tc_free_blocks = [\<lparr>fb_offset = 0, fb_size = 32\<rparr>, \<lparr>fb_offset = 96, fb_size = 160\<rparr>], tc_max_size = 96\<rparr>,
      \<lparr>tc_free_blocks = [\<lparr>fb_offset = 0, fb_size = 64\<rparr>, \<lparr>fb_offset = 96, fb_size = 160\<rparr>], tc_max_size = 96\<rparr>]\<rparr> = Some (1, 0)"
  by (simp add: best_fit_def fit_chunk_def fit_step_def SIZE_MAX_def Let_def upt_rec)

section \<open>A concrete run\<close>

definition ex_da :: "free_block list \<Rightarrow> nat \<Rightarrow> ggml_dyn_tallocr" where
  "ex_da bs mx = \<lparr>da_alignment = 32, da_max_chunk_size = 1024, da_chunks = [\<lparr>tc_free_blocks = bs, tc_max_size = mx\<rparr>]\<rparr>"

lemmas alloc_eval = ggml_dyn_tallocr_alloc_def aligned_offset_def choose_block_def best_fit_def fit_chunk_def fit_step_def last_fit_def reuse_step_def
  new_chunk_def take_block_def ggml_dyn_tallocr_free_bytes_def insert_block_def remove_block_def Let_def u64_def signed_at_def SIZE_MAX_def
  INT64_MIN_def GGML_VBUFFER_MAX_CHUNKS_def MAX_FREE_BLOCKS_def upt_rec

lemma ex_run:
  "ggml_dyn_tallocr_alloc 100 (ggml_dyn_tallocr_new 32 1024) = Inr (\<lparr>ba_chunk = 0, ba_offset = 0\<rparr>, ex_da [\<lparr>fb_offset = 128, fb_size = 896\<rparr>] 128)"
  "ggml_dyn_tallocr_alloc 50 (ex_da [\<lparr>fb_offset = 128, fb_size = 896\<rparr>] 128) = Inr (\<lparr>ba_chunk = 0, ba_offset = 128\<rparr>, ex_da [\<lparr>fb_offset = 192, fb_size = 832\<rparr>] 192)"
  "ggml_dyn_tallocr_free_bytes \<lparr>ba_chunk = 0, ba_offset = 0\<rparr> 100 (ex_da [\<lparr>fb_offset = 192, fb_size = 832\<rparr>] 192) =
     Inr (ex_da [\<lparr>fb_offset = 0, fb_size = 128\<rparr>, \<lparr>fb_offset = 192, fb_size = 832\<rparr>] 192)"
  "ggml_dyn_tallocr_free_bytes \<lparr>ba_chunk = 0, ba_offset = 128\<rparr> 50 (ex_da [\<lparr>fb_offset = 0, fb_size = 128\<rparr>, \<lparr>fb_offset = 192, fb_size = 832\<rparr>] 192) =
     Inr (ex_da [\<lparr>fb_offset = 0, fb_size = 1024\<rparr>] 192)"
  by (simp_all add: alloc_eval ggml_dyn_tallocr_new_def ggml_dyn_tallocr_reset_def ex_da_def free_scan.simps)

lemma ex_requests: "fits 32 100" "fits 32 50"
  by (simp_all add: fits_def SIZE_MAX_def)

lemma ex_alloc_run:
  "alloc_run 32 1024 (ex_da [\<lparr>fb_offset = 192, fb_size = 832\<rparr>] 192) [0 \<mapsto> (\<lparr>ba_chunk = 0, ba_offset = 0\<rparr>, 100), 1 \<mapsto> (\<lparr>ba_chunk = 0, ba_offset = 128\<rparr>, 50)]"
proof -
  have "alloc_run 32 1024 (ex_da [\<lparr>fb_offset = 128, fb_size = 896\<rparr>] 128) [0 \<mapsto> (\<lparr>ba_chunk = 0, ba_offset = 0\<rparr>, 100)]"
    by (rule alloc_run.alloc[OF alloc_run.start ex_requests(1) ex_run(1)]) simp
  from alloc_run.alloc[OF this ex_requests(2) ex_run(2), of 1] show ?thesis by simp
qed

theorem dyn_alloc_safe_witness:
  "region 32 \<lparr>ba_chunk = 0, ba_offset = 0\<rparr> 100 \<inter> region 32 \<lparr>ba_chunk = 0, ba_offset = 128\<rparr> 50 = {} \<and> 128 + aligned_offset 0 50 32 \<le> (192 :: nat)"
proof -
  let ?live = "[0 \<mapsto> (\<lparr>ba_chunk = 0, ba_offset = 0\<rparr>, 100), 1 \<mapsto> (\<lparr>ba_chunk = 0, ba_offset = 128\<rparr>, 50)] :: nat \<rightharpoonup> buffer_address \<times> nat"
  have k: "?live 1 = Some (\<lparr>ba_chunk = 0, ba_offset = 128\<rparr>, 50)" "?live 0 = Some (\<lparr>ba_chunk = 0, ba_offset = 0\<rparr>, 100)" by simp_all
  note safe = dyn_alloc_safe[OF ex_alloc_run _ k(1)]
  have "region 32 \<lparr>ba_chunk = 0, ba_offset = 128\<rparr> 50 \<inter> region 32 \<lparr>ba_chunk = 0, ba_offset = 0\<rparr> 100 = {}"
    using safe k(2) by (metis zero_neq_one zero_less_numeral)
  moreover have "128 + aligned_offset 0 50 32 \<le> 192" using safe by (simp add: ex_da_def ggml_dyn_tallocr_max_size_def)
  ultimately show ?thesis by blast
qed

theorem dyn_alloc_no_leak_witness:
  "\<exists>z > 0. tc_free_blocks \<lparr>tc_free_blocks = [\<lparr>fb_offset = 0, fb_size = 1024\<rparr>], tc_max_size = 192\<rparr> = [\<lparr>fb_offset = 0, fb_size = z\<rparr>]"
proof -
  have "alloc_run 32 1024 (ex_da [\<lparr>fb_offset = 0, fb_size = 128\<rparr>, \<lparr>fb_offset = 192, fb_size = 832\<rparr>] 192)
      ([0 \<mapsto> (\<lparr>ba_chunk = 0, ba_offset = 0\<rparr>, 100), 1 \<mapsto> (\<lparr>ba_chunk = 0, ba_offset = 128\<rparr>, 50)](0 := None))"
    by (rule alloc_run.free[OF ex_alloc_run _ ex_run(3)]) simp
  then have "alloc_run 32 1024 (ex_da [\<lparr>fb_offset = 0, fb_size = 1024\<rparr>] 192)
      ([0 \<mapsto> (\<lparr>ba_chunk = 0, ba_offset = 0\<rparr>, 100), 1 \<mapsto> (\<lparr>ba_chunk = 0, ba_offset = 128\<rparr>, 50)](0 := None, 1 := None))"
    by (rule alloc_run.free[OF _ _ ex_run(4)]) simp
  moreover have "[0 \<mapsto> x, 1 \<mapsto> y](0 := None, 1 := None) = (Map.empty :: nat \<rightharpoonup> _)" for x y :: "buffer_address \<times> nat" by (rule ext) simp
  ultimately have run: "alloc_run 32 1024 (ex_da [\<lparr>fb_offset = 0, fb_size = 1024\<rparr>] 192) Map.empty" by metis
  show ?thesis by (rule dyn_alloc_no_leak[OF run]) (simp_all add: ex_da_def)
qed

theorem dyn_alloc_returns_witness:
  "(\<exists>r. ggml_dyn_tallocr_alloc 100 (ex_da [\<lparr>fb_offset = 0, fb_size = 1024\<rparr>] 0) = Inr r)"
proof -
  have "dyn_ok 32 (ex_da [\<lparr>fb_offset = 0, fb_size = 1024\<rparr>] 0)" by (simp add: dyn_ok_def ex_da_def blocks_ok_def SIZE_MAX_def)
  from dyn_alloc_returns[OF this ex_requests(1)] show ?thesis by (simp add: ex_da_def MAX_FREE_BLOCKS_def GGML_VBUFFER_MAX_CHUNKS_def)
qed

end
