(* ===== verification/Graph_Alloc.thy ===== *)
theory Graph_Alloc
  imports Tensor_Alloc State_Io
begin

text \<open>
  The graph allocator (\<^verbatim>\<open>ggml_gallocr\<close> in \<^verbatim>\<open>ggml-alloc.c\<close>): it walks the nodes of a compute graph in order, gives every tensor
  an address when it is first needed, lets an operation write over an operand nobody else needs, and frees a tensor after
  its last use. Tensors are numbers; the hash table from tensors to their bookkeeping is a function, as it never
  loses an entry. What a buffer type does (alignment, sizes, allocation) is a parameter.
\<close>

section \<open>Graphs\<close>

record gtensor =
  gt_type :: int
  gt_ne :: "int list"
  gt_nb :: "nat list"
  gt_op :: nat
  gt_src :: "nat option list"
  gt_view_src :: "nat option"
  gt_view_offs :: nat
  gt_input :: bool
  gt_output :: bool
  gt_data :: nat
  gt_buffer :: bool

record ggml_cgraph =
  cg_nodes :: "nat list"
  cg_leafs :: "nat list"
  cg_tensor :: "nat \<Rightarrow> gtensor"

record buffer_type =
  bt_alignment :: nat
  bt_max_size :: nat
  bt_alloc_size :: "gtensor \<Rightarrow> nat"

text \<open>Numbers of the operations that may work in place: \<^verbatim>\<open>ADD\<close>, \<^verbatim>\<open>ADD_ID\<close>, \<^verbatim>\<open>ADD1\<close>, \<^verbatim>\<open>SUB\<close>, \<^verbatim>\<open>MUL\<close>, \<^verbatim>\<open>DIV\<close>, \<^verbatim>\<open>SQR\<close>, \<^verbatim>\<open>SQRT\<close>, \<^verbatim>\<open>LOG\<close>,
  \<^verbatim>\<open>SILU_BACK\<close>, \<^verbatim>\<open>RMS_NORM\<close>, \<^verbatim>\<open>RMS_NORM_BACK\<close>, \<^verbatim>\<open>SCALE\<close>, \<^verbatim>\<open>DIAG_MASK_INF\<close>, \<^verbatim>\<open>DIAG_MASK_ZERO\<close>, \<^verbatim>\<open>SOFT_MAX\<close>,
  \<^verbatim>\<open>SOFT_MAX_BACK\<close>, \<^verbatim>\<open>ROPE\<close>, \<^verbatim>\<open>ROPE_BACK\<close>, \<^verbatim>\<open>FILL\<close>, \<^verbatim>\<open>UNARY\<close>.\<close>

definition ggml_op_can_inplace :: "nat \<Rightarrow> bool" where
  "ggml_op_can_inplace op \<longleftrightarrow> op \<in> set [2, 3, 4, 6, 7, 8, 9, 10, 11, 23, 25, 26, 32, 44, 45, 46, 47, 48, 49, 72, 85]"

abbreviation GGML_OP_NONE :: nat where "GGML_OP_NONE \<equiv> 0"

definition ggml_are_same_layout :: "gtensor \<Rightarrow> gtensor \<Rightarrow> bool" where
  "ggml_are_same_layout a b \<longleftrightarrow> gt_type a = gt_type b \<and> list_all (\<lambda>i. gt_ne a ! i = gt_ne b ! i \<and> gt_nb a ! i = gt_nb b ! i) [0..<GGML_MAX_DIMS]"

abbreviation is_view :: "gtensor \<Rightarrow> bool" where
  "is_view t \<equiv> gt_view_src t \<noteq> None"

definition GGML_MAX_SRC :: nat where "GGML_MAX_SRC = 10"

definition srcs :: "gtensor \<Rightarrow> nat list" where
  "srcs t = concat (map (case_option [] (\<lambda>s. [s])) (gt_src t))"

section \<open>The allocator of a graph\<close>

record hash_node =
  hn_n_children :: int
  hn_n_views :: int
  hn_buffer_id :: nat
  hn_addr :: buffer_address
  hn_allocated :: bool

text \<open>Buffer types that occur several times share one dynamic allocator, so the allocators are kept by buffer type.\<close>

record ggml_gallocr =
  ga_bufts :: "nat list"
  ga_talloc :: "nat \<Rightarrow> ggml_dyn_tallocr"
  ga_hash :: "nat \<Rightarrow> hash_node"

definition hash_zero :: hash_node where
  "hash_zero = \<lparr>hn_n_children = 0, hn_n_views = 0, hn_buffer_id = 0, hn_addr = \<lparr>ba_chunk = 0, ba_offset = 0\<rparr>, hn_allocated = False\<rparr>"

definition ggml_gallocr_new_n :: "(nat \<Rightarrow> buffer_type) \<Rightarrow> nat list \<Rightarrow> ggml_gallocr" where
  "ggml_gallocr_new_n T bufts =
    \<lparr>ga_bufts = bufts, ga_talloc = (\<lambda>b. ggml_dyn_tallocr_new (bt_alignment (T b)) (bt_max_size (T b))), ga_hash = (\<lambda>_. hash_zero)\<rparr>"

definition upd_hash :: "nat \<Rightarrow> (hash_node \<Rightarrow> hash_node) \<Rightarrow> ggml_gallocr \<Rightarrow> ggml_gallocr" where
  "upd_hash t f ga = ga\<lparr>ga_hash := (ga_hash ga)(t := f (ga_hash ga t))\<rparr>"

definition ggml_gallocr_is_own :: "ggml_gallocr \<Rightarrow> nat \<Rightarrow> bool" where
  "ggml_gallocr_is_own ga t = hn_allocated (ga_hash ga t)"

definition ggml_gallocr_is_allocated :: "ggml_cgraph \<Rightarrow> ggml_gallocr \<Rightarrow> nat \<Rightarrow> bool" where
  "ggml_gallocr_is_allocated G ga t \<longleftrightarrow> gt_data (cg_tensor G t) \<noteq> 0 \<or> gt_buffer (cg_tensor G t) \<or> ggml_gallocr_is_own ga t"

definition buft_at :: "ggml_gallocr \<Rightarrow> nat \<Rightarrow> nat res" where
  "buft_at ga bid = (if bid < length (ga_bufts ga) then Inr (ga_bufts ga ! bid) else Inl Undefined)"

definition free_extra_space :: "(nat \<Rightarrow> buffer_type) \<Rightarrow> ggml_cgraph \<Rightarrow> nat \<Rightarrow> nat \<Rightarrow> ggml_gallocr \<Rightarrow> ggml_gallocr res" where
  "free_extra_space T G node parent ga =
    (let hn = ga_hash ga node; p_hn = ga_hash ga parent in
     and_then (buft_at ga (hn_buffer_id p_hn)) (\<lambda>p_buft. and_then (buft_at ga (hn_buffer_id hn)) (\<lambda>buft.
       let parent_size = bt_alloc_size (T p_buft) (cg_tensor G parent); node_size = bt_alloc_size (T buft) (cg_tensor G node);
           p_alloc = ga_talloc ga p_buft;
           p_aligned = aligned_offset 0 parent_size (da_alignment p_alloc); n_aligned = aligned_offset 0 node_size (da_alignment p_alloc) in
       if parent_size < node_size then Inl Abort
       else if p_aligned > n_aligned then
         and_then (ggml_dyn_tallocr_free_bytes ((hn_addr p_hn)\<lparr>ba_offset := u64 (int (ba_offset (hn_addr p_hn)) + int n_aligned)\<rparr>) (p_aligned - n_aligned) p_alloc) (\<lambda>da.
           Inr (ga\<lparr>ga_talloc := (ga_talloc ga)(p_buft := da)\<rparr>))
       else Inr ga)))"

definition take_over :: "nat \<Rightarrow> nat \<Rightarrow> ggml_gallocr \<Rightarrow> ggml_gallocr" where
  "take_over node parent ga =
    (let p_hn = ga_hash ga parent in
     upd_hash parent (\<lambda>hn. hn\<lparr>hn_allocated := False\<rparr>)
      (upd_hash node (\<lambda>hn. hn\<lparr>hn_buffer_id := hn_buffer_id p_hn, hn_addr := hn_addr p_hn\<rparr>) ga))"

text \<open>The search for an operand to overwrite; \<open>None\<close> when there is none.\<close>

primrec try_inplace :: "(nat \<Rightarrow> buffer_type) \<Rightarrow> ggml_cgraph \<Rightarrow> nat \<Rightarrow> nat list \<Rightarrow> ggml_gallocr \<Rightarrow> ggml_gallocr option res" where
  "try_inplace T G node [] ga = Inr None"
| "try_inplace T G node (parent # ps) ga =
    (let p = cg_tensor G parent; p_hn = ga_hash ga parent; continue = try_inplace T G node ps ga in
     if \<not> ggml_gallocr_is_own ga parent then continue
     else if gt_output p \<or> (case gt_view_src p of None \<Rightarrow> False | Some v \<Rightarrow> gt_output (cg_tensor G v)) then continue
     else if \<not> ggml_are_same_layout (cg_tensor G node) p then continue
     else if hn_n_children p_hn = 1 \<and> hn_n_views p_hn = 0 then
       (case gt_view_src p of
          Some view_src \<Rightarrow>
            let v_hn = ga_hash ga view_src in
            if hn_n_views v_hn = 1 \<and> hn_n_children v_hn = 0 \<and> gt_data (cg_tensor G view_src) = gt_data p then
              and_then (free_extra_space T G node view_src (upd_hash view_src (\<lambda>hn. hn\<lparr>hn_allocated := False\<rparr>) (take_over node parent ga))) (\<lambda>ga. Inr (Some ga))
            else continue
        | None \<Rightarrow> and_then (free_extra_space T G node parent (take_over node parent ga)) (\<lambda>ga. Inr (Some ga)))
     else continue)"

definition alloc_fresh :: "(nat \<Rightarrow> buffer_type) \<Rightarrow> ggml_cgraph \<Rightarrow> nat \<Rightarrow> nat \<Rightarrow> ggml_gallocr \<Rightarrow> ggml_gallocr res" where
  "alloc_fresh T G node buffer_id ga =
    and_then (buft_at ga buffer_id) (\<lambda>buft.
    and_then (ggml_dyn_tallocr_alloc (bt_alloc_size (T buft) (cg_tensor G node)) (ga_talloc ga buft)) (\<lambda>(addr, da).
      Inr (upd_hash node (\<lambda>hn. hn\<lparr>hn_buffer_id := buffer_id, hn_addr := addr\<rparr>) (ga\<lparr>ga_talloc := (ga_talloc ga)(buft := da)\<rparr>))))"

definition allocate_node :: "(nat \<Rightarrow> buffer_type) \<Rightarrow> ggml_cgraph \<Rightarrow> int \<Rightarrow> nat \<Rightarrow> ggml_gallocr \<Rightarrow> ggml_gallocr res" where
  "allocate_node T G buffer_id node ga =
    (if buffer_id < 0 then Inl Abort
     else if ggml_gallocr_is_allocated G ga node \<or> is_view (cg_tensor G node) then Inr ga
     else
       let ga1 = upd_hash node (\<lambda>hn. hn\<lparr>hn_allocated := True\<rparr>) ga in
       and_then (if ggml_op_can_inplace (gt_op (cg_tensor G node)) then try_inplace T G node (srcs (cg_tensor G node)) ga1 else Inr None) (\<lambda>r.
         case r of Some ga2 \<Rightarrow> Inr ga2 | None \<Rightarrow> alloc_fresh T G node (nat buffer_id) ga1))"

definition free_node :: "(nat \<Rightarrow> buffer_type) \<Rightarrow> ggml_cgraph \<Rightarrow> nat \<Rightarrow> ggml_gallocr \<Rightarrow> ggml_gallocr res" where
  "free_node T G node ga =
    (if gt_output (cg_tensor G node) then Inr ga
     else
       let hn = ga_hash ga node in
       and_then (buft_at ga (hn_buffer_id hn)) (\<lambda>buft.
       and_then (ggml_dyn_tallocr_free_bytes (hn_addr hn) (bt_alloc_size (T buft) (cg_tensor G node)) (ga_talloc ga buft)) (\<lambda>da.
         Inr (upd_hash node (\<lambda>hn. hn\<lparr>hn_allocated := False\<rparr>) (ga\<lparr>ga_talloc := (ga_talloc ga)(buft := da)\<rparr>)))))"

definition get_node_buffer_id :: "int list option \<Rightarrow> nat \<Rightarrow> int" where
  "get_node_buffer_id ids i = (case ids of None \<Rightarrow> 0 | Some ids \<Rightarrow> ids ! i)"

definition alloc_leafs :: "(nat \<Rightarrow> buffer_type) \<Rightarrow> ggml_cgraph \<Rightarrow> int list option \<Rightarrow> ggml_gallocr \<Rightarrow> ggml_gallocr res" where
  "alloc_leafs T G leaf_ids = each (\<lambda>i. allocate_node T G (get_node_buffer_id leaf_ids i) (cg_leafs G ! i)) [0..<length (cg_leafs G)]"

definition count_src :: "(nat \<Rightarrow> buffer_type) \<Rightarrow> ggml_cgraph \<Rightarrow> int \<Rightarrow> nat \<Rightarrow> ggml_gallocr \<Rightarrow> ggml_gallocr res" where
  "count_src T G buffer_id src ga =
    (let ga1 = upd_hash src (\<lambda>hn. hn\<lparr>hn_n_children := hn_n_children hn + 1\<rparr>) ga in
     if gt_input (cg_tensor G src) then allocate_node T G buffer_id src ga1 else Inr ga1)"

definition count_node :: "(nat \<Rightarrow> buffer_type) \<Rightarrow> ggml_cgraph \<Rightarrow> int list option \<Rightarrow> nat \<Rightarrow> ggml_gallocr \<Rightarrow> ggml_gallocr res" where
  "count_node T G node_ids i ga =
    (let node = cg_nodes G ! i; t = cg_tensor G node; buffer_id = get_node_buffer_id node_ids i;
         ga1 = (case gt_view_src t of
                  Some view_src \<Rightarrow> if gt_op t \<noteq> GGML_OP_NONE then upd_hash view_src (\<lambda>hn. hn\<lparr>hn_n_views := hn_n_views hn + 1\<rparr>) ga else ga
                | None \<Rightarrow> ga) in
     and_then (if gt_input t then allocate_node T G buffer_id node ga1 else Inr ga1) (each (count_src T G buffer_id) (srcs t)))"

definition update_parent :: "(nat \<Rightarrow> buffer_type) \<Rightarrow> ggml_cgraph \<Rightarrow> nat \<Rightarrow> ggml_gallocr \<Rightarrow> ggml_gallocr res" where
  "update_parent T G parent ga =
    (let ga1 = upd_hash parent (\<lambda>hn. hn\<lparr>hn_n_children := hn_n_children hn - 1\<rparr>) ga; p_hn = ga_hash ga1 parent in
     if hn_n_children p_hn = 0 \<and> hn_n_views p_hn = 0 then
       (case gt_view_src (cg_tensor G parent) of
          Some view_src \<Rightarrow>
            let ga2 = upd_hash view_src (\<lambda>hn. hn\<lparr>hn_n_views := hn_n_views hn - 1\<rparr>) ga1; v_hn = ga_hash ga2 view_src in
            if hn_n_views v_hn = 0 \<and> hn_n_children v_hn = 0 \<and> hn_allocated v_hn then free_node T G view_src ga2 else Inr ga2
        | None \<Rightarrow> if hn_allocated p_hn then free_node T G parent ga1 else Inr ga1)
     else Inr ga1)"

definition alloc_for_node :: "(nat \<Rightarrow> buffer_type) \<Rightarrow> ggml_cgraph \<Rightarrow> int list option \<Rightarrow> nat \<Rightarrow> ggml_gallocr \<Rightarrow> ggml_gallocr res" where
  "alloc_for_node T G node_ids i ga =
    (let node = cg_nodes G ! i; buffer_id = get_node_buffer_id node_ids i in
     and_then (each (allocate_node T G buffer_id) (srcs (cg_tensor G node)) ga) (allocate_node T G buffer_id node))"

definition plan_node :: "(nat \<Rightarrow> buffer_type) \<Rightarrow> ggml_cgraph \<Rightarrow> int list option \<Rightarrow> nat \<Rightarrow> ggml_gallocr \<Rightarrow> ggml_gallocr res" where
  "plan_node T G node_ids i ga =
    and_then (alloc_for_node T G node_ids i ga) (each (update_parent T G) (srcs (cg_tensor G (cg_nodes G ! i))))"

definition alloc_inputs :: "(nat \<Rightarrow> buffer_type) \<Rightarrow> ggml_cgraph \<Rightarrow> int list option \<Rightarrow> int list option \<Rightarrow> ggml_gallocr \<Rightarrow> ggml_gallocr res" where
  "alloc_inputs T G node_ids leaf_ids ga =
    and_then (alloc_leafs T G leaf_ids (ga\<lparr>ga_hash := (\<lambda>_. hash_zero)\<rparr>)) (each (count_node T G node_ids) [0..<length (cg_nodes G)])"

definition alloc_graph_impl :: "(nat \<Rightarrow> buffer_type) \<Rightarrow> ggml_cgraph \<Rightarrow> int list option \<Rightarrow> int list option \<Rightarrow> ggml_gallocr \<Rightarrow> ggml_gallocr res" where
  "alloc_graph_impl T G node_ids leaf_ids ga =
    and_then (alloc_inputs T G node_ids leaf_ids ga) (each (plan_node T G node_ids) [0..<length (cg_nodes G)])"

section \<open>Several allocators as one\<close>

type_synonym tallocs = "nat \<Rightarrow> ggml_dyn_tallocr"

definition mavail :: "tallocs \<Rightarrow> (nat \<times> nat \<times> nat) set" where
  "mavail f = {(b, y). y \<in> avail (f b)}"

definition mreg :: "(nat \<Rightarrow> buffer_type) \<Rightarrow> nat \<times> buffer_address \<Rightarrow> nat \<times> nat \<Rightarrow> (nat \<times> nat \<times> nat) set" where
  "mreg T a r = {fst a} \<times> region (bt_alignment (T (fst a))) (snd a) (snd r)"

definition mgood :: "(nat \<Rightarrow> buffer_type) \<Rightarrow> nat \<times> buffer_address \<Rightarrow> nat \<times> nat \<Rightarrow> bool" where
  "mgood T a r \<longleftrightarrow> fst a = fst r \<and> fits (bt_alignment (T (fst a))) (snd r) \<and> bt_alignment (T (fst a)) dvd ba_offset (snd a)"

definition malloc :: "nat \<times> nat \<Rightarrow> tallocs \<Rightarrow> ((nat \<times> buffer_address) \<times> tallocs) res" where
  "malloc r f = and_then (ggml_dyn_tallocr_alloc (snd r) (f (fst r))) (\<lambda>(a, da). Inr ((fst r, a), f(fst r := da)))"

definition mrelease :: "nat \<times> buffer_address \<Rightarrow> nat \<times> nat \<Rightarrow> tallocs \<Rightarrow> tallocs res" where
  "mrelease a r f = and_then (ggml_dyn_tallocr_free_bytes (snd a) (snd r) (f (fst a))) (\<lambda>da. Inr (f(fst a := da)))"

lemma mavail_upd: "mavail (f(b := da)) = {y \<in> mavail f. fst y \<noteq> b} \<union> {b} \<times> avail da"
  by (auto simp: mavail_def split: if_splits)

interpretation multi: region_alloc "\<lambda>f. \<forall>b. dyn_ok (bt_alignment (T b)) (f b)" mavail "mreg T" "mgood T" "\<lambda>r. fits (bt_alignment (T (fst r))) (snd r)" malloc mrelease
  for T
proof
  show "(\<forall>b. dyn_ok (bt_alignment (T b)) (s' b)) \<and> mgood T a r \<and> mreg T a r \<subseteq> mavail s \<and> mavail s' \<subseteq> mavail s - mreg T a r"
    if ok: "\<forall>b. dyn_ok (bt_alignment (T b)) (s b)" and ft: "fits (bt_alignment (T (fst r))) (snd r)" and al: "malloc r s = Inr (a, s')" for s r a s'
  proof -
    obtain x da where x: "ggml_dyn_tallocr_alloc (snd r) (s (fst r)) = Inr (x, da)" "a = (fst r, x)" "s' = s(fst r := da)"
      using al by (auto simp: malloc_def and_then_Inr)
    note law = dyn_alloc_law[OF spec[OF ok] ft x(1)]
    have "mavail s' \<subseteq> mavail s - mreg T a r" using law unfolding x(3) mavail_upd by (auto simp: x(2) mreg_def mavail_def)
    moreover have "mreg T a r \<subseteq> mavail s" using law by (auto simp: x(2) mreg_def mavail_def)
    ultimately show ?thesis using law ok ft unfolding x(2,3) by (simp add: mgood_def)
  qed
  show "(\<forall>b. dyn_ok (bt_alignment (T b)) (s' b)) \<and> mavail s' = mavail s \<union> mreg T a r"
    if ok: "\<forall>b. dyn_ok (bt_alignment (T b)) (s b)" and g: "mgood T a r" and dj: "mreg T a r \<inter> mavail s = {}" and rl: "mrelease a r s = Inr s'" for s a r s'
  proof -
    obtain da where x: "ggml_dyn_tallocr_free_bytes (snd a) (snd r) (s (fst a)) = Inr da" "s' = s(fst a := da)"
      using rl by (auto simp: mrelease_def and_then_Inr)
    have "region (bt_alignment (T (fst a))) (snd a) (snd r) \<inter> avail (s (fst a)) = {}" using dj by (auto simp: mreg_def mavail_def)
    then have law: "dyn_ok (bt_alignment (T (fst a))) da" "avail da = avail (s (fst a)) \<union> region (bt_alignment (T (fst a))) (snd a) (snd r)"
      using dyn_free_law[OF spec[OF ok] _ _ _ x(1)] g by (auto simp: mgood_def)
    have "mavail s' = mavail s \<union> mreg T a r" unfolding x(2) mavail_upd law(2) by (auto simp: mreg_def mavail_def)
    then show ?thesis using law(1) ok unfolding x(2) by simp
  qed
qed

lemma aligned_mono: "0 < al \<Longrightarrow> fits al m \<Longrightarrow> fits al n \<Longrightarrow> m \<le> n \<Longrightarrow> aligned_offset 0 m al \<le> aligned_offset 0 n al"
proof (rule ccontr)
  assume a: "0 < al" "fits al m" "fits al n" "m \<le> n" "\<not> aligned_offset 0 m al \<le> aligned_offset 0 n al"
  note m = aligned_size[OF a(1,2)] and n = aligned_size[OF a(1,3)]
  obtain i j where ij: "aligned_offset 0 m al = al * i" "aligned_offset 0 n al = al * j" using m(1) n(1) by (auto simp: dvd_def)
  have "j < i" using a(5) ij a(1) by simp
  then have "al * Suc j \<le> al * i" by (intro mult_le_mono2) simp
  then show False using m(3) n(2) a(4) ij by simp
qed

lemma aligned_id: "0 < al \<Longrightarrow> fits al m \<Longrightarrow> al dvd m \<Longrightarrow> aligned_offset 0 m al = m"
proof -
  assume a: "0 < al" "fits al m" "al dvd m"
  note m = aligned_size[OF a(1,2)]
  obtain i j where ij: "m = al * i" "aligned_offset 0 m al = al * j" using m(1) a(3) by (auto simp: dvd_def)
  have "i \<le> j" using m(2) ij a(1) by simp
  moreover have "al * j < al * Suc i" using m(3) ij by simp
  then have "j < Suc i" using a(1) by (metis mult_less_cancel1)
  ultimately show ?thesis using ij by simp
qed

lemma region_bounds:
  assumes "0 < al" "fits al n" "region al a n \<inter> avail da = {}"
  shows "ba_chunk a < length (da_chunks da)" "ba_offset a + aligned_offset 0 n al \<le> SIZE_MAX"
proof -
  let ?z = "aligned_offset 0 n al"
  have "0 < ?z" using aligned_size(2)[OF assms(1,2)] assms(2) by (simp add: fits_def)
  then have "(ba_chunk a, ba_offset a + (?z - 1)) \<in> region al a n" by (auto simp: region_def)
  then have "(ba_chunk a, ba_offset a + (?z - 1)) \<notin> avail da" using assms(3) by blast
  then show "ba_chunk a < length (da_chunks da)" "ba_offset a + ?z \<le> SIZE_MAX" using \<open>0 < ?z\<close> by (auto simp: avail_def)
qed

section \<open>What the allocator owns\<close>

definition plain :: "ggml_cgraph \<Rightarrow> nat \<Rightarrow> bool" where
  "plain G t \<longleftrightarrow> \<not> is_view (cg_tensor G t) \<and> gt_data (cg_tensor G t) = 0 \<and> \<not> gt_buffer (cg_tensor G t)"

definition owned :: "ggml_gallocr \<Rightarrow> nat set" where
  "owned ga = {t. hn_allocated (ga_hash ga t)}"

definition place :: "ggml_gallocr \<Rightarrow> nat \<Rightarrow> nat \<times> buffer_address" where
  "place ga t = (ga_bufts ga ! hn_buffer_id (ga_hash ga t), hn_addr (ga_hash ga t))"

definition tsize :: "(nat \<Rightarrow> buffer_type) \<Rightarrow> ggml_cgraph \<Rightarrow> nat \<Rightarrow> nat \<Rightarrow> nat" where
  "tsize T G b t = bt_alloc_size (T b) (cg_tensor G t)"

definition tensor_region :: "(nat \<Rightarrow> buffer_type) \<Rightarrow> ggml_cgraph \<Rightarrow> ggml_gallocr \<Rightarrow> nat \<Rightarrow> (nat \<times> nat \<times> nat) set" where
  "tensor_region T G ga t = mreg T (place ga t) (fst (place ga t), tsize T G (fst (place ga t)) t)"

definition place_end :: "(nat \<Rightarrow> buffer_type) \<Rightarrow> ggml_cgraph \<Rightarrow> ggml_gallocr \<Rightarrow> nat \<Rightarrow> nat" where
  "place_end T G ga t = ba_offset (snd (place ga t)) + aligned_offset 0 (tsize T G (fst (place ga t)) t) (bt_alignment (T (fst (place ga t))))"

definition sizes_ok :: "(nat \<Rightarrow> buffer_type) \<Rightarrow> ggml_cgraph \<Rightarrow> nat list \<Rightarrow> bool" where
  "sizes_ok T G bufts \<longleftrightarrow> (\<forall>b. 0 < bt_alignment (T b)) \<and> (\<forall>t b. plain G t \<longrightarrow> b \<in> set bufts \<longrightarrow> fits (bt_alignment (T b)) (tsize T G b t))"

definition gal_inv :: "(nat \<Rightarrow> buffer_type) \<Rightarrow> ggml_cgraph \<Rightarrow> ggml_gallocr \<Rightarrow> bool" where
  "gal_inv T G ga \<longleftrightarrow> multi.separated T (tensor_region T G ga) (owned ga) (ga_talloc ga) \<and>
    (\<forall>t \<in> owned ga. plain G t \<and> hn_buffer_id (ga_hash ga t) < length (ga_bufts ga) \<and> bt_alignment (T (fst (place ga t))) dvd ba_offset (snd (place ga t)) \<and>
      place_end T G ga t \<le> ggml_dyn_tallocr_max_size (ga_talloc ga (fst (place ga t))) (ba_chunk (snd (place ga t))))"

definition grows :: "ggml_gallocr \<Rightarrow> ggml_gallocr \<Rightarrow> bool" where
  "grows ga ga' \<longleftrightarrow> ga_bufts ga' = ga_bufts ga \<and>
    (\<forall>b c. ggml_dyn_tallocr_max_size (ga_talloc ga b) c \<le> ggml_dyn_tallocr_max_size (ga_talloc ga' b) c)"

lemma grows_trans: "grows ga ga' \<Longrightarrow> grows ga' ga'' \<Longrightarrow> grows ga ga''"
  unfolding grows_def by (metis order_trans)

lemma upd_hash_simps [simp]:
  "ga_bufts (upd_hash t f ga) = ga_bufts ga" "ga_talloc (upd_hash t f ga) = ga_talloc ga"
  "ga_hash (upd_hash t f ga) = (ga_hash ga)(t := f (ga_hash ga t))"
  by (simp_all add: upd_hash_def)

lemma gal_invD:
  assumes "gal_inv T G ga"
  shows "multi.separated T (tensor_region T G ga) (owned ga) (ga_talloc ga)"
    and "t \<in> owned ga \<Longrightarrow> plain G t" and "t \<in> owned ga \<Longrightarrow> hn_buffer_id (ga_hash ga t) < length (ga_bufts ga)"
    and "t \<in> owned ga \<Longrightarrow> bt_alignment (T (fst (place ga t))) dvd ba_offset (snd (place ga t))"
    and "t \<in> owned ga \<Longrightarrow> place_end T G ga t \<le> ggml_dyn_tallocr_max_size (ga_talloc ga (fst (place ga t))) (ba_chunk (snd (place ga t)))"
  using assms by (auto simp: gal_inv_def)

lemma place_fst: "t \<in> owned ga \<Longrightarrow> gal_inv T G ga \<Longrightarrow> fst (place ga t) \<in> set (ga_bufts ga)"
  using gal_invD(3)[of T G ga t] by (simp add: place_def)

lemma separated_cong:
  assumes "multi.separated T r I f" "\<And>t. t \<in> I \<Longrightarrow> r' t = r t"
  shows "multi.separated T r' I f"
proof (rule multi.separatedI)
  note D = multi.separatedD[OF assms(1)]
  show "\<forall>b. dyn_ok (bt_alignment (T b)) (f b)" by (rule D)
  show "r' t \<inter> mavail f = {}" if "t \<in> I" for t using D(2)[OF that] assms(2)[OF that] by simp
  show "r' t \<inter> r' u = {}" if "t \<in> I" "u \<in> I" "t \<noteq> u" for t u using D(3)[OF that] assms(2)[OF that(1)] assms(2)[OF that(2)] by simp
qed

text \<open>A new tensor from its allocator.\<close>

lemma alloc_fresh_inv:
  assumes inv: "gal_inv T G ga" and sz: "sizes_ok T G (ga_bufts ga)" and t: "plain G t" "t \<notin> owned ga"
    and r: "alloc_fresh T G t bid (upd_hash t (\<lambda>hn. hn\<lparr>hn_allocated := True\<rparr>) ga) = Inr ga'"
  shows "gal_inv T G ga' \<and> grows ga ga' \<and> owned ga' = insert t (owned ga) \<and> (\<forall>u. u \<noteq> t \<longrightarrow> ga_hash ga' u = ga_hash ga u) \<and>
    hn_n_children (ga_hash ga' t) = hn_n_children (ga_hash ga t) \<and> hn_n_views (ga_hash ga' t) = hn_n_views (ga_hash ga t)"
proof -
  obtain b a da where b: "bid < length (ga_bufts ga)" "b = ga_bufts ga ! bid"
      and al: "ggml_dyn_tallocr_alloc (tsize T G b t) (ga_talloc ga b) = Inr (a, da)"
      and ga': "ga' = upd_hash t (\<lambda>hn. hn\<lparr>hn_buffer_id := bid, hn_addr := a\<rparr>) ((upd_hash t (\<lambda>hn. hn\<lparr>hn_allocated := True\<rparr>) ga)\<lparr>ga_talloc := (ga_talloc ga)(b := da)\<rparr>)"
    using r by (auto simp: alloc_fresh_def buft_at_def and_then_Inr tsize_def split: if_splits)
  have ft: "fits (bt_alignment (T b)) (tsize T G b t)" using sz t(1) b unfolding sizes_ok_def by simp
  have f: "ga_bufts ga' = ga_bufts ga" "ga_talloc ga' = (ga_talloc ga)(b := da)" "\<And>u. u \<noteq> t \<Longrightarrow> ga_hash ga' u = ga_hash ga u"
    "hn_buffer_id (ga_hash ga' t) = bid" "hn_addr (ga_hash ga' t) = a" "hn_allocated (ga_hash ga' t)"
    "hn_n_children (ga_hash ga' t) = hn_n_children (ga_hash ga t)" "hn_n_views (ga_hash ga' t) = hn_n_views (ga_hash ga t)"
    unfolding ga' by (simp_all add: upd_hash_def)
  have ow: "owned ga' = insert t (owned ga)"
  proof (rule set_eqI)
    show "u \<in> owned ga' \<longleftrightarrow> u \<in> insert t (owned ga)" for u using f(3)[of u] f(6) by (cases "u = t") (simp_all add: owned_def)
  qed
  have pl: "place ga' t = (b, a)" "\<And>u. u \<noteq> t \<Longrightarrow> place ga' u = place ga u" using f b(2) by (simp_all add: place_def)
  have ml: "malloc (b, tsize T G b t) (ga_talloc ga) = Inr ((b, a), ga_talloc ga')" using al f(2) by (simp add: malloc_def)
  note D = gal_invD[OF inv]
  from multi.separated_alloc[OF D(1) _ ml t(2)] ft
  have "multi.separated T ((tensor_region T G ga)(t := mreg T (b, a) (b, tsize T G b t))) (owned ga') (ga_talloc ga')" by (simp add: ow)
  then have sep: "multi.separated T (tensor_region T G ga') (owned ga') (ga_talloc ga')"
    by (rule separated_cong) (auto simp: tensor_region_def pl)
  have "dyn_ok (bt_alignment (T b)) (ga_talloc ga b)" using multi.separatedD(1)[OF D(1)] by blast
  note law = dyn_alloc_law[OF this ft al]
  have gr: "grows ga ga'" using f(1,2) law by (auto simp: grows_def)
  have "place_end T G ga' u \<le> ggml_dyn_tallocr_max_size (ga_talloc ga' (fst (place ga' u))) (ba_chunk (snd (place ga' u)))" if "u \<in> owned ga'" for u
  proof (cases "u = t")
    case True
    then show ?thesis using law f(2) pl(1) by (simp add: place_end_def)
  next
    case False
    then have "u \<in> owned ga" using that ow by simp
    from D(5)[OF this] show ?thesis using gr False pl(2) by (auto simp: place_end_def grows_def intro: order_trans)
  qed
  moreover have "plain G u \<and> hn_buffer_id (ga_hash ga' u) < length (ga_bufts ga') \<and> bt_alignment (T (fst (place ga' u))) dvd ba_offset (snd (place ga' u))"
    if "u \<in> owned ga'" for u
    using that ow D(2-4) t(1) law b(1) f pl by (cases "u = t") auto
  ultimately show ?thesis using sep ow gr f(3,7,8) unfolding gal_inv_def by blast
qed

text \<open>A tensor that takes over the memory of an operand; what is left over of it is freed.\<close>

lemma shrink_region:
  assumes "0 < al" "fits al m" "fits al n" "n \<le> m" "aligned_offset 0 n al < aligned_offset 0 m al"
    and "ba_offset a + aligned_offset 0 m al \<le> SIZE_MAX" "al dvd ba_offset a"
  defines "a' \<equiv> a\<lparr>ba_offset := u64 (int (ba_offset a) + int (aligned_offset 0 n al))\<rparr>" and "e \<equiv> aligned_offset 0 m al - aligned_offset 0 n al"
  shows "fits al e" "al dvd ba_offset a'" "region al a m = region al a n \<union> region al a' e" "region al a n \<inter> region al a' e = {}"
proof -
  let ?m = "aligned_offset 0 m al" and ?n = "aligned_offset 0 n al"
  note sm = aligned_size[OF assms(1,2)] and sn = aligned_size[OF assms(1,3)]
  have off: "ba_offset a' = ba_offset a + ?n" "ba_chunk a' = ba_chunk a" using assms(5,6) unfolding a'_def by simp_all
  have "al \<le> ?n" using sn(1,2) assms(3) by (auto simp: fits_def dest!: dvd_imp_le)
  then show ft: "fits al e" using assms(2,5) sm(3) unfolding e_def fits_def by linarith
  have "al dvd e" using sm(1) sn(1) unfolding e_def by (rule dvd_diff_nat)
  then have e: "aligned_offset 0 e al = ?m - ?n" using aligned_id[OF assms(1) ft] e_def by simp
  show "al dvd ba_offset a'" using off assms(7) sn(1) by simp
  show "region al a m = region al a n \<union> region al a' e" "region al a n \<inter> region al a' e = {}"
    using assms(5) by (auto simp: region_def off e)
qed

lemma take_over_inv:
  assumes inv: "gal_inv T G ga" and sz: "sizes_ok T G (ga_bufts ga)" and t: "plain G t" "t \<notin> owned ga" and p: "p \<in> owned ga"
    and r: "free_extra_space T G t p (take_over t p (upd_hash t (\<lambda>hn. hn\<lparr>hn_allocated := True\<rparr>) ga)) = Inr ga'"
  shows "gal_inv T G ga' \<and> grows ga ga' \<and> owned ga' = insert t (owned ga - {p}) \<and> place ga' t = place ga p \<and> (\<forall>u. u \<noteq> t \<longrightarrow> place ga' u = place ga u) \<and>
    (\<forall>u. hn_n_children (ga_hash ga' u) = hn_n_children (ga_hash ga u) \<and> hn_n_views (ga_hash ga' u) = hn_n_views (ga_hash ga u))"
proof -
  note D = gal_invD[OF inv]
  have pt: "p \<noteq> t" using p t(2) by blast
  define ga1 where "ga1 = take_over t p (upd_hash t (\<lambda>hn. hn\<lparr>hn_allocated := True\<rparr>) ga)"
  define b where "b = fst (place ga p)"
  define a where "a = snd (place ga p)"
  have pp: "place ga p = (b, a)" by (simp add: a_def b_def)
  have ba: "hn_buffer_id (ga_hash ga p) < length (ga_bufts ga)" "ga_bufts ga ! hn_buffer_id (ga_hash ga p) = b" "hn_addr (ga_hash ga p) = a"
    using D(3)[OF p] by (simp_all add: a_def b_def place_def)
  have bm: "b \<in> set (ga_bufts ga)" using ba(1,2) by auto
  let ?al = "bt_alignment (T b)" and ?m = "tsize T G b p" and ?n = "tsize T G b t"
  have al: "0 < ?al" and fts: "fits ?al ?m" "fits ?al ?n" using sz bm D(2)[OF p] t(1) unfolding sizes_ok_def by auto
  have h1: "ga_bufts ga1 = ga_bufts ga" "ga_talloc ga1 = ga_talloc ga" unfolding ga1_def take_over_def by (simp_all add: Let_def)
  have h1p: "hn_buffer_id (ga_hash ga1 p) = hn_buffer_id (ga_hash ga p)" "hn_addr (ga_hash ga1 p) = a"
      "hn_buffer_id (ga_hash ga1 t) = hn_buffer_id (ga_hash ga p)" "hn_addr (ga_hash ga1 t) = a"
    using pt ba(3) unfolding ga1_def take_over_def by (simp_all add: Let_def)
  have own1: "owned ga1 = insert t (owned ga - {p})" using pt unfolding ga1_def take_over_def by (auto simp: owned_def Let_def split: if_splits)
  have cnt1: "hn_n_children (ga_hash ga1 u) = hn_n_children (ga_hash ga u)" "hn_n_views (ga_hash ga1 u) = hn_n_views (ga_hash ga u)" for u
    unfolding ga1_def take_over_def by (simp_all add: Let_def)
  have pl1: "place ga1 u = (if u = t then place ga p else place ga u)" for u
    using pt unfolding ga1_def take_over_def by (auto simp: place_def Let_def)
  have ok: "dyn_ok ?al (ga_talloc ga b)" using multi.separatedD(1)[OF D(1)] by blast
  then have dal: "da_alignment (ga_talloc ga b) = ?al" by (simp add: dyn_ok_def)
  have dj: "region ?al a ?m \<inter> avail (ga_talloc ga b) = {}"
    using multi.separatedD(2)[OF D(1) p] by (auto simp: tensor_region_def pp mreg_def mavail_def)
  note bnd = region_bounds[OF al fts(1) dj]
  have adv: "?al dvd ba_offset a" using D(4)[OF p] by (simp add: pp)
  have le: "?n \<le> ?m" and res: "if aligned_offset 0 ?m ?al > aligned_offset 0 ?n ?al
      then \<exists>da. ggml_dyn_tallocr_free_bytes (a\<lparr>ba_offset := u64 (int (ba_offset a) + int (aligned_offset 0 ?n ?al))\<rparr>)
          (aligned_offset 0 ?m ?al - aligned_offset 0 ?n ?al) (ga_talloc ga b) = Inr da \<and> ga' = ga1\<lparr>ga_talloc := (ga_talloc ga)(b := da)\<rparr>
      else ga' = ga1"
    using r ba(1,2) unfolding ga1_def[symmetric] free_extra_space_def
    by (auto simp: Let_def buft_at_def h1 h1p tsize_def dal and_then_Inr split: if_splits)
  have f: "ga_bufts ga' = ga_bufts ga" "ga_hash ga' = ga_hash ga1" using res h1 by (auto split: if_splits)
  have own: "owned ga' = insert t (owned ga - {p})" using own1 f(2) by (simp add: owned_def)
  have pl: "place ga' u = (if u = t then place ga p else place ga u)" for u using pl1 f h1(1) by (simp add: place_def)
  have tr: "multi.separated T ((tensor_region T G ga)(t := tensor_region T G ga p)) (owned ga') (ga_talloc ga)"
    using multi.separated_transfer[OF D(1) p t(2)] by (simp add: own)
  have rp: "tensor_region T G ga p = {b} \<times> region ?al a ?m" by (simp add: tensor_region_def pp mreg_def)
  have rt: "tensor_region T G ga' u = (if u = t then {b} \<times> region ?al a ?n else tensor_region T G ga u)" for u
    by (simp add: tensor_region_def pl pp mreg_def)
  have both: "(\<forall>b' c. ggml_dyn_tallocr_max_size (ga_talloc ga' b') c = ggml_dyn_tallocr_max_size (ga_talloc ga b') c) \<and>
      multi.separated T (tensor_region T G ga') (owned ga') (ga_talloc ga')"
  proof (cases "aligned_offset 0 ?m ?al > aligned_offset 0 ?n ?al")
      case True
      define a' where "a' = a\<lparr>ba_offset := u64 (int (ba_offset a) + int (aligned_offset 0 ?n ?al))\<rparr>"
      define e where "e = aligned_offset 0 ?m ?al - aligned_offset 0 ?n ?al"
      note sr = shrink_region[OF al fts le True bnd(2) adv, folded a'_def e_def]
      obtain da where da: "ggml_dyn_tallocr_free_bytes a' e (ga_talloc ga b) = Inr da" "ga_talloc ga' = (ga_talloc ga)(b := da)"
        using res True by (auto simp: a'_def e_def)
      have rel: "mrelease (b, a') (b, e) (ga_talloc ga) = Inr (ga_talloc ga')" using da by (simp add: mrelease_def)
      have whole: "((tensor_region T G ga)(t := tensor_region T G ga p)) t = {b} \<times> region ?al a ?n \<union> mreg T (b, a') (b, e)"
        by (auto simp: rp sr(3) mreg_def)
      have part: "{b} \<times> region ?al a ?n \<inter> mreg T (b, a') (b, e) = {}" using sr(4) by (auto simp: mreg_def)
      have "multi.separated T (((tensor_region T G ga)(t := tensor_region T G ga p))(t := {b} \<times> region ?al a ?n)) (owned ga') (ga_talloc ga')"
        by (rule multi.separated_shrink[OF tr _ whole part _ rel]) (use own sr(1,2) in \<open>simp_all add: mgood_def\<close>)
      then have sep: "multi.separated T (tensor_region T G ga') (owned ga') (ga_talloc ga')" by (rule separated_cong) (simp add: rt)
      have "region ?al a' e \<inter> avail (ga_talloc ga b) = {}" using dj sr(3) by blast
      from dyn_free_law[OF ok sr(1,2) this da(1)] show ?thesis using sep da(2) by auto
    next
      case False
      then have eq: "aligned_offset 0 ?n ?al = aligned_offset 0 ?m ?al" using aligned_mono[OF al fts(2,1) le] by simp
      have same: "region ?al a ?n = region ?al a ?m" by (simp add: region_def eq)
      have "multi.separated T (tensor_region T G ga') (owned ga') (ga_talloc ga)"
        using tr by (elim separated_cong) (simp add: rt rp same)
      moreover have "ga' = ga1" using res False by simp
      ultimately show ?thesis using h1(2) by simp
  qed
  then have mx: "\<And>b' c. ggml_dyn_tallocr_max_size (ga_talloc ga' b') c = ggml_dyn_tallocr_max_size (ga_talloc ga b') c"
    and sep: "multi.separated T (tensor_region T G ga') (owned ga') (ga_talloc ga')" by blast+
  have "plain G u \<and> hn_buffer_id (ga_hash ga' u) < length (ga_bufts ga') \<and> bt_alignment (T (fst (place ga' u))) dvd ba_offset (snd (place ga' u)) \<and>
      place_end T G ga' u \<le> ggml_dyn_tallocr_max_size (ga_talloc ga' (fst (place ga' u))) (ba_chunk (snd (place ga' u)))"
    if u: "u \<in> owned ga'" for u
  proof (cases "u = t")
    case True
    have "place_end T G ga' t \<le> place_end T G ga p" using aligned_mono[OF al fts(2,1) le] by (simp add: place_end_def pl pp)
    then show ?thesis using True t(1) ba(1) f h1p(3) pl adv mx D(5)[OF p] by (auto simp: pp)
  next
    case False
    then have uo: "u \<in> owned ga" using u own by simp
    have "hn_buffer_id (ga_hash ga' u) = hn_buffer_id (ga_hash ga u)" using False f(2) unfolding ga1_def take_over_def by (simp add: Let_def)
    then show ?thesis using D(2-5)[OF uo] f(1) mx pl False by (simp add: place_end_def)
  qed
  then have "gal_inv T G ga'" using sep unfolding gal_inv_def by blast
  moreover have "grows ga ga'" using f(1) mx by (simp add: grows_def)
  ultimately show ?thesis using own pl cnt1 f(2) by simp
qed

section \<open>Effects of the steps\<close>

definition same_counts :: "ggml_gallocr \<Rightarrow> ggml_gallocr \<Rightarrow> bool" where
  "same_counts ga ga' \<longleftrightarrow>
    (\<forall>u. hn_n_children (ga_hash ga' u) = hn_n_children (ga_hash ga u) \<and> hn_n_views (ga_hash ga' u) = hn_n_views (ga_hash ga u))"

text \<open>A tensor gets a place: its own, or that of an operand that is not needed any more.\<close>

definition placed :: "ggml_cgraph \<Rightarrow> nat \<Rightarrow> ggml_gallocr \<Rightarrow> ggml_gallocr \<Rightarrow> bool" where
  "placed G t ga ga' \<longleftrightarrow> (\<forall>u. u \<noteq> t \<longrightarrow> place ga' u = place ga u) \<and>
    (owned ga' = insert t (owned ga) \<or>
     (\<exists>p \<in> set (srcs (cg_tensor G t)). ggml_op_can_inplace (gt_op (cg_tensor G t)) \<and> p \<in> owned ga \<and> hn_n_children (ga_hash ga p) = 1 \<and> hn_n_views (ga_hash ga p) = 0 \<and> \<not> gt_output (cg_tensor G p) \<and>
       owned ga' = insert t (owned ga - {p}) \<and> place ga' t = place ga p))"

lemma try_inplace_inv:
  assumes inv: "gal_inv T G ga" and sz: "sizes_ok T G (ga_bufts ga)" and t: "plain G t" "t \<notin> owned ga" "t \<notin> set ps"
    and "try_inplace T G t ps (upd_hash t (\<lambda>hn. hn\<lparr>hn_allocated := True\<rparr>) ga) = Inr (Some ga')"
  shows "\<exists>p \<in> set ps. p \<in> owned ga \<and> hn_n_children (ga_hash ga p) = 1 \<and> hn_n_views (ga_hash ga p) = 0 \<and> \<not> gt_output (cg_tensor G p) \<and>
    free_extra_space T G t p (take_over t p (upd_hash t (\<lambda>hn. hn\<lparr>hn_allocated := True\<rparr>) ga)) = Inr ga'"
  using assms(5,6)
proof (induction ps)
  case (Cons p ps)
  let ?ga1 = "upd_hash t (\<lambda>hn. hn\<lparr>hn_allocated := True\<rparr>) ga"
  have pt: "p \<noteq> t" "t \<notin> set ps" using Cons.prems(1) by auto
  have hp: "ga_hash ?ga1 p = ga_hash ga p" using pt by simp
  show ?case
  proof (cases "try_inplace T G t ps ?ga1 = Inr (Some ga')")
    case True
    from Cons.IH[OF pt(2) True] show ?thesis by auto
  next
    case False
    then have own: "p \<in> owned ga" using Cons.prems(2) hp
      by (auto simp: Let_def ggml_gallocr_is_own_def owned_def split: if_splits)
    then have "gt_view_src (cg_tensor G p) = None" using gal_invD(2)[OF inv own] by (simp add: plain_def)
    then show ?thesis using Cons.prems(2) False hp own
      by (auto simp: Let_def and_then_Inr simp del: upd_hash_simps split: if_splits)
  qed
qed simp

lemma allocate_node_inv:
  assumes inv: "gal_inv T G ga" and sz: "sizes_ok T G (ga_bufts ga)" and t: "t \<notin> set (srcs (cg_tensor G t))"
    and r: "allocate_node T G bid t ga = Inr ga'"
  shows "gal_inv T G ga' \<and> grows ga ga' \<and> same_counts ga ga' \<and> (if plain G t \<and> t \<notin> owned ga then placed G t ga ga' else ga' = ga)"
proof (cases "plain G t \<and> t \<notin> owned ga")
  case False
  then have "ga' = ga" using r by (auto simp: allocate_node_def ggml_gallocr_is_allocated_def plain_def ggml_gallocr_is_own_def owned_def split: if_splits)
  then show ?thesis using inv False by (auto simp: grows_def same_counts_def)
next
  case True
  let ?ga1 = "upd_hash t (\<lambda>hn. hn\<lparr>hn_allocated := True\<rparr>) ga"
  have na: "\<not> (ggml_gallocr_is_allocated G ga t \<or> is_view (cg_tensor G t))"
    using True by (auto simp: ggml_gallocr_is_allocated_def plain_def ggml_gallocr_is_own_def owned_def)
  obtain r' where r': "(if ggml_op_can_inplace (gt_op (cg_tensor G t)) then try_inplace T G t (srcs (cg_tensor G t)) ?ga1 else Inr None) = Inr r'"
      "(case r' of Some ga2 \<Rightarrow> Inr ga2 | None \<Rightarrow> alloc_fresh T G t (nat bid) ?ga1) = Inr ga'"
    using r na by (auto simp: allocate_node_def Let_def and_then_Inr simp del: upd_hash_simps split: if_splits)
  show ?thesis
  proof (cases r')
    case None
    note fr = alloc_fresh_inv[OF inv sz conjunct1[OF True] conjunct2[OF True], of "nat bid" ga']
    have "alloc_fresh T G t (nat bid) ?ga1 = Inr ga'" using r'(2) None by simp
    note fr = fr[OF this]
    have "same_counts ga ga'" unfolding same_counts_def
    proof
      show "hn_n_children (ga_hash ga' u) = hn_n_children (ga_hash ga u) \<and> hn_n_views (ga_hash ga' u) = hn_n_views (ga_hash ga u)" for u
        using fr by (cases "u = t") auto
    qed
    moreover have "placed G t ga ga'" using fr by (auto simp: placed_def place_def grows_def)
    ultimately show ?thesis using fr True by simp
  next
    case (Some ga2)
    then have ip: "ggml_op_can_inplace (gt_op (cg_tensor G t))" and "try_inplace T G t (srcs (cg_tensor G t)) ?ga1 = Inr (Some ga')"
      using r' by (auto split: if_splits)
    then obtain p where p: "p \<in> set (srcs (cg_tensor G t))" "p \<in> owned ga" "hn_n_children (ga_hash ga p) = 1" "hn_n_views (ga_hash ga p) = 0"
        "\<not> gt_output (cg_tensor G p)" "free_extra_space T G t p (take_over t p ?ga1) = Inr ga'"
      using try_inplace_inv[OF inv sz conjunct1[OF True] conjunct2[OF True] t] by blast
    note tk = take_over_inv[OF inv sz conjunct1[OF True] conjunct2[OF True] p(2,6)]
    then have "same_counts ga ga'" by (simp add: same_counts_def)
    moreover have "placed G t ga ga'" using tk p(1-5) ip unfolding placed_def by blast
    ultimately show ?thesis using tk True by simp
  qed
qed

lemma free_node_inv:
  assumes inv: "gal_inv T G ga" and sz: "sizes_ok T G (ga_bufts ga)" and t: "t \<in> owned ga" and r: "free_node T G t ga = Inr ga'"
  shows "gal_inv T G ga' \<and> grows ga ga' \<and> same_counts ga ga' \<and> (\<forall>u. place ga' u = place ga u) \<and>
    owned ga' = (if gt_output (cg_tensor G t) then owned ga else owned ga - {t})"
proof (cases "gt_output (cg_tensor G t)")
  case True
  then show ?thesis using r inv by (simp add: free_node_def grows_def same_counts_def)
next
  case False
  note D = gal_invD[OF inv]
  obtain b a where pl: "place ga t = (b, a)" by (cases "place ga t")
  have bid: "hn_buffer_id (ga_hash ga t) < length (ga_bufts ga)" using D(3)[OF t] .
  have b: "ga_bufts ga ! hn_buffer_id (ga_hash ga t) = b" "hn_addr (ga_hash ga t) = a" using pl by (simp_all add: place_def)
  obtain da where da: "ggml_dyn_tallocr_free_bytes a (tsize T G b t) (ga_talloc ga b) = Inr da"
      "ga' = upd_hash t (\<lambda>hn. hn\<lparr>hn_allocated := False\<rparr>) (ga\<lparr>ga_talloc := (ga_talloc ga)(b := da)\<rparr>)"
    using r False bid b by (auto simp: free_node_def Let_def buft_at_def and_then_Inr tsize_def simp del: upd_hash_simps)
  have f: "ga_bufts ga' = ga_bufts ga" "ga_talloc ga' = (ga_talloc ga)(b := da)" unfolding da(2) by simp_all
  have own: "owned ga' = owned ga - {t}" unfolding da(2) by (auto simp: owned_def split: if_splits)
  have cnt: "same_counts ga ga'" unfolding da(2) by (simp add: same_counts_def)
  have bid': "hn_buffer_id (ga_hash ga' u) = hn_buffer_id (ga_hash ga u)" for u unfolding da(2) by simp
  have pl': "place ga' u = place ga u" for u unfolding da(2) by (simp add: place_def)
  have "b \<in> set (ga_bufts ga)" using bid b(1) by auto
  then have ft: "fits (bt_alignment (T b)) (tsize T G b t)" using sz D(2)[OF t] by (simp add: sizes_ok_def)
  have adv: "bt_alignment (T b) dvd ba_offset a" using D(4)[OF t] by (simp add: pl)
  have reg: "tensor_region T G ga t = mreg T (b, a) (b, tsize T G b t)" by (simp add: tensor_region_def pl)
  have rel: "mrelease (b, a) (b, tsize T G b t) (ga_talloc ga) = Inr (ga_talloc ga')" using da(1) f(2) by (simp add: mrelease_def)
  have "multi.separated T (tensor_region T G ga) (owned ga') (ga_talloc ga')"
    using multi.separated_release[OF D(1) t reg _ rel] ft adv by (simp add: own mgood_def)
  then have sep: "multi.separated T (tensor_region T G ga') (owned ga') (ga_talloc ga')" by (rule separated_cong) (simp add: tensor_region_def pl')
  have dj: "region (bt_alignment (T b)) a (tsize T G b t) \<inter> avail (ga_talloc ga b) = {}"
    using multi.separatedD(2)[OF D(1) t] by (auto simp: reg mreg_def mavail_def)
  have "dyn_ok (bt_alignment (T b)) (ga_talloc ga b)" using multi.separatedD(1)[OF D(1)] by blast
  from dyn_free_law[OF this ft adv dj da(1)]
  have mx: "ggml_dyn_tallocr_max_size (ga_talloc ga' b') c = ggml_dyn_tallocr_max_size (ga_talloc ga b') c" for b' c using f(2) by auto
  have "gal_inv T G ga'" unfolding gal_inv_def
    using sep D(2-5) own f(1) mx bid' by (auto simp: pl' place_end_def)
  then show ?thesis using False own cnt pl' mx f(1) by (simp add: grows_def)
qed

section \<open>Graphs in topological order\<close>

definition node_at :: "ggml_cgraph \<Rightarrow> nat \<Rightarrow> nat" where
  "node_at G i = cg_nodes G ! i"

text \<open>Operands still to be used from node \<open>k\<close> on, in order.\<close>

definition uses_from :: "ggml_cgraph \<Rightarrow> nat \<Rightarrow> nat list" where
  "uses_from G k = concat (map (\<lambda>t. srcs (cg_tensor G t)) (drop k (cg_nodes G)))"

definition defined_at :: "ggml_cgraph \<Rightarrow> nat \<Rightarrow> nat set" where
  "defined_at G k = set (cg_leafs G) \<union> set (take k (cg_nodes G))"

definition view_of :: "ggml_cgraph \<Rightarrow> nat \<Rightarrow> nat \<Rightarrow> bool" where
  "view_of G v w \<longleftrightarrow> gt_view_src (cg_tensor G w) = Some v"

text \<open>Sources are leafs or earlier nodes, views refer to a tensor that is no view, views of a tensor the allocator
  places are nodes of the graph, and inputs are not computed.\<close>

definition wf_graph :: "ggml_cgraph \<Rightarrow> bool" where
  "wf_graph G \<longleftrightarrow> distinct (cg_nodes G) \<and> set (cg_nodes G) \<inter> set (cg_leafs G) = {} \<and> (\<forall>l \<in> set (cg_leafs G). srcs (cg_tensor G l) = []) \<and>
    (\<forall>t. gt_input (cg_tensor G t) \<longrightarrow> srcs (cg_tensor G t) = []) \<and>
    (\<forall>t v. view_of G v t \<longrightarrow> gt_view_src (cg_tensor G v) = None) \<and>
    (\<forall>i < length (cg_nodes G). \<forall>p \<in> set (srcs (cg_tensor G (node_at G i))). p \<in> defined_at G i \<and>
       (\<forall>v. view_of G v p \<longrightarrow> plain G v \<longrightarrow> v \<in> defined_at G i \<and> p \<in> set (cg_nodes G) \<and> gt_op (cg_tensor G p) \<noteq> GGML_OP_NONE))"

lemma wf_graphD:
  assumes "wf_graph G"
  shows "distinct (cg_nodes G)" "set (cg_nodes G) \<inter> set (cg_leafs G) = {}" "l \<in> set (cg_leafs G) \<Longrightarrow> srcs (cg_tensor G l) = []"
    "gt_input (cg_tensor G t) \<Longrightarrow> srcs (cg_tensor G t) = []" "view_of G v t \<Longrightarrow> gt_view_src (cg_tensor G v) = None"
    "i < length (cg_nodes G) \<Longrightarrow> p \<in> set (srcs (cg_tensor G (node_at G i))) \<Longrightarrow> p \<in> defined_at G i"
    "i < length (cg_nodes G) \<Longrightarrow> p \<in> set (srcs (cg_tensor G (node_at G i))) \<Longrightarrow> view_of G v p \<Longrightarrow> plain G v \<Longrightarrow>
      v \<in> defined_at G i \<and> p \<in> set (cg_nodes G) \<and> gt_op (cg_tensor G p) \<noteq> GGML_OP_NONE"
  using assms by (auto simp: wf_graph_def)

lemma uses_from_Suc: "k < length (cg_nodes G) \<Longrightarrow> uses_from G k = srcs (cg_tensor G (node_at G k)) @ uses_from G (Suc k)"
  by (simp add: uses_from_def node_at_def Cons_nth_drop_Suc[symmetric])

lemma uses_from_end: "uses_from G (length (cg_nodes G)) = []"
  by (simp add: uses_from_def)

lemma defined_at_Suc: "k < length (cg_nodes G) \<Longrightarrow> defined_at G (Suc k) = insert (node_at G k) (defined_at G k)"
  by (auto simp: defined_at_def node_at_def take_Suc_conv_app_nth)

lemma defined_at_mono: "i \<le> k \<Longrightarrow> defined_at G i \<subseteq> defined_at G k"
  using set_take_subset_set_take[of i k "cg_nodes G"] by (auto simp: defined_at_def)

lemma node_not_defined:
  assumes "wf_graph G" "k < length (cg_nodes G)"
  shows "node_at G k \<notin> defined_at G k"
proof -
  have "node_at G k \<notin> set (take k (cg_nodes G))"
    using wf_graphD(1)[OF assms(1)] assms(2) by (auto simp: node_at_def in_set_conv_nth nth_eq_iff_index_eq)
  moreover have "node_at G k \<notin> set (cg_leafs G)" using wf_graphD(2)[OF assms(1)] nth_mem[OF assms(2)] unfolding node_at_def by blast
  ultimately show ?thesis by (simp add: defined_at_def)
qed

lemma uses_sources: "p \<in> set (uses_from G k) \<Longrightarrow> \<exists>i < length (cg_nodes G). k \<le> i \<and> p \<in> set (srcs (cg_tensor G (node_at G i)))"
proof -
  assume "p \<in> set (uses_from G k)"
  then obtain t where t: "t \<in> set (drop k (cg_nodes G))" "p \<in> set (srcs (cg_tensor G t))" by (auto simp: uses_from_def)
  then obtain j where "j < length (cg_nodes G) - k" "t = cg_nodes G ! (k + j)" by (auto simp: in_set_conv_nth)
  then show ?thesis using t(2) by (intro exI[of _ "k + j"]) (auto simp: node_at_def)
qed

lemma src_not_self: "wf_graph G \<Longrightarrow> k < length (cg_nodes G) \<Longrightarrow> node_at G k \<notin> set (srcs (cg_tensor G (node_at G k)))"
  using wf_graphD(6) node_not_defined by blast

definition counted_view :: "ggml_cgraph \<Rightarrow> nat \<Rightarrow> nat \<Rightarrow> bool" where
  "counted_view G v w \<longleftrightarrow> view_of G v w \<and> gt_op (cg_tensor G w) \<noteq> GGML_OP_NONE"

text \<open>Views of \<open>v\<close> that are still counted when the operands \<open>R\<close> remain.\<close>

definition views_left :: "ggml_cgraph \<Rightarrow> nat list \<Rightarrow> nat \<Rightarrow> nat" where
  "views_left G R v = length (filter (\<lambda>w. counted_view G v w \<and> (w \<in> set (uses_from G 0) \<longrightarrow> w \<in> set R)) (cg_nodes G))"

definition needed :: "ggml_cgraph \<Rightarrow> nat list \<Rightarrow> nat \<Rightarrow> bool" where
  "needed G R t \<longleftrightarrow> t \<in> set R \<or> (\<exists>w. view_of G t w \<and> w \<in> set R)"

text \<open>The bookkeeping when the operands \<open>R\<close> remain and the tensors \<open>Df\<close> are defined: the counters are exact, and what is still needed,
  except for \<open>X\<close>, has its place.\<close>

definition live_inv :: "(nat \<Rightarrow> buffer_type) \<Rightarrow> ggml_cgraph \<Rightarrow> nat list \<Rightarrow> nat set \<Rightarrow> nat set \<Rightarrow> ggml_gallocr \<Rightarrow> bool" where
  "live_inv T G R Df X ga \<longleftrightarrow> gal_inv T G ga \<and> sizes_ok T G (ga_bufts ga) \<and>
    (\<forall>t. hn_n_children (ga_hash ga t) = int (count_list R t)) \<and>
    (\<forall>v. plain G v \<longrightarrow> hn_n_views (ga_hash ga v) = int (views_left G R v)) \<and> (\<forall>w v. view_of G v w \<longrightarrow> hn_n_views (ga_hash ga w) = 0) \<and>
    (\<forall>t \<in> Df - X. plain G t \<longrightarrow> needed G R t \<longrightarrow> t \<in> owned ga) \<and>
    (\<forall>t \<in> set (cg_nodes G) - Df. plain G t \<longrightarrow> gt_input (cg_tensor G t) \<longrightarrow> t \<in> owned ga) \<and>
    (\<forall>t \<in> Df. plain G t \<longrightarrow> gt_output (cg_tensor G t) \<longrightarrow> t \<in> owned ga)"

lemma live_invD:
  assumes "live_inv T G R Df X ga"
  shows "gal_inv T G ga" "sizes_ok T G (ga_bufts ga)" "hn_n_children (ga_hash ga t) = int (count_list R t)"
    "plain G v \<Longrightarrow> hn_n_views (ga_hash ga v) = int (views_left G R v)" "view_of G u w \<Longrightarrow> hn_n_views (ga_hash ga w) = 0"
    "t \<in> Df \<Longrightarrow> t \<notin> X \<Longrightarrow> plain G t \<Longrightarrow> needed G R t \<Longrightarrow> t \<in> owned ga"
    "t \<in> set (cg_nodes G) \<Longrightarrow> t \<notin> Df \<Longrightarrow> plain G t \<Longrightarrow> gt_input (cg_tensor G t) \<Longrightarrow> t \<in> owned ga"
    "t \<in> Df \<Longrightarrow> plain G t \<Longrightarrow> gt_output (cg_tensor G t) \<Longrightarrow> t \<in> owned ga"
  using assms unfolding live_inv_def by blast+

lemma live_invI:
  assumes "gal_inv T G ga" "sizes_ok T G (ga_bufts ga)" "\<And>t. hn_n_children (ga_hash ga t) = int (count_list R t)"
    "\<And>v. plain G v \<Longrightarrow> hn_n_views (ga_hash ga v) = int (views_left G R v)" "\<And>u w. view_of G u w \<Longrightarrow> hn_n_views (ga_hash ga w) = 0"
    "\<And>t. t \<in> Df \<Longrightarrow> t \<notin> X \<Longrightarrow> plain G t \<Longrightarrow> needed G R t \<Longrightarrow> t \<in> owned ga"
    "\<And>t. t \<in> set (cg_nodes G) \<Longrightarrow> t \<notin> Df \<Longrightarrow> plain G t \<Longrightarrow> gt_input (cg_tensor G t) \<Longrightarrow> t \<in> owned ga"
    "\<And>t. t \<in> Df \<Longrightarrow> plain G t \<Longrightarrow> gt_output (cg_tensor G t) \<Longrightarrow> t \<in> owned ga"
  shows "live_inv T G R Df X ga"
  using assms unfolding live_inv_def by blast

lemma not_needed:
  assumes "wf_graph G" "plain G v" "views_left G R v = 0" "v \<notin> set R" "set R \<subseteq> set (uses_from G 0)"
  shows "\<not> needed G R v"
proof
  assume "needed G R v"
  then obtain w where w: "view_of G v w" "w \<in> set R" using assms(4) by (auto simp: needed_def)
  then obtain i where "i < length (cg_nodes G)" "w \<in> set (srcs (cg_tensor G (node_at G i)))" using assms(5) uses_sources[of w G 0] by blast
  from wf_graphD(7)[OF assms(1) this w(1) assms(2)] have "w \<in> set (cg_nodes G)" "counted_view G v w" using w(1) by (auto simp: counted_view_def)
  then have "w \<in> set (filter (\<lambda>w. counted_view G v w \<and> (w \<in> set (uses_from G 0) \<longrightarrow> w \<in> set R)) (cg_nodes G))" using w(2) by simp
  then show False using assms(3) by (auto simp: views_left_def filter_empty_conv)
qed

lemma views_left_same:
  assumes "p \<in> set R \<or> \<not> counted_view G v p"
  shows "views_left G (p # R) v = views_left G R v"
  unfolding views_left_def by (rule arg_cong[where f = length], rule filter_cong) (use assms in auto)

lemma views_left_done:
  assumes "wf_graph G" "p \<notin> set R" "counted_view G v p" "p \<in> set (cg_nodes G)" "p \<in> set (uses_from G 0)"
  shows "views_left G (p # R) v = Suc (views_left G R v)"
proof -
  let ?P = "\<lambda>R w. counted_view G v w \<and> (w \<in> set (uses_from G 0) \<longrightarrow> w \<in> set R)"
  have card: "views_left G R v = card {w \<in> set (cg_nodes G). ?P R w}" for R
    using distinct_length_filter[OF wf_graphD(1)[OF assms(1)], of "?P R"] unfolding views_left_def by (simp add: Int_def conj_commute)
  have "{w \<in> set (cg_nodes G). ?P (p # R) w} = insert p {w \<in> set (cg_nodes G). ?P R w}" using assms(3,4) by auto
  moreover have "p \<notin> {w \<in> set (cg_nodes G). ?P R w}" using assms(2,5) by blast
  ultimately show ?thesis unfolding card by simp
qed

text \<open>Changes of the counters leave the places alone.\<close>

definition count_change :: "(hash_node \<Rightarrow> hash_node) \<Rightarrow> bool" where
  "count_change f \<longleftrightarrow> (\<forall>hn. hn_allocated (f hn) = hn_allocated hn \<and> hn_buffer_id (f hn) = hn_buffer_id hn \<and> hn_addr (f hn) = hn_addr hn)"

lemma count_change_inv:
  assumes "count_change f"
  shows "owned (upd_hash t f ga) = owned ga" "place (upd_hash t f ga) u = place ga u" "gal_inv T G (upd_hash t f ga) = gal_inv T G ga"
proof -
  show o: "owned (upd_hash t f ga) = owned ga" using assms by (auto simp: owned_def count_change_def split: if_splits)
  have p: "place (upd_hash t f ga) u = place ga u" for u using assms by (simp add: place_def count_change_def)
  then show "place (upd_hash t f ga) u = place ga u" .
  have "tensor_region T G (upd_hash t f ga) = tensor_region T G ga" by (rule ext) (simp add: tensor_region_def p)
  moreover have "hn_buffer_id (ga_hash (upd_hash t f ga) u) = hn_buffer_id (ga_hash ga u)" for u using assms by (simp add: count_change_def)
  ultimately show "gal_inv T G (upd_hash t f ga) = gal_inv T G ga"
    by (simp add: gal_inv_def o p place_end_def del: upd_hash_simps(3))
qed

lemma count_changes: "count_change (\<lambda>hn. hn\<lparr>hn_n_children := g hn\<rparr>)" "count_change (\<lambda>hn. hn\<lparr>hn_n_views := g hn\<rparr>)"
  by (simp_all add: count_change_def)

lemma needed_mono: "needed G R t \<Longrightarrow> needed G (p # R) t"
  by (auto simp: needed_def)

text \<open>One operand less to come: freeing takes only what is not needed any more.\<close>

lemma free_dead:
  assumes wf: "wf_graph G" and inv: "gal_inv T G ga" and sz: "sizes_ok T G (ga_bufts ga)" and v: "v \<in> owned ga" "\<not> needed G R v" "v \<in> Df"
    and cnt: "\<And>t. hn_n_children (ga_hash ga t) = int (count_list R t)"
      "\<And>v. plain G v \<Longrightarrow> hn_n_views (ga_hash ga v) = int (views_left G R v)" "\<And>u w. view_of G u w \<Longrightarrow> hn_n_views (ga_hash ga w) = 0"
    and own: "\<And>t. t \<in> Df \<Longrightarrow> t \<notin> X \<Longrightarrow> plain G t \<Longrightarrow> needed G R t \<Longrightarrow> t \<in> owned ga"
      "\<And>t. t \<in> set (cg_nodes G) \<Longrightarrow> t \<notin> Df \<Longrightarrow> plain G t \<Longrightarrow> gt_input (cg_tensor G t) \<Longrightarrow> t \<in> owned ga"
      "\<And>t. t \<in> Df \<Longrightarrow> plain G t \<Longrightarrow> gt_output (cg_tensor G t) \<Longrightarrow> t \<in> owned ga"
    and r: "free_node T G v ga = Inr ga'"
  shows "live_inv T G R Df X ga' \<and> grows ga ga' \<and> (\<forall>u. place ga' u = place ga u)"
proof -
  note fr = free_node_inv[OF inv sz v(1) r]
  have c: "hn_n_children (ga_hash ga' u) = hn_n_children (ga_hash ga u)" "hn_n_views (ga_hash ga' u) = hn_n_views (ga_hash ga u)" for u
    using fr by (auto simp: same_counts_def)
  have o: "t \<in> owned ga \<Longrightarrow> t \<noteq> v \<or> gt_output (cg_tensor G v) \<Longrightarrow> t \<in> owned ga'" for t using fr by auto
  have "live_inv T G R Df X ga'"
  proof (rule live_invI)
    show "gal_inv T G ga'" "sizes_ok T G (ga_bufts ga')" using fr sz by (auto simp: grows_def)
    show "t \<in> owned ga'" if "t \<in> Df" "t \<notin> X" "plain G t" "needed G R t" for t using own(1)[OF that] o[of t] that(4) v(2) by auto
    show "t \<in> owned ga'" if "t \<in> set (cg_nodes G)" "t \<notin> Df" "plain G t" "gt_input (cg_tensor G t)" for t using own(2)[OF that] o[of t] that(2) v(3) by auto
    show "t \<in> owned ga'" if "t \<in> Df" "plain G t" "gt_output (cg_tensor G t)" for t using own(3)[OF that] o[of t] that(3) by auto
  qed (simp_all add: c cnt)
  then show ?thesis using fr by blast
qed

lemma update_parent_inv:
  assumes wf: "wf_graph G" and L: "live_inv T G (p # R) Df X ga" and R: "set (p # R) \<subseteq> set (uses_from G 0)"
    and p: "p \<in> Df" "\<And>v. view_of G v p \<Longrightarrow> plain G v \<Longrightarrow> v \<in> Df \<and> p \<in> set (cg_nodes G) \<and> gt_op (cg_tensor G p) \<noteq> GGML_OP_NONE"
    and r: "update_parent T G p ga = Inr ga'"
  shows "live_inv T G R Df X ga' \<and> grows ga ga' \<and> (\<forall>u. place ga' u = place ga u)"
proof -
  note D = live_invD[OF L]
  define ga1 where "ga1 = upd_hash p (\<lambda>hn. hn\<lparr>hn_n_children := hn_n_children hn - 1\<rparr>) ga"
  note cc1 = count_change_inv[OF count_changes(1)[of "\<lambda>hn. hn_n_children hn - 1"], where t = p and ga = ga, folded ga1_def]
  have c1: "hn_n_children (ga_hash ga1 u) = int (count_list R u)" "hn_n_views (ga_hash ga1 u) = hn_n_views (ga_hash ga u)"
      "hn_allocated (ga_hash ga1 u) \<longleftrightarrow> u \<in> owned ga" for u
    using D(3)[of u] unfolding ga1_def by (auto simp: owned_def)
  have b1: "ga_bufts ga1 = ga_bufts ga" "ga_talloc ga1 = ga_talloc ga" unfolding ga1_def by simp_all
  have g1: "grows ga ga1" "\<And>u. place ga1 u = place ga u" "gal_inv T G ga1" "sizes_ok T G (ga_bufts ga1)" using cc1 D(1,2) b1 by (auto simp: grows_def)
  have own1: "t \<in> owned ga1" if "t \<in> Df" "t \<notin> X" "plain G t" "needed G R t" for t using D(6)[OF that(1-3) needed_mono[OF that(4)]] cc1(1) by simp
  have own2: "t \<in> owned ga1" if "t \<in> set (cg_nodes G)" "t \<notin> Df" "plain G t" "gt_input (cg_tensor G t)" for t using D(7)[OF that] cc1(1) by simp
  have own3: "t \<in> owned ga1" if "t \<in> Df" "plain G t" "gt_output (cg_tensor G t)" for t using D(8)[OF that] cc1(1) by simp
  have nv1: "hn_n_views (ga_hash ga1 w) = 0" if "view_of G u w" for u w using D(5)[OF that] c1(2) by simp
  have R': "set R \<subseteq> set (uses_from G 0)" using R by auto
  show ?thesis
  proof (cases "gt_view_src (cg_tensor G p)")
    case None
    then have nv: "\<not> counted_view G v p" for v by (simp add: counted_view_def view_of_def)
    have v1: "plain G v \<Longrightarrow> hn_n_views (ga_hash ga1 v) = int (views_left G R v)" for v using D(4)[of v] views_left_same[of p R G v] nv c1(2) by simp
    have L1: "live_inv T G R Df X ga1" by (rule live_invI) (use g1(3,4) c1 v1 own1 own2 own3 D(5) in auto)
    show ?thesis
    proof (cases "hn_n_children (ga_hash ga1 p) = 0 \<and> hn_n_views (ga_hash ga1 p) = 0 \<and> hn_allocated (ga_hash ga1 p)")
      case True
      have pp: "p \<in> owned ga1" "plain G p" using True c1(3) cc1(1) gal_invD(2)[OF D(1)] by auto
      have "p \<notin> set R" "views_left G R p = 0" using True c1(1)[of p] v1[OF pp(2)] by (auto simp: count_list_0_iff)
      then have dead: "\<not> needed G R p" using not_needed[OF wf pp(2) _ _ R'] by blast
      have "free_node T G p ga1 = Inr ga'" using r True None unfolding update_parent_def ga1_def[symmetric] by (simp add: Let_def)
      then have "live_inv T G R Df X ga' \<and> grows ga1 ga' \<and> (\<forall>u. place ga' u = place ga1 u)"
        by (rule free_dead[OF wf g1(3,4) pp(1) dead p(1), rotated -1]) (use c1(1) v1 nv1 own1 own2 own3 in \<open>blast+\<close>)
      then show ?thesis using g1(1,2) grows_trans by metis
    next
      case False
      then have "ga' = ga1" using r None unfolding update_parent_def ga1_def[symmetric] by (auto simp: Let_def split: if_splits)
      then show ?thesis using L1 g1 by simp
    qed
  next
    case (Some v)
    then have pv: "view_of G v p" by (simp add: view_of_def)
    have nvp: "hn_n_views (ga_hash ga1 p) = 0" using D(5)[OF pv] c1(2) by simp
    have other: "counted_view G u p \<Longrightarrow> u = v" for u using Some by (auto simp: counted_view_def view_of_def)
    show ?thesis
    proof (cases "p \<in> set R")
      case True
      then have "count_list R p \<noteq> 0" by (simp add: count_list_0_iff)
      then have "ga' = ga1" using r c1(1)[of p] unfolding update_parent_def ga1_def[symmetric] by (simp add: Let_def)
      moreover have "live_inv T G R Df X ga1"
        by (rule live_invI) (use g1(3,4) c1 D(4,5) views_left_same[of p R G] True own1 own2 own3 in auto)
      ultimately show ?thesis using g1 by simp
    next
      case False
      define ga2 where "ga2 = upd_hash v (\<lambda>hn. hn\<lparr>hn_n_views := hn_n_views hn - 1\<rparr>) ga1"
      note cc2 = count_change_inv[OF count_changes(2)[of "\<lambda>hn. hn_n_views hn - 1"], where t = v and ga = ga1, folded ga2_def]
      have zero: "hn_n_children (ga_hash ga1 p) = 0" using False c1(1)[of p] by (simp add: count_list_0_iff)
      have r2: "(if hn_n_views (ga_hash ga2 v) = 0 \<and> hn_n_children (ga_hash ga2 v) = 0 \<and> hn_allocated (ga_hash ga2 v) then free_node T G v ga2 else Inr ga2) = Inr ga'"
        using r zero nvp Some unfolding update_parent_def ga1_def[symmetric] by (simp add: Let_def ga2_def[symmetric] del: upd_hash_simps)
      have c2: "hn_n_children (ga_hash ga2 u) = int (count_list R u)" "hn_allocated (ga_hash ga2 u) \<longleftrightarrow> u \<in> owned ga"
          "hn_n_views (ga_hash ga2 u) = (if u = v then hn_n_views (ga_hash ga v) - 1 else hn_n_views (ga_hash ga u))" for u
        using c1[of u] unfolding ga2_def by auto
      have g2: "grows ga ga2" "\<And>u. place ga2 u = place ga u" "gal_inv T G ga2" "sizes_ok T G (ga_bufts ga2)" "owned ga2 = owned ga"
        using cc1 cc2 g1 unfolding ga2_def by (auto simp: grows_def)
      have v2: "hn_n_views (ga_hash ga2 u) = int (views_left G R u)" if u: "plain G u" for u
      proof (cases "u = v")
        case True
        then have "p \<in> set (cg_nodes G)" "counted_view G v p" using p(2)[OF pv] u pv by (auto simp: counted_view_def)
        from views_left_done[OF wf False this(2,1)] R have "views_left G (p # R) v = Suc (views_left G R v)" by simp
        then show ?thesis using True c2(3)[of v] D(4)[OF u] by simp
      next
        case False
        then have "\<not> counted_view G u p" using other by blast
        from views_left_same[OF disjI2[OF this], of R] show ?thesis using False c2(3)[of u] D(4)[OF u] by simp
      qed
      have nv2: "hn_n_views (ga_hash ga2 w) = 0" if "view_of G u w" for u w
      proof -
        have "w \<noteq> v" using that wf_graphD(5)[OF wf pv] by (auto simp: view_of_def)
        then show ?thesis using c2(3)[of w] D(5)[OF that] by simp
      qed
      have o2: "t \<in> owned ga1 \<Longrightarrow> t \<in> owned ga2" for t using g2(5) cc1(1) by simp
      show ?thesis
      proof (cases "hn_n_views (ga_hash ga2 v) = 0 \<and> hn_n_children (ga_hash ga2 v) = 0 \<and> hn_allocated (ga_hash ga2 v)")
        case True
        have vv: "v \<in> owned ga2" "plain G v" using True c2(2) g2(5) gal_invD(2)[OF D(1)] by auto
        have "v \<notin> set R" "views_left G R v = 0" using True c2(1)[of v] v2[OF vv(2)] by (auto simp: count_list_0_iff)
        then have dead: "\<not> needed G R v" using not_needed[OF wf vv(2) _ _ R'] by blast
        have vDf: "v \<in> Df" using p(2)[OF pv vv(2)] by blast
        have "free_node T G v ga2 = Inr ga'" using r2 True by simp
        then have "live_inv T G R Df X ga' \<and> grows ga2 ga' \<and> (\<forall>u. place ga' u = place ga2 u)"
          by (rule free_dead[OF wf g2(3,4) vv(1) dead vDf, rotated -1]) (use c2(1) v2 nv2 o2 own1 own2 own3 in \<open>blast+\<close>)
        then show ?thesis using g2(1,2) grows_trans by metis
      next
        case False
        then have "ga' = ga2" using r2 by (simp split: if_splits)
        moreover have "live_inv T G R Df X ga2" by (rule live_invI) (use g2(3,4) c2(1) v2 nv2 own1 own2 own3 o2 in auto)
        ultimately show ?thesis using g2 by simp
      qed
    qed
  qed
qed

section \<open>Planning the nodes\<close>

lemma each_inv:
  assumes "each f xs w = Inr w'" "P 0 w" "\<And>j w w'. j < length xs \<Longrightarrow> P j w \<Longrightarrow> f (xs ! j) w = Inr w' \<Longrightarrow> P (Suc j) w'"
  shows "P (length xs) w'"
  using assms
proof (induction xs arbitrary: w P)
  case (Cons x xs)
  obtain w1 where w1: "f x w = Inr w1" "each f xs w1 = Inr w'" using Cons.prems(1) by (auto simp: and_then_Inr)
  have "P (Suc 0) w1" using Cons.prems(2) Cons.prems(3)[of 0 w w1] w1(1) by simp
  moreover have "P (Suc (Suc j)) v'" if "j < length xs" "P (Suc j) v" "f (xs ! j) v = Inr v'" for j v v'
    using that Cons.prems(3)[of "Suc j" v v'] by simp
  ultimately show ?case using Cons.IH[OF w1(2), of "\<lambda>j. P (Suc j)"] by simp
qed simp

lemma live_inv_clear: "live_inv T G R Df X ga \<Longrightarrow> \<forall>x \<in> X. \<not> needed G R x \<Longrightarrow> live_inv T G R Df {} ga"
  unfolding live_inv_def by blast

lemma parents_placed:
  assumes "wf_graph G" "live_inv T G R Df {} ga" "set ps \<subseteq> set R" "set ps \<subseteq> Df" "\<And>p. p \<in> set ps \<Longrightarrow> p \<notin> set (srcs (cg_tensor G p))"
    and "each (allocate_node T G bid) ps ga = Inr ga'"
  shows "ga' = ga"
  using assms(3-6)
proof (induction ps)
  case (Cons p ps)
  obtain ga1 where ga1: "allocate_node T G bid p ga = Inr ga1" "each (allocate_node T G bid) ps ga1 = Inr ga'"
    using Cons.prems(4) by (auto simp: and_then_Inr)
  have "p \<notin> owned ga \<Longrightarrow> \<not> plain G p" using live_invD(6)[OF assms(2), of p] Cons.prems(1,2) by (auto simp: needed_def)
  then have "ga1 = ga"
    using allocate_node_inv[OF live_invD(1,2)[OF assms(2)] _ ga1(1)] Cons.prems(3)[of p] by (auto split: if_splits)
  then show ?case using Cons.IH ga1(2) Cons.prems by auto
qed simp

lemma defined_not_own_src:
  assumes "wf_graph G" "p \<in> defined_at G k"
  shows "p \<notin> set (srcs (cg_tensor G p))"
proof (cases "p \<in> set (cg_leafs G)")
  case True
  then show ?thesis using wf_graphD(3)[OF assms(1)] by simp
next
  case False
  then have "p \<in> set (cg_nodes G)" using assms(2) set_take_subset[of k "cg_nodes G"] by (auto simp: defined_at_def)
  then obtain j where "j < length (cg_nodes G)" "p = node_at G j" by (auto simp: node_at_def in_set_conv_nth)
  then show ?thesis using src_not_self[OF assms(1)] by simp
qed

lemma uses_subset: "set (uses_from G k) \<subseteq> set (uses_from G 0)"
  using set_drop_subset[of k "cg_nodes G"] by (auto simp: uses_from_def)

definition stays :: "ggml_cgraph \<Rightarrow> nat \<Rightarrow> ggml_gallocr \<Rightarrow> ggml_gallocr \<Rightarrow> bool" where
  "stays G k ga ga' \<longleftrightarrow> grows ga ga' \<and> (\<forall>u. u \<in> defined_at G k \<or> gt_input (cg_tensor G u) \<and> plain G u \<and> u \<in> set (cg_nodes G) \<longrightarrow> place ga' u = place ga u)"

text \<open>What is true at the moment node \<open>k\<close> is computed. The operand it overwrites, if any, is not needed later.\<close>

definition overwritten :: "ggml_cgraph \<Rightarrow> nat \<Rightarrow> ggml_gallocr \<Rightarrow> nat \<Rightarrow> bool" where
  "overwritten G k e x \<longleftrightarrow> x \<in> set (srcs (cg_tensor G (node_at G k))) \<and> ggml_op_can_inplace (gt_op (cg_tensor G (node_at G k))) \<and>
    plain G (node_at G k) \<and> \<not> needed G (uses_from G (Suc k)) x \<and> (\<forall>w \<in> set (srcs (cg_tensor G (node_at G k))). \<not> view_of G x w) \<and>
    place e x = place e (node_at G k)"

lemma alloc_for_node_inv:
  assumes wf: "wf_graph G" and k: "k < length (cg_nodes G)" and L: "live_inv T G (uses_from G k) (defined_at G k) {} ga"
    and r: "alloc_for_node T G ids k ga = Inr e"
  shows "\<exists>X. live_inv T G (uses_from G k) (defined_at G (Suc k)) X e \<and> stays G k ga e \<and> (plain G (node_at G k) \<longrightarrow> node_at G k \<in> owned e) \<and> (\<forall>x \<in> X. overwritten G k e x)"
proof -
  let ?t = "node_at G k" and ?R = "uses_from G k" and ?R' = "uses_from G (Suc k)" and ?s = "srcs (cg_tensor G (node_at G k))"
  note D = live_invD[OF L]
  have Rs: "?R = ?s @ ?R'" by (rule uses_from_Suc[OF k])
  obtain ga1 where ga1: "each (allocate_node T G (get_node_buffer_id ids k)) ?s ga = Inr ga1" "allocate_node T G (get_node_buffer_id ids k) ?t ga1 = Inr e"
    using r by (auto simp: alloc_for_node_def Let_def and_then_Inr node_at_def)
  have "ga1 = ga"
    by (rule parents_placed[OF wf L _ _ _ ga1(1)]) (use Rs wf_graphD(6)[OF wf k] defined_not_own_src[OF wf] in auto)
  note al = allocate_node_inv[OF D(1,2) src_not_self[OF wf k] ga1(2)[unfolded \<open>ga1 = ga\<close>]]
  have cnt: "hn_n_children (ga_hash e u) = int (count_list ?R u)" "hn_n_views (ga_hash e u) = hn_n_views (ga_hash ga u)" for u
    using al D(3) by (auto simp: same_counts_def)
  have sz: "sizes_ok T G (ga_bufts e)" using al D(2) by (simp add: grows_def)
  have tn: "?t \<in> set (cg_nodes G)" using k by (simp add: node_at_def)
  have tnd: "?t \<notin> defined_at G k" by (rule node_not_defined[OF wf k])
  have dS: "defined_at G (Suc k) = insert ?t (defined_at G k)" by (rule defined_at_Suc[OF k])
  show ?thesis
  proof (cases "plain G ?t \<and> ?t \<notin> owned ga")
    case False
    then have e: "e = ga" using al by (auto split: if_splits)
    have "live_inv T G ?R (defined_at G (Suc k)) {} e"
      by (rule live_invI) (use D e dS False in auto)
    moreover have "stays G k ga e" using e by (simp add: stays_def grows_def)
    ultimately show ?thesis using False e by (intro exI[of _ "{}"]) auto
  next
    case True
    then have pl: "placed G ?t ga e" using al by simp
    have notin: "\<not> gt_input (cg_tensor G ?t)" using D(7)[OF tn tnd] True by blast
    have st: "stays G k ga e" using pl tnd notin al unfolding stays_def placed_def by metis
    have n1: "?t \<in> owned e" using pl by (auto simp: placed_def)
    consider (fresh) "owned e = insert ?t (owned ga)"
      | (reuse) p where "p \<in> set ?s" "ggml_op_can_inplace (gt_op (cg_tensor G ?t))" "p \<in> owned ga" "hn_n_children (ga_hash ga p) = 1" "hn_n_views (ga_hash ga p) = 0"
          "\<not> gt_output (cg_tensor G p)" "owned e = insert ?t (owned ga - {p})" "place e ?t = place ga p"
      using pl by (auto simp: placed_def)
    then show ?thesis
    proof cases
      case fresh
      have "live_inv T G ?R (defined_at G (Suc k)) {} e"
        by (rule live_invI) (use al sz cnt D(4-8) dS fresh in auto)
      then show ?thesis using st n1 by (intro exI[of _ "{}"]) auto
    next
      case (reuse p)
      have pp: "plain G p" by (rule gal_invD(2)[OF D(1) reuse(3)])
      have pd: "p \<in> defined_at G k" by (rule wf_graphD(6)[OF wf k reuse(1)])
      have one: "count_list ?R p = 1" using D(3)[of p] reuse(4) by simp
      moreover have "count_list ?s p \<noteq> 0" using reuse(1) by (simp add: count_list_0_iff)
      ultimately have "count_list ?R' p = 0" unfolding Rs by (simp add: count_list_append)
      then have nR: "p \<notin> set ?R'" by (simp add: count_list_0_iff)
      have v0: "views_left G ?R p = 0" using D(4)[OF pp] reuse(5) by simp
      have nview: "\<not> view_of G p w" if wR: "w \<in> set ?R" for w
      proof
        assume w: "view_of G p w"
        obtain i where "i < length (cg_nodes G)" "w \<in> set (srcs (cg_tensor G (node_at G i)))" using uses_sources[OF wR] by blast
        from wf_graphD(7)[OF wf this w pp] have "w \<in> set (filter (\<lambda>w. counted_view G p w \<and> (w \<in> set (uses_from G 0) \<longrightarrow> w \<in> set ?R)) (cg_nodes G))"
          using w wR by (auto simp: counted_view_def)
        then show False using v0 by (auto simp: views_left_def filter_empty_conv)
      qed
      have dead: "\<not> needed G ?R' p" using nR nview unfolding needed_def Rs by auto
      have "p \<noteq> ?t" using pd tnd by blast
      then have "place e p = place e ?t" using pl reuse(8) unfolding placed_def by metis
      then have ow: "overwritten G k e p" using reuse(1,2) True dead nview unfolding overwritten_def Rs by auto
      have "live_inv T G ?R (defined_at G (Suc k)) {p} e"
        by (rule live_invI) (use al sz cnt D(4-8) dS reuse(6,7) pd in auto)
      then show ?thesis using st n1 ow by (intro exI[of _ "{p}"]) auto
    qed
  qed
qed

lemma plan_node_inv:
  assumes wf: "wf_graph G" and k: "k < length (cg_nodes G)" and L: "live_inv T G (uses_from G k) (defined_at G k) {} ga"
    and r: "plan_node T G ids k ga = Inr ga'"
  shows "live_inv T G (uses_from G (Suc k)) (defined_at G (Suc k)) {} ga' \<and> stays G k ga ga' \<and>
    (\<exists>e. alloc_for_node T G ids k ga = Inr e \<and> grows e ga' \<and> (\<forall>u. place ga' u = place e u))"
proof -
  let ?s = "srcs (cg_tensor G (node_at G k))" and ?R' = "uses_from G (Suc k)" and ?Df = "defined_at G (Suc k)"
  obtain e where e: "alloc_for_node T G ids k ga = Inr e" "each (update_parent T G) ?s e = Inr ga'"
    using r by (auto simp: plan_node_def and_then_Inr node_at_def)
  obtain X where X: "live_inv T G (uses_from G k) ?Df X e" "stays G k ga e" "\<forall>x \<in> X. overwritten G k e x"
    using alloc_for_node_inv[OF wf k L e(1)] by blast
  have step: "live_inv T G (drop (length ?s) ?s @ ?R') ?Df X ga' \<and> grows e ga' \<and> (\<forall>u. place ga' u = place e u)"
  proof (rule each_inv[OF e(2), where P = "\<lambda>j w. live_inv T G (drop j ?s @ ?R') ?Df X w \<and> grows e w \<and> (\<forall>u. place w u = place e u)"])
    show "live_inv T G (drop 0 ?s @ ?R') ?Df X e \<and> grows e e \<and> (\<forall>u. place e u = place e u)" using X(1) uses_from_Suc[OF k] by (simp add: grows_def)
    fix j w w' assume j: "j < length ?s" and w: "live_inv T G (drop j ?s @ ?R') ?Df X w \<and> grows e w \<and> (\<forall>u. place w u = place e u)"
      and u: "update_parent T G (?s ! j) w = Inr w'"
    have d: "drop j ?s = ?s ! j # drop (Suc j) ?s" using j by (simp add: Cons_nth_drop_Suc)
    have sub: "set (?s ! j # drop (Suc j) ?s @ ?R') \<subseteq> set (uses_from G 0)"
      using uses_subset[of G k] set_drop_subset[of j ?s] unfolding uses_from_Suc[OF k] d by auto
    have m: "?s ! j \<in> set ?s" using j by simp
    have df: "defined_at G k \<subseteq> ?Df" by (rule defined_at_mono) simp
    have "live_inv T G (drop (Suc j) ?s @ ?R') ?Df X w' \<and> grows w w' \<and> (\<forall>u. place w' u = place w u)"
    proof (rule update_parent_inv[OF wf _ sub _ _ u])
      show "live_inv T G (?s ! j # drop (Suc j) ?s @ ?R') ?Df X w" using w d by simp
      show "?s ! j \<in> ?Df" using wf_graphD(6)[OF wf k m] df by blast
      show "v \<in> ?Df \<and> ?s ! j \<in> set (cg_nodes G) \<and> gt_op (cg_tensor G (?s ! j)) \<noteq> GGML_OP_NONE" if "view_of G v (?s ! j)" "plain G v" for v
        using wf_graphD(7)[OF wf k m that] df by blast
    qed
    then show "live_inv T G (drop (Suc j) ?s @ ?R') ?Df X w' \<and> grows e w' \<and> (\<forall>u. place w' u = place e u)" using w grows_trans by metis
  qed
  then have "live_inv T G ?R' ?Df {} ga'" using X(3) by (intro live_inv_clear[of T G ?R' ?Df X]) (auto simp: overwritten_def)
  moreover have "stays G k ga ga'" using X(2) step grows_trans unfolding stays_def by metis
  ultimately show ?thesis using step e(1) by blast
qed

section \<open>Inputs and counters\<close>

lemma alloc_input:
  assumes "gal_inv T G ga" "sizes_ok T G (ga_bufts ga)" "srcs (cg_tensor G t) = []" "allocate_node T G bid t ga = Inr ga'"
  shows "gal_inv T G ga' \<and> grows ga ga' \<and> same_counts ga ga' \<and> owned ga \<subseteq> owned ga' \<and> (plain G t \<longrightarrow> t \<in> owned ga')"
  using allocate_node_inv[OF assms(1,2) _ assms(4)] assms(3) by (auto simp: placed_def split: if_splits)

text \<open>The state while the operands \<open>ss\<close> and the nodes \<open>ns\<close> have been counted and the tensors \<open>I\<close> have a place.\<close>

definition counted :: "(nat \<Rightarrow> buffer_type) \<Rightarrow> ggml_cgraph \<Rightarrow> ggml_gallocr \<Rightarrow> nat list \<Rightarrow> nat list \<Rightarrow> nat set \<Rightarrow> ggml_gallocr \<Rightarrow> bool" where
  "counted T G ga0 ss ns I ga \<longleftrightarrow> gal_inv T G ga \<and> sizes_ok T G (ga_bufts ga) \<and> grows ga0 ga \<and>
    (\<forall>t. hn_n_children (ga_hash ga t) = int (count_list ss t)) \<and> (\<forall>v. hn_n_views (ga_hash ga v) = int (length (filter (counted_view G v) ns))) \<and>
    (\<forall>t \<in> I. plain G t \<longrightarrow> t \<in> owned ga)"

lemma counted_alloc:
  assumes "counted T G ga0 ss ns I ga" "srcs (cg_tensor G t) = []" "allocate_node T G bid t ga = Inr ga'"
  shows "counted T G ga0 ss ns (insert t I) ga'"
proof -
  have c: "gal_inv T G ga" "sizes_ok T G (ga_bufts ga)" using assms(1) by (auto simp: counted_def)
  have a: "gal_inv T G ga' \<and> grows ga ga' \<and> same_counts ga ga' \<and> owned ga \<subseteq> owned ga' \<and> (plain G t \<longrightarrow> t \<in> owned ga')"
    by (rule alloc_input[OF c assms(2,3)])
  then have "sizes_ok T G (ga_bufts ga')" using c(2) by (simp add: grows_def)
  moreover have "grows ga0 ga'" using a assms(1) grows_trans unfolding counted_def by blast
  moreover have "\<forall>u. hn_n_children (ga_hash ga' u) = hn_n_children (ga_hash ga u) \<and> hn_n_views (ga_hash ga' u) = hn_n_views (ga_hash ga u)"
    using a by (simp add: same_counts_def)
  ultimately show ?thesis using a assms(1) unfolding counted_def by auto
qed

lemma counted_mono: "counted T G ga0 ss ns I ga \<Longrightarrow> J \<subseteq> I \<Longrightarrow> counted T G ga0 ss ns J ga"
  unfolding counted_def by blast

lemma alloc_leafs_inv:
  assumes wf: "wf_graph G" and sz: "sizes_ok T G (ga_bufts ga)" and ok: "\<forall>b. dyn_ok (bt_alignment (T b)) (ga_talloc ga b)"
    and r: "alloc_leafs T G ids (ga\<lparr>ga_hash := (\<lambda>_. hash_zero)\<rparr>) = Inr ga'"
  shows "counted T G ga [] [] (set (cg_leafs G)) ga'"
proof -
  let ?l = "cg_leafs G"
  let ?ga0 = "ga\<lparr>ga_hash := (\<lambda>_. hash_zero)\<rparr>"
  have "owned ?ga0 = {}" by (simp add: owned_def hash_zero_def)
  then have "gal_inv T G ?ga0" using multi.separated_none[OF ok, of "tensor_region T G ?ga0"] by (simp add: gal_inv_def)
  then have start: "counted T G ga [] [] (set (take 0 ?l)) ?ga0" using sz by (simp add: counted_def grows_def hash_zero_def)
  have "counted T G ga [] [] (set (take (length [0..<length ?l]) ?l)) ga'"
  proof (rule each_inv[OF r[unfolded alloc_leafs_def], where P = "\<lambda>j. counted T G ga [] [] (set (take j ?l))"])
    show "counted T G ga [] [] (set (take 0 ?l)) ?ga0" by (rule start)
    fix j w w' assume j: "j < length [0..<length ?l]" and w: "counted T G ga [] [] (set (take j ?l)) w"
      and a: "allocate_node T G (get_node_buffer_id ids ([0..<length ?l] ! j)) (?l ! ([0..<length ?l] ! j)) w = Inr w'"
    have "srcs (cg_tensor G (?l ! ([0..<length ?l] ! j))) = []" using wf_graphD(3)[OF wf] j by simp
    from counted_alloc[OF w this a] show "counted T G ga [] [] (set (take (Suc j) ?l)) w'"
      using j by (simp add: take_Suc_conv_app_nth)
  qed
  then show ?thesis by simp
qed

lemma count_src_inv:
  assumes wf: "wf_graph G" and c: "counted T G ga0 ss ns I ga" and r: "count_src T G bid s ga = Inr ga'"
  shows "counted T G ga0 (ss @ [s]) ns I ga'"
proof -
  define ga1 where "ga1 = upd_hash s (\<lambda>hn. hn\<lparr>hn_n_children := hn_n_children hn + 1\<rparr>) ga"
  note cc = count_change_inv[OF count_changes(1)[of "\<lambda>hn. hn_n_children hn + 1"], where t = s and ga = ga, folded ga1_def]
  have c1: "counted T G ga0 (ss @ [s]) ns I ga1"
    using c cc unfolding counted_def ga1_def by (auto simp: grows_def)
  show ?thesis
  proof (cases "gt_input (cg_tensor G s)")
    case True
    then have "allocate_node T G bid s ga1 = Inr ga'" using r by (simp add: count_src_def Let_def ga1_def)
    from counted_alloc[OF c1 wf_graphD(4)[OF wf True] this] show ?thesis by (rule counted_mono) auto
  next
    case False
    then show ?thesis using r c1 by (simp add: count_src_def Let_def ga1_def)
  qed
qed

lemma count_node_inv:
  assumes wf: "wf_graph G" and i: "i < length (cg_nodes G)" and c: "counted T G ga0 ss (take i (cg_nodes G)) I ga" and r: "count_node T G ids i ga = Inr ga'"
  shows "counted T G ga0 (ss @ srcs (cg_tensor G (node_at G i))) (take (Suc i) (cg_nodes G)) (if gt_input (cg_tensor G (node_at G i)) then insert (node_at G i) I else I) ga'"
proof -
  let ?t = "node_at G i" and ?bid = "get_node_buffer_id ids i" and ?ns = "take (Suc i) (cg_nodes G)" and ?s = "srcs (cg_tensor G (node_at G i))"
  define ga1 where "ga1 = (case gt_view_src (cg_tensor G ?t) of
      Some v \<Rightarrow> if gt_op (cg_tensor G ?t) \<noteq> GGML_OP_NONE then upd_hash v (\<lambda>hn. hn\<lparr>hn_n_views := hn_n_views hn + 1\<rparr>) ga else ga | None \<Rightarrow> ga)"
  obtain ga2 where ga2: "(if gt_input (cg_tensor G ?t) then allocate_node T G ?bid ?t ga1 else Inr ga1) = Inr ga2" "each (count_src T G ?bid) ?s ga2 = Inr ga'"
    using r unfolding count_node_def Let_def node_at_def[symmetric] ga1_def[symmetric] by (auto simp: and_then_Inr)
  have ns: "?ns = take i (cg_nodes G) @ [?t]" using i by (simp add: take_Suc_conv_app_nth node_at_def)
  have c1: "counted T G ga0 ss ?ns I ga1"
  proof (cases "\<exists>v. counted_view G v ?t")
    case True
    then obtain v where v: "counted_view G v ?t" by blast
    then have g: "ga1 = upd_hash v (\<lambda>hn. hn\<lparr>hn_n_views := hn_n_views hn + 1\<rparr>) ga" by (simp add: ga1_def counted_view_def view_of_def)
    have u: "counted_view G u ?t \<longleftrightarrow> u = v" for u using v by (auto simp: counted_view_def view_of_def)
    note cc = count_change_inv[OF count_changes(2)[of "\<lambda>hn. hn_n_views hn + 1"], where t = v and ga = ga, folded g]
    show ?thesis using c cc unfolding counted_def ns by (auto simp: grows_def g u)
  next
    case False
    then have "ga1 = ga" by (auto simp: ga1_def counted_view_def view_of_def split: option.splits)
    then show ?thesis using c False unfolding counted_def ns by simp
  qed
  let ?I = "if gt_input (cg_tensor G ?t) then insert ?t I else I"
  have c2: "counted T G ga0 ss ?ns ?I ga2"
  proof (cases "gt_input (cg_tensor G ?t)")
    case True
    then have "allocate_node T G ?bid ?t ga1 = Inr ga2" using ga2(1) by simp
    from counted_alloc[OF c1 wf_graphD(4)[OF wf True] this] True show ?thesis by simp
  next
    case False
    then show ?thesis using c1 ga2(1) by simp
  qed
  have "counted T G ga0 (ss @ take (length ?s) ?s) ?ns ?I ga'"
  proof (rule each_inv[OF ga2(2), where P = "\<lambda>j. counted T G ga0 (ss @ take j ?s) ?ns ?I"])
    show "counted T G ga0 (ss @ take 0 ?s) ?ns ?I ga2" using c2 by simp
    show "counted T G ga0 (ss @ take (Suc j) ?s) ?ns ?I w'"
      if "j < length ?s" "counted T G ga0 (ss @ take j ?s) ?ns ?I w" "count_src T G ?bid (?s ! j) w = Inr w'" for j w w'
      using count_src_inv[OF wf that(2,3)] that(1) by (simp add: take_Suc_conv_app_nth)
  qed
  then show ?thesis by simp
qed

lemma alloc_inputs_inv:
  assumes wf: "wf_graph G" and sz: "sizes_ok T G (ga_bufts ga)" and ok: "\<forall>b. dyn_ok (bt_alignment (T b)) (ga_talloc ga b)"
    and r: "alloc_inputs T G node_ids leaf_ids ga = Inr ga'"
  shows "live_inv T G (uses_from G 0) (defined_at G 0) {} ga' \<and> grows ga ga' \<and> (\<forall>t \<in> set (cg_leafs G). plain G t \<longrightarrow> t \<in> owned ga')"
proof -
  let ?n = "length (cg_nodes G)"
  let ?ss = "\<lambda>i. concat (map (\<lambda>t. srcs (cg_tensor G t)) (take i (cg_nodes G)))"
  let ?I = "\<lambda>i. set (cg_leafs G) \<union> {t \<in> set (take i (cg_nodes G)). gt_input (cg_tensor G t)}"
  obtain ga1 where ga1: "alloc_leafs T G leaf_ids (ga\<lparr>ga_hash := (\<lambda>_. hash_zero)\<rparr>) = Inr ga1" "each (count_node T G node_ids) [0..<?n] ga1 = Inr ga'"
    using r by (auto simp: alloc_inputs_def and_then_Inr)
  have "counted T G ga (?ss (length [0..<?n])) (take (length [0..<?n]) (cg_nodes G)) (?I (length [0..<?n])) ga'"
  proof (rule each_inv[OF ga1(2), where P = "\<lambda>i. counted T G ga (?ss i) (take i (cg_nodes G)) (?I i)"])
    show "counted T G ga (?ss 0) (take 0 (cg_nodes G)) (?I 0) ga1" using alloc_leafs_inv[OF wf sz ok ga1(1)] by simp
    fix j w w' assume j: "j < length [0..<?n]" and w: "counted T G ga (?ss j) (take j (cg_nodes G)) (?I j) w" and c: "count_node T G node_ids ([0..<?n] ! j) w = Inr w'"
    have t: "take (Suc j) (cg_nodes G) = take j (cg_nodes G) @ [node_at G j]" using j by (simp add: take_Suc_conv_app_nth node_at_def)
    have "counted T G ga (?ss j @ srcs (cg_tensor G (node_at G j))) (take (Suc j) (cg_nodes G))
        (if gt_input (cg_tensor G (node_at G j)) then insert (node_at G j) (?I j) else ?I j) w'"
      by (rule count_node_inv[OF wf _ w]) (use j c in simp_all)
    moreover have "?I (Suc j) \<subseteq> (if gt_input (cg_tensor G (node_at G j)) then insert (node_at G j) (?I j) else ?I j)" unfolding t by auto
    ultimately have "counted T G ga (?ss j @ srcs (cg_tensor G (node_at G j))) (take (Suc j) (cg_nodes G)) (?I (Suc j)) w'" by (rule counted_mono)
    then show "counted T G ga (?ss (Suc j)) (take (Suc j) (cg_nodes G)) (?I (Suc j)) w'" unfolding t by simp
  qed
  then have c: "counted T G ga (uses_from G 0) (cg_nodes G) (?I ?n) ga'" by (simp add: uses_from_def)
  have vl: "views_left G (uses_from G 0) v = length (filter (counted_view G v) (cg_nodes G))" for v
    unfolding views_left_def by (rule arg_cong[where f = length], rule filter_cong) auto
  have "live_inv T G (uses_from G 0) (defined_at G 0) {} ga'"
  proof (rule live_invI)
    show "hn_n_views (ga_hash ga' w) = 0" if "view_of G u w" for u w
    proof -
      have "\<not> counted_view G w x" for x using wf_graphD(5)[OF wf, of w x] that by (auto simp: counted_view_def view_of_def)
      then show ?thesis using c by (simp add: counted_def)
    qed
  qed (use c vl in \<open>auto simp: counted_def defined_at_def\<close>)
  then show ?thesis using c by (simp add: counted_def)
qed

section \<open>The whole graph\<close>

text \<open>Tensors whose contents the graph still relies on once node \<open>i\<close> is computed: operands of later nodes (directly or through a view), outputs,
  and inputs among the nodes to come.\<close>

definition relied_on :: "ggml_cgraph \<Rightarrow> nat \<Rightarrow> nat set" where
  "relied_on G i = {t \<in> defined_at G (Suc i). plain G t \<and> (needed G (uses_from G (Suc i)) t \<or> gt_output (cg_tensor G t))} \<union>
    {t \<in> set (cg_nodes G) - defined_at G (Suc i). plain G t \<and> gt_input (cg_tensor G t)} - {node_at G i}"

definition root :: "ggml_cgraph \<Rightarrow> nat \<Rightarrow> nat" where
  "root G p = (case gt_view_src (cg_tensor G p) of Some v \<Rightarrow> v | None \<Rightarrow> p)"

lemma stays_trans: "stays G i a b \<Longrightarrow> stays G i b c \<Longrightarrow> stays G i a c"
  unfolding stays_def by (metis grows_trans)

lemma stays_mono: "stays G k a b \<Longrightarrow> i \<le> k \<Longrightarrow> stays G i a b"
  using defined_at_mono[of i k G] unfolding stays_def by blast

lemma plan_nodes_inv:
  assumes wf: "wf_graph G" and L: "live_inv T G (uses_from G i) (defined_at G i) {} ga" and k: "i \<le> k" "k \<le> length (cg_nodes G)"
    and r: "each (plan_node T G ids) [i..<k] ga = Inr ga'"
  shows "live_inv T G (uses_from G k) (defined_at G k) {} ga' \<and> stays G i ga ga'"
proof -
  have "live_inv T G (uses_from G (i + length [i..<k])) (defined_at G (i + length [i..<k])) {} ga' \<and> stays G i ga ga'"
  proof (rule each_inv[OF r, where P = "\<lambda>j w. live_inv T G (uses_from G (i + j)) (defined_at G (i + j)) {} w \<and> stays G i ga w"])
    show "live_inv T G (uses_from G (i + 0)) (defined_at G (i + 0)) {} ga \<and> stays G i ga ga" using L by (simp add: stays_def grows_def)
    fix j w w' assume j: "j < length [i..<k]" and w: "live_inv T G (uses_from G (i + j)) (defined_at G (i + j)) {} w \<and> stays G i ga w"
      and u: "plan_node T G ids ([i..<k] ! j) w = Inr w'"
    have "plan_node T G ids (i + j) w = Inr w'" "i + j < length (cg_nodes G)" using u j k by simp_all
    from plan_node_inv[OF wf this(2) conjunct1[OF w] this(1)]
    show "live_inv T G (uses_from G (i + Suc j)) (defined_at G (i + Suc j)) {} w' \<and> stays G i ga w'"
      using w stays_trans[of G i ga w w'] stays_mono[of G "i + j" w w' i] by simp
  qed
  then show ?thesis using k by simp
qed

lemma leafs_stay:
  assumes wf: "wf_graph G" and sz: "sizes_ok T G (ga_bufts ga)" and ok: "\<forall>b. dyn_ok (bt_alignment (T b)) (ga_talloc ga b)"
    and r: "alloc_graph_impl T G node_ids leaf_ids ga = Inr ga'"
  obtains s where "live_inv T G (uses_from G 0) (defined_at G 0) {} s" "grows ga s" "\<forall>t \<in> set (cg_leafs G). plain G t \<longrightarrow> t \<in> owned s" "stays G 0 s ga'"
proof -
  obtain s where s: "alloc_inputs T G node_ids leaf_ids ga = Inr s" "each (plan_node T G node_ids) [0..<length (cg_nodes G)] s = Inr ga'"
    using r by (auto simp: alloc_graph_impl_def and_then_Inr)
  note I = alloc_inputs_inv[OF wf sz ok s(1)]
  have "stays G 0 s ga'" using plan_nodes_inv[OF wf conjunct1[OF I] _ _ s(2)] by simp
  then show thesis using I that by blast
qed

lemma graph_at_node:
  assumes wf: "wf_graph G" and sz: "sizes_ok T G (ga_bufts ga)" and ok: "\<forall>b. dyn_ok (bt_alignment (T b)) (ga_talloc ga b)"
    and r: "alloc_graph_impl T G node_ids leaf_ids ga = Inr ga'" and i: "i < length (cg_nodes G)"
  obtains X e where "live_inv T G (uses_from G i) (defined_at G (Suc i)) X e" "\<forall>x \<in> X. overwritten G i e x" "stays G (Suc i) e ga'"
    "plain G (node_at G i) \<longrightarrow> node_at G i \<in> owned e"
proof -
  obtain s where s: "alloc_inputs T G node_ids leaf_ids ga = Inr s" "each (plan_node T G node_ids) [0..<length (cg_nodes G)] s = Inr ga'"
    using r by (auto simp: alloc_graph_impl_def and_then_Inr)
  have "[0..<length (cg_nodes G)] = [0..<i] @ i # [Suc i..<length (cg_nodes G)]"
    using i by (metis upt_add_eq_append upt_conv_Cons le_add_diff_inverse less_imp_le zero_le)
  then obtain a b where ab: "each (plan_node T G node_ids) [0..<i] s = Inr a" "plan_node T G node_ids i a = Inr b"
      "each (plan_node T G node_ids) [Suc i..<length (cg_nodes G)] b = Inr ga'"
    using s(2) by (auto simp: each_append and_then_Inr)
  have La: "live_inv T G (uses_from G i) (defined_at G i) {} a"
    using plan_nodes_inv[OF wf _ _ _ ab(1)] alloc_inputs_inv[OF wf sz ok s(1)] i by auto
  from plan_node_inv[OF wf i La ab(2)] obtain e where Lb: "live_inv T G (uses_from G (Suc i)) (defined_at G (Suc i)) {} b"
    and e: "alloc_for_node T G node_ids i a = Inr e" "grows e b" "\<forall>u. place b u = place e u" by blast
  have "stays G (Suc i) e b" using e by (simp add: stays_def)
  moreover have "stays G (Suc i) b ga'" using plan_nodes_inv[OF wf Lb _ _ ab(3)] i by simp
  ultimately have "stays G (Suc i) e ga'" by (rule stays_trans)
  then show thesis using alloc_for_node_inv[OF wf i La e(1)] that by blast
qed

lemma region_place: "place ga' t = place ga t \<Longrightarrow> tensor_region T G ga' t = tensor_region T G ga t"
  by (simp add: tensor_region_def)

lemma needed_later: "k < length (cg_nodes G) \<Longrightarrow> needed G (uses_from G (Suc k)) t \<Longrightarrow> needed G (uses_from G k) t"
  by (auto simp: needed_def uses_from_Suc)

lemma relied_owned:
  assumes L: "live_inv T G (uses_from G i) (defined_at G (Suc i)) X e" and X: "\<forall>x \<in> X. overwritten G i e x" and i: "i < length (cg_nodes G)"
    and t: "t \<in> relied_on G i"
  shows "t \<in> owned e"
proof (cases "t \<in> defined_at G (Suc i)")
  case True
  then consider "plain G t" "needed G (uses_from G (Suc i)) t" | "plain G t" "gt_output (cg_tensor G t)"
    using t by (auto simp: relied_on_def)
  then show ?thesis
  proof cases
    case 1
    then have "t \<notin> X" using X by (auto simp: overwritten_def)
    then show ?thesis using live_invD(6)[OF L True _ 1(1)] needed_later[OF i 1(2)] by blast
  next
    case 2
    then show ?thesis using live_invD(8)[OF L True] by blast
  qed
next
  case False
  then show ?thesis using t live_invD(7)[OF L] by (auto simp: relied_on_def)
qed

text \<open>Every tensor the plan places lies in the memory the plan asks for.\<close>

lemma plan_in_memory:
  assumes wf: "wf_graph G" and sz: "sizes_ok T G (ga_bufts ga)" and ok: "\<forall>b. dyn_ok (bt_alignment (T b)) (ga_talloc ga b)"
    and r: "alloc_graph_impl T G node_ids leaf_ids ga = Inr ga'" and t: "t \<in> set (cg_nodes G) \<union> set (cg_leafs G)" "plain G t"
  shows "place_end T G ga' t \<le> ggml_dyn_tallocr_max_size (ga_talloc ga' (fst (place ga' t))) (ba_chunk (snd (place ga' t))) \<and> fst (place ga' t) \<in> set (ga_bufts ga')"
proof -
  obtain k R Df X e where L: "live_inv T G R Df X e" and o: "t \<in> owned e" and st: "stays G k e ga'" and d: "t \<in> defined_at G k"
  proof (cases "t \<in> set (cg_leafs G)")
    case True
    then show thesis using leafs_stay[OF wf sz ok r] t(2) that[of "uses_from G 0" "defined_at G 0" "{}" _ 0] by (auto simp: defined_at_def)
  next
    case False
    then obtain i where i: "i < length (cg_nodes G)" "t = node_at G i" using t(1) by (auto simp: in_set_conv_nth node_at_def)
    obtain X e where "live_inv T G (uses_from G i) (defined_at G (Suc i)) X e" "stays G (Suc i) e ga'" "node_at G i \<in> owned e"
      using graph_at_node[OF wf sz ok r i(1)] t(2) i(2) by metis
    then show thesis using that[of "uses_from G i" "defined_at G (Suc i)" X e "Suc i"] i by (simp add: defined_at_Suc)
  qed
  have "place ga' t = place e t" using st d by (simp add: stays_def)
  then show ?thesis using gal_invD(5)[OF live_invD(1)[OF L] o] place_fst[OF o live_invD(1)[OF L]] st
    unfolding stays_def grows_def place_end_def by (metis order_trans)
qed

text \<open>C8. The plan of a graph is safe. Computing a node writes to a region that no tensor the graph still relies on has a part in,
  and that an operand of the node shares only when the node may be computed in place over it; the region lies in the memory
  the plan asks for.\<close>

theorem graph_plan_safe:
  assumes wf: "wf_graph G" and sz: "sizes_ok T G (ga_bufts ga)" and ok: "\<forall>b. dyn_ok (bt_alignment (T b)) (ga_talloc ga b)"
    and r: "alloc_graph_impl T G node_ids leaf_ids ga = Inr ga'" and i: "i < length (cg_nodes G)" and pl: "plain G (node_at G i)"
  shows "(\<forall>t \<in> relied_on G i. tensor_region T G ga' (node_at G i) \<inter> tensor_region T G ga' t = {}) \<and>
    (\<forall>p \<in> set (srcs (cg_tensor G (node_at G i))). plain G (root G p) \<longrightarrow>
      tensor_region T G ga' (node_at G i) \<inter> tensor_region T G ga' (root G p) = {} \<or>
      root G p = p \<and> ggml_op_can_inplace (gt_op (cg_tensor G (node_at G i))) \<and> place ga' p = place ga' (node_at G i)) \<and>
    place_end T G ga' (node_at G i) \<le> ggml_dyn_tallocr_max_size (ga_talloc ga' (fst (place ga' (node_at G i)))) (ba_chunk (snd (place ga' (node_at G i))))"
proof -
  let ?n = "node_at G i" and ?Df = "defined_at G (Suc i)"
  obtain X e where L: "live_inv T G (uses_from G i) ?Df X e" and X: "\<forall>x \<in> X. overwritten G i e x" and st: "stays G (Suc i) e ga'" and n: "?n \<in> owned e"
    using graph_at_node[OF wf sz ok r i] pl by metis
  note D = live_invD[OF L] and S = multi.separatedD(3)[OF gal_invD(1)[OF live_invD(1)[OF L]]]
  have df: "?Df = insert ?n (defined_at G i)" by (rule defined_at_Suc[OF i])
  have pn: "place ga' ?n = place e ?n" using st df by (simp add: stays_def)
  have dj: "tensor_region T G ga' ?n \<inter> tensor_region T G ga' t = {}" if "t \<in> owned e" "t \<noteq> ?n" "place ga' t = place e t" for t
    using S[OF n that(1)] that(2) region_place[OF that(3)] region_place[OF pn] by metis
  have "tensor_region T G ga' ?n \<inter> tensor_region T G ga' t = {}" if t: "t \<in> relied_on G i" for t
    by (rule dj[OF relied_owned[OF L X i t]]) (use t st in \<open>auto simp: relied_on_def stays_def\<close>)
  moreover have "tensor_region T G ga' ?n \<inter> tensor_region T G ga' (root G p) = {} \<or>
      root G p = p \<and> ggml_op_can_inplace (gt_op (cg_tensor G ?n)) \<and> place ga' p = place ga' ?n"
    if p: "p \<in> set (srcs (cg_tensor G ?n))" and rp: "plain G (root G p)" for p
  proof -
    have rd: "root G p \<in> defined_at G i"
      using wf_graphD(6,7)[OF wf i p] rp by (auto simp: root_def view_of_def split: option.splits)
    have nr: "needed G (uses_from G i) (root G p)"
      using p uses_from_Suc[OF i] by (auto simp: root_def needed_def view_of_def split: option.splits)
    have pr: "place ga' (root G p) = place e (root G p)" using rd df st by (simp add: stays_def)
    show ?thesis
    proof (cases "root G p \<in> X")
      case True
      then have o: "overwritten G i e (root G p)" using X by blast
      then have "\<not> view_of G (root G p) p" using p by (auto simp: overwritten_def)
      then have "root G p = p" by (auto simp: root_def view_of_def split: option.splits)
      then show ?thesis using o pr pn by (auto simp: overwritten_def)
    next
      case False
      then have "root G p \<in> owned e" using D(6)[of "root G p"] rd df rp nr by blast
      moreover have "root G p \<noteq> ?n" using rd node_not_defined[OF wf i] by metis
      ultimately show ?thesis using dj pr by blast
    qed
  qed
  moreover have "place_end T G ga' ?n \<le> ggml_dyn_tallocr_max_size (ga_talloc ga' (fst (place ga' ?n))) (ba_chunk (snd (place ga' ?n)))"
    using plan_in_memory[OF wf sz ok r _ pl] i by (simp add: node_at_def)
  ultimately show ?thesis by blast
qed

section \<open>An example\<close>

text \<open>A chain of three operations, and a last one whose operands are a parameter.\<close>

definition ex_type :: "nat \<Rightarrow> buffer_type" where
  "ex_type b = \<lparr>bt_alignment = 32, bt_max_size = 1048576, bt_alloc_size = (\<lambda>t. 64)\<rparr>"

definition ex_gtensor :: "nat \<Rightarrow> nat list \<Rightarrow> bool \<Rightarrow> gtensor" where
  "ex_gtensor op ss out = \<lparr>gt_type = 0, gt_ne = [16, 1, 1, 1], gt_nb = [4, 64, 64, 64], gt_op = op,
    gt_src = map Some ss @ replicate (GGML_MAX_SRC - length ss) None, gt_view_src = None, gt_view_offs = 0, gt_input = False, gt_output = out, gt_data = 0, gt_buffer = False\<rparr>"

definition ex_graph :: "nat list \<Rightarrow> ggml_cgraph" where
  "ex_graph ls = \<lparr>cg_nodes = [1, 2, 3, 4], cg_leafs = [0], cg_tensor = (\<lambda>t.
     if t = 1 then ex_gtensor 29 [0] False else if t = 2 then ex_gtensor 29 [1] False else if t = 3 then ex_gtensor 29 [2] False
     else if t = 4 then ex_gtensor 29 ls True else ex_gtensor 0 [] False)\<rparr>"

definition ex_talloc :: "tallocr_chunk list \<Rightarrow> ggml_dyn_tallocr" where
  "ex_talloc cs = \<lparr>da_alignment = 32, da_max_chunk_size = 1048576, da_chunks = cs\<rparr>"

definition ex_st :: "hash_node list \<Rightarrow> tallocr_chunk list \<Rightarrow> ggml_gallocr" where
  "ex_st h cs = \<lparr>ga_bufts = [0], ga_talloc = (\<lambda>b. if b = 0 then ex_talloc cs else ex_talloc []), ga_hash = (\<lambda>t. if t < length h then h ! t else hash_zero)\<rparr>"

definition ex_hn :: "int \<Rightarrow> nat \<Rightarrow> bool \<Rightarrow> hash_node" where
  "ex_hn c off al = \<lparr>hn_n_children = c, hn_n_views = 0, hn_buffer_id = 0, hn_addr = \<lparr>ba_chunk = 0, ba_offset = off\<rparr>, hn_allocated = al\<rparr>"

lemma ex_st_simps [simp]:
  "ga_bufts (ex_st h cs) = [0]" "ga_talloc (ex_st h cs) 0 = ex_talloc cs" "t < length h \<Longrightarrow> ga_hash (ex_st h cs) t = h ! t"
  "t < length h \<Longrightarrow> upd_hash t f (ex_st h cs) = ex_st (h[t := f (h ! t)]) cs"
  "(ex_st h cs)\<lparr>ga_talloc := (ga_talloc (ex_st h cs))(0 := ex_talloc cs')\<rparr> = ex_st h cs'"
  by (auto simp: ex_st_def upd_hash_def fun_eq_iff nth_list_update)

lemma ex_hn_simps [simp]:
  "hn_n_children (ex_hn c off al) = c" "hn_n_views (ex_hn c off al) = 0" "hn_buffer_id (ex_hn c off al) = 0"
  "hn_addr (ex_hn c off al) = \<lparr>ba_chunk = 0, ba_offset = off\<rparr>" "hn_allocated (ex_hn c off al) = al"
  "(ex_hn c off al)\<lparr>hn_n_children := c'\<rparr> = ex_hn c' off al" "(ex_hn c off al)\<lparr>hn_allocated := al'\<rparr> = ex_hn c off al'"
  "(ex_hn c off al)\<lparr>hn_buffer_id := 0, hn_addr := \<lparr>ba_chunk = 0, ba_offset = off'\<rparr>\<rparr> = ex_hn c off' al"
  by (simp_all add: ex_hn_def)

lemma plan_run:
  "ggml_dyn_tallocr_alloc 64 (ex_talloc []) = Inr (\<lparr>ba_chunk = 0, ba_offset = 0\<rparr>, ex_talloc [\<lparr>tc_free_blocks = [\<lparr>fb_offset = 64, fb_size = 1048512\<rparr>], tc_max_size = 64\<rparr>])"
  "ggml_dyn_tallocr_alloc 64 (ex_talloc [\<lparr>tc_free_blocks = [\<lparr>fb_offset = 64, fb_size = 1048512\<rparr>], tc_max_size = 64\<rparr>]) =
    Inr (\<lparr>ba_chunk = 0, ba_offset = 64\<rparr>, ex_talloc [\<lparr>tc_free_blocks = [\<lparr>fb_offset = 128, fb_size = 1048448\<rparr>], tc_max_size = 128\<rparr>])"
  "ggml_dyn_tallocr_free_bytes \<lparr>ba_chunk = 0, ba_offset = 0\<rparr> 64 (ex_talloc [\<lparr>tc_free_blocks = [\<lparr>fb_offset = 128, fb_size = 1048448\<rparr>], tc_max_size = 128\<rparr>]) =
     Inr (ex_talloc [\<lparr>tc_free_blocks = [\<lparr>fb_offset = 0, fb_size = 64\<rparr>, \<lparr>fb_offset = 128, fb_size = 1048448\<rparr>], tc_max_size = 128\<rparr>])"
  "ggml_dyn_tallocr_alloc 64 (ex_talloc [\<lparr>tc_free_blocks = [\<lparr>fb_offset = 0, fb_size = 64\<rparr>, \<lparr>fb_offset = 128, fb_size = 1048448\<rparr>], tc_max_size = 128\<rparr>]) =
    Inr (\<lparr>ba_chunk = 0, ba_offset = 0\<rparr>, ex_talloc [\<lparr>tc_free_blocks = [\<lparr>fb_offset = 128, fb_size = 1048448\<rparr>], tc_max_size = 128\<rparr>])"
  "ggml_dyn_tallocr_free_bytes \<lparr>ba_chunk = 0, ba_offset = 64\<rparr> 64 (ex_talloc [\<lparr>tc_free_blocks = [\<lparr>fb_offset = 128, fb_size = 1048448\<rparr>], tc_max_size = 128\<rparr>]) =
     Inr (ex_talloc [\<lparr>tc_free_blocks = [\<lparr>fb_offset = 64, fb_size = 1048512\<rparr>], tc_max_size = 128\<rparr>])"
  "ggml_dyn_tallocr_alloc 64 (ex_talloc [\<lparr>tc_free_blocks = [\<lparr>fb_offset = 64, fb_size = 1048512\<rparr>], tc_max_size = 128\<rparr>]) =
    Inr (\<lparr>ba_chunk = 0, ba_offset = 64\<rparr>, ex_talloc [\<lparr>tc_free_blocks = [\<lparr>fb_offset = 128, fb_size = 1048448\<rparr>], tc_max_size = 128\<rparr>])"
  "ggml_dyn_tallocr_alloc 64 (ex_talloc [\<lparr>tc_free_blocks = [\<lparr>fb_offset = 128, fb_size = 1048448\<rparr>], tc_max_size = 128\<rparr>]) =
    Inr (\<lparr>ba_chunk = 0, ba_offset = 128\<rparr>, ex_talloc [\<lparr>tc_free_blocks = [\<lparr>fb_offset = 192, fb_size = 1048384\<rparr>], tc_max_size = 192\<rparr>])"
  "ggml_dyn_tallocr_free_bytes \<lparr>ba_chunk = 0, ba_offset = 0\<rparr> 64 (ex_talloc [\<lparr>tc_free_blocks = [\<lparr>fb_offset = 192, fb_size = 1048384\<rparr>], tc_max_size = 192\<rparr>]) =
     Inr (ex_talloc [\<lparr>tc_free_blocks = [\<lparr>fb_offset = 0, fb_size = 64\<rparr>, \<lparr>fb_offset = 192, fb_size = 1048384\<rparr>], tc_max_size = 192\<rparr>])"
  "ggml_dyn_tallocr_free_bytes \<lparr>ba_chunk = 0, ba_offset = 64\<rparr> 64 (ex_talloc [\<lparr>tc_free_blocks = [\<lparr>fb_offset = 0, fb_size = 64\<rparr>, \<lparr>fb_offset = 192, fb_size = 1048384\<rparr>], tc_max_size = 192\<rparr>]) =
     Inr (ex_talloc [\<lparr>tc_free_blocks = [\<lparr>fb_offset = 0, fb_size = 128\<rparr>, \<lparr>fb_offset = 192, fb_size = 1048384\<rparr>], tc_max_size = 192\<rparr>])"
  by (simp_all add: alloc_eval ex_talloc_def free_scan.simps)

lemma ex_start: "(ex_st h cs)\<lparr>ga_hash := (\<lambda>_. hash_zero)\<rparr> = ex_st (replicate 5 (ex_hn 0 0 False)) cs"
  by (auto simp: ex_st_def fun_eq_iff ex_hn_def hash_zero_def)

lemma ex_graph_simps [simp]:
  "cg_nodes (ex_graph ls) = [1, 2, 3, 4]" "cg_leafs (ex_graph ls) = [0]"
  "cg_tensor (ex_graph ls) 0 = ex_gtensor 0 [] False" "cg_tensor (ex_graph ls) 1 = ex_gtensor 29 [0] False" "cg_tensor (ex_graph ls) (Suc 0) = ex_gtensor 29 [0] False"
  "cg_tensor (ex_graph ls) 2 = ex_gtensor 29 [1] False" "cg_tensor (ex_graph ls) 3 = ex_gtensor 29 [2] False" "cg_tensor (ex_graph ls) 4 = ex_gtensor 29 ls True"
  by (simp_all add: ex_graph_def)

lemma ex_gtensor_simps [simp]:
  "gt_op (ex_gtensor op ss out) = op" "srcs (ex_gtensor op ss out) = ss" "gt_view_src (ex_gtensor op ss out) = None" "gt_input (ex_gtensor op ss out) = False"
  "gt_output (ex_gtensor op ss out) = out" "gt_data (ex_gtensor op ss out) = 0" "gt_buffer (ex_gtensor op ss out) = False" "bt_alloc_size (ex_type b) x = 64"
proof -
  have "concat (map (case_option [] (\<lambda>s. [s]) \<circ> Some) ss) = ss" by (induction ss) simp_all
  then show "srcs (ex_gtensor op ss out) = ss" by (simp add: ex_gtensor_def srcs_def)
qed (simp_all add: ex_gtensor_def ex_type_def)

lemmas plan_eval = alloc_graph_impl_def alloc_inputs_def alloc_leafs_def plan_node_def alloc_for_node_def update_parent_def count_node_def count_src_def
  get_node_buffer_id_def free_node_def allocate_node_def alloc_fresh_def buft_at_def ggml_gallocr_is_allocated_def ggml_gallocr_is_own_def
  ggml_op_can_inplace_def Let_def

lemma five_simps [simp]:
  "[a, b, c, d, e][0 := x] = [x, b, c, d, e]" "[a, b, c, d, e][Suc 0 := x] = [a, x, c, d, e]" "[a, b, c, d, e][2 := x] = [a, b, x, d, e]"
  "[a, b, c, d, e][3 := x] = [a, b, c, x, e]" "[a, b, c, d, e][4 := x] = [a, b, c, d, x]" "replicate 5 a = [a, a, a, a, a]"
  "[0..<Suc 0] = [0]" "[0..<4] = [0, 1, 2, 3]" "[p, q, r, s] ! 2 = r" "[p, q, r, s] ! 3 = s"
  by (simp_all add: numeral_eq_Suc)

lemma ex_counts: "alloc_inputs ex_type (ex_graph [2, 3]) None None (ex_st h []) =
    Inr (ex_st [ex_hn 1 0 True, ex_hn 1 0 False, ex_hn 2 0 False, ex_hn 1 0 False, ex_hn 0 0 False] [\<lparr>tc_free_blocks = [\<lparr>fb_offset = 64, fb_size = 1048512\<rparr>], tc_max_size = 64\<rparr>])"
  by (simp add: plan_eval ex_start plan_run del: fun_upd_apply)

lemma ex_plan: "alloc_graph_impl ex_type (ex_graph [2, 3]) None None (ex_st h []) =
    Inr (ex_st [ex_hn 0 0 False, ex_hn 0 64 False, ex_hn 0 0 False, ex_hn 0 64 False, ex_hn 0 128 True]
      [\<lparr>tc_free_blocks = [\<lparr>fb_offset = 0, fb_size = 128\<rparr>, \<lparr>fb_offset = 192, fb_size = 1048384\<rparr>], tc_max_size = 192\<rparr>])"
  by (simp add: alloc_graph_impl_def ex_counts, simp add: plan_eval plan_run del: fun_upd_apply)


abbreviation ex_planned :: ggml_gallocr where
  "ex_planned \<equiv> ex_st [ex_hn 0 0 False, ex_hn 0 64 False, ex_hn 0 0 False, ex_hn 0 64 False, ex_hn 0 128 True]
    [\<lparr>tc_free_blocks = [\<lparr>fb_offset = 0, fb_size = 128\<rparr>, \<lparr>fb_offset = 192, fb_size = 1048384\<rparr>], tc_max_size = 192\<rparr>]"

lemma ex_wf: "set ls \<subseteq> {0, 1, 2, 3} \<Longrightarrow> wf_graph (ex_graph ls)"
proof -
  assume ls: "set ls \<subseteq> {0, 1, 2, 3}"
  have nv: "\<not> view_of (ex_graph ls) v t" "\<not> gt_input (cg_tensor (ex_graph ls) t)" for v t by (simp_all add: view_of_def ex_graph_def)
  have "p \<in> defined_at (ex_graph ls) i" if i: "i < 4" and p: "p \<in> set (srcs (cg_tensor (ex_graph ls) (node_at (ex_graph ls) i)))" for i p
  proof -
    consider "i = 0" | "i = 1" | "i = 2" | "i = 3" using i by linarith
    then show ?thesis using p ls by cases (auto simp: node_at_def defined_at_def)
  qed
  then show ?thesis using nv by (simp add: wf_graph_def)
qed

lemma ex_sizes: "sizes_ok ex_type G bufts"
  by (simp add: sizes_ok_def tsize_def fits_def SIZE_MAX_def ex_type_def)

lemma ex_dyn_ok: "\<forall>b. dyn_ok (bt_alignment (ex_type b)) (ga_talloc (ex_st h []) b)"
  by (simp add: dyn_ok_def ex_st_def ex_talloc_def ex_type_def SIZE_MAX_def)

theorem graph_plan_safe_witness:
  "tensor_region ex_type (ex_graph [2, 3]) ex_planned 3 \<inter> tensor_region ex_type (ex_graph [2, 3]) ex_planned 2 = {} \<and> ba_offset (snd (place ex_planned 3)) = 64"
proof -
  let ?G = "ex_graph [2, 3]"
  have n: "node_at ?G 2 = 3" by (simp add: node_at_def)
  have "2 \<in> relied_on ?G 2" by (simp add: relied_on_def n defined_at_def needed_def uses_from_def plain_def)
  moreover have "(\<forall>t \<in> relied_on ?G 2. tensor_region ex_type ?G ex_planned 3 \<inter> tensor_region ex_type ?G ex_planned t = {})"
    using graph_plan_safe[OF ex_wf ex_sizes ex_dyn_ok ex_plan, of 2] unfolding n by (simp add: plain_def)
  ultimately show ?thesis by (simp add: place_def)
qed

end
