(* ===== verification/Graph_Reserve.thy ===== *)
theory Graph_Reserve
  imports Graph_Alloc
begin

text \<open>
  From a plan to memory (\<^verbatim>\<open>ggml_gallocr_reserve_n\<close> and \<^verbatim>\<open>ggml_gallocr_alloc_graph\<close> in \<^verbatim>\<open>ggml-alloc.c\<close>): the places of the plan are
  recorded by position in the graph, the chunks are allocated with the sizes the plan asks for, and the tensors of a graph
  get their addresses from the recorded places. What a backend returns when it is asked for a buffer is a parameter, a function of
  the buffer type, the size, and the number of buffers asked for before. The \<^verbatim>\<open>assert\<close>s, which a release build drops, are left out.
\<close>

section \<open>Virtual buffers\<close>

record backend_buffer =
  bb_base :: nat
  bb_size :: nat

record vbuffer =
  vb_id :: nat
  vb_chunks :: "backend_buffer list"

type_synonym buft_alloc = "nat \<Rightarrow> nat \<Rightarrow> nat \<Rightarrow> backend_buffer option"

definition ggml_vbuffer_chunk_size :: "vbuffer \<Rightarrow> nat \<Rightarrow> nat" where
  "ggml_vbuffer_chunk_size buf c = (if c < length (vb_chunks buf) then bb_size (vb_chunks buf ! c) else 0)"

definition ggml_vbuffer_size :: "vbuffer \<Rightarrow> nat" where
  "ggml_vbuffer_size buf = u64 (int (sum_list (map bb_size (vb_chunks buf))))"

text \<open>The buffers of the chunks \<open>ns\<close> and the number of requests made; a failed request frees the earlier ones.\<close>

primrec alloc_chunks :: "buft_alloc \<Rightarrow> nat \<Rightarrow> ggml_dyn_tallocr \<Rightarrow> nat list \<Rightarrow> nat \<Rightarrow> backend_buffer list option \<times> nat" where
  "alloc_chunks B buft talloc [] k = (Some [], k)"
| "alloc_chunks B buft talloc (n # ns) k =
    (case B buft (ggml_dyn_tallocr_max_size talloc n) k of
       None \<Rightarrow> (None, k + 1)
     | Some b \<Rightarrow> (case alloc_chunks B buft talloc ns (k + 1) of (None, k') \<Rightarrow> (None, k') | (Some bs, k') \<Rightarrow> (Some (b # bs), k')))"

definition ggml_vbuffer_alloc :: "buft_alloc \<Rightarrow> nat \<Rightarrow> ggml_dyn_tallocr \<Rightarrow> nat \<Rightarrow> vbuffer option \<times> nat" where
  "ggml_vbuffer_alloc B buft talloc k =
    (case alloc_chunks B buft talloc [0..<length (da_chunks talloc)] k of
       (None, k') \<Rightarrow> (None, k') | (Some bs, k') \<Rightarrow> (Some \<lparr>vb_id = k', vb_chunks = bs\<rparr>, k' + 1))"

section \<open>Recorded places\<close>

record tensor_alloc =
  ta_buffer_id :: int
  ta_addr :: "buffer_address option"
  ta_size_max :: nat

record node_alloc =
  na_dst :: tensor_alloc
  na_src :: "tensor_alloc list"

record galloc =
  gs_plan :: ggml_gallocr
  gs_buffers :: "vbuffer option list"
  gs_node_allocs :: "node_alloc list"
  gs_leaf_allocs :: "tensor_alloc list"
  gs_requests :: nat

definition unplaced :: tensor_alloc where
  "unplaced = \<lparr>ta_buffer_id = - 1, ta_addr = None, ta_size_max = 0\<rparr>"

definition plan_tensor :: "(nat \<Rightarrow> buffer_type) \<Rightarrow> ggml_cgraph \<Rightarrow> ggml_gallocr \<Rightarrow> nat \<Rightarrow> tensor_alloc res" where
  "plan_tensor T G ga t =
    (if is_view (cg_tensor G t) \<or> gt_data (cg_tensor G t) \<noteq> 0 then Inr unplaced
     else
       let hn = ga_hash ga t in
       and_then (buft_at ga (hn_buffer_id hn)) (\<lambda>buft.
         Inr \<lparr>ta_buffer_id = int (hn_buffer_id hn), ta_addr = Some (hn_addr hn), ta_size_max = bt_alloc_size (T buft) (cg_tensor G t)\<rparr>))"

definition plan_src :: "(nat \<Rightarrow> buffer_type) \<Rightarrow> ggml_cgraph \<Rightarrow> ggml_gallocr \<Rightarrow> nat option \<Rightarrow> tensor_alloc res" where
  "plan_src T G ga src = (case src of None \<Rightarrow> Inr unplaced | Some t \<Rightarrow> plan_tensor T G ga t)"

primrec collect :: "('a \<Rightarrow> 'b res) \<Rightarrow> 'a list \<Rightarrow> 'b list res" where
  "collect f [] = Inr []"
| "collect f (x # xs) = and_then (f x) (\<lambda>y. and_then (collect f xs) (\<lambda>ys. Inr (y # ys)))"

definition plan_of_node :: "(nat \<Rightarrow> buffer_type) \<Rightarrow> ggml_cgraph \<Rightarrow> ggml_gallocr \<Rightarrow> nat \<Rightarrow> node_alloc res" where
  "plan_of_node T G ga node =
    and_then (plan_tensor T G ga node) (\<lambda>d.
    and_then (collect (\<lambda>j. plan_src T G ga (gt_src (cg_tensor G node) ! j)) [0..<GGML_MAX_SRC]) (\<lambda>ss. Inr \<lparr>na_dst = d, na_src = ss\<rparr>))"

section \<open>Reserving\<close>

definition share_buffer :: "nat \<Rightarrow> galloc \<Rightarrow> galloc" where
  "share_buffer i gs =
    (case find (\<lambda>j. ga_bufts (gs_plan gs) ! j = ga_bufts (gs_plan gs) ! i) [0..<i] of
       Some j \<Rightarrow> gs\<lparr>gs_buffers := (gs_buffers gs)[i := gs_buffers gs ! j]\<rparr>
     | None \<Rightarrow> gs)"

definition realloc_needed :: "galloc \<Rightarrow> nat \<Rightarrow> bool" where
  "realloc_needed gs i \<longleftrightarrow>
    (let talloc = ga_talloc (gs_plan gs) (ga_bufts (gs_plan gs) ! i) in
     gs_buffers gs ! i = None \<or>
     list_ex (\<lambda>c. ggml_dyn_tallocr_max_size talloc c > (case gs_buffers gs ! i of None \<Rightarrow> 0 | Some vb \<Rightarrow> ggml_vbuffer_chunk_size vb c))
       [0..<length (da_chunks talloc)])"

text \<open>One iteration of the loop that reallocates the buffers; the first component is \<open>False\<close> when the function returns \<open>false\<close>.\<close>

definition realloc_buffer :: "buft_alloc \<Rightarrow> bool \<Rightarrow> nat \<Rightarrow> galloc \<Rightarrow> bool \<times> galloc" where
  "realloc_buffer B no_alloc i gs0 =
    (let gs = share_buffer i gs0; buft = ga_bufts (gs_plan gs) ! i in
     if \<not> realloc_needed gs i then (True, gs)
     else if no_alloc then (True, gs\<lparr>gs_buffers := (gs_buffers gs)[i := None]\<rparr>)
     else
       (case ggml_vbuffer_alloc B buft (ga_talloc (gs_plan gs) buft) (gs_requests gs) of
          (vb, k) \<Rightarrow> (vb \<noteq> None, gs\<lparr>gs_buffers := (gs_buffers gs)[i := vb], gs_requests := k\<rparr>)))"

primrec realloc_buffers :: "buft_alloc \<Rightarrow> bool \<Rightarrow> nat list \<Rightarrow> galloc \<Rightarrow> bool \<times> galloc" where
  "realloc_buffers B no_alloc [] gs = (True, gs)"
| "realloc_buffers B no_alloc (i # is) gs =
    (case realloc_buffer B no_alloc i gs of (False, gs') \<Rightarrow> (False, gs') | (True, gs') \<Rightarrow> realloc_buffers B no_alloc is gs')"

definition reset_tallocs :: "ggml_gallocr \<Rightarrow> ggml_gallocr" where
  "reset_tallocs ga = ga\<lparr>ga_talloc := (\<lambda>b. if b \<in> set (ga_bufts ga) then ggml_dyn_tallocr_reset (ga_talloc ga b) else ga_talloc ga b)\<rparr>"

definition ggml_gallocr_reserve_n_impl ::
  "(nat \<Rightarrow> buffer_type) \<Rightarrow> buft_alloc \<Rightarrow> ggml_cgraph \<Rightarrow> int list option \<Rightarrow> int list option \<Rightarrow> bool \<Rightarrow> galloc \<Rightarrow> (bool \<times> galloc) res" where
  "ggml_gallocr_reserve_n_impl T B G node_ids leaf_ids no_alloc gs =
    and_then (alloc_graph_impl T G node_ids leaf_ids (reset_tallocs (gs_plan gs))) (\<lambda>ga.
    and_then (collect (plan_of_node T G ga) (cg_nodes G)) (\<lambda>nas.
    and_then (collect (plan_tensor T G ga) (cg_leafs G)) (\<lambda>las.
      Inr (realloc_buffers B no_alloc [0..<length (ga_bufts ga)] (gs\<lparr>gs_plan := ga, gs_node_allocs := nas, gs_leaf_allocs := las\<rparr>)))))"

definition ggml_gallocr_reserve_n_size :: "(nat \<Rightarrow> buffer_type) \<Rightarrow> buft_alloc \<Rightarrow> ggml_cgraph \<Rightarrow> int list option \<Rightarrow> int list option \<Rightarrow> galloc \<Rightarrow> (nat list \<times> galloc) res" where
  "ggml_gallocr_reserve_n_size T B G node_ids leaf_ids gs =
    and_then (ggml_gallocr_reserve_n_impl T B G node_ids leaf_ids True gs) (\<lambda>(ok, gs').
      if ok then Inr (map (\<lambda>b. u64 (int (sum_list (map tc_max_size (da_chunks (ga_talloc (gs_plan gs') b)))))) (ga_bufts (gs_plan gs')), gs') else Inl Abort)"

definition ggml_gallocr_reserve :: "(nat \<Rightarrow> buffer_type) \<Rightarrow> buft_alloc \<Rightarrow> ggml_cgraph \<Rightarrow> galloc \<Rightarrow> (bool \<times> galloc) res" where
  "ggml_gallocr_reserve T B G gs = ggml_gallocr_reserve_n_impl T B G None None False gs"

definition galloc_new_n :: "(nat \<Rightarrow> buffer_type) \<Rightarrow> nat list \<Rightarrow> galloc" where
  "galloc_new_n T bufts =
    \<lparr>gs_plan = ggml_gallocr_new_n T bufts, gs_buffers = replicate (length bufts) None, gs_node_allocs = [], gs_leaf_allocs = [], gs_requests = 0\<rparr>"

section \<open>Addresses\<close>

definition ggml_backend_tensor_alloc :: "(nat \<Rightarrow> buffer_type) \<Rightarrow> nat \<Rightarrow> backend_buffer \<Rightarrow> nat \<Rightarrow> nat \<Rightarrow> ggml_cgraph \<Rightarrow> ggml_cgraph res" where
  "ggml_backend_tensor_alloc T buft buf t addr G =
    (let x = cg_tensor G t in
     if gt_buffer x \<or> gt_data x \<noteq> 0 \<or> is_view x \<or> addr < bb_base buf \<or>
        u64 (int addr + int (bt_alloc_size (T buft) x)) > u64 (int (bb_base buf) + int (bb_size buf)) then Inl Abort
     else Inr (G\<lparr>cg_tensor := (cg_tensor G)(t := x\<lparr>gt_buffer := True, gt_data := addr\<rparr>)\<rparr>))"

definition ggml_vbuffer_tensor_alloc :: "(nat \<Rightarrow> buffer_type) \<Rightarrow> nat \<Rightarrow> vbuffer \<Rightarrow> nat \<Rightarrow> buffer_address \<Rightarrow> ggml_cgraph \<Rightarrow> ggml_cgraph res" where
  "ggml_vbuffer_tensor_alloc T buft vb t a G =
    (if ba_chunk a < length (vb_chunks vb) then
       let buf = vb_chunks vb ! ba_chunk a in
       ggml_backend_tensor_alloc T buft buf t (u64 (int (bb_base buf) + int (ba_offset a))) G
     else Inl Abort)"

definition ggml_backend_view_init :: "nat \<Rightarrow> nat \<Rightarrow> ggml_cgraph \<Rightarrow> ggml_cgraph res" where
  "ggml_backend_view_init t v G =
    (let x = cg_tensor G t; y = cg_tensor G v in
     if gt_buffer x \<or> \<not> gt_buffer y \<or> gt_data y = 0 then Inl Abort
     else Inr (G\<lparr>cg_tensor := (cg_tensor G)(t := x\<lparr>gt_buffer := True, gt_data := u64 (int (gt_data y) + int (gt_view_offs x))\<rparr>)\<rparr>))"

definition ggml_gallocr_init_tensor :: "(nat \<Rightarrow> buffer_type) \<Rightarrow> galloc \<Rightarrow> nat \<Rightarrow> tensor_alloc \<Rightarrow> ggml_cgraph \<Rightarrow> ggml_cgraph res" where
  "ggml_gallocr_init_tensor T gs t ta G =
    (case gt_view_src (cg_tensor G t) of
       Some v \<Rightarrow> if gt_buffer (cg_tensor G t) \<or> \<not> gt_buffer (cg_tensor G v) then Inr G else ggml_backend_view_init t v G
     | None \<Rightarrow>
         if gt_data (cg_tensor G t) \<noteq> 0 then Inr G
         else if ta_buffer_id ta < 0 \<or> nat (ta_buffer_id ta) \<ge> length (gs_buffers gs) then Inl Undefined
         else
           (case (gs_buffers gs ! nat (ta_buffer_id ta), ta_addr ta) of
              (Some vb, Some a) \<Rightarrow> ggml_vbuffer_tensor_alloc T (ga_bufts (gs_plan gs) ! nat (ta_buffer_id ta)) vb t a G
            | _ \<Rightarrow> Inl Undefined))"

text \<open>\<open>True\<close> when the recorded place is large enough, in spite of the name.\<close>

definition ggml_gallocr_node_needs_realloc :: "(nat \<Rightarrow> buffer_type) \<Rightarrow> galloc \<Rightarrow> ggml_cgraph \<Rightarrow> nat \<Rightarrow> tensor_alloc \<Rightarrow> bool" where
  "ggml_gallocr_node_needs_realloc T gs G t ta \<longleftrightarrow>
    (let x = cg_tensor G t in
     if gt_data x = 0 \<and> \<not> is_view x then
       0 \<le> ta_buffer_id ta \<and> bt_alloc_size (T (ga_bufts (gs_plan gs) ! nat (ta_buffer_id ta))) x \<le> ta_size_max ta
     else True)"

definition ggml_gallocr_needs_realloc :: "(nat \<Rightarrow> buffer_type) \<Rightarrow> galloc \<Rightarrow> ggml_cgraph \<Rightarrow> bool" where
  "ggml_gallocr_needs_realloc T gs G \<longleftrightarrow>
    length (gs_node_allocs gs) \<noteq> length (cg_nodes G) \<or> length (gs_leaf_allocs gs) \<noteq> length (cg_leafs G) \<or>
    \<not> list_all (\<lambda>(t, na). ggml_gallocr_node_needs_realloc T gs G t (na_dst na) \<and>
        list_all (\<lambda>j. case gt_src (cg_tensor G t) ! j of None \<Rightarrow> True | Some s \<Rightarrow> ggml_gallocr_node_needs_realloc T gs G s (na_src na ! j)) [0..<GGML_MAX_SRC])
      (zip (cg_nodes G) (gs_node_allocs gs))"

definition init_node :: "(nat \<Rightarrow> buffer_type) \<Rightarrow> galloc \<Rightarrow> nat \<times> node_alloc \<Rightarrow> ggml_cgraph \<Rightarrow> ggml_cgraph res" where
  "init_node T gs tn G =
    (case tn of (t, na) \<Rightarrow>
      and_then (each (\<lambda>j G. case gt_src (cg_tensor G t) ! j of None \<Rightarrow> Inr G | Some s \<Rightarrow> ggml_gallocr_init_tensor T gs s (na_src na ! j) G) [0..<GGML_MAX_SRC] G)
        (ggml_gallocr_init_tensor T gs t (na_dst na)))"

definition init_graph :: "(nat \<Rightarrow> buffer_type) \<Rightarrow> galloc \<Rightarrow> ggml_cgraph \<Rightarrow> ggml_cgraph res" where
  "init_graph T gs G =
    and_then (each (\<lambda>(t, ta). ggml_gallocr_init_tensor T gs t ta) (zip (cg_leafs G) (gs_leaf_allocs gs)) G)
      (each (init_node T gs) (zip (cg_nodes G) (gs_node_allocs gs)))"

text \<open>The result is \<open>None\<close> when the function returns \<open>false\<close>, and the graph with its addresses otherwise.\<close>

definition ggml_gallocr_alloc_graph :: "(nat \<Rightarrow> buffer_type) \<Rightarrow> buft_alloc \<Rightarrow> ggml_cgraph \<Rightarrow> galloc \<Rightarrow> (ggml_cgraph option \<times> galloc) res" where
  "ggml_gallocr_alloc_graph T B G gs =
    (if ggml_gallocr_needs_realloc T gs G then
       if length (ga_bufts (gs_plan gs)) = 1 then
         and_then (ggml_gallocr_reserve T B G gs) (\<lambda>(ok, gs').
           if ok then and_then (init_graph T gs' G) (\<lambda>G'. Inr (Some G', gs')) else Inr (None, gs'))
       else Inr (None, gs)
     else and_then (init_graph T gs G) (\<lambda>G'. Inr (Some G', gs)))"

definition ggml_gallocr_get_buffer_size :: "galloc \<Rightarrow> nat \<Rightarrow> nat res" where
  "ggml_gallocr_get_buffer_size gs i =
    (if i \<ge> length (gs_buffers gs) then Inl Abort
     else
       (case gs_buffers gs ! i of
          None \<Rightarrow> Inr 0
        | Some vb \<Rightarrow> Inr (if list_ex (\<lambda>j. map_option vb_id (gs_buffers gs ! j) = Some (vb_id vb)) [0..<i] then 0 else ggml_vbuffer_size vb)))"

section \<open>Reserved memory is large enough\<close>

definition chunk_good :: "backend_buffer \<Rightarrow> bool" where
  "chunk_good b \<longleftrightarrow> (0 < bb_size b \<longrightarrow> 0 < bb_base b) \<and> bb_base b + bb_size b \<le> SIZE_MAX"

text \<open>What is relied on of a backend: a buffer is at least as large as asked for, at a valid address.\<close>

definition backend_ok :: "buft_alloc \<Rightarrow> bool" where
  "backend_ok B \<longleftrightarrow> (\<forall>buft n k b. B buft n k = Some b \<longrightarrow> n \<le> bb_size b \<and> chunk_good b)"

definition buffers_good :: "galloc \<Rightarrow> bool" where
  "buffers_good gs \<longleftrightarrow> length (gs_buffers gs) = length (ga_bufts (gs_plan gs)) \<and> (\<forall>vb. Some vb \<in> set (gs_buffers gs) \<longrightarrow> (\<forall>b \<in> set (vb_chunks vb). chunk_good b))"

definition fits_plan :: "galloc \<Rightarrow> nat \<Rightarrow> bool" where
  "fits_plan gs i \<longleftrightarrow> (\<exists>vb. gs_buffers gs ! i = Some vb \<and>
    (\<forall>c. ggml_dyn_tallocr_max_size (ga_talloc (gs_plan gs) (ga_bufts (gs_plan gs) ! i)) c \<le> ggml_vbuffer_chunk_size vb c))"

lemma alloc_chunks_ok:
  assumes "backend_ok B" "alloc_chunks B buft talloc ns k = (Some bs, k')"
  shows "length bs = length ns \<and> (\<forall>i < length ns. ggml_dyn_tallocr_max_size talloc (ns ! i) \<le> bb_size (bs ! i)) \<and> (\<forall>b \<in> set bs. chunk_good b)"
  using assms(2)
proof (induction ns arbitrary: k bs)
  case (Cons n ns)
  then obtain b bs' where b: "B buft (ggml_dyn_tallocr_max_size talloc n) k = Some b" "alloc_chunks B buft talloc ns (k + 1) = (Some bs', k')" "bs = b # bs'"
    by (auto split: option.splits prod.splits)
  have "ggml_dyn_tallocr_max_size talloc n \<le> bb_size b \<and> chunk_good b" using assms(1) b(1) unfolding backend_ok_def by blast
  then show ?case using Cons.IH[OF b(2)] b(3) by (auto simp: nth_Cons split: nat.splits)
qed simp

lemma vbuffer_alloc_ok:
  assumes "backend_ok B" "ggml_vbuffer_alloc B buft talloc k = (Some vb, k')"
  shows "(\<forall>c. ggml_dyn_tallocr_max_size talloc c \<le> ggml_vbuffer_chunk_size vb c) \<and> (\<forall>b \<in> set (vb_chunks vb). chunk_good b)"
proof -
  obtain bs k1 where a: "alloc_chunks B buft talloc [0..<length (da_chunks talloc)] k = (Some bs, k1)" and vb: "vb_chunks vb = bs"
    using assms(2) by (auto simp: ggml_vbuffer_alloc_def split: prod.splits option.splits)
  show ?thesis using alloc_chunks_ok[OF assms(1) a] by (auto simp: vb ggml_vbuffer_chunk_size_def ggml_dyn_tallocr_max_size_def)
qed

lemma buffers_good_upd:
  assumes "buffers_good gs" "\<forall>vb. x = Some vb \<longrightarrow> (\<forall>b \<in> set (vb_chunks vb). chunk_good b)"
  shows "buffers_good (gs\<lparr>gs_buffers := (gs_buffers gs)[i := x], gs_requests := k\<rparr>)" "buffers_good (gs\<lparr>gs_buffers := (gs_buffers gs)[i := x]\<rparr>)"
  using assms set_update_subset_insert[of "gs_buffers gs" i x] unfolding buffers_good_def by auto

lemma share_buffer_good:
  assumes "buffers_good gs" "i < length (gs_buffers gs)"
  shows "buffers_good (share_buffer i gs) \<and> gs_plan (share_buffer i gs) = gs_plan gs \<and> length (gs_buffers (share_buffer i gs)) = length (gs_buffers gs) \<and>
    (\<forall>j. j \<noteq> i \<longrightarrow> gs_buffers (share_buffer i gs) ! j = gs_buffers gs ! j) \<and> gs_node_allocs (share_buffer i gs) = gs_node_allocs gs \<and> gs_leaf_allocs (share_buffer i gs) = gs_leaf_allocs gs"
proof (cases "find (\<lambda>j. ga_bufts (gs_plan gs) ! j = ga_bufts (gs_plan gs) ! i) [0..<i]")
  case (Some j)
  then have "j < i" by (auto simp: find_Some_iff)
  then have "gs_buffers gs ! j \<in> set (gs_buffers gs)" using assms(2) by simp
  then have "\<forall>vb. gs_buffers gs ! j = Some vb \<longrightarrow> (\<forall>b \<in> set (vb_chunks vb). chunk_good b)" using assms(1) unfolding buffers_good_def by metis
  then show ?thesis using Some buffers_good_upd(2)[OF assms(1)] by (simp add: share_buffer_def)
qed (use assms in \<open>simp add: share_buffer_def\<close>)

text \<open>What a pass of the reallocation loop keeps.\<close>

definition keeps :: "galloc \<Rightarrow> galloc \<Rightarrow> bool" where
  "keeps gs gs' \<longleftrightarrow> gs_plan gs' = gs_plan gs \<and> length (gs_buffers gs') = length (gs_buffers gs) \<and> gs_node_allocs gs' = gs_node_allocs gs \<and> gs_leaf_allocs gs' = gs_leaf_allocs gs"

lemma realloc_buffer_ok:
  assumes B: "backend_ok B" and g: "buffers_good gs" and i: "i < length (gs_buffers gs)" and r: "realloc_buffer B False i gs = (True, gs')"
  shows "buffers_good gs' \<and> keeps gs gs' \<and> fits_plan gs' i \<and> (\<forall>j. j \<noteq> i \<longrightarrow> gs_buffers gs' ! j = gs_buffers gs ! j)"
proof -
  define s where "s = share_buffer i gs"
  note S = share_buffer_good[OF g i, folded s_def]
  show ?thesis
  proof (cases "realloc_needed s i")
    case False
    then have e: "gs' = s" using r by (simp add: realloc_buffer_def Let_def s_def)
    obtain vb where "gs_buffers s ! i = Some vb" using False by (auto simp: realloc_needed_def Let_def)
    then have "fits_plan s i" using False
      by (auto simp: realloc_needed_def Let_def fits_plan_def list_ex_iff ggml_dyn_tallocr_max_size_def not_less)
    then show ?thesis using S e by (simp add: keeps_def)
  next
    case True
    let ?b = "ga_bufts (gs_plan s) ! i"
    obtain vb k where vb: "ggml_vbuffer_alloc B ?b (ga_talloc (gs_plan s) ?b) (gs_requests s) = (Some vb, k)"
      "gs' = s\<lparr>gs_buffers := (gs_buffers s)[i := Some vb], gs_requests := k\<rparr>"
      using r True by (auto simp: realloc_buffer_def Let_def s_def[symmetric] split: prod.splits)
    note v = vbuffer_alloc_ok[OF B vb(1)]
    have "buffers_good gs'" using buffers_good_upd(1)[of s "Some vb"] S v vb(2) by auto
    moreover have "fits_plan gs' i" using v vb(2) S i by (simp add: fits_plan_def)
    ultimately show ?thesis using S vb(2) by (simp add: keeps_def)
  qed
qed

lemma realloc_buffers_ok:
  assumes B: "backend_ok B" and "buffers_good gs" "\<forall>i \<in> set is. i < length (gs_buffers gs)" "distinct is" and r: "realloc_buffers B False is gs = (True, gs')"
  shows "buffers_good gs' \<and> keeps gs gs' \<and> (\<forall>i \<in> set is. fits_plan gs' i) \<and> (\<forall>j. j \<notin> set is \<longrightarrow> gs_buffers gs' ! j = gs_buffers gs ! j)"
  using assms(2-)
proof (induction "is" arbitrary: gs)
  case (Cons i "is")
  then obtain w where w: "realloc_buffer B False i gs = (True, w)" "realloc_buffers B False is w = (True, gs')"
    by (auto split: prod.splits bool.splits)
  have a: "buffers_good w \<and> keeps gs w \<and> fits_plan w i \<and> (\<forall>j. j \<noteq> i \<longrightarrow> gs_buffers w ! j = gs_buffers gs ! j)"
    by (rule realloc_buffer_ok[OF B Cons.prems(1) _ w(1)]) (use Cons.prems in simp)
  have b: "buffers_good gs' \<and> keeps w gs' \<and> (\<forall>i \<in> set is. fits_plan gs' i) \<and> (\<forall>j. j \<notin> set is \<longrightarrow> gs_buffers gs' ! j = gs_buffers w ! j)"
    by (rule Cons.IH[OF _ _ _ w(2)]) (use Cons.prems a in \<open>auto simp: keeps_def\<close>)
  have "i \<notin> set is" using Cons.prems by simp
  then have "gs_buffers gs' ! i = gs_buffers w ! i" "gs_plan gs' = gs_plan w" using b by (auto simp: keeps_def)
  then have "fits_plan gs' i" using a unfolding fits_plan_def by metis
  then show ?case using a b by (auto simp: keeps_def)
qed (simp add: keeps_def)

lemma collect_Inr: "collect f xs = Inr ys \<Longrightarrow> length ys = length xs \<and> (\<forall>i < length xs. f (xs ! i) = Inr (ys ! i))"
proof (induction xs arbitrary: ys)
  case (Cons x xs)
  then obtain y zs where "f x = Inr y" "collect f xs = Inr zs" "ys = y # zs" by (auto simp: and_then_Inr)
  then show ?case using Cons.IH[of zs] by (auto simp: nth_Cons split: nat.splits)
qed simp

lemma collect_zip: "collect f xs = Inr ys \<Longrightarrow> (x, y) \<in> set (zip xs ys) \<Longrightarrow> f x = Inr y"
  using collect_Inr[of f xs ys] by (auto simp: set_zip)

section \<open>Every tensor gets its planned address\<close>

definition chunk_of :: "galloc \<Rightarrow> nat \<Rightarrow> backend_buffer" where
  "chunk_of gs t = (let hn = ga_hash (gs_plan gs) t in vb_chunks (the (gs_buffers gs ! hn_buffer_id hn)) ! ba_chunk (hn_addr hn))"

definition address :: "galloc \<Rightarrow> nat \<Rightarrow> nat" where
  "address gs t = bb_base (chunk_of gs t) + ba_offset (hn_addr (ga_hash (gs_plan gs) t))"

definition backed :: "(nat \<Rightarrow> buffer_type) \<Rightarrow> ggml_cgraph \<Rightarrow> galloc \<Rightarrow> nat \<Rightarrow> bool" where
  "backed T G gs t \<longleftrightarrow> (let hn = ga_hash (gs_plan gs) t in
    hn_buffer_id hn < length (ga_bufts (gs_plan gs)) \<and> hn_buffer_id hn < length (gs_buffers gs) \<and>
    (\<exists>vb. gs_buffers gs ! hn_buffer_id hn = Some vb \<and> ba_chunk (hn_addr hn) < length (vb_chunks vb)) \<and>
    0 < tsize T G (fst (place (gs_plan gs) t)) t \<and> ba_offset (hn_addr hn) + tsize T G (fst (place (gs_plan gs) t)) t \<le> bb_size (chunk_of gs t) \<and> chunk_good (chunk_of gs t))"

lemma reserve_backed:
  assumes wf: "wf_graph G" and sz: "sizes_ok T G (ga_bufts (gs_plan gs))" and ok: "\<forall>b. dyn_ok (bt_alignment (T b)) (ga_talloc (gs_plan gs) b)"
    and B: "backend_ok B" and g: "buffers_good gs" and r: "ggml_gallocr_reserve_n_impl T B G node_ids leaf_ids False gs = Inr (True, gs')"
  shows "buffers_good gs'" "collect (plan_of_node T G (gs_plan gs')) (cg_nodes G) = Inr (gs_node_allocs gs')"
    "collect (plan_tensor T G (gs_plan gs')) (cg_leafs G) = Inr (gs_leaf_allocs gs')"
    "t \<in> set (cg_nodes G) \<union> set (cg_leafs G) \<Longrightarrow> plain G t \<Longrightarrow> backed T G gs' t"
proof -
  let ?ga0 = "reset_tallocs (gs_plan gs)"
  obtain ga nas las where ga: "alloc_graph_impl T G node_ids leaf_ids ?ga0 = Inr ga" and nas: "collect (plan_of_node T G ga) (cg_nodes G) = Inr nas"
    and las: "collect (plan_tensor T G ga) (cg_leafs G) = Inr las"
    and rb: "realloc_buffers B False [0..<length (ga_bufts ga)] (gs\<lparr>gs_plan := ga, gs_node_allocs := nas, gs_leaf_allocs := las\<rparr>) = (True, gs')"
    using r by (auto simp: ggml_gallocr_reserve_n_impl_def and_then_Inr)
  have ok0: "\<forall>b. dyn_ok (bt_alignment (T b)) (ga_talloc ?ga0 b)" using ok by (simp add: reset_tallocs_def dyn_ok_def ggml_dyn_tallocr_reset_def)
  have sz0: "sizes_ok T G (ga_bufts ?ga0)" using sz by (simp add: reset_tallocs_def)
  obtain s where "grows ?ga0 s" "stays G 0 s ga" using leafs_stay[OF wf sz0 ok0 ga] by blast
  then have bufts: "ga_bufts ga = ga_bufts (gs_plan gs)" by (simp add: grows_def stays_def reset_tallocs_def)
  have k: "buffers_good gs' \<and> keeps (gs\<lparr>gs_plan := ga, gs_node_allocs := nas, gs_leaf_allocs := las\<rparr>) gs' \<and> (\<forall>i \<in> set [0..<length (ga_bufts ga)]. fits_plan gs' i)"
    using realloc_buffers_ok[OF B _ _ _ rb] g bufts by (simp add: buffers_good_def)
  then have pl: "gs_plan gs' = ga" "gs_node_allocs gs' = nas" "gs_leaf_allocs gs' = las" by (simp_all add: keeps_def)
  show "buffers_good gs'" "collect (plan_of_node T G (gs_plan gs')) (cg_nodes G) = Inr (gs_node_allocs gs')" "collect (plan_tensor T G (gs_plan gs')) (cg_leafs G) = Inr (gs_leaf_allocs gs')"
    using k nas las pl by simp_all
  show "backed T G gs' t" if t: "t \<in> set (cg_nodes G) \<union> set (cg_leafs G)" "plain G t"
  proof -
    let ?hn = "ga_hash ga t" and ?b = "fst (place ga t)"
    note M = plan_in_memory[OF wf sz0 ok0 ga t]
    have bid: "hn_buffer_id ?hn < length (ga_bufts ga)"
    proof -
      have "\<exists>x. plan_tensor T G ga t = Inr x" using t(1) collect_Inr[OF nas] collect_Inr[OF las] by (auto simp: in_set_conv_nth plan_of_node_def and_then_Inr)
      then show ?thesis using t(2) by (auto simp: plan_tensor_def plain_def Let_def and_then_Inr buft_at_def split: if_splits)
    qed
    then have b: "?b = ga_bufts ga ! hn_buffer_id ?hn" "snd (place ga t) = hn_addr ?hn" by (simp_all add: place_def)
    obtain vb where vb: "gs_buffers gs' ! hn_buffer_id ?hn = Some vb" "ggml_dyn_tallocr_max_size (ga_talloc ga ?b) (ba_chunk (hn_addr ?hn)) \<le> ggml_vbuffer_chunk_size vb (ba_chunk (hn_addr ?hn))"
    proof -
      have "fits_plan gs' (hn_buffer_id ?hn)" using k bid by simp
      then show thesis using that unfolding fits_plan_def pl(1) b(1) by blast
    qed
    have al: "0 < bt_alignment (T ?b)" "fits (bt_alignment (T ?b)) (tsize T G ?b t)" using sz0 M t(2) bufts by (auto simp: sizes_ok_def reset_tallocs_def)
    have "ba_offset (hn_addr ?hn) + tsize T G ?b t \<le> place_end T G ga t" using aligned_size(2)[OF al] b(2) by (simp add: place_end_def)
    then have le: "ba_offset (hn_addr ?hn) + tsize T G ?b t \<le> ggml_vbuffer_chunk_size vb (ba_chunk (hn_addr ?hn))" using M vb(2) b(2) by simp
    have pos: "0 < tsize T G ?b t" using al(2) by (simp add: fits_def)
    then have c: "ba_chunk (hn_addr ?hn) < length (vb_chunks vb)" using le by (auto simp: ggml_vbuffer_chunk_size_def split: if_splits)
    have lb: "hn_buffer_id ?hn < length (gs_buffers gs')" using k bid pl(1) by (simp add: buffers_good_def)
    have "Some vb \<in> set (gs_buffers gs')" using vb(1) lb nth_mem by metis
    then have "chunk_good (vb_chunks vb ! ba_chunk (hn_addr ?hn))" using k c unfolding buffers_good_def by (meson nth_mem)
    then show ?thesis using bid lb vb(1) c le pos by (simp add: backed_def Let_def pl(1) chunk_of_def ggml_vbuffer_chunk_size_def)
  qed
qed

text \<open>The tensors of a graph while their addresses are being set; those of \<open>D\<close> are done.\<close>

definition inited :: "ggml_cgraph \<Rightarrow> galloc \<Rightarrow> nat set \<Rightarrow> ggml_cgraph \<Rightarrow> bool" where
  "inited G gs D G' \<longleftrightarrow> cg_nodes G' = cg_nodes G \<and> cg_leafs G' = cg_leafs G \<and>
    (\<forall>t. cg_tensor G' t = cg_tensor G t \<and> (plain G t \<longrightarrow> t \<notin> D) \<or>
      plain G t \<and> 0 < address gs t \<and> cg_tensor G' t = (cg_tensor G t)\<lparr>gt_buffer := True, gt_data := address gs t\<rparr> \<or>
      is_view (cg_tensor G t) \<and> (\<exists>d. cg_tensor G' t = (cg_tensor G t)\<lparr>gt_buffer := True, gt_data := d\<rparr>))"

lemma inited_cases:
  assumes "inited G gs D G'"
  obtains "cg_tensor G' t = cg_tensor G t" "plain G t \<Longrightarrow> t \<notin> D"
    | "plain G t" "0 < address gs t" "cg_tensor G' t = (cg_tensor G t)\<lparr>gt_buffer := True, gt_data := address gs t\<rparr>"
    | d where "is_view (cg_tensor G t)" "cg_tensor G' t = (cg_tensor G t)\<lparr>gt_buffer := True, gt_data := d\<rparr>"
proof -
  have "\<forall>t. cg_tensor G' t = cg_tensor G t \<and> (plain G t \<longrightarrow> t \<notin> D) \<or>
      plain G t \<and> 0 < address gs t \<and> cg_tensor G' t = (cg_tensor G t)\<lparr>gt_buffer := True, gt_data := address gs t\<rparr> \<or>
      is_view (cg_tensor G t) \<and> (\<exists>d. cg_tensor G' t = (cg_tensor G t)\<lparr>gt_buffer := True, gt_data := d\<rparr>)"
    using assms unfolding inited_def by (elim conjE)
  from spec[OF this, of t] show thesis using that by blast
qed

lemma inited_same:
  assumes "inited G gs D G'"
  shows "gt_view_src (cg_tensor G' t) = gt_view_src (cg_tensor G t)" "gt_src (cg_tensor G' t) = gt_src (cg_tensor G t)"
  by (rule inited_cases[OF assms, of t]; simp)+

lemma inited_set:
  assumes "inited G gs D G'" "plain G t \<Longrightarrow> 0 < address gs t \<and> d = address gs t" "plain G t \<or> is_view (cg_tensor G t)"
    "x = (cg_tensor G t)\<lparr>gt_buffer := True, gt_data := d\<rparr>"
  shows "inited G gs (insert t D) (G'\<lparr>cg_tensor := (cg_tensor G')(t := x)\<rparr>)"
  using assms unfolding inited_def by auto

lemma inited_done:
  assumes "inited G gs D G'" "plain G t \<Longrightarrow> cg_tensor G' t \<noteq> cg_tensor G t"
  shows "inited G gs (insert t D) G'"
  using assms unfolding inited_def by auto

lemma init_tensor_ok:
  assumes wf: "wf_graph G" and bd: "\<forall>t. gt_buffer (cg_tensor G t) \<longrightarrow> gt_data (cg_tensor G t) \<noteq> 0" and I: "inited G gs D G'"
    and ba: "plain G t \<longrightarrow> backed T G gs t" and ta: "plan_tensor T G (gs_plan gs) t = Inr ta"
  shows "\<exists>G''. ggml_gallocr_init_tensor T gs t ta G' = Inr G'' \<and> inited G gs (insert t D) G''"
proof (cases "gt_view_src (cg_tensor G t)")
  case (Some v)
  have np: "\<not> plain G t" using Some by (simp add: plain_def)
  have x: "gt_view_src (cg_tensor G' t) = Some v" using inited_same(1)[OF I] Some by simp
  show ?thesis
  proof (cases "gt_buffer (cg_tensor G' t) \<or> \<not> gt_buffer (cg_tensor G' v)")
    case True
    then show ?thesis using x inited_done[OF I, of t] np by (simp add: ggml_gallocr_init_tensor_def)
  next
    case False
    have "\<not> is_view (cg_tensor G v)" using wf_graphD(5)[OF wf, of v t] Some by (simp add: view_of_def)
    then have dv: "gt_data (cg_tensor G' v) \<noteq> 0" using False bd by (cases rule: inited_cases[OF I, of v]) auto
    have "cg_tensor G' t = cg_tensor G t" using False np by (cases rule: inited_cases[OF I, of t]) auto
    then show ?thesis using x False dv inited_set[OF I, of t] np Some
      by (simp add: ggml_gallocr_init_tensor_def ggml_backend_view_init_def Let_def)
  qed
next
  case None
  have x: "gt_view_src (cg_tensor G' t) = None" using inited_same(1)[OF I] None by simp
  show ?thesis
  proof (cases "gt_data (cg_tensor G' t) = 0")
    case False
    then have "inited G gs (insert t D) G'" by (intro inited_done[OF I]) (auto simp: plain_def)
    then show ?thesis using x False by (simp add: ggml_gallocr_init_tensor_def)
  next
    case True
    then have e: "cg_tensor G' t = cg_tensor G t" using None by (cases rule: inited_cases[OF I, of t]) auto
    then have p: "plain G t" using True None bd by (auto simp: plain_def)
    let ?hn = "ga_hash (gs_plan gs) t" and ?b = "chunk_of gs t" and ?n = "tsize T G (fst (place (gs_plan gs) t)) t"
    have bk: "backed T G gs t" using ba p by blast
    then obtain vb where vb: "gs_buffers gs ! hn_buffer_id ?hn = Some vb" "ba_chunk (hn_addr ?hn) < length (vb_chunks vb)" "hn_buffer_id ?hn < length (ga_bufts (gs_plan gs))"
        "hn_buffer_id ?hn < length (gs_buffers gs)" "0 < ?n" "ba_offset (hn_addr ?hn) + ?n \<le> bb_size ?b" "chunk_good ?b"
      by (auto simp: backed_def Let_def)
    have ch: "vb_chunks vb ! ba_chunk (hn_addr ?hn) = ?b" using vb(1) by (simp add: chunk_of_def Let_def)
    have ba: "0 < bb_base ?b" "bb_base ?b + bb_size ?b \<le> SIZE_MAX" using vb(5-7) by (auto simp: chunk_good_def)
    have ta': "ta_buffer_id ta = int (hn_buffer_id ?hn)" "ta_addr ta = Some (hn_addr ?hn)"
      using ta p vb(3) by (auto simp: plan_tensor_def plain_def Let_def buft_at_def)
    have u1: "u64 (int (bb_base ?b) + int (ba_offset (hn_addr ?hn))) = address gs t" using ba(2) vb(6) by (simp add: address_def)
    have sz: "bt_alloc_size (T (ga_bufts (gs_plan gs) ! hn_buffer_id ?hn)) (cg_tensor G t) = ?n" by (simp add: tsize_def place_def)
    have u2: "u64 (int (address gs t) + int ?n) = address gs t + ?n" "u64 (int (bb_base ?b) + int (bb_size ?b)) = bb_base ?b + bb_size ?b"
    proof -
      have "address gs t + ?n \<le> SIZE_MAX" using ba(2) vb(6) by (simp add: address_def)
      then show "u64 (int (address gs t) + int ?n) = address gs t + ?n" by (rule u64_add_max)
    qed (rule u64_add_max[OF ba(2)])
    have "ggml_gallocr_init_tensor T gs t ta G' =
        Inr (G'\<lparr>cg_tensor := (cg_tensor G')(t := (cg_tensor G t)\<lparr>gt_buffer := True, gt_data := address gs t\<rparr>)\<rparr>)"
      using x True vb(1,2,4,6) p e by (simp add: ggml_gallocr_init_tensor_def ta' ggml_vbuffer_tensor_alloc_def ch Let_def u1 ggml_backend_tensor_alloc_def sz u2 plain_def)
        (simp add: address_def)
    then show ?thesis using inited_set[OF I, of t "address gs t"] p ba(1) by (simp add: address_def)
  qed
qed


lemma inited_weaken: "inited G gs D G' \<Longrightarrow> E \<subseteq> D \<Longrightarrow> inited G gs E G'"
  unfolding inited_def by blast

lemma each_ok:
  assumes "P w D" "\<And>x w D. x \<in> set xs \<Longrightarrow> P w D \<Longrightarrow> \<exists>w' E. f x w = Inr w' \<and> P w' E \<and> D \<union> g x \<subseteq> E"
  shows "\<exists>w' E. each f xs w = Inr w' \<and> P w' E \<and> D \<union> \<Union> (g ` set xs) \<subseteq> E"
  using assms
proof (induction xs arbitrary: w D)
  case (Cons x xs)
  obtain w1 E1 where w1: "f x w = Inr w1" "P w1 E1" "D \<union> g x \<subseteq> E1" using Cons.prems(2)[OF _ Cons.prems(1), of x] by auto
  obtain w2 E2 where w2: "each f xs w1 = Inr w2" "P w2 E2" "E1 \<union> \<Union> (g ` set xs) \<subseteq> E2" using Cons.IH[OF w1(2)] Cons.prems(2) by auto
  show ?case using w1 w2 by (intro exI[of _ w2] exI[of _ E2]) auto
qed auto

definition all_tensors :: "ggml_cgraph \<Rightarrow> nat set" where
  "all_tensors G = set (cg_nodes G) \<union> set (cg_leafs G)"

lemma init_node_ok:
  assumes wf: "wf_graph G" and bd: "\<forall>t. gt_buffer (cg_tensor G t) \<longrightarrow> gt_data (cg_tensor G t) \<noteq> 0"
    and ba: "\<forall>t \<in> all_tensors G. plain G t \<longrightarrow> backed T G gs t" and full: "\<forall>t \<in> set (cg_nodes G). length (gt_src (cg_tensor G t)) = GGML_MAX_SRC"
    and t: "t \<in> set (cg_nodes G)" and na: "plan_of_node T G (gs_plan gs) t = Inr na" and I: "inited G gs D G'"
  shows "\<exists>G'' E. init_node T gs (t, na) G' = Inr G'' \<and> inited G gs E G'' \<and> D \<union> {t} \<subseteq> E"
proof -
  let ?s = "gt_src (cg_tensor G t)"
  have dst: "plan_tensor T G (gs_plan gs) t = Inr (na_dst na)" and src: "collect (\<lambda>j. plan_src T G (gs_plan gs) (?s ! j)) [0..<GGML_MAX_SRC] = Inr (na_src na)"
    using na by (auto simp: plan_of_node_def and_then_Inr)
  obtain i where i: "i < length (cg_nodes G)" "t = node_at G i" using t by (auto simp: in_set_conv_nth node_at_def)
  have step: "\<exists>w' E. (case gt_src (cg_tensor w t) ! j of None \<Rightarrow> Inr w | Some s \<Rightarrow> ggml_gallocr_init_tensor T gs s (na_src na ! j) w) = Inr w' \<and> inited G gs E w' \<and> Df \<union> {} \<subseteq> E"
    if j: "j \<in> set [0..<GGML_MAX_SRC]" and w: "inited G gs Df w" for j w Df
  proof (cases "?s ! j")
    case None
    then show ?thesis using w inited_same(2)[OF w] by auto
  next
    case (Some p)
    have "?s ! j \<in> set ?s" using full t j by simp
    then have "p \<in> set (srcs (cg_tensor G t))" using Some by (force simp: srcs_def)
    then have "p \<in> defined_at G i" using wf_graphD(6)[OF wf i(1)] i(2) by simp
    then have "p \<in> all_tensors G" using set_take_subset[of i "cg_nodes G"] by (auto simp: defined_at_def all_tensors_def)
    moreover have "plan_tensor T G (gs_plan gs) p = Inr (na_src na ! j)" using collect_Inr[OF src] j Some by (auto simp: plan_src_def)
    ultimately obtain w' where "ggml_gallocr_init_tensor T gs p (na_src na ! j) w = Inr w'" "inited G gs (insert p Df) w'"
      using init_tensor_ok[OF wf bd w] ba by blast
    then show ?thesis using Some inited_same(2)[OF w] by auto
  qed
  have "\<exists>w E. each (\<lambda>j w. case gt_src (cg_tensor w t) ! j of None \<Rightarrow> Inr w | Some s \<Rightarrow> ggml_gallocr_init_tensor T gs s (na_src na ! j) w) [0..<GGML_MAX_SRC] G' = Inr w \<and> inited G gs E w \<and> D \<union> \<Union> ((\<lambda>_. {}) ` set [0..<GGML_MAX_SRC]) \<subseteq> E"
    by (rule each_ok[where P = "\<lambda>w D. inited G gs D w", OF I]) (rule step)
  then obtain w E where w: "each (\<lambda>j w. case gt_src (cg_tensor w t) ! j of None \<Rightarrow> Inr w | Some s \<Rightarrow> ggml_gallocr_init_tensor T gs s (na_src na ! j) w) [0..<GGML_MAX_SRC] G' = Inr w"
      "inited G gs E w" "D \<subseteq> E" by auto
  have "t \<in> all_tensors G" using t by (simp add: all_tensors_def)
  then obtain w' where w': "ggml_gallocr_init_tensor T gs t (na_dst na) w = Inr w'" "inited G gs (insert t E) w'"
    using init_tensor_ok[OF wf bd w(2) _ dst] ba by blast
  have "init_node T gs (t, na) G' = Inr w'" using w(1) w'(1) by (simp add: init_node_def)
  then show ?thesis using w'(2) w(3) by blast
qed

lemma fst_set_zip: "length ys = length xs \<Longrightarrow> fst ` set (zip xs ys) = set xs"
  by (metis list.set_map map_fst_zip)

lemma init_graph_ok:
  assumes wf: "wf_graph G" and bd: "\<forall>t. gt_buffer (cg_tensor G t) \<longrightarrow> gt_data (cg_tensor G t) \<noteq> 0"
    and ba: "\<forall>t \<in> all_tensors G. plain G t \<longrightarrow> backed T G gs t" and full: "\<forall>t \<in> set (cg_nodes G). length (gt_src (cg_tensor G t)) = GGML_MAX_SRC"
    and nas: "collect (plan_of_node T G (gs_plan gs)) (cg_nodes G) = Inr (gs_node_allocs gs)"
    and las: "collect (plan_tensor T G (gs_plan gs)) (cg_leafs G) = Inr (gs_leaf_allocs gs)"
  shows "\<exists>G'. init_graph T gs G = Inr G' \<and> inited G gs (all_tensors G) G'"
proof -
  have I0: "inited G gs {} G" by (simp add: inited_def)
  have step1: "\<exists>w' E. (case x of (t, ta) \<Rightarrow> ggml_gallocr_init_tensor T gs t ta) w = Inr w' \<and> inited G gs E w' \<and> D \<union> {fst x} \<subseteq> E"
    if x: "x \<in> set (zip (cg_leafs G) (gs_leaf_allocs gs))" and w: "inited G gs D w" for x w D
  proof -
    obtain t ta where tx: "x = (t, ta)" by (cases x)
    have "t \<in> all_tensors G" using x tx set_zip_leftD by (fastforce simp: all_tensors_def)
    then show ?thesis using init_tensor_ok[OF wf bd w, of t] collect_zip[OF las, of t ta] x tx ba by fastforce
  qed
  have "\<exists>w E. each (\<lambda>(t, ta). ggml_gallocr_init_tensor T gs t ta) (zip (cg_leafs G) (gs_leaf_allocs gs)) G = Inr w \<and> inited G gs E w \<and>
      {} \<union> \<Union> ((\<lambda>x. {fst x}) ` set (zip (cg_leafs G) (gs_leaf_allocs gs))) \<subseteq> E"
    by (rule each_ok[where P = "\<lambda>w D. inited G gs D w", OF I0]) (rule step1)
  then obtain w E where w: "each (\<lambda>(t, ta). ggml_gallocr_init_tensor T gs t ta) (zip (cg_leafs G) (gs_leaf_allocs gs)) G = Inr w" "inited G gs E w"
    "fst ` set (zip (cg_leafs G) (gs_leaf_allocs gs)) \<subseteq> E" by (auto simp: UNION_singleton_eq_range)
  have nm: "cg_nodes w = cg_nodes G" using w(2) by (simp add: inited_def)
  have step2: "\<exists>w' E. init_node T gs x w = Inr w' \<and> inited G gs E w' \<and> D \<union> {fst x} \<subseteq> E"
    if x: "x \<in> set (zip (cg_nodes G) (gs_node_allocs gs))" and w: "inited G gs D w" for x w D
  proof -
    obtain t na where tx: "x = (t, na)" by (cases x)
    have "t \<in> set (cg_nodes G)" using x tx set_zip_leftD by fastforce
    then show ?thesis using init_node_ok[OF wf bd ba full _ _ w, of t na] collect_zip[OF nas, of t na] x tx by simp
  qed
  have "\<exists>w2 E2. each (init_node T gs) (zip (cg_nodes G) (gs_node_allocs gs)) w = Inr w2 \<and> inited G gs E2 w2 \<and>
      E \<union> \<Union> ((\<lambda>x. {fst x}) ` set (zip (cg_nodes G) (gs_node_allocs gs))) \<subseteq> E2"
    by (rule each_ok[where P = "\<lambda>w D. inited G gs D w", OF w(2)]) (rule step2)
  then obtain w2 E2 where w2: "each (init_node T gs) (zip (cg_nodes G) (gs_node_allocs gs)) w = Inr w2" "inited G gs E2 w2" "E \<subseteq> E2"
    "fst ` set (zip (cg_nodes G) (gs_node_allocs gs)) \<subseteq> E2" by (auto simp: UNION_singleton_eq_range)
  have "all_tensors G \<subseteq> E2"
    using w(3) w2(3,4) fst_set_zip[of "gs_node_allocs gs" "cg_nodes G"] fst_set_zip[of "gs_leaf_allocs gs" "cg_leafs G"] collect_Inr[OF nas] collect_Inr[OF las]
    by (simp add: all_tensors_def)
  then show ?thesis using w(1) w2(1,2) nm inited_weaken by (auto simp: init_graph_def)
qed


lemma planned_is_valid: "plan_tensor T G (gs_plan gs) t = Inr ta \<Longrightarrow> ggml_gallocr_node_needs_realloc T gs G t ta"
  by (auto simp: plan_tensor_def ggml_gallocr_node_needs_realloc_def Let_def and_then_Inr buft_at_def split: if_splits)

lemma no_realloc_after_reserve:
  assumes full: "\<forall>t \<in> set (cg_nodes G). length (gt_src (cg_tensor G t)) = GGML_MAX_SRC"
    and nas: "collect (plan_of_node T G (gs_plan gs)) (cg_nodes G) = Inr (gs_node_allocs gs)"
    and las: "collect (plan_tensor T G (gs_plan gs)) (cg_leafs G) = Inr (gs_leaf_allocs gs)"
  shows "\<not> ggml_gallocr_needs_realloc T gs G"
proof -
  have "ggml_gallocr_node_needs_realloc T gs G t (na_dst na) \<and>
      list_all (\<lambda>j. case gt_src (cg_tensor G t) ! j of None \<Rightarrow> True | Some s \<Rightarrow> ggml_gallocr_node_needs_realloc T gs G s (na_src na ! j)) [0..<GGML_MAX_SRC]"
    if x: "(t, na) \<in> set (zip (cg_nodes G) (gs_node_allocs gs))" for t na
  proof -
    have "plan_of_node T G (gs_plan gs) t = Inr na" by (rule collect_zip[OF nas x])
    then have d: "plan_tensor T G (gs_plan gs) t = Inr (na_dst na)"
      and src: "collect (\<lambda>j. plan_src T G (gs_plan gs) (gt_src (cg_tensor G t) ! j)) [0..<GGML_MAX_SRC] = Inr (na_src na)"
      by (auto simp: plan_of_node_def and_then_Inr)
    have "ggml_gallocr_node_needs_realloc T gs G s (na_src na ! j)" if "j < GGML_MAX_SRC" "gt_src (cg_tensor G t) ! j = Some s" for j s
      using collect_Inr[OF src] that by (intro planned_is_valid) (auto simp: plan_src_def)
    then show ?thesis using planned_is_valid[OF d] by (auto simp: list_all_iff split: option.splits)
  qed
  then show ?thesis using collect_Inr[OF nas] collect_Inr[OF las] by (auto simp: ggml_gallocr_needs_realloc_def list_all_iff)
qed

text \<open>C9. After a graph has been reserved, allocating it succeeds without another reservation, and every tensor the allocator is responsible
  for gets the address the plan gave it, inside a chunk that is large enough.\<close>

theorem reserve_then_alloc:
  assumes wf: "wf_graph G" and full: "\<forall>t \<in> set (cg_nodes G). length (gt_src (cg_tensor G t)) = GGML_MAX_SRC"
    and bd: "\<forall>t. gt_buffer (cg_tensor G t) \<longrightarrow> gt_data (cg_tensor G t) \<noteq> 0"
    and sz: "sizes_ok T G (ga_bufts (gs_plan gs))" and ok: "\<forall>b. dyn_ok (bt_alignment (T b)) (ga_talloc (gs_plan gs) b)"
    and B: "backend_ok B" and g: "buffers_good gs" and r: "ggml_gallocr_reserve_n_impl T B G node_ids leaf_ids False gs = Inr (True, gs')"
  shows "\<exists>G'. ggml_gallocr_alloc_graph T B G gs' = Inr (Some G', gs') \<and>
    (\<forall>t \<in> all_tensors G. plain G t \<longrightarrow>
      gt_data (cg_tensor G' t) = bb_base (chunk_of gs' t) + ba_offset (snd (place (gs_plan gs') t)) \<and>
      gt_data (cg_tensor G' t) + tsize T G (fst (place (gs_plan gs') t)) t \<le> bb_base (chunk_of gs' t) + bb_size (chunk_of gs' t))"
proof -
  note R = reserve_backed[OF wf sz ok B g r]
  have ba: "\<forall>t \<in> all_tensors G. plain G t \<longrightarrow> backed T G gs' t" using R(4) by (simp add: all_tensors_def)
  obtain G' where G': "init_graph T gs' G = Inr G'" "inited G gs' (all_tensors G) G'"
    using init_graph_ok[OF wf bd ba full R(2,3)] by blast
  have "ggml_gallocr_alloc_graph T B G gs' = Inr (Some G', gs')"
    using no_realloc_after_reserve[OF full R(2,3)] G'(1) by (simp add: ggml_gallocr_alloc_graph_def)
  moreover have "gt_data (cg_tensor G' t) = address gs' t" if "t \<in> all_tensors G" "plain G t" for t
    by (rule inited_cases[OF G'(2), of t]) (use that in \<open>auto simp: plain_def\<close>)
  ultimately show ?thesis using ba by (auto simp: address_def place_def backed_def Let_def)
qed


section \<open>A plan for another graph\<close>

text \<open>The recorded places are reused when the number of nodes and leafs and the sizes agree. The graphs below agree in that, but the
  last node of the second reads the result of the first node, which the third one has overwritten by then.\<close>

definition ex_heap :: buft_alloc where
  "ex_heap b n k = (if n \<le> 4096 \<and> k < 1000 then Some \<lparr>bb_base = 4096 * Suc k, bb_size = n\<rparr> else None)"

definition ex_place :: "nat \<Rightarrow> tensor_alloc" where
  "ex_place off = \<lparr>ta_buffer_id = 0, ta_addr = Some \<lparr>ba_chunk = 0, ba_offset = off\<rparr>, ta_size_max = 64\<rparr>"

definition ex_node :: "nat \<Rightarrow> nat list \<Rightarrow> node_alloc" where
  "ex_node off offs = \<lparr>na_dst = ex_place off, na_src = map ex_place offs @ replicate (GGML_MAX_SRC - length offs) unplaced\<rparr>"

definition ex_reserved :: galloc where
  "ex_reserved = \<lparr>gs_plan = ex_planned, gs_buffers = [Some \<lparr>vb_id = 1, vb_chunks = [\<lparr>bb_base = 4096, bb_size = 192\<rparr>]\<rparr>],
    gs_node_allocs = [ex_node 64 [0], ex_node 0 [64], ex_node 64 [0], ex_node 128 [0, 64]], gs_leaf_allocs = [ex_place 0], gs_requests = 2\<rparr>"

lemma collect_eq: "length ys = length xs \<Longrightarrow> (\<forall>i < length xs. f (xs ! i) = Inr (ys ! i)) \<Longrightarrow> collect f xs = Inr ys"
proof (induction xs arbitrary: ys)
  case (Cons x xs)
  then obtain y zs where y: "ys = y # zs" by (cases ys) auto
  then have "f x = Inr y" "\<forall>i < length xs. f (xs ! i) = Inr (zs ! i)" using Cons.prems(2) by force+
  then show ?case using Cons.IH[of zs] Cons.prems(1) y by simp
qed simp

abbreviation ex_offs :: "nat list" where
  "ex_offs \<equiv> [0, 64, 0, 64, 128]"

lemma ex_plan_tensor: "t < 5 \<Longrightarrow> plan_tensor ex_type (ex_graph ls) ex_planned t = Inr (ex_place (ex_offs ! t))"
proof -
  assume "t < 5"
  then consider "t = 0" | "t = 1" | "t = 2" | "t = 3" | "t = 4" by linarith
  then show ?thesis by cases (simp_all add: plan_tensor_def buft_at_def ex_place_def)
qed

lemma ex_plan_of_node:
  assumes "t < 5" "cg_tensor (ex_graph ls) t = ex_gtensor op ss out" "\<forall>s \<in> set ss. s < 5" "length ss \<le> GGML_MAX_SRC"
  shows "plan_of_node ex_type (ex_graph ls) ex_planned t = Inr (ex_node (ex_offs ! t) (map ((!) ex_offs) ss))"
proof -
  let ?src = "gt_src (ex_gtensor op ss out)" and ?na = "map ex_place (map ((!) ex_offs) ss) @ replicate (GGML_MAX_SRC - length ss) unplaced"
  have "plan_src ex_type (ex_graph ls) ex_planned (?src ! j) = Inr (?na ! j)" if "j < GGML_MAX_SRC" for j
    using that assms(3,4) ex_plan_tensor[of "ss ! j" ls] by (auto simp: ex_gtensor_def nth_append plan_src_def)
  then have "collect (\<lambda>j. plan_src ex_type (ex_graph ls) ex_planned (?src ! j)) [0..<GGML_MAX_SRC] = Inr ?na" using assms(4) by (intro collect_eq) simp_all
  then show ?thesis using ex_plan_tensor[OF assms(1)] by (simp add: plan_of_node_def assms(2) ex_node_def)
qed

lemma ex_reserve: "ggml_gallocr_reserve ex_type ex_heap (ex_graph [2, 3]) (galloc_new_n ex_type [0]) = Inr (True, ex_reserved)"
proof -
  have st: "reset_tallocs (gs_plan (galloc_new_n ex_type [0])) = ex_st [] []"
    by (auto simp: reset_tallocs_def galloc_new_n_def ggml_gallocr_new_n_def ex_st_def ex_talloc_def ggml_dyn_tallocr_new_def ggml_dyn_tallocr_reset_def ex_type_def SIZE_MAX_def fun_eq_iff)
  have n: "collect (plan_of_node ex_type (ex_graph [2, 3]) ex_planned) (cg_nodes (ex_graph [2, 3])) = Inr (gs_node_allocs ex_reserved)"
    using ex_plan_of_node[of 1 "[2, 3]" 29 "[0]" False] ex_plan_of_node[of 2 "[2, 3]" 29 "[1]" False] ex_plan_of_node[of 3 "[2, 3]" 29 "[2]" False] ex_plan_of_node[of 4 "[2, 3]" 29 "[2, 3]" True]
    by (simp add: GGML_MAX_SRC_def ex_reserved_def)
  have l: "collect (plan_tensor ex_type (ex_graph [2, 3]) ex_planned) (cg_leafs (ex_graph [2, 3])) = Inr (gs_leaf_allocs ex_reserved)"
    using ex_plan_tensor[of 0 "[2, 3]"] by (simp add: ex_reserved_def)
  have v: "ggml_vbuffer_alloc ex_heap 0 (ga_talloc ex_planned 0) 0 = (Some \<lparr>vb_id = 1, vb_chunks = [\<lparr>bb_base = 4096, bb_size = 192\<rparr>]\<rparr>, 2)"
    by (simp add: ggml_vbuffer_alloc_def ex_talloc_def ex_heap_def ggml_dyn_tallocr_max_size_def)
  have "realloc_buffers ex_heap False [0..<length (ga_bufts ex_planned)]
      ((galloc_new_n ex_type [0])\<lparr>gs_plan := ex_planned, gs_node_allocs := gs_node_allocs ex_reserved, gs_leaf_allocs := gs_leaf_allocs ex_reserved\<rparr>) = (True, ex_reserved)"
    using v by (simp add: realloc_buffer_def share_buffer_def realloc_needed_def galloc_new_n_def ex_reserved_def Let_def)
  then show ?thesis using n l by (simp add: ggml_gallocr_reserve_def ggml_gallocr_reserve_n_impl_def st ex_plan)
qed

lemma ex_reserved_allocs:
  "gs_node_allocs ex_reserved = [ex_node 64 [0], ex_node 0 [64], ex_node 64 [0], ex_node 128 [0, 64]]" "gs_leaf_allocs ex_reserved = [ex_place 0]"
  by (simp_all add: ex_reserved_def)

lemma ex_valid:
  assumes "length offs = length ss" "length ss \<le> GGML_MAX_SRC" "cg_tensor (ex_graph ls) t = ex_gtensor op ss out"
  shows "ggml_gallocr_node_needs_realloc ex_type ex_reserved (ex_graph ls) t (na_dst (ex_node off offs))"
    "list_all (\<lambda>j. case gt_src (cg_tensor (ex_graph ls) t) ! j of None \<Rightarrow> True
        | Some s \<Rightarrow> ggml_gallocr_node_needs_realloc ex_type ex_reserved (ex_graph ls) s (na_src (ex_node off offs) ! j)) [0..<GGML_MAX_SRC]"
proof -
  have v: "ggml_gallocr_node_needs_realloc ex_type ex_reserved (ex_graph ls) u (ex_place x)" for u x
    by (simp add: ggml_gallocr_node_needs_realloc_def ex_place_def Let_def)
  then show "ggml_gallocr_node_needs_realloc ex_type ex_reserved (ex_graph ls) t (na_dst (ex_node off offs))" by (simp add: ex_node_def)
  have "gt_src (ex_gtensor op ss out) ! j = None" if "length ss \<le> j" "j < GGML_MAX_SRC" for j using that by (simp add: ex_gtensor_def nth_append)
  moreover have "na_src (ex_node off offs) ! j = ex_place (offs ! j)" if "j < length ss" for j using that assms(1) by (simp add: ex_node_def nth_append)
  ultimately show "list_all (\<lambda>j. case gt_src (cg_tensor (ex_graph ls) t) ! j of None \<Rightarrow> True
        | Some s \<Rightarrow> ggml_gallocr_node_needs_realloc ex_type ex_reserved (ex_graph ls) s (na_src (ex_node off offs) ! j)) [0..<GGML_MAX_SRC]"
    using v by (auto simp: list_all_iff assms(3) split: option.splits) (metis not_less option.distinct(1))
qed

text \<open>The plan of the first graph is taken over for the second although its topology differs: the two operands of the last node are at the
  same place, so the result of the first node is lost when the third is computed.\<close>

lemma stale_plan_reused:
  "ggml_gallocr_alloc_graph ex_type ex_heap (ex_graph [1, 3]) ex_reserved = and_then (init_graph ex_type ex_reserved (ex_graph [1, 3])) (\<lambda>G'. Inr (Some G', ex_reserved))"
  "na_dst (gs_node_allocs ex_reserved ! 0) = na_dst (gs_node_allocs ex_reserved ! 2)" "srcs (cg_tensor (ex_graph [1, 3]) (cg_nodes (ex_graph [1, 3]) ! 3)) = [1, 3]"
proof -
  have l: "length [x] \<le> GGML_MAX_SRC" "length [x, y] \<le> GGML_MAX_SRC" for x y :: nat by (simp_all add: GGML_MAX_SRC_def)
  have "\<not> ggml_gallocr_needs_realloc ex_type ex_reserved (ex_graph [1, 3])"
    using ex_valid[of "[0]" "[0]" "[1, 3]" 1 29 False 64] ex_valid[of "[64]" "[1]" "[1, 3]" 2 29 False 0]
      ex_valid[of "[0]" "[2]" "[1, 3]" 3 29 False 64] ex_valid[of "[0, 64]" "[1, 3]" "[1, 3]" 4 29 True 128] l
    by (simp add: ggml_gallocr_needs_realloc_def ex_reserved_allocs del: One_nat_def)
  then show "ggml_gallocr_alloc_graph ex_type ex_heap (ex_graph [1, 3]) ex_reserved =
      and_then (init_graph ex_type ex_reserved (ex_graph [1, 3])) (\<lambda>G'. Inr (Some G', ex_reserved))"
    by (simp add: ggml_gallocr_alloc_graph_def)
qed (simp_all add: ex_reserved_def ex_node_def)

theorem reserve_then_alloc_witness:
  "\<exists>G'. ggml_gallocr_alloc_graph ex_type ex_heap (ex_graph [2, 3]) ex_reserved = Inr (Some G', ex_reserved) \<and> gt_data (cg_tensor G' 3) = 4160"
proof -
  let ?G = "ex_graph [2, 3]" and ?gs = "galloc_new_n ex_type [0]"
  have full: "\<forall>t \<in> set (cg_nodes ?G). length (gt_src (cg_tensor ?G t)) = GGML_MAX_SRC" by (simp add: ex_gtensor_def GGML_MAX_SRC_def)
  have bd: "\<forall>t. gt_buffer (cg_tensor ?G t) \<longrightarrow> gt_data (cg_tensor ?G t) \<noteq> 0" by (simp add: ex_graph_def)
  have ok: "\<forall>b. dyn_ok (bt_alignment (ex_type b)) (ga_talloc (gs_plan ?gs) b)"
    by (simp add: galloc_new_n_def ggml_gallocr_new_n_def dyn_ok_def ggml_dyn_tallocr_new_def ggml_dyn_tallocr_reset_def ex_type_def SIZE_MAX_def)
  have B: "backend_ok ex_heap" by (auto simp: backend_ok_def ex_heap_def chunk_good_def SIZE_MAX_def)
  have g: "buffers_good ?gs" by (simp add: buffers_good_def galloc_new_n_def ggml_gallocr_new_n_def)
  obtain G' where G': "ggml_gallocr_alloc_graph ex_type ex_heap ?G ex_reserved = Inr (Some G', ex_reserved)"
    "\<forall>t \<in> all_tensors ?G. plain ?G t \<longrightarrow> gt_data (cg_tensor G' t) = bb_base (chunk_of ex_reserved t) + ba_offset (snd (place (gs_plan ex_reserved) t))"
    using reserve_then_alloc[OF ex_wf full bd ex_sizes ok B g ex_reserve[unfolded ggml_gallocr_reserve_def]] by auto
  have "3 \<in> all_tensors ?G" "plain ?G 3" by (simp_all add: all_tensors_def plain_def)
  then have "gt_data (cg_tensor G' 3) = bb_base (chunk_of ex_reserved 3) + ba_offset (snd (place (gs_plan ex_reserved) 3))" using G'(2) by blast
  then show ?thesis using G'(1) by (simp add: chunk_of_def place_def ex_reserved_def)
qed

end
