(* ===== verification/Chat_Template.thy ===== *)
theory Chat_Template
  imports Bytes "HOL-Library.Sublist"
begin

text \<open>
  The built-in chat templates (\<^verbatim>\<open>llama-chat.cpp\<close>): recognising a template by its name or by what its Jinja source contains, and
  rendering a chat. A string is its list of bytes, as characters; the literals of the source that are not ASCII are their UTF-8 bytes.
  Every branch of \<^verbatim>\<open>llm_chat_apply_template\<close> is a definition. \<open>each_msg\<close> is a loop that treats the messages independently of each other,
  \<open>run_msgs\<close> one that carries a state from message to message.
\<close>

section \<open>Strings\<close>

abbreviation nl :: string where "nl \<equiv> [CHR 0x0A]"
abbreviation qt :: string where "qt \<equiv> [CHR 0x27]"
abbreviation dq :: string where "dq \<equiv> [CHR 0x22]"
abbreviation bs :: string where "bs \<equiv> [CHR 0x5C]"

definition bar :: string where
  "bar = [CHR 0xEF, CHR 0xBD, CHR 0x9C]"

definition low :: string where
  "low = [CHR 0xE2, CHR 0x96, CHR 0x81]"

definition han_user :: string where
  "han_user = [CHR 0xE7, CHR 0x94, CHR 0xA8, CHR 0xE6, CHR 0x88, CHR 0xB7]"

definition han_system :: string where
  "han_system = [CHR 0xE7, CHR 0xB3, CHR 0xBB, CHR 0xE7, CHR 0xBB, CHR 0x9F, CHR 0xEF, CHR 0xBC, CHR 0x9A]"

definition han_user_colon :: string where
  "han_user_colon = [CHR 0xE7, CHR 0x94, CHR 0xA8, CHR 0xE6, CHR 0x88, CHR 0xB7, CHR 0xEF, CHR 0xBC, CHR 0x9A]"

definition han_assistant :: string where
  "han_assistant = [CHR 0xE5, CHR 0x8A, CHR 0xA9, CHR 0xE6, CHR 0x89, CHR 0x8B, CHR 0xEF, CHR 0xBC, CHR 0x9A]"

definition han_tool :: string where
  "han_tool = [CHR 0xE5, CHR 0xB7, CHR 0xA5, CHR 0xE5, CHR 0x85, CHR 0xB7, CHR 0xEF, CHR 0xBC, CHR 0x9A]"

definition han_function :: string where
  "han_function = [CHR 0xE6, CHR 0x96, CHR 0xB9, CHR 0xE6, CHR 0xB3, CHR 0x95, CHR 0xEF, CHR 0xBC, CHR 0x9A]"

definition cyr_user :: string where
  "cyr_user = [CHR 0xD0, CHR 0x9F, CHR 0xD0, CHR 0xBE, CHR 0xD0, CHR 0xBB, CHR 0xD1, CHR 0x8C, CHR 0xD0, CHR 0xB7, CHR 0xD0, CHR 0xBE, CHR 0xD0, CHR 0xB2, CHR 0xD0, CHR 0xB0, CHR 0xD1, CHR 0x82, CHR 0xD0, CHR 0xB5, CHR 0xD0, CHR 0xBB, CHR 0xD1, CHR 0x8C]"

definition cyr_assistant :: string where
  "cyr_assistant = [CHR 0xD0, CHR 0x90, CHR 0xD1, CHR 0x81, CHR 0xD1, CHR 0x81, CHR 0xD0, CHR 0xB8, CHR 0xD1, CHR 0x81, CHR 0xD1, CHR 0x82, CHR 0xD0, CHR 0xB5, CHR 0xD0, CHR 0xBD, CHR 0xD1, CHR 0x82]"

text \<open>\<^verbatim>\<open>isspace\<close> and \<^verbatim>\<open>toupper\<close> in the C locale.\<close>

definition isspace :: "char \<Rightarrow> bool" where
  "isspace c \<longleftrightarrow> c \<in> set [CHR 0x20, CHR 0x09, CHR 0x0A, CHR 0x0B, CHR 0x0C, CHR 0x0D]"

definition toupper :: "char \<Rightarrow> char" where
  "toupper c = (if 97 \<le> (of_char c :: nat) \<and> (of_char c :: nat) \<le> 122 then char_of ((of_char c :: nat) - 32) else c)"

definition upper_first :: "string \<Rightarrow> string" where
  "upper_first s = (case s of [] \<Rightarrow> [] | c # cs \<Rightarrow> toupper c # cs)"

definition trim :: "string \<Rightarrow> string" where
  "trim s = rev (dropWhile isspace (rev (dropWhile isspace s)))"

primrec contains :: "string \<Rightarrow> string \<Rightarrow> bool" where
  "contains needle [] \<longleftrightarrow> needle = []"
| "contains needle (c # cs) \<longleftrightarrow> take (length needle) (c # cs) = needle \<or> contains needle cs"

section \<open>Templates and their names\<close>

datatype llm_chat_template =
    LLM_CHAT_TEMPLATE_CHATML
  | LLM_CHAT_TEMPLATE_LLAMA_2
  | LLM_CHAT_TEMPLATE_LLAMA_2_SYS
  | LLM_CHAT_TEMPLATE_LLAMA_2_SYS_BOS
  | LLM_CHAT_TEMPLATE_LLAMA_2_SYS_STRIP
  | LLM_CHAT_TEMPLATE_MISTRAL_V1
  | LLM_CHAT_TEMPLATE_MISTRAL_V3
  | LLM_CHAT_TEMPLATE_MISTRAL_V3_TEKKEN
  | LLM_CHAT_TEMPLATE_MISTRAL_V7
  | LLM_CHAT_TEMPLATE_MISTRAL_V7_TEKKEN
  | LLM_CHAT_TEMPLATE_PHI_3
  | LLM_CHAT_TEMPLATE_PHI_4
  | LLM_CHAT_TEMPLATE_FALCON_3
  | LLM_CHAT_TEMPLATE_ZEPHYR
  | LLM_CHAT_TEMPLATE_MONARCH
  | LLM_CHAT_TEMPLATE_GEMMA
  | LLM_CHAT_TEMPLATE_ORION
  | LLM_CHAT_TEMPLATE_OPENCHAT
  | LLM_CHAT_TEMPLATE_VICUNA
  | LLM_CHAT_TEMPLATE_VICUNA_ORCA
  | LLM_CHAT_TEMPLATE_DEEPSEEK
  | LLM_CHAT_TEMPLATE_DEEPSEEK_2
  | LLM_CHAT_TEMPLATE_DEEPSEEK_3
  | LLM_CHAT_TEMPLATE_COMMAND_R
  | LLM_CHAT_TEMPLATE_LLAMA_3
  | LLM_CHAT_TEMPLATE_CHATGLM_3
  | LLM_CHAT_TEMPLATE_CHATGLM_4
  | LLM_CHAT_TEMPLATE_GLMEDGE
  | LLM_CHAT_TEMPLATE_MINICPM
  | LLM_CHAT_TEMPLATE_EXAONE_3
  | LLM_CHAT_TEMPLATE_EXAONE_4
  | LLM_CHAT_TEMPLATE_EXAONE_MOE
  | LLM_CHAT_TEMPLATE_RWKV_WORLD
  | LLM_CHAT_TEMPLATE_GRANITE
  | LLM_CHAT_TEMPLATE_GIGACHAT
  | LLM_CHAT_TEMPLATE_MEGREZ
  | LLM_CHAT_TEMPLATE_YANDEX
  | LLM_CHAT_TEMPLATE_BAILING
  | LLM_CHAT_TEMPLATE_BAILING_THINK
  | LLM_CHAT_TEMPLATE_BAILING2
  | LLM_CHAT_TEMPLATE_LLAMA4
  | LLM_CHAT_TEMPLATE_SMOLVLM
  | LLM_CHAT_TEMPLATE_DOTS1
  | LLM_CHAT_TEMPLATE_HUNYUAN_MOE
  | LLM_CHAT_TEMPLATE_OPENAI_MOE
  | LLM_CHAT_TEMPLATE_HUNYUAN_DENSE
  | LLM_CHAT_TEMPLATE_KIMI_K2
  | LLM_CHAT_TEMPLATE_SEED_OSS
  | LLM_CHAT_TEMPLATE_GROK_2
  | LLM_CHAT_TEMPLATE_PANGU_EMBED
  | LLM_CHAT_TEMPLATE_SOLAR_OPEN
  | LLM_CHAT_TEMPLATE_UNKNOWN

definition LLM_CHAT_TEMPLATES :: "(string \<times> llm_chat_template) list" where
  "LLM_CHAT_TEMPLATES = [
    (''bailing'', LLM_CHAT_TEMPLATE_BAILING),
    (''bailing-think'', LLM_CHAT_TEMPLATE_BAILING_THINK),
    (''bailing2'', LLM_CHAT_TEMPLATE_BAILING2),
    (''chatglm3'', LLM_CHAT_TEMPLATE_CHATGLM_3),
    (''chatglm4'', LLM_CHAT_TEMPLATE_CHATGLM_4),
    (''chatml'', LLM_CHAT_TEMPLATE_CHATML),
    (''command-r'', LLM_CHAT_TEMPLATE_COMMAND_R),
    (''deepseek'', LLM_CHAT_TEMPLATE_DEEPSEEK),
    (''deepseek2'', LLM_CHAT_TEMPLATE_DEEPSEEK_2),
    (''deepseek3'', LLM_CHAT_TEMPLATE_DEEPSEEK_3),
    (''exaone-moe'', LLM_CHAT_TEMPLATE_EXAONE_MOE),
    (''exaone3'', LLM_CHAT_TEMPLATE_EXAONE_3),
    (''exaone4'', LLM_CHAT_TEMPLATE_EXAONE_4),
    (''falcon3'', LLM_CHAT_TEMPLATE_FALCON_3),
    (''gemma'', LLM_CHAT_TEMPLATE_GEMMA),
    (''gigachat'', LLM_CHAT_TEMPLATE_GIGACHAT),
    (''glmedge'', LLM_CHAT_TEMPLATE_GLMEDGE),
    (''gpt-oss'', LLM_CHAT_TEMPLATE_OPENAI_MOE),
    (''granite'', LLM_CHAT_TEMPLATE_GRANITE),
    (''grok-2'', LLM_CHAT_TEMPLATE_GROK_2),
    (''hunyuan-dense'', LLM_CHAT_TEMPLATE_HUNYUAN_DENSE),
    (''hunyuan-moe'', LLM_CHAT_TEMPLATE_HUNYUAN_MOE),
    (''kimi-k2'', LLM_CHAT_TEMPLATE_KIMI_K2),
    (''llama2'', LLM_CHAT_TEMPLATE_LLAMA_2),
    (''llama2-sys'', LLM_CHAT_TEMPLATE_LLAMA_2_SYS),
    (''llama2-sys-bos'', LLM_CHAT_TEMPLATE_LLAMA_2_SYS_BOS),
    (''llama2-sys-strip'', LLM_CHAT_TEMPLATE_LLAMA_2_SYS_STRIP),
    (''llama3'', LLM_CHAT_TEMPLATE_LLAMA_3),
    (''llama4'', LLM_CHAT_TEMPLATE_LLAMA4),
    (''megrez'', LLM_CHAT_TEMPLATE_MEGREZ),
    (''minicpm'', LLM_CHAT_TEMPLATE_MINICPM),
    (''mistral-v1'', LLM_CHAT_TEMPLATE_MISTRAL_V1),
    (''mistral-v3'', LLM_CHAT_TEMPLATE_MISTRAL_V3),
    (''mistral-v3-tekken'', LLM_CHAT_TEMPLATE_MISTRAL_V3_TEKKEN),
    (''mistral-v7'', LLM_CHAT_TEMPLATE_MISTRAL_V7),
    (''mistral-v7-tekken'', LLM_CHAT_TEMPLATE_MISTRAL_V7_TEKKEN),
    (''monarch'', LLM_CHAT_TEMPLATE_MONARCH),
    (''openchat'', LLM_CHAT_TEMPLATE_OPENCHAT),
    (''orion'', LLM_CHAT_TEMPLATE_ORION),
    (''pangu-embedded'', LLM_CHAT_TEMPLATE_PANGU_EMBED),
    (''phi3'', LLM_CHAT_TEMPLATE_PHI_3),
    (''phi4'', LLM_CHAT_TEMPLATE_PHI_4),
    (''rwkv-world'', LLM_CHAT_TEMPLATE_RWKV_WORLD),
    (''seed_oss'', LLM_CHAT_TEMPLATE_SEED_OSS),
    (''smolvlm'', LLM_CHAT_TEMPLATE_SMOLVLM),
    (''solar-open'', LLM_CHAT_TEMPLATE_SOLAR_OPEN),
    (''vicuna'', LLM_CHAT_TEMPLATE_VICUNA),
    (''vicuna-orca'', LLM_CHAT_TEMPLATE_VICUNA_ORCA),
    (''yandex'', LLM_CHAT_TEMPLATE_YANDEX),
    (''zephyr'', LLM_CHAT_TEMPLATE_ZEPHYR)]"

definition llm_chat_template_from_str :: "string \<Rightarrow> llm_chat_template option" where
  "llm_chat_template_from_str name = map_of LLM_CHAT_TEMPLATES name"

text \<open>The branch for templates that mention \<^verbatim>\<open>[INST]\<close>.\<close>

definition detect_inst :: "string \<Rightarrow> llm_chat_template" where
  "detect_inst tmpl =
    (if contains (''[SYSTEM_PROMPT]'') tmpl then LLM_CHAT_TEMPLATE_MISTRAL_V7
     else if contains (qt @ '' [INST] '' @ qt @ '' + system_message'') tmpl \<or> contains (''[AVAILABLE_TOOLS]'') tmpl then
       (if contains ('' [INST]'') tmpl then LLM_CHAT_TEMPLATE_MISTRAL_V1 else if contains (dq @ ''[INST]'' @ dq) tmpl then LLM_CHAT_TEMPLATE_MISTRAL_V3_TEKKEN else LLM_CHAT_TEMPLATE_MISTRAL_V3)
     else if contains (''content.strip()'') tmpl then LLM_CHAT_TEMPLATE_LLAMA_2_SYS_STRIP
     else if contains (''bos_token + '' @ qt @ ''[INST]'') tmpl then LLM_CHAT_TEMPLATE_LLAMA_2_SYS_BOS
     else if contains (''<<SYS>>'') tmpl then LLM_CHAT_TEMPLATE_LLAMA_2_SYS
     else LLM_CHAT_TEMPLATE_LLAMA_2)"

definition detect_by_content :: "string \<Rightarrow> llm_chat_template" where
  "detect_by_content tmpl =
    (if contains (''<|im_start|>'') tmpl then
       (if contains (''<|im_sep|>'') tmpl then LLM_CHAT_TEMPLATE_PHI_4 else if contains (''<end_of_utterance>'') tmpl then LLM_CHAT_TEMPLATE_SMOLVLM else LLM_CHAT_TEMPLATE_CHATML)
     else if take 7 tmpl = ''mistral'' \<or> contains (''[INST]'') tmpl then detect_inst tmpl
     else if contains (''<|assistant|>'') tmpl \<and> contains (''<|end|>'') tmpl then LLM_CHAT_TEMPLATE_PHI_3
     else if contains (''[gMASK]<sop>'') tmpl then LLM_CHAT_TEMPLATE_CHATGLM_4
     else if contains (''<|assistant|>'') tmpl \<and> contains (''<|user|>'') tmpl then (if contains (''<|tool_declare|>'') tmpl then LLM_CHAT_TEMPLATE_EXAONE_MOE else if contains (''</s>'') tmpl then LLM_CHAT_TEMPLATE_FALCON_3 else LLM_CHAT_TEMPLATE_GLMEDGE)
     else if contains (''<|{{ item['' @ qt @ ''role'' @ qt @ ''] }}|>'') tmpl \<and> contains (''<|begin_of_image|>'') tmpl then LLM_CHAT_TEMPLATE_GLMEDGE
     else if contains (''<|user|>'') tmpl \<and> contains (''<|endoftext|>'') tmpl then LLM_CHAT_TEMPLATE_ZEPHYR
     else if contains (''bos_token + message['' @ qt @ ''role'' @ qt @ '']'') tmpl then LLM_CHAT_TEMPLATE_MONARCH
     else if contains (''<start_of_turn>'') tmpl then LLM_CHAT_TEMPLATE_GEMMA
     else if contains (qt @ bs @ ''n'' @ bs @ ''nAssistant: '' @ qt @ '' + eos_token'') tmpl then LLM_CHAT_TEMPLATE_ORION
     else if contains (''GPT4 Correct '') tmpl then LLM_CHAT_TEMPLATE_OPENCHAT
     else if contains (''USER: '') tmpl \<and> contains (''ASSISTANT: '') tmpl then (if contains (''SYSTEM: '') tmpl then LLM_CHAT_TEMPLATE_VICUNA_ORCA else LLM_CHAT_TEMPLATE_VICUNA)
     else if contains (''### Instruction:'') tmpl \<and> contains (''<|EOT|>'') tmpl then LLM_CHAT_TEMPLATE_DEEPSEEK
     else if contains (''<|START_OF_TURN_TOKEN|>'') tmpl \<and> contains (''<|USER_TOKEN|>'') tmpl then LLM_CHAT_TEMPLATE_COMMAND_R
     else if contains (''<|start_header_id|>'') tmpl \<and> contains (''<|end_header_id|>'') tmpl then LLM_CHAT_TEMPLATE_LLAMA_3
     else if contains (''[gMASK]sop'') tmpl then LLM_CHAT_TEMPLATE_CHATGLM_3
     else if contains (''<'' @ han_user @ ''>'') tmpl then LLM_CHAT_TEMPLATE_MINICPM
     else if contains (qt @ ''Assistant: '' @ qt @ '' + message['' @ qt @ ''content'' @ qt @ ''] + eos_token'') tmpl then LLM_CHAT_TEMPLATE_DEEPSEEK_2
     else if contains (''<'' @ bar @ ''Assistant'' @ bar @ ''>'') tmpl \<and> contains (''<'' @ bar @ ''User'' @ bar @ ''>'') tmpl \<and> contains (''<'' @ bar @ ''end'' @ low @ ''of'' @ low @ ''sentence'' @ bar @ ''>'') tmpl then LLM_CHAT_TEMPLATE_DEEPSEEK_3
     else if contains (''[|system|]'') tmpl \<and> contains (''[|assistant|]'') tmpl \<and> contains (''[|endofturn|]'') tmpl then (if contains (''[|tool|]'') tmpl then LLM_CHAT_TEMPLATE_EXAONE_4 else LLM_CHAT_TEMPLATE_EXAONE_3)
     else if contains (''rwkv-world'') tmpl \<or> contains (''{{- '' @ qt @ ''User: '' @ qt @ '' + message['' @ qt @ ''content'' @ qt @ '']|trim + '' @ qt @ bs @ ''n'' @ bs @ ''n'' @ qt @ '' -}}'') tmpl then LLM_CHAT_TEMPLATE_RWKV_WORLD
     else if contains (''<|start_of_role|>'') tmpl then LLM_CHAT_TEMPLATE_GRANITE
     else if contains (''message['' @ qt @ ''role'' @ qt @ ''] + additional_special_tokens[0] + message['' @ qt @ ''content'' @ qt @ ''] + additional_special_tokens[1]'') tmpl then LLM_CHAT_TEMPLATE_GIGACHAT
     else if contains (''<|role_start|>'') tmpl then LLM_CHAT_TEMPLATE_MEGREZ
     else if contains ('' '' @ cyr_assistant @ '':'') tmpl then LLM_CHAT_TEMPLATE_YANDEX
     else if contains (''<role>ASSISTANT</role>'') tmpl \<and> contains (qt @ ''HUMAN'' @ qt) tmpl then LLM_CHAT_TEMPLATE_BAILING
     else if contains (''<role>ASSISTANT</role>'') tmpl \<and> contains (dq @ ''HUMAN'' @ dq) tmpl \<and> contains (''<think>'') tmpl then LLM_CHAT_TEMPLATE_BAILING_THINK
     else if contains (''<role>ASSISTANT</role>'') tmpl \<and> contains (''<role>HUMAN</role>'') tmpl \<and> contains (''<|role_end|>'') tmpl then LLM_CHAT_TEMPLATE_BAILING2
     else if contains (''<|header_start|>'') tmpl \<and> contains (''<|header_end|>'') tmpl then LLM_CHAT_TEMPLATE_LLAMA4
     else if contains (''<|endofuserprompt|>'') tmpl then LLM_CHAT_TEMPLATE_DOTS1
     else if contains (''<|extra_0|>'') tmpl \<and> contains (''<|extra_4|>'') tmpl then LLM_CHAT_TEMPLATE_HUNYUAN_MOE
     else if contains (''<|start|>'') tmpl \<and> contains (''<|channel|>'') tmpl then LLM_CHAT_TEMPLATE_OPENAI_MOE
     else if contains (''<'' @ bar @ ''hy_Assistant'' @ bar @ ''>'') tmpl \<and> contains (''<'' @ bar @ ''hy_place'' @ low @ ''holder'' @ low @ ''no'' @ low @ ''3'' @ bar @ ''>'') tmpl then LLM_CHAT_TEMPLATE_HUNYUAN_DENSE
     else if contains (''<|im_assistant|>assistant<|im_middle|>'') tmpl then LLM_CHAT_TEMPLATE_KIMI_K2
     else if contains (''<seed:bos>'') tmpl then LLM_CHAT_TEMPLATE_SEED_OSS
     else if contains (qt @ ''Assistant: '' @ qt @ ''  + message['' @ qt @ ''content'' @ qt @ ''] + '' @ qt @ ''<|separator|>'') tmpl then LLM_CHAT_TEMPLATE_GROK_2
     else if contains (''[unused9]'' @ han_system @ ''[unused10]'') tmpl then LLM_CHAT_TEMPLATE_PANGU_EMBED
     else if contains (''<|begin|>'') tmpl \<and> contains (''<|end|>'') tmpl \<and> contains (''<|content|>'') tmpl then LLM_CHAT_TEMPLATE_SOLAR_OPEN
     else LLM_CHAT_TEMPLATE_UNKNOWN)"

definition llm_chat_detect_template :: "string \<Rightarrow> llm_chat_template" where
  "llm_chat_detect_template tmpl = (case llm_chat_template_from_str tmpl of Some t \<Rightarrow> t | None \<Rightarrow> detect_by_content tmpl)"

section \<open>Rendering\<close>

record llama_chat_message =
  msg_role :: string
  msg_content :: string

definition each_msg :: "(llama_chat_message \<Rightarrow> string) \<Rightarrow> llama_chat_message list \<Rightarrow> string" where
  "each_msg f chat = concat (map f chat)"

primrec run_msgs :: "('s \<Rightarrow> llama_chat_message \<Rightarrow> 's \<times> string) \<Rightarrow> 's \<Rightarrow> llama_chat_message list \<Rightarrow> string" where
  "run_msgs f s [] = []"
| "run_msgs f s (m # ms) = snd (f s m) @ run_msgs f (fst (f s m)) ms"

definition apply_chatml :: "llama_chat_message list \<Rightarrow> bool \<Rightarrow> string" where
  "apply_chatml chat add_ass =
     each_msg (\<lambda>m. ''<|im_start|>'' @ msg_role m @ nl @ msg_content m @ ''<|im_end|>'' @ nl) chat @ (if add_ass then ''<|im_start|>assistant'' @ nl else [])"

definition apply_mistral_v7 :: "llm_chat_template \<Rightarrow> llama_chat_message list \<Rightarrow> string" where
  "apply_mistral_v7 tmpl chat =
     (let trailing_space = (if tmpl = LLM_CHAT_TEMPLATE_MISTRAL_V7 then '' '' else []) in
      each_msg (\<lambda>m. if msg_role m = ''system'' then ''[SYSTEM_PROMPT]'' @ trailing_space @ msg_content m @ ''[/SYSTEM_PROMPT]'' else if msg_role m = ''user'' then ''[INST]'' @ trailing_space @ msg_content m @ ''[/INST]'' else trailing_space @ msg_content m @ ''</s>'') chat)"

definition apply_mistral :: "llm_chat_template \<Rightarrow> llama_chat_message list \<Rightarrow> string" where
  "apply_mistral tmpl chat =
     (let leading_space = (if tmpl = LLM_CHAT_TEMPLATE_MISTRAL_V1 then '' '' else []); trailing_space = (if tmpl = LLM_CHAT_TEMPLATE_MISTRAL_V3_TEKKEN then [] else '' '');
         trim_assistant_message = (tmpl = LLM_CHAT_TEMPLATE_MISTRAL_V3) in
      run_msgs (\<lambda>is_inside_turn m.
        let open_turn = (if \<not> is_inside_turn then leading_space @ ''[INST]'' @ trailing_space else []) in
        if msg_role m = ''system'' then (True, open_turn @ msg_content m @ nl @ nl)
        else if msg_role m = ''user'' then (True, open_turn @ msg_content m @ leading_space @ ''[/INST]'')
        else (False, open_turn @ trailing_space @ (if trim_assistant_message then trim (msg_content m) else msg_content m) @ ''</s>'')) False chat)"

definition apply_llama_2 :: "llm_chat_template \<Rightarrow> llama_chat_message list \<Rightarrow> string" where
  "apply_llama_2 tmpl chat =
     (let support_system_message = (tmpl \<noteq> LLM_CHAT_TEMPLATE_LLAMA_2); add_bos_inside_history = (tmpl = LLM_CHAT_TEMPLATE_LLAMA_2_SYS_BOS);
         strip_message = (tmpl = LLM_CHAT_TEMPLATE_LLAMA_2_SYS_STRIP) in
      ''[INST] '' @ run_msgs (\<lambda>is_inside_turn m.
        let content = (if strip_message then trim (msg_content m) else msg_content m);
            open_turn = (if \<not> is_inside_turn then (if add_bos_inside_history then ''<s>[INST] '' else ''[INST] '') else []) in
        if msg_role m = ''system'' then
          (True, open_turn @ (if support_system_message then ''<<SYS>>'' @ nl @ content @ nl @ ''<</SYS>>'' @ nl @ nl else content @ nl))
        else if msg_role m = ''user'' then (True, open_turn @ content @ '' [/INST]'')
        else (False, open_turn @ content @ ''</s>'')) True chat)"

definition apply_phi_3 :: "llama_chat_message list \<Rightarrow> bool \<Rightarrow> string" where
  "apply_phi_3 chat add_ass =
     each_msg (\<lambda>m. ''<|'' @ msg_role m @ ''|>'' @ nl @ msg_content m @ ''<|end|>'' @ nl) chat @ (if add_ass then ''<|assistant|>'' @ nl else [])"

definition apply_phi_4 :: "llama_chat_message list \<Rightarrow> bool \<Rightarrow> string" where
  "apply_phi_4 chat add_ass =
     each_msg (\<lambda>m. ''<|im_start|>'' @ msg_role m @ ''<|im_sep|>'' @ msg_content m @ ''<|im_end|>'') chat @ (if add_ass then ''<|im_start|>assistant<|im_sep|>'' else [])"

definition apply_falcon_3 :: "llama_chat_message list \<Rightarrow> bool \<Rightarrow> string" where
  "apply_falcon_3 chat add_ass =
     each_msg (\<lambda>m. ''<|'' @ msg_role m @ ''|>'' @ nl @ msg_content m @ nl) chat @ (if add_ass then ''<|assistant|>'' @ nl else [])"

definition apply_zephyr :: "llama_chat_message list \<Rightarrow> bool \<Rightarrow> string" where
  "apply_zephyr chat add_ass =
     each_msg (\<lambda>m. ''<|'' @ msg_role m @ ''|>'' @ nl @ msg_content m @ ''<|endoftext|>'' @ nl) chat @ (if add_ass then ''<|assistant|>'' @ nl else [])"

definition apply_monarch :: "llama_chat_message list \<Rightarrow> bool \<Rightarrow> string" where
  "apply_monarch chat add_ass =
     run_msgs (\<lambda>first m. (False, (if first then [] else ''<s>'') @ msg_role m @ nl @ msg_content m @ ''</s>'' @ nl)) True chat @
      (if add_ass then ''<s>assistant'' @ nl else [])"

definition apply_gemma :: "llama_chat_message list \<Rightarrow> bool \<Rightarrow> string" where
  "apply_gemma chat add_ass =
     run_msgs (\<lambda>system_prompt m.
        if msg_role m = ''system'' then (system_prompt @ trim (msg_content m), [])
        else
          let role = (if msg_role m = ''assistant'' then ''model'' else msg_role m); merge = (system_prompt \<noteq> [] \<and> role \<noteq> ''model'') in
          (if merge then [] else system_prompt,
           ''<start_of_turn>'' @ role @ nl @ (if merge then system_prompt @ nl @ nl else []) @ trim (msg_content m) @ ''<end_of_turn>'' @ nl)) [] chat @
      (if add_ass then ''<start_of_turn>model'' @ nl else [])"

definition apply_orion :: "llama_chat_message list \<Rightarrow> string" where
  "apply_orion chat =
     run_msgs (\<lambda>system_prompt m.
        if msg_role m = ''system'' then (system_prompt @ msg_content m, [])
        else if msg_role m = ''user'' then
          ([], ''Human: '' @ (if system_prompt \<noteq> [] then system_prompt @ nl @ nl else []) @ msg_content m @ nl @ nl @ ''Assistant: </s>'')
        else (system_prompt, msg_content m @ ''</s>'')) [] chat"

definition apply_openchat :: "llama_chat_message list \<Rightarrow> bool \<Rightarrow> string" where
  "apply_openchat chat add_ass =
     each_msg (\<lambda>m. if msg_role m = ''system'' then msg_content m @ ''<|end_of_turn|>'' else ''GPT4 Correct '' @ upper_first (msg_role m) @ '': '' @ msg_content m @ ''<|end_of_turn|>'') chat @ (if add_ass then ''GPT4 Correct Assistant:'' else [])"

definition apply_vicuna :: "llm_chat_template \<Rightarrow> llama_chat_message list \<Rightarrow> bool \<Rightarrow> string" where
  "apply_vicuna tmpl chat add_ass =
     each_msg (\<lambda>m. if msg_role m = ''system'' then
          (if tmpl = LLM_CHAT_TEMPLATE_VICUNA_ORCA then ''SYSTEM: '' @ msg_content m @ nl else msg_content m @ nl @ nl)
        else if msg_role m = ''user'' then ''USER: '' @ msg_content m @ nl else if msg_role m = ''assistant'' then ''ASSISTANT: '' @ msg_content m @ ''</s>'' @ nl else []) chat @
      (if add_ass then ''ASSISTANT:'' else [])"

definition apply_deepseek :: "llama_chat_message list \<Rightarrow> bool \<Rightarrow> string" where
  "apply_deepseek chat add_ass =
     each_msg (\<lambda>m. if msg_role m = ''system'' then msg_content m else if msg_role m = ''user'' then ''### Instruction:'' @ nl @ msg_content m @ nl else if msg_role m = ''assistant'' then ''### Response:'' @ nl @ msg_content m @ nl @ ''<|EOT|>'' @ nl else []) chat @ (if add_ass then ''### Response:'' @ nl else [])"

definition apply_command_r :: "llama_chat_message list \<Rightarrow> bool \<Rightarrow> string" where
  "apply_command_r chat add_ass =
     each_msg (\<lambda>m. if msg_role m = ''system'' then ''<|START_OF_TURN_TOKEN|><|SYSTEM_TOKEN|>'' @ trim (msg_content m) @ ''<|END_OF_TURN_TOKEN|>'' else if msg_role m = ''user'' then ''<|START_OF_TURN_TOKEN|><|USER_TOKEN|>'' @ trim (msg_content m) @ ''<|END_OF_TURN_TOKEN|>'' else if msg_role m = ''assistant'' then ''<|START_OF_TURN_TOKEN|><|CHATBOT_TOKEN|>'' @ trim (msg_content m) @ ''<|END_OF_TURN_TOKEN|>'' else []) chat @ (if add_ass then ''<|START_OF_TURN_TOKEN|><|CHATBOT_TOKEN|>'' else [])"

definition apply_llama_3 :: "llama_chat_message list \<Rightarrow> bool \<Rightarrow> string" where
  "apply_llama_3 chat add_ass =
     each_msg (\<lambda>m. ''<|start_header_id|>'' @ msg_role m @ ''<|end_header_id|>'' @ nl @ nl @ trim (msg_content m) @ ''<|eot_id|>'') chat @ (if add_ass then ''<|start_header_id|>assistant<|end_header_id|>'' @ nl @ nl else [])"

definition apply_chatglm_3 :: "llama_chat_message list \<Rightarrow> bool \<Rightarrow> string" where
  "apply_chatglm_3 chat add_ass =
     ''[gMASK]sop'' @ each_msg (\<lambda>m. ''<|'' @ msg_role m @ ''|>'' @ nl @ '' '' @ msg_content m) chat @ (if add_ass then ''<|assistant|>'' else [])"

definition apply_chatglm_4 :: "llama_chat_message list \<Rightarrow> bool \<Rightarrow> string" where
  "apply_chatglm_4 chat add_ass =
     ''[gMASK]<sop>'' @ each_msg (\<lambda>m. ''<|'' @ msg_role m @ ''|>'' @ nl @ msg_content m) chat @ (if add_ass then ''<|assistant|>'' @ nl else [])"

definition apply_glmedge :: "llama_chat_message list \<Rightarrow> bool \<Rightarrow> string" where
  "apply_glmedge chat add_ass =
     each_msg (\<lambda>m. ''<|'' @ msg_role m @ ''|>'' @ nl @ msg_content m) chat @ (if add_ass then ''<|assistant|>'' else [])"

definition apply_minicpm :: "llama_chat_message list \<Rightarrow> string" where
  "apply_minicpm chat =
     each_msg (\<lambda>m. if msg_role m = ''user'' then ''<'' @ han_user @ ''>'' @ trim (msg_content m) @ ''<AI>'' else trim (msg_content m)) chat"

definition apply_deepseek_2 :: "llama_chat_message list \<Rightarrow> bool \<Rightarrow> string" where
  "apply_deepseek_2 chat add_ass =
     each_msg (\<lambda>m. if msg_role m = ''system'' then msg_content m @ nl @ nl else if msg_role m = ''user'' then ''User: '' @ msg_content m @ nl @ nl else if msg_role m = ''assistant'' then ''Assistant: '' @ msg_content m @ ''<'' @ bar @ ''end'' @ low @ ''of'' @ low @ ''sentence'' @ bar @ ''>'' else []) chat @ (if add_ass then ''Assistant:'' else [])"

definition apply_deepseek_3 :: "llama_chat_message list \<Rightarrow> bool \<Rightarrow> string" where
  "apply_deepseek_3 chat add_ass =
     each_msg (\<lambda>m. if msg_role m = ''system'' then msg_content m @ nl @ nl else if msg_role m = ''user'' then ''<'' @ bar @ ''User'' @ bar @ ''>'' @ msg_content m else if msg_role m = ''assistant'' then ''<'' @ bar @ ''Assistant'' @ bar @ ''>'' @ msg_content m @ ''<'' @ bar @ ''end'' @ low @ ''of'' @ low @ ''sentence'' @ bar @ ''>'' else []) chat @ (if add_ass then ''<'' @ bar @ ''Assistant'' @ bar @ ''>'' else [])"

definition apply_exaone_3 :: "llama_chat_message list \<Rightarrow> bool \<Rightarrow> string" where
  "apply_exaone_3 chat add_ass =
     each_msg (\<lambda>m. if msg_role m = ''system'' then ''[|system|]'' @ trim (msg_content m) @ ''[|endofturn|]'' @ nl else if msg_role m = ''user'' then ''[|user|]'' @ trim (msg_content m) @ nl else if msg_role m = ''assistant'' then ''[|assistant|]'' @ trim (msg_content m) @ ''[|endofturn|]'' @ nl else []) chat @ (if add_ass then ''[|assistant|]'' else [])"

definition apply_exaone_4 :: "llama_chat_message list \<Rightarrow> bool \<Rightarrow> string" where
  "apply_exaone_4 chat add_ass =
     each_msg (\<lambda>m. if msg_role m = ''system'' then ''[|system|]'' @ trim (msg_content m) @ ''[|endofturn|]'' @ nl else if msg_role m = ''user'' then ''[|user|]'' @ trim (msg_content m) @ nl else if msg_role m = ''assistant'' then ''[|assistant|]'' @ trim (msg_content m) @ ''[|endofturn|]'' @ nl else if msg_role m = ''tool'' then ''[|tool|]'' @ trim (msg_content m) @ ''[|endofturn|]'' @ nl else []) chat @ (if add_ass then ''[|assistant|]'' else [])"

definition apply_exaone_moe :: "llama_chat_message list \<Rightarrow> bool \<Rightarrow> string" where
  "apply_exaone_moe chat add_ass =
     each_msg (\<lambda>m. if msg_role m = ''system'' then ''<|system|>'' @ nl @ trim (msg_content m) @ ''<|endofturn|>'' @ nl else if msg_role m = ''user'' then ''<|user|>'' @ nl @ trim (msg_content m) @ ''<|endofturn|>'' @ nl else if msg_role m = ''assistant'' then ''<|assistant|>'' @ nl @ trim (msg_content m) @ ''<|endofturn|>'' @ nl else if msg_role m = ''tool'' then ''<|tool|>'' @ nl @ trim (msg_content m) @ ''<|endofturn|>'' @ nl else []) chat @ (if add_ass then ''<|assistant|>'' @ nl else [])"

definition apply_rwkv_world :: "llama_chat_message list \<Rightarrow> string" where
  "apply_rwkv_world chat =
     concat (map (\<lambda>i. let m = chat ! i in
        if msg_role m = ''system'' then ''System: '' @ trim (msg_content m) @ nl @ nl
        else if msg_role m = ''user'' then ''User: '' @ trim (msg_content m) @ nl @ nl @ (if i = length chat - 1 then ''Assistant:'' else [])
        else if msg_role m = ''assistant'' then ''Assistant: '' @ trim (msg_content m) @ nl @ nl else []) [0..<length chat])"

definition apply_granite :: "llama_chat_message list \<Rightarrow> bool \<Rightarrow> string" where
  "apply_granite chat add_ass =
     each_msg (\<lambda>m. ''<|start_of_role|>'' @ msg_role m @ ''<|end_of_role|>'' @ (if msg_role m = ''assistant_tool_call'' then ''<|tool_call|>'' else []) @ msg_content m @ ''<|end_of_text|>'' @ nl) chat @ (if add_ass then ''<|start_of_role|>assistant<|end_of_role|>'' else [])"

definition apply_gigachat :: "llama_chat_message list \<Rightarrow> bool \<Rightarrow> string" where
  "apply_gigachat chat add_ass =
     (let has_system = (chat \<noteq> [] \<and> msg_role (chat ! 0) = ''system'') in
      (if has_system then ''<s>'' @ msg_content (chat ! 0) @ ''<|message_sep|>'' else ''<s>'') @
      each_msg (\<lambda>m.
        if msg_role m = ''user'' then ''user<|role_sep|>'' @ msg_content m @ ''<|message_sep|>'' @ ''available functions<|role_sep|>[]<|message_sep|>''
        else if msg_role m = ''assistant'' then ''assistant<|role_sep|>'' @ msg_content m @ ''<|message_sep|>'' else [])
        (drop (if has_system then 1 else 0) chat) @
      (if add_ass then ''assistant<|role_sep|>'' else []))"

definition apply_megrez :: "llama_chat_message list \<Rightarrow> bool \<Rightarrow> string" where
  "apply_megrez chat add_ass =
     each_msg (\<lambda>m. ''<|role_start|>'' @ msg_role m @ ''<|role_end|>'' @ msg_content m @ ''<|turn_end|>'') chat @ (if add_ass then ''<|role_start|>assistant<|role_end|>'' else [])"

definition apply_yandex :: "llama_chat_message list \<Rightarrow> bool \<Rightarrow> string" where
  "apply_yandex chat add_ass =
     each_msg (\<lambda>m. if msg_role m = ''user'' then '' '' @ cyr_user @ '': '' @ msg_content m @ nl @ nl else if msg_role m = ''assistant'' then '' '' @ cyr_assistant @ '': '' @ msg_content m @ nl @ nl else []) chat @ (if add_ass then '' '' @ cyr_assistant @ '':[SEP]'' else [])"

definition apply_bailing :: "llm_chat_template \<Rightarrow> llama_chat_message list \<Rightarrow> bool \<Rightarrow> string" where
  "apply_bailing tmpl chat add_ass =
     each_msg (\<lambda>m. ''<role>'' @ (if msg_role m = ''user'' then ''HUMAN'' else map toupper (msg_role m)) @ ''</role>'' @ msg_content m) chat @
      (if add_ass then ''<role>ASSISTANT</role>'' @ (if tmpl = LLM_CHAT_TEMPLATE_BAILING_THINK then ''<think>'' else []) else [])"

definition apply_bailing2 :: "llama_chat_message list \<Rightarrow> bool \<Rightarrow> string" where
  "apply_bailing2 chat add_ass =
     (if chat \<noteq> [] \<and> msg_role (chat ! 0) = ''system'' then [] else ''<role>SYSTEM</role>detailed thinking off<|role_end|>'') @
      each_msg (\<lambda>m. ''<role>'' @ (if msg_role m = ''user'' then ''HUMAN'' else map toupper (msg_role m)) @ ''</role>'' @ msg_content m @ ''<|role_end|>'') chat @
      (if add_ass then ''<role>ASSISTANT</role>'' else [])"

definition apply_llama4 :: "llama_chat_message list \<Rightarrow> bool \<Rightarrow> string" where
  "apply_llama4 chat add_ass =
     each_msg (\<lambda>m. ''<|header_start|>'' @ msg_role m @ ''<|header_end|>'' @ nl @ nl @ trim (msg_content m) @ ''<|eot|>'') chat @ (if add_ass then ''<|header_start|>assistant<|header_end|>'' @ nl @ nl else [])"

definition apply_smolvlm :: "llama_chat_message list \<Rightarrow> bool \<Rightarrow> string" where
  "apply_smolvlm chat add_ass =
     ''<|im_start|>'' @ each_msg (\<lambda>m. if msg_role m = ''system'' then msg_content m @ nl @ nl else if msg_role m = ''user'' then ''User: '' @ msg_content m @ ''<end_of_utterance>'' @ nl else ''Assistant: '' @ msg_content m @ ''<end_of_utterance>'' @ nl) chat @ (if add_ass then ''Assistant:'' else [])"

definition apply_dots1 :: "llama_chat_message list \<Rightarrow> bool \<Rightarrow> string" where
  "apply_dots1 chat add_ass =
     each_msg (\<lambda>m. if msg_role m = ''system'' then ''<|system|>'' @ msg_content m @ ''<|endofsystem|>'' else if msg_role m = ''user'' then ''<|userprompt|>'' @ msg_content m @ ''<|endofuserprompt|>'' else ''<|response|>'' @ msg_content m @ ''<|endofresponse|>'') chat @ (if add_ass then ''<|response|>'' else [])"

definition apply_hunyuan_moe :: "llama_chat_message list \<Rightarrow> string" where
  "apply_hunyuan_moe chat =
     each_msg (\<lambda>m. if msg_role m = ''system'' then ''<|startoftext|>'' @ msg_content m @ ''<|extra_4|>'' else if msg_role m = ''assistant'' then msg_content m @ ''<|eos|>'' else ''<|startoftext|>'' @ msg_content m @ ''<|extra_0|>'') chat"

definition apply_openai_moe :: "llama_chat_message list \<Rightarrow> bool \<Rightarrow> string" where
  "apply_openai_moe chat add_ass =
     each_msg (\<lambda>m. ''<|start|>'' @ msg_role m @ ''<|message|>'' @ msg_content m @ (if msg_role m = ''assistant'' then ''<|return|>'' else ''<|end|>'')) chat @ (if add_ass then ''<|start|>assistant'' else [])"

definition apply_hunyuan_dense :: "llama_chat_message list \<Rightarrow> string" where
  "apply_hunyuan_dense chat =
     run_msgs (\<lambda>first m. (False,
        (if first \<and> msg_role m = ''system'' then msg_content m @ ''<'' @ bar @ ''hy_place'' @ low @ ''holder'' @ low @ ''no'' @ low @ ''3'' @ bar @ ''>'' else []) @
        (if msg_role m = ''assistant'' then ''<'' @ bar @ ''hy_Assistant'' @ bar @ ''>'' @ msg_content m @ ''<'' @ bar @ ''hy_place'' @ low @ ''holder'' @ low @ ''no'' @ low @ ''2'' @ bar @ ''>''
         else if msg_role m = ''user'' then ''<'' @ bar @ ''hy_User'' @ bar @ ''>'' @ msg_content m @ ''<'' @ bar @ ''hy_Assistant'' @ bar @ ''>'' else []))) True chat"

definition apply_kimi_k2 :: "llama_chat_message list \<Rightarrow> bool \<Rightarrow> string" where
  "apply_kimi_k2 chat add_ass =
     each_msg (\<lambda>m. (if msg_role m = ''system'' then ''<|im_system|>system<|im_middle|>'' else if msg_role m = ''user'' then ''<|im_user|>user<|im_middle|>'' else if msg_role m = ''assistant'' then ''<|im_assistant|>assistant<|im_middle|>'' else if msg_role m = ''tool'' then ''<|im_system|>tool<|im_middle|>'' else []) @ msg_content m @ ''<|im_end|>'') chat @ (if add_ass then ''<|im_assistant|>assistant<|im_middle|>'' else [])"

definition apply_seed_oss :: "llama_chat_message list \<Rightarrow> bool \<Rightarrow> string" where
  "apply_seed_oss chat add_ass =
     each_msg (\<lambda>m. ''<seed:bos>'' @ msg_role m @ nl @ (if msg_role m = ''assistant'' then trim (msg_content m) else msg_content m) @ ''<seed:eos>'') chat @ (if add_ass then ''<seed:bos>assistant'' @ nl else [])"

definition apply_grok_2 :: "llama_chat_message list \<Rightarrow> bool \<Rightarrow> string" where
  "apply_grok_2 chat add_ass =
     each_msg (\<lambda>m. if msg_role m = ''system'' then ''System: '' @ trim (msg_content m) @ ''<|separator|>'' @ nl @ nl else if msg_role m = ''user'' then ''Human: '' @ trim (msg_content m) @ ''<|separator|>'' @ nl @ nl else if msg_role m = ''assistant'' then ''Assistant: '' @ msg_content m @ ''<|separator|>'' @ nl @ nl else []) chat @ (if add_ass then ''Assistant:'' else [])"

definition apply_pangu_embed :: "llama_chat_message list \<Rightarrow> bool \<Rightarrow> string" where
  "apply_pangu_embed chat add_ass =
     run_msgs (\<lambda>first m. (False,
        (if first \<and> msg_role m \<noteq> ''system'' then ''[unused9]'' @ han_system @ ''[unused10]'' else []) @
        (if msg_role m = ''system'' then ''[unused9]'' @ han_system @ msg_content m @ ''[unused10]'' else if msg_role m = ''user'' then ''[unused9]'' @ han_user_colon @ msg_content m @ ''[unused10]'' else if msg_role m = ''assistant'' then ''[unused9]'' @ han_assistant @ msg_content m @ ''[unused10]'' else if msg_role m = ''tool'' then ''[unused9]'' @ han_tool @ msg_content m @ ''[unused10]'' else if msg_role m = ''function'' then ''[unused9]'' @ han_function @ msg_content m @ ''[unused10]'' else []))) True chat @
      (if add_ass then ''[unused9]'' @ han_assistant else [])"

definition apply_solar_open :: "llama_chat_message list \<Rightarrow> bool \<Rightarrow> string" where
  "apply_solar_open chat add_ass =
     each_msg (\<lambda>m. ''<|begin|>'' @ msg_role m @ ''<|content|>'' @ msg_content m @ ''<|end|>'') chat @ (if add_ass then ''<|begin|>assistant'' else [])"

text \<open>\<open>None\<close> stands for the result -1.\<close>

definition llm_chat_apply_template :: "llm_chat_template \<Rightarrow> llama_chat_message list \<Rightarrow> bool \<Rightarrow> string option" where
  "llm_chat_apply_template tmpl chat add_ass =
    (case tmpl of
       LLM_CHAT_TEMPLATE_CHATML \<Rightarrow> Some (apply_chatml chat add_ass)
     | LLM_CHAT_TEMPLATE_MISTRAL_V7 \<Rightarrow> Some (apply_mistral_v7 tmpl chat)
     | LLM_CHAT_TEMPLATE_MISTRAL_V7_TEKKEN \<Rightarrow> Some (apply_mistral_v7 tmpl chat)
     | LLM_CHAT_TEMPLATE_MISTRAL_V1 \<Rightarrow> Some (apply_mistral tmpl chat)
     | LLM_CHAT_TEMPLATE_MISTRAL_V3 \<Rightarrow> Some (apply_mistral tmpl chat)
     | LLM_CHAT_TEMPLATE_MISTRAL_V3_TEKKEN \<Rightarrow> Some (apply_mistral tmpl chat)
     | LLM_CHAT_TEMPLATE_LLAMA_2 \<Rightarrow> Some (apply_llama_2 tmpl chat)
     | LLM_CHAT_TEMPLATE_LLAMA_2_SYS \<Rightarrow> Some (apply_llama_2 tmpl chat)
     | LLM_CHAT_TEMPLATE_LLAMA_2_SYS_BOS \<Rightarrow> Some (apply_llama_2 tmpl chat)
     | LLM_CHAT_TEMPLATE_LLAMA_2_SYS_STRIP \<Rightarrow> Some (apply_llama_2 tmpl chat)
     | LLM_CHAT_TEMPLATE_PHI_3 \<Rightarrow> Some (apply_phi_3 chat add_ass)
     | LLM_CHAT_TEMPLATE_PHI_4 \<Rightarrow> Some (apply_phi_4 chat add_ass)
     | LLM_CHAT_TEMPLATE_FALCON_3 \<Rightarrow> Some (apply_falcon_3 chat add_ass)
     | LLM_CHAT_TEMPLATE_ZEPHYR \<Rightarrow> Some (apply_zephyr chat add_ass)
     | LLM_CHAT_TEMPLATE_MONARCH \<Rightarrow> Some (apply_monarch chat add_ass)
     | LLM_CHAT_TEMPLATE_GEMMA \<Rightarrow> Some (apply_gemma chat add_ass)
     | LLM_CHAT_TEMPLATE_ORION \<Rightarrow> Some (apply_orion chat)
     | LLM_CHAT_TEMPLATE_OPENCHAT \<Rightarrow> Some (apply_openchat chat add_ass)
     | LLM_CHAT_TEMPLATE_VICUNA \<Rightarrow> Some (apply_vicuna tmpl chat add_ass)
     | LLM_CHAT_TEMPLATE_VICUNA_ORCA \<Rightarrow> Some (apply_vicuna tmpl chat add_ass)
     | LLM_CHAT_TEMPLATE_DEEPSEEK \<Rightarrow> Some (apply_deepseek chat add_ass)
     | LLM_CHAT_TEMPLATE_COMMAND_R \<Rightarrow> Some (apply_command_r chat add_ass)
     | LLM_CHAT_TEMPLATE_LLAMA_3 \<Rightarrow> Some (apply_llama_3 chat add_ass)
     | LLM_CHAT_TEMPLATE_CHATGLM_3 \<Rightarrow> Some (apply_chatglm_3 chat add_ass)
     | LLM_CHAT_TEMPLATE_CHATGLM_4 \<Rightarrow> Some (apply_chatglm_4 chat add_ass)
     | LLM_CHAT_TEMPLATE_GLMEDGE \<Rightarrow> Some (apply_glmedge chat add_ass)
     | LLM_CHAT_TEMPLATE_MINICPM \<Rightarrow> Some (apply_minicpm chat)
     | LLM_CHAT_TEMPLATE_DEEPSEEK_2 \<Rightarrow> Some (apply_deepseek_2 chat add_ass)
     | LLM_CHAT_TEMPLATE_DEEPSEEK_3 \<Rightarrow> Some (apply_deepseek_3 chat add_ass)
     | LLM_CHAT_TEMPLATE_EXAONE_3 \<Rightarrow> Some (apply_exaone_3 chat add_ass)
     | LLM_CHAT_TEMPLATE_EXAONE_4 \<Rightarrow> Some (apply_exaone_4 chat add_ass)
     | LLM_CHAT_TEMPLATE_EXAONE_MOE \<Rightarrow> Some (apply_exaone_moe chat add_ass)
     | LLM_CHAT_TEMPLATE_RWKV_WORLD \<Rightarrow> Some (apply_rwkv_world chat)
     | LLM_CHAT_TEMPLATE_GRANITE \<Rightarrow> Some (apply_granite chat add_ass)
     | LLM_CHAT_TEMPLATE_GIGACHAT \<Rightarrow> Some (apply_gigachat chat add_ass)
     | LLM_CHAT_TEMPLATE_MEGREZ \<Rightarrow> Some (apply_megrez chat add_ass)
     | LLM_CHAT_TEMPLATE_YANDEX \<Rightarrow> Some (apply_yandex chat add_ass)
     | LLM_CHAT_TEMPLATE_BAILING \<Rightarrow> Some (apply_bailing tmpl chat add_ass)
     | LLM_CHAT_TEMPLATE_BAILING_THINK \<Rightarrow> Some (apply_bailing tmpl chat add_ass)
     | LLM_CHAT_TEMPLATE_BAILING2 \<Rightarrow> Some (apply_bailing2 chat add_ass)
     | LLM_CHAT_TEMPLATE_LLAMA4 \<Rightarrow> Some (apply_llama4 chat add_ass)
     | LLM_CHAT_TEMPLATE_SMOLVLM \<Rightarrow> Some (apply_smolvlm chat add_ass)
     | LLM_CHAT_TEMPLATE_DOTS1 \<Rightarrow> Some (apply_dots1 chat add_ass)
     | LLM_CHAT_TEMPLATE_HUNYUAN_MOE \<Rightarrow> Some (apply_hunyuan_moe chat)
     | LLM_CHAT_TEMPLATE_OPENAI_MOE \<Rightarrow> Some (apply_openai_moe chat add_ass)
     | LLM_CHAT_TEMPLATE_HUNYUAN_DENSE \<Rightarrow> Some (apply_hunyuan_dense chat)
     | LLM_CHAT_TEMPLATE_KIMI_K2 \<Rightarrow> Some (apply_kimi_k2 chat add_ass)
     | LLM_CHAT_TEMPLATE_SEED_OSS \<Rightarrow> Some (apply_seed_oss chat add_ass)
     | LLM_CHAT_TEMPLATE_GROK_2 \<Rightarrow> Some (apply_grok_2 chat add_ass)
     | LLM_CHAT_TEMPLATE_PANGU_EMBED \<Rightarrow> Some (apply_pangu_embed chat add_ass)
     | LLM_CHAT_TEMPLATE_SOLAR_OPEN \<Rightarrow> Some (apply_solar_open chat add_ass)
     | LLM_CHAT_TEMPLATE_UNKNOWN \<Rightarrow> None)"

text \<open>The public functions. \<open>strncpy\<close> copies the string and fills up with zeros; a buffer that is too short gets no terminator.
  The result is the return value and, unless the buffer is null or an early return skips it, what the buffer holds afterwards.\<close>

definition strncpy :: "string \<Rightarrow> nat \<Rightarrow> string \<Rightarrow> string" where
  "strncpy s n buf = take n (s @ replicate n (CHR 0x00)) @ drop n buf"

definition llama_chat_apply_template :: "string option \<Rightarrow> llama_chat_message list \<Rightarrow> bool \<Rightarrow> string option \<Rightarrow> int \<Rightarrow> int \<times> string option" where
  "llama_chat_apply_template tmpl chat add_ass buf len =
    (let curr_tmpl = (case tmpl of None \<Rightarrow> ''chatml'' | Some t \<Rightarrow> t); detected_tmpl = llm_chat_detect_template curr_tmpl in
     if detected_tmpl = LLM_CHAT_TEMPLATE_UNKNOWN then (- 1, buf)
     else
       (case llm_chat_apply_template detected_tmpl chat add_ass of
          None \<Rightarrow> (- 1, buf)
        | Some formatted_chat \<Rightarrow>
            let res = wrap_i32 (int (length formatted_chat)) in
            if res < 0 then (res, buf)
            else (res, case buf of Some b \<Rightarrow> Some (if len > 0 then strncpy formatted_chat (nat len) b else b) | None \<Rightarrow> None)))"

definition llama_chat_builtin_templates :: "nat \<Rightarrow> string list \<times> nat" where
  "llama_chat_builtin_templates len = (map fst (take len LLM_CHAT_TEMPLATES), length LLM_CHAT_TEMPLATES)"

section \<open>Rendering in pieces\<close>

lemmas apply_defs = apply_chatml_def apply_mistral_v7_def apply_mistral_def apply_llama_2_def apply_phi_3_def apply_phi_4_def
  apply_falcon_3_def apply_zephyr_def apply_monarch_def apply_gemma_def apply_orion_def apply_openchat_def
  apply_vicuna_def apply_deepseek_def apply_command_r_def apply_llama_3_def apply_chatglm_3_def apply_chatglm_4_def
  apply_glmedge_def apply_minicpm_def apply_deepseek_2_def apply_deepseek_3_def apply_exaone_3_def apply_exaone_4_def
  apply_exaone_moe_def apply_granite_def apply_gigachat_def apply_megrez_def apply_yandex_def
  apply_bailing_def apply_bailing2_def apply_llama4_def apply_smolvlm_def apply_dots1_def apply_hunyuan_moe_def
  apply_openai_moe_def apply_hunyuan_dense_def apply_kimi_k2_def apply_seed_oss_def apply_grok_2_def apply_pangu_embed_def
  apply_solar_open_def

lemma each_msg_append [simp]: "each_msg f (a @ b) = each_msg f a @ each_msg f b"
  by (simp add: each_msg_def)

lemma each_msg_simps [simp]: "each_msg f [] = []" "each_msg f (m # ms) = f m @ each_msg f ms"
  by (simp_all add: each_msg_def)

lemma run_msgs_prefix [simp]: "prefix (run_msgs f s a) (run_msgs f s (a @ b) @ c)" "prefix (run_msgs f s a) (run_msgs f s (a @ b))"
  by (induction a arbitrary: s) simp_all

definition rwkv_turn :: "llama_chat_message \<Rightarrow> string" where
  "rwkv_turn m =
    (if msg_role m = ''system'' then ''System: '' @ trim (msg_content m) @ nl @ nl
     else if msg_role m = ''user'' then ''User: '' @ trim (msg_content m) @ nl @ nl
     else if msg_role m = ''assistant'' then ''Assistant: '' @ trim (msg_content m) @ nl @ nl else [])"

lemma rwkv_eq: "apply_rwkv_world chat = each_msg rwkv_turn chat @ (if chat \<noteq> [] \<and> msg_role (last chat) = ''user'' then ''Assistant:'' else [])"
proof -
  define turn where "turn = (\<lambda>(m :: llama_chat_message) end.
        if msg_role m = ''system'' then ''System: '' @ trim (msg_content m) @ nl @ nl
        else if msg_role m = ''user'' then ''User: '' @ trim (msg_content m) @ nl @ nl @ (if end then ''Assistant:'' else [])
        else if msg_role m = ''assistant'' then ''Assistant: '' @ trim (msg_content m) @ nl @ nl else [])"
  have t: "turn m end = rwkv_turn m @ (if end \<and> msg_role m = ''user'' then ''Assistant:'' else [])" for m "end" by (simp add: turn_def rwkv_turn_def)
  have eq: "apply_rwkv_world chat = concat (map (\<lambda>i. turn (chat ! i) (i = length chat - 1)) [0..<length chat])"
    by (simp only: apply_rwkv_world_def turn_def Let_def)
  show ?thesis
  proof (cases chat rule: rev_cases)
    case (snoc ms m)
    have "map (\<lambda>i. turn (chat ! i) (i = length chat - 1)) [0..<length ms] = map (\<lambda>i. rwkv_turn (ms ! i)) [0..<length ms]"
      by (rule map_cong[OF refl]) (simp add: t snoc nth_append)
    also have "\<dots> = map rwkv_turn ms" by (rule nth_equalityI) simp_all
    finally show ?thesis using eq by (simp add: snoc t each_msg_def)
  qed (simp add: apply_rwkv_world_def)
qed

text \<open>When a rendering is a prefix of the rendering of a longer chat: always, except that \<^verbatim>\<open>rwkv-world\<close> ends a chat whose last message is
  the user's with the beginning of an answer, and that \<^verbatim>\<open>bailing2\<close> begins a chat without a system message with one.\<close>

definition extends_ok :: "llm_chat_template \<Rightarrow> llama_chat_message list \<Rightarrow> llama_chat_message list \<Rightarrow> bool" where
  "extends_ok t chat later \<longleftrightarrow>
    (t = LLM_CHAT_TEMPLATE_RWKV_WORLD \<and> chat \<noteq> [] \<and> later \<noteq> [] \<and> msg_role (last chat) = ''user'' \<longrightarrow> msg_role (hd later) = ''assistant'') \<and>
    (t = LLM_CHAT_TEMPLATE_BAILING2 \<and> chat = [] \<and> later \<noteq> [] \<longrightarrow> msg_role (hd later) \<noteq> ''system'')"

lemma rwkv_extends:
  assumes "extends_ok LLM_CHAT_TEMPLATE_RWKV_WORLD chat later"
  shows "prefix (apply_rwkv_world chat) (apply_rwkv_world (chat @ later))"
proof (cases "chat \<noteq> [] \<and> later \<noteq> [] \<and> msg_role (last chat) = ''user''")
  case True
  then obtain m ms where "later = m # ms" "msg_role m = ''assistant''" using assms by (cases later) (auto simp: extends_ok_def)
  then show ?thesis using True by (simp add: rwkv_eq rwkv_turn_def)
next
  case False
  then show ?thesis by (cases "chat = []"; cases "later = []") (auto simp: rwkv_eq)
qed

lemma first_extends:
  "extends_ok LLM_CHAT_TEMPLATE_BAILING2 chat later \<Longrightarrow> prefix (apply_bailing2 chat False) (apply_bailing2 (chat @ later) add_ass)"
  "prefix (apply_gigachat chat False) (apply_gigachat (chat @ later) add_ass)"
  by (cases chat; cases later; simp add: apply_bailing2_def apply_gigachat_def extends_ok_def Let_def)+

text \<open>C32. The rendering of a chat is a prefix of the rendering of the chat with more messages, with or without the beginning of an answer: a caller may send
  the model only what was added.\<close>

theorem chat_incremental:
  assumes "extends_ok t chat later" "llm_chat_apply_template t chat False = Some s" "llm_chat_apply_template t (chat @ later) add_ass = Some s'"
  shows "prefix s s'"
proof -
  have "t \<in> {LLM_CHAT_TEMPLATE_RWKV_WORLD, LLM_CHAT_TEMPLATE_BAILING2, LLM_CHAT_TEMPLATE_GIGACHAT, LLM_CHAT_TEMPLATE_UNKNOWN} \<or>
      prefix (the (llm_chat_apply_template t chat False)) (the (llm_chat_apply_template t (chat @ later) add_ass))"
    by (cases t) (simp_all add: llm_chat_apply_template_def apply_defs Let_def)
  then show ?thesis using assms rwkv_extends[of chat later] first_extends[of chat later add_ass]
    by (auto simp: llm_chat_apply_template_def)
qed


section \<open>Generation prompt\<close>

definition gen_prompt :: "llm_chat_template \<Rightarrow> string" where
  "gen_prompt t = drop (length (the (llm_chat_apply_template t [] False))) (the (llm_chat_apply_template t [] True))"

text \<open>C34. The beginning of an answer is the same text for every chat, and is empty exactly for the templates listed.\<close>

theorem chat_generation_prompt:
  "llm_chat_apply_template t chat True = map_option (\<lambda>s. s @ gen_prompt t) (llm_chat_apply_template t chat False) \<and>
   (gen_prompt t = [] \<longleftrightarrow> t \<in> {LLM_CHAT_TEMPLATE_MISTRAL_V1, LLM_CHAT_TEMPLATE_MISTRAL_V3, LLM_CHAT_TEMPLATE_MISTRAL_V3_TEKKEN,
      LLM_CHAT_TEMPLATE_MISTRAL_V7, LLM_CHAT_TEMPLATE_MISTRAL_V7_TEKKEN, LLM_CHAT_TEMPLATE_LLAMA_2, LLM_CHAT_TEMPLATE_LLAMA_2_SYS,
      LLM_CHAT_TEMPLATE_LLAMA_2_SYS_BOS, LLM_CHAT_TEMPLATE_LLAMA_2_SYS_STRIP, LLM_CHAT_TEMPLATE_ORION, LLM_CHAT_TEMPLATE_MINICPM,
      LLM_CHAT_TEMPLATE_RWKV_WORLD, LLM_CHAT_TEMPLATE_HUNYUAN_MOE, LLM_CHAT_TEMPLATE_HUNYUAN_DENSE, LLM_CHAT_TEMPLATE_UNKNOWN})"
  by (cases t) (simp_all add: gen_prompt_def llm_chat_apply_template_def apply_defs Let_def)

section \<open>Contents\<close>

lemma trim_sublist: "sublist (trim c) c"
proof -
  have "sublist (rev (dropWhile isspace (rev (dropWhile isspace c)))) (dropWhile isspace c)"
    by (metis rev_rev_ident suffix_dropWhile sublist_rev suffix_imp_sublist)
  then show ?thesis unfolding trim_def using suffix_dropWhile[of isspace c] by (meson sublist_order.order_trans suffix_imp_sublist)
qed

lemma sublist_steps: "sublist x b \<Longrightarrow> sublist x (a @ b)" "sublist x a \<Longrightarrow> sublist x (a @ b)" "sublist x b \<Longrightarrow> sublist x (c # b)"
  by (auto simp: sublist_append sublist_Cons_right)

lemma each_msg_contains: "m \<in> set chat \<Longrightarrow> sublist x (f m) \<Longrightarrow> sublist x (each_msg f chat)"
  by (induction chat) (auto intro: sublist_steps)

lemma run_msgs_contains: "m \<in> set chat \<Longrightarrow> (\<And>s. sublist x (snd (f s m))) \<Longrightarrow> sublist x (run_msgs f s chat)"
  by (induction chat arbitrary: s) (auto intro: sublist_steps)


text \<open>The templates that leave messages of a chat with the usual roles out: system messages that are not the first (\<^verbatim>\<open>gigachat\<close>,
  \<^verbatim>\<open>hunyuan-dense\<close>), all of them (\<^verbatim>\<open>yandex\<close>), those no user message follows (\<^verbatim>\<open>gemma\<close>, \<^verbatim>\<open>orion\<close>).\<close>

definition leaves_out :: "llm_chat_template \<Rightarrow> bool" where
  "leaves_out t \<longleftrightarrow> t \<in> {LLM_CHAT_TEMPLATE_GIGACHAT, LLM_CHAT_TEMPLATE_HUNYUAN_DENSE, LLM_CHAT_TEMPLATE_YANDEX, LLM_CHAT_TEMPLATE_GEMMA, LLM_CHAT_TEMPLATE_ORION}"

lemma sublist_if: "sublist x a \<Longrightarrow> sublist x b \<Longrightarrow> sublist x (if c then a else b)"
  by simp

lemma rendered_contents:
  assumes m: "m \<in> set chat" and r: "(msg_role m = ''system'') = b1" "(msg_role m = ''user'') = b2" "(msg_role m = ''assistant'') = b3"
    "(msg_role m = ''tool'') = False" "(msg_role m = ''function'') = False" "(msg_role m = ''assistant_tool_call'') = False"
    and b: "b1 \<and> \<not> b2 \<and> \<not> b3 \<or> \<not> b1 \<and> b2 \<and> \<not> b3 \<or> \<not> b1 \<and> \<not> b2 \<and> b3"
  shows "leaves_out t \<or> t = LLM_CHAT_TEMPLATE_UNKNOWN \<or> sublist (trim (msg_content m)) (the (llm_chat_apply_template t chat add_ass))"
proof -
  note rules = each_msg_contains[OF m] run_msgs_contains[OF m] sublist_steps(1,2) sublist_if trim_sublist sublist_order.order_refl
  show ?thesis using b
    by (elim disjE conjE; cases t; (simp only: llm_chat_apply_template_def llm_chat_template.case option.sel apply_defs rwkv_eq rwkv_turn_def Let_def r rules
      if_True if_False snd_conv simp_thms; fail)?) (simp_all add: leaves_out_def)
qed

text \<open>C33. Every system, user and assistant message of a chat is in the rendering, at least without the white space around it, for all
  templates but the five that leave messages out.\<close>

theorem chat_keeps_contents:
  assumes "llm_chat_apply_template t chat add_ass = Some s" "\<not> leaves_out t" "m \<in> set chat" "msg_role m \<in> {''system'', ''user'', ''assistant''}"
  shows "sublist (trim (msg_content m)) s"
proof -
  have "(msg_role m = ''tool'') = False" "(msg_role m = ''function'') = False" "(msg_role m = ''assistant_tool_call'') = False" using assms(4) by auto
  moreover have "t \<noteq> LLM_CHAT_TEMPLATE_UNKNOWN" using assms(1) by (auto simp: llm_chat_apply_template_def)
  ultimately have "sublist (trim (msg_content m)) (the (llm_chat_apply_template t chat add_ass))"
    using rendered_contents[OF assms(3) refl refl refl, of t add_ass] assms(2,4) by auto
  then show ?thesis using assms(1) by simp
qed

lemma system_messages_lost:
  "llm_chat_apply_template LLM_CHAT_TEMPLATE_YANDEX [\<lparr>msg_role = ''system'', msg_content = c\<rparr>] False = Some []"
  "llm_chat_apply_template LLM_CHAT_TEMPLATE_GEMMA [\<lparr>msg_role = ''system'', msg_content = c\<rparr>] False = Some []"
  by (simp_all add: llm_chat_apply_template_def apply_yandex_def apply_gemma_def)

section \<open>Names and the public interface\<close>

lemma table_distinct: "distinct (map fst LLM_CHAT_TEMPLATES)" "distinct (map snd LLM_CHAT_TEMPLATES)"
  by (simp_all add: LLM_CHAT_TEMPLATES_def)

lemma table_range: "t \<in> snd ` set LLM_CHAT_TEMPLATES \<longleftrightarrow> t \<noteq> LLM_CHAT_TEMPLATE_DOTS1 \<and> t \<noteq> LLM_CHAT_TEMPLATE_UNKNOWN"
  by (cases t) (simp_all add: LLM_CHAT_TEMPLATES_def)

text \<open>Every template has one name under which it is found, except \<^verbatim>\<open>DOTS1\<close>, which has none; the names listed are the names found.\<close>

theorem chat_template_names:
  "((\<exists>!n. llm_chat_template_from_str n = Some t) \<longleftrightarrow> t \<noteq> LLM_CHAT_TEMPLATE_DOTS1 \<and> t \<noteq> LLM_CHAT_TEMPLATE_UNKNOWN) \<and>
   (llm_chat_template_from_str n = Some t \<longrightarrow> llm_chat_detect_template n = t \<and> n \<in> set (fst (llama_chat_builtin_templates (snd (llama_chat_builtin_templates 0)))))"
proof -
  have iff: "llm_chat_template_from_str n = Some t \<longleftrightarrow> (n, t) \<in> set LLM_CHAT_TEMPLATES" for n
    using table_distinct(1) by (simp add: llm_chat_template_from_str_def)
  have "(\<exists>!n. (n, t) \<in> set LLM_CHAT_TEMPLATES) \<longleftrightarrow> t \<in> snd ` set LLM_CHAT_TEMPLATES"
    using table_distinct(2) by (force simp: distinct_map inj_on_def)
  then show ?thesis using table_range[of t] by (auto simp: iff llm_chat_detect_template_def llama_chat_builtin_templates_def image_iff) (use iff in force)+
qed

text \<open>The result is the length of the whole rendering; the buffer has the part of it that fits, and a terminator when it fits with room to spare.\<close>

theorem chat_apply_buffer:
  assumes "llm_chat_detect_template (case tmpl of None \<Rightarrow> ''chatml'' | Some t \<Rightarrow> t) = t" "llm_chat_apply_template t chat add_ass = Some s"
    "length s < 2 ^ 31" "nat len \<le> length b"
  shows "\<exists>b'. llama_chat_apply_template tmpl chat add_ass (Some b) len = (int (length s), Some b') \<and> length b' = length b \<and>
    take (min (nat len) (length s)) b' = take (nat len) s \<and> (int (length s) < len \<longrightarrow> b' ! length s = CHR 0x00) \<and> drop (nat len) b' = drop (nat len) b"
proof -
  have "t \<noteq> LLM_CHAT_TEMPLATE_UNKNOWN" using assms(2) by (auto simp: llm_chat_apply_template_def)
  moreover have "wrap_i32 (int (length s)) = int (length s)" using assms(3) by simp
  ultimately show ?thesis using assms by (auto simp: llama_chat_apply_template_def Let_def strncpy_def nth_append min_def)
qed

section \<open>An example\<close>

abbreviation ex_user :: llama_chat_message where "ex_user \<equiv> \<lparr>msg_role = ''user'', msg_content = '' hi ''\<rparr>"
abbreviation ex_answer :: llama_chat_message where "ex_answer \<equiv> \<lparr>msg_role = ''assistant'', msg_content = ''yes''\<rparr>"

lemma ex_rwkv:
  "llm_chat_apply_template LLM_CHAT_TEMPLATE_RWKV_WORLD [ex_user] False = Some (''User: hi'' @ nl @ nl @ ''Assistant:'')"
  "llm_chat_apply_template LLM_CHAT_TEMPLATE_RWKV_WORLD ([ex_user] @ [ex_answer]) True = Some (''User: hi'' @ nl @ nl @ ''Assistant: yes'' @ nl @ nl)"
  by (simp_all add: llm_chat_apply_template_def apply_rwkv_world_def trim_def isspace_def)

theorem chat_incremental_witness: "prefix (''User: hi'' @ nl @ nl @ ''Assistant:'') (''User: hi'' @ nl @ nl @ ''Assistant: yes'' @ nl @ nl)"
  by (rule chat_incremental[OF _ ex_rwkv]) (simp add: extends_ok_def)

theorem chat_keeps_contents_witness: "sublist (trim '' hi '') (''User: hi'' @ nl @ nl @ ''Assistant:'')"
  using chat_keeps_contents[OF ex_rwkv(1), of ex_user] by (simp add: leaves_out_def)

theorem chat_template_names_witness: "llm_chat_detect_template ''rwkv-world'' = LLM_CHAT_TEMPLATE_RWKV_WORLD"
proof -
  have "llm_chat_template_from_str ''rwkv-world'' = Some LLM_CHAT_TEMPLATE_RWKV_WORLD" by (simp add: llm_chat_template_from_str_def LLM_CHAT_TEMPLATES_def)
  then show ?thesis using chat_template_names[of LLM_CHAT_TEMPLATE_RWKV_WORLD "''rwkv-world''"] by blast
qed

theorem chat_apply_buffer_witness:
  "\<exists>b'. llama_chat_apply_template (Some ''rwkv-world'') [ex_user] False (Some (replicate 64 (CHR 0x00))) 64 = (20, Some b') \<and> length b' = 64"
proof -
  have d: "llm_chat_detect_template (case Some ''rwkv-world'' of None \<Rightarrow> ''chatml'' | Some t \<Rightarrow> t) = LLM_CHAT_TEMPLATE_RWKV_WORLD"
    by (simp add: llm_chat_detect_template_def llm_chat_template_from_str_def LLM_CHAT_TEMPLATES_def)
  show ?thesis using chat_apply_buffer[OF d ex_rwkv(1), of 64 "replicate 64 (CHR 0x00)"] by auto
qed

end
