(* ===== verification/Spec2Isabelle.thy ===== *)
theory Spec2Isabelle
  imports Prelude Kv_Cells Kv_Cache Batch Kv_Slots Output_Rows Llama_Context Context_Init Utf8_Check Llm_Inference
    Smollm_Jni Vector_DB Bytes Ggml_Tensor Gguf_Context Gguf_Read Gguf_Write Gguf_Reader Kv_Mask State_Io Kv_State Kv_Restore
    Kv_Restore_Seq Session Tensor_Alloc Graph_Alloc Graph_Reserve Chat_Template
begin

text \<open>
  \<^bold>\<open>The program.\<close> Aigentik is an Android application that runs a language model on the device. Its Kotlin code calls two
  native libraries through JNI: \<^verbatim>\<open>smollm\<close> (\<^verbatim>\<open>src/smollm/src/main/cpp\<close>), a chat over \<^verbatim>\<open>llama.cpp\<close>
  (\<^verbatim>\<open>src/llama.cpp\<close>), and \<^verbatim>\<open>smolvectordb\<close> (\<^verbatim>\<open>src/smolvectordb/src/main/cpp\<close>), a vector store.
  A chat is an \<^verbatim>\<open>LLMInference\<close> object. \<^verbatim>\<open>startCompletion\<close> renders the history to a prompt and tokenizes it;
  every \<^verbatim>\<open>completionLoop\<close> passes the pending tokens to \<^verbatim>\<open>llama_decode\<close>, samples one token and hands out its
  text. \<^verbatim>\<open>llama_decode\<close> has the batch allocator complete and cut the batch into ubatches, has the KV cache find
  cells for each ubatch, and computes their graphs one after the other.

  \<^bold>\<open>The theories\<close>, from the bottom to the top.

  \<^item> \<open>Prelude\<close>: faults and results, conversions of machine integers, loops over index ranges, the ordered map of
    position counts.
  \<^item> \<open>Kv_Cells\<close>: \<^verbatim>\<open>llama_kv_cells\<close> (\<^verbatim>\<open>llama-kv-cells.h\<close>), the metadata of the cells of one stream. A record with
    the fields of the class and one definition per method. \<open>cells_inv\<close> says that the set of used cells and the position
    counters agree with the cells; every method keeps it. The locale \<open>cell_loop\<close> is the contract of a loop over all
    cells, from which the sequence operations of the cache are derived.
  \<^item> \<open>Kv_Cache\<close>: \<^verbatim>\<open>llama_kv_cache\<close> (\<^verbatim>\<open>llama-kv-cache.cpp\<close>): constructor, \<^verbatim>\<open>clear\<close>, \<^verbatim>\<open>seq_rm\<close>,
    \<^verbatim>\<open>seq_cp\<close>, \<^verbatim>\<open>seq_keep\<close>, \<^verbatim>\<open>seq_add\<close>, \<^verbatim>\<open>seq_div\<close>, \<^verbatim>\<open>seq_pos_min\<close>, \<^verbatim>\<open>seq_pos_max\<close>,
    \<^verbatim>\<open>update\<close>. The abstract view of a cache is \<open>kv_positions\<close>, the set of positions of each sequence; the theorems
    say what each operation does to it, and that the pending shifts stay consistent.
  \<^item> \<open>Batch\<close>: \<^verbatim>\<open>llama_batch_allocr\<close> (\<^verbatim>\<open>llama-batch.cpp\<close>): validation, completion and statistics of a batch, and
    the three ways to cut it. The locale \<open>splitter\<close> is their common contract, interpreted for \<^verbatim>\<open>split_simple\<close>,
    \<^verbatim>\<open>split_equal\<close> and \<^verbatim>\<open>split_seq\<close>: cutting ends, and every token is in exactly one ubatch.
  \<^item> \<open>Kv_Slots\<close>: \<^verbatim>\<open>find_slot\<close>, \<^verbatim>\<open>apply_ubatch\<close>, \<^verbatim>\<open>prepare\<close>, \<^verbatim>\<open>init_batch\<close> and \<^verbatim>\<open>get_n_kv\<close>. The search
    ends and finds usable cells exactly where there are enough; placing a ubatch adds exactly its positions; preparing
    leaves the cells as they were; every cache that calls can reach satisfies the invariant.
  \<^item> \<open>Kv_Mask\<close>: the inputs of the attention graph the cache fills in: the cells that keys and values are written to
    (\<^verbatim>\<open>set_input_k_idxs\<close>, \<^verbatim>\<open>set_input_v_idxs\<close>; distinct and inside the cache), the pending shifts
    (\<^verbatim>\<open>set_input_k_shift\<close>) and the mask (\<^verbatim>\<open>set_input_kq_mask\<close>), whose shortcut of copying rows between tokens is
    shown to give the mask that \<open>attends\<close> defines.
  \<^item> \<open>Output_Rows\<close>: the order of the rows of the output buffer after \<^verbatim>\<open>decode\<close> and \<^verbatim>\<open>output_reorder\<close>.
  \<^item> \<open>Llama_Context\<close>: \<^verbatim>\<open>memory_update\<close>, \<^verbatim>\<open>output_reserve\<close>, \<^verbatim>\<open>process_ubatch\<close>, \<^verbatim>\<open>decode\<close>,
    \<^verbatim>\<open>get_logits_ith\<close> (\<^verbatim>\<open>llama-context.cpp\<close>), composed of the three components above; a prompt that fits is
    decoded to the next positions of sequence 0, one that does not fit changes nothing, and a failing graph takes back
    its own tokens only.
  \<^item> \<open>Context_Init\<close>: the sizes a context gets and its construction. The locale \<open>decoder\<close> is what the application
    relies on, interpreted on \<^verbatim>\<open>llama_decode\<close>.
  \<^item> \<open>Utf8_Check\<close>: \<^verbatim>\<open>_isValidUtf8\<close> and the language it accepts.
  \<^item> \<open>Llm_Inference\<close>: \<^verbatim>\<open>LLMInference\<close>. One call of \<^verbatim>\<open>completionLoop\<close>, the loop of a whole reply (it ends, no
    byte is lost), the history of a turn.
  \<^item> \<open>Smollm_Jni\<close>: the JNI functions over a heap of objects, and what \<^verbatim>\<open>benchModel\<close> does to one. The calls are a step
    relation; every object reachable through it stays usable.
  \<^item> \<open>Vector_DB\<close>: \<^verbatim>\<open>VectorDB\<close> and its JNI functions; the locale \<open>prio_queue\<close> is the contract of
    \<^verbatim>\<open>std::priority_queue\<close>, from which the top-k search is verified.
  \<^item> \<open>Bytes\<close>: byte strings, little-endian fields and decoders that return the rest of their input. The locale \<open>codec\<close>
    is what makes fields compose: reading what was written, in front of any rest, gives it back.
  \<^item> \<open>Ggml_Tensor\<close>: the table of element types, shapes, strides and sizes of tensors (\<^verbatim>\<open>ggml.c\<close>).
  \<^item> \<open>Gguf_Context\<close>: a model file in memory (\<^verbatim>\<open>gguf.cpp\<close>): key-value pairs, getters, setters, tensor
    descriptions. The locale \<open>key_store\<close> is the contract of storing under a key; the dictionary \<open>gguf_dict\<close> is the abstract view.
  \<^item> \<open>Gguf_Read\<close>: \<^verbatim>\<open>gguf_init_from_file_impl\<close> on the bytes of a file: what it returns is well formed, and which
    files end the process. \<open>Gguf_Write\<close>: the writer to a buffer, and that reading undoes it.
  \<^item> \<open>Gguf_Reader\<close>: the JNI functions of \<^verbatim>\<open>GGUFReader.cpp\<close> over a heap of contexts.
  \<^item> \<open>State_Io\<close>: the writers and the reader of saved states (\<^verbatim>\<open>llama-io.cpp\<close>, \<^verbatim>\<open>llama-context.cpp\<close>). The locale
    \<open>io_writer\<close> is what a writer promises, interpreted for the one that only counts, the buffer and the file: a routine
    is shown once to write certain bytes, and then does so on all three.
  \<^item> \<open>Kv_State\<close>: \<^verbatim>\<open>state_write\<close> and \<^verbatim>\<open>state_read\<close> of the KV cache, the cells with the bytes of the key and value
    tensors (\<open>kv_mem\<close>); \<open>enc_state\<close> is the format. \<open>Kv_Restore\<close>: a state read back restores the cells (\<open>stored\<close>: positions,
    sequences, key and value rows). \<open>Kv_Restore_Seq\<close>: the same for one sequence, which is placed wherever there is room, and
    what a refused restore leaves.
  \<^item> \<open>Session\<close>: the state of a context in a buffer and the files of a session and of a sequence, with the prompt.
  \<^item> \<open>Tensor_Alloc\<close>: the dynamic tensor allocator of \<^verbatim>\<open>ggml-alloc.c\<close> (\<^verbatim>\<open>ggml_dyn_tallocr\<close>): free blocks in chunks,
    best fit, merging. The locale \<open>region_alloc\<close> is what an allocator promises (what it hands out was available, what is
    released becomes available); live regions never overlap, and when everything is released no block is lost.
  \<^item> \<open>Graph_Alloc\<close>: the graph allocator (\<^verbatim>\<open>ggml_gallocr_alloc_graph_impl\<close>). The locale is interpreted for the allocators of all
    buffer types together. \<open>live_inv\<close> ties the counters of children and views to the operands still to be used; from it,
    computing a node never overwrites a tensor that is still relied on.
  \<^item> \<open>Graph_Reserve\<close>: \<^verbatim>\<open>ggml_gallocr_reserve_n\<close> and \<^verbatim>\<open>ggml_gallocr_alloc_graph\<close>: a reserved graph gets its planned addresses
    in buffers that are large enough. The plan of one graph is also taken for another with the same sizes, which is not safe.
  \<^item> \<open>Chat_Template\<close>: the built-in chat templates (\<^verbatim>\<open>llama-chat.cpp\<close>), one definition for each branch of
    \<^verbatim>\<open>llm_chat_apply_template\<close>, and the recognition of a template. Renderings grow by appending, no message is lost except in the
    templates named, and every template but one has a name.

  \<^bold>\<open>Conventions.\<close> A failed \<^verbatim>\<open>GGML_ASSERT\<close>, a thrown exception and an access without meaning are values of
  \<open>fault\<close>; a result is \<open>fault + 'a\<close>. Positions, tokens and sequence ids are \<open>int\<close>, sizes are \<open>nat\<close>; a conversion to
  \<^verbatim>\<open>uint32_t\<close> is \<open>u32\<close>, bytes and paddings are \<open>8 word\<close> and \<open>32 word\<close>. \<^verbatim>\<open>assert\<close> is off, as in the release build.

  \<^bold>\<open>Loops and fuel.\<close> The loops are structural or have a measure. \<open>decode_prepare\<close> counts the one retry of
  \<^verbatim>\<open>decode\<close>. \<open>gw_pad\<close>, which writes zeros up to a multiple of the alignment, has the distance to it as measure. \<open>slot_loop\<close>, which in the code can run forever, is a partial function, and it is proved to return. The loop
  of a reply, \<open>respond\<close>, has a bound on the number of calls as an argument; \<open>respond_terminates\<close> says which bound is
  enough: the room left in the context, plus one.

  \<^bold>\<open>Parameters.\<close> The graph of a ubatch (\<open>llama_env\<close>), the float arithmetic of the vector store (\<open>float_ops\<close>), and the
  services of the library the chat uses (\<open>llm_host\<close>: loading, templates, tokenizer, sampler chain, vocabulary) are
  arguments of the definitions, as are the sizes of the structures the GGUF reader allocates (\<open>gguf_abi\<close>) and the files a path opens
  (\<open>fopen\<close>) and what a backend returns when asked for a buffer (\<open>buft_alloc\<close>). The hypotheses on them (\<open>env_ok\<close>, \<open>host_ok\<close>: graphs succeed, tokens are tokens of the
  vocabulary) are named, and the witnesses instantiate them.

  \<^bold>\<open>Not modelled.\<close> Kernels, backends and model graphs (floating point and drivers); embeddings, encoder
  models and backend samplers of the context; memories with sliding windows or recurrent layers; the tokenizer, the Jinja
  template engine, the samplers and grammars; of the GGUF code the creation of a \<^verbatim>\<open>ggml\<close> context with tensor data and
  the writer to a \<^verbatim>\<open>FILE\<close>; of the allocator the allocation of the tensors of a context; the Kotlin application; the
  tools, server and examples of \<^verbatim>\<open>llama.cpp\<close>. The samplers, kernels and graphs compute with floats whose rounding the
  program leaves to the platform; the tokenizer and the template engine are parameters of the chat.
\<close>

end
